(* ===== verification/Prelude.thy ===== *)
theory Prelude
  imports Main "HOL-Library.Word"
begin

text \<open>
  What every theory of the development shares: the names of the machine types, the lemma
  collections, byte-string arithmetic (big- and little-endian values), the ASCII helpers of
  the C locale, and generic facts on lists, options and words.
\<close>

unbundle bit_operations_syntax

type_synonym u8 = "8 word"
type_synonym u16 = "16 word"
type_synonym u32 = "32 word"
type_synonym u64 = "64 word"

text \<open>
  The collections: \<open>model_defs\<close> holds definitions that automation may unfold freely,
  \<open>frame_simps\<close> equations saying which fields an operation leaves alone, and \<open>inv_intros\<close>
  preservation lemmas of component invariants.
\<close>

named_theorems model_defs
named_theorems frame_simps
named_theorems inv_intros

section \<open>Lists\<close>

text \<open>A write at an index that is known to be in range; out of range the list is unchanged.\<close>

lemma nth_list_update_or:
  "j < length xs \<Longrightarrow> (xs[i := v]) ! j = (if i = j then v else xs ! j)"
  by (simp add: nth_list_update)

lemma map_upt_cong:
  "(\<And>i. i < n \<Longrightarrow> f i = g i) \<Longrightarrow> map f [0..<n] = map g [0..<n]"
  by simp

lemma sum_list_update_word:
  fixes xs :: "'a::len word list"
  shows "i < length xs \<Longrightarrow> sum_list (xs[i := xs ! i + d]) = sum_list xs + d"
  by (induction xs arbitrary: i) (auto split: nat.splits simp: algebra_simps)

section \<open>Words\<close>

lemma unat_inc:
  fixes i :: "'a::len word"
  shows "unat i + 1 < 2 ^ LENGTH('a) \<Longrightarrow> unat (i + 1) = unat i + 1"
  by (metis unat_add_lem unat_1)

lemma unat_add_small:
  fixes i :: "'a::len word"
  shows "unat i + unat j < 2 ^ LENGTH('a) \<Longrightarrow> unat (i + j) = unat i + unat j"
  by (metis unat_add_lem)

lemma unat_mult_small:
  fixes i :: "'a::len word"
  shows "unat i * unat j < 2 ^ LENGTH('a) \<Longrightarrow> unat (i * j) = unat i * unat j"
  by (metis unat_mult_lem)

lemma unat_ucast_up:
  fixes x :: "'a::len word"
  assumes "LENGTH('a) \<le> LENGTH('b::len)"
  shows "unat (ucast x :: 'b word) = unat x"
proof -
  have "unat x < 2 ^ LENGTH('a)" by (rule unsigned_less)
  also have "(2 :: nat) ^ LENGTH('a) \<le> 2 ^ LENGTH('b)" using assms by (rule power_increasing) simp
  finally show ?thesis by (simp add: unsigned_ucast_eq take_bit_nat_eq_self)
qed

text \<open>The quotient and remainder of a decomposed number.\<close>

lemma div_mod_decomp:
  fixes k q r :: nat
  assumes "n = k * q + r" "r < k"
  shows "n div k = q" "n mod k = r"
  using assms by auto

section \<open>Word arrays as bit strings\<close>

text \<open>
  An array of words read as one bit string, least significant bit of the first word first.
  The packing and mixing routines are specified on these bit strings.
\<close>

definition bits_at :: "'a::len word list \<Rightarrow> nat \<Rightarrow> bool" where
  "bits_at ws n = bit (ws ! (n div LENGTH('a))) (n mod LENGTH('a))"

lemma bits_at_ext:
  fixes xs ys :: "'a::len word list"
  assumes "length xs = length ys"
    and "\<And>n. n < length xs * LENGTH('a) \<Longrightarrow> bits_at xs n = bits_at ys n"
  shows "xs = ys"
proof (rule nth_equalityI)
  fix i assume i: "i < length xs"
  show "xs ! i = ys ! i"
  proof (rule bit_word_eqI)
    fix j assume j: "j < LENGTH('a)"
    have "i * LENGTH('a) + j < Suc i * LENGTH('a)" using j by simp
    also have "\<dots> \<le> length xs * LENGTH('a)" using i by (intro mult_le_mono1) simp
    finally have "bits_at xs (i * LENGTH('a) + j) = bits_at ys (i * LENGTH('a) + j)"
      by (rule assms(2))
    then show "bit (xs ! i) j = bit (ys ! i) j"
      using j by (simp add: bits_at_def)
  qed
qed (rule assms(1))

lemma bit_foldl_or:
  fixes v :: "'a::len word"
  shows "bit (foldl (\<lambda>v x. v OR f x) v xs) n \<longleftrightarrow> bit v n \<or> (\<exists>x\<in>set xs. bit (f x) n)"
  by (induction xs arbitrary: v) (auto simp: bit_or_iff)

lemma bits_at_update:
  fixes ws :: "'a::len word list"
  assumes "i < length ws" "n < length ws * LENGTH('a)"
  shows "bits_at (ws[i := v]) n =
    (if n div LENGTH('a) = i then bit v (n mod LENGTH('a)) else bits_at ws n)"
proof -
  have "n div LENGTH('a) < length ws" using assms(2) by (simp add: less_mult_imp_div_less)
  then show ?thesis by (auto simp: bits_at_def nth_list_update)
qed

text \<open>A word whose value fits in \<open>k\<close> bits has no bit at or above \<open>k\<close>.\<close>

lemma bit_high_False:
  fixes v :: "'a::len word"
  assumes "unat v < 2 ^ k" "k \<le> n"
  shows "\<not> bit v n"
proof -
  have "bit v n = bit (unat v) n" by (simp add: bit_unsigned_iff bit_imp_le_length)
  moreover have "take_bit k (unat v) = unat v" using assms(1) by (simp add: take_bit_nat_eq_self)
  ultimately show ?thesis using assms(2) by (metis bit_take_bit_iff linorder_not_le)
qed

text \<open>No bit is set at or above \<open>d\<close> exactly when the value is below \<open>2 ^ d\<close>.\<close>

lemma and_not_mask_0:
  fixes v :: "'a::len word"
  assumes "d \<le> LENGTH('a)"
  shows "v AND NOT (mask d) = 0 \<longleftrightarrow> unat v < 2 ^ d"
proof -
  have "v AND NOT (mask d) = 0 \<longleftrightarrow> take_bit d v = v"
    by (auto simp: bit_eq_iff bit_and_iff bit_not_iff bit_mask_iff bit_take_bit_iff)
  also have "\<dots> \<longleftrightarrow> take_bit d (unat v) = unat v"
    by (simp add: word_unat_eq_iff unsigned_take_bit_eq assms)
  also have "\<dots> \<longleftrightarrow> unat v < 2 ^ d" by (rule take_bit_nat_eq_self_iff)
  finally show ?thesis .
qed

text \<open>Shifting a byte into the low end of a word that has room for it.\<close>

lemma unat_push8_or:
  fixes t :: "'a::len word" and b :: u8
  assumes len: "8 < LENGTH('a)" and t: "unat t * 256 + 255 < 2 ^ LENGTH('a)"
  shows "unat (push_bit 8 t OR ucast b) = unat t * 256 + unat b"
proof -
  have "unat b < 256" using unsigned_less [of b] by simp
  then have b: "unat b \<le> 255" by simp
  have ub: "unat (ucast b :: 'a word) = unat b" using len by (intro unat_ucast_up) simp
  have "\<not> bit (push_bit 8 t) n \<or> \<not> bit (ucast b :: 'a word) n" for n
    by (auto simp: bit_push_bit_iff bit_unsigned_iff dest: bit_imp_le_length)
  then have "push_bit 8 t OR ucast b = push_bit 8 t + ucast b"
    by (simp add: disjunctive_add)
  moreover have "unat (push_bit 8 t) = unat t * 256"
    using t unfolding unsigned_push_bit_eq by (simp add: push_bit_eq_mult take_bit_nat_eq_self)
  ultimately show ?thesis
    using t b ub unat_add_small [of "push_bit 8 t" "ucast b"] by simp
qed
section \<open>Values of byte strings\<close>

text \<open>The number a byte string denotes, most significant byte first.\<close>

definition be_nat :: "u8 list \<Rightarrow> nat" where
  "be_nat bs = foldl (\<lambda>acc b. acc * 256 + unat b) 0 bs"

lemma be_nat_Nil [simp]: "be_nat [] = 0"
  by (simp add: be_nat_def)

lemma be_nat_snoc [simp]: "be_nat (bs @ [b]) = be_nat bs * 256 + unat b"
  by (simp add: be_nat_def)

lemma be_nat_less: "be_nat bs < 256 ^ length bs"
proof (induction bs rule: rev_induct)
  case Nil
  then show ?case by simp
next
  case (snoc b bs)
  have "unat b < 256" using unsigned_less [of b] by simp
  with snoc show ?case by simp
qed

lemma be_nat_append: "be_nat (xs @ ys) = be_nat xs * 256 ^ length ys + be_nat ys"
  by (induction ys rule: rev_induct) (simp_all add: algebra_simps flip: append_assoc)

text \<open>The number denoted with the least significant byte first.\<close>

primrec le_nat :: "u8 list \<Rightarrow> nat" where
  "le_nat [] = 0"
| "le_nat (b # bs) = unat b + 256 * le_nat bs"

lemma le_nat_less: "le_nat bs < 256 ^ length bs"
proof (induction bs)
  case Nil
  then show ?case by simp
next
  case (Cons b bs)
  have "unat b < 256" using unsigned_less [of b] by simp
  with Cons show ?case by simp
qed

section \<open>Characters of the C locale\<close>

text \<open>\<open>std::tolower\<close> of an unsigned char in the C locale.\<close>

definition tolower :: "char \<Rightarrow> char" where
  "tolower c = (let n = (of_char c :: nat) in if 65 \<le> n \<and> n \<le> 90 then char_of (n + 32) else c)"

definition lower :: "string \<Rightarrow> string" where
  "lower s = map tolower s"

lemma tolower_idem [simp]: "tolower (tolower c) = tolower c"
proof (cases "65 \<le> (of_char c :: nat) \<and> (of_char c :: nat) \<le> 90")
  case True
  then have "(of_char (char_of (of_char c + 32 :: nat)) :: nat) = of_char c + 32"
    by (simp add: of_char_of)
  with True show ?thesis by (simp add: tolower_def Let_def)
next
  case False
  then show ?thesis by (auto simp: tolower_def Let_def)
qed

lemma lower_idem [simp]: "lower (lower s) = lower s"
  by (simp add: lower_def)

lemma length_lower [simp]: "length (lower s) = length s"
  by (simp add: lower_def)

end
