(* ===== verification/BeamPrimitives.thy ===== *)
theory BeamPrimitives
  imports Prelude
begin

text \<open>
  BeamHash III primitives (src/beamhash/bh3_types.h, bh3_primitives.h, bh3_blake2b.cpp): the
  seven-word work element, the keyed SipHash variant that seeds it, the mixing and combining
  steps of a Wagner round, the 25-bit index packing of a solution, and the pre-work digest.
  The Blake2b compression itself is a vendored library and is a parameter of
  \<open>compute_prepow\<close>.
\<close>

section \<open>Types and constants\<close>

definition kWorkWords :: nat where "kWorkWords = 7"
definition kNumRounds :: nat where "kNumRounds = 5"
definition kCollisionBits :: nat where "kCollisionBits = 24"
definition kNumIndices :: nat where "kNumIndices = 32"
definition kSolutionBytes :: nat where "kSolutionBytes = 104"
definition kIndexPackBits :: nat where "kIndexPackBits = 25"

lemmas bh3_consts [model_defs] =
  kWorkWords_def kNumRounds_def kCollisionBits_def kNumIndices_def kSolutionBytes_def
  kIndexPackBits_def

text \<open>\<open>struct Elem\<close>: the array \<open>w[kWorkWords]\<close>, least significant word first.\<close>

record elem =
  elem_w :: "u64 list"

definition wf_elem :: "elem \<Rightarrow> bool" where
  "wf_elem e \<longleftrightarrow> length (elem_w e) = kWorkWords"

section \<open>Seeding\<close>

definition rotl64 :: "u64 \<Rightarrow> nat \<Rightarrow> u64" where
  "rotl64 x b = push_bit b x OR drop_bit (64 - b) x"

text \<open>The body both loops of \<open>siphash24\<close> share: one SipHash round over (v0, v1, v2, v3).\<close>

fun sip_round :: "u64 \<times> u64 \<times> u64 \<times> u64 \<Rightarrow> u64 \<times> u64 \<times> u64 \<times> u64" where
  "sip_round (v0, v1, v2, v3) =
    (let v0 = v0 + v1; v2 = v2 + v3; v1 = rotl64 v1 13; v3 = rotl64 v3 16;
         v1 = v1 XOR v0; v3 = v3 XOR v2; v0 = rotl64 v0 32;
         v2 = v2 + v1; v0 = v0 + v3; v1 = rotl64 v1 17; v3 = rotl64 v3 21;
         v1 = v1 XOR v2; v3 = v3 XOR v0; v2 = rotl64 v2 32
     in (v0, v1, v2, v3))"

definition siphash24 :: "u64 \<Rightarrow> u64 \<Rightarrow> u64 \<Rightarrow> u64 \<Rightarrow> u64 \<Rightarrow> u64" where
  "siphash24 k0 k1 k2 k3 nonce =
    (let (v0, v1, v2, v3) = (sip_round ^^ 2) (k0, k1, k2, k3 XOR nonce);
         (v0, v1, v2, v3) = (sip_round ^^ 4) (v0 XOR nonce, v1, v2 XOR 0xff, v3)
     in v0 XOR v1 XOR v2 XOR v3)"

text \<open>\<open>prePow\<close> has four words; \<open>(uint64_t)index << 3\<close> zero-extends first.\<close>

definition seed_element :: "u64 list \<Rightarrow> u32 \<Rightarrow> elem" where
  "seed_element prePow index =
    \<lparr>elem_w = map (\<lambda>k. siphash24 (prePow ! 0) (prePow ! 1) (prePow ! 2) (prePow ! 3)
                        (push_bit 3 (ucast index) + of_nat k)) [0..<kWorkWords]\<rparr>"

definition collision_bits :: "elem \<Rightarrow> u32" where
  "collision_bits e = ucast (elem_w e ! 0 AND 0xFFFFFF)"

section \<open>Mixing\<close>

text \<open>
  One step of the padding loop: a tree index is ORed into the 512-bit buffer at bit \<open>pos\<close>,
  spilling into the next word when its 25 bits straddle a boundary and there is a next word.
\<close>

definition mix_put :: "u64 list \<Rightarrow> u32 \<Rightarrow> u32 \<Rightarrow> u64 list" where
  "mix_put t pos x =
    (let v = ucast x :: u64;
         wd = unat (drop_bit 6 pos);
         sh = unat (pos AND 63);
         t' = t[wd := t ! wd OR push_bit sh v]
     in if sh > 39 \<and> wd < 7
        then t'[wd + 1 := t' ! (wd + 1) OR drop_bit (64 - sh) v] else t')"

text \<open>The loop itself; the list argument holds the indices still to place.\<close>

fun mix_pad :: "u32 \<Rightarrow> u32 \<Rightarrow> u32 list \<Rightarrow> u64 list \<Rightarrow> u64 list" where
  "mix_pad Lmix i [] t = t"
| "mix_pad Lmix i (x # xs) t =
    (let pos = Lmix + i * 25 in
     if pos \<ge> 512 then t else mix_pad Lmix (i + 1) xs (mix_put t pos x))"

definition mix_padnum :: "u32 \<Rightarrow> u32 \<Rightarrow> u32" where
  "mix_padnum treeLen Lmix =
    (let padNum = ((512 - Lmix) + 24) div 25 in if padNum > treeLen then treeLen else padNum)"

definition mix_rot :: "nat list" where
  "mix_rot = [29, 58, 23, 52, 17, 46, 11, 40]"

definition mix_digest :: "u64 list \<Rightarrow> u64" where
  "mix_digest t = rotl64 (foldl (\<lambda>r i. r + rotl64 (t ! i) (mix_rot ! i)) 0 [0..<8]) 24"

definition mix_buffer :: "elem \<Rightarrow> u32 list \<Rightarrow> u32 \<Rightarrow> u32 \<Rightarrow> u64 list" where
  "mix_buffer e tree treeLen Lmix =
    mix_pad Lmix 0 (take (unat (mix_padnum treeLen Lmix)) tree)
      (map (\<lambda>i. elem_w e ! i) [0..<kWorkWords] @ [0])"

definition apply_mix :: "elem \<Rightarrow> u32 list \<Rightarrow> u32 \<Rightarrow> u32 \<Rightarrow> elem" where
  "apply_mix e tree treeLen Lmix =
    e\<lparr>elem_w := (elem_w e)[0 := mix_digest (mix_buffer e tree treeLen Lmix)]\<rparr>"

section \<open>Combining\<close>

text \<open>The word \<open>out.w[i]\<close> before and after the truncation to \<open>Lout\<close> bits.\<close>

definition combine_shift :: "u64 list \<Rightarrow> nat \<Rightarrow> u64" where
  "combine_shift x i =
    drop_bit 24 (x ! i) OR (if i < kWorkWords - 1 then push_bit 40 (x ! (i + 1)) else 0)"

definition combine_trunc :: "u32 \<Rightarrow> nat \<Rightarrow> u64 \<Rightarrow> u64" where
  "combine_trunc Lout i ow =
    (let base = 64 * of_nat i :: u32 in
     if base \<ge> Lout then 0
     else if Lout - base < 64 then ow AND (push_bit (unat (Lout - base)) 1 - 1)
     else ow)"

definition combine :: "elem \<Rightarrow> elem \<Rightarrow> u32 \<Rightarrow> elem" where
  "combine a b Lout =
    (let x = map (\<lambda>i. elem_w a ! i XOR elem_w b ! i) [0..<kWorkWords]
     in \<lparr>elem_w = map (\<lambda>i. combine_trunc Lout i (combine_shift x i)) [0..<kWorkWords]\<rparr>)"

section \<open>Index packing\<close>

definition pack_bit :: "u32 list \<Rightarrow> u8 list \<Rightarrow> nat \<times> nat \<Rightarrow> u8 list" where
  "pack_bit idx out kb =
    (case kb of (k, b) \<Rightarrow>
      if drop_bit b (idx ! k) AND 1 \<noteq> 0
      then (let pos = kIndexPackBits * k + b
            in out[pos div 8 := out ! (pos div 8) OR push_bit (pos mod 8) 1])
      else out)"

definition pack_indices :: "u32 list \<Rightarrow> u8 list" where
  "pack_indices idx =
    foldl (pack_bit idx) (replicate 100 0)
      (concat (map (\<lambda>k. map (\<lambda>b. (k, b)) [0..<kIndexPackBits]) [0..<kNumIndices]))"

definition unpack_index :: "u8 list \<Rightarrow> nat \<Rightarrow> u32" where
  "unpack_index soln k =
    foldl (\<lambda>v b. let pos = kIndexPackBits * k + b
                 in v OR push_bit b (ucast (drop_bit (pos mod 8) (soln ! (pos div 8)) AND 1)))
      0 [0..<kIndexPackBits]"

definition unpack_indices :: "u8 list \<Rightarrow> u32 list" where
  "unpack_indices soln = map (unpack_index soln) [0..<kNumIndices]"

section \<open>The pre-work digest\<close>

text \<open>
  \<open>compute_prepow\<close>: Blake2b with a 32-byte digest, fanout and depth 1 and a 16-byte
  personalisation, over input, nonce and extra nonce in that order. \<open>b2b digest_length fanout
  depth personal message\<close> is the vendored hash.
\<close>

type_synonym blake2b = "nat \<Rightarrow> nat \<Rightarrow> nat \<Rightarrow> u8 list \<Rightarrow> u8 list \<Rightarrow> u8 list"

definition prepow_personal :: "u8 list" where
  "prepow_personal =
    map (\<lambda>c. of_char c) ''Beam-PoW'' @ [0xc0, 0x01, 0x00, 0x00, 0x05, 0x00, 0x00, 0x00]"

definition le_word64 :: "u8 list \<Rightarrow> nat \<Rightarrow> u64" where
  "le_word64 out i = foldl (\<lambda>v j. v OR push_bit (8 * j) (ucast (out ! (i * 8 + j)))) 0 [0..<8]"

definition compute_prepow :: "blake2b \<Rightarrow> u8 list \<Rightarrow> u8 list \<Rightarrow> u8 list \<Rightarrow> u64 list" where
  "compute_prepow b2b input nonce extraNonce =
    (let out = b2b 32 1 1 prepow_personal (input @ nonce @ extraNonce)
     in map (le_word64 out) [0..<4])"

section \<open>What the primitives compute\<close>

lemma wf_seed_element [simp]: "wf_elem (seed_element p i)"
  by (simp add: wf_elem_def seed_element_def)

lemma wf_apply_mix [simp]: "wf_elem (apply_mix e t n l) = wf_elem e"
  by (simp add: wf_elem_def apply_mix_def)

lemma wf_combine [simp]: "wf_elem (combine a b l)"
  by (simp add: wf_elem_def combine_def Let_def)

lemma length_mix_put [simp]: "length (mix_put t pos x) = length t"
  by (simp add: mix_put_def Let_def)

lemma length_mix_pad [simp]: "length (mix_pad l i xs t) = length t"
  by (induction l i xs t rule: mix_pad.induct) (simp_all add: Let_def)

text \<open>
  Placing a 25-bit index adds exactly its bits at \<open>pos\<close>: nothing is lost at a word boundary,
  and only bits beyond the 512th are dropped.
\<close>

lemma mix_put_bits:
  assumes len: "length t = 8" and pos: "unat pos < 512" and x: "unat x < 2 ^ 25" and n: "n < 512"
  shows "bits_at (mix_put t pos x) n \<longleftrightarrow>
    bits_at t n \<or> (unat pos \<le> n \<and> bit x (n - unat pos))"
proof -
  let ?v = "ucast x :: u64"
  define wd where "wd = unat pos div 64"
  define sh where "sh = unat pos mod 64"
  have wd8: "wd < 8" using pos by (simp add: wd_def)
  have posE: "unat pos = 64 * wd + sh" by (simp add: wd_def sh_def)
  have e1: "unat (drop_bit 6 pos) = wd"
    by (simp add: wd_def drop_bit_eq_div unat_div)
  have "pos AND 63 = take_bit 6 pos"
    by (simp add: take_bit_eq_mask mask_numeral flip: and.commute)
  then have e2: "unat (pos AND 63) = sh"
    by (simp add: sh_def take_bit_eq_mod unat_mod)
  have hi: "\<not> bit x k" if "25 \<le> k" for k using bit_high_False [OF x that] .
  have bv: "bit ?v k = bit x k" for k
    using hi [of k] by (cases "25 \<le> k") (auto simp: bit_unsigned_iff)
  define q where "q = n div 64"
  define r where "r = n mod 64"
  have nE: "n = 64 * q + r" and r: "r < 64" by (simp_all add: q_def r_def)
  have q8: "q < 8" using n by (simp add: q_def)
  have sh64: "sh < 64" by (simp add: sh_def)
  define t' where "t' = t[wd := t ! wd OR push_bit sh ?v]"
  have put: "mix_put t pos x = (if sh > 39 \<and> wd < 7
      then t'[wd + 1 := t' ! (wd + 1) OR drop_bit (64 - sh) ?v] else t')"
    by (simp add: mix_put_def e1 e2 t'_def Let_def)
  have at: "bits_at u n = bit (u ! q) r" for u :: "u64 list"
    by (simp add: bits_at_def q_def r_def)
  have t'q: "bit (t' ! q) r = (bit (t ! q) r \<or> (q = wd \<and> sh \<le> r \<and> bit x (r - sh)))"
    using len wd8 q8 r
    by (auto simp: t'_def nth_list_update bit_or_iff bit_push_bit_iff bv)
  consider "q < wd" | "q = wd" | "q = wd + 1" | "q > wd + 1" by linarith
  then show ?thesis
  proof cases
    case 1
    then have "\<not> unat pos \<le> n" using posE nE r by linarith
    with 1 t'q show ?thesis by (auto simp: at put nth_list_update)
  next
    case 2
    then have "unat pos \<le> n \<longleftrightarrow> sh \<le> r" "n - unat pos = r - sh" using posE nE by auto
    with 2 t'q show ?thesis by (auto simp: at put nth_list_update)
  next
    case 3
    then have le: "unat pos \<le> n" and d: "n - unat pos = r + (64 - sh)"
      using posE nE sh64 by auto
    have "\<not> sh > 39 \<Longrightarrow> \<not> bit x (r + (64 - sh))" by (rule hi) simp
    moreover have "wd < 7" "length t' = 8" using 3 q8 len by (simp_all add: t'_def)
    moreover have "bit (drop_bit (64 - sh) ?v) r = bit x (r + (64 - sh))"
      by (simp add: bit_drop_bit_eq bv add.commute)
    ultimately show ?thesis using 3 le d t'q
      by (auto simp: at put nth_list_update bit_or_iff)
  next
    case 4
    then have "n - unat pos \<ge> 25" using posE nE sh64 by linarith
    with 4 t'q show ?thesis using hi by (auto simp: at put nth_list_update)
  qed
qed

text \<open>
  The whole padding loop: index \<open>k\<close> of the remaining list ends up at bit
  \<open>Lmix + 25 (i + k)\<close>, for every bit of the 512-bit buffer.
\<close>

lemma mix_pad_bits:
  assumes "length t = 8" and "\<forall>x\<in>set xs. unat x < 2 ^ 25" and "n < 512"
    and "unat l + 25 * (unat i + length xs) < 2 ^ 32"
  shows "bits_at (mix_pad l i xs t) n \<longleftrightarrow>
    bits_at t n \<or>
    (\<exists>k<length xs. unat l + 25 * (unat i + k) \<le> n
       \<and> bit (xs ! k) (n - (unat l + 25 * (unat i + k))))"
  using assms
proof (induction l i xs t rule: mix_pad.induct)
  case (1 l i t)
  then show ?case by simp
next
  case (2 l i x xs t)
  define p where "p = l + i * 25"
  have i25: "unat i * 25 < 2 ^ 32" using "2.prems"(4) by (simp add: algebra_simps)
  have "unat (i * 25) = unat i * 25" using i25 unat_mult_small [of i 25] by simp
  then have pE: "unat p = unat l + 25 * unat i"
    using "2.prems"(4) unat_add_small [of l "i * 25"] by (simp add: p_def)
  have i1: "unat (i + 1) = unat i + 1"
    using i25 by (intro unat_inc) simp
  show ?case
  proof (cases "p \<ge> 512")
    case True
    then have "unat p \<ge> 512" by (simp add: word_le_nat_alt)
    then show ?thesis using True "2.prems"(3) pE by (auto simp: p_def)
  next
    case False
    then have p512: "unat p < 512" by (simp add: word_le_nat_alt)
    have ih: "bits_at (mix_pad l (i + 1) xs (mix_put t p x)) n \<longleftrightarrow>
        bits_at (mix_put t p x) n \<or>
        (\<exists>k<length xs. unat l + 25 * (unat (i + 1) + k) \<le> n
           \<and> bit (xs ! k) (n - (unat l + 25 * (unat (i + 1) + k))))"
      using False "2.prems" by (intro "2.IH") (auto simp: p_def i1)
    have put: "bits_at (mix_put t p x) n \<longleftrightarrow>
        bits_at t n \<or> (unat p \<le> n \<and> bit x (n - unat p))"
      using "2.prems" p512 by (intro mix_put_bits) auto
    have eq: "mix_pad l i (x # xs) t = mix_pad l (i + 1) xs (mix_put t p x)"
      using False by (simp add: p_def Let_def)
    show ?thesis
      unfolding eq ih put i1 pE by (simp add: Ex_less_Suc2 algebra_simps)
  qed
qed

lemma unat_mix_padnum:
  assumes "unat Lmix \<le> 512"
  shows "unat (mix_padnum treeLen Lmix) = min (unat treeLen) ((536 - unat Lmix) div 25)"
proof -
  have "unat (536 - Lmix) = 536 - unat Lmix"
    using assms by (simp add: unat_sub word_le_nat_alt)
  then show ?thesis
    by (auto simp: mix_padnum_def Let_def unat_div word_less_nat_alt min_def)
qed

text \<open>
  The 512 bits that \<open>apply_mix\<close> digests: the element's own bits below \<open>Lmix\<close>, then the
  tree indices as consecutive 25-bit fields, as many of them as fit or exist.
\<close>

lemma mix_buffer_bits:
  assumes wf: "wf_elem e" and L: "unat Lmix \<le> 448" "n < 512"
    and tree: "length tree = unat treeLen" "\<forall>x\<in>set tree. unat x < 2 ^ 25"
    and top: "\<And>k. unat Lmix \<le> k \<Longrightarrow> k < 448 \<Longrightarrow> \<not> bits_at (elem_w e) k"
  shows "bits_at (mix_buffer e tree treeLen Lmix) n \<longleftrightarrow>
    (if n < unat Lmix then bits_at (elem_w e) n
     else (n - unat Lmix) div 25 < length tree
          \<and> bit (tree ! ((n - unat Lmix) div 25)) ((n - unat Lmix) mod 25))"
proof -
  let ?L = "unat Lmix"
  define m where "m = unat (mix_padnum treeLen Lmix)"
  have mE: "m = min (length tree) ((536 - ?L) div 25)"
    using L tree by (simp add: m_def unat_mix_padnum)
  have mle: "m \<le> 21" using mE L by linarith
  define t0 where "t0 = map (\<lambda>i. elem_w e ! i) [0..<kWorkWords] @ [0 :: u64]"
  have "map (\<lambda>i. elem_w e ! i) [0..<kWorkWords] = elem_w e"
    using wf map_nth [of "elem_w e"] by (simp add: wf_elem_def)
  then have t0: "t0 = elem_w e @ [0]" by (simp add: t0_def)
  have len: "length (elem_w e) = 7" using wf by (simp add: wf_elem_def kWorkWords_def)
  have t0b: "bits_at t0 n \<longleftrightarrow> n < ?L \<and> bits_at (elem_w e) n"
  proof (cases "n < 448")
    case True
    then have "n div 64 < 7" by simp
    then have "bits_at t0 n = bits_at (elem_w e) n" by (simp add: bits_at_def t0 nth_append len)
    with True top show ?thesis by (meson linorder_not_le)
  next
    case False
    with L(2) have "n div 64 = 7" by simp
    with False L(1) show ?thesis by (simp add: bits_at_def t0 nth_append len)
  qed
  define xs where "xs = take m tree"
  have xs25: "\<forall>x\<in>set xs. unat x < 2 ^ 25" using tree(2) by (auto simp: xs_def dest: in_set_takeD)
  have lxs: "length xs = m" using mE by (simp add: xs_def)
  have "bits_at (mix_pad Lmix 0 xs t0) n \<longleftrightarrow> bits_at t0 n \<or>
      (\<exists>k<length xs. ?L + 25 * (unat (0::u32) + k) \<le> n
         \<and> bit (xs ! k) (n - (?L + 25 * (unat (0::u32) + k))))"
    using xs25 L lxs mle by (intro mix_pad_bits) (simp_all add: t0 len)
  then have B: "bits_at (mix_buffer e tree treeLen Lmix) n \<longleftrightarrow> bits_at t0 n \<or>
      (\<exists>k<m. ?L + 25 * k \<le> n \<and> bit (tree ! k) (n - (?L + 25 * k)))"
    by (auto simp: mix_buffer_def m_def [symmetric] xs_def [symmetric] t0_def lxs) (auto simp: xs_def)
  show ?thesis
  proof (cases "n < ?L")
    case True
    then show ?thesis by (auto simp: B t0b)
  next
    case False
    define d where "d = n - ?L"
    have nE: "n = ?L + d" using False by (simp add: d_def)
    have hi: "\<not> bit (tree ! k) j" if "k < m" "25 \<le> j" for k j
      using tree(2) mE that by (intro bit_high_False [where k = 25]) auto
    have "(\<exists>k<m. ?L + 25 * k \<le> n \<and> bit (tree ! k) (n - (?L + 25 * k))) \<longleftrightarrow>
        d div 25 < m \<and> bit (tree ! (d div 25)) (d mod 25)" (is "?A \<longleftrightarrow> ?B")
    proof
      assume ?A
      then obtain k where k: "k < m" "25 * k \<le> d" "bit (tree ! k) (d - 25 * k)"
        by (auto simp: nE)
      then have "d - 25 * k < 25" using hi by (meson linorder_not_le)
      then have "d div 25 = k" "d mod 25 = d - 25 * k" using k(2)
        by (auto simp: Euclidean_Rings.div_nat_eqI mod_eq_self_iff_div_eq_0 modulo_nat_def)
      with k show ?B by simp
    next
      assume ?B
      moreover have "25 * (d div 25) \<le> d" "d - 25 * (d div 25) = d mod 25"
        by (simp_all add: minus_mult_div_eq_mod)
      ultimately show ?A by (auto simp: nE intro!: exI [of _ "d div 25"])
    qed
    moreover have "d div 25 < m \<longleftrightarrow> d div 25 < length tree"
    proof -
      have "d < 512 - ?L" using L(2) nE by linarith
      then have "d div 25 < (536 - ?L) div 25" by linarith
      then show ?thesis by (simp add: mE)
    qed
    ultimately show ?thesis using False by (simp add: B t0b d_def)
  qed
qed

text \<open>\<open>combine\<close>: the 448-bit exclusive or, shifted down by the 24 collision bits and cut to \<open>Lout\<close>.\<close>

lemma combine_trunc_bit:
  assumes "i < 7" "r < 64"
  shows "bit (combine_trunc Lout i ow) r \<longleftrightarrow> bit ow r \<and> 64 * i + r < unat Lout"
proof -
  have b: "unat (64 * of_nat i :: u32) = 64 * i"
    using assms(1) by (simp add: unat_word_ariths unat_of_nat)
  define d where "d = unat (Lout - 64 * of_nat i)"
  show ?thesis
  proof (cases "64 * of_nat i \<ge> Lout")
    case True
    then have "unat Lout \<le> 64 * i" by (simp add: word_le_nat_alt b)
    then show ?thesis using True by (simp add: combine_trunc_def Let_def)
  next
    case False
    then have lt: "64 * of_nat i \<le> Lout" by simp
    then have d: "d = unat Lout - 64 * i" "64 * i < unat Lout"
      using False by (simp_all add: d_def unat_sub b word_le_nat_alt)
    have m: "bit (push_bit d 1 - 1 :: u64) r \<longleftrightarrow> r < d" if "d < 64"
      using assms(2) that by (simp add: bit_mask_iff flip: mask_eq_exp_minus_1)
    have s: "Lout - 64 * of_nat i < 64 \<longleftrightarrow> d < 64"
      by (simp add: word_less_nat_alt d_def)
    show ?thesis
      using False assms(2) d m
      by (auto simp: combine_trunc_def Let_def s bit_and_iff d_def [symmetric])
  qed
qed

lemma combine_bits:
  assumes "n < 448"
  shows "bits_at (elem_w (combine a b Lout)) n \<longleftrightarrow>
    n < unat Lout \<and> n + 24 < 448 \<and>
    bits_at (elem_w a) (n + 24) \<noteq> bits_at (elem_w b) (n + 24)"
proof -
  define i where "i = n div 64"
  define r where "r = n mod 64"
  have nE: "n = 64 * i + r" and r: "r < 64" and i: "i < 7"
    using assms by (simp_all add: i_def r_def)
  define x where "x = map (\<lambda>i. elem_w a ! i XOR elem_w b ! i) [0..<kWorkWords]"
  have xi: "x ! j = elem_w a ! j XOR elem_w b ! j" if "j < 7" for j
    using that by (simp add: x_def kWorkWords_def)
  have C: "bits_at (elem_w (combine a b Lout)) n \<longleftrightarrow> bit (combine_shift x i) r \<and> n < unat Lout"
    using i r nE by (simp add: bits_at_def combine_def Let_def x_def kWorkWords_def
        combine_trunc_bit flip: i_def r_def)
  have S: "bit (combine_shift x i) r \<longleftrightarrow>
      bit (x ! i) (r + 24) \<or> (i < 6 \<and> 40 \<le> r \<and> bit (x ! (i + 1)) (r - 40))"
    using r by (simp add: combine_shift_def bit_or_iff bit_drop_bit_eq bit_push_bit_iff
        kWorkWords_def add.commute)
  have "bit (combine_shift x i) r \<longleftrightarrow>
      n + 24 < 448 \<and> bits_at (elem_w a) (n + 24) \<noteq> bits_at (elem_w b) (n + 24)"
  proof (cases "r < 40")
    case True
    then have "n + 24 = 64 * i + (r + 24)" "r + 24 < 64" and lt: "n + 24 < 448"
      using nE i by auto
    note dm = div_mod_decomp [OF this(1,2)]
    show ?thesis unfolding S bits_at_def using True i lt by (simp add: dm xi bit_xor_iff)
  next
    case False
    then have "n + 24 = 64 * (i + 1) + (r - 40)" "r - 40 < 64" and d: "n + 24 < 448 \<longleftrightarrow> i < 6"
      using nE i r by auto
    note dm = div_mod_decomp [OF this(1,2)]
    have "\<not> bit (x ! i) (r + 24)" using False bit_imp_le_length [of "x ! i" "r + 24"] by auto
    then show ?thesis unfolding S d bits_at_def using False
      by (cases "i < 6") (simp_all add: dm xi bit_xor_iff)
  qed
  with C show ?thesis by blast
qed

text \<open>Packing and unpacking, bit by bit.\<close>

lemma odd_and_1: "(v :: 'a::len word) AND 1 \<noteq> 0 \<longleftrightarrow> bit v 0"
  by (simp add: and_one_eq mod_2_eq_odd bit_0)

lemma pack_bit_bits:
  assumes "length out = 100" "k < 32" "b < 25" "n < 800"
  shows "bits_at (pack_bit idx out (k, b)) n \<longleftrightarrow>
    bits_at out n \<or> (n = 25 * k + b \<and> bit (idx ! k) b)"
proof (cases "bit (idx ! k) b")
  case True
  define p where "p = 25 * k + b"
  have p: "p < 800" using assms by (simp add: p_def)
  have "pack_bit idx out (k, b) = out[p div 8 := out ! (p div 8) OR push_bit (p mod 8) 1]"
    using True by (simp add: pack_bit_def odd_and_1 bit_drop_bit_eq kIndexPackBits_def p_def Let_def)
  then have upd: "bits_at (pack_bit idx out (k, b)) n \<longleftrightarrow>
      (if n div 8 = p div 8 then bit (out ! (p div 8) OR push_bit (p mod 8) 1) (n mod 8)
       else bits_at out n)"
    using assms(1,4) p by (simp add: bits_at_update)
  have bit1: "bit (push_bit (p mod 8) (1 :: u8)) (n mod 8) \<longleftrightarrow> n mod 8 = p mod 8"
    by (auto simp: bit_exp_iff)
  have eq: "n = p \<longleftrightarrow> n div 8 = p div 8 \<and> n mod 8 = p mod 8"
    by (metis div_mult_mod_eq)
  show ?thesis
  proof (cases "n div 8 = p div 8")
    case same: True
    then have "bits_at (pack_bit idx out (k, b)) n \<longleftrightarrow> bits_at out n \<or> n mod 8 = p mod 8"
      unfolding upd by (auto simp: bit_or_iff bit_exp_iff bits_at_def)
    with same eq True show ?thesis by (simp add: p_def)
  next
    case diff: False
    then have "n \<noteq> p" by blast
    with diff show ?thesis by (simp add: upd p_def)
  qed
next
  case False
  then show ?thesis
    by (simp add: pack_bit_def odd_and_1 bit_drop_bit_eq)
qed

lemma length_pack_bit [simp]: "length (pack_bit idx out kb) = length out"
  by (simp add: pack_bit_def Let_def split: prod.splits)

lemma pack_foldl_bits:
  assumes "length out = 100" "set ps \<subseteq> {..<32} \<times> {..<25}" "n < 800"
  shows "bits_at (foldl (pack_bit idx) out ps) n \<longleftrightarrow>
    bits_at out n \<or> (\<exists>(k, b)\<in>set ps. n = 25 * k + b \<and> bit (idx ! k) b)"
  using assms
proof (induction ps arbitrary: out)
  case Nil
  then show ?case by simp
next
  case (Cons kb ps)
  obtain k b where kb: "kb = (k, b)" by fastforce
  have "bits_at (foldl (pack_bit idx) (pack_bit idx out kb) ps) n \<longleftrightarrow>
      bits_at (pack_bit idx out kb) n \<or> (\<exists>(k, b)\<in>set ps. n = 25 * k + b \<and> bit (idx ! k) b)"
    using Cons.prems by (intro Cons.IH) auto
  moreover have "bits_at (pack_bit idx out kb) n \<longleftrightarrow>
      bits_at out n \<or> (n = 25 * k + b \<and> bit (idx ! k) b)"
    using Cons.prems by (simp add: kb pack_bit_bits)
  ultimately show ?case by (auto simp: kb)
qed

lemma length_pack_indices [simp]: "length (pack_indices idx) = 100"
proof -
  have "length (foldl (pack_bit idx) out ps) = length out" for out ps
    by (induction ps arbitrary: out) simp_all
  then show ?thesis by (simp add: pack_indices_def)
qed

lemma pack_indices_bits:
  assumes "n < 800"
  shows "bits_at (pack_indices idx) n \<longleftrightarrow> bit (idx ! (n div 25)) (n mod 25)"
proof -
  define ps where "ps = concat (map (\<lambda>k. map (\<lambda>b. (k, b)) [0..<kIndexPackBits]) [0..<kNumIndices])"
  have ps: "set ps = {..<32} \<times> {..<25}"
    by (auto simp: ps_def kIndexPackBits_def kNumIndices_def)
  have "n div 8 < 100" using assms by simp
  then have "\<not> bits_at (replicate 100 (0 :: u8)) n" by (simp add: bits_at_def)
  then have "bits_at (pack_indices idx) n \<longleftrightarrow>
      (\<exists>(k, b)\<in>set ps. n = 25 * k + b \<and> bit (idx ! k) b)"
    using assms ps by (simp add: pack_indices_def pack_foldl_bits flip: ps_def)
  also have "\<dots> \<longleftrightarrow> bit (idx ! (n div 25)) (n mod 25)"
  proof
    assume "bit (idx ! (n div 25)) (n mod 25)"
    moreover have "(n div 25, n mod 25) \<in> set ps" "n = 25 * (n div 25) + n mod 25"
      using assms by (simp_all add: ps)
    ultimately show "\<exists>(k, b)\<in>set ps. n = 25 * k + b \<and> bit (idx ! k) b" by blast
  qed (auto simp: ps)
  finally show ?thesis .
qed

lemma unpack_index_bit:
  "bit (unpack_index soln k) b \<longleftrightarrow> b < 25 \<and> bits_at soln (25 * k + b)"
proof -
  have "bit (push_bit j (ucast (drop_bit s (c :: u8) AND 1)) :: u32) b \<longleftrightarrow> b = j \<and> bit c s"
    if "j < 25" for j s c
    using that by (auto simp: bit_push_bit_iff bit_unsigned_iff bit_and_iff bit_1_iff
        bit_drop_bit_eq dest: bit_imp_le_length)
  then show ?thesis
    by (auto simp: unpack_index_def bit_foldl_or kIndexPackBits_def Let_def bits_at_def)
qed

lemma length_unpack_indices [simp]: "length (unpack_indices soln) = 32"
  by (simp add: unpack_indices_def kNumIndices_def)

lemma nth_unpack_indices: "k < 32 \<Longrightarrow> unpack_indices soln ! k = unpack_index soln k"
  by (simp add: unpack_indices_def kNumIndices_def)

lemma unpack_index_less: "unat (unpack_index soln k) < 2 ^ 25"
proof -
  have "take_bit 25 (unpack_index soln k) = unpack_index soln k"
    by (rule bit_word_eqI) (auto simp: bit_take_bit_iff unpack_index_bit)
  then show ?thesis by (metis take_bit_nat_less_exp unsigned_take_bit_eq)
qed

lemma unpack_pack:
  assumes "length idx = 32" "\<forall>x\<in>set idx. unat x < 2 ^ 25"
  shows "unpack_indices (pack_indices idx) = idx"
proof (rule nth_equalityI)
  fix k assume "k < length (unpack_indices (pack_indices idx))"
  then have k: "k < 32" by simp
  have "bit (unpack_index (pack_indices idx) k) b = bit (idx ! k) b" if "b < 32" for b
  proof (cases "b < 25")
    case True
    then show ?thesis using k by (simp add: unpack_index_bit pack_indices_bits)
  next
    case False
    moreover have "\<not> bit (idx ! k) b" using assms k False
      by (intro bit_high_False [where k = 25]) auto
    ultimately show ?thesis by (simp add: unpack_index_bit)
  qed
  then have "unpack_index (pack_indices idx) k = idx ! k"
    by (intro bit_word_eqI) simp
  then show "unpack_indices (pack_indices idx) ! k = idx ! k"
    using k by (simp add: nth_unpack_indices)
qed (simp add: assms)

lemma pack_unpack:
  assumes "length soln = 100"
  shows "pack_indices (unpack_indices soln) = soln"
proof (rule bits_at_ext)
  fix n assume "n < length (pack_indices (unpack_indices soln)) * LENGTH(8)"
  then have n: "n < 800" by simp
  then have "n div 25 < 32" by simp
  with n show "bits_at (pack_indices (unpack_indices soln)) n = bits_at soln n"
    by (simp add: pack_indices_bits nth_unpack_indices unpack_index_bit)
qed (simp add: assms)

section \<open>Properties\<close>

text \<open>
  C21: a solution's 100 index bytes and its 32 indices of 25 bits determine each other: packing
  then unpacking and unpacking then packing are both the identity.
\<close>
theorem index_packing_roundtrip:
  assumes "length idx = 32" "\<forall>x\<in>set idx. unat x < 2 ^ 25" "length bytes = 100"
  shows "unpack_indices (pack_indices idx) = idx \<and> pack_indices (unpack_indices bytes) = bytes"
  using assms by (simp add: unpack_pack pack_unpack)

theorem index_packing_roundtrip_witness:
  "unpack_indices (pack_indices (replicate 32 0x1FFFFFF)) = replicate 32 0x1FFFFFF
   \<and> pack_indices (unpack_indices (replicate 100 0xA5)) = replicate 100 0xA5"
  by (rule index_packing_roundtrip) simp_all

text \<open>
  The 512 bits \<open>apply_mix\<close> digests are the element's low \<open>Lmix\<close> bits followed by the tree's
  indices as consecutive 25-bit fields: no index bit is lost at a word boundary and none
  overlaps the element or another index.
\<close>
theorem apply_mix_pads_exactly:
  assumes "wf_elem e" "unat Lmix \<le> 448" "n < 512"
    and "length tree = unat treeLen" "\<forall>x\<in>set tree. unat x < 2 ^ 25"
    and "\<And>k. unat Lmix \<le> k \<Longrightarrow> k < 448 \<Longrightarrow> \<not> bits_at (elem_w e) k"
  shows "bits_at (mix_buffer e tree treeLen Lmix) n \<longleftrightarrow>
    (if n < unat Lmix then bits_at (elem_w e) n
     else (n - unat Lmix) div 25 < length tree
          \<and> bit (tree ! ((n - unat Lmix) div 25)) ((n - unat Lmix) mod 25))"
  using assms by (rule mix_buffer_bits)

theorem apply_mix_pads_exactly_witness:
  "bits_at (mix_buffer \<lparr>elem_w = replicate 7 0\<rparr> [5] 1 448) 450"
proof -
  have z: "\<not> bits_at (elem_w \<lparr>elem_w = replicate 7 (0 :: u64)\<rparr>) k" if "k < 448" for k
    using that by (simp add: bits_at_def less_mult_imp_div_less)
  show ?thesis
    by (subst apply_mix_pads_exactly) (auto simp: wf_elem_def kWorkWords_def z bit_numeral_rec)
qed

text \<open>
  \<open>combine\<close> is the 448-bit exclusive or of its arguments, shifted down by the 24 collision
  bits and truncated to \<open>Lout\<close> bits.
\<close>
theorem combine_is_shifted_xor:
  assumes "n < 448"
  shows "bits_at (elem_w (combine a b Lout)) n \<longleftrightarrow>
    n < unat Lout \<and> n + 24 < 448 \<and>
    bits_at (elem_w a) (n + 24) \<noteq> bits_at (elem_w b) (n + 24)"
  using assms by (rule combine_bits)

theorem combine_is_shifted_xor_witness:
  "bits_at (elem_w (combine \<lparr>elem_w = [0x1000000, 0, 0, 0, 0, 0, 0]\<rparr> \<lparr>elem_w = replicate 7 0\<rparr> 424)) 0"
  by (subst combine_is_shifted_xor) (simp_all add: bits_at_def bit_numeral_rec)

end
