(* ===== verification/BeamVerify.thy ===== *)
theory BeamVerify
  imports BeamPrimitives
begin

text \<open>
  The BeamHash III verifier (src/beamhash/bh3_verify.cpp): the iterative five-round check of a
  104-byte solution, its diagnostic reason, and the process-wide tallies. The main results:
  the verifier never reads out of range, it accepts exactly the solutions a recursive
  description over a binary tree accepts, and an accepted solution has 32 distinct indices in
  canonical order.
\<close>

section \<open>The verifier\<close>

datatype verify_kind = VNone | VCollision | VDupIndex | VOrder | VNonZero

record verify_reason =
  vr_kind :: verify_kind
  vr_round :: u8

definition is_zero :: "elem \<Rightarrow> bool" where
  "is_zero e = list_all (\<lambda>i. elem_w e ! i = 0) [0..<kWorkWords]"

definition distinct_trees :: "u32 list \<Rightarrow> u32 list \<Rightarrow> bool" where
  "distinct_trees a b = list_all (\<lambda>x. list_all (\<lambda>y. x \<noteq> y) b) a"

text \<open>The local \<open>struct Group\<close>: an element and the leaves below it.\<close>

record group =
  g_e :: elem
  g_tree :: "u32 list"

text \<open>
  Why a pass over the groups stops early: a rejection, which the code returns, or a read
  beyond the end of the vector, which the code would not notice.
\<close>

datatype verify_stop = Reject verify_reason | OutOfRange

definition round_Lmix :: "nat \<Rightarrow> u32" where
  "round_Lmix r = (let L = of_nat (448 - (r - 1) * 24) in if r = 5 then L - 64 else L)"

definition round_Lout :: "nat \<Rightarrow> u32" where
  "round_Lout r =
    (let L = of_nat (448 - r * 24); L = (if r = 4 then L - 64 else L)
     in if r = 5 then 24 else L)"

definition mix_group :: "nat \<Rightarrow> group \<Rightarrow> elem" where
  "mix_group r g = apply_mix (g_e g) (g_tree g) (of_nat (length (g_tree g))) (round_Lmix r)"

text \<open>The body of the inner loop: one pair of neighbouring groups.\<close>

definition merge_pair :: "nat \<Rightarrow> group \<Rightarrow> group \<Rightarrow> verify_stop + group" where
  "merge_pair r x y =
    (let ex = mix_group r x; ey = mix_group r y;
         stop = (\<lambda>k. Inl (Reject \<lparr>vr_kind = k, vr_round = of_nat r\<rparr>))
     in if collision_bits ex \<noteq> collision_bits ey then stop VCollision
        else if \<not> distinct_trees (g_tree x) (g_tree y) then stop VDupIndex
        else (case (g_tree x, g_tree y) of
                (i # _, j # _) \<Rightarrow>
                  if \<not> i < j then stop VOrder
                  else Inr \<lparr>g_e = combine ex ey (round_Lout r), g_tree = g_tree x @ g_tree y\<rparr>
              | _ \<Rightarrow> Inl OutOfRange))"

text \<open>One pass of the inner loop over all pairs, in order, stopping at the first rejection.\<close>

fun verify_pairs :: "nat \<Rightarrow> group list \<Rightarrow> verify_stop + group list" where
  "verify_pairs r [] = Inr []"
| "verify_pairs r [x] = Inl OutOfRange"
| "verify_pairs r (x # y # zs) =
    (case merge_pair r x y of
       Inl s \<Rightarrow> Inl s
     | Inr g \<Rightarrow> (case verify_pairs r zs of Inl s \<Rightarrow> Inl s | Inr gs \<Rightarrow> Inr (g # gs)))"

lemma length_verify_pairs:
  "verify_pairs r xs = Inr ys \<Longrightarrow> length xs = 2 * length ys"
  by (induction r xs arbitrary: ys rule: verify_pairs.induct) (auto split: sum.splits)

text \<open>The outer loop. It ends because a completed pass halves the number of groups.\<close>

function verify_loop :: "nat \<Rightarrow> group list \<Rightarrow> verify_stop + group list" where
  "verify_loop r X =
    (if length X > 1
     then (case verify_pairs r X of Inl s \<Rightarrow> Inl s | Inr X' \<Rightarrow> verify_loop (Suc r) X')
     else Inr X)"
  by pat_completeness auto
termination
  by (relation "measure (\<lambda>(r, X). length X)") (auto dest!: length_verify_pairs)

declare verify_loop.simps [simp del]

definition leaf_group :: "u64 list \<Rightarrow> u32 \<Rightarrow> group" where
  "leaf_group prePow i = \<lparr>g_e = seed_element prePow i, g_tree = [i]\<rparr>"

text \<open>
  \<open>classify_solution\<close>; \<open>None\<close> would be the out-of-range read. The extra nonce is bytes 100 to
  103 of the solution, the indices are bytes 0 to 99.
\<close>

definition classify_solution ::
  "blake2b \<Rightarrow> u8 list \<Rightarrow> u8 list \<Rightarrow> u8 list \<Rightarrow> verify_reason option" where
  "classify_solution b2b input nonce soln =
    (let prePow = compute_prepow b2b input nonce (take 4 (drop 100 soln));
         idx = unpack_indices soln
     in case verify_loop 1 (map (leaf_group prePow) idx) of
          Inl (Reject v) \<Rightarrow> Some v
        | Inl OutOfRange \<Rightarrow> None
        | Inr [] \<Rightarrow> None
        | Inr (g # _) \<Rightarrow>
            if \<not> is_zero (g_e g) then Some \<lparr>vr_kind = VNonZero, vr_round = 0\<rparr>
            else Some \<lparr>vr_kind = VNone, vr_round = 0\<rparr>)"

definition is_valid_solution :: "blake2b \<Rightarrow> u8 list \<Rightarrow> u8 list \<Rightarrow> u8 list \<Rightarrow> bool" where
  "is_valid_solution b2b input nonce soln =
    (case classify_solution b2b input nonce soln of
       Some v \<Rightarrow> vr_kind v = VNone | None \<Rightarrow> False)"

section \<open>Tallies\<close>

record vstats =
  vs_solves :: u64
  vs_cand :: u64
  vs_ok :: u64
  vs_nonzero :: u64
  vs_coll :: "u64 list"
  vs_dup :: "u64 list"
  vs_order :: "u64 list"

definition vstats0 :: vstats where
  "vstats0 = \<lparr>vs_solves = 0, vs_cand = 0, vs_ok = 0, vs_nonzero = 0,
     vs_coll = replicate 6 0, vs_dup = replicate 6 0, vs_order = replicate 6 0\<rparr>"

definition bump :: "u64 list \<Rightarrow> nat \<Rightarrow> u64 list" where
  "bump xs i = xs[i := xs ! i + 1]"

definition verify_stats_note_solve :: "vstats \<Rightarrow> vstats" where
  "verify_stats_note_solve g = g\<lparr>vs_solves := vs_solves g + 1\<rparr>"

definition verify_stats_tally :: "verify_reason \<Rightarrow> vstats \<Rightarrow> vstats" where
  "verify_stats_tally r g =
    (let g = g\<lparr>vs_cand := vs_cand g + 1\<rparr>;
         rd = (if vr_round r \<ge> 1 \<and> vr_round r \<le> 5 then unat (vr_round r) else 0)
     in case vr_kind r of
          VNone \<Rightarrow> g\<lparr>vs_ok := vs_ok g + 1\<rparr>
        | VCollision \<Rightarrow> if rd \<noteq> 0 then g\<lparr>vs_coll := bump (vs_coll g) rd\<rparr> else g
        | VDupIndex \<Rightarrow> if rd \<noteq> 0 then g\<lparr>vs_dup := bump (vs_dup g) rd\<rparr> else g
        | VOrder \<Rightarrow> if rd \<noteq> 0 then g\<lparr>vs_order := bump (vs_order g) rd\<rparr> else g
        | VNonZero \<Rightarrow> g\<lparr>vs_nonzero := vs_nonzero g + 1\<rparr>)"

text \<open>
  The numbers \<open>print_stats\<close> prints, or nothing when no candidate was tallied: rejected, and
  the rejections by duplicate index, order, collision and non-zero final element.
\<close>

definition sum15 :: "u64 list \<Rightarrow> u64" where
  "sum15 a = foldl (\<lambda>t r. t + a ! r) 0 [1..<6]"

definition print_stats_figures :: "vstats \<Rightarrow> (u64 \<times> u64 \<times> u64 \<times> u64 \<times> u64) option" where
  "print_stats_figures g =
    (if vs_cand g = 0 then None
     else Some (vs_cand g - vs_ok g, sum15 (vs_dup g), sum15 (vs_order g), sum15 (vs_coll g),
                vs_nonzero g))"

section \<open>The recursive description\<close>

text \<open>
  What one Wagner merge demands, with the scans of the code replaced by their meaning: equal
  collision bits, disjoint leaves, and the smaller first leaf on the left.
\<close>

definition merge_spec :: "nat \<Rightarrow> group \<Rightarrow> group \<Rightarrow> group option" where
  "merge_spec r x y =
    (if collision_bits (mix_group r x) = collision_bits (mix_group r y)
        \<and> set (g_tree x) \<inter> set (g_tree y) = {}
        \<and> g_tree x \<noteq> [] \<and> g_tree y \<noteq> [] \<and> hd (g_tree x) < hd (g_tree y)
     then Some \<lparr>g_e = combine (mix_group r x) (mix_group r y) (round_Lout r),
                g_tree = g_tree x @ g_tree y\<rparr>
     else None)"

fun fold_tree :: "nat \<Rightarrow> nat \<Rightarrow> group list \<Rightarrow> group option" where
  "fold_tree r 0 X = (case X of [] \<Rightarrow> None | g # _ \<Rightarrow> Some g)"
| "fold_tree r (Suc k) X =
    (case fold_tree r k (take (2 ^ k) X) of None \<Rightarrow> None
     | Some x \<Rightarrow> (case fold_tree r k (drop (2 ^ k) X) of None \<Rightarrow> None
                  | Some y \<Rightarrow> merge_spec (r + k) x y))"

text \<open>A solution tree of depth \<open>d\<close> over \<open>2 ^ d\<close> leaf indices; its root merges at round \<open>d\<close>.\<close>

fun beam_tree :: "u64 list \<Rightarrow> nat \<Rightarrow> u32 list \<Rightarrow> group option" where
  "beam_tree p 0 is = (case is of [] \<Rightarrow> None | i # _ \<Rightarrow> Some (leaf_group p i))"
| "beam_tree p (Suc d) is =
    (case beam_tree p d (take (2 ^ d) is) of None \<Rightarrow> None
     | Some x \<Rightarrow> (case beam_tree p d (drop (2 ^ d) is) of None \<Rightarrow> None
                  | Some y \<Rightarrow> merge_spec (Suc d) x y))"

lemma distinct_trees_iff: "distinct_trees a b \<longleftrightarrow> set a \<inter> set b = {}"
  by (auto simp: distinct_trees_def list_all_iff)

lemma merge_pair_Inr: "merge_pair r x y = Inr g \<longleftrightarrow> merge_spec r x y = Some g"
  by (cases "g_tree x"; cases "g_tree y")
    (auto simp: merge_pair_def merge_spec_def distinct_trees_iff Let_def)

lemma merge_pair_no_oob:
  "g_tree x \<noteq> [] \<Longrightarrow> g_tree y \<noteq> [] \<Longrightarrow> merge_pair r x y \<noteq> Inl OutOfRange"
  by (auto simp: merge_pair_def Let_def neq_Nil_conv split: if_splits)

lemma merge_specD:
  assumes "merge_spec r x y = Some g"
  shows "g_tree g = g_tree x @ g_tree y" "set (g_tree x) \<inter> set (g_tree y) = {}"
    "hd (g_tree x) < hd (g_tree y)" "g_tree x \<noteq> []" "g_tree y \<noteq> []"
  using assms by (auto simp: merge_spec_def split: if_splits)

lemma verify_pairs_append:
  "even (length A) \<Longrightarrow> verify_pairs r (A @ B) =
    (case verify_pairs r A of Inl s \<Rightarrow> Inl s
     | Inr A' \<Rightarrow> (case verify_pairs r B of Inl s \<Rightarrow> Inl s | Inr B' \<Rightarrow> Inr (A' @ B')))"
  by (induction r A rule: verify_pairs.induct) (auto split: sum.splits)

lemma fold_tree_pass:
  assumes "length X = 2 ^ Suc k"
  shows "fold_tree r (Suc k) X =
    (case verify_pairs r X of Inl _ \<Rightarrow> None | Inr X' \<Rightarrow> fold_tree (Suc r) k X')"
  using assms
proof (induction k arbitrary: X)
  case 0
  then obtain x y where X: "X = [x, y]"
    by (auto simp: length_Suc_conv numeral_2_eq_2)
  show ?case
  proof (cases "merge_pair r x y")
    case (Inl s)
    then have "merge_spec r x y = None"
      using merge_pair_Inr [of r x y] by (cases "merge_spec r x y") auto
    with Inl show ?thesis by (simp add: X)
  next
    case (Inr g)
    then have "merge_spec r x y = Some g" by (simp add: merge_pair_Inr)
    with Inr show ?thesis by (simp add: X)
  qed
next
  case (Suc k)
  define A where "A = take (2 ^ Suc k) X"
  define B where "B = drop (2 ^ Suc k) X"
  have lA: "length A = 2 ^ Suc k" and lB: "length B = 2 ^ Suc k" and AB: "X = A @ B"
    using Suc.prems by (simp_all add: A_def B_def)
  have fX: "fold_tree r (Suc (Suc k)) X =
      (case fold_tree r (Suc k) A of None \<Rightarrow> None
       | Some x \<Rightarrow> (case fold_tree r (Suc k) B of None \<Rightarrow> None
                    | Some y \<Rightarrow> merge_spec (r + Suc k) x y))"
    by (subst fold_tree.simps(2)) (simp only: A_def B_def)
  have vX: "verify_pairs r X = (case verify_pairs r A of Inl s \<Rightarrow> Inl s
     | Inr A' \<Rightarrow> (case verify_pairs r B of Inl s \<Rightarrow> Inl s | Inr B' \<Rightarrow> Inr (A' @ B')))"
    unfolding AB by (rule verify_pairs_append) (simp add: lA)
  show ?case
  proof (cases "verify_pairs r A")
    case (Inl s)
    then show ?thesis unfolding fX vX Suc.IH [OF lA] by simp
  next
    case A': (Inr A')
    then have la: "length A' = 2 ^ k" using lA length_verify_pairs [OF A'] by simp
    show ?thesis
    proof (cases "verify_pairs r B")
      case (Inl s)
      then show ?thesis unfolding fX vX Suc.IH [OF lA] Suc.IH [OF lB]
        by (simp add: A' split: option.split)
    next
      case B': (Inr B')
      show ?thesis unfolding fX vX Suc.IH [OF lA] Suc.IH [OF lB]
        by (simp add: A' B' la cong: option.case_cong)
    qed
  qed
qed

lemma verify_loop_fold:
  "length X = 2 ^ k \<Longrightarrow>
    fold_tree r k X = (case verify_loop r X of Inr [g] \<Rightarrow> Some g | _ \<Rightarrow> None)"
proof (induction k arbitrary: r X)
  case 0
  then obtain g where "X = [g]" by (auto simp: length_Suc_conv)
  then show ?case by (simp add: verify_loop.simps)
next
  case (Suc k)
  then have gt: "length X > 1" using one_less_power [of "2::nat" "Suc k"] by simp
  have len: "length X = 2 ^ Suc k" by (rule Suc.prems)
  show ?case
  proof (cases "verify_pairs r X")
    case (Inl s)
    then show ?thesis unfolding fold_tree_pass [OF len]
      using gt by (simp add: verify_loop.simps [of r X])
  next
    case (Inr X')
    then have "length X' = 2 ^ k" using length_verify_pairs [OF Inr] len by simp
    then show ?thesis unfolding fold_tree_pass [OF len]
      using gt Inr Suc.IH [of X' "Suc r"] by (simp add: verify_loop.simps [of r X])
  qed
qed

lemma fold_tree_leaves: "fold_tree 1 d (map (leaf_group p) is) = beam_tree p d is"
  by (induction d arbitrary: "is") (simp_all add: take_map drop_map split: list.split cong: option.case_cong)

section \<open>Every read is in range\<close>

lemma verify_pairs_wf:
  "even (length X) \<Longrightarrow> \<forall>g\<in>set X. g_tree g \<noteq> [] \<Longrightarrow>
    verify_pairs r X \<noteq> Inl OutOfRange \<and>
    (\<forall>X'. verify_pairs r X = Inr X' \<longrightarrow> (\<forall>g\<in>set X'. g_tree g \<noteq> []))"
proof (induction r X rule: verify_pairs.induct)
  case (3 r x y zs)
  then show ?case
    by (auto simp: merge_pair_Inr merge_pair_no_oob split: sum.splits dest: merge_specD(1))
qed auto

lemma verify_loop_wf:
  "length X = 2 ^ k \<Longrightarrow> \<forall>g\<in>set X. g_tree g \<noteq> [] \<Longrightarrow>
    verify_loop r X \<noteq> Inl OutOfRange \<and>
    (\<forall>X'. verify_loop r X = Inr X' \<longrightarrow> length X' = 1)"
proof (induction k arbitrary: r X)
  case 0
  then show ?case by (simp add: verify_loop.simps)
next
  case (Suc k)
  have gt: "length X > 1" using one_less_power [of "2::nat" "Suc k"] Suc.prems(1) by simp
  have wf: "verify_pairs r X \<noteq> Inl OutOfRange"
    "\<forall>X'. verify_pairs r X = Inr X' \<longrightarrow> (\<forall>g\<in>set X'. g_tree g \<noteq> [])"
    using verify_pairs_wf [of X r] Suc.prems by auto
  show ?case
  proof (cases "verify_pairs r X")
    case (Inl s)
    with wf(1) gt show ?thesis by (simp add: verify_loop.simps [of r X])
  next
    case (Inr X')
    then have "length X' = 2 ^ k" using length_verify_pairs [OF Inr] Suc.prems(1) by simp
    with Inr gt wf(2) Suc.IH [of X' "Suc r"] show ?thesis
      by (simp add: verify_loop.simps [of r X])
  qed
qed

lemma leaves_32: "length (map (leaf_group p) (unpack_indices soln)) = 2 ^ 5"
  by simp

lemma leaves_nonempty: "\<forall>g\<in>set (map (leaf_group p) is). g_tree g \<noteq> []"
  by (auto simp: leaf_group_def)

lemmas classify_loop_wf = verify_loop_wf [OF leaves_32 leaves_nonempty]

lemma classify_solution_total: "classify_solution b2b input nonce soln \<noteq> None"
proof -
  define p where "p = compute_prepow b2b input nonce (take 4 (drop 100 soln))"
  note wf = classify_loop_wf [of 1 p soln]
  show ?thesis
  proof (cases "verify_loop 1 (map (leaf_group p) (unpack_indices soln))")
    case (Inl s)
    with wf have "s \<noteq> OutOfRange" by simp
    then obtain v where "s = Reject v" by (cases s) auto
    with Inl show ?thesis by (simp add: classify_solution_def p_def Let_def)
  next
    case (Inr X')
    with wf obtain g where "X' = [g]" by (auto simp: length_Suc_conv)
    with Inr show ?thesis by (simp add: classify_solution_def p_def Let_def)
  qed
qed

lemma verify_pairs_stop:
  "verify_pairs r X = Inl (Reject v) \<Longrightarrow>
    vr_kind v \<in> {VCollision, VDupIndex, VOrder} \<and> vr_round v = of_nat r"
  by (induction r X rule: verify_pairs.induct)
    (auto simp: merge_pair_def Let_def split: sum.splits if_splits list.splits)

lemma verify_loop_stop:
  "length X = 2 ^ k \<Longrightarrow> verify_loop r X = Inl (Reject v) \<Longrightarrow>
    vr_kind v \<in> {VCollision, VDupIndex, VOrder} \<and> (\<exists>j<k. vr_round v = of_nat (r + j))"
proof (induction k arbitrary: r X)
  case 0
  then show ?case by (simp add: verify_loop.simps)
next
  case (Suc k)
  have gt: "length X > 1" using one_less_power [of "2::nat" "Suc k"] Suc.prems(1) by simp
  show ?case
  proof (cases "verify_pairs r X")
    case (Inl s)
    with gt Suc.prems(2) have "s = Reject v" by (simp add: verify_loop.simps [of r X])
    with Inl have "vr_kind v \<in> {VCollision, VDupIndex, VOrder} \<and> vr_round v = of_nat (r + 0)"
      using verify_pairs_stop by simp
    then show ?thesis by blast
  next
    case (Inr X')
    then have "length X' = 2 ^ k" using length_verify_pairs [OF Inr] Suc.prems(1) by simp
    moreover have "verify_loop (Suc r) X' = Inl (Reject v)"
      using Inr gt Suc.prems(2) by (simp add: verify_loop.simps [of r X])
    ultimately have "vr_kind v \<in> {VCollision, VDupIndex, VOrder}
        \<and> (\<exists>j<k. vr_round v = of_nat (Suc r + j))"
      by (rule Suc.IH)
    then obtain j where "vr_kind v \<in> {VCollision, VDupIndex, VOrder}" "Suc j < Suc k"
      "vr_round v = of_nat (r + Suc j)" by auto
    then show ?thesis by blast
  qed
qed

text \<open>A reason as the verifier gives it: a per-round kind carries a round from 1 to 5.\<close>

definition reason_ok :: "verify_reason \<Rightarrow> bool" where
  "reason_ok v \<longleftrightarrow>
    (if vr_kind v \<in> {VCollision, VDupIndex, VOrder}
     then 1 \<le> unat (vr_round v) \<and> unat (vr_round v) \<le> 5 else vr_round v = 0)"

lemma classify_reason_ok:
  assumes "classify_solution b2b input nonce soln = Some v"
  shows "reason_ok v"
proof -
  define p where "p = compute_prepow b2b input nonce (take 4 (drop 100 soln))"
  let ?L = "verify_loop 1 (map (leaf_group p) (unpack_indices soln))"
  from assms consider "?L = Inl (Reject v)" | "vr_kind v \<in> {VNone, VNonZero} \<and> vr_round v = 0"
    by (auto simp: classify_solution_def p_def Let_def
        split: sum.splits list.splits verify_stop.splits if_splits)
  then show ?thesis
  proof cases
    case 1
    from verify_loop_stop [OF leaves_32 1] obtain j where
      "vr_kind v \<in> {VCollision, VDupIndex, VOrder}" "j < 5" "vr_round v = of_nat (1 + j)" by auto
    moreover from this have "unat (vr_round v) = 1 + j" by (simp only: unat_of_nat) simp
    ultimately show ?thesis by (simp add: reason_ok_def)
  next
    case 2
    then show ?thesis by (auto simp: reason_ok_def)
  qed
qed

section \<open>The properties\<close>

lemma sum15_simp:
  "length a = 6 \<Longrightarrow> sum15 a = sum_list a - a ! 0"
proof -
  assume "length a = 6"
  then obtain x0 x1 x2 x3 x4 x5 where a: "a = [x0, x1, x2, x3, x4, x5]"
    by (auto simp: length_Suc_conv numeral_eq_Suc)
  show ?thesis by (simp add: a sum15_def upt_rec algebra_simps)
qed

lemma sum15_bump:
  "length a = 6 \<Longrightarrow> 1 \<le> i \<Longrightarrow> i \<le> 5 \<Longrightarrow> sum15 (bump a i) = sum15 a + 1"
  by (simp add: sum15_simp bump_def sum_list_update_word)

text \<open>The bookkeeping invariant: every tallied candidate is in exactly one of the counters.\<close>

definition vstats_ok :: "vstats \<Rightarrow> bool" where
  "vstats_ok g \<longleftrightarrow> length (vs_coll g) = 6 \<and> length (vs_dup g) = 6 \<and> length (vs_order g) = 6 \<and>
    vs_cand g = vs_ok g + vs_nonzero g + sum15 (vs_coll g) + sum15 (vs_dup g) + sum15 (vs_order g)"

lemma vstats_ok_init: "vstats_ok vstats0"
  by (simp add: vstats_ok_def vstats0_def sum15_def upt_rec)

lemma vstats_ok_note_solve: "vstats_ok g \<Longrightarrow> vstats_ok (verify_stats_note_solve g)"
  by (simp add: vstats_ok_def verify_stats_note_solve_def)

lemma length_bump [simp]: "length (bump a i) = length a"
  by (simp add: bump_def)

lemma round_range_iff: "(v :: u8) \<ge> 1 \<and> v \<le> 5 \<longleftrightarrow> 1 \<le> unat v \<and> unat v \<le> 5"
  by (simp add: word_le_nat_alt)

lemma vstats_ok_tally: "reason_ok r \<Longrightarrow> vstats_ok g \<Longrightarrow> vstats_ok (verify_stats_tally r g)"
  by (cases "vr_kind r")
    (auto simp: vstats_ok_def verify_stats_tally_def Let_def reason_ok_def round_range_iff
      sum15_bump algebra_simps simp del: One_nat_def)

lemma tally_classified:
  "vstats_ok g \<Longrightarrow>
    vstats_ok (verify_stats_tally (the (classify_solution b2b input nonce soln)) g)"
  using classify_reason_ok classify_solution_total
  by (metis option.exhaust_sel vstats_ok_tally)

lemma is_valid_iff_tree:
  "is_valid_solution b2b input nonce soln \<longleftrightarrow>
    (\<exists>g. beam_tree (compute_prepow b2b input nonce (take 4 (drop 100 soln))) 5
           (unpack_indices soln) = Some g \<and> is_zero (g_e g))"
proof -
  define p where "p = compute_prepow b2b input nonce (take 4 (drop 100 soln))"
  have T: "beam_tree p 5 (unpack_indices soln) =
      (case verify_loop 1 (map (leaf_group p) (unpack_indices soln)) of
         Inr [g] \<Rightarrow> Some g | _ \<Rightarrow> None)"
    using verify_loop_fold [OF leaves_32, of 1 p soln] fold_tree_leaves [of 5 p "unpack_indices soln"]
    by (simp only:)
  show ?thesis
  proof (cases "verify_loop 1 (map (leaf_group p) (unpack_indices soln))")
    case (Inl s)
    moreover obtain v where "s = Reject v"
      using Inl classify_loop_wf [of 1 p soln] by (cases s) auto
    moreover have "vr_kind v \<noteq> VNone"
      using verify_loop_stop [OF leaves_32 Inl [unfolded \<open>s = Reject v\<close>]] by auto
    ultimately show ?thesis
      unfolding p_def [symmetric] T
      by (simp add: is_valid_solution_def classify_solution_def Let_def flip: p_def)
  next
    case (Inr X')
    with classify_loop_wf [of 1 p soln] obtain g where "X' = [g]"
      by (auto simp: length_Suc_conv)
    with Inr show ?thesis
      unfolding p_def [symmetric] T
      by (simp add: is_valid_solution_def classify_solution_def Let_def flip: p_def)
  qed
qed

lemma beam_tree_leaves:
  "beam_tree p d is = Some g \<Longrightarrow> length is = 2 ^ d \<Longrightarrow>
    g_tree g = is \<and> distinct is \<and> (\<forall>i\<in>set is. hd is \<le> i)"
proof (induction d arbitrary: "is" g)
  case 0
  then show ?case by (auto simp: leaf_group_def length_Suc_conv)
next
  case (Suc d)
  let ?A = "take (2 ^ d) is" and ?B = "drop (2 ^ d) is"
  from Suc.prems(1) obtain x y where x: "beam_tree p d ?A = Some x"
    and y: "beam_tree p d ?B = Some y" and g: "merge_spec (Suc d) x y = Some g"
    by (auto split: option.splits)
  have len: "length ?A = 2 ^ d" "length ?B = 2 ^ d" using Suc.prems(2) by simp_all
  note A = Suc.IH [OF x len(1)] and B = Suc.IH [OF y len(2)]
  note m = merge_specD [OF g]
  have AB: "is = ?A @ ?B" by simp
  have sep: "hd ?A < hd ?B" "set ?A \<inter> set ?B = {}" "?A \<noteq> []" using m A B by auto
  have "distinct (?A @ ?B)" using A B sep unfolding distinct_append by blast
  moreover have hd: "hd is = hd ?A" using sep(3) by (metis AB hd_append2)
  moreover have "hd is \<le> i" if "i \<in> set is" for i
  proof -
    from that have "i \<in> set ?A \<or> i \<in> set ?B" using AB by (metis Un_iff set_append)
    with A B sep(1) show ?thesis unfolding hd by (metis order.trans less_imp_le)
  qed
  moreover have "g_tree g = is" using m(1) A B by simp
  ultimately show ?case by simp
qed

lemma valid_leaves:
  assumes "is_valid_solution b2b input nonce soln"
  shows "distinct (unpack_indices soln) \<and> (\<forall>i\<in>set (unpack_indices soln). hd (unpack_indices soln) \<le> i)"
proof -
  from assms obtain g where
    "beam_tree (compute_prepow b2b input nonce (take 4 (drop 100 soln))) 5 (unpack_indices soln) = Some g"
    unfolding is_valid_iff_tree by blast
  from beam_tree_leaves [OF this] show ?thesis by simp
qed

definition tally_all ::
  "blake2b \<Rightarrow> u8 list \<Rightarrow> u8 list \<Rightarrow> u8 list list \<Rightarrow> vstats \<Rightarrow> vstats" where
  "tally_all b2b input nonce ss g =
    foldl (\<lambda>g s. verify_stats_tally (the (classify_solution b2b input nonce s)) g) g ss"

lemma tally_all_ok: "vstats_ok g \<Longrightarrow> vstats_ok (tally_all b2b input nonce ss g)"
  by (induction ss arbitrary: g) (simp_all add: tally_all_def tally_classified)

text \<open>
  C1: the iterative verifier accepts exactly the solutions of the recursive description: a
  binary tree over the 32 unpacked indices in which every merge at depth \<open>d\<close> satisfies the
  three conditions of round \<open>d\<close>, and whose root element is zero.
\<close>
theorem valid_iff_solution_tree:
  "is_valid_solution b2b input nonce soln \<longleftrightarrow>
    (\<exists>g. beam_tree (compute_prepow b2b input nonce (take 4 (drop 100 soln))) 5
           (unpack_indices soln) = Some g \<and> is_zero (g_e g))"
  by (rule is_valid_iff_tree)

text \<open>
  a solution that repeats an index anywhere, or whose first index is not the smallest, is
  rejected, although the code only compares neighbouring subtrees.
\<close>
theorem repeated_or_unordered_rejected:
  assumes "\<not> distinct (unpack_indices soln) \<or>
    hd (unpack_indices soln) \<noteq> Min (set (unpack_indices soln))"
  shows "\<not> is_valid_solution b2b input nonce soln"
proof
  assume v: "is_valid_solution b2b input nonce soln"
  have "unpack_indices soln \<noteq> []" using length_unpack_indices [of soln] by force
  with valid_leaves [OF v] have "Min (set (unpack_indices soln)) = hd (unpack_indices soln)"
    by (intro Min_eqI) auto
  with valid_leaves [OF v] assms show False by simp
qed

lemma unpack_zero: "unpack_indices (replicate 104 0) = replicate 32 0"
proof (rule nth_equalityI)
  fix k assume "k < length (unpack_indices (replicate 104 0))"
  then have k: "k < 32" by simp
  have "unpack_index (replicate 104 0) k = 0"
  proof (rule bit_word_eqI)
    fix b
    have "b < 25 \<Longrightarrow> (25 * k + b) div 8 < 104" using k by linarith
    then show "bit (unpack_index (replicate 104 0) k) b = bit (0 :: u32) b"
      by (auto simp: unpack_index_bit bits_at_def)
  qed
  then show "unpack_indices (replicate 104 0) ! k = replicate 32 0 ! k"
    using k by (simp add: nth_unpack_indices)
qed simp

theorem repeated_or_unordered_rejected_witness:
  "\<not> is_valid_solution (\<lambda>_ _ _ _ _. replicate 32 0) (replicate 32 0) (replicate 8 0) (replicate 104 0)"
proof -
  have "\<not> distinct (unpack_indices (replicate 104 0))"
    unfolding unpack_zero by (simp add: numeral_eq_Suc)
  then show ?thesis by (intro repeated_or_unordered_rejected disjI1)
qed

text \<open>
  the verifier never reads past the end of a group vector or an empty tree: whatever the
  104 bytes, it terminates with one of its five reasons, and a per-round reason names a round
  from 1 to 5.
\<close>
theorem classify_solution_safe:
  "\<exists>v. classify_solution b2b input nonce soln = Some v \<and> reason_ok v"
  using classify_solution_total classify_reason_ok by blast

text \<open>
  The breakdown \<open>print_stats\<close> prints is complete: after any sequence of candidates the
  rejected total equals the sum of the four printed causes (modulo the 64-bit counters).
\<close>
theorem verify_stats_breakdown:
  assumes "print_stats_figures (tally_all b2b input nonce ss vstats0) =
    Some (rejected, dup, ord, coll, nonzero)"
  shows "rejected = dup + ord + coll + nonzero"
  using assms tally_all_ok [OF vstats_ok_init, of b2b input nonce ss]
  by (auto simp: print_stats_figures_def vstats_ok_def algebra_simps split: if_splits)

theorem verify_stats_breakdown_witness:
  "\<exists>rejected dup ord coll nonzero.
     print_stats_figures (tally_all (\<lambda>_ _ _ _ _. replicate 32 0) [] [] [replicate 104 0] vstats0) =
       Some (rejected, dup, ord, coll, nonzero)
     \<and> rejected = dup + ord + coll + nonzero"
proof -
  define g where "g = tally_all (\<lambda>_ _ _ _ _. replicate 32 0) [] [] [replicate 104 0] vstats0"
  have "vs_cand g = 1"
    by (auto simp: g_def tally_all_def verify_stats_tally_def vstats0_def Let_def
        split: verify_kind.split)
  then obtain r d s c n where f: "print_stats_figures g = Some (r, d, s, c, n)"
    by (simp add: print_stats_figures_def)
  with verify_stats_breakdown [OF f [unfolded g_def]] show ?thesis
    by (auto simp: g_def)
qed

end
