(* ===== verification/Doubles.thy ===== *)
theory Doubles
  imports Prelude "HOL-Library.Log_Nat"
begin

text \<open>
  Arithmetic in the C++ type \<open>double\<close>. A double is the rational it denotes; an operation is
  the exact rational operation followed by \<open>dbl\<close>, rounding to the nearest multiple of the
  unit in the last place of a 53-bit significand, ties to even. The exponent is unbounded:
  overflow to infinity and gradual underflow are outside the model (every quantity of the
  program that is computed in doubles, seconds, watts, hash rates and byte counts, stays many
  orders of magnitude inside the binary64 range). The locale \<open>rounding\<close> states what the
  client proofs use of it.
\<close>

type_synonym double = rat

section \<open>Rounding\<close>

definition pow2 :: "int \<Rightarrow> rat" where
  "pow2 k = (if 0 \<le> k then 2 ^ nat k else 1 / 2 ^ nat (- k))"

text \<open>The binary exponent of a positive rational: \<open>2 ^ e \<le> q < 2 ^ (e + 1)\<close>.\<close>

definition rat_exp :: "rat \<Rightarrow> int" where
  "rat_exp q =
    (let (n, d) = quotient_of q; k = bitlen n - bitlen d
     in if pow2 k \<le> q then k else k - 1)"

definition round_half_even :: "rat \<Rightarrow> int" where
  "round_half_even x =
    (let f = \<lfloor>x\<rfloor>; r = x - of_int f
     in if r < 1 / 2 then f else if r > 1 / 2 then f + 1 else if even f then f else f + 1)"

definition dbl :: "rat \<Rightarrow> double" where
  "dbl q =
    (if q = 0 then 0
     else let u = pow2 (rat_exp \<bar>q\<bar> - 52)
          in sgn q * (of_int (round_half_even (\<bar>q\<bar> / u)) * u))"

text \<open>A rational is representable when it is an integer of at most 53 bits times a power of two.\<close>

definition is_dbl :: "rat \<Rightarrow> bool" where
  "is_dbl q \<longleftrightarrow> (\<exists>m k. q = of_int m * pow2 k \<and> \<bar>m\<bar> \<le> 2 ^ 53)"

subsection \<open>Powers of two and the exponent\<close>

lemma pow2_powi: "pow2 k = 2 powi k"
  by (simp add: pow2_def power_int_def power_one_over)

lemma pow2_pos [simp]: "0 < pow2 k"
  by (simp add: pow2_def)

lemma pow2_nonzero [simp]: "pow2 k \<noteq> 0"
  by (metis pow2_pos less_irrefl)

lemma pow2_add: "pow2 (a + b) = pow2 a * pow2 b"
  by (simp add: pow2_powi power_int_add)

lemma pow2_diff: "pow2 (a - b) = pow2 a / pow2 b"
  by (simp add: pow2_powi power_int_diff)

lemma pow2_less_iff: "pow2 a < pow2 b \<longleftrightarrow> a < b"
proof -
  have mono: "pow2 i < pow2 j" if "i < j" for i j
    using that by (simp add: pow2_powi power_int_strict_increasing)
  show ?thesis using mono [of a b] mono [of b a] by (cases a b rule: linorder_cases) auto
qed

lemma pow2_le_iff: "pow2 a \<le> pow2 b \<longleftrightarrow> a \<le> b"
  using pow2_less_iff [of b a] by (simp add: not_less [symmetric])

lemma pow2_nat: "pow2 (int n) = 2 ^ n"
  by (simp add: pow2_def)

lemma pow2_0 [simp]: "pow2 0 = 1"
  by (simp add: pow2_def)

lemma bitlen_pow2:
  assumes "0 < n"
  shows "pow2 (bitlen n - 1) \<le> of_int n" "of_int n < pow2 (bitlen n)"
proof -
  from bitlen_bounds [OF assms] have b: "2 ^ nat (bitlen n - 1) \<le> n" "n < 2 ^ nat (bitlen n)"
    by simp_all
  have pos: "0 < bitlen n" using assms by (simp add: bitlen_eq_zero_iff order_less_le bitlen_nonneg)
  from b(1) have "(of_int (2 ^ nat (bitlen n - 1)) :: rat) \<le> of_int n" by (rule of_int_le_iff [THEN iffD2])
  with pos show "pow2 (bitlen n - 1) \<le> of_int n" by (simp add: pow2_def)
  from b(2) have "(of_int n :: rat) < of_int (2 ^ nat (bitlen n))" by (rule of_int_less_iff [THEN iffD2])
  with pos show "of_int n < pow2 (bitlen n)" by (simp add: pow2_def)
qed

lemma rat_exp_bounds:
  assumes "0 < q"
  shows "pow2 (rat_exp q) \<le> q" "q < pow2 (rat_exp q + 1)"
proof -
  obtain n d where nd: "quotient_of q = (n, d)" by fastforce
  have d: "0 < d" using nd by (rule quotient_of_denom_pos)
  have qE: "q = of_int n / of_int d" using nd by (rule quotient_of_div)
  have n: "0 < n" using assms d unfolding qE by (simp add: zero_less_divide_iff)
  let ?k = "bitlen n - bitlen d"
  note N = bitlen_pow2 [OF n] and D = bitlen_pow2 [OF d]
  have "q < pow2 (bitlen n) / pow2 (bitlen d - 1)"
    unfolding qE using N D d n by (intro frac_less) auto
  then have up: "q < pow2 (?k + 1)" by (simp flip: pow2_diff add: algebra_simps)
  have "pow2 (bitlen n - 1) / pow2 (bitlen d) < q"
    unfolding qE using N D d n by (intro frac_less2) auto
  then have lo: "pow2 (?k - 1) < q" by (simp flip: pow2_diff add: algebra_simps)
  have e: "rat_exp q = (if pow2 ?k \<le> q then ?k else ?k - 1)"
    by (simp add: rat_exp_def nd)
  show "pow2 (rat_exp q) \<le> q" using e lo by auto
  show "q < pow2 (rat_exp q + 1)" using e up by auto
qed

lemma rat_exp_mono:
  assumes "0 < x" "x \<le> y"
  shows "rat_exp x \<le> rat_exp y"
proof -
  have "pow2 (rat_exp x) \<le> x" using assms(1) by (rule rat_exp_bounds)
  also have "x < pow2 (rat_exp y + 1)" using assms rat_exp_bounds(2) [of y] by linarith
  finally show ?thesis by (simp add: pow2_less_iff)
qed

subsection \<open>Rounding to an integer\<close>

lemma rhe_int [simp]: "round_half_even (of_int n) = n"
  by (simp add: round_half_even_def)

lemma rhe_error: "\<bar>of_int (round_half_even x) - x\<bar> \<le> 1 / 2"
proof -
  define r where "r = x - of_int \<lfloor>x\<rfloor>"
  have "0 \<le> r" "r < 1" using floor_correct [of x] by (simp_all add: r_def)
  moreover have "x = of_int \<lfloor>x\<rfloor> + r" by (simp add: r_def)
  then have "of_int (round_half_even x) - x = - r \<and> r \<le> 1 / 2
      \<or> of_int (round_half_even x) - x = 1 - r \<and> r \<ge> 1 / 2"
    by (auto simp: round_half_even_def Let_def r_def)
  ultimately show ?thesis by auto
qed

lemma rhe_mono:
  assumes "x \<le> y"
  shows "round_half_even x \<le> round_half_even y"
proof (cases "\<lfloor>x\<rfloor> = \<lfloor>y\<rfloor>")
  case True
  then show ?thesis using assms by (auto simp: round_half_even_def Let_def)
next
  case False
  moreover have "\<lfloor>x\<rfloor> \<le> \<lfloor>y\<rfloor>" using assms by (rule floor_mono)
  ultimately have "\<lfloor>x\<rfloor> + 1 \<le> \<lfloor>y\<rfloor>" by simp
  moreover have "round_half_even x \<le> \<lfloor>x\<rfloor> + 1" "\<lfloor>y\<rfloor> \<le> round_half_even y"
    by (auto simp: round_half_even_def Let_def)
  ultimately show ?thesis by linarith
qed

subsection \<open>Rounding to a double\<close>

lemma dbl_0 [simp]: "dbl 0 = 0"
  by (simp add: dbl_def)

lemma dbl_minus: "dbl (- q) = - dbl q"
  by (simp add: dbl_def Let_def)

lemma dbl_pos:
  assumes "0 < q"
  obtains m where "dbl q = of_int m * pow2 (rat_exp q - 52)"
    "m = round_half_even (q / pow2 (rat_exp q - 52))" "2 ^ 52 \<le> m" "m \<le> 2 ^ 53"
proof -
  let ?e = "rat_exp q" and ?u = "pow2 (rat_exp q - 52)"
  define m where "m = round_half_even (q / ?u)"
  note b = rat_exp_bounds [OF assms]
  have "pow2 ?e = of_int (2 ^ 52) * ?u" "pow2 (?e + 1) = of_int (2 ^ 53) * ?u"
    using pow2_add [of 52 "?e - 52"] pow2_add [of 53 "?e - 52"]
    by (simp_all add: pow2_def [of 52] pow2_def [of 53] add.commute)
  with b have "of_int (2 ^ 52) \<le> q / ?u" "q / ?u \<le> of_int (2 ^ 53)"
    by (simp_all add: pos_le_divide_eq pos_divide_le_eq)
  from rhe_mono [OF this(1)] rhe_mono [OF this(2)] have "2 ^ 52 \<le> m" "m \<le> 2 ^ 53"
    unfolding rhe_int m_def .
  moreover have "dbl q = of_int m * ?u"
    using assms by (simp add: dbl_def m_def Let_def)
  ultimately show ?thesis by (intro that [of m]) (simp_all add: m_def)
qed

lemma dbl_pow2_bounds:
  assumes "0 < q"
  shows "pow2 (rat_exp q) \<le> dbl q" "dbl q \<le> pow2 (rat_exp q + 1)"
proof -
  let ?e = "rat_exp q" and ?u = "pow2 (rat_exp q - 52)"
  obtain m where m: "dbl q = of_int m * ?u" "2 ^ 52 \<le> m" "m \<le> 2 ^ 53"
    using dbl_pos [OF assms] by blast
  have E: "pow2 ?e = of_int (2 ^ 52) * ?u" "pow2 (?e + 1) = of_int (2 ^ 53) * ?u"
    using pow2_add [of 52 "?e - 52"] pow2_add [of 53 "?e - 52"]
    by (simp_all add: pow2_def [of 52] pow2_def [of 53] add.commute)
  from m(2,3) have "(of_int (2 ^ 52) :: rat) \<le> of_int m" "(of_int m :: rat) \<le> of_int (2 ^ 53)"
    by (simp_all only: of_int_le_iff)
  then show "pow2 ?e \<le> dbl q" "dbl q \<le> pow2 (?e + 1)"
    unfolding E m(1) by (simp_all only: mult_le_cancel_right_pos pow2_pos)
qed

lemma dbl_pos_mono:
  assumes "0 < x" "x \<le> y"
  shows "dbl x \<le> dbl y"
proof (cases "rat_exp x = rat_exp y")
  case True
  let ?u = "pow2 (rat_exp y - 52)"
  have "x / ?u \<le> y / ?u" using assms(2) by (simp add: divide_right_mono less_imp_le)
  from rhe_mono [OF this]
  have "(of_int (round_half_even (x / ?u)) :: rat) \<le> of_int (round_half_even (y / ?u))"
    by (simp only: of_int_le_iff)
  then show ?thesis using assms True by (simp add: dbl_def Let_def)
next
  case False
  with rat_exp_mono [OF assms] have "rat_exp x + 1 \<le> rat_exp y" by simp
  then have "pow2 (rat_exp x + 1) \<le> pow2 (rat_exp y)" by (simp only: pow2_le_iff)
  with dbl_pow2_bounds(2) [OF assms(1)] dbl_pow2_bounds(1) [of y] assms show ?thesis by linarith
qed

lemma dbl_pos_pos: "0 < q \<Longrightarrow> 0 < dbl q"
  using dbl_pow2_bounds(1) [of q] pow2_pos [of "rat_exp q"] by linarith

lemma dbl_mono: "x \<le> y \<Longrightarrow> dbl x \<le> dbl y"
proof -
  assume le: "x \<le> y"
  consider "0 < x" | "x \<le> 0" "0 \<le> y" | "y < 0" by linarith
  then show "dbl x \<le> dbl y"
  proof cases
    case 1
    then show ?thesis using le by (rule dbl_pos_mono)
  next
    case 2
    have "dbl x \<le> 0" using 2(1) dbl_pos_pos [of "- x"] by (cases "x = 0") (auto simp: dbl_minus)
    moreover have "0 \<le> dbl y" using 2(2) dbl_pos_pos [of y] by (cases "y = 0") auto
    ultimately show ?thesis by linarith
  next
    case 3
    then show ?thesis using dbl_pos_mono [of "- y" "- x"] le by (simp add: dbl_minus)
  qed
qed

lemma dbl_exact_pos:
  assumes "0 < m" "m \<le> 2 ^ 53"
  shows "dbl (of_int m * pow2 k) = of_int m * pow2 k"
proof -
  have exact: "dbl (of_int n * pow2 j) = of_int n * pow2 j" if n: "0 < n" "n < 2 ^ 53" for n j
  proof -
    define q where "q = of_int n * pow2 j"
    have q: "0 < q" using n by (simp add: q_def)
    have "(of_int n :: rat) < of_int (2 ^ 53)" using n(2) by (simp only: of_int_less_iff)
    then have "q < pow2 (53 + j)"
      unfolding q_def pow2_add by (simp add: pow2_def [of 53])
    with rat_exp_bounds(1) [OF q] have "pow2 (rat_exp q) < pow2 (53 + j)" by linarith
    then have "0 \<le> j - (rat_exp q - 52)" by (simp add: pow2_less_iff)
    then obtain d where d: "j - (rat_exp q - 52) = int d" by (metis nonneg_int_cases)
    have "q / pow2 (rat_exp q - 52) = of_int n * pow2 (j - (rat_exp q - 52))"
      by (simp add: q_def pow2_diff)
    also have "\<dots> = of_int (n * 2 ^ d)" by (simp add: d pow2_nat)
    finally have qu: "q / pow2 (rat_exp q - 52) = of_int (n * 2 ^ d)" .
    then have "round_half_even (q / pow2 (rat_exp q - 52)) = n * 2 ^ d"
      by (simp only: rhe_int)
    moreover have "q = of_int (n * 2 ^ d) * pow2 (rat_exp q - 52)"
      using qu by (simp add: divide_eq_eq)
    ultimately show ?thesis using q
      unfolding q_def [symmetric] by (simp add: dbl_def Let_def)
  qed
  show ?thesis
  proof (cases "m = 2 ^ 53")
    case True
    have "of_int m * pow2 k = of_int (2 ^ 52) * pow2 (k + 1)"
      using True by (simp add: pow2_add pow2_def [of 1])
    with exact [of "2 ^ 52" "k + 1"] show ?thesis by simp
  next
    case False
    with assms show ?thesis by (intro exact) simp_all
  qed
qed

lemma dbl_exact:
  assumes "is_dbl q"
  shows "dbl q = q"
proof -
  obtain m k where q: "q = of_int m * pow2 k" and m: "\<bar>m\<bar> \<le> 2 ^ 53"
    using assms by (auto simp: is_dbl_def)
  consider "m = 0" | "0 < m" | "m < 0" by linarith
  then show ?thesis
  proof cases
    case 1
    then show ?thesis by (simp add: q)
  next
    case 2
    then show ?thesis using m dbl_exact_pos [of m k] by (simp add: q)
  next
    case 3
    then show ?thesis using m dbl_exact_pos [of "- m" k] dbl_minus [of "of_int (- m) * pow2 k"]
      by (simp add: q)
  qed
qed

lemma is_dbl_dbl: "is_dbl (dbl q)"
proof -
  consider "q = 0" | "0 < q" | "q < 0" by linarith
  then show ?thesis
  proof cases
    case 1
    then show ?thesis by (auto simp: is_dbl_def intro!: exI [of _ 0])
  next
    case 2
    then obtain m where "dbl q = of_int m * pow2 (rat_exp q - 52)" "2 ^ 52 \<le> m" "m \<le> 2 ^ 53"
      using dbl_pos by blast
    then show ?thesis unfolding is_dbl_def by (intro exI [of _ m] exI [of _ "rat_exp q - 52"]) simp
  next
    case 3
    then obtain m where "dbl (- q) = of_int m * pow2 (rat_exp (- q) - 52)" "2 ^ 52 \<le> m" "m \<le> 2 ^ 53"
      using dbl_pos [of "- q"] by auto
    then show ?thesis unfolding is_dbl_def
      by (intro exI [of _ "- m"] exI [of _ "rat_exp (- q) - 52"]) (simp add: dbl_minus)
  qed
qed

lemma dbl_idem: "dbl (dbl q) = dbl q"
  by (rule dbl_exact [OF is_dbl_dbl])

lemma is_dbl_int: "\<bar>n\<bar> \<le> 2 ^ 53 \<Longrightarrow> is_dbl (of_int n)"
  unfolding is_dbl_def by (intro exI [of _ n] exI [of _ 0]) simp

lemma dbl_int: "\<bar>n\<bar> \<le> 2 ^ 53 \<Longrightarrow> dbl (of_int n) = of_int n"
  by (simp add: dbl_exact is_dbl_int)

lemma dbl_error: "\<bar>dbl q - q\<bar> \<le> \<bar>q\<bar> / 2 ^ 53"
proof -
  have pos: "\<bar>dbl q - q\<bar> \<le> q / 2 ^ 53" if q: "0 < q" for q
  proof -
    let ?u = "pow2 (rat_exp q - 52)"
    have "dbl q - q = (of_int (round_half_even (q / ?u)) - q / ?u) * ?u"
      using q by (simp add: dbl_def Let_def left_diff_distrib)
    then have "\<bar>dbl q - q\<bar> = \<bar>of_int (round_half_even (q / ?u)) - q / ?u\<bar> * ?u"
      by (simp add: abs_mult less_imp_le)
    also have "\<dots> \<le> 1 / 2 * ?u"
      using rhe_error [of "q / ?u"] by (intro mult_right_mono) (simp_all add: less_imp_le)
    also have "\<dots> = pow2 (rat_exp q) / 2 ^ 53" by (simp add: pow2_diff pow2_def [of 52])
    also have "\<dots> \<le> q / 2 ^ 53"
      using rat_exp_bounds(1) [OF q] by (rule divide_right_mono) simp
    finally show ?thesis .
  qed
  consider "q = 0" | "0 < q" | "q < 0" by linarith
  then show ?thesis
    using pos [of q] pos [of "- q"] by cases (auto simp: dbl_minus)
qed

section \<open>Operations\<close>

text \<open>
  \<open>+\<close>, \<open>-\<close>, \<open>*\<close> and \<open>/\<close> on doubles, and the conversions the program uses. Converting a
  double to an unsigned integer drops the fraction; the program only converts non-negative
  values that are in range.
\<close>

definition dadd :: "double \<Rightarrow> double \<Rightarrow> double" where "dadd x y = dbl (x + y)"
definition dsub :: "double \<Rightarrow> double \<Rightarrow> double" where "dsub x y = dbl (x - y)"
definition dmul :: "double \<Rightarrow> double \<Rightarrow> double" where "dmul x y = dbl (x * y)"
definition ddiv :: "double \<Rightarrow> double \<Rightarrow> double" where "ddiv x y = dbl (x / y)"

lemmas dops = dadd_def dsub_def dmul_def ddiv_def

definition d_of_nat :: "nat \<Rightarrow> double" where "d_of_nat n = dbl (of_nat n)"

definition llround :: "double \<Rightarrow> int" where
  "llround x = (if 0 \<le> x then \<lfloor>x + 1 / 2\<rfloor> else - \<lfloor>- x + 1 / 2\<rfloor>)"

definition trunc_nat :: "double \<Rightarrow> nat" where "trunc_nat d = nat \<lfloor>d\<rfloor>"

lemma d_of_nat_exact: "n \<le> 2 ^ 53 \<Longrightarrow> d_of_nat n = of_nat n"
proof -
  assume "n \<le> 2 ^ 53"
  then have "int n \<le> 2 ^ 53" by (metis of_nat_le_iff of_nat_numeral of_nat_power)
  then show ?thesis using dbl_int [of "int n"] by (simp add: d_of_nat_def)
qed

lemma d_of_nat_mono: "m \<le> n \<Longrightarrow> d_of_nat m \<le> d_of_nat n"
  by (simp add: d_of_nat_def dbl_mono)

lemma trunc_nat_mono: "x \<le> y \<Longrightarrow> trunc_nat x \<le> trunc_nat y"
  by (simp add: trunc_nat_def nat_mono floor_mono)

subsection \<open>Square root\<close>

text \<open>
  The integer square root, two bits of the argument at a time, and \<open>std::sqrt\<close>: the exact
  root rounded to 53 bits. The radicand is scaled into \<open>[2 ^ 104, 2 ^ 106)\<close>, so its integer
  root has exactly 53 bits.
\<close>

function isqrt :: "int \<Rightarrow> int" where
  "isqrt n =
    (if n \<le> 0 then 0
     else let s = 2 * isqrt (n div 4) in if (s + 1) * (s + 1) \<le> n then s + 1 else s)"
  by pat_completeness auto
termination
  by (relation "measure nat") auto

declare isqrt.simps [simp del]

lemma isqrt_spec:
  "0 \<le> n \<Longrightarrow> 0 \<le> isqrt n \<and> isqrt n * isqrt n \<le> n \<and> n < (isqrt n + 1) * (isqrt n + 1)"
proof (induction n rule: isqrt.induct)
  case (1 n)
  show ?case
  proof (cases "n \<le> 0")
    case True
    then have z: "n = 0" using "1.prems" by simp
    have "isqrt 0 = 0" by (subst isqrt.simps) simp
    with z show ?thesis by simp
  next
    case False
    define s where "s = isqrt (n div 4)"
    from "1.IH" False have ih: "0 \<le> s" "s * s \<le> n div 4" "n div 4 < (s + 1) * (s + 1)"
      by (simp_all add: s_def)
    from ih(2) have lo: "(2 * s) * (2 * s) \<le> n" by simp
    from ih(3) have "n < 4 * ((s + 1) * (s + 1))" by linarith
    then have hi: "n < (2 * s + 1 + 1) * (2 * s + 1 + 1)" by (simp add: algebra_simps)
    show ?thesis using False lo hi ih(1)
      by (auto simp: isqrt.simps [of n] Let_def s_def [symmetric] not_le)
  qed
qed

definition dsqrt :: "double \<Rightarrow> double" where
  "dsqrt q =
    (if q \<le> 0 then 0
     else let u = pow2 (rat_exp q div 2 - 52);
              x = q / (u * u);
              s = isqrt \<lfloor>x\<rfloor>;
              h = (of_int s + 1 / 2) * (of_int s + 1 / 2);
              m = (if x < h then s else if x > h then s + 1 else if even s then s else s + 1)
          in of_int m * u)"

text \<open>The computed root is within half a unit of the true one: it brackets the radicand.\<close>

lemma dsqrt_bracket:
  assumes "0 < q"
  defines "u \<equiv> pow2 (rat_exp q div 2 - 52)"
  shows "dsqrt q \<ge> 0"
    and "dsqrt q \<ge> u \<Longrightarrow> (dsqrt q - u / 2) * (dsqrt q - u / 2) \<le> q"
    and "q \<le> (dsqrt q + u / 2) * (dsqrt q + u / 2)"
proof -
  have u: "0 < u" by (simp add: u_def)
  define x where "x = q / (u * u)"
  define s where "s = isqrt \<lfloor>x\<rfloor>"
  define h where "h = (of_int s + 1 / 2) * (of_int s + 1 / 2 :: rat)"
  define m where "m = (if x < h then s else if x > h then s + 1 else if even s then s else s + 1)"
  have d: "dsqrt q = of_int m * u"
    using assms(1) by (simp add: dsqrt_def Let_def m_def h_def s_def x_def u_def)
  have x0: "0 \<le> x" using assms(1) u by (simp add: x_def)
  have qx: "q = x * (u * u)" using u by (simp add: x_def)
  have fl: "of_int \<lfloor>x\<rfloor> \<le> x" "x < of_int \<lfloor>x\<rfloor> + 1"
    using floor_correct [of x] by simp_all
  from isqrt_spec [of "\<lfloor>x\<rfloor>"] x0 have S: "0 \<le> s" "s * s \<le> \<lfloor>x\<rfloor>" "\<lfloor>x\<rfloor> + 1 \<le> (s + 1) * (s + 1)"
    by (simp_all add: s_def)
  have "(of_int (s * s) :: rat) \<le> of_int \<lfloor>x\<rfloor>" using S(2) by (simp only: of_int_le_iff)
  with fl(1) have sx: "of_int s * of_int s \<le> x" unfolding of_int_mult by linarith
  have "(of_int (\<lfloor>x\<rfloor> + 1) :: rat) \<le> of_int ((s + 1) * (s + 1))"
    using S(3) by (simp only: of_int_le_iff)
  then have "of_int \<lfloor>x\<rfloor> + 1 \<le> (of_int s + 1) * (of_int s + 1 :: rat)"
    by (simp only: of_int_mult of_int_add of_int_1)
  with fl(2) have xs: "x \<le> (of_int s + 1) * (of_int s + 1)" by linarith
  have lo: "(of_int m - 1 / 2) * (of_int m - 1 / 2) \<le> x" if "1 \<le> m"
  proof (cases "m = s")
    case True
    have "1 \<le> (of_int m :: rat)" using that by simp
    then have "1 / 2 \<le> (of_int m :: rat)" by linarith
    then have "(of_int m - 1 / 2) * (of_int m - 1 / 2) \<le> of_int m * (of_int m :: rat)"
      by (intro mult_mono) auto
    with sx True show ?thesis by simp
  next
    case False
    then have m1: "m = s + 1" and hx: "h \<le> x" by (auto simp: m_def split: if_splits)
    have "(of_int m - 1 / 2 :: rat) = of_int s + 1 / 2" using m1 by simp
    with hx show ?thesis by (simp only: h_def)
  qed
  have hi: "x \<le> (of_int m + 1 / 2) * (of_int m + 1 / 2)"
  proof (cases "m = s")
    case True
    then have "x \<le> h" by (auto simp: m_def split: if_splits)
    then show ?thesis using True by (simp add: h_def)
  next
    case False
    then have "m = s + 1" by (auto simp: m_def split: if_splits)
    moreover have "0 \<le> (of_int s :: rat)" using S(1) by simp
    ultimately have "(of_int s + 1) * (of_int s + 1) \<le> (of_int m + 1 / 2) * (of_int m + 1 / 2 :: rat)"
      by (intro mult_mono) auto
    with xs show ?thesis by linarith
  qed
  have m0: "0 \<le> m" using S(1) by (auto simp: m_def)
  then show "dsqrt q \<ge> 0" using u by (simp add: d)
  have uu: "0 \<le> u * u" using u by simp
  show "(dsqrt q - u / 2) * (dsqrt q - u / 2) \<le> q" if "dsqrt q \<ge> u"
  proof -
    have "1 \<le> m" using that u by (simp add: d)
    from mult_right_mono [OF lo [OF this] uu] show ?thesis
      unfolding d by (simp add: qx algebra_simps)
  qed
  from mult_right_mono [OF hi uu] show "q \<le> (dsqrt q + u / 2) * (dsqrt q + u / 2)"
    unfolding d by (simp add: qx algebra_simps)
qed

lemma dsqrt_nonneg: "0 \<le> dsqrt q"
  using dsqrt_bracket(1) [of q] by (cases "0 < q") (auto simp: dsqrt_def)

section \<open>The contract of rounding\<close>

text \<open>
  What the clients of double arithmetic rely on: rounding is monotone, odd, exact on its own
  results and on integers of at most 53 bits, and off by at most one part in \<open>2 ^ 53\<close>.
\<close>

locale rounding =
  fixes rnd :: "rat \<Rightarrow> rat"
  assumes rnd_mono: "x \<le> y \<Longrightarrow> rnd x \<le> rnd y"
    and rnd_idem: "rnd (rnd x) = rnd x"
    and rnd_minus: "rnd (- x) = - rnd x"
    and rnd_int: "\<bar>n\<bar> \<le> 2 ^ 53 \<Longrightarrow> rnd (of_int n) = of_int n"
    and rnd_error: "\<bar>rnd x - x\<bar> \<le> \<bar>x\<bar> / 2 ^ 53"
begin

lemma rnd_zero: "rnd 0 = 0"
  using rnd_int [of 0] by simp

lemma rnd_nonneg: "0 \<le> x \<Longrightarrow> 0 \<le> rnd x"
  using rnd_mono [of 0 x] by (simp add: rnd_zero)

lemma rnd_nonpos: "x \<le> 0 \<Longrightarrow> rnd x \<le> 0"
  using rnd_mono [of x 0] by (simp add: rnd_zero)

lemma rnd_le: "rnd b = b \<Longrightarrow> x \<le> b \<Longrightarrow> rnd x \<le> b"
  using rnd_mono [of x b] by simp

lemma rnd_ge: "rnd b = b \<Longrightarrow> b \<le> x \<Longrightarrow> b \<le> rnd x"
  using rnd_mono [of b x] by simp

lemma rnd_upper: "0 \<le> x \<Longrightarrow> rnd x \<le> x * (1 + 1 / 2 ^ 53)"
proof -
  assume x: "0 \<le> x"
  have "rnd x - x \<le> \<bar>x\<bar> / 2 ^ 53" by (rule order.trans [OF abs_ge_self rnd_error])
  with x show "rnd x \<le> x * (1 + 1 / 2 ^ 53)" by (simp add: algebra_simps)
qed

text \<open>Adding a non-negative amount never decreases a double.\<close>

lemma add_ge: "rnd a = a \<Longrightarrow> 0 \<le> x \<Longrightarrow> a \<le> rnd (a + x)"
  by (rule rnd_ge) simp_all

lemma add_le: "rnd a = a \<Longrightarrow> x \<le> 0 \<Longrightarrow> rnd (a + x) \<le> a"
  by (rule rnd_le) simp_all

text \<open>
  A correction towards a target by at most half of the rounded distance does not overshoot it:
  the step of a running mean with at least two observations.
\<close>

lemma toward_up:
  assumes "rnd v = v" "m \<le> v" "2 \<le> n"
  shows "0 \<le> rnd (rnd (v - m) / n)" "rnd (m + rnd (rnd (v - m) / n)) \<le> v"
proof -
  let ?d = "v - m"
  have d: "0 \<le> ?d" using assms by simp
  have e1: "rnd ?d \<le> ?d * (1 + 1 / 2 ^ 53)"
    using d by (rule rnd_upper)
  have r0: "0 \<le> rnd ?d" using d by (rule rnd_nonneg)
  have q0: "0 \<le> rnd ?d / n" using r0 assms(3) by simp
  show "0 \<le> rnd (rnd ?d / n)" using q0 by (rule rnd_nonneg)
  have "rnd ?d / n \<le> rnd ?d / 2" using r0 assms(3) by (intro divide_left_mono) auto
  then have "rnd ?d / n * (1 + 1 / 2 ^ 53) \<le> rnd ?d / 2 * (1 + 1 / 2 ^ 53)"
    by (rule mult_right_mono) simp
  with rnd_upper [OF q0] have "rnd (rnd ?d / n) \<le> rnd ?d / 2 * (1 + 1 / 2 ^ 53)"
    by (rule order.trans)
  also have "\<dots> \<le> ?d * (1 + 1 / 2 ^ 53) / 2 * (1 + 1 / 2 ^ 53)"
    using e1 by (intro mult_right_mono divide_right_mono) simp_all
  also have "\<dots> = ?d * ((1 + 1 / 2 ^ 53) / 2 * (1 + 1 / 2 ^ 53))" by simp
  also have "\<dots> \<le> ?d * 1" using d by (intro mult_left_mono) simp_all
  finally have "m + rnd (rnd ?d / n) \<le> v" by simp
  with assms(1) show "rnd (m + rnd (rnd ?d / n)) \<le> v" by (rule rnd_le)
qed

lemma toward_down:
  assumes "rnd v = v" "v \<le> m" "2 \<le> n"
  shows "rnd (rnd (v - m) / n) \<le> 0" "v \<le> rnd (m + rnd (rnd (v - m) / n))"
proof -
  have v: "rnd (- v) = - v" using assms(1) by (simp add: rnd_minus)
  have eq: "rnd (rnd (- v - - m) / n) = - rnd (rnd (v - m) / n)"
    using rnd_minus [of "v - m"] rnd_minus [of "rnd (v - m) / n"] by simp
  have eq2: "rnd (- m + rnd (rnd (- v - - m) / n)) = - rnd (m + rnd (rnd (v - m) / n))"
    using rnd_minus [of "m + rnd (rnd (v - m) / n)"] unfolding eq by simp
  show "rnd (rnd (v - m) / n) \<le> 0" "v \<le> rnd (m + rnd (rnd (v - m) / n))"
    using toward_up [OF v _ assms(3), of "- m", unfolded eq2, unfolded eq] assms(2) by simp_all
qed

end

interpretation fp: rounding dbl
  by (rule rounding.intro) (fact dbl_mono dbl_idem dbl_minus dbl_int dbl_error)+

lemmas dbl_nonneg = fp.rnd_nonneg

end
