(* ===== verification/Difficulty.thy ===== *)
theory Difficulty
  imports Doubles
begin

text \<open>
  The share-difficulty test (src/pow/difficulty.cpp): the 288-bit limb arithmetic behind
  \<open>is_target_reached\<close>, and the two conversions to display units. Shown: the limb code decides
  the intended inequality between big integers, a share for a harder target clears every easier
  one, and the figures shown to the operator agree with the test.
\<close>

section \<open>The target test\<close>

text \<open>\<open>H[i]\<close>: four hash bytes, big-endian; \<open>H[0]\<close> is the most significant limb.\<close>

definition hash_limb :: "u8 list \<Rightarrow> nat \<Rightarrow> u32" where
  "hash_limb h i =
    push_bit 24 (ucast (h ! (i * 4))) OR push_bit 16 (ucast (h ! (i * 4 + 1)))
    OR push_bit 8 (ucast (h ! (i * 4 + 2))) OR ucast (h ! (i * 4 + 3))"

text \<open>
  The multiplication loop, from the least significant limb up: the limbs of the product and the
  final carry.
\<close>

fun mul_limbs :: "u32 list \<Rightarrow> u32 \<Rightarrow> u64 \<Rightarrow> u32 list \<times> u64" where
  "mul_limbs [] mantissa carry = ([], carry)"
| "mul_limbs (x # xs) mantissa carry =
    (let cur = ucast x * ucast mantissa + carry;
         (ps, c) = mul_limbs xs mantissa (drop_bit 32 cur)
     in (ucast cur # ps, c))"

text \<open>The comparison loop over the limb numbers still to visit, most significant first.\<close>

fun cmp_limbs :: "u32 list \<Rightarrow> nat \<Rightarrow> nat list \<Rightarrow> bool" where
  "cmp_limbs P bitpos [] = True"
| "cmp_limbs P bitpos (limb # ls) =
    (let lo = limb * 32; hi = lo + 32; v = P ! limb
     in if bitpos \<ge> hi then (if v \<noteq> 0 then True else cmp_limbs P bitpos ls)
        else if bitpos \<le> lo then (if v \<noteq> 0 then False else cmp_limbs P bitpos ls)
        else
          let mask = (if bitpos - lo \<ge> 32 then 0xFFFFFFFF else push_bit (bitpos - lo) 1 - 1)
          in if v AND NOT mask \<noteq> 0 then False else cmp_limbs P bitpos ls)"

definition mul_lt_pow2 :: "u8 list \<Rightarrow> u32 \<Rightarrow> nat \<Rightarrow> bool" where
  "mul_lt_pow2 h mantissa bitpos =
    (let H = map (hash_limb h) [0..<8];
         (P, carry) = mul_limbs (rev H) mantissa 0
     in cmp_limbs (P @ [ucast carry]) bitpos (rev [0..<9]))"

definition is_target_reached :: "u8 list \<Rightarrow> u32 \<Rightarrow> bool" where
  "is_target_reached h packed =
    (let s_Inf = push_bit 24 232 in
     if packed > s_Inf then False
     else
       let order = drop_bit 24 packed;
           mantissa = push_bit 24 1 OR (packed AND 0xFFFFFF)
       in mul_lt_pow2 h mantissa (unat (280 - order)))"

text \<open>\<open>sha256\<close> is vendored and a parameter.\<close>

definition clears_difficulty :: "(u8 list \<Rightarrow> u8 list) \<Rightarrow> u8 list \<Rightarrow> u32 \<Rightarrow> bool" where
  "clears_difficulty sha256 soln packed = is_target_reached (sha256 (take 104 soln)) packed"

section \<open>Display units\<close>

definition ldexp :: "double \<Rightarrow> int \<Rightarrow> double" where
  "ldexp x k = dbl (x * pow2 k)"

definition to_display_units :: "u32 \<Rightarrow> double" where
  "to_display_units packed =
    (let order = drop_bit 24 packed;
         m = push_bit 24 1 OR (packed AND 0xFFFFFF)
     in ldexp (d_of_nat (unat m)) (int (unat order) - 24))"

fun leading_zeros :: "u8 list \<Rightarrow> nat" where
  "leading_zeros [] = 0"
| "leading_zeros (b # bs) = (if b = 0 then Suc (leading_zeros bs) else 0)"

definition hash_top :: "u8 list \<Rightarrow> nat \<Rightarrow> u64" where
  "hash_top h lz =
    foldl (\<lambda>t i. push_bit 8 t OR (if lz + i < 32 then ucast (h ! (lz + i)) else 0)) 0 [0..<8]"

text \<open>\<open>None\<close> stands for \<open>HUGE_VAL\<close>.\<close>

definition achieved_units :: "u8 list \<Rightarrow> double option" where
  "achieved_units h =
    (let lz = leading_zeros (take 32 h)
     in if lz = 32 then None
        else Some (ldexp (ddiv (ldexp 1 64) (d_of_nat (unat (hash_top h lz))))
                     (256 - 64 - 8 * (32 - int lz - 8))))"

section \<open>The limb arithmetic is exact\<close>

text \<open>The number a limb list denotes, least significant limb first.\<close>

primrec limbs_val :: "u32 list \<Rightarrow> nat" where
  "limbs_val [] = 0"
| "limbs_val (x # xs) = unat x + 2 ^ 32 * limbs_val xs"

lemma limbs_val_append: "limbs_val (xs @ ys) = limbs_val xs + 2 ^ (32 * length xs) * limbs_val ys"
  by (induction xs) (simp_all add: algebra_simps power_add)

lemma limbs_val_less: "limbs_val xs < 2 ^ (32 * length xs)"
proof (induction xs)
  case Nil
  then show ?case by simp
next
  case (Cons x xs)
  have x: "unat x < 2 ^ 32" using unsigned_less [of x] by simp
  have "2 ^ 32 * (limbs_val xs + 1) \<le> 2 ^ 32 * 2 ^ (32 * length xs)"
    using Cons by (intro mult_le_mono2) simp
  also have "\<dots> = 2 ^ (32 * length (x # xs))" by (simp only: flip: power_add) simp
  finally show ?case using x by (simp only: limbs_val.simps distrib_left mult_1_right)
qed

lemma mul_limbs_correct:
  assumes "unat c < 2 ^ 32"
  shows "let (P, c') = mul_limbs xs m c in
    length P = length xs \<and> unat c' < 2 ^ 32 \<and>
    limbs_val P + 2 ^ (32 * length xs) * unat c' = limbs_val xs * unat m + unat c"
  using assms
proof (induction xs m c rule: mul_limbs.induct)
  case (1 m c)
  then show ?case by simp
next
  case (2 x xs m c)
  define cur where "cur = (ucast x * ucast m + c :: u64)"
  have x: "unat x < 2 ^ 32" and m: "unat m < 2 ^ 32"
    using unsigned_less [of x] unsigned_less [of m] by simp_all
  have ux: "unat (ucast x :: u64) = unat x" "unat (ucast m :: u64) = unat m"
    by (simp_all add: unat_ucast_up)
  have "unat x * unat m \<le> (2 ^ 32 - 1) * (2 ^ 32 - 1)" using x m by (intro mult_mono) auto
  then have xm: "unat x * unat m + unat c < 2 ^ 64" "unat x * unat m < 2 ^ 64"
    using "2.prems" by simp_all
  have "unat (ucast x * ucast m :: u64) = unat x * unat m"
    using xm(2) unat_mult_small [of "ucast x :: u64" "ucast m"] by (simp add: ux)
  then have cur: "unat cur = unat x * unat m + unat c"
    using xm(1) unat_add_small [of "ucast x * ucast m :: u64" c] by (simp add: cur_def)
  have hi: "unat (drop_bit 32 cur) = unat cur div 2 ^ 32"
    by (simp add: drop_bit_eq_div unat_div)
  have lo: "unat (ucast cur :: u32) = unat cur mod 2 ^ 32"
    by (simp add: unsigned_ucast_eq take_bit_eq_mod)
  have c': "unat (drop_bit 32 cur) < 2 ^ 32" using xm(1) unfolding hi cur by simp
  obtain P c2 where Pc: "mul_limbs xs m (drop_bit 32 cur) = (P, c2)" by fastforce
  with "2.IH" [of cur] c' have ih: "length P = length xs" "unat c2 < 2 ^ 32"
    "limbs_val P + 2 ^ (32 * length xs) * unat c2 = limbs_val xs * unat m + unat cur div 2 ^ 32"
    by (simp_all add: cur_def [symmetric] hi)
  have "unat cur mod 2 ^ 32 + 2 ^ 32 * (limbs_val P + 2 ^ (32 * length xs) * unat c2)
      = 2 ^ 32 * (limbs_val xs * unat m) + unat cur"
    unfolding ih(3) using mod_mult_div_eq [of "unat cur" "2 ^ 32"] by (simp add: algebra_simps)
  then have "unat cur mod 2 ^ 32 + 2 ^ 32 * limbs_val P + 2 ^ (32 * length (x # xs)) * unat c2
      = limbs_val (x # xs) * unat m + unat c"
    unfolding cur by (simp add: algebra_simps power_add)
  with ih(1,2) show ?case by (simp add: Pc lo cur_def [symmetric])
qed

lemma cmp_limbs_correct:
  "n \<le> length P \<Longrightarrow> cmp_limbs P bitpos (rev [0..<n]) \<longleftrightarrow> limbs_val (take n P) < 2 ^ bitpos"
proof (induction n)
  case 0
  then show ?case by simp
next
  case (Suc n)
  define v where "v = P ! n"
  define w where "w = limbs_val (take n P)"
  have w: "w < 2 ^ (32 * n)" using limbs_val_less [of "take n P"] Suc.prems by (simp add: w_def)
  have v: "unat v < 2 ^ 32" using unsigned_less [of v] by simp
  have "take (Suc n) P = take n P @ [v]" using Suc.prems by (simp add: v_def take_Suc_conv_app_nth)
  then have W: "limbs_val (take (Suc n) P) = w + 2 ^ (32 * n) * unat v"
    using Suc.prems by (simp add: limbs_val_append w_def)
  have ih: "cmp_limbs P bitpos (rev [0..<n]) \<longleftrightarrow> w < 2 ^ bitpos"
    using Suc by (simp add: w_def)
  have v0: "v \<noteq> 0 \<longleftrightarrow> unat v \<noteq> 0" by (simp add: unat_eq_0)
  consider "n * 32 + 32 \<le> bitpos" | "bitpos \<le> n * 32" | "n * 32 < bitpos" "bitpos < n * 32 + 32"
    by linarith
  then show ?case
  proof cases
    case 1
    have "w + 2 ^ (32 * n) * unat v < 2 ^ (32 * Suc n)"
      using limbs_val_less [of "take (Suc n) P"] Suc.prems W by (simp add: min_absorb2)
    also have "(2 :: nat) ^ (32 * Suc n) \<le> 2 ^ bitpos" using 1 by (intro power_increasing) auto
    finally have "w + 2 ^ (32 * n) * unat v < 2 ^ bitpos" .
    then show ?thesis using 1 ih by (auto simp: W v_def [symmetric] Let_def)
  next
    case 2
    have le: "(2 :: nat) ^ bitpos \<le> 2 ^ (32 * n)" using 2 by (intro power_increasing) auto
    have "\<not> w + 2 ^ (32 * n) * unat v < 2 ^ bitpos" if "unat v \<noteq> 0"
    proof -
      have "2 ^ (32 * n) * 1 \<le> 2 ^ (32 * n) * unat v" using that by (intro mult_le_mono2) simp
      with le show ?thesis by linarith
    qed
    with 2 ih show ?thesis by (auto simp: W v_def [symmetric] v0 Let_def)
  next
    case 3
    define d where "d = bitpos - n * 32"
    have d: "bitpos = 32 * n + d" "0 < d" "d < 32" using 3 by (simp_all add: d_def)
    have mask: "v AND NOT (2 ^ d - 1) = 0 \<longleftrightarrow> unat v < 2 ^ d"
    proof -
      have "v AND NOT (mask d) = 0 \<longleftrightarrow> unat v < 2 ^ d"
        using d(3) by (intro and_not_mask_0) simp
      then show ?thesis by (simp add: mask_eq_exp_minus_1)
    qed
    have P2: "(2 :: nat) ^ bitpos = 2 ^ (32 * n) * 2 ^ d" by (simp add: d power_add)
    have "w + 2 ^ (32 * n) * unat v < 2 ^ bitpos \<longleftrightarrow> unat v < 2 ^ d"
    proof
      assume "unat v < 2 ^ d"
      then have "2 ^ (32 * n) * (unat v + 1) \<le> 2 ^ (32 * n) * 2 ^ d" by (intro mult_le_mono2) simp
      then show "w + 2 ^ (32 * n) * unat v < 2 ^ bitpos" using w unfolding P2 by simp
    next
      assume "w + 2 ^ (32 * n) * unat v < 2 ^ bitpos"
      then have "2 ^ (32 * n) * unat v < 2 ^ (32 * n) * 2 ^ d" unfolding P2 by linarith
      then show "unat v < 2 ^ d" by simp
    qed
    moreover have "w < 2 ^ bitpos"
      using w d(1) by (metis less_le_trans power_increasing le_add1 one_le_numeral)
    ultimately show ?thesis using 3 ih d
      by (simp add: W v_def [symmetric] Let_def d_def [symmetric] mask)
  qed
qed

lemma unat_hash_limb:
  "unat (hash_limb h i) = be_nat [h ! (i * 4), h ! (i * 4 + 1), h ! (i * 4 + 2), h ! (i * 4 + 3)]"
proof -
  let ?b = "\<lambda>j. h ! (i * 4 + j)"
  have lt: "unat b < 256" for b :: u8 using unsigned_less [of b] by simp
  have "hash_limb h i = push_bit 8 (push_bit 8 (push_bit 8 (ucast (?b 0)) OR ucast (?b 1))
      OR ucast (?b 2)) OR ucast (?b 3)"
    by (simp add: hash_limb_def push_bit_or push_bit_push_bit or.assoc)
  moreover have e0: "unat (ucast (?b 0) :: u32) = unat (?b 0)" by (simp add: unat_ucast_up)
  moreover have e1: "unat (push_bit 8 (ucast (?b 0)) OR ucast (?b 1) :: u32)
      = unat (?b 0) * 256 + unat (?b 1)"
    using lt [of "?b 0"] by (subst unat_push8_or) (simp_all add: unat_ucast_up)
  moreover have e2: "unat (push_bit 8 (push_bit 8 (ucast (?b 0)) OR ucast (?b 1)) OR ucast (?b 2) :: u32)
      = (unat (?b 0) * 256 + unat (?b 1)) * 256 + unat (?b 2)"
    using lt [of "?b 0"] lt [of "?b 1"] by (subst unat_push8_or) (simp_all only: e1, simp_all)
  moreover have "unat (push_bit 8 (push_bit 8 (push_bit 8 (ucast (?b 0)) OR ucast (?b 1))
      OR ucast (?b 2)) OR ucast (?b 3) :: u32)
      = ((unat (?b 0) * 256 + unat (?b 1)) * 256 + unat (?b 2)) * 256 + unat (?b 3)"
    using lt [of "?b 0"] lt [of "?b 1"] lt [of "?b 2"]
    by (subst unat_push8_or) (simp_all only: e2, simp_all)
  ultimately show ?thesis by (simp add: be_nat_def)
qed

lemma be_nat_4:
  "be_nat (xs @ [a, b, c, d]) = be_nat xs * 2 ^ 32 + be_nat [a, b, c, d]"
  by (subst be_nat_append) simp

lemma limbs_of_hash:
  assumes "length h = 32"
  shows "limbs_val (rev (map (hash_limb h) [0..<8])) = be_nat h"
proof -
  have step: "limbs_val (rev (map (hash_limb h) [0..<n])) = be_nat (take (4 * n) h)" if "n \<le> 8" for n
    using that
  proof (induction n)
    case 0
    then show ?case by simp
  next
    case (Suc n)
    have "4 * Suc n = 4 * n + 4" by simp
    then have "take (4 * Suc n) h = take (4 * n) h @ take 4 (drop (4 * n) h)"
      by (simp only: take_add)
    also have "take 4 (drop (4 * n) h) =
        [h ! (n * 4), h ! (n * 4 + 1), h ! (n * 4 + 2), h ! (n * 4 + 3)]"
    proof (rule nth_equalityI)
      show "length (take 4 (drop (4 * n) h)) =
          length [h ! (n * 4), h ! (n * 4 + 1), h ! (n * 4 + 2), h ! (n * 4 + 3)]"
        using Suc.prems assms by simp
      fix i assume "i < length (take 4 (drop (4 * n) h))"
      then have "i < 4" by simp
      then have "i = 0 \<or> i = 1 \<or> i = 2 \<or> i = 3" by linarith
      then show "take 4 (drop (4 * n) h) ! i =
          [h ! (n * 4), h ! (n * 4 + 1), h ! (n * 4 + 2), h ! (n * 4 + 3)] ! i"
        using Suc.prems assms by (auto simp: mult.commute)
    qed
    finally show ?case
      using Suc by (simp add: unat_hash_limb be_nat_4)
  qed
  show ?thesis using step [of 8] assms by simp
qed

definition difficulty_mantissa :: "u32 \<Rightarrow> nat" where
  "difficulty_mantissa packed = 2 ^ 24 + unat packed mod 2 ^ 24"

definition difficulty_order :: "u32 \<Rightarrow> nat" where
  "difficulty_order packed = unat packed div 2 ^ 24"

lemma unat_mantissa:
  "unat (push_bit 24 1 OR (packed AND 0xFFFFFF) :: u32) = difficulty_mantissa packed"
proof -
  have m: "packed AND 0xFFFFFF = take_bit 24 packed"
    by (simp add: take_bit_eq_mask mask_numeral and.commute)
  have "\<not> bit (push_bit 24 1 :: u32) n \<or> \<not> bit (take_bit 24 packed) n" for n
    by (auto simp only: bit_take_bit_iff bit_push_bit_iff)
  then have "push_bit 24 1 OR take_bit 24 packed = push_bit 24 1 + take_bit 24 packed"
    by (simp only: disjunctive_add)
  moreover have "unat (take_bit 24 packed) = unat packed mod 2 ^ 24"
    by (simp add: take_bit_eq_mod unat_mod)
  ultimately show ?thesis
    unfolding m difficulty_mantissa_def
    using unat_add_small [of "push_bit 24 1 :: u32" "take_bit 24 packed"] by simp
qed

lemma unat_order: "unat (drop_bit 24 packed) = difficulty_order packed"
  by (simp add: difficulty_order_def drop_bit_eq_div unat_div)

lemma mul_lt_pow2_correct:
  assumes "length h = 32"
  shows "mul_lt_pow2 h m bitpos \<longleftrightarrow> be_nat h * unat m < 2 ^ bitpos"
proof -
  define xs where "xs = rev (map (hash_limb h) [0..<8])"
  obtain P c where Pc: "mul_limbs xs m 0 = (P, c)" by fastforce
  with mul_limbs_correct [of 0 xs m] have P: "length P = 8" "unat c < 2 ^ 32"
    "limbs_val P + 2 ^ 256 * unat c = limbs_val xs * unat m"
    by (simp_all add: xs_def)
  have "unat (ucast c :: u32) = unat c"
    using P(2) by (simp add: unsigned_ucast_eq take_bit_nat_eq_self)
  then have "limbs_val (P @ [ucast c]) = be_nat h * unat m"
    using P limbs_of_hash [OF assms] by (simp add: limbs_val_append xs_def)
  moreover have "mul_lt_pow2 h m bitpos \<longleftrightarrow> limbs_val (take 9 (P @ [ucast c])) < 2 ^ bitpos"
    using cmp_limbs_correct [of 9 "P @ [ucast c]" bitpos] P(1) Pc
    by (simp add: mul_lt_pow2_def xs_def rev_map)
  ultimately show ?thesis using P(1) by simp
qed

lemma target_iff:
  assumes "length h = 32"
  shows "is_target_reached h packed \<longleftrightarrow>
    unat packed \<le> 232 * 2 ^ 24 \<and>
    be_nat h * difficulty_mantissa packed < 2 ^ (280 - difficulty_order packed)"
proof (cases "unat packed \<le> 232 * 2 ^ 24")
  case True
  then have "difficulty_order packed \<le> 232" unfolding difficulty_order_def by simp
  then have "drop_bit 24 packed \<le> 232" by (simp add: word_le_nat_alt unat_order)
  then have "drop_bit 24 packed \<le> 280" by (rule order.trans) simp
  then have "unat (280 - drop_bit 24 packed) = 280 - difficulty_order packed"
    by (simp add: unat_sub unat_order)
  moreover have "\<not> packed > push_bit 24 232" using True by (simp add: word_less_nat_alt)
  ultimately show ?thesis using True
    by (simp add: is_target_reached_def Let_def mul_lt_pow2_correct assms unat_mantissa
        del: push_bit_of_1)
next
  case False
  then have "packed > push_bit 24 232" by (simp add: word_less_nat_alt)
  with False show ?thesis by (simp add: is_target_reached_def Let_def)
qed

lemma mantissa_bounds: "2 ^ 24 \<le> difficulty_mantissa p" "difficulty_mantissa p < 2 ^ 25"
  by (simp_all add: difficulty_mantissa_def)

lemma display_units_exact:
  "to_display_units p = of_nat (difficulty_mantissa p) * pow2 (int (difficulty_order p) - 24)"
proof -
  have "difficulty_mantissa p \<le> 2 ^ 53" using mantissa_bounds(2) [of p] by simp
  then have "to_display_units p =
      dbl (of_int (int (difficulty_mantissa p)) * pow2 (int (difficulty_order p) - 24))"
    unfolding to_display_units_def Let_def unat_mantissa unat_order ldexp_def
    by (simp add: d_of_nat_exact)
  also have "\<dots> = of_int (int (difficulty_mantissa p)) * pow2 (int (difficulty_order p) - 24)"
    using mantissa_bounds [of p] by (intro dbl_exact_pos) simp_all
  finally show ?thesis by simp
qed

lemma target_mono:
  assumes h: "length h = 32" and le: "p \<le> q" and q: "is_target_reached h q"
  shows "is_target_reached h p"
proof -
  note M = mantissa_bounds
  have le': "unat p \<le> unat q" using le by (simp add: word_le_nat_alt)
  then have o: "difficulty_order p \<le> difficulty_order q"
    unfolding difficulty_order_def by (rule div_le_mono)
  from q have Q: "unat q \<le> 232 * 2 ^ 24"
    "be_nat h * difficulty_mantissa q < 2 ^ (280 - difficulty_order q)"
    by (simp_all only: target_iff [OF h])
  have oq: "difficulty_order q \<le> 232" using Q(1) by (simp add: difficulty_order_def)
  have "be_nat h * difficulty_mantissa p < 2 ^ (280 - difficulty_order p)"
  proof (cases "difficulty_order p = difficulty_order q")
    case True
    have "unat x = difficulty_order x * 2 ^ 24 + unat x mod 2 ^ 24" for x :: u32
      unfolding difficulty_order_def by (simp only: div_mult_mod_eq)
    from this [of p] this [of q] le' True have "difficulty_mantissa p \<le> difficulty_mantissa q"
      by (simp add: difficulty_mantissa_def)
    then have "be_nat h * difficulty_mantissa p \<le> be_nat h * difficulty_mantissa q" by (rule mult_le_mono2)
    with Q(2) True show ?thesis by (simp only: le_less_trans)
  next
    case False
    with o have o1: "Suc (280 - difficulty_order q) \<le> 280 - difficulty_order p" using oq by linarith
    have "difficulty_mantissa p \<le> 2 * difficulty_mantissa q"
      using M(1) [of q] M(2) [of p] by simp
    then have "be_nat h * difficulty_mantissa p \<le> be_nat h * (2 * difficulty_mantissa q)"
      by (rule mult_le_mono2)
    also have "\<dots> < 2 ^ Suc (280 - difficulty_order q)" using Q(2) by simp
    also have "(2::nat) ^ Suc (280 - difficulty_order q) \<le> 2 ^ (280 - difficulty_order p)"
      using o1 by (rule power_increasing) simp
    finally show ?thesis .
  qed
  with le' Q(1) show ?thesis by (simp only: target_iff [OF h]) simp
qed

section \<open>Achieved difficulty\<close>

lemma leading_zeros_le: "leading_zeros bs \<le> length bs"
  by (induction bs) simp_all

lemma leading_zeros_nth: "leading_zeros bs < length bs \<Longrightarrow> bs ! leading_zeros bs \<noteq> 0"
  by (induction bs) (simp_all split: if_splits)

lemma leading_zeros_take: "take (leading_zeros bs) bs = replicate (leading_zeros bs) 0"
  by (induction bs) simp_all

lemma be_nat_zeros: "be_nat (replicate n 0 @ bs) = be_nat bs"
proof -
  have "be_nat (replicate n 0) = 0"
  proof (induction n)
    case (Suc n)
    have "replicate (Suc n) (0 :: u8) = replicate n 0 @ [0]" by (simp add: replicate_append_same)
    then show ?case using Suc by (simp only: be_nat_snoc) simp
  qed simp
  then show ?thesis by (simp add: be_nat_append)
qed

text \<open>The eight bytes \<open>hash_top\<close> collects, reading zeros beyond the end of the hash.\<close>

definition top_bytes :: "u8 list \<Rightarrow> nat \<Rightarrow> nat \<Rightarrow> u8 list" where
  "top_bytes h lz n = map (\<lambda>i. if lz + i < 32 then h ! (lz + i) else 0) [0..<n]"

lemma hash_top_val:
  assumes "n \<le> 8"
  shows "unat (foldl (\<lambda>t i. push_bit 8 t OR (if lz + i < 32 then ucast (h ! (lz + i)) else 0)) 0
      [0..<n] :: u64) = be_nat (top_bytes h lz n)"
  using assms
proof (induction n)
  case 0
  then show ?case by (simp add: top_bytes_def)
next
  case (Suc n)
  define t :: u64 where
    "t = foldl (\<lambda>t i. push_bit 8 t OR (if lz + i < 32 then ucast (h ! (lz + i)) else 0)) 0 [0..<n]"
  have t: "unat t = be_nat (top_bytes h lz n)" using Suc by (simp add: t_def)
  have "length (top_bytes h lz n) = n" by (simp add: top_bytes_def)
  with be_nat_less [of "top_bytes h lz n"] have "unat t < 256 ^ n" by (simp add: t)
  also have "(256 :: nat) ^ n \<le> 256 ^ 7" using Suc.prems by (intro power_increasing) simp_all
  finally have room: "unat t * 256 + 255 < 2 ^ 64" by simp
  define b :: u8 where "b = (if lz + n < 32 then h ! (lz + n) else 0)"
  have "(if lz + n < 32 then ucast (h ! (lz + n)) else 0) = (ucast b :: u64)" by (simp add: b_def)
  then have "foldl (\<lambda>t i. push_bit 8 t OR (if lz + i < 32 then ucast (h ! (lz + i)) else 0)) 0
      [0..<Suc n] = push_bit 8 t OR (ucast b :: u64)"
    by (simp add: t_def)
  moreover have "unat (push_bit 8 t OR ucast b) = unat t * 256 + unat b"
    using room by (intro unat_push8_or) simp_all
  moreover have "top_bytes h lz (Suc n) = top_bytes h lz n @ [b]"
    by (simp add: top_bytes_def b_def)
  ultimately show ?case by (simp add: t)
qed

lemma be_nat_replicate: "be_nat (xs @ replicate n 0) = be_nat xs * 256 ^ n"
  using be_nat_zeros [of n "[]"] by (simp add: be_nat_append)

text \<open>
  The top word is the hash without its leading zero bytes, cut or extended to eight bytes:
  it brackets the hash to one unit, and its first byte is not zero.
\<close>

lemma hash_top_bounds:
  assumes h: "length h = 32" and lz: "leading_zeros h = lz" "lz < 32"
  defines "t \<equiv> unat (hash_top h lz)"
  shows "2 ^ 56 \<le> t" "t < 2 ^ 64"
    and "lz \<le> 24 \<Longrightarrow> t * 256 ^ (24 - lz) \<le> be_nat h \<and> be_nat h < (t + 1) * 256 ^ (24 - lz)"
    and "24 \<le> lz \<Longrightarrow> t = be_nat h * 256 ^ (lz - 24)"
proof -
  have tE: "t = be_nat (top_bytes h lz 8)"
    using hash_top_val [where n = 8 and h = h and lz = lz] by (simp add: t_def hash_top_def)
  have lt: "length (top_bytes h lz 8) = 8" by (simp add: top_bytes_def)
  show "t < 2 ^ 64" using be_nat_less [of "top_bytes h lz 8"] by (simp add: tE lt)
  have drop: "be_nat (drop lz h) = be_nat h"
    using leading_zeros_take [of h] be_nat_zeros [of lz "drop lz h"] lz(1)
    by (metis append_take_drop_id)
  have top: "top_bytes h lz 8 = take 8 (drop lz h) @ replicate (8 - (32 - lz)) 0"
    by (rule nth_equalityI) (use h lz in \<open>auto simp: top_bytes_def nth_append\<close>)
  obtain ys where ys: "top_bytes h lz 8 = [h ! lz] @ ys" "length ys = 7"
  proof
    show "top_bytes h lz 8 = [h ! lz] @ map (\<lambda>i. if lz + i < 32 then h ! (lz + i) else 0) [1..<8]"
      using lz(2) by (simp add: top_bytes_def upt_conv_Cons)
  qed simp
  have nz: "1 \<le> unat (h ! lz)"
    using leading_zeros_nth [of h] h lz by (simp add: unat_gt_0 Suc_le_eq)
  have "be_nat (top_bytes h lz 8) = unat (h ! lz) * 256 ^ 7 + be_nat ys"
    unfolding ys(1) be_nat_append ys(2) by (simp add: be_nat_def)
  moreover have "1 * 256 ^ 7 \<le> unat (h ! lz) * 256 ^ 7" using nz by (rule mult_le_mono1)
  ultimately have "1 * 256 ^ 7 \<le> be_nat (top_bytes h lz 8)" by linarith
  then show "2 ^ 56 \<le> t" by (simp add: tE)
  show "t * 256 ^ (24 - lz) \<le> be_nat h \<and> be_nat h < (t + 1) * 256 ^ (24 - lz)" if "lz \<le> 24"
  proof -
    let ?r = "drop 8 (drop lz h)"
    have "be_nat h = be_nat (take 8 (drop lz h) @ ?r)" by (simp only: append_take_drop_id drop)
    also have "\<dots> = t * 256 ^ (24 - lz) + be_nat ?r"
      using that h top by (simp add: be_nat_append tE)
    finally have "be_nat h = t * 256 ^ (24 - lz) + be_nat ?r" .
    moreover have "be_nat ?r < 256 ^ (24 - lz)" using be_nat_less [of ?r] h by simp
    ultimately show ?thesis by simp
  qed
  show "t = be_nat h * 256 ^ (lz - 24)" if "24 \<le> lz"
  proof -
    have "take 8 (drop lz h) = drop lz h" "8 - (32 - lz) = lz - 24" using that h lz(2) by auto
    then show ?thesis using top drop by (simp add: tE be_nat_replicate)
  qed
qed


lemma is_dbl_scale: "is_dbl x \<Longrightarrow> is_dbl (x * pow2 k)"
  by (auto simp: is_dbl_def pow2_add mult.assoc) (metis pow2_add)

lemma ldexp_exact: "is_dbl x \<Longrightarrow> ldexp x k = x * pow2 k"
  by (simp add: ldexp_def dbl_exact is_dbl_scale)

text \<open>The two roundings of \<open>achieved_units\<close>, and the truncation of the hash, in exact arithmetic.\<close>

lemma quotient_error:
  fixes t y :: rat
  assumes t: "2 ^ 56 \<le> t" and y: "t \<le> y" "y \<le> t + 1"
  defines "d \<equiv> dbl (2 ^ 64 / dbl t)"
  shows "\<bar>d * y - 2 ^ 64\<bar> \<le> 2 ^ 13"
proof -
  have t0: "0 < t" using t by (rule less_le_trans [rotated]) simp
  have d1: "0 < dbl t" using t0 by (rule dbl_pos_pos)
  have dp: "0 < d" unfolding d_def using d1 by (intro dbl_pos_pos) simp
  have "\<bar>dbl t - t\<bar> \<le> t / 2 ^ 53" using dbl_error [of t] t0 by simp
  then have "dbl t - t \<le> t / 2 ^ 53" "t - dbl t \<le> t / 2 ^ 53" by linarith+
  then have e1: "t * (1 - 1 / 2 ^ 53) \<le> dbl t" "dbl t \<le> t * (1 + 1 / 2 ^ 53)"
    by (simp_all add: right_diff_distrib distrib_left)
  have "\<bar>d - 2 ^ 64 / dbl t\<bar> \<le> (2 ^ 64 / dbl t) / 2 ^ 53"
    using dbl_error [of "2 ^ 64 / dbl t"] d1 by (simp add: d_def)
  then have "\<bar>d - 2 ^ 64 / dbl t\<bar> * dbl t \<le> (2 ^ 64 / dbl t) / 2 ^ 53 * dbl t"
    using d1 by (intro mult_right_mono) simp_all
  moreover have "\<bar>d - 2 ^ 64 / dbl t\<bar> * dbl t = \<bar>d * dbl t - 2 ^ 64\<bar>"
    using d1 abs_mult [of "d - 2 ^ 64 / dbl t" "dbl t"] by (simp add: left_diff_distrib)
  ultimately have e2: "\<bar>d * dbl t - 2 ^ 64\<bar> \<le> 2 ^ 11" using d1 by simp
  have "d * (t * (1 - 1 / 2 ^ 53)) \<le> d * dbl t" "d * dbl t \<le> d * (t * (1 + 1 / 2 ^ 53))"
    using e1 dp by (simp_all only: mult_le_cancel_left_pos)
  then have p: "(d * t) * (1 - 1 / 2 ^ 53) \<le> 2 ^ 64 + 2 ^ 11"
      "2 ^ 64 - 2 ^ 11 \<le> (d * t) * (1 + 1 / 2 ^ 53)"
    using e2 by (simp_all add: abs_le_iff mult.assoc)
  have "d * 2 ^ 56 \<le> d * t" using t dp by (simp only: mult_le_cancel_left_pos)
  moreover have "d * t \<le> d * y" "d * y \<le> d * t + d"
    using y dp mult_left_mono [of y "t + 1" d] by (simp_all add: distrib_left)
  ultimately show ?thesis using p by (simp add: abs_le_iff)
qed

lemma achieved_units_error:
  assumes h: "length h = 32" and nz: "be_nat h \<noteq> 0"
  obtains a where "achieved_units h = Some a" "\<bar>a * of_nat (be_nat h) - 2 ^ 256\<bar> \<le> 2 ^ 205"
proof -
  define lz where "lz = leading_zeros h"
  have "be_nat (replicate 32 0 :: u8 list) = 0" using be_nat_zeros [of 32 "[]"] by simp
  then have "lz \<noteq> 32" using nz leading_zeros_take [of h] h by (auto simp: lz_def)
  then have lz: "lz < 32" using leading_zeros_le [of h] h by (simp add: lz_def)
  define t where "t = unat (hash_top h lz)"
  note B = hash_top_bounds [OF h lz_def [symmetric] lz, folded t_def]
  define d where "d = dbl (2 ^ 64 / dbl (of_nat t))"
  define y where "y = of_nat (be_nat h) * 2 ^ (8 * lz) / (2 ^ 192 :: rat)"
  have "(2 :: nat) ^ 192 * t \<le> be_nat h * 2 ^ (8 * lz)"
    and "be_nat h * 2 ^ (8 * lz) \<le> (2 :: nat) ^ 192 * (t + 1)"
  proof -
    have pw: "(256 :: nat) ^ n = 2 ^ (8 * n)" for n by (simp add: power_mult)
    have *: "(2 :: nat) ^ 192 * t \<le> be_nat h * 2 ^ (8 * lz) \<and>
        be_nat h * 2 ^ (8 * lz) \<le> (2 :: nat) ^ 192 * (t + 1)"
    proof (cases "lz \<le> 24")
      case True
      then have "8 * (24 - lz) + 8 * lz = 192" by simp
      then have "(2 :: nat) ^ (8 * (24 - lz)) * 2 ^ (8 * lz) = 2 ^ 192"
        by (simp only: flip: power_add)
      moreover note B(3) [OF True]
      moreover have "x * 2 ^ (8 * (24 - lz)) * 2 ^ (8 * lz) = x * (2 ^ (8 * (24 - lz)) * 2 ^ (8 * lz))"
        for x :: nat by (simp only: mult.assoc)
      ultimately show ?thesis
        using mult_le_mono1 [of "t * 256 ^ (24 - lz)" "be_nat h" "2 ^ (8 * lz)"]
          mult_le_mono1 [of "be_nat h" "(t + 1) * 256 ^ (24 - lz)" "2 ^ (8 * lz)"]
        unfolding pw by (simp only: mult.commute less_imp_le)
    next
      case False
      then have "t = be_nat h * 2 ^ (8 * (lz - 24))" using B(4) by (simp add: pw)
      moreover have "(2 :: nat) ^ (8 * lz) = 2 ^ 192 * 2 ^ (8 * (lz - 24))"
        using False by (simp only: flip: power_add) simp
      ultimately show ?thesis by simp
    qed
    from * show "(2 :: nat) ^ 192 * t \<le> be_nat h * 2 ^ (8 * lz)" by (rule conjunct1)
    from * show "be_nat h * 2 ^ (8 * lz) \<le> (2 :: nat) ^ 192 * (t + 1)" by (rule conjunct2)
  qed
  then have "(of_nat (2 ^ 192 * t) :: rat) \<le> of_nat (be_nat h * 2 ^ (8 * lz))"
      "of_nat (be_nat h * 2 ^ (8 * lz)) \<le> (of_nat (2 ^ 192 * (t + 1)) :: rat)"
    by (simp_all only: of_nat_le_iff)
  then have y: "of_nat t \<le> y" "y \<le> of_nat t + 1" by (simp_all add: y_def field_simps)
  have "(2 ^ 56 :: rat) \<le> of_nat t" using B(1) by (metis of_nat_le_iff of_nat_numeral of_nat_power)
  from quotient_error [OF this y] have q: "\<bar>d * y - 2 ^ 64\<bar> \<le> 2 ^ 13" by (simp add: d_def)
  have l1: "ldexp 1 64 = 2 ^ 64"
    using ldexp_exact [OF is_dbl_int [of 1], of 64] by (simp add: pow2_def)
  have e: "256 - 64 - 8 * (32 - int lz - 8) = int (8 * lz)" by simp
  have "achieved_units h = Some (ldexp d (int (8 * lz)))"
    unfolding achieved_units_def using lz h e
    by (simp add: Let_def d_def t_def l1 dops d_of_nat_def flip: lz_def)
  also have "ldexp d (int (8 * lz)) = d * 2 ^ (8 * lz)"
    unfolding d_def by (simp only: ldexp_exact [OF is_dbl_dbl] pow2_nat)
  finally have a: "achieved_units h = Some (d * 2 ^ (8 * lz))" .
  have "d * 2 ^ (8 * lz) * of_nat (be_nat h) - 2 ^ 256 = (d * y - 2 ^ 64) * 2 ^ 192"
    by (simp add: y_def algebra_simps)
  then have "\<bar>d * 2 ^ (8 * lz) * of_nat (be_nat h) - 2 ^ 256\<bar> = \<bar>d * y - 2 ^ 64\<bar> * 2 ^ 192"
    by (simp only: abs_mult) simp
  also have "\<dots> \<le> 2 ^ 13 * 2 ^ 192" using q by (intro mult_right_mono) simp_all
  finally show thesis using a that by simp
qed


text \<open>The limb test is the comparison of the hash with \<open>2 ^ 256\<close> over the display units.\<close>

lemma target_display:
  assumes "length h = 32"
  shows "is_target_reached h packed \<longleftrightarrow>
    packed \<le> push_bit 24 232 \<and> of_nat (be_nat h) * to_display_units packed < 2 ^ 256"
proof (cases "unat packed \<le> 232 * 2 ^ 24")
  case True
  let ?m = "difficulty_mantissa packed" and ?o = "difficulty_order packed"
  have o: "?o \<le> 232" using True by (simp add: difficulty_order_def)
  have inf: "packed \<le> push_bit 24 232" using True by (simp add: word_le_nat_alt)
  have e: "int (280 - ?o) = 256 - (int ?o - 24)" using o by linarith
  have "be_nat h * ?m < 2 ^ (280 - ?o) \<longleftrightarrow> (of_nat (be_nat h * ?m) :: rat) < of_nat (2 ^ (280 - ?o))"
    by (rule of_nat_less_iff [symmetric])
  also have "\<dots> \<longleftrightarrow> of_nat (be_nat h) * of_nat ?m < pow2 (256 - (int ?o - 24))"
    using e by (simp add: pow2_nat [symmetric])
  also have "\<dots> \<longleftrightarrow> of_nat (be_nat h) * to_display_units packed < 2 ^ 256"
    unfolding pow2_diff display_units_exact using pow2_nat [of 256]
    by (simp add: field_simps)
  finally show ?thesis using True inf by (simp add: target_iff [OF assms])
next
  case False
  then have "\<not> packed \<le> push_bit 24 232" by (simp add: word_le_nat_alt)
  with False show ?thesis by (simp add: target_iff [OF assms])
qed

section \<open>Properties\<close>

text \<open>
  C5: For a 32-byte hash, the 288-bit limb comparison decides exactly whether
  hash * difficulty < 2^256, where the difficulty is the figure shown to the operator; every
  packed value above the infinite one is refused.
\<close>
theorem target_test_exact:
  assumes "length h = 32"
  shows "is_target_reached h packed \<longleftrightarrow>
    packed \<le> push_bit 24 232 \<and> of_nat (be_nat h) * to_display_units packed < 2 ^ 256"
  using assms by (rule target_display)

theorem target_test_exact_witness:
  "is_target_reached (replicate 31 0 @ [5]) (push_bit 24 200) \<longleftrightarrow>
    (push_bit 24 200 :: u32) \<le> push_bit 24 232 \<and>
    of_nat (be_nat (replicate 31 0 @ [5])) * to_display_units (push_bit 24 200) < 2 ^ 256"
  by (rule target_test_exact) simp

text \<open>
  A solution that clears a difficulty clears every easier one, in the order of the packed
  words, whatever the hash function, provided it returns 32 bytes.
\<close>
theorem clears_difficulty_monotone:
  assumes "length (sha256 (take 104 soln)) = 32" "p \<le> q" "clears_difficulty sha256 soln q"
  shows "clears_difficulty sha256 soln p"
  using assms unfolding clears_difficulty_def by (rule target_mono)

theorem clears_difficulty_monotone_witness:
  "clears_difficulty (\<lambda>_. replicate 32 0) [] (push_bit 24 1 + 7)"
proof (rule clears_difficulty_monotone [where q = "push_bit 24 3"])
  show "clears_difficulty (\<lambda>_. replicate 32 0) [] (push_bit 24 3)"
    using be_nat_zeros [of 32 "[]"] by (simp add: clears_difficulty_def target_display)
qed simp_all

text \<open>
  For a hash that is not zero, \<open>achieved_units\<close> returns a figure within a relative error
  of \<open>2 ^ -51\<close> of \<open>2 ^ 256\<close> over the hash, so it sits on the right side of every target up to
  that error: above each one the share clears, below each one it misses.
\<close>
theorem achieved_units_brackets_targets:
  assumes h: "length h = 32" and nz: "be_nat h \<noteq> 0"
  shows "\<exists>a. achieved_units h = Some a \<and> \<bar>a * of_nat (be_nat h) - 2 ^ 256\<bar> \<le> 2 ^ 205 \<and>
    (\<forall>packed \<le> push_bit 24 232.
      if is_target_reached h packed then to_display_units packed * (1 - 1 / 2 ^ 51) < a
      else a \<le> to_display_units packed * (1 + 1 / 2 ^ 51))"
proof -
  define n :: rat where "n = of_nat (be_nat h)"
  have n: "0 < n" using nz by (simp add: n_def)
  from achieved_units_error [OF h nz] obtain a where a: "achieved_units h = Some a"
    "\<bar>a * n - 2 ^ 256\<bar> \<le> 2 ^ 205" by (auto simp: n_def)
  have "if is_target_reached h p then to_display_units p * (1 - 1 / 2 ^ 51) < a
      else a \<le> to_display_units p * (1 + 1 / 2 ^ 51)" if p: "p \<le> push_bit 24 232" for p
  proof -
    let ?d = "to_display_units p"
    have "?d * (1 - 1 / 2 ^ 51) * n < a * n" if "n * ?d < 2 ^ 256"
      using that a(2) by (simp add: abs_le_iff algebra_simps)
    moreover have "a * n \<le> ?d * (1 + 1 / 2 ^ 51) * n" if "\<not> n * ?d < 2 ^ 256"
      using that a(2) by (simp add: abs_le_iff algebra_simps)
    ultimately show ?thesis
      using p n by (simp only: target_display [OF h] n_def [symmetric] mult_less_cancel_right_pos
          mult_le_cancel_right_pos simp_thms split: if_split) blast
  qed
  with a show ?thesis unfolding n_def by blast
qed

theorem achieved_units_brackets_targets_witness:
  "\<exists>a. achieved_units (replicate 31 0 @ [5]) = Some a \<and>
    \<bar>a * of_nat (be_nat (replicate 31 0 @ [5])) - 2 ^ 256\<bar> \<le> 2 ^ 205 \<and>
    (\<forall>packed \<le> push_bit 24 232.
      if is_target_reached (replicate 31 0 @ [5]) packed
      then to_display_units packed * (1 - 1 / 2 ^ 51) < a
      else a \<le> to_display_units packed * (1 + 1 / 2 ^ 51))"
  by (rule achieved_units_brackets_targets) simp_all

text \<open>
  The header promises a relative error of the order of \<open>2 ^ -64\<close>. The conversion of the leading
  64 bits to a double loses eleven of them: on the hash below the figure is off by \<open>2 ^ -53\<close>.
\<close>

lemma achieved_units_rounded:
  "achieved_units ([0x80, 0, 0, 0, 0, 0, 4, 0] @ replicate 24 0) = Some 2"
proof -
  have "leading_zeros (take 32 ([0x80, 0, 0, 0, 0, 0, 4, 0] @ replicate 24 0)) = 0" by simp
  moreover have "hash_top ([0x80, 0, 0, 0, 0, 0, 4, 0] @ replicate 24 0) 0 = 0x8000000000000400"
    by (simp add: hash_top_def upt_rec nth_append)
  moreover have "dbl 0x8000000000000400 = 0x8000000000000000" by code_simp
  moreover have "ldexp 1 64 = 2 ^ 64" by code_simp
  moreover have "dbl 2 = 2" "ldexp 2 0 = 2" by code_simp+
  ultimately show ?thesis by (simp add: achieved_units_def d_of_nat_def ddiv_def)
qed

text \<open>
  The figure of \<open>achieved_units\<close> is not exact to a relative error of \<open>2 ^ -64\<close>: there is a
  hash for which it differs from 2^256 over the hash by a relative error of more than
  \<open>2 ^ -54\<close>.
\<close>
theorem achieved_units_not_2_64:
  "\<exists>h a. length h = 32 \<and> achieved_units h = Some a \<and>
    2 ^ 256 / 2 ^ 54 < \<bar>a * of_nat (be_nat h) - 2 ^ 256\<bar>"
proof -
  let ?p = "[0x80, 0, 0, 0, 0, 0, 4, 0] :: u8 list"
  have "be_nat ?p = 0x8000000000000400" by (simp add: be_nat_def)
  then have "be_nat (?p @ replicate 24 0) = 0x8000000000000400 * 256 ^ 24"
    by (simp only: be_nat_replicate)
  then have "2 ^ 256 / 2 ^ 54 < \<bar>(2 :: rat) * of_nat (be_nat (?p @ replicate 24 0)) - 2 ^ 256\<bar>"
    by (simp only: of_nat_mult of_nat_power of_nat_numeral) simp
  then show ?thesis
    using achieved_units_rounded by (intro exI [of _ "?p @ replicate 24 0"] exI [of _ 2]) simp
qed

end
