(* ===== verification/Budget.thy ===== *)
theory Budget
  imports Doubles
begin

text \<open>
  How much VRAM the pipeline may size against (src/gpu/budget.h, src/gpu/budget.cpp): the
  reserve policy, the usable figure, and the two budgets. Shown: the usable figure never exceeds
  the card and never underflows, every field of a budget is within its bounds and the buffers fit
  the memory they were sized for, and the two budgets agree where the source says they do.
\<close>

definition kSeedElemBytes :: u64 where "kSeedElemBytes = 56"
definition kTargetElemsLog2 :: nat where "kTargetElemsLog2 = 25"
definition kBytesPerElementRowbucket :: u32 where "kBytesPerElementRowbucket = 256"
definition kBytesPerElementSort :: u32 where "kBytesPerElementSort = 284"
definition kReserveDisplayBytes :: u64 where "kReserveDisplayBytes = push_bit 20 256"
definition kReserveHeadlessBytes :: u64 where "kReserveHeadlessBytes = push_bit 20 64"
definition kUnknownFreeHeadroom :: double where "kUnknownFreeHeadroom = dbl (85 / 100)"

text \<open>The shipping capacity of src/gpu/rowbucket_geom.h.\<close>

definition kRbCapacity :: u32 where "kRbCapacity = push_bit 25 1 + push_bit 25 1 div 32"

definition budget_can_find_solutions :: "u32 \<Rightarrow> bool" where
  "budget_can_find_solutions elems_per_round \<longleftrightarrow> elems_per_round \<ge> push_bit kTargetElemsLog2 1"

section \<open>The reserve\<close>

text \<open>The two process-wide variables \<open>g_keepfree\<close> and \<open>g_keepfree_given\<close>.\<close>

record keepfree =
  g_keepfree :: u64
  g_keepfree_given :: bool

definition keepfree_init :: keepfree where
  "keepfree_init = \<lparr>g_keepfree = 0, g_keepfree_given = False\<rparr>"

definition set_keepfree_bytes :: "u64 \<Rightarrow> keepfree \<Rightarrow> keepfree" where
  "set_keepfree_bytes bytes s = s\<lparr>g_keepfree := bytes, g_keepfree_given := True\<rparr>"

definition clear_keepfree :: "keepfree \<Rightarrow> keepfree" where
  "clear_keepfree s = s\<lparr>g_keepfree := 0, g_keepfree_given := False\<rparr>"

definition reserve_bytes :: "keepfree \<Rightarrow> bool \<Rightarrow> u64" where
  "reserve_bytes s display_attached =
    (if g_keepfree_given s then g_keepfree s
     else if display_attached then kReserveDisplayBytes else kReserveHeadlessBytes)"

definition min_u64 :: "u64 \<Rightarrow> u64 \<Rightarrow> u64" where
  "min_u64 a b = (if a < b then a else b)"

text \<open>
  A conversion of a nonnegative double to an unsigned integer truncates. Out of the range of the
  type the C++ result is undefined; the model wraps, and the properties stay in range.
\<close>

definition u64_of_d :: "double \<Rightarrow> u64" where
  "u64_of_d x = word_of_nat (trunc_nat x)"

definition usable_vram :: "u64 \<Rightarrow> u64 \<Rightarrow> u64 \<Rightarrow> u64" where
  "usable_vram free_bytes total_bytes reserve =
    (if free_bytes = 0 then u64_of_d (dmul (d_of_nat (unat total_bytes)) kUnknownFreeHeadroom)
     else
       let capped = min_u64 free_bytes (if total_bytes \<noteq> 0 then total_bytes else free_bytes)
       in if capped > reserve then capped - reserve else 0)"

section \<open>The budgets\<close>

record budget =
  b_global_mem :: u64
  b_max_alloc :: u64
  b_usable :: u64
  b_bytes_per_element :: u32
  b_target_elems :: u32
  b_elems_per_round :: u32
  b_capacity :: u32
  b_bucket_bits :: nat
  b_num_buckets :: u32
  b_slots_per_bucket :: u32
  b_seed_batch :: u32

text \<open>\<open>lg\<close>: the loop \<open>while ((1ull << (lg+1)) <= n) ++lg\<close>, from a given \<open>lg\<close>.\<close>

function floor_log2_from :: "nat \<Rightarrow> u32 \<Rightarrow> nat" where
  "floor_log2_from lg n =
    (if (2 :: nat) ^ (lg + 1) \<le> unat n then floor_log2_from (lg + 1) n else lg)"
  by auto
termination
proof (relation "measure (\<lambda>(lg, n). unat n - lg)")
  fix lg and n :: u32
  assume "(2 :: nat) ^ (lg + 1) \<le> unat n"
  moreover have "lg + 1 < 2 ^ (lg + 1)" by (rule less_exp)
  ultimately have "lg < unat n" by linarith
  then show "((lg + 1, n), lg, n) \<in> measure (\<lambda>(lg, n). unat n - lg)" by simp
qed simp

declare floor_log2_from.simps [simp del]

text \<open>
  \<open>headroom\<close> is the caller's factor. A zero \<open>bytes_per_element\<close> divides by zero in C++; no
  caller passes it, and the properties exclude it.
\<close>

definition compute_budget :: "u64 \<Rightarrow> u64 \<Rightarrow> double \<Rightarrow> u32 \<Rightarrow> budget" where
  "compute_budget global_mem max_alloc headroom bytes_per_element =
    (let usable = u64_of_d (dmul (d_of_nat (unat global_mem)) headroom);
         target :: u32 = push_bit kTargetElemsLog2 1;
         rounds_cap = usable div ucast bytes_per_element;
         epr0 = min_u64 (ucast target) rounds_cap;
         epr = (if epr0 = 0 then 1 else epr0);
         elems_per_round :: u32 = ucast epr;
         cap0 = min_u64 rounds_cap (epr + epr div 32);
         cap = (if cap0 < epr then epr else cap0);
         lg = floor_log2_from 0 elems_per_round;
         bucket_bits0 = (if lg \<ge> 15 then lg - 5 else 10);
         bucket_bits = (if bucket_bits0 > 20 then 20 else bucket_bits0);
         num_buckets :: u32 = push_bit bucket_bits 1;
         mean :: u64 = ucast elems_per_round div ucast num_buckets;
         spb0 = (mean * 14 + 9) div 10;
         spb = (if spb0 < 64 then 64 else spb0);
         batch0 = min_u64 (ucast target) (max_alloc div kSeedElemBytes);
         batch1 = min_u64 batch0 (ucast elems_per_round);
         batch = (if batch1 = 0 then 1 else batch1)
     in \<lparr>b_global_mem = global_mem, b_max_alloc = max_alloc, b_usable = usable,
         b_bytes_per_element = bytes_per_element, b_target_elems = target,
         b_elems_per_round = elems_per_round, b_capacity = ucast cap,
         b_bucket_bits = bucket_bits, b_num_buckets = num_buckets,
         b_slots_per_bucket = ucast spb, b_seed_batch = ucast batch\<rparr>)"

definition budget_full_rowbucket :: "u64 \<Rightarrow> u64 \<Rightarrow> budget" where
  "budget_full_rowbucket usable_mem max_alloc =
    (let target :: u32 = push_bit kTargetElemsLog2 1;
         batch0 = (if max_alloc \<noteq> 0 then min_u64 (ucast target) (max_alloc div kSeedElemBytes)
                   else ucast target);
         batch = (if batch0 = 0 then 1 else batch0)
     in \<lparr>b_global_mem = usable_mem, b_max_alloc = max_alloc, b_usable = usable_mem,
         b_bytes_per_element = kBytesPerElementRowbucket, b_target_elems = target,
         b_elems_per_round = target, b_capacity = kRbCapacity,
         b_bucket_bits = 20, b_num_buckets = push_bit 20 1,
         b_slots_per_bucket = 64, b_seed_batch = ucast batch\<rparr>)"

section \<open>Lemmas\<close>

lemma min_u64_min: "min_u64 a b = min a b"
  by (auto simp: min_u64_def min_def)

lemma unat_min: "unat (min a b :: 'a::len word) = min (unat a) (unat b)"
  by (simp add: min_def word_le_nat_alt)

lemma floor_log2_from_spec:
  "2 ^ lg \<le> unat n \<Longrightarrow>
    2 ^ floor_log2_from lg n \<le> unat n \<and> unat n < 2 ^ (floor_log2_from lg n + 1)"
  by (induction lg n rule: floor_log2_from.induct)
    (subst (1 2) floor_log2_from.simps, simp del: power_Suc add: not_le)

lemma headroom_trunc:
  assumes "0 \<le> r" "r \<le> 1 - 1 / 2 ^ 50"
  shows "trunc_nat (dmul (d_of_nat n) r) \<le> n"
proof -
  let ?n = "of_nat n :: rat"
  have "d_of_nat n \<le> ?n * (1 + 1 / 2 ^ 53)" unfolding d_of_nat_def by (rule fp.rnd_upper) simp
  moreover have dn: "0 \<le> d_of_nat n" by (simp add: d_of_nat_def dbl_nonneg)
  moreover have "dmul (d_of_nat n) r \<le> d_of_nat n * r * (1 + 1 / 2 ^ 53)"
    unfolding dmul_def using dn assms(1) by (intro fp.rnd_upper) simp
  moreover have "d_of_nat n * r \<le> d_of_nat n * (1 - 1 / 2 ^ 50)"
    using dn assms(2) by (rule mult_left_mono [rotated])
  ultimately have "dmul (d_of_nat n) r \<le> ?n"
    by simp
  then have "\<lfloor>dmul (d_of_nat n) r\<rfloor> \<le> int n"
    by (simp add: floor_le_iff)
  then show ?thesis by (simp add: trunc_nat_def)
qed


lemma headroom_range: "0 \<le> kUnknownFreeHeadroom" "kUnknownFreeHeadroom \<le> 1 - 1 / 2 ^ 50"
proof -
  have "kUnknownFreeHeadroom = 7656119366529843 / 9007199254740992"
    unfolding kUnknownFreeHeadroom_def by code_simp
  then show "0 \<le> kUnknownFreeHeadroom" "kUnknownFreeHeadroom \<le> 1 - 1 / 2 ^ 50" by simp_all
qed

lemma unat_u64_of_d: "trunc_nat x < 2 ^ 64 \<Longrightarrow> unat (u64_of_d x) = trunc_nat x"
  by (simp add: u64_of_d_def unat_of_nat take_bit_nat_eq_self unsigned_of_nat)

lemma unat_headroom:
  assumes "0 \<le> r" "r \<le> 1 - 1 / 2 ^ 50"
  shows "unat (u64_of_d (dmul (d_of_nat (unat (g :: u64))) r)) \<le> unat g"
proof -
  have "trunc_nat (dmul (d_of_nat (unat g)) r) \<le> unat g" using assms by (rule headroom_trunc)
  moreover have "unat g < 2 ^ 64" using unsigned_less [of g] by simp
  ultimately show ?thesis by (simp add: unat_u64_of_d)
qed

text \<open>The fields of a budget as numbers.\<close>

definition epr_of :: "nat \<Rightarrow> nat" where
  "epr_of rounds_cap = max 1 (min (2 ^ 25) rounds_cap)"

lemma epr_of_bounds: "1 \<le> epr_of c" "epr_of c \<le> 2 ^ 25"
  by (simp_all add: epr_of_def)

lemma unat_if0_1: "unat (if a = (0 :: u64) then 1 else a) = max 1 (unat a)"
  by (auto simp: max_def not_le unat_eq_0 Suc_le_eq unat_gt_0)

lemma unat_ucast_small: "unat (a :: u64) < 2 ^ 32 \<Longrightarrow> unat (ucast a :: u32) = unat a"
  by (simp add: unsigned_ucast_eq take_bit_nat_eq_self)


lemma budget_epr_u64:
  fixes bpe :: u32 and usable :: u64
  defines "rc \<equiv> usable div ucast bpe"
  defines "e0 \<equiv> min_u64 (ucast (push_bit 25 1 :: u32)) rc"
  shows "unat (if e0 = 0 then 1 else e0) = epr_of (unat usable div unat bpe)"
  unfolding unat_if0_1 epr_of_def e0_def min_u64_min unat_min rc_def
  by (simp add: unat_div unat_ucast_up)

lemma budget_fields:
  fixes bpe :: u32
  assumes b: "b = compute_budget g m r bpe"
  defines "rc \<equiv> unat (b_usable b) div unat bpe"
  shows "unat (b_elems_per_round b) = epr_of rc"
    and "unat (b_capacity b) = max (epr_of rc) (min rc (epr_of rc + epr_of rc div 32))"
    and "unat (b_seed_batch b) = max 1 (min (min (2 ^ 25) (unat m div 56)) (epr_of rc))"
proof -
  define U where "U = u64_of_d (dmul (d_of_nat (unat g)) r)"
  define e0 where "e0 = min_u64 (ucast (push_bit 25 1 :: u32)) (U div ucast bpe)"
  define e where "e = (if e0 = 0 then 1 else e0)"
  define c0 where "c0 = min_u64 (U div ucast bpe) (e + e div 32)"
  define c where "c = (if c0 < e then e else c0)"
  define n0 where "n0 = min_u64 (min_u64 (ucast (push_bit 25 1 :: u32)) (m div kSeedElemBytes))
    (ucast (ucast e :: u32))"
  define n where "n = (if n0 = 0 then 1 else n0)"
  have U: "b_usable b = U" by (simp add: b compute_budget_def Let_def U_def)
  have e: "unat e = epr_of rc"
    unfolding e_def e0_def rc_def U by (rule budget_epr_u64)
  have bound: "unat e \<le> 2 ^ 25" using e epr_of_bounds by simp
  have ue: "unat (ucast e :: u32) = epr_of rc"
    using bound e unat_ucast_small [of e] by simp
  have "b_elems_per_round b = ucast e"
    by (simp add: b compute_budget_def Let_def e_def e0_def U_def kTargetElemsLog2_def
        del: push_bit_of_1)
  then show "unat (b_elems_per_round b) = epr_of rc" using ue by simp
  have "unat (e + e div 32) = epr_of rc + epr_of rc div 32"
    using bound e unat_add_small [of e "e div 32"] by (simp add: unat_div)
  then have "unat c0 = min rc (epr_of rc + epr_of rc div 32)"
    by (simp add: c0_def min_u64_min unat_min unat_div unat_ucast_up rc_def U)
  then have c: "unat c = max (epr_of rc) (min rc (epr_of rc + epr_of rc div 32))"
    using e by (auto simp: c_def word_less_nat_alt max_def)
  have "b_capacity b = ucast c"
    by (simp add: b compute_budget_def Let_def c_def c0_def e_def e0_def U_def kTargetElemsLog2_def
        del: push_bit_of_1)
  moreover have "unat c < 2 ^ 32" using c bound e by simp
  ultimately show "unat (b_capacity b) = max (epr_of rc) (min rc (epr_of rc + epr_of rc div 32))"
    using c by (simp only: unat_ucast_small)
  have "unat n0 = min (min (2 ^ 25) (unat m div 56)) (epr_of rc)"
    using ue by (simp add: n0_def min_u64_min unat_min unat_div unat_ucast_up kSeedElemBytes_def)
  then have n: "unat n = max 1 (min (min (2 ^ 25) (unat m div 56)) (epr_of rc))"
    by (simp only: n_def unat_if0_1)
  have "b_seed_batch b = ucast n"
    by (simp add: b compute_budget_def Let_def n_def n0_def e_def e0_def U_def kTargetElemsLog2_def
        del: push_bit_of_1)
  moreover have "unat n < 2 ^ 32" using n bound e by simp
  ultimately show "unat (b_seed_batch b) = max 1 (min (min (2 ^ 25) (unat m div 56)) (epr_of rc))"
    using n by (simp only: unat_ucast_small)
qed


lemma budget_buckets:
  assumes b: "b = compute_budget g m r bpe"
  defines "n \<equiv> b_elems_per_round b"
  defines "lg \<equiv> floor_log2_from 0 n"
  shows "b_bucket_bits b = (if lg < 15 then 10 else min 20 (lg - 5))"
    and "b_num_buckets b = push_bit (b_bucket_bits b) 1"
    and "b_slots_per_bucket b = ucast (max 64 ((ucast n div ucast (b_num_buckets b) * 14 + 9) div 10 :: u64))"
  by (auto simp: b compute_budget_def Let_def n_def lg_def max_def not_le simp del: push_bit_of_1)

lemma mean_fits:
  fixes n :: nat
  assumes n: "1 \<le> n" "n \<le> 2 ^ 25" and lg: "2 ^ lg \<le> n" "n < 2 ^ (lg + 1)"
  defines "bits \<equiv> if lg < 15 then 10 else min 20 (lg - 5)"
  shows "n div 2 ^ bits < 64"
proof -
  have "n < 64 * 2 ^ bits"
  proof (cases "lg < 15")
    case True
    then have "(2 :: nat) ^ (lg + 1) \<le> 2 ^ 15" by (intro power_increasing) simp_all
    with lg(2) True show ?thesis by (simp add: bits_def)
  next
    case False
    show ?thesis
    proof (cases "lg \<le> 25")
      case True
      then have "6 + bits = lg + 1" using False by (simp add: bits_def)
      then have "(2 :: nat) ^ 6 * 2 ^ bits = 2 ^ (lg + 1)" by (simp only: flip: power_add)
      with lg(2) show ?thesis by simp
    next
      case False
      then have "(2 :: nat) ^ 26 \<le> 2 ^ lg" by (intro power_increasing) simp_all
      with n lg show ?thesis by simp
    qed
  qed
  then show ?thesis by (simp add: less_mult_imp_div_less mult.commute)
qed

section \<open>Properties\<close>

text \<open>
  The usable figure is the free figure, capped by the card, less the reserve, never below
  zero; when the driver will not say what is free it is 85 % of the card. Either way it does not
  exceed a card whose size is known.
\<close>
theorem usable_vram_bounded:
  "unat (usable_vram free tot reserve) =
      (if free = 0 then trunc_nat (dmul (d_of_nat (unat tot)) kUnknownFreeHeadroom)
       else (if tot = 0 then unat free else min (unat free) (unat tot)) - unat reserve) \<and>
   (tot \<noteq> 0 \<or> free = 0 \<longrightarrow> usable_vram free tot reserve \<le> tot)"
proof (intro conjI impI)
  have u: "trunc_nat (dmul (d_of_nat (unat tot)) kUnknownFreeHeadroom) \<le> unat tot"
    by (rule headroom_trunc) (rule headroom_range)+
  moreover have "unat tot < 2 ^ 64" using unsigned_less [of tot] by simp
  ultimately have w: "unat (u64_of_d (dmul (d_of_nat (unat tot)) kUnknownFreeHeadroom)) =
      trunc_nat (dmul (d_of_nat (unat tot)) kUnknownFreeHeadroom)"
    by (simp add: unat_u64_of_d)
  have sub: "unat (if a > b then a - b else 0) = unat a - unat b" for a b :: u64
    by (auto simp: unat_sub word_less_nat_alt word_le_nat_alt)
  show eq: "unat (usable_vram free tot reserve) =
      (if free = 0 then trunc_nat (dmul (d_of_nat (unat tot)) kUnknownFreeHeadroom)
       else (if tot = 0 then unat free else min (unat free) (unat tot)) - unat reserve)"
  proof (cases "free = 0")
    case False
    then show ?thesis
      by (simp only: usable_vram_def Let_def if_False sub min_u64_min) (simp add: unat_min)
  qed (simp add: usable_vram_def w)
  show "usable_vram free tot reserve \<le> tot" if "tot \<noteq> 0 \<or> free = 0"
    unfolding word_le_nat_alt eq using that u by auto
qed

theorem usable_vram_bounded_witness:
  "usable_vram 6000 8000 500 \<le> 8000 \<and> unat (usable_vram 6000 8000 500) = 5500"
  using usable_vram_bounded [of 6000 8000 500] by simp

text \<open>
  C22: For a headroom factor below one and a positive cost per element, every field of the budget
  is within its bounds: the layer has between 1 and 2^25 elements, the capacity is the layer plus
  at most 1/32, buffers of that capacity fit the usable memory whenever one element does, the
  buckets have room for the whole layer, and a seed batch fits a layer and an allocation.
\<close>
theorem compute_budget_sound:
  fixes g m :: u64
  assumes r: "0 \<le> headroom" "headroom \<le> 1 - 1 / 2 ^ 50" and bpe: "bpe \<noteq> 0"
  defines "b \<equiv> compute_budget g m headroom bpe"
  defines "n \<equiv> unat (b_elems_per_round b)"
  shows "b_usable b \<le> g \<and> 1 \<le> n \<and> n \<le> 2 ^ 25 \<and>
    n \<le> unat (b_capacity b) \<and> unat (b_capacity b) \<le> n + n div 32 \<and>
    (unat bpe \<le> unat (b_usable b) \<longrightarrow> unat (b_capacity b) * unat bpe \<le> unat (b_usable b)) \<and>
    (budget_can_find_solutions (b_elems_per_round b) \<longleftrightarrow> 2 ^ 25 * unat bpe \<le> unat (b_usable b)) \<and>
    10 \<le> b_bucket_bits b \<and> b_bucket_bits b \<le> 20 \<and>
    n \<le> unat (b_slots_per_bucket b) * unat (b_num_buckets b) \<and>
    1 \<le> unat (b_seed_batch b) \<and> unat (b_seed_batch b) \<le> n \<and>
    (56 \<le> m \<longrightarrow> unat (b_seed_batch b) * 56 \<le> unat m)"
proof -
  define rc where "rc = unat (b_usable b) div unat bpe"
  note F = budget_fields [OF b_def [THEN meta_eq_to_obj_eq], folded rc_def]
  have p: "0 < unat bpe" using bpe by (simp add: unat_gt_0)
  have n: "n = epr_of rc" by (simp add: n_def F(1))
  have nb: "1 \<le> n" "n \<le> 2 ^ 25" unfolding n by (rule epr_of_bounds)+
  have u: "b_usable b \<le> g"
    using unat_headroom [OF r, of g] by (simp add: b_def compute_budget_def Let_def word_le_nat_alt)
  have cap: "unat (b_capacity b) \<le> rc" if "1 \<le> rc"
    unfolding F(2) using that by (simp add: epr_of_def)
  have fit: "unat (b_capacity b) * unat bpe \<le> unat (b_usable b)" if "unat bpe \<le> unat (b_usable b)"
  proof -
    have "1 \<le> rc" using that p div_le_mono [OF that, of "unat bpe"] by (simp add: rc_def)
    then have "unat (b_capacity b) * unat bpe \<le> rc * unat bpe" using cap by (intro mult_le_mono1) simp
    also have "\<dots> \<le> unat (b_usable b)" by (simp add: rc_def)
    finally show ?thesis .
  qed
  have full: "budget_can_find_solutions (b_elems_per_round b) \<longleftrightarrow> 2 ^ 25 * unat bpe \<le> unat (b_usable b)"
  proof -
    have "2 ^ 25 \<le> rc \<longleftrightarrow> 2 ^ 25 * unat bpe \<le> unat (b_usable b)"
      unfolding rc_def by (rule less_eq_div_iff_mult_less_eq [OF p])
    moreover have "budget_can_find_solutions (b_elems_per_round b) \<longleftrightarrow> 2 ^ 25 \<le> epr_of rc"
      by (simp add: budget_can_find_solutions_def kTargetElemsLog2_def word_le_nat_alt F(1))
    moreover have "2 ^ 25 \<le> epr_of rc \<longleftrightarrow> 2 ^ 25 \<le> rc" by (auto simp: epr_of_def)
    ultimately show ?thesis by simp
  qed
  define lg where "lg = floor_log2_from 0 (b_elems_per_round b)"
  note B = budget_buckets [OF b_def [THEN meta_eq_to_obj_eq], folded lg_def]
  have lg: "2 ^ lg \<le> n" "n < 2 ^ (lg + 1)"
    using floor_log2_from_spec [of 0 "b_elems_per_round b"] nb(1) by (simp_all add: n_def lg_def)
  have bits: "10 \<le> b_bucket_bits b" "b_bucket_bits b \<le> 20" unfolding B(1) by auto
  have nbk: "unat (b_num_buckets b) = 2 ^ b_bucket_bits b"
  proof -
    have "(2 :: nat) ^ b_bucket_bits b < 2 ^ 32" using bits by (intro power_strict_increasing) simp_all
    moreover have "b_bucket_bits b < 32" using bits by simp
    ultimately show ?thesis
      unfolding B(2) unsigned_push_bit_eq by (simp add: push_bit_eq_mult take_bit_nat_eq_self)
  qed
  define mean where "mean = n div unat (b_num_buckets b)"
  have mean: "mean < 64"
    unfolding mean_def nbk B(1) by (rule mean_fits [OF nb lg])
  have room: "n \<le> unat (b_slots_per_bucket b) * unat (b_num_buckets b)"
  proof -
    define spb :: u64 where
      "spb = max 64 ((ucast (b_elems_per_round b) div ucast (b_num_buckets b) * 14 + 9) div 10)"
    have M: "unat (ucast (b_elems_per_round b) div ucast (b_num_buckets b) :: u64) = mean"
      by (simp add: unat_div unat_ucast_up mean_def n_def)
    then have "unat (ucast (b_elems_per_round b) div ucast (b_num_buckets b) * 14 + 9 :: u64) = mean * 14 + 9"
      using mean by (subst unat_add_small; subst unat_mult_small; simp)
    then have "unat spb = max 64 ((mean * 14 + 9) div 10)"
      by (simp add: spb_def max_def word_le_nat_alt unat_div)
    moreover from this have "unat spb < 2 ^ 32" using mean by simp
    moreover have "b_slots_per_bucket b = ucast spb" unfolding spb_def by (rule B(3))
    ultimately have "64 \<le> unat (b_slots_per_bucket b)" by (simp add: unat_ucast_small)
    then have "(mean + 1) * unat (b_num_buckets b) \<le> unat (b_slots_per_bucket b) * unat (b_num_buckets b)"
      using mean by (intro mult_le_mono1) simp
    moreover have "n < (mean + 1) * unat (b_num_buckets b)"
      unfolding mean_def using dividend_less_div_times [of "unat (b_num_buckets b)" n]
      by (simp add: nbk)
    ultimately show ?thesis by simp
  qed
  have "56 \<le> m \<longrightarrow> max 1 (min (min (2 ^ 25) (unat m div 56)) n) * 56 \<le> unat m"
    by (auto simp: word_le_nat_alt max_def min_def)
  then show ?thesis
    using u nb fit full bits room by (simp add: F n [symmetric])
qed

theorem compute_budget_sound_witness:
  "b_usable (compute_budget 8589934592 2147483648 (1 / 2) 256) \<le> 8589934592"
  using compute_budget_sound [of "1 / 2" 256 8589934592 2147483648] by simp

text \<open>
  Whenever the flat divisor of \<open>compute_budget\<close> grants a full layer, the bucket fields it
  computes are the constants \<open>budget_full_rowbucket\<close> writes.
\<close>
theorem budget_full_agrees:
  assumes b: "b = compute_budget g m r bpe" and full: "budget_can_find_solutions (b_elems_per_round b)"
  shows "let b' = budget_full_rowbucket g m in
    b_elems_per_round b = b_elems_per_round b' \<and> b_bucket_bits b = b_bucket_bits b' \<and>
    b_num_buckets b = b_num_buckets b' \<and> b_slots_per_bucket b = b_slots_per_bucket b' \<and>
    (m \<noteq> 0 \<longrightarrow> b_seed_batch b = b_seed_batch b') \<and> b_capacity b \<le> b_capacity b'"
proof -
  note F = budget_fields [OF b]
  define rc where "rc = unat (b_usable b) div unat bpe"
  have "2 ^ 25 \<le> epr_of rc"
    using full by (simp add: budget_can_find_solutions_def kTargetElemsLog2_def word_le_nat_alt F(1) rc_def)
  then have epr: "epr_of rc = 2 ^ 25" using epr_of_bounds(2) [of rc] by simp
  then have n: "b_elems_per_round b = 33554432"
    by (simp add: word_unat_eq_iff F(1) flip: rc_def)
  have lg: "floor_log2_from 0 33554432 = 25"
    by (simp add: floor_log2_from.simps)
  have bits: "b_bucket_bits b = 20" using budget_buckets(1) [OF b] by (simp add: n lg)
  then have nbk: "b_num_buckets b = 1048576" using budget_buckets(2) [OF b] by simp
  have "b_slots_per_bucket b = 64"
    using budget_buckets(3) [OF b] by (simp add: n nbk)
  moreover have "b_capacity b \<le> kRbCapacity"
    using F(2) by (simp add: word_le_nat_alt kRbCapacity_def epr flip: rc_def)
  moreover have "b_seed_batch b = b_seed_batch (budget_full_rowbucket g m)" if "m \<noteq> 0"
  proof -
    have sb: "unat (b_seed_batch b) = max 1 (min (2 ^ 25) (unat m div 56))"
      using F(3) by (simp add: epr flip: rc_def)
    define n0 where "n0 = min_u64 (ucast (push_bit 25 1 :: u32)) (m div kSeedElemBytes)"
    define nb where "nb = (if n0 = 0 then 1 else n0)"
    have nb: "unat nb = max 1 (min (2 ^ 25) (unat m div 56))"
      unfolding nb_def unat_if0_1 n0_def min_u64_min unat_min by (simp add: unat_div kSeedElemBytes_def)
    then have "unat nb < 2 ^ 32" by simp
    moreover have "b_seed_batch (budget_full_rowbucket g m) = ucast nb"
      using that by (simp add: budget_full_rowbucket_def Let_def kTargetElemsLog2_def nb_def n0_def
          del: push_bit_of_1)
    ultimately have "unat (b_seed_batch (budget_full_rowbucket g m)) = unat nb"
      by (simp add: unat_ucast_small)
    with sb nb show ?thesis by (simp add: word_unat_eq_iff)
  qed
  ultimately show ?thesis
    by (simp add: budget_full_rowbucket_def Let_def n bits nbk kTargetElemsLog2_def)
qed

theorem budget_full_agrees_witness:
  "b_bucket_bits (compute_budget (push_bit 34 1) 0 1 256) = 20"
proof -
  define b where "b = compute_budget (push_bit 34 1) 0 1 256"
  have "d_of_nat 17179869184 = 17179869184" using d_of_nat_exact [of 17179869184] by simp
  moreover have "dbl 17179869184 = 17179869184" using dbl_int [of 17179869184] by simp
  ultimately have "b_usable b = 17179869184"
    by (simp add: b_def compute_budget_def Let_def u64_of_d_def dmul_def trunc_nat_def)
  then have "budget_can_find_solutions (b_elems_per_round b)"
    using budget_fields(1) [OF b_def]
    by (simp add: budget_can_find_solutions_def kTargetElemsLog2_def word_le_nat_alt epr_of_def)
  from budget_full_agrees [OF b_def this] show ?thesis
    by (simp add: Let_def budget_full_rowbucket_def b_def)
qed

end
