(* ===== verification/Printf.thy ===== *)
theory Printf
  imports Doubles
begin

text \<open>
  The string functions of the C and C++ libraries the program uses: unsigned and signed decimals
  (\<open>%u\<close>, \<open>%ld\<close>, \<open>std::to_string\<close>, \<open>strtol\<close>), zero-padded decimals (\<open>%02u\<close>), fixed-point doubles
  (\<open>%.2f\<close>, rounded to nearest, ties to even, as glibc prints them), \<open>%g\<close>, lower case, trimming and
  splitting. Shown: what is printed reads back, and a fixed-point print is within half a unit of
  its last place.
\<close>

definition digit :: "nat \<Rightarrow> char" where
  "digit d = char_of (48 + d)"

definition is_digit :: "char \<Rightarrow> bool" where
  "is_digit c = (48 \<le> (of_char c :: nat) \<and> (of_char c :: nat) \<le> 57)"

definition digit_val :: "char \<Rightarrow> nat" where
  "digit_val c = of_char c - 48"

fun dec :: "nat \<Rightarrow> string" where
  "dec n = (if n < 10 then [digit n] else dec (n div 10) @ [digit (n mod 10)])"

declare dec.simps [simp del]

definition undec :: "string \<Rightarrow> nat" where
  "undec s = foldl (\<lambda>v c. v * 10 + digit_val c) 0 s"

definition zpad :: "nat \<Rightarrow> string \<Rightarrow> string" where
  "zpad n s = replicate (n - length s) CHR ''0'' @ s"

text \<open>\<open>%.pf\<close> for a finite double and \<open>p > 0\<close>; \<open>%.0f\<close> prints no point.\<close>

definition fixed :: "nat \<Rightarrow> double \<Rightarrow> string" where
  "fixed p x =
    (let m = nat (round_half_even (\<bar>x\<bar> * 10 ^ p))
     in (if x < 0 then ''-'' else '''') @ dec (m div 10 ^ p) @
        (if p = 0 then '''' else ''.'' @ zpad p (dec (m mod 10 ^ p))))"

text \<open>
  \<open>%.pg\<close> (\<open>%g\<close> is \<open>p = 6\<close>): \<open>p\<close> significant digits without trailing zeros, in fixed notation when
  the decimal exponent of the rounded value is at least \<open>-4\<close> and less than \<open>p\<close>.
\<close>

definition exp10 :: "rat \<Rightarrow> int" where
  "exp10 q =
    (if 1 \<le> q then int (length (dec (nat \<lfloor>q\<rfloor>))) - 1
     else let l = length (dec (nat \<lfloor>1 / q\<rfloor>)) in if 1 / q = 10 ^ (l - 1) then 1 - int l else - int l)"

definition scale10 :: "rat \<Rightarrow> int \<Rightarrow> rat" where
  "scale10 q k = (if 0 \<le> k then q * 10 ^ nat k else q / 10 ^ nat (- k))"

definition strip_zeros :: "string \<Rightarrow> string" where
  "strip_zeros s = rev (dropWhile (\<lambda>c. c = CHR ''0'') (rev s))"

definition with_point :: "string \<Rightarrow> string \<Rightarrow> string" where
  "with_point whole rest = (if rest = '''' then whole else whole @ ''.'' @ rest)"

definition fmt_g :: "nat \<Rightarrow> double \<Rightarrow> string" where
  "fmt_g p x =
    (if x = 0 then ''0''
     else
       let e0 = exp10 \<bar>x\<bar>;
           m0 = nat (round_half_even (scale10 \<bar>x\<bar> (int p - 1 - e0)));
           (m, e) = (if m0 = 10 ^ p then (10 ^ (p - 1), e0 + 1) else (m0, e0));
           ds = dec m
       in (if x < 0 then ''-'' else '''') @
          (if -4 \<le> e \<and> e < int p then
             if 0 \<le> e then with_point (take (nat e + 1) ds) (strip_zeros (drop (nat e + 1) ds))
             else ''0.'' @ replicate (nat (- e) - 1) CHR ''0'' @ strip_zeros ds
           else with_point (take 1 ds) (strip_zeros (drop 1 ds)) @ ''e'' @
             (if e < 0 then ''-'' else ''+'') @ zpad 2 (dec (nat \<bar>e\<bar>))))"

text \<open>\<open>std::tolower\<close> in the C locale, over a string.\<close>

definition tolower :: "char \<Rightarrow> char" where
  "tolower c = (let n = (of_char c :: nat) in if 65 \<le> n \<and> n \<le> 90 then char_of (n + 32) else c)"

definition lower :: "string \<Rightarrow> string" where
  "lower s = map tolower s"

definition blank :: "char \<Rightarrow> bool" where
  "blank c = (c = CHR '' '' \<or> c = CHR 0x09)"

text \<open>Without the blanks at either end.\<close>

definition trim :: "string \<Rightarrow> string" where
  "trim s = rev (dropWhile blank (rev (dropWhile blank s)))"

text \<open>The pieces between the separators: one more than there are separators.\<close>

fun split_on :: "char \<Rightarrow> string \<Rightarrow> string list" where
  "split_on sep [] = [[]]"
| "split_on sep (c # cs) =
    (if c = sep then [] # split_on sep cs
     else case split_on sep cs of [] \<Rightarrow> [[c]] | w # ws \<Rightarrow> (c # w) # ws)"

text \<open>\<open>%ld\<close>, \<open>std::to_string(long)\<close> and \<open>%+ld\<close>.\<close>

definition int_dec :: "int \<Rightarrow> string" where
  "int_dec v = (if v < 0 then ''-'' @ dec (nat (- v)) else dec (nat v))"

definition plus_dec :: "int \<Rightarrow> string" where
  "plus_dec v = (if v < 0 then ''-'' @ dec (nat (- v)) else ''+'' @ dec (nat v))"

text \<open>\<open>strtol\<close> in base 10 of an optional sign and digits; it saturates at the bounds of \<open>long\<close>.\<close>

definition strtol10 :: "string \<Rightarrow> int" where
  "strtol10 s =
    (let v = (case s of [] \<Rightarrow> 0
       | c # r \<Rightarrow> if c = CHR ''-'' then - int (undec (takeWhile is_digit r))
                  else if c = CHR ''+'' then int (undec (takeWhile is_digit r))
                  else int (undec (takeWhile is_digit s)))
     in max (- (2 ^ 63)) (min (2 ^ 63 - 1) v))"

text \<open>\<open>strtol\<close> in base 10: the value and the unread rest; nothing is read where there is no digit.\<close>

definition is_space :: "char \<Rightarrow> bool" where
  "is_space c = (c = CHR '' '' \<or> 9 \<le> (of_char c :: nat) \<and> (of_char c :: nat) \<le> 13)"

definition sign_of :: "string \<Rightarrow> bool \<times> string" where
  "sign_of s = (case s of [] \<Rightarrow> (False, [])
     | c # r \<Rightarrow> if c = CHR ''-'' then (True, r) else if c = CHR ''+'' then (False, r) else (False, s))"

definition strtol :: "string \<Rightarrow> int \<times> string" where
  "strtol s =
    (let (neg, u) = sign_of (dropWhile is_space s); ds = takeWhile is_digit u
     in if ds = '''' then (0, s)
        else let v = int (undec ds)
             in (max (- (2 ^ 63)) (min (2 ^ 63 - 1) (if neg then - v else v)), dropWhile is_digit u))"

text \<open>
  \<open>strtod\<close>: decimal and hexadecimal floats, infinities and NaNs. The result is the value, the
  unread rest, and whether the value is out of range, which sets \<open>errno\<close>.
\<close>

datatype xdouble = Fin double | PInf | NInf | NaN

definition hex_digit_val :: "char \<Rightarrow> nat option" where
  "hex_digit_val c = (let n = (of_char (tolower c) :: nat) in
     if 48 \<le> n \<and> n \<le> 57 then Some (n - 48) else if 97 \<le> n \<and> n \<le> 102 then Some (n - 87) else None)"

definition is_xdigit :: "char \<Rightarrow> bool" where
  "is_xdigit c = (hex_digit_val c \<noteq> None)"

definition unhex :: "string \<Rightarrow> nat" where
  "unhex s = foldl (\<lambda>v c. v * 16 + (case hex_digit_val c of Some d \<Rightarrow> d | None \<Rightarrow> 0)) 0 s"

definition exponent_of :: "char \<Rightarrow> string \<Rightarrow> int \<times> string" where
  "exponent_of mark r =
    (case r of [] \<Rightarrow> (0, r)
     | c # r' \<Rightarrow>
         if tolower c \<noteq> mark then (0, r)
         else let (neg, u) = sign_of r'; ds = takeWhile is_digit u
              in if ds = '''' then (0, r)
                 else ((if neg then - int (undec ds) else int (undec ds)), dropWhile is_digit u))"

definition float_of :: "(char \<Rightarrow> bool) \<Rightarrow> (string \<Rightarrow> nat) \<Rightarrow> nat \<Rightarrow> char \<Rightarrow> rat \<Rightarrow> string \<Rightarrow> (rat \<times> string) option" where
  "float_of dig val base mark ebase u =
    (let ip = takeWhile dig u; r = dropWhile dig u;
         (fp, r) = (case r of c # r' \<Rightarrow> if c = CHR ''.'' then (takeWhile dig r', dropWhile dig r') else ('''', r)
                    | [] \<Rightarrow> ('''', r))
     in if ip @ fp = '''' then None
        else let m = of_nat (val (ip @ fp)) / of_nat base ^ length fp; (e, r) = exponent_of mark r
             in Some (if 0 \<le> e then m * ebase ^ nat e else m / ebase ^ nat (- e), r))"

definition strtod :: "string \<Rightarrow> xdouble \<times> string \<times> bool" where
  "strtod s =
    (let (neg, u) = sign_of (dropWhile is_space s);
         number = (\<lambda>r rest. let x = dbl r in
           if x \<ge> 2 ^ 1024 then (if neg then NInf else PInf, rest, True)
           else (Fin (if neg then - x else x), rest, x \<noteq> 0 \<and> x < 1 / 2 ^ 1022))
     in if lower (take 8 u) = ''infinity'' then (if neg then NInf else PInf, drop 8 u, False)
        else if lower (take 3 u) = ''inf'' then (if neg then NInf else PInf, drop 3 u, False)
        else if lower (take 3 u) = ''nan'' then
          (NaN, (case drop 3 u of c # r \<Rightarrow>
             if c = CHR ''('' \<and> take 1 (dropWhile (\<lambda>c. is_xdigit c \<or> c = CHR ''_'' \<or> 97 \<le> (of_char (tolower c) :: nat) \<and>
                 (of_char (tolower c) :: nat) \<le> 122) r) = '')''
             then drop 1 (dropWhile (\<lambda>c. c \<noteq> CHR '')'') r) else drop 3 u | [] \<Rightarrow> drop 3 u), False)
        else
          case (if lower (take 2 u) = ''0x'' then float_of is_xdigit unhex 16 CHR ''p'' 2 (drop 2 u) else None) of
            Some (r, rest) \<Rightarrow> number r rest
          | None \<Rightarrow>
              (case float_of is_digit undec 10 CHR ''e'' 10 u of
                 Some (r, rest) \<Rightarrow> number r rest
               | None \<Rightarrow> (Fin 0, s, False)))"

text \<open>\<open>%lx\<close>\<close>

fun hex :: "nat \<Rightarrow> string" where
  "hex n = (if n < 16 then [''0123456789abcdef'' ! n] else hex (n div 16) @ [''0123456789abcdef'' ! (n mod 16)])"

declare hex.simps [simp del]

definition toupper :: "char \<Rightarrow> char" where
  "toupper c = (let n = (of_char c :: nat) in if 97 \<le> n \<and> n \<le> 122 then char_of (n - 32) else c)"

text \<open>Text between single quotes, and the value of an option or a default.\<close>

definition squote :: "string \<Rightarrow> string" where
  "squote s = [CHR 0x27] @ s @ [CHR 0x27]"

fun the_default :: "'a \<Rightarrow> 'a option \<Rightarrow> 'a" where
  "the_default d None = d"
| "the_default d (Some x) = x"

text \<open>A conversion to \<open>int\<close>, which keeps the low 32 bits.\<close>

definition to_int32 :: "int \<Rightarrow> int" where
  "to_int32 v = sint (word_of_int v :: u32)"

text \<open>\<open>s.find(t) != npos\<close> and \<open>s.rfind(p, 0) == 0\<close>.\<close>

fun has_prefix :: "string \<Rightarrow> string \<Rightarrow> bool" where
  "has_prefix [] s = True"
| "has_prefix (p # ps) [] = False"
| "has_prefix (p # ps) (c # cs) = (p = c \<and> has_prefix ps cs)"

fun contains :: "string \<Rightarrow> string \<Rightarrow> bool" where
  "contains t [] = (t = [])"
| "contains t (c # cs) = (has_prefix t (c # cs) \<or> contains t cs)"

section \<open>Lemmas\<close>

lemma of_char_digit: "d < 10 \<Longrightarrow> (of_char (digit d) :: nat) = 48 + d"
  by (simp add: digit_def)

lemma is_digit_digit [simp]: "d < 10 \<Longrightarrow> is_digit (digit d)"
  by (simp add: is_digit_def of_char_digit)

lemma digit_val_digit [simp]: "d < 10 \<Longrightarrow> digit_val (digit d) = d"
  by (simp add: digit_val_def of_char_digit)

lemma digit_val_less: "is_digit c \<Longrightarrow> digit_val c < 10"
  unfolding is_digit_def digit_val_def by linarith

lemma undec_snoc [simp]: "undec (s @ [c]) = undec s * 10 + digit_val c"
  by (simp add: undec_def)

lemma undec_Nil [simp]: "undec [] = 0"
  by (simp add: undec_def)

lemma undec_dec [simp]: "undec (dec n) = n"
proof (induction n rule: dec.induct)
  case (1 n)
  then show ?case
    by (subst dec.simps) (auto simp: undec_def)
qed

lemma dec_inj: "dec m = dec n \<longleftrightarrow> m = n"
  by (metis undec_dec)

lemma dec_not_Nil [simp]: "dec n \<noteq> []"
  by (subst dec.simps) simp

lemma dec_digits: "c \<in> set (dec n) \<Longrightarrow> is_digit c"
proof (induction n rule: dec.induct)
  case (1 n)
  show ?case
  proof (cases "n < 10")
    case True
    with "1.prems" show ?thesis by (subst (asm) dec.simps) simp
  next
    case False
    with 1 show ?thesis by (subst (asm) (2) dec.simps) auto
  qed
qed

lemma length_dec: "0 < k \<Longrightarrow> n < 10 ^ k \<Longrightarrow> length (dec n) \<le> k"
proof (induction k arbitrary: n)
  case (Suc k)
  show ?case
  proof (cases "n < 10")
    case True
    then show ?thesis by (subst dec.simps) simp
  next
    case False
    with Suc.prems have "0 < k" by (cases k) auto
    moreover have "n div 10 < 10 ^ k" using Suc.prems by (simp add: less_mult_imp_div_less mult.commute)
    ultimately have "length (dec (n div 10)) \<le> k" by (rule Suc.IH)
    with False show ?thesis by (subst dec.simps) simp
  qed
qed simp

lemma undec_zeros: "undec (replicate k CHR ''0'' @ s) = undec s"
proof -
  have "undec (replicate k CHR ''0'') = 0"
    by (induction k) (simp_all add: undec_def digit_val_def)
  then show ?thesis by (simp add: undec_def)
qed

lemma undec_zpad [simp]: "undec (zpad k s) = undec s"
  by (simp add: zpad_def undec_zeros)

lemma length_zpad: "length s \<le> k \<Longrightarrow> length (zpad k s) = k"
  by (simp add: zpad_def)

lemma zpad_digits: "(\<And>c. c \<in> set s \<Longrightarrow> is_digit c) \<Longrightarrow> c \<in> set (zpad k s) \<Longrightarrow> is_digit c"
  by (auto simp: zpad_def is_digit_def)

lemma undec_append: "undec (s @ t) = undec s * 10 ^ length t + undec t"
  by (induction t rule: rev_induct) (simp_all add: algebra_simps flip: append_assoc)

text \<open>
  The printed figure, read back digit by digit without its point, is the argument scaled and
  rounded to the nearest integer.
\<close>

lemma fixed_reads_back:
  assumes "0 \<le> x" "0 < p"
  obtains a b where "fixed p x = a @ ''.'' @ b" "length b = p"
    "\<bar>of_nat (undec (a @ b)) - x * 10 ^ p\<bar> \<le> 1 / 2"
proof -
  define m where "m = nat (round_half_even (\<bar>x\<bar> * 10 ^ p))"
  have "0 \<le> round_half_even (\<bar>x\<bar> * 10 ^ p)"
    using rhe_mono [of 0 "\<bar>x\<bar> * 10 ^ p"] rhe_int [of 0] by simp
  then have m: "of_nat m = (of_int (round_half_even (x * 10 ^ p)) :: rat)"
    using assms by (simp add: m_def)
  have l: "length (zpad p (dec (m mod 10 ^ p))) = p"
    using assms by (intro length_zpad length_dec) simp_all
  have "undec (dec (m div 10 ^ p) @ zpad p (dec (m mod 10 ^ p))) = m"
    unfolding undec_append l undec_zpad undec_dec by (rule div_mult_mod_eq)
  moreover have "\<bar>of_nat m - x * 10 ^ p\<bar> \<le> 1 / 2" unfolding m by (rule rhe_error)
  moreover have "fixed p x = dec (m div 10 ^ p) @ ''.'' @ zpad p (dec (m mod 10 ^ p))"
    using assms by (simp add: fixed_def Let_def m_def)
  ultimately show thesis using l that by metis
qed


section \<open>Signed decimals and lists\<close>

lemma dec_head_digit: "\<exists>c r. dec n = c # r \<and> is_digit c"
  using dec_digits [of _ n] by (cases "dec n") auto

lemma takeWhile_dec: "takeWhile is_digit (dec n) = dec n"
  using dec_digits [of _ n] by (simp add: takeWhile_eq_all_conv)

lemma strtol_int_dec:
  assumes "- (2 ^ 63) \<le> v" "v < 2 ^ 63"
  shows "strtol10 (int_dec v) = v"
proof (cases "v < 0")
  case True
  with assms show ?thesis by (simp add: strtol10_def int_dec_def takeWhile_dec)
next
  case False
  obtain c r where d: "dec (nat v) = c # r" "is_digit c" using dec_head_digit by blast
  then have "c \<noteq> CHR ''-''" "c \<noteq> CHR ''+''" by (auto simp: is_digit_def)
  with d(1) False assms takeWhile_dec [of "nat v"] undec_dec [of "nat v"]
  show ?thesis by (simp add: strtol10_def int_dec_def)
qed

lemma strtol_dec:
  assumes "n < 2 ^ 63"
  shows "strtol (dec n) = (int n, '''')"
proof -
  obtain c r where d: "dec n = c # r" "is_digit c" using dec_head_digit by blast
  then have "\<not> is_space c" "c \<noteq> CHR ''-''" "c \<noteq> CHR ''+''" by (auto simp: is_digit_def is_space_def)
  with d(1) have "sign_of (dropWhile is_space (dec n)) = (False, dec n)" by (simp add: sign_of_def)
  moreover have "dropWhile is_digit (dec n) = ''''" using dec_digits [of _ n] by simp
  moreover have "dec n \<noteq> ''''" using d(1) by simp
  ultimately show ?thesis using assms undec_dec [of n] by (simp add: strtol_def takeWhile_dec)
qed

lemma int_dec_chars: "c \<in> set (int_dec v) \<Longrightarrow> is_digit c \<or> c = CHR ''-''"
  using dec_digits by (auto simp: int_dec_def split: if_splits)

lemma split_on_none: "sep \<notin> set s \<Longrightarrow> split_on sep s = [s]"
  by (induction s) auto

lemma split_on_join: "sep \<notin> set s \<Longrightarrow> split_on sep (s @ sep # t) = s # split_on sep t"
  by (induction s) auto

lemma trim_id: "(\<And>c. c \<in> set s \<Longrightarrow> \<not> blank c) \<Longrightarrow> trim s = s"
proof -
  assume a: "\<And>c. c \<in> set s \<Longrightarrow> \<not> blank c"
  then have d: "dropWhile blank s = s" by (cases s) auto
  from a have "dropWhile blank (rev s) = rev s" by (cases "rev s") (auto simp: rev_eq_Cons_iff)
  with d show ?thesis by (simp add: trim_def)
qed

end
