(* ===== verification/Geometry.thy ===== *)
theory Geometry
  imports Budget Printf
begin

text \<open>
  The row-bucket geometry (src/gpu/rowbucket_geom.h, src/gpu/rowbucket_geom.cpp): record
  strides, bucket capacities, footprints, and the walk down the ladder of rungs. The walk is an
  instance of the interface \<open>first_fit\<close>. Shown: the answer always fits what it was asked to
  fit, no earlier rung does, more memory never gives a later rung, the reserved slots hold a full
  layer, and the figures of the ladder's table.
\<close>

definition kFbStride :: "u32 list" where "kFbStride = [0, 1, 2, 9, 8, 2]"
definition kRbCapSigma :: double where "kRbCapSigma = 8"
definition kRbDenseSigma :: double where "kRbDenseSigma = 2"
definition kRbArenaSlots :: u32 where "kRbArenaSlots = 65536"
definition kRbLowPowerW :: u32 where "kRbLowPowerW = 130"

section \<open>Strides\<close>

definition fb_round_stride :: "nat \<Rightarrow> bool \<Rightarrow> bool \<Rightarrow> bool \<Rightarrow> u32" where
  "fb_round_stride r quad impb octo =
    (if r = 2 then (if quad then (if octo then 2 else 3) else (if impb then 8 else 9))
     else if r = 3 then (if octo then 4 else kFbStride ! 4)
     else kFbStride ! (r + 1))"

definition fb_set_stride :: "nat \<Rightarrow> bool \<Rightarrow> bool \<Rightarrow> bool \<Rightarrow> u32" where
  "fb_set_stride s quad impb octo =
    foldl (\<lambda>m r. if r mod 2 = s \<and> fb_round_stride r quad impb octo > m
                 then fb_round_stride r quad impb octo else m)
      (if s = 0 then kFbStride ! 1 else 0) [1..<5]"

definition rb_impb_ok :: "nat \<Rightarrow> nat \<Rightarrow> bool \<Rightarrow> bool" where
  "rb_impb_ok bb sm quad \<longleftrightarrow> \<not> quad \<and> bb \<ge> 16 \<and> bb \<le> 17 \<and> 24 - bb \<ge> 7 + sm"

section \<open>Capacity and footprint\<close>

text \<open>
  \<open>forced\<close> is \<open>MXBM_CAP_SIGMA\<close> as \<open>atof\<close> reads it, when it is set. A conversion of a double that
  is out of range of \<open>uint32_t\<close> is undefined in C++; the model wraps.
\<close>

definition fb_cap_for :: "double option \<Rightarrow> u32 \<Rightarrow> double \<Rightarrow> u32" where
  "fb_cap_for forced mean sigma =
    (let sd = dsqrt (d_of_nat (unat mean));
         s = (case forced of Some f \<Rightarrow> f | None \<Rightarrow> sigma);
         cap = dadd (dadd (d_of_nat (unat mean)) (dmul s sd)) 32
     in if cap < 1 then 1 else word_of_nat (trunc_nat cap))"

text \<open>The format flags of a rung, as the source passes them around.\<close>

record rb_format =
  f_quad :: bool
  f_impb :: bool
  f_arena :: bool
  f_octo :: bool
  f_replay :: bool

definition rb_nslots :: "double option \<Rightarrow> u32 \<Rightarrow> nat \<Rightarrow> bool \<Rightarrow> u64" where
  "rb_nslots forced capacity bb arena =
    (let nb :: u32 = push_bit bb 1;
         cap = fb_cap_for forced (capacity div nb) (if arena then kRbDenseSigma else kRbCapSigma)
     in ucast nb * ucast cap + (if arena then ucast kRbArenaSlots else 0))"

text \<open>The pair of the out-parameters \<open>total\<close> and \<open>single\<close>.\<close>

definition rowbucket_bytes :: "double option \<Rightarrow> u32 \<Rightarrow> nat \<Rightarrow> rb_format \<Rightarrow> u64 \<times> u64" where
  "rowbucket_bytes forced capacity bb f =
    (let nb :: u32 = push_bit bb 1;
         nslots = rb_nslots forced capacity bb (f_arena f);
         s0 = fb_set_stride 0 (f_quad f) (f_impb f) (f_octo f);
         s1 = fb_set_stride 1 (f_quad f) (f_impb f) (f_octo f);
         single = nslots * ucast (if s0 > s1 then s0 else s1) * 8;
         (backrefs, r4plane, r4sets) =
           (if f_octo f then ((1 * ucast capacity + 1024) * 4 * 2, 0, 0)
            else if \<not> f_replay f then ((4 * ucast capacity + 1024) * 4 * 2, 0, 0)
            else if f_impb f then (0, nslots * 8, 1)
            else (3 * ucast capacity * 4 * 2, 0, 0));
         arena_meta = (if f_arena f
           then (2 + r4sets) * (ucast nb * 4 + 2 * ucast kRbArenaSlots * 4 + 4) else 0);
         total = nslots * ucast (s0 + s1) * 8 + r4plane + (2 + r4sets) * ucast nb * 4
           + backrefs + arena_meta + 64
     in (total, single))"

definition rowbucket_single_split :: "double option \<Rightarrow> u32 \<Rightarrow> nat \<Rightarrow> rb_format \<Rightarrow> u64" where
  "rowbucket_single_split forced capacity bb f =
    (let (total, single) = rowbucket_bytes forced capacity bb f;
         half = single div 2;
         rows :: u32 = (if f_octo f then 1 else if \<not> f_replay f then 4 else if f_impb f then 0 else 3);
         backrefs = (ucast rows * ucast capacity + 1024) * 4
     in if half > backrefs then half else backrefs)"

definition rb_describe :: "double option \<Rightarrow> nat \<Rightarrow> nat \<Rightarrow> rb_format \<Rightarrow> u32 \<Rightarrow> string" where
  "rb_describe forced bb sm f capacity =
    (let (total, single) = rowbucket_bytes forced capacity bb f
     in ''('' @ dec bb @ '','' @ dec sm @ '')''
        @ (if f_quad f then '' quad'' else '''') @ (if f_impb f then '' implicit-bits'' else '''')
        @ (if f_arena f then '' dense-caps'' else '''') @ (if f_octo f then '' octo'' else '''')
        @ '', '' @ fixed 2 (ddiv (d_of_nat (unat total)) 1073741824) @ '' GiB'')"

section \<open>The ladder\<close>

record rb_rung =
  r_bb :: nat
  r_sm :: nat
  r_quad :: bool
  r_arena :: bool
  r_octo :: bool

definition rung :: "nat \<Rightarrow> nat \<Rightarrow> bool \<Rightarrow> bool \<Rightarrow> bool \<Rightarrow> rb_rung" where
  "rung bb sm quad arena octo = \<lparr>r_bb = bb, r_sm = sm, r_quad = quad, r_arena = arena, r_octo = octo\<rparr>"

definition rb_rungs :: "rb_rung list" where
  "rb_rungs =
    [rung 16 1 False False False,
     rung 16 1 False True False,
     rung 15 2 False False False,
     rung 15 2 False True False,
     rung 16 1 True False False,
     rung 16 1 True True False,
     rung 14 3 False False False,
     rung 15 2 True False False,
     rung 15 2 True True False,
     rung 14 3 True False False,
     rung 14 3 True True False,
     rung 16 1 True True True,
     rung 15 2 True True True,
     rung 14 3 True True True]"

record rb_geometry =
  g_bb :: nat
  g_sm :: nat
  g_quad :: bool
  g_viable :: bool
  g_arena :: bool
  g_octo :: bool

text \<open>The arguments of \<open>rb_geometry_for\<close> that describe the backend and the device.\<close>

record rb_request =
  q_max_alloc :: u64
  q_global_mem :: u64
  q_allow_quad :: bool
  q_power_limit_w :: u32
  q_allow_split :: bool
  q_slack_bytes :: u64
  q_allow_impb :: bool
  q_allow_arena :: bool
  q_allow_octo :: bool
  q_allow_replay :: bool

definition impb_at :: "rb_request \<Rightarrow> nat \<Rightarrow> nat \<Rightarrow> bool \<Rightarrow> bool" where
  "impb_at q bb sm quad \<longleftrightarrow> q_allow_impb q \<and> rb_impb_ok bb sm quad"

definition binding_single :: "double option \<Rightarrow> u32 \<Rightarrow> rb_request \<Rightarrow> nat \<Rightarrow> rb_format \<Rightarrow> u64 \<Rightarrow> u64" where
  "binding_single forced capacity q bb f single =
    (if \<not> q_allow_split q then single
     else let s = rowbucket_single_split forced capacity bb f in if s < single then s else single)"

definition rung_format :: "rb_request \<Rightarrow> rb_rung \<Rightarrow> rb_format" where
  "rung_format q r = \<lparr>f_quad = r_quad r, f_impb = impb_at q (r_bb r) (r_sm r) (r_quad r),
     f_arena = r_arena r, f_octo = r_octo r, f_replay = q_allow_replay q\<rparr>"

text \<open>The loop over the rungs, each \<open>continue\<close> a branch.\<close>

fun rb_walk :: "double option \<Rightarrow> u32 \<Rightarrow> rb_request \<Rightarrow> rb_rung list \<Rightarrow> rb_geometry" where
  "rb_walk forced capacity q [] =
    \<lparr>g_bb = 14, g_sm = 3, g_quad = False, g_viable = False, g_arena = False, g_octo = False\<rparr>"
| "rb_walk forced capacity q (r # rs) =
    (if r_quad r \<and> \<not> q_allow_quad q then rb_walk forced capacity q rs
     else if r_arena r \<and> \<not> q_allow_arena q then rb_walk forced capacity q rs
     else if r_octo r \<and> \<not> q_allow_octo q then rb_walk forced capacity q rs
     else
       let f = rung_format q r;
           (total, single) = rowbucket_bytes forced capacity (r_bb r) f
       in if q_max_alloc q \<noteq> 0 \<and> binding_single forced capacity q (r_bb r) f single > q_max_alloc q
          then rb_walk forced capacity q rs
          else if q_global_mem q \<noteq> 0 \<and> total + q_slack_bytes q > q_global_mem q
          then rb_walk forced capacity q rs
          else \<lparr>g_bb = r_bb r, g_sm = r_sm r, g_quad = r_quad r, g_viable = True,
                g_arena = r_arena r, g_octo = r_octo r\<rparr>)"

text \<open>
  The low-power exception sits before the ladder. It prices the \<open>(17,0)\<close> rung with every format
  flag off but the implicit bits and the replay.
\<close>

definition rb_geometry_for :: "double option \<Rightarrow> u32 \<Rightarrow> rb_request \<Rightarrow> rb_geometry" where
  "rb_geometry_for forced capacity q =
    (let im = impb_at q 17 0 False;
         f = \<lparr>f_quad = False, f_impb = im, f_arena = False, f_octo = False,
              f_replay = q_allow_replay q\<rparr>;
         (total, single) = rowbucket_bytes forced capacity 17 f
     in if kRbLowPowerW \<noteq> 0 \<and> q_power_limit_w q \<noteq> 0 \<and> q_power_limit_w q < kRbLowPowerW
           \<and> (q_max_alloc q = 0 \<or> binding_single forced capacity q 17 f single \<le> q_max_alloc q)
           \<and> (q_global_mem q = 0 \<or> total + q_slack_bytes q \<le> q_global_mem q)
        then \<lparr>g_bb = 17, g_sm = 0, g_quad = False, g_viable = True, g_arena = False, g_octo = False\<rparr>
        else rb_walk forced capacity q rb_rungs)"


section \<open>The walk as a first fit\<close>

text \<open>
  What the ladder's callers rely on: a rung that fits some memory fits a larger one. From it
  alone, the first rung that fits is never a later one on a larger card.
\<close>

locale first_fit =
  fixes le :: "'m \<Rightarrow> 'm \<Rightarrow> bool" and fits :: "'m \<Rightarrow> 'r \<Rightarrow> bool"
  assumes fits_mono: "le m m' \<Longrightarrow> fits m r \<Longrightarrow> fits m' r"
begin

lemma pick_some_iff:
  "find (fits m) rs = Some r \<longleftrightarrow>
    (\<exists>i < length rs. r = rs ! i \<and> fits m (rs ! i) \<and> (\<forall>j < i. \<not> fits m (rs ! j)))"
  by (auto simp: find_Some_iff)

lemma pick_none_iff: "find (fits m) rs = None \<longleftrightarrow> (\<forall>r \<in> set rs. \<not> fits m r)"
  by (auto simp: find_None_iff)

lemma pick_mono:
  assumes "le m m'" "i < length rs" "fits m (rs ! i)"
  shows "\<exists>j \<le> i. find (fits m') rs = Some (rs ! j) \<and> (\<forall>k < j. \<not> fits m' (rs ! k))"
proof -
  have f: "fits m' (rs ! i)" using assms by (auto intro: fits_mono)
  define j where "j = (LEAST j. fits m' (rs ! j))"
  have "fits m' (rs ! j)" unfolding j_def using f by (rule LeastI)
  moreover have j: "j \<le> i" unfolding j_def using f by (rule Least_le)
  moreover have "\<forall>k < j. \<not> fits m' (rs ! k)" unfolding j_def using not_less_Least by blast
  moreover have "j < length rs" using j assms(2) by simp
  ultimately have "find (fits m') rs = Some (rs ! j)" unfolding pick_some_iff by blast
  with j \<open>\<forall>k < j. \<not> fits m' (rs ! k)\<close> show ?thesis by blast
qed

end

text \<open>The condition under which the code returns a rung, and the rungs in the order it tries them.\<close>

definition rung_fits :: "double option \<Rightarrow> u32 \<Rightarrow> rb_request \<Rightarrow> rb_rung \<Rightarrow> bool" where
  "rung_fits forced capacity q r \<longleftrightarrow>
    (r_quad r \<longrightarrow> q_allow_quad q) \<and> (r_arena r \<longrightarrow> q_allow_arena q) \<and> (r_octo r \<longrightarrow> q_allow_octo q) \<and>
    (let f = rung_format q r; (total, single) = rowbucket_bytes forced capacity (r_bb r) f
     in (q_max_alloc q \<noteq> 0 \<longrightarrow> binding_single forced capacity q (r_bb r) f single \<le> q_max_alloc q) \<and>
        (q_global_mem q \<noteq> 0 \<longrightarrow> total + q_slack_bytes q \<le> q_global_mem q))"

definition rb_candidates :: "rb_request \<Rightarrow> rb_rung list" where
  "rb_candidates q =
    (if q_power_limit_w q \<noteq> 0 \<and> q_power_limit_w q < 130 then [rung 17 0 False False False] else [])
    @ rb_rungs"

definition geometry_of :: "rb_rung option \<Rightarrow> rb_geometry" where
  "geometry_of ro = (case ro of
     None \<Rightarrow> \<lparr>g_bb = 14, g_sm = 3, g_quad = False, g_viable = False, g_arena = False, g_octo = False\<rparr>
   | Some r \<Rightarrow> \<lparr>g_bb = r_bb r, g_sm = r_sm r, g_quad = r_quad r, g_viable = True,
                 g_arena = r_arena r, g_octo = r_octo r\<rparr>)"

text \<open>More memory of either kind, zero meaning no limit, everything else equal.\<close>

definition more_memory :: "rb_request \<Rightarrow> rb_request \<Rightarrow> bool" where
  "more_memory q q' \<longleftrightarrow>
    q' = q\<lparr>q_max_alloc := q_max_alloc q', q_global_mem := q_global_mem q'\<rparr> \<and>
    (q_max_alloc q' = 0 \<or> q_max_alloc q \<noteq> 0 \<and> q_max_alloc q \<le> q_max_alloc q') \<and>
    (q_global_mem q' = 0 \<or> q_global_mem q \<noteq> 0 \<and> q_global_mem q \<le> q_global_mem q')"

lemma rung_fits_mono:
  assumes "more_memory q q'" "rung_fits forced capacity q r"
  shows "rung_fits forced capacity q' r"
proof -
  obtain m g where q': "q' = q\<lparr>q_max_alloc := m, q_global_mem := g\<rparr>"
    and m: "m = 0 \<or> q_max_alloc q \<noteq> 0 \<and> q_max_alloc q \<le> m"
    and g: "g = 0 \<or> q_global_mem q \<noteq> 0 \<and> q_global_mem q \<le> g"
    using assms(1) by (auto simp: more_memory_def)
  have f: "rung_format q' = rung_format q" "binding_single forced capacity q' = binding_single forced capacity q"
    by (intro ext; simp add: q' rung_format_def impb_at_def binding_single_def)+
  show ?thesis
    using assms(2) m g unfolding rung_fits_def f by (auto simp: q' Let_def split: prod.splits)
qed

interpretation ladder: first_fit more_memory "rung_fits forced capacity" for forced capacity
  by unfold_locales (rule rung_fits_mono)

lemma rb_walk_find: "rb_walk forced capacity q rs = geometry_of (find (rung_fits forced capacity q) rs)"
proof (induction rs)
  case Nil
  then show ?case by (simp add: geometry_of_def)
next
  case (Cons r rs)
  then show ?case
    by (auto simp: rung_fits_def geometry_of_def Let_def not_le not_less split: prod.splits)
qed

lemma rb_geometry_find:
  "rb_geometry_for forced capacity q = geometry_of (find (rung_fits forced capacity q) (rb_candidates q))"
proof -
  have "rung_format q (rung 17 0 False False False) =
      \<lparr>f_quad = False, f_impb = impb_at q 17 0 False, f_arena = False, f_octo = False,
       f_replay = q_allow_replay q\<rparr>"
    by (simp add: rung_format_def rung_def)
  then show ?thesis
    unfolding rb_geometry_for_def rb_walk_find rb_candidates_def
    by (auto simp: rung_fits_def rung_def Let_def geometry_of_def kRbLowPowerW_def split: prod.splits)
qed

section \<open>Figures at the shipping capacity\<close>

lemma set_strides:
  "fb_set_stride 0 quad impb octo = (if quad then (if octo then 2 else 3) else if impb then 8 else 9)"
  "fb_set_stride 1 quad impb octo = (if octo then 4 else 8)"
  by (cases quad; cases impb; cases octo;
      simp add: fb_set_stride_def fb_round_stride_def kFbStride_def upt_rec)+

lemma cap_at:
  assumes "\<lfloor>dadd (dadd (rat_of_nat n) (dmul s (dsqrt (rat_of_nat n)))) 32\<rfloor> = int c"
    and "n \<le> 2 ^ 31" "0 < c"
  shows "fb_cap_for None (word_of_nat n) s = word_of_nat c"
proof -
  have "unat (word_of_nat n :: u32) = n" using assms(2)
    by (simp add: unsigned_of_nat take_bit_nat_eq_self)
  moreover have "d_of_nat n = rat_of_nat n" using assms(2) by (intro d_of_nat_exact) simp
  moreover have "\<not> dadd (dadd (rat_of_nat n) (dmul s (dsqrt (rat_of_nat n)))) 32 < 1"
    using assms(1,3) by linarith
  ultimately show ?thesis using assms(1) by (simp add: fb_cap_for_def trunc_nat_def Let_def)
qed

lemma shipping_caps:
  "fb_cap_for None 264 8 = 425" "fb_cap_for None 528 8 = 743" "fb_cap_for None 1056 8 = 1347"
  "fb_cap_for None 2112 8 = 2511"
  "fb_cap_for None 528 2 = 605" "fb_cap_for None 1056 2 = 1152" "fb_cap_for None 2112 2 = 2235"
proof -
  have "\<lfloor>dadd (dadd 264 (dmul 8 (dsqrt 264))) 32\<rfloor> = 425" by code_simp
  then show "fb_cap_for None 264 8 = 425" using cap_at [of 264 8 425] by simp
  have "\<lfloor>dadd (dadd 528 (dmul 8 (dsqrt 528))) 32\<rfloor> = 743" by code_simp
  then show "fb_cap_for None 528 8 = 743" using cap_at [of 528 8 743] by simp
  have "\<lfloor>dadd (dadd 1056 (dmul 8 (dsqrt 1056))) 32\<rfloor> = 1347" by code_simp
  then show "fb_cap_for None 1056 8 = 1347" using cap_at [of 1056 8 1347] by simp
  have "\<lfloor>dadd (dadd 2112 (dmul 8 (dsqrt 2112))) 32\<rfloor> = 2511" by code_simp
  then show "fb_cap_for None 2112 8 = 2511" using cap_at [of 2112 8 2511] by simp
  have "\<lfloor>dadd (dadd 528 (dmul 2 (dsqrt 528))) 32\<rfloor> = 605" by code_simp
  then show "fb_cap_for None 528 2 = 605" using cap_at [of 528 2 605] by simp
  have "\<lfloor>dadd (dadd 1056 (dmul 2 (dsqrt 1056))) 32\<rfloor> = 1152" by code_simp
  then show "fb_cap_for None 1056 2 = 1152" using cap_at [of 1056 2 1152] by simp
  have "\<lfloor>dadd (dadd 2112 (dmul 2 (dsqrt 2112))) 32\<rfloor> = 2235" by code_simp
  then show "fb_cap_for None 2112 2 = 2235" using cap_at [of 2112 2 2235] by simp
qed

lemma shipping_nslots:
  "rb_nslots None kRbCapacity 17 False = 55705600"
  "rb_nslots None kRbCapacity 16 False = 48693248" "rb_nslots None kRbCapacity 16 True = 39714816"
  "rb_nslots None kRbCapacity 15 False = 44138496" "rb_nslots None kRbCapacity 15 True = 37814272"
  "rb_nslots None kRbCapacity 14 False = 41140224" "rb_nslots None kRbCapacity 14 True = 36683776"
  by (simp_all add: rb_nslots_def kRbCapacity_def Let_def kRbCapSigma_def kRbDenseSigma_def
      kRbArenaSlots_def shipping_caps)


text \<open>The footprint and the largest single allocation, as numbers.\<close>

definition fmt :: "bool \<Rightarrow> bool \<Rightarrow> bool \<Rightarrow> bool \<Rightarrow> bool \<Rightarrow> rb_format" where
  "fmt quad impb arena octo replay =
    \<lparr>f_quad = quad, f_impb = impb, f_arena = arena, f_octo = octo, f_replay = replay\<rparr>"

lemma fmt_sel:
  "f_impb (fmt q i a oc rp) = i" "f_octo (fmt q i a oc rp) = oc" "f_replay (fmt q i a oc rp) = rp"
  by (simp_all add: fmt_def)

lemma shipping_ucast: "(ucast kRbCapacity :: u64) = 34603008"
  by (simp add: kRbCapacity_def)

lemmas shipping_bytes = rowbucket_bytes_def shipping_nslots set_strides Let_def kRbArenaSlots_def
  fmt_def shipping_ucast

lemma shipping_footprints:
  "rowbucket_bytes None kRbCapacity 17 (fmt False True False False True) = (7577534528, 3565158400)"
  "rowbucket_bytes None kRbCapacity 16 (fmt False True False False True) = (6623068224, 3116367872)"
  "rowbucket_bytes None kRbCapacity 16 (fmt False True True False True) = (5404360780, 2541748224)"
  "rowbucket_bytes None kRbCapacity 15 (fmt False False False False True) = (6833569856, 3177971712)"
  "rowbucket_bytes None kRbCapacity 15 (fmt False False True False True) = (5974786120, 2722627584)"
  "rowbucket_bytes None kRbCapacity 16 (fmt True False False False True) = (5116002368, 3116367872)"
  "rowbucket_bytes None kRbCapacity 16 (fmt True False True False True) = (4327473224, 2541748224)"
  "rowbucket_bytes None kRbCapacity 14 (fmt False False False False True) = (6425673792, 2962096128)"
  "rowbucket_bytes None kRbCapacity 15 (fmt True False False False True) = (4714922048, 2824863744)"
  "rowbucket_bytes None kRbCapacity 15 (fmt True False True False True) = (4159701064, 2420113408)"
  "rowbucket_bytes None kRbCapacity 14 (fmt True False False False True) = (4450943040, 2632974336)"
  "rowbucket_bytes None kRbCapacity 14 (fmt True False True False True) = (4059955272, 2347761664)"
  "rowbucket_bytes None kRbCapacity 16 (fmt True False True True True) = (2185240648, 1270874112)"
  "rowbucket_bytes None kRbCapacity 15 (fmt True False True True True) = (2093490248, 1210056704)"
  "rowbucket_bytes None kRbCapacity 14 (fmt True False True True True) = (2038964296, 1173880832)"
  "rowbucket_bytes None kRbCapacity 14 (fmt False False False False False) = (6702506048, 2962096128)"
  "rowbucket_bytes None kRbCapacity 16 (fmt True False True False False) = (4604305480, 2541748224)"
  by (simp_all add: shipping_bytes del: One_nat_def)


subsection \<open>The reserved slots\<close>

lemma dsqrt_le_pow2:
  assumes "0 \<le> q" "q \<le> 2 ^ (2 * k)"
  shows "dsqrt q \<le> 2 ^ (k + 1)"
proof (cases "0 < q")
  case True
  define u where "u = pow2 (rat_exp q div 2 - 52)"
  have "pow2 (rat_exp q) \<le> pow2 (int (2 * k))"
    using rat_exp_bounds(1) [OF True] assms(2) by (simp only: pow2_nat)
  then have "rat_exp q \<le> int (2 * k)" by (simp only: pow2_le_iff)
  then have "rat_exp q div 2 - 52 \<le> int (k + 1)" by linarith
  then have u: "u \<le> 2 ^ (k + 1)" unfolding u_def pow2_nat [symmetric] by (simp only: pow2_le_iff)
  have u0: "0 < u" by (simp add: u_def)
  show ?thesis
  proof (rule ccontr)
    assume "\<not> dsqrt q \<le> 2 ^ (k + 1)"
    then have s: "2 ^ (k + 1) < dsqrt q" by simp
    then have ud: "u \<le> dsqrt q" using u by linarith
    from dsqrt_bracket(2) [OF True ud [unfolded u_def], folded u_def]
    have le: "(dsqrt q - u / 2) * (dsqrt q - u / 2) \<le> 2 ^ (2 * k)" using assms(2) by linarith
    have lt: "2 ^ k < dsqrt q - u / 2" using s u by simp
    moreover have "(0 :: rat) < 2 ^ k" by simp
    ultimately have "0 < dsqrt q - u / 2" by linarith
    with lt have "2 ^ k * 2 ^ k < (dsqrt q - u / 2) * (dsqrt q - u / 2)"
      by (intro mult_strict_mono) simp_all
    also note le
    finally show False by (simp add: power_add mult_2)
  qed
qed (simp add: dsqrt_def)

text \<open>A capacity is above its mean by at least one, and the conversion to 32 bits does not wrap.\<close>

lemma cap_above_mean:
  assumes m: "unat mean < 2 ^ 31" and s: "0 \<le> s" "s \<le> 8"
  shows "unat mean + 1 \<le> unat (fb_cap_for None mean s)"
proof -
  define k where "k = unat mean"
  define n :: rat where "n = of_nat k"
  have k: "k < 2 ^ 31" using m by (simp only: k_def)
  then have n: "0 \<le> n" "n \<le> 2 ^ 31" by (simp_all add: n_def)
  have dn: "d_of_nat k = n" using k by (simp add: n_def d_of_nat_exact)
  have "(n :: rat) \<le> 2 ^ (2 * 16)" using n by simp
  with n(1) have sd: "0 \<le> dsqrt n" "dsqrt n \<le> 2 ^ 17"
    using dsqrt_le_pow2 [of n 16] by (simp_all add: dsqrt_nonneg)
  have "0 \<le> s * dsqrt n" "s * dsqrt n \<le> 8 * 2 ^ 17"
    using s sd mult_mono [of s 8 "dsqrt n" "2 ^ 17"] by simp_all
  then have t: "0 \<le> dmul s (dsqrt n)" "dmul s (dsqrt n) \<le> 2 ^ 20"
    unfolding dmul_def using fp.rnd_le [of "2 ^ 20" "s * dsqrt n"] dbl_int [of "2 ^ 20"]
    by (simp_all add: dbl_nonneg)
  have nint: "dbl n = n" using dbl_int [of "int k"] k by (simp add: n_def)
  have a: "n \<le> dadd n (dmul s (dsqrt n))" "dadd n (dmul s (dsqrt n)) \<le> 2 ^ 31 + 2 ^ 20"
    unfolding dadd_def using t n nint dbl_int [of "2 ^ 31 + 2 ^ 20"]
    by (auto intro!: fp.rnd_ge fp.rnd_le)
  define c where "c = dadd (dadd n (dmul s (dsqrt n))) 32"
  have n32: "dbl (n + 32) = n + 32" using dbl_int [of "int k + 32"] k by (simp add: n_def)
  have c: "n + 32 \<le> c" "c \<le> 2 ^ 31 + 2 ^ 20 + 32"
    unfolding c_def dadd_def [of _ 32] using a n32 dbl_int [of "2 ^ 31 + 2 ^ 20 + 32"]
    by (auto intro!: fp.rnd_ge fp.rnd_le)
  then have "int k + 32 \<le> \<lfloor>c\<rfloor>" by (simp add: le_floor_iff n_def)
  then have lo: "k + 32 \<le> trunc_nat c" by (simp add: trunc_nat_def)
  have "\<lfloor>c\<rfloor> \<le> 2 ^ 31 + 2 ^ 20 + 32" using c(2) by (simp add: floor_le_iff)
  then have "nat \<lfloor>c\<rfloor> \<le> nat (2 ^ 31 + 2 ^ 20 + 32)" by (rule nat_mono)
  then have hi: "trunc_nat c < 2 ^ 32" by (simp add: trunc_nat_def)
  have "fb_cap_for None mean s = word_of_nat (trunc_nat c)"
    using c(1) n(1) by (simp add: fb_cap_for_def Let_def k_def [symmetric] dn c_def)
  then have "unat (fb_cap_for None mean s) = trunc_nat c"
    using hi by (simp add: unsigned_of_nat take_bit_nat_eq_self)
  with lo show ?thesis by (simp add: k_def)
qed

lemma nslots_room:
  assumes bb: "1 \<le> bb" "bb \<le> 17"
  shows "unat capacity \<le> unat (rb_nslots None capacity bb arena)"
proof -
  define nb :: u32 where "nb = push_bit bb 1"
  define s where "s = (if arena then kRbDenseSigma else kRbCapSigma)"
  define c where "c = fb_cap_for None (capacity div nb) s"
  have "(2 :: nat) ^ bb \<le> 2 ^ 17" using bb(2) by (rule power_increasing) simp
  then have nb: "unat nb = 2 ^ bb"
    using bb unfolding nb_def unsigned_push_bit_eq by (simp add: push_bit_eq_mult take_bit_nat_eq_self)
  have two: "(2 :: nat) \<le> 2 ^ bb" using bb(1) power_increasing [of 1 bb "2 :: nat"] by simp
  have cap: "unat capacity < 2 ^ 32" using unsigned_less [of capacity] by simp
  have mean: "unat (capacity div nb) = unat capacity div 2 ^ bb" by (simp add: unat_div nb)
  have "unat capacity div 2 ^ bb \<le> unat capacity div 2" using two by (rule div_le_mono2 [rotated]) simp
  moreover have "unat capacity div 2 < 2 ^ 31" using cap by simp
  ultimately have "unat (capacity div nb) < 2 ^ 31" unfolding mean by (rule le_less_trans)
  then have c: "unat capacity div 2 ^ bb + 1 \<le> unat c"
    using cap_above_mean [of "capacity div nb" s]
    by (simp add: c_def s_def kRbDenseSigma_def kRbCapSigma_def mean)
  have "unat c < 2 ^ 32" using unsigned_less [of c] by simp
  then have small: "2 ^ bb * unat c \<le> 2 ^ 17 * 2 ^ 32"
    using \<open>(2 :: nat) ^ bb \<le> 2 ^ 17\<close> by (intro mult_le_mono) simp_all
  have u: "unat (ucast nb * ucast c :: u64) = 2 ^ bb * unat c"
    using small by (subst unat_mult_small) (simp_all add: unat_ucast_up nb)
  have "unat (if arena then ucast kRbArenaSlots else 0 :: u64) \<le> 65536"
    by (simp add: kRbArenaSlots_def)
  then have "unat (ucast nb * ucast c + (if arena then ucast kRbArenaSlots else 0) :: u64) \<ge> 2 ^ bb * unat c"
    using small by (subst unat_add_small) (simp_all only: u, simp_all)
  moreover have "rb_nslots None capacity bb arena =
      ucast nb * ucast c + (if arena then ucast kRbArenaSlots else 0)"
    by (simp only: rb_nslots_def Let_def nb_def c_def s_def)
  moreover have "unat capacity \<le> 2 ^ bb * unat c"
  proof -
    have "unat capacity < 2 ^ bb * (unat capacity div 2 ^ bb + 1)"
      using dividend_less_times_div [of "2 ^ bb" "unat capacity"] by simp
    also have "\<dots> \<le> 2 ^ bb * unat c" using c by (rule mult_le_mono2)
    finally show ?thesis by simp
  qed
  ultimately show ?thesis by simp
qed

section \<open>Properties\<close>

text \<open>
  C20: The geometry returned is that of the first candidate rung that the backend can run and
  that fits both limits, and it is marked viable exactly when some candidate does; with no such
  rung it is the refusal.
\<close>
theorem rb_geometry_first_fit:
  "g_viable (rb_geometry_for forced capacity q) =
      (\<exists>r \<in> set (rb_candidates q). rung_fits forced capacity q r) \<and>
    (\<forall>i < length (rb_candidates q). rung_fits forced capacity q (rb_candidates q ! i) \<and>
        (\<forall>j < i. \<not> rung_fits forced capacity q (rb_candidates q ! j)) \<longrightarrow>
      rb_geometry_for forced capacity q = geometry_of (Some (rb_candidates q ! i)))"
proof (intro conjI allI impI)
  show "g_viable (rb_geometry_for forced capacity q) =
      (\<exists>r \<in> set (rb_candidates q). rung_fits forced capacity q r)"
  proof (cases "find (rung_fits forced capacity q) (rb_candidates q)")
    case None
    then have "\<forall>r \<in> set (rb_candidates q). \<not> rung_fits forced capacity q r"
      by (simp only: ladder.pick_none_iff)
    with None show ?thesis by (simp add: rb_geometry_find geometry_of_def)
  next
    case (Some r)
    then have "\<exists>r \<in> set (rb_candidates q). rung_fits forced capacity q r"
      unfolding ladder.pick_some_iff by (metis nth_mem)
    with Some show ?thesis by (simp add: rb_geometry_find geometry_of_def)
  qed
next
  fix i
  assume "i < length (rb_candidates q)" and "rung_fits forced capacity q (rb_candidates q ! i) \<and>
    (\<forall>j < i. \<not> rung_fits forced capacity q (rb_candidates q ! j))"
  then have "find (rung_fits forced capacity q) (rb_candidates q) = Some (rb_candidates q ! i)"
    unfolding ladder.pick_some_iff by blast
  then show "rb_geometry_for forced capacity q = geometry_of (Some (rb_candidates q ! i))"
    by (simp add: rb_geometry_find)
qed

definition request0 :: rb_request where
  "request0 = \<lparr>q_max_alloc = 0, q_global_mem = 0, q_allow_quad = False, q_power_limit_w = 0,
     q_allow_split = False, q_slack_bytes = 0, q_allow_impb = False, q_allow_arena = False,
     q_allow_octo = False, q_allow_replay = False\<rparr>"

theorem rb_geometry_first_fit_witness:
  "rb_geometry_for None kRbCapacity request0 = geometry_of (Some (rung 16 1 False False False))"
proof -
  have c: "rb_candidates request0 = rb_rungs" by (simp add: rb_candidates_def request0_def)
  have "rung_fits None kRbCapacity request0 (rung 16 1 False False False)"
    by (simp add: rung_fits_def request0_def rung_def Let_def split: prod.splits)
  then show ?thesis
    using rb_geometry_first_fit [of None kRbCapacity request0]
    by (auto simp: c rb_rungs_def All_less_Suc2)
qed

text \<open>
  More memory, of either kind, never turns a viable card into a refused one and never moves
  it down the ladder.
\<close>
theorem rb_geometry_monotone:
  assumes more: "more_memory q q'" and viable: "g_viable (rb_geometry_for forced capacity q)"
  shows "\<exists>i j. j \<le> i \<and> i < length (rb_candidates q) \<and>
    rb_geometry_for forced capacity q = geometry_of (Some (rb_candidates q ! i)) \<and>
    rb_geometry_for forced capacity q' = geometry_of (Some (rb_candidates q' ! j)) \<and>
    rung_fits forced capacity q' (rb_candidates q' ! j)"
proof -
  have c: "rb_candidates q' = rb_candidates q"
    using more unfolding more_memory_def rb_candidates_def
    by (metis (no_types, lifting) rb_request.simps(14) rb_request.simps(15) rb_request.surjective
        rb_request.update_convs(1) rb_request.update_convs(2) rb_request.select_convs(4))
  obtain r where "find (rung_fits forced capacity q) (rb_candidates q) = Some r"
    using viable by (auto simp: rb_geometry_find geometry_of_def split: option.splits)
  then obtain i where i: "i < length (rb_candidates q)" "r = rb_candidates q ! i"
    "rung_fits forced capacity q (rb_candidates q ! i)"
    "find (rung_fits forced capacity q) (rb_candidates q) = Some (rb_candidates q ! i)"
    by (auto simp: ladder.pick_some_iff)
  obtain j where j: "j \<le> i" "find (rung_fits forced capacity q') (rb_candidates q) = Some (rb_candidates q ! j)"
    using ladder.pick_mono [OF more i(1,3)] by blast
  then have "rung_fits forced capacity q' (rb_candidates q ! j)" by (auto simp: find_Some_iff)
  with i j show ?thesis
    by (intro exI [of _ i] exI [of _ j]) (simp add: rb_geometry_find c)
qed

theorem rb_geometry_monotone_witness:
  "\<exists>i j. j \<le> i \<and> i < length (rb_candidates request0) \<and>
    rb_geometry_for None 1 request0 = geometry_of (Some (rb_candidates request0 ! i)) \<and>
    rb_geometry_for None 1 request0 = geometry_of (Some (rb_candidates request0 ! j)) \<and>
    rung_fits None 1 request0 (rb_candidates request0 ! j)"
proof (rule rb_geometry_monotone)
  show "more_memory request0 request0" by (simp add: more_memory_def request0_def)
  show "g_viable (rb_geometry_for None 1 request0)"
    by (simp add: rb_geometry_for_def request0_def rb_rungs_def rung_def Let_def split: prod.splits)
qed

text \<open>
  With the tail bounds the code ships, the buckets of every geometry reserve at least one
  slot per element: a record set has room for a full layer of any capacity.
\<close>
theorem reserved_slots_hold_layer:
  assumes "1 \<le> bb" "bb \<le> 17"
  shows "unat capacity \<le> unat (rb_nslots None capacity bb arena)"
  using assms by (rule nslots_room)

theorem reserved_slots_hold_layer_witness:
  "unat kRbCapacity \<le> unat (rb_nslots None kRbCapacity 14 True)"
  by (rule reserved_slots_hold_layer) simp_all


text \<open>
  A backend that can run every format, as the CUDA solver asks: no limit on a single allocation,
  implicit bits and replay on.
\<close>

definition cuda_request :: "u64 \<Rightarrow> u64 \<Rightarrow> u32 \<Rightarrow> rb_request" where
  "cuda_request global_mem slack watts =
    \<lparr>q_max_alloc = 0, q_global_mem = global_mem, q_allow_quad = True, q_power_limit_w = watts,
     q_allow_split = False, q_slack_bytes = slack, q_allow_impb = True, q_allow_arena = True,
     q_allow_octo = True, q_allow_replay = True\<rparr>"

lemma add_le_word:
  fixes a b s :: u64
  assumes "a \<le> b" "unat b + unat s < 2 ^ 64"
  shows "a + s \<le> b + s"
proof -
  have "unat a \<le> unat b" using assms(1) by (simp only: word_le_nat_alt)
  then show ?thesis using assms(2) unat_add_small [of a s] unat_add_small [of b s]
    by (simp add: word_le_nat_alt)
qed

lemma cuda_fits:
  assumes "q = cuda_request g s p" "r \<in> set (rb_candidates q)" "unat s \<le> 2 ^ 63"
    and "rung_fits None kRbCapacity q r"
  shows "rung_fits None kRbCapacity q (rung 14 3 True True True)"
proof -
  define t where "t = fst (rowbucket_bytes None kRbCapacity (r_bb r) (rung_format q r))"
  have q: "q_global_mem q = g" "q_slack_bytes q = s" "q_max_alloc q = 0"
    by (simp_all add: assms(1) cuda_request_def)
  have f: "rung_format q (rung bb sm quad a c) = fmt quad (rb_impb_ok bb sm quad) a c True"
    for bb sm quad a c by (simp add: assms(1) cuda_request_def rung_format_def rung_def fmt_def impb_at_def)
  have sel: "r_bb (rung bb sm quad a c) = bb" for bb sm quad a c by (simp add: rung_def)
  have "2038964296 \<le> t \<and> t \<le> 8000000000"
    using assms(2) unfolding rb_candidates_def rb_rungs_def
    by (auto simp: t_def f sel rb_impb_ok_def shipping_footprints split: if_splits)
  moreover from this have "unat t \<le> 8000000000" by (simp add: word_le_nat_alt)
  ultimately have "2038964296 + s \<le> t + s"
    using assms(3) by (intro add_le_word) simp_all
  moreover have "g \<noteq> 0 \<Longrightarrow> t + s \<le> g"
    using assms(4) by (simp add: rung_fits_def q t_def Let_def split: prod.splits)
  ultimately have "g \<noteq> 0 \<Longrightarrow> 2038964296 + s \<le> g" by (meson order.trans)
  then show ?thesis
    by (simp add: rung_fits_def q f sel rb_impb_ok_def shipping_footprints Let_def)
      (simp add: rung_def assms(1) cuda_request_def)
qed

lemma cuda_viable:
  assumes "unat slack \<le> 2 ^ 63"
  shows "g_viable (rb_geometry_for None kRbCapacity (cuda_request mem slack watts)) \<longleftrightarrow>
    mem = 0 \<or> 2038964296 + slack \<le> mem"
proof -
  let ?q = "cuda_request mem slack watts"
  let ?r = "rung 14 3 True True True"
  have mem: "?r \<in> set (rb_candidates ?q)" by (simp add: rb_candidates_def rb_rungs_def)
  have "rung_format ?q ?r = fmt True False True True True"
    by (simp add: rung_format_def rung_def fmt_def impb_at_def cuda_request_def rb_impb_ok_def)
  then have "rung_fits None kRbCapacity ?q ?r \<longleftrightarrow> mem = 0 \<or> 2038964296 + slack \<le> mem"
    by (auto simp: rung_fits_def shipping_footprints Let_def rung_def cuda_request_def)
  moreover have "g_viable (rb_geometry_for None kRbCapacity ?q) \<longleftrightarrow>
      (\<exists>r \<in> set (rb_candidates ?q). rung_fits None kRbCapacity ?q r)"
    using ladder.pick_none_iff [of None kRbCapacity ?q "rb_candidates ?q"]
    by (cases "find (rung_fits None kRbCapacity ?q) (rb_candidates ?q)")
      (auto simp: rb_geometry_find geometry_of_def)
  ultimately show ?thesis using cuda_fits [OF refl _ assms] mem by blast
qed

text \<open>
  The floor of the CUDA backend: at the shipping capacity a card is viable exactly when the
  last rung of the ladder, 2,038,964,296 bytes with the slack on top, fits its memory, whatever
  the power limit.
\<close>
theorem cuda_floor:
  assumes "unat slack \<le> 2 ^ 63"
  shows "g_viable (rb_geometry_for None kRbCapacity (cuda_request mem slack watts)) \<longleftrightarrow>
    mem = 0 \<or> 2038964296 + slack \<le> mem"
  using assms by (rule cuda_viable)

theorem cuda_floor_witness:
  "g_viable (rb_geometry_for None kRbCapacity (cuda_request 2147483648 67108864 0)) \<and>
   \<not> g_viable (rb_geometry_for None kRbCapacity (cuda_request 2147483648 268435456 0))"
  using cuda_floor [of 67108864 2147483648 0] cuda_floor [of 268435456 2147483648 0] by simp

text \<open>The single allocation a rung is bound by, at the shipping capacity without implicit bits.\<close>

lemma dominated:
  assumes quad: "q_allow_quad q" "q_allow_arena q" and s: "unat (q_slack_bytes q) \<le> 2 ^ 63"
    and fits: "rung_fits None kRbCapacity q (rung 14 3 False False False)"
  shows "rung_fits None kRbCapacity q (rung 16 1 True True False)"
proof -
  let ?p = "rung 14 3 False False False" and ?d = "rung 16 1 True True False"
  have f: "rung_format q ?p = fmt False False False False (q_allow_replay q)"
      "rung_format q ?d = fmt True False True False (q_allow_replay q)"
    by (simp_all add: rung_format_def rung_def fmt_def impb_at_def rb_impb_ok_def)
  have sel: "r_bb ?p = 14" "r_bb ?d = 16" by (simp_all add: rung_def)
  define pb where "pb = rowbucket_bytes None kRbCapacity 14 (fmt False False False False (q_allow_replay q))"
  define db where "db = rowbucket_bytes None kRbCapacity 16 (fmt True False True False (q_allow_replay q))"
  have totals: "fst db \<le> fst pb" "unat (fst pb) < 2 ^ 33"
    by (cases "q_allow_replay q"; simp add: pb_def db_def shipping_footprints)+
  have binding: "binding_single None kRbCapacity q 16 (fmt True False True False (q_allow_replay q)) (snd db)
      \<le> binding_single None kRbCapacity q 14 (fmt False False False False (q_allow_replay q)) (snd pb)"
    by (cases "q_allow_replay q"; cases "q_allow_split q";
        simp add: pb_def db_def binding_single_def rowbucket_single_split_def shipping_footprints
          shipping_ucast fmt_sel Let_def)
  have t: "fst db + q_slack_bytes q \<le> fst pb + q_slack_bytes q"
    using totals s by (intro add_le_word) simp_all
  show ?thesis
    using fits binding t quad unfolding rung_fits_def f sel pb_def db_def
    by (auto simp: Let_def rung_def case_prod_beta intro: order.trans)
qed

text \<open>
  The packed \<open>(14,3)\<close> rung is dominated: a backend that can run both the quad record and the
  dense caps is never given it at the shipping capacity, on any card, split or not.
\<close>
theorem packed_14_3_unreachable:
  assumes "q_allow_quad q" "q_allow_arena q" "unat (q_slack_bytes q) \<le> 2 ^ 63"
    and "g_viable (rb_geometry_for None kRbCapacity q)"
  shows "\<not> (g_bb (rb_geometry_for None kRbCapacity q) = 14 \<and> \<not> g_quad (rb_geometry_for None kRbCapacity q))"
proof
  assume bad: "g_bb (rb_geometry_for None kRbCapacity q) = 14 \<and> \<not> g_quad (rb_geometry_for None kRbCapacity q)"
  let ?fits = "rung_fits None kRbCapacity q"
  obtain r where r: "find ?fits (rb_candidates q) = Some r"
    using assms(4) by (auto simp: rb_geometry_find geometry_of_def split: option.splits)
  with bad have b: "r_bb r = 14" "\<not> r_quad r" by (simp_all add: rb_geometry_find geometry_of_def)
  from r have "r \<in> set (rb_candidates q)" "?fits r" by (auto simp: find_Some_iff)
  with b have "r = rung 14 3 False False False"
    by (auto simp: rb_candidates_def rb_rungs_def rung_def split: if_splits)
  then have p: "?fits (rung 14 3 False False False)" using \<open>?fits r\<close> by simp
  from dominated [OF assms(1-3) this] r \<open>r = rung 14 3 False False False\<close> show False
    by (auto simp: rb_candidates_def rb_rungs_def rung_def split: if_splits)
qed

theorem packed_14_3_unreachable_witness:
  "(g_bb (rb_geometry_for None kRbCapacity (cuda_request 6442450944 0 0)),
    g_quad (rb_geometry_for None kRbCapacity (cuda_request 6442450944 0 0))) \<noteq> (14, False)"
  using packed_14_3_unreachable [of "cuda_request 6442450944 0 0"]
    cuda_viable [of 0 6442450944 0]
  by (auto simp: cuda_request_def)

end
