(* ===== verification/Json.thy ===== *)
theory Json
  imports Printf
begin

text \<open>
  The values of the JSON library, with its checked readers: \<open>j.contains\<close>, \<open>j.value(key, default)\<close>.
  A reader returns \<open>None\<close> where the library throws. Object keys are distinct, sorted or in file order as the object type has it.
\<close>

datatype json =
    JNull
  | JBool bool
  | JInt int
  | JFloat double
  | JString string
  | JArray "json list"
  | JObject "(string \<times> json) list"

fun jcontains :: "json \<Rightarrow> string \<Rightarrow> bool" where
  "jcontains (JObject kvs) k = (map_of kvs k \<noteq> None)"
| "jcontains _ k = False"

fun jstring_of :: "json \<Rightarrow> string option" where
  "jstring_of (JString s) = Some s"
| "jstring_of _ = None"

text \<open>Arithmetic readers convert any number and a boolean by \<open>static_cast\<close>.\<close>

fun jint_of :: "json \<Rightarrow> int option" where
  "jint_of (JInt i) = Some i"
| "jint_of (JBool b) = Some (if b then 1 else 0)"
| "jint_of (JFloat d) = Some (if 0 \<le> d then \<lfloor>d\<rfloor> else - \<lfloor>- d\<rfloor>)"
| "jint_of _ = None"

fun jvalue :: "(json \<Rightarrow> 'a option) \<Rightarrow> json \<Rightarrow> string \<Rightarrow> 'a \<Rightarrow> 'a option" where
  "jvalue get (JObject kvs) k dflt = (case map_of kvs k of None \<Rightarrow> Some dflt | Some v \<Rightarrow> get v)"
| "jvalue get _ k dflt = None"

definition jstr :: "json \<Rightarrow> string \<Rightarrow> string option" where
  "jstr j k = jvalue jstring_of j k ''''"

definition jnum :: "json \<Rightarrow> string \<Rightarrow> int option" where
  "jnum j k = jvalue jint_of j k 0"

fun str_less :: "string \<Rightarrow> string \<Rightarrow> bool" where
  "str_less _ [] = False"
| "str_less [] (_ # _) = True"
| "str_less (a # s) (b # t) =
    ((of_char a :: nat) < of_char b \<or> a = b \<and> str_less s t)"

text \<open>\<open>o[k] = v\<close> on an object.\<close>

fun jset :: "string \<Rightarrow> json \<Rightarrow> (string \<times> json) list \<Rightarrow> (string \<times> json) list" where
  "jset k v [] = [(k, v)]"
| "jset k v ((k', v') # kvs) =
    (if k = k' then (k, v) # kvs
     else if str_less k k' then (k, v) # (k', v') # kvs
     else (k', v') # jset k v kvs)"

text \<open>\<open>j.find(key)\<close>, which finds nothing in what is not an object.\<close>

fun jfind :: "json \<Rightarrow> string \<Rightarrow> json option" where
  "jfind (JObject kvs) k = map_of kvs k"
| "jfind _ k = None"

lemma map_of_jset: "map_of (jset k v kvs) k' = (if k' = k then Some v else map_of kvs k')"
  by (induction k v kvs rule: jset.induct) auto

end
