(* ===== verification/Stratum.thy ===== *)
theory Stratum
  imports Printf Json
begin

text \<open>
  The stratum side of the miner (src/stratum): message parsing and serialisation, the line
  transport, and the client with its reconnect and failover loop. The JSON library, the sockets
  and OpenSSL are not part of the program: the parser and printer are parameters, and every call
  into the network takes its outcome from an explicit script. Shown: lines survive any chunking
  of the byte stream, the receive buffer is bounded, a malformed line changes nothing, and the
  client leaves a pool only after three failed redials in a row.
\<close>

section \<open>Messages\<close>

datatype msg_method = MUnknown | MLogin | MJob | MSolution | MCancel | MResult

record job =
  j_id :: string
  j_input :: string
  j_difficulty :: u32
  j_height :: u64

record solution =
  s_id :: string
  s_nonce :: string
  s_output :: string

record result =
  r_id :: string
  r_description :: string
  r_nonceprefix :: string
  r_blockhash :: string
  r_code :: "32 word"

record msg =
  m_method :: msg_method
  m_job :: job
  m_result :: result
  m_cancel :: string

definition msg0 :: msg where
  "msg0 = \<lparr>m_method = MUnknown, m_job = \<lparr>j_id = '''', j_input = '''', j_difficulty = 0, j_height = 0\<rparr>,
     m_result = \<lparr>r_id = '''', r_description = '''', r_nonceprefix = '''', r_blockhash = '''', r_code = 0\<rparr>,
     m_cancel = ''''\<rparr>"

definition json_base :: "string \<Rightarrow> string \<Rightarrow> (string \<times> json) list" where
  "json_base meth ident =
    jset ''method'' (JString meth) (jset ''id'' (JString ident) (jset ''jsonrpc'' (JString ''2.0'') []))"

definition login_json :: "string \<Rightarrow> json" where
  "login_json api_key = JObject (jset ''api_key'' (JString api_key) (json_base ''login'' ''login''))"

definition cancel_json :: "string \<Rightarrow> json" where
  "cancel_json ident = JObject (json_base ''cancel'' ident)"

definition solution_json :: "solution \<Rightarrow> json" where
  "solution_json m = JObject (jset ''output'' (JString (s_output m))
     (jset ''nonce'' (JString (s_nonce m)) (json_base ''solution'' (s_id m))))"

text \<open>The body of \<open>parse\<close> on a parsed value; \<open>None\<close> is a thrown type error.\<close>

definition parse_value :: "json \<Rightarrow> msg \<Rightarrow> (bool \<times> msg) option" where
  "parse_value j out =
    (if \<not> jcontains j ''method'' then Some (False, out)
     else
       Option.bind (jstr j ''method'') (\<lambda>meth.
       Option.bind (jstr j ''id'') (\<lambda>sid.
         if meth = ''job'' then
           Option.bind (jstr j ''input'') (\<lambda>input.
           Option.bind (jnum j ''difficulty'') (\<lambda>difficulty.
           Option.bind (jnum j ''height'') (\<lambda>height.
             Some (True, out\<lparr>m_method := MJob,
               m_job := \<lparr>j_id = sid, j_input = input, j_difficulty = word_of_int difficulty,
                         j_height = word_of_int height\<rparr>\<rparr>))))
         else if meth = ''result'' then
           Option.bind (jstr j ''description'') (\<lambda>description.
           Option.bind (jstr j ''nonceprefix'') (\<lambda>nonceprefix.
           Option.bind (jstr j ''blockhash'') (\<lambda>blockhash.
           Option.bind (jnum j ''code'') (\<lambda>code.
             Some (True, out\<lparr>m_method := MResult,
               m_result := \<lparr>r_id = sid, r_description = description, r_nonceprefix = nonceprefix,
                            r_blockhash = blockhash, r_code = word_of_int code\<rparr>\<rparr>)))))
         else if meth = ''cancel'' then Some (True, out\<lparr>m_method := MCancel, m_cancel := sid\<rparr>)
         else if meth = ''login'' \<or> meth = ''solution'' then
           Some (True, out\<lparr>m_method := if meth = ''login'' then MLogin else MSolution\<rparr>)
         else Some (True, out\<lparr>m_method := MUnknown\<rparr>))))"

text \<open>
  \<open>parse_json\<close> is the library's parser, \<open>None\<close> when it throws. The source sets \<open>out.method\<close>
  before it reads the fields, so a type error can leave it set; callers ignore \<open>out\<close> then.
\<close>

definition parse :: "(string \<Rightarrow> json option) \<Rightarrow> string \<Rightarrow> msg option" where
  "parse parse_json line =
    (case parse_json line of
       None \<Rightarrow> None
     | Some j \<Rightarrow> (case parse_value j msg0 of Some (True, m) \<Rightarrow> Some m | _ \<Rightarrow> None))"

section \<open>Transport\<close>

definition kMaxLine :: nat where "kMaxLine = 64 * 1024"

abbreviation (input) nl :: char where "nl \<equiv> CHR 0x0A"
abbreviation (input) cr :: char where "cr \<equiv> CHR 0x0D"

record transport =
  t_fd :: int
  t_peer_ip :: string
  t_ssl :: bool
  t_ctx :: bool
  t_rxbuf :: string

definition transport0 :: transport where
  "transport0 = \<lparr>t_fd = -1, t_peer_ip = '''', t_ssl = False, t_ctx = False, t_rxbuf = ''''\<rparr>"

definition t_connected :: "transport \<Rightarrow> bool" where
  "t_connected t \<longleftrightarrow> t_fd t \<ge> 0"

definition t_close :: "transport \<Rightarrow> transport" where
  "t_close t = t\<lparr>t_ssl := False, t_ctx := False,
     t_fd := (if t_fd t \<ge> 0 then -1 else t_fd t), t_rxbuf := ''''\<rparr>"

text \<open>
  What the network answers to one dial: whether the sockets library starts, the resolved
  addresses (\<open>None\<close> when resolution fails), and how far the TLS set-up gets. An address says
  which descriptor \<open>socket\<close> returns, whether \<open>connect\<close> succeeds, and its text form if it has one.
\<close>

record dial_addr =
  a_fd :: int
  a_connects :: bool
  a_ip :: "string option"

record dial =
  d_startup :: bool
  d_addrs :: "dial_addr list option"
  d_ctx_new :: bool
  d_ssl_new :: bool
  d_set_host :: bool
  d_ssl_connect :: bool

fun dial_loop :: "dial_addr list \<Rightarrow> string \<Rightarrow> int \<times> string" where
  "dial_loop [] ip = (-1, ip)"
| "dial_loop (a # as) ip =
    (if a_fd a < 0 then dial_loop as ip
     else if a_connects a then (a_fd a, case a_ip a of Some s \<Rightarrow> s | None \<Rightarrow> ip)
     else dial_loop as ip)"

definition t_connect :: "dial \<Rightarrow> bool \<Rightarrow> bool \<Rightarrow> transport \<Rightarrow> bool \<times> transport" where
  "t_connect d tls verify t0 =
    (let t = t_close t0 in
     if \<not> d_startup d then (False, t)
     else case d_addrs d of
       None \<Rightarrow> (False, t)
     | Some [] \<Rightarrow> (False, t)
     | Some addrs \<Rightarrow>
         let (fd, ip) = dial_loop addrs ''''; t = t\<lparr>t_peer_ip := ip\<rparr> in
         if fd < 0 then (False, t)
         else
           let t = t\<lparr>t_fd := fd\<rparr> in
           if \<not> tls then (True, t)
           else if \<not> d_ctx_new d then (False, t_close t)
           else
             let t = t\<lparr>t_ctx := True\<rparr> in
             if \<not> d_ssl_new d then (False, t_close t)
             else
               let t = t\<lparr>t_ssl := True\<rparr> in
               if verify \<and> \<not> d_set_host d then (False, t_close t)
               else if \<not> d_ssl_connect d then (False, t_close t)
               else (True, t))"

text \<open>
  The write loop over the results of the successive writes; it returns the bytes put on the wire.
  \<open>None\<close> when the script ends before the loop does: the call is still blocked.
\<close>

fun send_loop :: "transport \<Rightarrow> string \<Rightarrow> int list \<Rightarrow> (bool \<times> transport \<times> string \<times> int list) option" where
  "send_loop t rest [] = (if rest = [] then Some (True, t, [], []) else None)"
| "send_loop t rest (n # ns) =
    (if rest = [] then Some (True, t, [], n # ns)
     else if n \<le> 0 then Some (False, t_close t, [], ns)
     else (case send_loop t (drop (nat n) rest) ns of
             None \<Rightarrow> None
           | Some (ok, t', wire, ns') \<Rightarrow> Some (ok, t', take (nat n) rest @ wire, ns')))"

definition send_line :: "transport \<Rightarrow> string \<Rightarrow> int list \<Rightarrow> (bool \<times> transport \<times> string \<times> int list) option" where
  "send_line t line ns =
    (if t_fd t < 0 then Some (False, t, [], ns) else send_loop t (line @ [nl]) ns)"

text \<open>A line without its terminator, and without a carriage return before it.\<close>

definition strip_cr :: "string \<Rightarrow> string" where
  "strip_cr s = (if s \<noteq> [] \<and> last s = cr then butlast s else s)"

text \<open>
  The receive loop over the results of the successive reads, \<open>None\<close> in the script being a closed
  or failed socket. It returns the line, the transport, and the reads left; \<open>None\<close> when blocked.
\<close>

fun recv_loop :: "transport \<Rightarrow> string option list \<Rightarrow> (string option \<times> transport \<times> string option list) option" where
  "recv_loop t io =
    (if nl \<in> set (t_rxbuf t) then
       Some (Some (strip_cr (takeWhile (\<lambda>c. c \<noteq> nl) (t_rxbuf t))),
             t\<lparr>t_rxbuf := tl (dropWhile (\<lambda>c. c \<noteq> nl) (t_rxbuf t))\<rparr>, io)
     else if length (t_rxbuf t) > kMaxLine then Some (None, t_close t, io)
     else (case io of
             [] \<Rightarrow> None
           | None # io' \<Rightarrow> Some (None, t_close t, io')
           | Some chunk # io' \<Rightarrow> recv_loop (t\<lparr>t_rxbuf := t_rxbuf t @ chunk\<rparr>) io'))"

declare recv_loop.simps [simp del]

definition recv_line :: "transport \<Rightarrow> string option list \<Rightarrow> (string option \<times> transport \<times> string option list) option" where
  "recv_line t io = (if t_fd t < 0 then Some (None, t, io) else recv_loop t io)"

section \<open>The client\<close>

definition kRedialsBeforeFailover :: nat where "kRedialsBeforeFailover = 3"

record endpoint =
  e_host :: string
  e_port :: u16
  e_tls :: bool
  e_api_key :: string

record client =
  c_transport :: transport
  c_host :: string
  c_port :: u16
  c_tls :: bool
  c_api_key :: string
  c_nonceprefix :: string
  c_failover :: "endpoint list"
  c_failover_index :: nat
  c_redial_failures :: nat

definition client0 :: client where
  "client0 = \<lparr>c_transport = transport0, c_host = '''', c_port = 0, c_tls = False, c_api_key = '''',
     c_nonceprefix = '''', c_failover = [], c_failover_index = 0, c_redial_failures = 0\<rparr>"

text \<open>The callbacks the client fires, in order, and the bytes it puts on the wire.\<close>

datatype client_event =
    OnJob job
  | OnResult result
  | OnDisconnect
  | OnFailover string string
  | Wire string
  | Sleep nat

definition client_connect :: "dial \<Rightarrow> string \<Rightarrow> u16 \<Rightarrow> bool \<Rightarrow> client \<Rightarrow> bool \<times> client" where
  "client_connect d host port tls c =
    (let c = c\<lparr>c_host := host, c_port := port, c_tls := tls\<rparr>;
         (ok, t) = t_connect d (c_tls c) False (c_transport c)
     in (ok, c\<lparr>c_transport := t\<rparr>))"

definition client_send :: "string \<Rightarrow> int list \<Rightarrow> client \<Rightarrow> (client \<times> client_event list) option" where
  "client_send wire ns c =
    (case send_line (c_transport c) wire ns of
       None \<Rightarrow> None
     | Some (ok, t, bytes, _) \<Rightarrow> Some (c\<lparr>c_transport := t\<rparr>, [Wire bytes]))"

text \<open>\<open>dump\<close> is the library's printer.\<close>

definition client_login :: "(json \<Rightarrow> string) \<Rightarrow> string \<Rightarrow> int list \<Rightarrow> client \<Rightarrow> (client \<times> client_event list) option" where
  "client_login dump api_key ns c = client_send (dump (login_json api_key)) ns (c\<lparr>c_api_key := api_key\<rparr>)"

definition client_submit :: "(json \<Rightarrow> string) \<Rightarrow> solution \<Rightarrow> int list \<Rightarrow> client \<Rightarrow> (client \<times> client_event list) option" where
  "client_submit dump s ns c = client_send (dump (solution_json s)) ns c"

definition handle_line :: "(string \<Rightarrow> json option) \<Rightarrow> string \<Rightarrow> client \<Rightarrow> client \<times> client_event list" where
  "handle_line parse_json line c =
    (case parse parse_json line of
       None \<Rightarrow> (c, [])
     | Some m \<Rightarrow>
         (case m_method m of
            MJob \<Rightarrow> (c, [OnJob (m_job m)])
          | MResult \<Rightarrow>
              (if r_nonceprefix (m_result m) \<noteq> '''' then c\<lparr>c_nonceprefix := r_nonceprefix (m_result m)\<rparr> else c,
               [OnResult (m_result m)])
          | _ \<Rightarrow> (c, [])))"

definition reconnect_and_login ::
    "(json \<Rightarrow> string) \<Rightarrow> dial \<Rightarrow> int list \<Rightarrow> client \<Rightarrow> (bool \<times> client \<times> client_event list) option" where
  "reconnect_and_login dump d ns c =
    (let (ok, t) = t_connect d (c_tls c) False (c_transport c); c = c\<lparr>c_transport := t\<rparr> in
     if \<not> ok then Some (False, c, [])
     else case client_login dump (c_api_key c) ns c of
            None \<Rightarrow> None
          | Some (c', evs) \<Rightarrow> Some (t_connected (c_transport c'), c', evs))"

definition set_failover_pools :: "endpoint list \<Rightarrow> client \<Rightarrow> client" where
  "set_failover_pools pools c = c\<lparr>c_failover := pools, c_failover_index := 0\<rparr>"

definition current_pool :: "client \<Rightarrow> string" where
  "current_pool c = c_host c @ '':'' @ dec (unat (c_port c))"

definition advance_pool :: "client \<Rightarrow> client \<times> client_event list" where
  "advance_pool c =
    (if length (c_failover c) < 2 then (c, [])
     else
       let from = current_pool c;
           i = (c_failover_index c + 1) mod length (c_failover c);
           e = c_failover c ! i;
           c = c\<lparr>c_failover_index := i, c_host := e_host e, c_port := e_port e, c_tls := e_tls e\<rparr>;
           c = (if e_api_key e \<noteq> '''' then c\<lparr>c_api_key := e_api_key e\<rparr> else c)
       in (c, [OnFailover from (current_pool c)]))"

text \<open>
  One turn of the loop of \<open>run\<close>. \<open>turn_io\<close> is what the network does during the turn; the outcome
  says which way through the body was taken.
\<close>

record turn_io =
  io_dial :: dial
  io_writes :: "int list"
  io_reads :: "string option list"

datatype turn_kind = RedialFailed | Redialed | GotLine | Dropped

definition run_turn ::
    "(string \<Rightarrow> json option) \<Rightarrow> (json \<Rightarrow> string) \<Rightarrow> turn_io \<Rightarrow> client \<Rightarrow> (turn_kind \<times> client \<times> client_event list) option" where
  "run_turn parse_json dump io c =
    (if \<not> t_connected (c_transport c) then
       (case reconnect_and_login dump (io_dial io) (io_writes io) c of
          None \<Rightarrow> None
        | Some (ok, c, evs) \<Rightarrow>
            if \<not> ok then
              let c = c\<lparr>c_redial_failures := c_redial_failures c + 1\<rparr>;
                  (c, evs') = (if c_redial_failures c \<ge> kRedialsBeforeFailover
                               then advance_pool (c\<lparr>c_redial_failures := 0\<rparr>) else (c, []))
              in Some (RedialFailed, c, evs @ evs' @ [Sleep 1000])
            else Some (Redialed, c\<lparr>c_redial_failures := 0\<rparr>, evs))
     else
       (case recv_line (c_transport c) (io_reads io) of
          None \<Rightarrow> None
        | Some (Some line, t, _) \<Rightarrow>
            (case handle_line parse_json line (c\<lparr>c_transport := t\<rparr>) of
               (c, evs) \<Rightarrow> Some (GotLine, c, evs))
        | Some (None, t, _) \<Rightarrow>
            Some (Dropped, c\<lparr>c_transport := t_close t\<rparr>, [OnDisconnect, Sleep 1000])))"

text \<open>
  A run: any number of turns of the loop, with the outcome and the events of each turn, latest
  first. Between two turns another thread may submit a solution.
\<close>

inductive client_run ::
    "(string \<Rightarrow> json option) \<Rightarrow> (json \<Rightarrow> string) \<Rightarrow> client \<Rightarrow> (turn_kind \<times> client_event list) list \<Rightarrow> client \<Rightarrow> bool"
  for parse_json dump c0 where
  run_start: "client_run parse_json dump c0 [] c0"
| run_step: "client_run parse_json dump c0 tr c \<Longrightarrow>
    run_turn parse_json dump io c = Some (kind, c', evs) \<Longrightarrow>
    client_run parse_json dump c0 ((kind, evs) # tr) c'"
| run_submit: "client_run parse_json dump c0 tr c \<Longrightarrow>
    client_submit dump s ns c = Some (c', evs) \<Longrightarrow>
    client_run parse_json dump c0 tr c'"

section \<open>What the client relies on\<close>

text \<open>
  The contract of the transport towards the client: a failed call leaves the connection closed,
  a successful dial or send leaves it open, and a successful send put the whole line on the wire.
\<close>

locale line_transport =
  fixes connected :: "'t \<Rightarrow> bool"
    and dial :: "'d \<Rightarrow> 't \<Rightarrow> bool \<times> 't"
    and send :: "'t \<Rightarrow> string \<Rightarrow> int list \<Rightarrow> (bool \<times> 't \<times> string \<times> int list) option"
    and recv :: "'t \<Rightarrow> string option list \<Rightarrow> (string option \<times> 't \<times> string option list) option"
  assumes dial_iff: "dial d t = (ok, t') \<Longrightarrow> connected t' = ok"
    and send_iff: "connected t \<Longrightarrow> send t line ns = Some (ok, t', wire, ns') \<Longrightarrow> connected t' = ok"
    and send_wire: "send t line ns = Some (True, t', wire, ns') \<Longrightarrow> wire = line @ [nl]"
    and send_closed: "\<not> connected t \<Longrightarrow> send t line ns = Some (False, t, [], ns)"
    and recv_fail: "recv t io = Some (None, t', io') \<Longrightarrow> \<not> connected t'"
    and recv_ok: "recv t io = Some (Some line, t', io') \<Longrightarrow> connected t \<and> connected t'"
begin

text \<open>Dialling and then sending a line: the connection is open exactly when both went well.\<close>

lemma dial_send:
  assumes "dial d t = (True, t1)" "send t1 line ns = Some (ok, t2, wire, ns')"
  shows "connected t2 = ok" "ok \<Longrightarrow> wire = line @ [nl]"
proof -
  have "connected t1" using dial_iff [OF assms(1)] by simp
  then show "connected t2 = ok" using assms(2) by (rule send_iff)
  show "ok \<Longrightarrow> wire = line @ [nl]" using assms(2) by (auto dest: send_wire)
qed

text \<open>A send never opens a connection.\<close>

lemma send_not_open:
  assumes "send t line ns = Some (ok, t', wire, ns')" "connected t'"
  shows "connected t"
proof (rule ccontr)
  assume "\<not> connected t"
  with send_closed [OF this, of line ns] assms show False by simp
qed

end

lemma t_close_closed [simp]: "\<not> t_connected (t_close t)"
  by (simp add: t_close_def t_connected_def)

lemma t_connect_iff: "t_connect d tls verify t = (ok, t') \<Longrightarrow> t_connected t' = ok"
  unfolding t_connect_def Let_def
  by (auto simp: t_connected_def t_close_def split: if_splits option.splits list.splits prod.splits)

lemma send_loop_spec:
  "send_loop t rest ns = Some (ok, t', wire, ns') \<Longrightarrow>
    (if ok then t' = t \<and> wire = rest else t' = t_close t)"
  by (induction t rest ns arbitrary: ok t' wire ns' rule: send_loop.induct)
    (auto split: if_splits option.splits)

lemma recv_loop_ready:
  "nl \<in> set (t_rxbuf t) \<Longrightarrow> recv_loop t io =
    Some (Some (strip_cr (takeWhile (\<lambda>c. c \<noteq> nl) (t_rxbuf t))),
          t\<lparr>t_rxbuf := tl (dropWhile (\<lambda>c. c \<noteq> nl) (t_rxbuf t))\<rparr>, io)"
  by (subst recv_loop.simps) simp

lemma recv_loop_more:
  assumes "nl \<notin> set (t_rxbuf t)"
  shows "recv_loop t [] = (if length (t_rxbuf t) > kMaxLine then Some (None, t_close t, []) else None)"
    and "recv_loop t (None # io) =
      Some (None, t_close t, if length (t_rxbuf t) > kMaxLine then None # io else io)"
    and "recv_loop t (Some chunk # io) =
      (if length (t_rxbuf t) > kMaxLine then Some (None, t_close t, Some chunk # io)
       else recv_loop (t\<lparr>t_rxbuf := t_rxbuf t @ chunk\<rparr>) io)"
  using assms by (subst recv_loop.simps; simp)+

lemma recv_loop_spec:
  "recv_loop t io = Some (line, t', io') \<Longrightarrow>
    (if line = None then \<not> t_connected t' else t_fd t' = t_fd t)"
proof (induction io arbitrary: t)
  case Nil
  then show ?case
    by (cases "nl \<in> set (t_rxbuf t)") (auto simp: recv_loop_ready recv_loop_more split: if_splits)
next
  case (Cons x io)
  show ?case
  proof (cases "nl \<in> set (t_rxbuf t)")
    case True
    with Cons.prems show ?thesis by (auto simp: recv_loop_ready)
  next
    case False
    with Cons.prems Cons.IH [of "t\<lparr>t_rxbuf := t_rxbuf t @ the x\<rparr>"] show ?thesis
      by (cases x) (auto simp: recv_loop_more split: if_splits)
  qed
qed

lemma send_line_spec:
  assumes "send_line t line ns = Some (ok, t', wire, ns')"
  shows "ok \<Longrightarrow> t_connected t \<and> t' = t \<and> wire = line @ [nl]"
    and "\<not> ok \<Longrightarrow> t' = t \<or> t' = t_close t" and "\<not> ok \<Longrightarrow> \<not> t_connected t'"
  using assms send_loop_spec [of t "line @ [nl]" ns ok t' wire ns']
  by (simp_all add: send_line_def t_connected_def split: if_splits) (auto simp: t_close_def)

lemma recv_line_spec:
  assumes "recv_line t io = Some (line, t', io')"
  shows "line = None \<Longrightarrow> \<not> t_connected t'"
    and "line \<noteq> None \<Longrightarrow> t_connected t \<and> t_fd t' = t_fd t"
  using assms recv_loop_spec [of t io line t' io']
  by (auto simp: recv_line_def t_connected_def split: if_splits)

interpretation wire: line_transport t_connected "\<lambda>d. t_connect d tls False" send_line recv_line for tls
proof
  show "t_connect d tls False t = (ok, t') \<Longrightarrow> t_connected t' = ok" for d t ok t'
    by (rule t_connect_iff)
  show "t_connected t \<Longrightarrow> send_line t line ns = Some (ok, t', wire, ns') \<Longrightarrow> t_connected t' = ok"
    for t line ns ok t' wire ns'
    using send_line_spec(1,3) [of t line ns ok t' wire ns'] by (cases ok) simp_all
  show "send_line t line ns = Some (True, t', wire, ns') \<Longrightarrow> wire = line @ [nl]" for t line ns t' wire ns'
    using send_line_spec(1) [of t line ns True t' wire ns'] by simp
  show "\<not> t_connected t \<Longrightarrow> send_line t line ns = Some (False, t, [], ns)" for t line ns
    by (simp add: send_line_def t_connected_def)
  show "recv_line t io = Some (None, t', io') \<Longrightarrow> \<not> t_connected t'" for t io t' io'
    using recv_line_spec(1) [of t io None t' io'] by simp
  show "recv_line t io = Some (Some line, t', io') \<Longrightarrow> t_connected t \<and> t_connected t'" for t io line t' io'
    using recv_line_spec(2) [of t io "Some line" t' io'] by (simp add: t_connected_def)
qed

section \<open>Framing\<close>

lemma recv_loop_first:
  assumes "t_rxbuf t = l @ nl # rest" "nl \<notin> set l"
  shows "recv_loop t io = Some (Some (strip_cr l), t\<lparr>t_rxbuf := rest\<rparr>, io)"
proof -
  have "takeWhile (\<lambda>c. c \<noteq> nl) (l @ nl # rest) = l"
    using assms(2) by (subst takeWhile_append2) auto
  moreover have "dropWhile (\<lambda>c. c \<noteq> nl) (l @ nl # rest) = nl # rest"
    using assms(2) by (subst dropWhile_append2) auto
  ultimately show ?thesis using assms by (subst recv_loop_ready) simp_all
qed

lemma first_line_unique:
  assumes "p @ nl # q = l @ nl # rest" "nl \<notin> set p" "nl \<notin> set l"
  shows "p = l" "q = rest"
proof -
  have take: "takeWhile (\<lambda>c. c \<noteq> nl) (x @ nl # y) = x" if "nl \<notin> set x" for x y
    using that by (subst takeWhile_append2) auto
  from take [OF assms(2), of q] take [OF assms(3), of rest] assms(1) show "p = l" by simp
  with assms(1) show "q = rest" by simp
qed

lemma recv_loop_frame:
  assumes "t_rxbuf t @ concat chunks = l @ nl # rest" "nl \<notin> set l" "length l \<le> kMaxLine"
  shows "\<exists>chunks' buf'. recv_loop t (map Some chunks) =
      Some (Some (strip_cr l), t\<lparr>t_rxbuf := buf'\<rparr>, map Some chunks') \<and> buf' @ concat chunks' = rest"
  using assms
proof (induction chunks arbitrary: t)
  case Nil
  then have "t_rxbuf t = l @ nl # rest" by simp
  from recv_loop_first [OF this Nil.prems(2), of "[]"] show ?case
    by (intro exI [of _ "[]"] exI [of _ rest]) simp
next
  case (Cons chunk chunks)
  show ?case
  proof (cases "nl \<in> set (t_rxbuf t)")
    case True
    then obtain p q where pq: "t_rxbuf t = p @ nl # q" "nl \<notin> set p" by (meson split_list_first)
    have "p @ nl # (q @ concat (chunk # chunks)) = l @ nl # rest" using Cons.prems(1) pq(1) by simp
    from first_line_unique [OF this pq(2) Cons.prems(2)]
    have "p = l" "q @ concat (chunk # chunks) = rest" .
    with recv_loop_first [OF pq, of "map Some (chunk # chunks)"] show ?thesis
      by (intro exI [of _ "chunk # chunks"] exI [of _ q]) simp
  next
    case False
    have "length (t_rxbuf t) \<le> length l"
    proof (rule ccontr)
      assume "\<not> length (t_rxbuf t) \<le> length l"
      then have lt: "length l < length (t_rxbuf t)" by simp
      then have "(t_rxbuf t @ concat (chunk # chunks)) ! length l = t_rxbuf t ! length l"
        by (simp only: nth_append if_True)
      moreover have "(l @ nl # rest) ! length l = nl" by (rule nth_append_length)
      ultimately have "t_rxbuf t ! length l = nl" using Cons.prems(1) by simp
      with lt False show False by (metis nth_mem)
    qed
    with Cons.prems(3) have short: "\<not> length (t_rxbuf t) > kMaxLine" by simp
    let ?t = "t\<lparr>t_rxbuf := t_rxbuf t @ chunk\<rparr>"
    have "t_rxbuf ?t @ concat chunks = l @ nl # rest" using Cons.prems(1) by simp
    from Cons.IH [OF this Cons.prems(2,3)] obtain chunks' buf' where
      "recv_loop ?t (map Some chunks) = Some (Some (strip_cr l), ?t\<lparr>t_rxbuf := buf'\<rparr>, map Some chunks')"
      "buf' @ concat chunks' = rest"
      by blast
    with recv_loop_more(3) [OF False, of chunk "map Some chunks"] short show ?thesis
      by (intro exI [of _ chunks'] exI [of _ buf']) simp
  qed
qed

text \<open>Reading lines one after another, as the loop of \<open>run\<close> does.\<close>

fun recv_many :: "nat \<Rightarrow> transport \<Rightarrow> string option list \<Rightarrow> (string list \<times> transport \<times> string option list) option" where
  "recv_many 0 t io = Some ([], t, io)"
| "recv_many (Suc n) t io =
    (case recv_line t io of
       Some (Some line, t', io') \<Rightarrow>
         (case recv_many n t' io' of Some (ls, r) \<Rightarrow> Some (line # ls, r) | None \<Rightarrow> None)
     | _ \<Rightarrow> None)"

lemma recv_many_frame:
  assumes "0 \<le> t_fd t" "t_rxbuf t @ concat chunks = concat (map (\<lambda>l. l @ [nl]) ls)"
    and "\<And>l. l \<in> set ls \<Longrightarrow> nl \<notin> set l \<and> length l \<le> kMaxLine"
  shows "\<exists>chunks'. recv_many (length ls) t (map Some chunks) =
      Some (map strip_cr ls, t\<lparr>t_rxbuf := []\<rparr>, map Some chunks') \<and> concat chunks' = []"
  using assms
proof (induction ls arbitrary: t chunks)
  case Nil
  then show ?case by (intro exI [of _ chunks]) simp
next
  case (Cons l ls)
  have "t_rxbuf t @ concat chunks = l @ nl # concat (map (\<lambda>l. l @ [nl]) ls)"
    using Cons.prems(2) by simp
  from recv_loop_frame [OF this] Cons.prems(3) obtain chunks1 buf where
    r: "recv_loop t (map Some chunks) = Some (Some (strip_cr l), t\<lparr>t_rxbuf := buf\<rparr>, map Some chunks1)"
    "buf @ concat chunks1 = concat (map (\<lambda>l. l @ [nl]) ls)" by auto
  have "\<exists>chunks'. recv_many (length ls) (t\<lparr>t_rxbuf := buf\<rparr>) (map Some chunks1) =
      Some (map strip_cr ls, t\<lparr>t_rxbuf := buf\<rparr>\<lparr>t_rxbuf := []\<rparr>, map Some chunks') \<and> concat chunks' = []"
    using Cons.prems(1,3) r(2) by (intro Cons.IH) simp_all
  then obtain chunks' where "recv_many (length ls) (t\<lparr>t_rxbuf := buf\<rparr>) (map Some chunks1) =
      Some (map strip_cr ls, t\<lparr>t_rxbuf := []\<rparr>, map Some chunks')" "concat chunks' = []" by auto
  with r(1) Cons.prems(1) show ?case
    by (intro exI [of _ chunks']) (simp add: recv_line_def)
qed

section \<open>Runs of the client\<close>

definition selection :: "client \<Rightarrow> string \<times> u16 \<times> bool \<times> string \<times> nat" where
  "selection c = (c_host c, c_port c, c_tls c, c_api_key c, c_failover_index c)"

lemma client_send_frame:
  assumes "client_send w ns c = Some (c', evs)"
  obtains t b where "c' = c\<lparr>c_transport := t\<rparr>" "evs = [Wire b]"
    "t_connected t \<Longrightarrow> t_connected (c_transport c)"
proof -
  obtain ok t b ns' where s: "send_line (c_transport c) w ns = Some (ok, t, b, ns')"
    and c': "c' = c\<lparr>c_transport := t\<rparr>" "evs = [Wire b]"
    using assms by (auto simp: client_send_def split: option.splits prod.splits)
  from wire.send_not_open [OF s] that [OF c'] show thesis by blast
qed

lemma reconnect_frame:
  assumes "reconnect_and_login dump d ns c = Some (ok, c', evs)"
  obtains t where "c' = c\<lparr>c_transport := t\<rparr>" "t_connected t = ok" "\<And>a b. OnFailover a b \<notin> set evs"
proof -
  obtain ok1 t1 where d: "t_connect d (c_tls c) False (c_transport c) = (ok1, t1)" by fastforce
  show thesis
  proof (cases ok1)
    case False
    with assms d have e: "ok = False" "c' = c\<lparr>c_transport := t1\<rparr>" "evs = []"
      by (auto simp: reconnect_and_login_def)
    moreover have "t_connected t1 = ok1" using d by (rule wire.dial_iff)
    ultimately show thesis using that False by auto
  next
    case True
    obtain c2 where l: "client_login dump (c_api_key c) ns (c\<lparr>c_transport := t1\<rparr>) = Some (c2, evs)"
      and ok: "ok = t_connected (c_transport c2)" "c' = c2"
      using assms d True by (auto simp: reconnect_and_login_def Let_def split: option.splits)
    from l obtain t b where "c2 = c\<lparr>c_transport := t1\<rparr>\<lparr>c_api_key := c_api_key c\<rparr>\<lparr>c_transport := t\<rparr>"
      "evs = [Wire b]"
      unfolding client_login_def by (rule client_send_frame) simp
    then show thesis using ok that [of t] by simp
  qed
qed

lemma advance_pool_frame:
  assumes "advance_pool c = (c', evs)"
  shows "c_redial_failures c' = c_redial_failures c" "c_transport c' = c_transport c"
    "c_failover c' = c_failover c" "c_nonceprefix c' = c_nonceprefix c"
  using assms by (auto simp: advance_pool_def Let_def split: if_splits)

lemma handle_line_frame:
  assumes "handle_line pj line c = (c', evs)"
  shows "selection c' = selection c" "c_transport c' = c_transport c"
    "c_redial_failures c' = c_redial_failures c" "c_failover c' = c_failover c"
    "\<And>a b. OnFailover a b \<notin> set evs" "c_nonceprefix c \<noteq> '''' \<Longrightarrow> c_nonceprefix c' \<noteq> ''''"
  using assms
  by (auto simp: handle_line_def selection_def split: option.splits msg_method.splits if_splits)

text \<open>What one turn does, by its outcome.\<close>

lemma turn_failed:
  assumes "run_turn pj dump io c = Some (RedialFailed, c', evs)"
  shows "\<not> t_connected (c_transport c)" "\<not> t_connected (c_transport c')" "c_failover c' = c_failover c"
    and "c_nonceprefix c' = c_nonceprefix c"
    and "c_redial_failures c < 2 \<Longrightarrow> c_redial_failures c' = c_redial_failures c + 1 \<and>
      selection c' = selection c \<and> (\<forall>a b. OnFailover a b \<notin> set evs)"
    and "c_redial_failures c = 2 \<Longrightarrow> c_redial_failures c' = 0 \<and>
      selection c' = selection (fst (advance_pool c)) \<and>
      ((\<exists>a b. OnFailover a b \<in> set evs) \<longleftrightarrow> 2 \<le> length (c_failover c)) \<and>
      (\<forall>a b. OnFailover a b \<in> set evs \<longrightarrow> a = current_pool c \<and> b = current_pool c')"
proof -
  have nc: "\<not> t_connected (c_transport c)"
    using assms by (auto simp: run_turn_def Let_def split: if_splits option.splits prod.splits)
  then show "\<not> t_connected (c_transport c)" .
  obtain c1 evs1 where r: "reconnect_and_login dump (io_dial io) (io_writes io) c = Some (False, c1, evs1)"
    using assms nc by (auto simp: run_turn_def Let_def split: if_splits option.splits prod.splits)
  then obtain t where t: "c1 = c\<lparr>c_transport := t\<rparr>" "\<not> t_connected t"
    and e1: "\<And>a b. OnFailover a b \<notin> set evs1"
    by (rule reconnect_frame) simp
  let ?c = "c1\<lparr>c_redial_failures := c_redial_failures c + 1\<rparr>"
  obtain c2 evs2 where
    adv: "(if c_redial_failures c + 1 \<ge> 3 then advance_pool (?c\<lparr>c_redial_failures := 0\<rparr>) else (?c, [])) =
      (c2, evs2)" by fastforce
  have c': "c' = c2" "evs = evs1 @ evs2 @ [Sleep 1000]"
    using assms nc r adv t(1) by (auto simp: run_turn_def kRedialsBeforeFailover_def split: if_splits)
  show "\<not> t_connected (c_transport c')" "c_failover c' = c_failover c" "c_nonceprefix c' = c_nonceprefix c"
    using adv c' t by (auto split: if_splits dest: advance_pool_frame)
  show "c_redial_failures c' = c_redial_failures c + 1 \<and>
      selection c' = selection c \<and> (\<forall>a b. OnFailover a b \<notin> set evs)" if "c_redial_failures c < 2"
    using that adv c' t e1 by (auto simp: selection_def)
  show "c_redial_failures c' = 0 \<and> selection c' = selection (fst (advance_pool c)) \<and>
      ((\<exists>a b. OnFailover a b \<in> set evs) \<longleftrightarrow> 2 \<le> length (c_failover c)) \<and>
      (\<forall>a b. OnFailover a b \<in> set evs \<longrightarrow> a = current_pool c \<and> b = current_pool c')" if "c_redial_failures c = 2"
    using that adv c' t e1
    by (auto simp: advance_pool_def selection_def Let_def current_pool_def split: if_splits)
qed

lemma turn_other:
  assumes "run_turn pj dump io c = Some (kind, c', evs)" "kind \<noteq> RedialFailed"
  shows "selection c' = selection c" "c_failover c' = c_failover c"
    and "\<And>a b. OnFailover a b \<notin> set evs"
    and "c_nonceprefix c \<noteq> '''' \<Longrightarrow> c_nonceprefix c' \<noteq> ''''"
    and "c_redial_failures c' = (if kind = Redialed then 0 else c_redial_failures c)"
    and "kind \<noteq> Redialed \<Longrightarrow> t_connected (c_transport c)"
proof -
  have "selection c' = selection c \<and> c_failover c' = c_failover c \<and> (\<forall>a b. OnFailover a b \<notin> set evs) \<and>
      (c_nonceprefix c \<noteq> '''' \<longrightarrow> c_nonceprefix c' \<noteq> '''') \<and>
      c_redial_failures c' = (if kind = Redialed then 0 else c_redial_failures c) \<and>
      (kind \<noteq> Redialed \<longrightarrow> t_connected (c_transport c))"
  proof (cases "t_connected (c_transport c)")
    case False
    then obtain ok c1 evs1 where
      r: "reconnect_and_login dump (io_dial io) (io_writes io) c = Some (ok, c1, evs1)"
      using assms(1) by (auto simp: run_turn_def split: option.splits)
    moreover obtain t where "c1 = c\<lparr>c_transport := t\<rparr>" "\<And>a b. OnFailover a b \<notin> set evs1"
      using r by (rule reconnect_frame) blast
    ultimately show ?thesis using assms False
      by (auto simp: run_turn_def Let_def selection_def split: if_splits prod.splits)
  next
    case True
    then obtain line t io' where r: "recv_line (c_transport c) (io_reads io) = Some (line, t, io')"
      using assms(1) by (auto simp: run_turn_def split: option.splits)
    show ?thesis
    proof (cases line)
      case None
      with assms(1) True r show ?thesis by (auto simp: run_turn_def selection_def)
    next
      case (Some l)
      obtain c2 evs2 where h: "handle_line pj l (c\<lparr>c_transport := t\<rparr>) = (c2, evs2)" by fastforce
      with assms(1) True r Some have "c' = c2" "evs = evs2" "kind = GotLine" by (auto simp: run_turn_def)
      with handle_line_frame [OF h] True show ?thesis by (simp add: selection_def)
    qed
  qed
  then show "selection c' = selection c" "c_failover c' = c_failover c"
    "\<And>a b. OnFailover a b \<notin> set evs"
    "c_nonceprefix c \<noteq> '''' \<Longrightarrow> c_nonceprefix c' \<noteq> ''''"
    "c_redial_failures c' = (if kind = Redialed then 0 else c_redial_failures c)"
    "kind \<noteq> Redialed \<Longrightarrow> t_connected (c_transport c)" by blast+
qed

text \<open>The tally is the number of failed redials since the last other turn, modulo three.\<close>

definition failed_tail :: "(turn_kind \<times> client_event list) list \<Rightarrow> nat" where
  "failed_tail tr = length (takeWhile (\<lambda>(k, _). k = RedialFailed) tr)"

lemma run_tally:
  assumes "client_run pj dump c0 tr c" "c_redial_failures c0 = 0"
  shows "c_redial_failures c = failed_tail tr mod 3 \<and>
    (t_connected (c_transport c) \<longrightarrow> c_redial_failures c = 0) \<and> c_failover c = c_failover c0"
  using assms
proof (induction rule: client_run.induct)
  case run_start
  then show ?case by (simp add: failed_tail_def)
next
  case (run_step tr c io kind c' evs)
  then have IH: "c_redial_failures c = failed_tail tr mod 3"
    "t_connected (c_transport c) \<Longrightarrow> c_redial_failures c = 0" "c_failover c = c_failover c0" by auto
  show ?case
  proof (cases "kind = RedialFailed")
    case True
    note T = turn_failed [OF run_step.hyps(2) [unfolded True]]
    have "failed_tail tr mod 3 = 2 \<or> failed_tail tr mod 3 < 2" by linarith
    then have "c_redial_failures c' = Suc (failed_tail tr) mod 3"
    proof
      assume "failed_tail tr mod 3 = 2"
      then show ?thesis using T(6) IH(1) by (simp add: mod_Suc)
    next
      assume "failed_tail tr mod 3 < 2"
      then show ?thesis using T(5) IH(1) by (simp add: mod_Suc)
    qed
    then show ?thesis using T(2,3) IH(3) True by (simp add: failed_tail_def)
  next
    case False
    note T = turn_other [OF run_step.hyps(2) False]
    have "c_redial_failures c' = 0" using T(5,6) IH(2) by (cases "kind = Redialed") auto
    then show ?thesis using T(2) IH(3) False by (simp add: failed_tail_def)
  qed
next
  case (run_submit tr c s ns c' evs)
  from run_submit.hyps(2) obtain t b where "c' = c\<lparr>c_transport := t\<rparr>"
    "t_connected t \<Longrightarrow> t_connected (c_transport c)"
    unfolding client_submit_def by (rule client_send_frame) blast
  with run_submit show ?case by auto
qed

text \<open>Bounds of the receive buffer.\<close>

definition chunk_ok :: "string option \<Rightarrow> bool" where
  "chunk_ok x = (case x of None \<Rightarrow> True | Some s \<Rightarrow> length s \<le> 4096)"

lemma recv_ready_bound:
  assumes mem: "nl \<in> set (t_rxbuf t)" and len: "length (t_rxbuf t) \<le> kMaxLine + 4096"
    and r: "recv_loop t io = Some (line, t', io')"
  shows "length (t_rxbuf t') \<le> kMaxLine + 4096 \<and>
    (\<forall>l. line = Some l \<longrightarrow> length l < kMaxLine + 4096 \<and> nl \<notin> set l)"
proof -
  obtain p q where pq: "t_rxbuf t = p @ nl # q" "nl \<notin> set p" using mem by (meson split_list_first)
  have "nl \<notin> set (strip_cr p)" using pq(2) by (auto simp: strip_cr_def dest: in_set_butlastD)
  moreover have "length (strip_cr p) \<le> length p" by (simp add: strip_cr_def)
  ultimately show ?thesis using len r recv_loop_first [OF pq, of io] pq(1) by auto
qed

lemma recv_loop_bound:
  assumes "length (t_rxbuf t) \<le> kMaxLine + 4096" "list_all chunk_ok io"
    and "recv_loop t io = Some (line, t', io')"
  shows "length (t_rxbuf t') \<le> kMaxLine + 4096 \<and>
    (\<forall>l. line = Some l \<longrightarrow> length l < kMaxLine + 4096 \<and> nl \<notin> set l)"
  using assms
proof (induction io arbitrary: t)
  case Nil
  then show ?case
    using recv_ready_bound [of t "[]"]
    by (cases "nl \<in> set (t_rxbuf t)") (auto simp: recv_loop_more t_close_def split: if_splits)
next
  case (Cons x io)
  show ?case
  proof (cases "nl \<in> set (t_rxbuf t)")
    case True
    then show ?thesis using Cons.prems(1,3) by (rule recv_ready_bound)
  next
    case False
    then show ?thesis
      using Cons.prems Cons.IH [of "t\<lparr>t_rxbuf := t_rxbuf t @ the x\<rparr>"]
      by (cases x) (auto simp: recv_loop_more t_close_def chunk_ok_def split: if_splits)
  qed
qed

lemma advance_index:
  assumes "2 \<le> length (c_failover c)"
  shows "c_failover_index (fst (advance_pool c)) = (c_failover_index c + 1) mod length (c_failover c)"
    and "c_failover (fst (advance_pool c)) = c_failover c"
    and "c_host (fst (advance_pool c)) = e_host (c_failover c ! ((c_failover_index c + 1) mod length (c_failover c)))"
    and "c_port (fst (advance_pool c)) = e_port (c_failover c ! ((c_failover_index c + 1) mod length (c_failover c)))"
    and "c_tls (fst (advance_pool c)) = e_tls (c_failover c ! ((c_failover_index c + 1) mod length (c_failover c)))"
    and "e_api_key (c_failover c ! ((c_failover_index c + 1) mod length (c_failover c))) \<noteq> '''' \<Longrightarrow>
      c_api_key (fst (advance_pool c)) = e_api_key (c_failover c ! ((c_failover_index c + 1) mod length (c_failover c)))"
  using assms by (simp_all add: advance_pool_def Let_def)

lemma advance_many:
  assumes "2 \<le> length (c_failover c)" "c_failover_index c < length (c_failover c)"
  shows "c_failover_index (((\<lambda>c. fst (advance_pool c)) ^^ n) c) = (c_failover_index c + n) mod length (c_failover c) \<and>
    c_failover (((\<lambda>c. fst (advance_pool c)) ^^ n) c) = c_failover c"
proof (induction n)
  case 0
  then show ?case using assms by simp
next
  case (Suc n)
  then show ?case using assms(1) by (simp add: advance_index mod_Suc_eq)
qed

section \<open>Properties\<close>

text \<open>
  C3: Framing: when the bytes the socket delivers, cut into chunks in any way, are lines each
  ended by a newline and none longer than 64 KiB, successive calls of \<open>recv_line\<close> return exactly
  these lines in order, without their final carriage return, and leave nothing behind.
\<close>
theorem lines_survive_chunking:
  assumes "t_connected t" "t_rxbuf t @ concat chunks = concat (map (\<lambda>l. l @ [CHR 0x0A]) ls)"
    and "\<forall>l \<in> set ls. CHR 0x0A \<notin> set l \<and> length l \<le> 65536"
  shows "\<exists>chunks'. recv_many (length ls) t (map Some chunks) =
      Some (map strip_cr ls, t\<lparr>t_rxbuf := []\<rparr>, map Some chunks') \<and> concat chunks' = []"
  using assms by (intro recv_many_frame) (auto simp: t_connected_def kMaxLine_def)

theorem lines_survive_chunking_witness:
  "\<exists>chunks'. recv_many (length [''ab'', ''c'' @ [CHR 0x0D]])
      (transport0\<lparr>t_fd := 7, t_rxbuf := ''a''\<rparr>) (map Some [''b'' @ [CHR 0x0A] @ ''c'', [CHR 0x0D, CHR 0x0A]]) =
      Some (map strip_cr [''ab'', ''c'' @ [CHR 0x0D]],
        (transport0\<lparr>t_fd := 7, t_rxbuf := ''a''\<rparr>)\<lparr>t_rxbuf := []\<rparr>, map Some chunks') \<and> concat chunks' = []"
  by (rule lines_survive_chunking) (simp_all add: t_connected_def transport0_def)

text \<open>
  With reads of at most 4096 bytes the receive buffer never grows beyond the 64 KiB line cap
  and one read, whatever the peer sends, and a returned line is shorter than that and free of
  newlines.
\<close>
theorem receive_buffer_bounded:
  assumes "length (t_rxbuf t) \<le> kMaxLine + 4096" "list_all chunk_ok io"
    and "recv_line t io = Some (line, t', io')"
  shows "length (t_rxbuf t') \<le> kMaxLine + 4096 \<and>
    (\<forall>l. line = Some l \<longrightarrow> length l < kMaxLine + 4096 \<and> CHR 0x0A \<notin> set l)"
  using assms recv_loop_bound [of t io line t' io'] by (auto simp: recv_line_def split: if_splits)

theorem receive_buffer_bounded_witness:
  "length (t_rxbuf (transport0\<lparr>t_fd := 7, t_rxbuf := ''c''\<rparr>)) \<le> kMaxLine + 4096"
  using receive_buffer_bounded [of "transport0\<lparr>t_fd := 7\<rparr>" "[Some (''ab'' @ [CHR 0x0A] @ ''c'')]"
      "Some ''ab''" "transport0\<lparr>t_fd := 7, t_rxbuf := ''c''\<rparr>" "[]"]
    recv_loop_more(3) [of "transport0\<lparr>t_fd := 7\<rparr>" "''ab'' @ [CHR 0x0A] @ ''c''" "[]"]
    recv_loop_first [of "transport0\<lparr>t_fd := 7, t_rxbuf := ''ab'' @ [CHR 0x0A] @ ''c''\<rparr>" "''ab''" "''c''" "[]"]
  by (simp add: recv_line_def transport0_def kMaxLine_def chunk_ok_def strip_cr_def)

text \<open>The entry after the current one, around the list, as it is taken over: a pool without a credential of its
  own keeps the one in use.\<close>

definition next_pool :: "client \<Rightarrow> string \<times> u16 \<times> bool \<times> string \<times> nat" where
  "next_pool c =
    (let i = (c_failover_index c + 1) mod length (c_failover c); e = c_failover c ! i
     in (e_host e, e_port e, e_tls e, if e_api_key e = '''' then c_api_key c else e_api_key e, i))"

lemma advance_next: "2 \<le> length (c_failover c) \<Longrightarrow> selection (fst (advance_pool c)) = next_pool c"
  by (simp add: advance_pool_def selection_def next_pool_def Let_def)

text \<open>
  C11: In any run of the client, with submissions from other threads anywhere in between, the
  host, the port, the transport security, the credential and the position in the list change only on a
  third failed redial in a row and only with two pools or more; and on that turn they always become
  those of the entry after the current one, around the list (a pool without a credential keeps the
  one in use), and the move is announced with the pool that was left and the one that is tried next.
\<close>
theorem failover_only_after_three:
  assumes "client_run pj dump c0 tr c" "c_redial_failures c0 = 0"
    and "run_turn pj dump io c = Some (kind, c', evs)"
  shows "(selection c' \<noteq> selection c \<or> (\<exists>a b. OnFailover a b \<in> set evs) \<longrightarrow>
        kind = RedialFailed \<and> failed_tail ((kind, evs) # tr) mod 3 = 0 \<and> 2 \<le> length (c_failover c0)) \<and>
    (kind = RedialFailed \<and> failed_tail ((kind, evs) # tr) mod 3 = 0 \<and> 2 \<le> length (c_failover c0) \<longrightarrow>
        selection c' = next_pool c \<and> OnFailover (current_pool c) (current_pool c') \<in> set evs)"
proof -
  from run_tally [OF assms(1,2)] have tally: "c_redial_failures c = failed_tail tr mod 3"
    "c_failover c = c_failover c0" by auto
  show ?thesis
  proof (cases "kind = RedialFailed")
    case False
    then show ?thesis using turn_other [OF assms(3) False] by auto
  next
    case True
    note T = turn_failed [OF assms(3) [unfolded True]]
    have tail: "failed_tail ((kind, evs) # tr) mod 3 = 0 \<longleftrightarrow> failed_tail tr mod 3 = 2"
      using True by (simp add: failed_tail_def mod_Suc)
    have stay: "selection (fst (advance_pool c)) = selection c" if "\<not> 2 \<le> length (c_failover c)"
      using that by (simp add: advance_pool_def)
    have "failed_tail tr mod 3 = 2 \<or> failed_tail tr mod 3 < 2" by linarith
    then show ?thesis unfolding tail
    proof
      assume two: "failed_tail tr mod 3 = 2"
      with T(6) tally have m: "selection c' = selection (fst (advance_pool c))"
        "(\<exists>a b. OnFailover a b \<in> set evs) \<longleftrightarrow> 2 \<le> length (c_failover c0)"
        "\<And>a b. OnFailover a b \<in> set evs \<Longrightarrow> a = current_pool c \<and> b = current_pool c'" by auto
      have "selection c' = next_pool c" if "2 \<le> length (c_failover c0)"
        using that m(1) advance_next [of c] tally(2) by simp
      with two True m stay tally(2) show "(selection c' \<noteq> selection c \<or> (\<exists>a b. OnFailover a b \<in> set evs) \<longrightarrow>
          kind = RedialFailed \<and> failed_tail tr mod 3 = 2 \<and> 2 \<le> length (c_failover c0)) \<and>
        (kind = RedialFailed \<and> failed_tail tr mod 3 = 2 \<and> 2 \<le> length (c_failover c0) \<longrightarrow>
          selection c' = next_pool c \<and> OnFailover (current_pool c) (current_pool c') \<in> set evs)" by metis
    next
      assume "failed_tail tr mod 3 < 2"
      with T(5) tally show "(selection c' \<noteq> selection c \<or> (\<exists>a b. OnFailover a b \<in> set evs) \<longrightarrow>
          kind = RedialFailed \<and> failed_tail tr mod 3 = 2 \<and> 2 \<le> length (c_failover c0)) \<and>
        (kind = RedialFailed \<and> failed_tail tr mod 3 = 2 \<and> 2 \<le> length (c_failover c0) \<longrightarrow>
          selection c' = next_pool c \<and> OnFailover (current_pool c) (current_pool c') \<in> set evs)" by auto
    qed
  qed
qed

definition dead_io :: turn_io where
  "dead_io = \<lparr>io_dial = \<lparr>d_startup = False, d_addrs = None, d_ctx_new = False, d_ssl_new = False,
     d_set_host = False, d_ssl_connect = False\<rparr>, io_writes = [], io_reads = []\<rparr>"

definition near_failover :: client where
  "near_failover = client0\<lparr>c_host := ''a'', c_port := 1, c_api_key := ''k'', c_failover :=
     [\<lparr>e_host = ''a'', e_port = 1, e_tls = False, e_api_key = ''k''\<rparr>, \<lparr>e_host = ''b'', e_port = 2, e_tls = True, e_api_key = ''''\<rparr>]\<rparr>"

lemma dead_turn:
  assumes "c_redial_failures c < 2" "\<not> t_connected (c_transport c)" "c_transport c = transport0"
  shows "run_turn (\<lambda>_. None) (\<lambda>_. ''{}'') dead_io c =
    Some (RedialFailed, c\<lparr>c_redial_failures := c_redial_failures c + 1\<rparr>, [Sleep 1000])"
  using assms by (simp add: run_turn_def reconnect_and_login_def t_connect_def dead_io_def transport0_def
    t_connected_def t_close_def kRedialsBeforeFailover_def)

theorem failover_only_after_three_witness:
  "\<exists>c' evs. run_turn (\<lambda>_. None) (\<lambda>_. ''{}'') dead_io (near_failover\<lparr>c_redial_failures := 2\<rparr>) = Some (RedialFailed, c', evs) \<and>
    selection c' = (''b'', 2, True, ''k'', 1) \<and> OnFailover ''a:1'' (current_pool c') \<in> set evs"
proof -
  let ?c = "\<lambda>n. near_failover\<lparr>c_redial_failures := n\<rparr>"
  let ?run = "client_run (\<lambda>_. None) (\<lambda>_. ''{}'') near_failover"
  have z: "?c 0 = near_failover" by (simp add: near_failover_def client0_def)
  have t: "c_transport (?c n) = transport0" "\<not> t_connected (c_transport (?c n))" for n
    by (simp_all add: near_failover_def client0_def transport0_def t_connected_def)
  have s: "run_turn (\<lambda>_. None) (\<lambda>_. ''{}'') dead_io (?c n) = Some (RedialFailed, ?c (n + 1), [Sleep 1000])" if "n < 2" for n
    using dead_turn [of "?c n"] t [of n] that by simp
  have "?run [] (?c 0)" unfolding z by (rule client_run.run_start)
  then have "?run [(RedialFailed, [Sleep 1000])] (?c 1)" using s [of 0] by (auto intro: client_run.run_step)
  then have r: "?run [(RedialFailed, [Sleep 1000]), (RedialFailed, [Sleep 1000])] (?c 2)"
    using s [of 1] by (auto simp: numeral_2_eq_2 intro: client_run.run_step)
  obtain c' evs where l: "run_turn (\<lambda>_. None) (\<lambda>_. ''{}'') dead_io (?c 2) = Some (RedialFailed, c', evs)"
    using t [of 2] by (simp add: run_turn_def reconnect_and_login_def t_connect_def dead_io_def transport0_def
      t_connected_def t_close_def kRedialsBeforeFailover_def advance_pool_def near_failover_def client0_def Let_def)
  have "c_redial_failures near_failover = 0" by (simp add: near_failover_def client0_def)
  from failover_only_after_three [OF r this l]
  have "selection c' = next_pool (?c 2)" "OnFailover (current_pool (?c 2)) (current_pool c') \<in> set evs"
    by (simp_all add: failed_tail_def near_failover_def)
  moreover have "next_pool (?c 2) = (''b'', 2, True, ''k'', 1)"
    by (simp add: next_pool_def near_failover_def client0_def Let_def)
  moreover have "current_pool (?c 2) = ''a:1''" by (simp add: current_pool_def near_failover_def) code_simp
  ultimately show ?thesis using l by auto
qed

text \<open>
  The rotation is cyclic: with two pools or more, \<open>n\<close> moves lead \<open>n\<close> places further around
  the list, and after a move the client points at the endpoint of its position and logs in with
  that endpoint's own credential when it has one.
\<close>
theorem failover_rotates:
  fixes n :: nat and c :: client
  assumes "2 \<le> length (c_failover c)" "c_failover_index c < length (c_failover c)"
  defines "c' \<equiv> ((\<lambda>c. fst (advance_pool c)) ^^ Suc n) c"
  defines "e \<equiv> c_failover c ! ((c_failover_index c + Suc n) mod length (c_failover c))"
  shows "c_failover_index c' = (c_failover_index c + Suc n) mod length (c_failover c) \<and>
    c_host c' = e_host e \<and> c_port c' = e_port e \<and> c_tls c' = e_tls e \<and>
    (e_api_key e \<noteq> '''' \<longrightarrow> c_api_key c' = e_api_key e)"
proof -
  define d where "d = ((\<lambda>c. fst (advance_pool c)) ^^ n) c"
  have d: "c_failover_index d = (c_failover_index c + n) mod length (c_failover c)" "c_failover d = c_failover c"
    using advance_many [OF assms(1,2), of n] by (simp_all add: d_def)
  have c': "c' = fst (advance_pool d)" by (simp add: c'_def d_def)
  have i: "(c_failover_index d + 1) mod length (c_failover d) =
      (c_failover_index c + Suc n) mod length (c_failover c)"
    by (simp add: d mod_Suc_eq)
  have "2 \<le> length (c_failover d)" using assms(1) by (simp only: d(2))
  from advance_index [OF this] show ?thesis unfolding i by (simp add: c' e_def d(2))
qed

definition two_pools :: "endpoint list" where
  "two_pools = [\<lparr>e_host = ''a'', e_port = 1, e_tls = True, e_api_key = ''ka''\<rparr>,
     \<lparr>e_host = ''b'', e_port = 2, e_tls = True, e_api_key = ''kb''\<rparr>]"

theorem failover_rotates_witness:
  "c_host (((\<lambda>c. fst (advance_pool c)) ^^ 2) (set_failover_pools two_pools client0)) = ''a'' \<and>
   c_api_key (((\<lambda>c. fst (advance_pool c)) ^^ 2) (set_failover_pools two_pools client0)) = ''ka''"
  using failover_rotates [of "set_failover_pools two_pools client0" 1]
  by (simp add: set_failover_pools_def two_pools_def numeral_2_eq_2)

text \<open>
  C34: A line is written whole or not at all as far as the client can tell: when \<open>send_line\<close>
  reports success the wire received the line and its newline and the transport is unchanged; when
  it does not, the connection is closed.
\<close>
theorem send_line_whole_or_closed:
  assumes "send_line t line ns = Some (ok, t', bytes, ns')"
  shows "if ok then bytes = line @ [CHR 0x0A] \<and> t' = t \<and> t_connected t else \<not> t_connected t'"
  using send_line_spec [OF assms] by simp

theorem send_line_whole_or_closed_witness:
  "\<not> t_connected (t_close (transport0\<lparr>t_fd := 7\<rparr>))"
  using send_line_whole_or_closed [of "transport0\<lparr>t_fd := 7\<rparr>" "''abc''" "[2, -1]" False
      "t_close (transport0\<lparr>t_fd := 7\<rparr>)" "''ab''" "[]"]
  by (simp add: send_line_def transport0_def)

end
