(* ===== verification/Stats.thy ===== *)
theory Stats
  imports Doubles
begin

text \<open>
  The metrics store (src/miner/stats.h, src/miner/stats.cpp): the two ledgers, the attempt log
  behind the windowed rates, the pending submissions and found shares, and the running summaries.
  Every operation runs under the one mutex, so it is a function on the state; \<open>now\<close> is what
  \<open>now_fn\<close> returns, in nanoseconds. The separation of the two ledgers is the interface
  \<open>two_ledgers\<close>, which gives non-interference for any interleaving of the connections.
\<close>

datatype origin = Main | Dev

definition kPruneAge :: int where "kPruneAge = 15 * 60 * 1000000000"
definition kWindow15 :: int where "kWindow15 = 15 * 1000000000"
definition kWindow60 :: int where "kWindow60 = 60 * 1000000000"
definition kSubmitCap :: nat where "kSubmitCap = 64"
definition kSeriesInterval :: int where "kSeriesInterval = 1000000000"
definition kRecentShares :: nat where "kRecentShares = 128"

text \<open>\<open>duration<double>\<close> of a nanosecond count, and a cast to milliseconds, which truncates.\<close>

definition d_of_int :: "int \<Rightarrow> double" where "d_of_int i = dbl (of_int i)"

definition d_seconds :: "int \<Rightarrow> double" where "d_seconds ns = ddiv (d_of_int ns) 1000000000"

definition tdiv :: "int \<Rightarrow> int \<Rightarrow> int" where
  "tdiv a b = (if 0 \<le> a then a div b else - ((- a) div b))"

abbreviation d_of_u64 :: "u64 \<Rightarrow> double" where "d_of_u64 w \<equiv> d_of_nat (unat w)"

section \<open>Running summaries\<close>

record series =
  ser_n :: u64
  ser_mean :: double
  ser_min :: double
  ser_max :: double
  ser_m2 :: double

definition series0 :: series where
  "series0 = \<lparr>ser_n = 0, ser_mean = 0, ser_min = 0, ser_max = 0, ser_m2 = 0\<rparr>"

definition series_add :: "double \<Rightarrow> series \<Rightarrow> series" where
  "series_add v s =
    (let s = (if ser_n s = 0 then s\<lparr>ser_min := v, ser_max := v\<rparr>
              else s\<lparr>ser_min := if v < ser_min s then v else ser_min s,
                     ser_max := if v > ser_max s then v else ser_max s\<rparr>);
         s = s\<lparr>ser_n := ser_n s + 1\<rparr>;
         delta = dsub v (ser_mean s);
         s = s\<lparr>ser_mean := dadd (ser_mean s) (ddiv delta (d_of_u64 (ser_n s)))\<rparr>
     in s\<lparr>ser_m2 := dadd (ser_m2 s) (dmul delta (dsub v (ser_mean s)))\<rparr>)"

definition series_stddev :: "series \<Rightarrow> double" where
  "series_stddev s = (if ser_n s \<ge> 2 then dsqrt (ddiv (ser_m2 s) (d_of_u64 (ser_n s - 1))) else 0)"

record series_set =
  ss_sol15 :: series
  ss_sol60 :: series
  ss_iter60 :: series
  ss_power_w :: series
  ss_sm_clock_mhz :: series
  ss_mem_clock_mhz :: series
  ss_temp_c :: series
  ss_fan_pct :: series

definition series_set0 :: series_set where
  "series_set0 = \<lparr>ss_sol15 = series0, ss_sol60 = series0, ss_iter60 = series0, ss_power_w = series0,
     ss_sm_clock_mhz = series0, ss_mem_clock_mhz = series0, ss_temp_c = series0, ss_fan_pct = series0\<rparr>"

section \<open>The state\<close>

record attempt =
  ev_t :: int
  ev_candidates :: u32
  ev_device :: nat

record pending_submit =
  ps_job_id :: string
  ps_t :: int
  ps_units :: double
  ps_origin :: origin
  ps_device :: nat

record dev_ledger =
  dl_label :: string
  dl_total_candidates :: u64
  dl_attempts :: u64
  dl_accepted :: u64
  dl_stale :: u64
  dl_rejected :: u64
  dl_best_share_units :: double

record found_share =
  fs_t :: int
  fs_units :: double
  fs_target :: double
  fs_dev :: bool

text \<open>One card as the consumer sees it. A reading of telemetry is \<open>None\<close> where its \<open>has_\<close> flag is false.\<close>

record device =
  dv_label :: string
  dv_sol15 :: double
  dv_sol60 :: double
  dv_sol_session :: double
  dv_iter60 :: double
  dv_attempts :: u64
  dv_accepted :: u64
  dv_stale :: u64
  dv_rejected :: u64
  dv_best_share_units :: double
  dv_power_w :: "double option"
  dv_sm_clock_mhz :: "u32 option"
  dv_mem_clock_mhz :: "u32 option"
  dv_temp_c :: "u32 option"
  dv_fan_pct :: "u32 option"
  dv_util_pct :: "u32 option"
  dv_paused :: bool

record stats =
  st_accepted_units :: double
  st_telemetry :: "(nat \<Rightarrow> device \<Rightarrow> device) option"
  st_start :: int
  st_attempts :: "attempt list"
  st_total_candidates :: u64
  st_submits :: "pending_submit list"
  st_last_latency_ms :: int
  st_best_share_units :: double
  st_accepted :: u64
  st_stale :: u64
  st_rejected :: u64
  st_devices :: "dev_ledger list"
  st_pool :: string
  st_connect_ms :: int
  st_reconnects :: u64
  st_last_job_id :: string
  st_last_job_units :: double
  st_driver_version :: string
  st_devfee_rate :: double
  st_devfee_seconds :: double
  st_devfee_slices :: u64
  st_devfee_active :: bool
  st_devfee_last_job_units :: double
  st_devfee_accepted :: u64
  st_devfee_stale :: u64
  st_devfee_rejected :: u64
  st_found :: "found_share list"
  st_series :: series_set
  st_last_series_sample :: int
  st_series_sampled :: bool

definition ledger0 :: "string \<Rightarrow> dev_ledger" where
  "ledger0 l = \<lparr>dl_label = l, dl_total_candidates = 0, dl_attempts = 0, dl_accepted = 0, dl_stale = 0,
     dl_rejected = 0, dl_best_share_units = 0\<rparr>"

definition stats_new :: "int \<Rightarrow> stats" where
  "stats_new now = \<lparr>st_accepted_units = 0, st_telemetry = None, st_start = now, st_attempts = [],
     st_total_candidates = 0, st_submits = [], st_last_latency_ms = -1, st_best_share_units = 0,
     st_accepted = 0, st_stale = 0, st_rejected = 0, st_devices = [ledger0 ''GPU 0''], st_pool = '''',
     st_connect_ms = 0, st_reconnects = 0, st_last_job_id = '''', st_last_job_units = 0,
     st_driver_version = '''', st_devfee_rate = 0, st_devfee_seconds = 0, st_devfee_slices = 0,
     st_devfee_active = False, st_devfee_last_job_units = 0, st_devfee_accepted = 0,
     st_devfee_stale = 0, st_devfee_rejected = 0, st_found = [], st_series = series_set0,
     st_last_series_sample = 0, st_series_sampled = False\<rparr>"

section \<open>Producers\<close>

definition set_telemetry_source :: "(nat \<Rightarrow> device \<Rightarrow> device) option \<Rightarrow> stats \<Rightarrow> stats" where
  "set_telemetry_source fn s = s\<lparr>st_telemetry := fn\<rparr>"

definition set_device_labels :: "string list \<Rightarrow> stats \<Rightarrow> stats" where
  "set_device_labels labels s =
    s\<lparr>st_devices := map ledger0 (if labels = [] then [''GPU 0''] else labels)\<rparr>"

definition set_device_label :: "string \<Rightarrow> stats \<Rightarrow> stats" where
  "set_device_label label s = set_device_labels [label] s"

definition set_driver_version :: "string \<Rightarrow> stats \<Rightarrow> stats" where
  "set_driver_version v s = s\<lparr>st_driver_version := v\<rparr>"

definition prune_attempts :: "int \<Rightarrow> attempt list \<Rightarrow> attempt list" where
  "prune_attempts now xs = dropWhile (\<lambda>e. now - ev_t e > kPruneAge) xs"

text \<open>An update at an index that may be out of range, where the source tests it first.\<close>

definition update_device :: "nat \<Rightarrow> (dev_ledger \<Rightarrow> dev_ledger) \<Rightarrow> dev_ledger list \<Rightarrow> dev_ledger list" where
  "update_device i f ds = (if i < length ds then ds[i := f (ds ! i)] else ds)"

definition record_attempt :: "int \<Rightarrow> u32 \<Rightarrow> nat \<Rightarrow> stats \<Rightarrow> stats" where
  "record_attempt now candidates dev s =
    s\<lparr>st_total_candidates := st_total_candidates s + ucast candidates,
      st_devices := update_device dev
        (\<lambda>d. d\<lparr>dl_total_candidates := dl_total_candidates d + ucast candidates,
               dl_attempts := dl_attempts d + 1\<rparr>) (st_devices s),
      st_attempts := prune_attempts now
        (st_attempts s @ [\<lparr>ev_t = now, ev_candidates = candidates, ev_device = dev\<rparr>])\<rparr>"

text \<open>\<open>while (q.size() > cap) q.pop_front()\<close>\<close>

definition drop_to :: "nat \<Rightarrow> 'a list \<Rightarrow> 'a list" where
  "drop_to cap q = drop (length q - cap) q"

definition current_job_units :: "origin \<Rightarrow> stats \<Rightarrow> double" where
  "current_job_units orig s = (if orig = Dev then st_devfee_last_job_units s else st_last_job_units s)"

definition record_submit :: "int \<Rightarrow> string \<Rightarrow> origin \<Rightarrow> nat \<Rightarrow> stats \<Rightarrow> stats" where
  "record_submit now job_id orig dev s =
    s\<lparr>st_submits := drop_to kSubmitCap (st_submits s @
        [\<lparr>ps_job_id = job_id, ps_t = now, ps_units = current_job_units orig s, ps_origin = orig,
          ps_device = dev\<rparr>])\<rparr>"

definition record_share_found :: "int \<Rightarrow> double \<Rightarrow> origin \<Rightarrow> nat \<Rightarrow> stats \<Rightarrow> stats" where
  "record_share_found now achieved orig dev s =
    (let s = s\<lparr>st_found := drop_to kRecentShares (st_found s @
          [\<lparr>fs_t = now, fs_units = achieved, fs_target = current_job_units orig s, fs_dev = (orig = Dev)\<rparr>])\<rparr>
     in if orig \<noteq> Main then s
        else s\<lparr>st_best_share_units := if achieved > st_best_share_units s then achieved else st_best_share_units s,
               st_devices := update_device dev
                 (\<lambda>d. if achieved > dl_best_share_units d then d\<lparr>dl_best_share_units := achieved\<rparr> else d)
                 (st_devices s)\<rparr>)"

text \<open>The first pending submission of an origin, and the queue without it.\<close>

fun take_pending :: "origin \<Rightarrow> pending_submit list \<Rightarrow> (pending_submit \<times> pending_submit list) option" where
  "take_pending orig [] = None"
| "take_pending orig (p # ps) =
    (if ps_origin p \<noteq> orig then
       (case take_pending orig ps of None \<Rightarrow> None | Some (x, rest) \<Rightarrow> Some (x, p # rest))
     else Some (p, ps))"

definition count_result :: "int \<Rightarrow> origin \<Rightarrow> stats \<Rightarrow> stats" where
  "count_result code orig s =
    (if orig = Dev then
       (if code = 1 then s\<lparr>st_devfee_accepted := st_devfee_accepted s + 1\<rparr>
        else if code = 3 then s\<lparr>st_devfee_stale := st_devfee_stale s + 1\<rparr>
        else s\<lparr>st_devfee_rejected := st_devfee_rejected s + 1\<rparr>)
     else
       (if code = 1 then s\<lparr>st_accepted := st_accepted s + 1\<rparr>
        else if code = 3 then s\<lparr>st_stale := st_stale s + 1\<rparr>
        else s\<lparr>st_rejected := st_rejected s + 1\<rparr>))"

definition ledger_result :: "int \<Rightarrow> dev_ledger \<Rightarrow> dev_ledger" where
  "ledger_result code d =
    (if code = 1 then d\<lparr>dl_accepted := dl_accepted d + 1\<rparr>
     else if code = 3 then d\<lparr>dl_stale := dl_stale d + 1\<rparr>
     else d\<lparr>dl_rejected := dl_rejected d + 1\<rparr>)"

definition record_result :: "int \<Rightarrow> int \<Rightarrow> origin \<Rightarrow> stats \<Rightarrow> stats" where
  "record_result now code orig s0 =
    (let s = count_result code orig s0 in
     case take_pending orig (st_submits s) of
       None \<Rightarrow> s
     | Some (p, rest) \<Rightarrow>
         let s = (if code = 1 \<and> orig = Main
                  then s\<lparr>st_accepted_units := dadd (st_accepted_units s) (ps_units p)\<rparr> else s);
             s = (if orig = Main
                  then s\<lparr>st_devices := update_device (ps_device p) (ledger_result code) (st_devices s)\<rparr> else s);
             s = s\<lparr>st_submits := rest\<rparr>
         in if orig = Main then s\<lparr>st_last_latency_ms := tdiv (now - ps_t p) 1000000\<rparr> else s)"

definition record_job :: "string \<Rightarrow> double \<Rightarrow> origin \<Rightarrow> stats \<Rightarrow> stats" where
  "record_job ident units orig s =
    (if orig = Dev then s\<lparr>st_devfee_last_job_units := units\<rparr>
     else s\<lparr>st_last_job_id := ident, st_last_job_units := units\<rparr>)"

definition set_devfee_rate :: "double \<Rightarrow> stats \<Rightarrow> stats" where
  "set_devfee_rate rate s = s\<lparr>st_devfee_rate := rate\<rparr>"

definition set_devfee_active :: "bool \<Rightarrow> stats \<Rightarrow> stats" where
  "set_devfee_active active s = s\<lparr>st_devfee_active := active\<rparr>"

definition record_devfee_slice :: "double \<Rightarrow> stats \<Rightarrow> stats" where
  "record_devfee_slice elapsed s =
    s\<lparr>st_devfee_seconds := dadd (st_devfee_seconds s) elapsed, st_devfee_slices := st_devfee_slices s + 1\<rparr>"

definition attempted_within :: "int \<Rightarrow> int \<Rightarrow> stats \<Rightarrow> bool" where
  "attempted_within now age s \<longleftrightarrow> st_attempts s \<noteq> [] \<and> now - ev_t (last (st_attempts s)) \<le> age"

definition record_connect :: "string \<Rightarrow> int \<Rightarrow> stats \<Rightarrow> stats" where
  "record_connect hostport ms s = s\<lparr>st_pool := hostport, st_connect_ms := ms\<rparr>"

definition record_disconnect :: "stats \<Rightarrow> stats" where
  "record_disconnect s = s\<lparr>st_reconnects := st_reconnects s + 1\<rparr>"

section \<open>The snapshot\<close>

record window_tally =
  wt_cand15 :: u64
  wt_cand60 :: u64
  wt_n60 :: u64
  wt_dev15 :: "u64 list"
  wt_dev60 :: "u64 list"
  wt_devn60 :: "u64 list"

definition tally0 :: "nat \<Rightarrow> window_tally" where
  "tally0 n = \<lparr>wt_cand15 = 0, wt_cand60 = 0, wt_n60 = 0, wt_dev15 = replicate n 0,
     wt_dev60 = replicate n 0, wt_devn60 = replicate n 0\<rparr>"

definition bump_at :: "bool \<Rightarrow> nat \<Rightarrow> u64 \<Rightarrow> u64 list \<Rightarrow> u64 list" where
  "bump_at b i d xs = (if b then xs[i := xs ! i + d] else xs)"

definition tally_event :: "int \<Rightarrow> nat \<Rightarrow> window_tally \<Rightarrow> attempt \<Rightarrow> window_tally" where
  "tally_event now ndev w e =
    (let age = now - ev_t e; in60 = (age \<le> kWindow60); in15 = (age \<le> kWindow15);
         c = (ucast (ev_candidates e) :: u64); i = ev_device e;
         w = (if in60 then w\<lparr>wt_cand60 := wt_cand60 w + c, wt_n60 := wt_n60 w + 1\<rparr> else w);
         w = (if in15 then w\<lparr>wt_cand15 := wt_cand15 w + c\<rparr> else w)
     in if i < ndev
        then w\<lparr>wt_dev60 := bump_at in60 i c (wt_dev60 w), wt_devn60 := bump_at in60 i 1 (wt_devn60 w),
               wt_dev15 := bump_at in15 i c (wt_dev15 w)\<rparr>
        else w)"

definition window_tally_of :: "int \<Rightarrow> stats \<Rightarrow> window_tally" where
  "window_tally_of now s =
    foldl (tally_event now (length (st_devices s))) (tally0 (length (st_devices s))) (st_attempts s)"

record recent_share =
  rs_age_s :: double
  rs_units :: double
  rs_target :: double
  rs_dev :: bool

record snap =
  sn_sol15 :: double
  sn_sol60 :: double
  sn_sol_session :: double
  sn_pool_sol_session :: double
  sn_iter60 :: double
  sn_accepted :: u64
  sn_stale :: u64
  sn_rejected :: u64
  sn_best_share_units :: double
  sn_last_latency_ms :: int
  sn_pool :: string
  sn_device_label :: string
  sn_driver_version :: string
  sn_connect_ms :: int
  sn_uptime :: int
  sn_last_job_id :: string
  sn_last_job_units :: double
  sn_reconnects :: u64
  sn_devfee_rate :: double
  sn_devfee_seconds :: double
  sn_devfee_slices :: u64
  sn_devfee_active :: bool
  sn_devfee_accepted :: u64
  sn_devfee_stale :: u64
  sn_devfee_rejected :: u64
  sn_devices :: "device list"
  sn_recent_shares :: "recent_share list"
  sn_series :: series_set
  sn_power_w :: "double option"
  sn_sm_clock_mhz :: "u32 option"
  sn_mem_clock_mhz :: "u32 option"
  sn_temp_c :: "u32 option"
  sn_fan_pct :: "u32 option"
  sn_util_pct :: "u32 option"

definition snapshot_device :: "double \<Rightarrow> window_tally \<Rightarrow> stats \<Rightarrow> nat \<Rightarrow> device" where
  "snapshot_device elapsed w s i =
    (let l = st_devices s ! i;
         d = \<lparr>dv_label = dl_label l, dv_sol15 = ddiv (d_of_u64 (wt_dev15 w ! i)) 15,
              dv_sol60 = ddiv (d_of_u64 (wt_dev60 w ! i)) 60,
              dv_sol_session = (if elapsed > 0 then ddiv (d_of_u64 (dl_total_candidates l)) elapsed else 0),
              dv_iter60 = ddiv (d_of_u64 (wt_devn60 w ! i)) 60, dv_attempts = dl_attempts l,
              dv_accepted = dl_accepted l, dv_stale = dl_stale l, dv_rejected = dl_rejected l,
              dv_best_share_units = dl_best_share_units l, dv_power_w = None, dv_sm_clock_mhz = None,
              dv_mem_clock_mhz = None, dv_temp_c = None, dv_fan_pct = None, dv_util_pct = None,
              dv_paused = False\<rparr>
     in case st_telemetry s of Some f \<Rightarrow> f i d | None \<Rightarrow> d)"

definition add_opt :: "double option \<Rightarrow> series \<Rightarrow> series" where
  "add_opt v s = (case v of Some x \<Rightarrow> series_add x s | None \<Rightarrow> s)"

definition d_of_u32_opt :: "u32 option \<Rightarrow> double option" where
  "d_of_u32_opt v = map_option (\<lambda>w. d_of_nat (unat w)) v"

text \<open>The fold of one observation into the session-long summaries.\<close>

definition fold_series :: "int \<Rightarrow> snap \<Rightarrow> stats \<Rightarrow> stats" where
  "fold_series now sn s =
    (if \<not> st_series_sampled s \<or> now - st_last_series_sample s \<ge> kSeriesInterval then
       let ss = st_series s;
           ss = (if now - st_start s \<ge> kWindow15
                 then ss\<lparr>ss_sol15 := series_add (sn_sol15 sn) (ss_sol15 ss)\<rparr> else ss);
           ss = (if now - st_start s \<ge> kWindow60
                 then ss\<lparr>ss_sol60 := series_add (sn_sol60 sn) (ss_sol60 ss),
                         ss_iter60 := series_add (sn_iter60 sn) (ss_iter60 ss)\<rparr> else ss);
           ss = ss\<lparr>ss_power_w := add_opt (sn_power_w sn) (ss_power_w ss),
                   ss_sm_clock_mhz := add_opt (d_of_u32_opt (sn_sm_clock_mhz sn)) (ss_sm_clock_mhz ss),
                   ss_mem_clock_mhz := add_opt (d_of_u32_opt (sn_mem_clock_mhz sn)) (ss_mem_clock_mhz ss),
                   ss_temp_c := add_opt (d_of_u32_opt (sn_temp_c sn)) (ss_temp_c ss),
                   ss_fan_pct := add_opt (d_of_u32_opt (sn_fan_pct sn)) (ss_fan_pct ss)\<rparr>
       in s\<lparr>st_series_sampled := True, st_last_series_sample := now, st_series := ss\<rparr>
     else s)"

text \<open>\<open>snapshot\<close> is const, but folds the summaries: it returns the new state as well.\<close>

definition snapshot :: "int \<Rightarrow> stats \<Rightarrow> snap \<times> stats" where
  "snapshot now s =
    (let w = window_tally_of now s;
         elapsed = d_seconds (now - st_start s);
         devs = map (snapshot_device elapsed w s) [0..<length (st_devices s)];
         d0 = (case devs of [] \<Rightarrow> None | d # _ \<Rightarrow> Some d);
         sn = \<lparr>sn_sol15 = ddiv (d_of_u64 (wt_cand15 w)) 15, sn_sol60 = ddiv (d_of_u64 (wt_cand60 w)) 60,
               sn_sol_session = (if elapsed > 0 then ddiv (d_of_u64 (st_total_candidates s)) elapsed else 0),
               sn_pool_sol_session = (if elapsed > 0 then ddiv (st_accepted_units s) elapsed else 0),
               sn_iter60 = ddiv (d_of_u64 (wt_n60 w)) 60,
               sn_accepted = st_accepted s, sn_stale = st_stale s, sn_rejected = st_rejected s,
               sn_best_share_units = st_best_share_units s, sn_last_latency_ms = st_last_latency_ms s,
               sn_pool = st_pool s,
               sn_device_label = (case d0 of Some d \<Rightarrow> dv_label d | None \<Rightarrow> ''''),
               sn_driver_version = st_driver_version s, sn_connect_ms = st_connect_ms s,
               sn_uptime = tdiv (now - st_start s) 1000000000,
               sn_last_job_id = st_last_job_id s, sn_last_job_units = st_last_job_units s,
               sn_reconnects = st_reconnects s, sn_devfee_rate = st_devfee_rate s,
               sn_devfee_seconds = st_devfee_seconds s, sn_devfee_slices = st_devfee_slices s,
               sn_devfee_active = st_devfee_active s, sn_devfee_accepted = st_devfee_accepted s,
               sn_devfee_stale = st_devfee_stale s, sn_devfee_rejected = st_devfee_rejected s,
               sn_devices = devs,
               sn_recent_shares = map (\<lambda>f. \<lparr>rs_age_s = d_seconds (now - fs_t f), rs_units = fs_units f,
                  rs_target = fs_target f, rs_dev = fs_dev f\<rparr>) (st_found s),
               sn_series = st_series s,
               sn_power_w = Option.bind d0 dv_power_w, sn_sm_clock_mhz = Option.bind d0 dv_sm_clock_mhz,
               sn_mem_clock_mhz = Option.bind d0 dv_mem_clock_mhz, sn_temp_c = Option.bind d0 dv_temp_c,
               sn_fan_pct = Option.bind d0 dv_fan_pct, sn_util_pct = None\<rparr>;
         s' = fold_series now sn s
     in (sn\<lparr>sn_series := st_series s'\<rparr>, s'))"

section \<open>The running summaries\<close>

text \<open>Two or more doubles and a new one: the mean moves towards the value without passing it.\<close>

definition series_ok :: "series \<Rightarrow> bool" where
  "series_ok s \<longleftrightarrow> dbl (ser_mean s) = ser_mean s \<and> dbl (ser_m2 s) = ser_m2 s \<and> 0 \<le> ser_m2 s \<and>
    (ser_n s = 0 \<longrightarrow> ser_mean s = 0 \<and> ser_m2 s = 0) \<and>
    (ser_n s \<noteq> 0 \<longrightarrow> ser_min s \<le> ser_mean s \<and> ser_mean s \<le> ser_max s)"

lemma series_add_first:
  assumes "series_ok s" "ser_n s = 0" "dbl v = v"
  shows "series_add v s = \<lparr>ser_n = 1, ser_mean = v, ser_min = v, ser_max = v, ser_m2 = 0\<rparr>"
proof -
  have "d_of_nat 1 = 1" using d_of_nat_exact [of 1] by simp
  then show ?thesis using assms by (simp add: series_add_def series_ok_def Let_def dops)
qed

lemma mean_step:
  assumes m: "dbl m = m" and v: "dbl v = v" and n: "2 \<le> n"
  defines "m' \<equiv> dadd m (ddiv (dsub v m) n)"
  shows "min m v \<le> m' \<and> m' \<le> max m v \<and> 0 \<le> dmul (dsub v m) (dsub v m')"
proof (cases "m \<le> v")
  case True
  note U = fp.toward_up [OF v True n]
  have lo: "m \<le> m'" unfolding m'_def dops using fp.add_ge [OF m U(1)] .
  have hi: "m' \<le> v" unfolding m'_def dops by (rule U(2))
  have "0 \<le> dsub v m" "0 \<le> dsub v m'" using True hi by (simp_all add: dsub_def dbl_nonneg)
  then have "0 \<le> dmul (dsub v m) (dsub v m')" by (simp add: dmul_def dbl_nonneg)
  with lo hi True show ?thesis by (simp add: min_def max_def)
next
  case False
  then have vm: "v \<le> m" by simp
  note D = fp.toward_down [OF v vm n]
  have hi: "m' \<le> m" unfolding m'_def dops using fp.add_le [OF m D(1)] .
  have lo: "v \<le> m'" unfolding m'_def dops by (rule D(2))
  have "dsub v m \<le> 0" "dsub v m' \<le> 0" using vm lo by (simp_all add: dsub_def fp.rnd_nonpos)
  then have "0 \<le> dsub v m * dsub v m'" by (simp add: mult_nonpos_nonpos)
  then have "0 \<le> dmul (dsub v m) (dsub v m')" by (simp add: dmul_def dbl_nonneg)
  with lo hi vm show ?thesis by (simp add: min_def max_def)
qed

lemma series_add_ok:
  assumes ok: "series_ok s" and v: "dbl v = v" and n: "unat (ser_n s) < 2 ^ 53 - 1"
  shows "series_ok (series_add v s)" "unat (ser_n (series_add v s)) = unat (ser_n s) + 1"
    "ser_n s \<noteq> 0 \<Longrightarrow> ser_min (series_add v s) = min (ser_min s) v \<and> ser_max (series_add v s) = max (ser_max s) v"
proof -
  have un: "unat (ser_n s + 1) = unat (ser_n s) + 1" using n by (intro unat_inc) simp
  then show "unat (ser_n (series_add v s)) = unat (ser_n s) + 1"
    by (simp add: series_add_def Let_def)
  show "ser_n s \<noteq> 0 \<Longrightarrow> ser_min (series_add v s) = min (ser_min s) v \<and> ser_max (series_add v s) = max (ser_max s) v"
    by (auto simp: series_add_def Let_def min_def max_def)
  show "series_ok (series_add v s)"
  proof (cases "ser_n s = 0")
    case True
    then show ?thesis using series_add_first [OF ok True v] v by (simp add: series_ok_def)
  next
    case False
    define k where "k = unat (ser_n s)"
    have "1 \<le> k" using False by (simp add: k_def Suc_le_eq unat_gt_0)
    then have "(2 :: rat) \<le> of_nat (k + 1)" by simp
    moreover have "d_of_nat (k + 1) = of_nat (k + 1)"
      using n by (intro d_of_nat_exact) (simp add: k_def)
    ultimately have "2 \<le> d_of_nat (k + 1)" by simp
    then have two: "2 \<le> d_of_u64 (ser_n s + 1)" by (simp only: un k_def)
    have m: "dbl (ser_mean s) = ser_mean s" using ok by (simp add: series_ok_def)
    note M = mean_step [OF m v two]
    have nz: "ser_n s + 1 \<noteq> 0" using un by (metis Suc_eq_plus1 nat.distinct(1) unat_0)
    have sel: "ser_n (series_add v s) = ser_n s + 1"
      "ser_mean (series_add v s) = dadd (ser_mean s) (ddiv (dsub v (ser_mean s)) (d_of_u64 (ser_n s + 1)))"
      "ser_m2 (series_add v s) = dadd (ser_m2 s) (dmul (dsub v (ser_mean s)) (dsub v (ser_mean (series_add v s))))"
      using False by (simp_all add: series_add_def Let_def)
    have mm: "ser_min (series_add v s) = min (ser_min s) v" "ser_max (series_add v s) = max (ser_max s) v"
      using False by (auto simp: series_add_def Let_def min_def max_def)
    have "dbl (ser_mean (series_add v s)) = ser_mean (series_add v s)"
      "dbl (ser_m2 (series_add v s)) = ser_m2 (series_add v s)"
      by (simp_all add: sel dadd_def dbl_idem)
    moreover have "0 \<le> ser_m2 (series_add v s)"
      using M ok unfolding sel by (simp add: dadd_def dbl_nonneg series_ok_def)
    moreover have "ser_min (series_add v s) \<le> ser_mean (series_add v s)"
      "ser_mean (series_add v s) \<le> ser_max (series_add v s)"
      using M ok False unfolding sel mm by (auto simp: series_ok_def min_def max_def split: if_splits)
    ultimately show ?thesis using nz by (simp add: series_ok_def sel)
  qed
qed

lemma series_fold:
  assumes "\<forall>v \<in> set vs. dbl v = v" "length vs < 2 ^ 53"
  defines "s \<equiv> fold series_add vs series0"
  shows "series_ok s \<and> unat (ser_n s) = length vs \<and>
    (vs \<noteq> [] \<longrightarrow> ser_min s = Min (set vs) \<and> ser_max s = Max (set vs))"
  unfolding s_def using assms(1,2)
proof (induction vs rule: rev_induct)
  case Nil
  then show ?case by (simp add: series_ok_def series0_def)
next
  case (snoc v vs)
  define t where "t = fold series_add vs series0"
  from snoc have IH: "series_ok t" "unat (ser_n t) = length vs"
    "vs \<noteq> [] \<Longrightarrow> ser_min t = Min (set vs) \<and> ser_max t = Max (set vs)"
    by (simp_all add: t_def)
  have v: "dbl v = v" using snoc.prems by simp
  have n: "unat (ser_n t) < 2 ^ 53 - 1" using snoc.prems(2) IH(2) by simp
  note A = series_add_ok [OF IH(1) v n]
  have e: "fold series_add (vs @ [v]) series0 = series_add v t" by (simp add: t_def)
  have "ser_min (series_add v t) = Min (set (vs @ [v])) \<and> ser_max (series_add v t) = Max (set (vs @ [v]))"
  proof (cases "vs = []")
    case True
    then have "ser_n t = 0" using IH(2) by (simp add: unat_eq_0)
    then show ?thesis using True series_add_first [OF IH(1) _ v] by simp
  next
    case False
    then have nz: "ser_n t \<noteq> 0" using IH(2) by (metis length_0_conv unat_0)
    show ?thesis using A(3) [OF nz] IH(3) [OF False] False by (simp add: min.commute max.commute)
  qed
  then show ?case unfolding e using A(1,2) IH(2) by simp
qed

section \<open>Two ledgers\<close>

text \<open>
  Two parties share a store. An event of one changes nothing the other sees, and what a party sees
  after its own event depends only on what it saw before, as long as the shared queue has room.
  Then each party sees what it would see alone.
\<close>

locale two_ledgers =
  fixes step :: "'p \<Rightarrow> 'e \<Rightarrow> 's \<Rightarrow> 's" and view :: "'p \<Rightarrow> 's \<Rightarrow> 'v"
    and cost :: "'e \<Rightarrow> nat" and load :: "'s \<Rightarrow> nat" and cap :: nat
  assumes other: "p \<noteq> q \<Longrightarrow> load s + cost e \<le> cap \<Longrightarrow> view q (step p e s) = view q s"
    and own: "load s + cost e \<le> cap \<Longrightarrow> load t + cost e \<le> cap \<Longrightarrow> view p s = view p t \<Longrightarrow>
      view p (step p e s) = view p (step p e t)"
    and load_step: "load (step p e s) \<le> load s + cost e"
begin

lemma purge:
  assumes "view q s = view q t"
    and "load s + (\<Sum>(p, e)\<leftarrow>es. cost e) \<le> cap" "load t + (\<Sum>(p, e)\<leftarrow>es. cost e) \<le> cap"
  shows "view q (fold (\<lambda>(p, e). step p e) es s) = view q (fold (\<lambda>(p, e). step p e) (filter (\<lambda>(p, e). p = q) es) t)"
  using assms
proof (induction es arbitrary: s t)
  case Nil
  then show ?case by simp
next
  case (Cons pe es)
  obtain p e where pe: "pe = (p, e)" by fastforce
  have s: "load (step p e s) + (\<Sum>(p, e)\<leftarrow>es. cost e) \<le> cap"
    using load_step [of p e s] Cons.prems(2) pe by simp
  show ?case
  proof (cases "p = q")
    case True
    have "view q (step p e s) = view q (step p e t)"
      using own [of s e t p] Cons.prems pe True by simp
    moreover have "load (step p e t) + (\<Sum>(p, e)\<leftarrow>es. cost e) \<le> cap"
      using load_step [of p e t] Cons.prems(3) pe by simp
    ultimately show ?thesis using Cons.IH s pe True by simp
  next
    case False
    have "view q (step p e s) = view q t"
      using other [OF False, of s e] Cons.prems pe by simp
    then show ?thesis using Cons.IH [of "step p e s" t] s Cons.prems(3) pe False by simp
  qed
qed

end

text \<open>The share-shaped events of a connection, with the time each happens.\<close>

datatype share_event =
    Submit int string nat
  | Found int double nat
  | ResultCode int int
  | NewJob string double

fun share_step :: "origin \<Rightarrow> share_event \<Rightarrow> stats \<Rightarrow> stats" where
  "share_step orig (Submit now job dev) s = record_submit now job orig dev s"
| "share_step orig (Found now units dev) s = record_share_found now units orig dev s"
| "share_step orig (ResultCode now code) s = record_result now code orig s"
| "share_step orig (NewJob ident units) s = record_job ident units orig s"

fun share_cost :: "share_event \<Rightarrow> nat" where
  "share_cost (Submit now job dev) = 1"
| "share_cost _ = 0"

text \<open>Everything the store holds for one connection; the user's includes the per-device rows.\<close>

record ledger_view =
  lv_counts :: "u64 \<times> u64 \<times> u64"
  lv_job_units :: double
  lv_pending :: "pending_submit list"
  lv_job_id :: string
  lv_banked :: double
  lv_latency :: int
  lv_best :: double
  lv_devices :: "dev_ledger list"

definition pending_of :: "origin \<Rightarrow> stats \<Rightarrow> pending_submit list" where
  "pending_of orig s = filter (\<lambda>p. ps_origin p = orig) (st_submits s)"

definition view_of :: "origin \<Rightarrow> stats \<Rightarrow> ledger_view" where
  "view_of orig s =
    (if orig = Main then
       \<lparr>lv_counts = (st_accepted s, st_stale s, st_rejected s), lv_job_units = st_last_job_units s,
        lv_pending = pending_of Main s, lv_job_id = st_last_job_id s, lv_banked = st_accepted_units s,
        lv_latency = st_last_latency_ms s, lv_best = st_best_share_units s, lv_devices = st_devices s\<rparr>
     else
       \<lparr>lv_counts = (st_devfee_accepted s, st_devfee_stale s, st_devfee_rejected s),
        lv_job_units = st_devfee_last_job_units s, lv_pending = pending_of Dev s, lv_job_id = '''',
        lv_banked = 0, lv_latency = 0, lv_best = 0, lv_devices = []\<rparr>)"

lemma take_pending_spec:
  "take_pending orig q = Some (p, rest) \<Longrightarrow>
    filter (\<lambda>x. ps_origin x = orig) q = p # filter (\<lambda>x. ps_origin x = orig) rest \<and>
    (\<forall>o'. o' \<noteq> orig \<longrightarrow> filter (\<lambda>x. ps_origin x = o') rest = filter (\<lambda>x. ps_origin x = o') q) \<and>
    length q = Suc (length rest)"
  by (induction q arbitrary: rest) (auto split: if_splits option.splits)

lemma take_pending_None: "take_pending orig q = None \<longleftrightarrow> filter (\<lambda>x. ps_origin x = orig) q = []"
  by (induction q) (auto split: option.splits)

lemma drop_to_fits: "length q \<le> cap \<Longrightarrow> drop_to cap q = q"
  by (simp add: drop_to_def)

lemma length_drop_to: "length (drop_to cap q) = min cap (length q)"
  by (simp add: drop_to_def)

lemma record_submit_fits:
  "length (st_submits s) < 64 \<Longrightarrow> record_submit now job orig dev s = s\<lparr>st_submits := st_submits s @
    [\<lparr>ps_job_id = job, ps_t = now, ps_units = current_job_units orig s, ps_origin = orig, ps_device = dev\<rparr>]\<rparr>"
  by (simp add: record_submit_def drop_to_fits kSubmitCap_def)

lemma count_result_frame [simp]:
  "st_submits (count_result code orig s) = st_submits s"
  "st_devices (count_result code orig s) = st_devices s"
  "st_accepted_units (count_result code orig s) = st_accepted_units s"
  "st_last_latency_ms (count_result code orig s) = st_last_latency_ms s"
  by (simp_all add: count_result_def)

lemma origin_other: "(p :: origin) \<noteq> q \<Longrightarrow> p = Main \<and> q = Dev \<or> p = Dev \<and> q = Main"
  by (cases p; cases q) simp_all

lemma view_other:
  assumes "p \<noteq> q" "length (st_submits s) + share_cost e \<le> 64"
  shows "view_of q (share_step p e s) = view_of q s"
proof (cases e)
  case (Submit now job dev)
  then have "length (st_submits s) < 64" using assms(2) by simp
  from record_submit_fits [OF this, of now job p dev] origin_other [OF assms(1)] show ?thesis
    by (auto simp: Submit view_of_def pending_of_def)
next
  case (Found now units dev)
  then show ?thesis using origin_other [OF assms(1)]
    by (auto simp: view_of_def pending_of_def record_share_found_def Let_def)
next
  case (ResultCode now code)
  show ?thesis
  proof (cases "take_pending p (st_submits s)")
    case None
    then show ?thesis using origin_other [OF assms(1)] ResultCode
      by (auto simp: view_of_def pending_of_def record_result_def Let_def count_result_def)
  next
    case (Some r)
    obtain x rest where r: "r = (x, rest)" by fastforce
    note T = take_pending_spec [OF Some [unfolded r]]
    show ?thesis using origin_other [OF assms(1)] ResultCode Some r T
      by (auto simp: view_of_def pending_of_def record_result_def Let_def count_result_def)
  qed
next
  case (NewJob ident units)
  then show ?thesis using origin_other [OF assms(1)]
    by (auto simp: view_of_def pending_of_def record_job_def)
qed

lemma view_own:
  assumes "length (st_submits s) + share_cost e \<le> 64" "length (st_submits t) + share_cost e \<le> 64"
    and v: "view_of p s = view_of p t"
  shows "view_of p (share_step p e s) = view_of p (share_step p e t)"
proof (cases e)
  case (Submit now job dev)
  then have "length (st_submits s) < 64" "length (st_submits t) < 64" using assms(1,2) by simp_all
  note F = this [THEN record_submit_fits]
  have "current_job_units p s = current_job_units p t"
    using v by (cases p) (simp_all add: view_of_def current_job_units_def)
  with v show ?thesis
    by (cases p) (simp_all add: Submit F view_of_def pending_of_def)
next
  case (Found now units dev)
  then show ?thesis using v
    by (cases p) (auto simp: view_of_def pending_of_def record_share_found_def Let_def)
next
  case (ResultCode now code)
  have pend: "pending_of p s = pending_of p t" using v by (cases p) (simp_all add: view_of_def)
  show ?thesis
  proof (cases "pending_of p s")
    case Nil
    then have "take_pending p (st_submits s) = None" "take_pending p (st_submits t) = None"
      using pend by (simp_all add: take_pending_None pending_of_def)
    then show ?thesis using v ResultCode
      by (cases p) (auto simp: view_of_def pending_of_def record_result_def Let_def count_result_def)
  next
    case (Cons x xs)
    then have "take_pending p (st_submits s) \<noteq> None" "take_pending p (st_submits t) \<noteq> None"
      using pend by (simp_all only: take_pending_None) (simp_all add: pending_of_def)
    then obtain x1 r1 x2 r2 where T: "take_pending p (st_submits s) = Some (x1, r1)"
      "take_pending p (st_submits t) = Some (x2, r2)" by fastforce
    have S: "x1 = x" "filter (\<lambda>y. ps_origin y = p) r1 = xs" "x2 = x" "filter (\<lambda>y. ps_origin y = p) r2 = xs"
      using take_pending_spec [OF T(1)] take_pending_spec [OF T(2)] Cons pend by (simp_all add: pending_of_def)
    show ?thesis using v ResultCode T S
      by (cases p) (auto simp: view_of_def pending_of_def record_result_def Let_def count_result_def)
  qed
next
  case (NewJob ident units)
  then show ?thesis using v
    by (cases p) (auto simp: view_of_def pending_of_def record_job_def)
qed

lemma load_share_step: "length (st_submits (share_step p e s)) \<le> length (st_submits s) + share_cost e"
proof (cases e)
  case (ResultCode now code)
  then show ?thesis
    by (auto simp: record_result_def Let_def split: option.splits dest: take_pending_spec)
qed (auto simp: record_submit_def record_share_found_def record_job_def Let_def length_drop_to)

interpretation ledgers: two_ledgers share_step view_of share_cost "\<lambda>s. length (st_submits s)" 64
  by (rule two_ledgers.intro) (fact view_other view_own load_share_step)+

section \<open>Bounded memory\<close>

text \<open>Every operation of the store, as a value.\<close>

datatype stats_op =
    OpAttempt int u32 nat
  | OpShare origin share_event
  | OpLabels "string list"
  | OpDriver string
  | OpTelemetry "(nat \<Rightarrow> device \<Rightarrow> device) option"
  | OpFeeRate double
  | OpFeeActive bool
  | OpFeeSlice double
  | OpConnect string int
  | OpDisconnect
  | OpSnapshot int

fun stats_apply :: "stats_op \<Rightarrow> stats \<Rightarrow> stats" where
  "stats_apply (OpAttempt now c d) s = record_attempt now c d s"
| "stats_apply (OpShare orig e) s = share_step orig e s"
| "stats_apply (OpLabels ls) s = set_device_labels ls s"
| "stats_apply (OpDriver v) s = set_driver_version v s"
| "stats_apply (OpTelemetry f) s = set_telemetry_source f s"
| "stats_apply (OpFeeRate r) s = set_devfee_rate r s"
| "stats_apply (OpFeeActive b) s = set_devfee_active b s"
| "stats_apply (OpFeeSlice d) s = record_devfee_slice d s"
| "stats_apply (OpConnect p ms) s = record_connect p ms s"
| "stats_apply OpDisconnect s = record_disconnect s"
| "stats_apply (OpSnapshot now) s = snd (snapshot now s)"

definition stats_inv :: "stats \<Rightarrow> bool" where
  "stats_inv s \<longleftrightarrow> length (st_submits s) \<le> kSubmitCap \<and> length (st_found s) \<le> kRecentShares \<and>
    st_devices s \<noteq> [] \<and> 0 \<le> st_best_share_units s \<and>
    (\<forall>d \<in> set (st_devices s). dl_best_share_units d \<le> st_best_share_units s)"

lemma update_device_nonempty [simp]: "update_device i f ds \<noteq> [] \<longleftrightarrow> ds \<noteq> []"
  by (simp add: update_device_def)

lemma update_device_all:
  assumes "\<forall>d \<in> set ds. P d" "\<And>d. d \<in> set ds \<Longrightarrow> Q (f d)" "\<And>d. P d \<Longrightarrow> Q d"
  shows "\<forall>d \<in> set (update_device i f ds). Q d"
proof
  fix d assume d: "d \<in> set (update_device i f ds)"
  then have "d \<in> set ds \<or> i < length ds \<and> d = f (ds ! i)"
    using set_update_subset_insert [of ds i "f (ds ! i)"] by (auto simp: update_device_def split: if_splits)
  then show "Q d" using assms by (metis nth_mem)
qed

lemma ledger_result_best [simp]: "dl_best_share_units (ledger_result code d) = dl_best_share_units d"
  by (simp add: ledger_result_def)

lemma count_result_frame2 [simp]:
  "st_found (count_result code orig s) = st_found s"
  "st_best_share_units (count_result code orig s) = st_best_share_units s"
  by (simp_all add: count_result_def)

lemma record_result_inv: "stats_inv s \<Longrightarrow> stats_inv (record_result now code orig s)"
proof (cases "take_pending orig (st_submits s)")
  case (Some r)
  assume inv: "stats_inv s"
  obtain p rest where r: "r = (p, rest)" by fastforce
  have "length rest \<le> kSubmitCap" using take_pending_spec [OF Some [unfolded r]] inv by (simp add: stats_inv_def)
  moreover have "\<forall>d \<in> set (update_device (ps_device p) (ledger_result code) (st_devices s)).
      dl_best_share_units d \<le> st_best_share_units s"
    using inv by (intro update_device_all [where P = "\<lambda>d. dl_best_share_units d \<le> st_best_share_units s"])
      (auto simp: stats_inv_def)
  ultimately show ?thesis using inv Some r by (simp add: stats_inv_def record_result_def Let_def)
qed (simp add: stats_inv_def record_result_def)

lemma record_share_found_inv: "stats_inv s \<Longrightarrow> stats_inv (record_share_found now u orig dev s)"
proof -
  assume inv: "stats_inv s"
  let ?b = "if u > st_best_share_units s then u else st_best_share_units s"
  have "\<forall>d \<in> set (update_device dev (\<lambda>d. if u > dl_best_share_units d then d\<lparr>dl_best_share_units := u\<rparr> else d)
      (st_devices s)). dl_best_share_units d \<le> ?b"
    using inv by (intro update_device_all [where P = "\<lambda>d. dl_best_share_units d \<le> st_best_share_units s"])
      (auto simp: stats_inv_def split: if_splits)
  with inv show ?thesis
    by (auto simp: stats_inv_def record_share_found_def Let_def length_drop_to)
qed

lemma record_attempt_inv: "stats_inv s \<Longrightarrow> stats_inv (record_attempt now c dev s)"
proof -
  assume inv: "stats_inv s"
  define f where "f = (\<lambda>d :: dev_ledger. d\<lparr>dl_total_candidates := dl_total_candidates d + ucast (c :: u32),
    dl_attempts := dl_attempts d + 1\<rparr>)"
  have "\<forall>d \<in> set (update_device dev f (st_devices s)). dl_best_share_units d \<le> st_best_share_units s"
    using inv by (intro update_device_all [where P = "\<lambda>d. dl_best_share_units d \<le> st_best_share_units s"])
      (auto simp: stats_inv_def f_def)
  then have "\<forall>d \<in> set (st_devices (record_attempt now c dev s)). dl_best_share_units d \<le> st_best_share_units s"
    by (simp add: record_attempt_def f_def)
  with inv show ?thesis by (simp add: stats_inv_def record_attempt_def)
qed

lemma fold_series_frame: "\<exists>a b c. fold_series now sn s =
    s\<lparr>st_series_sampled := a, st_last_series_sample := b, st_series := c\<rparr>"
proof (cases "\<not> st_series_sampled s \<or> now - st_last_series_sample s \<ge> kSeriesInterval")
  case True
  then show ?thesis unfolding fold_series_def Let_def by (simp only: if_True) blast
next
  case False
  then show ?thesis unfolding fold_series_def
    by (intro exI [of _ "st_series_sampled s"] exI [of _ "st_last_series_sample s"] exI [of _ "st_series s"]) simp
qed

lemma snapshot_state: "\<exists>a b c. snd (snapshot now s) =
    s\<lparr>st_series_sampled := a, st_last_series_sample := b, st_series := c\<rparr>"
  unfolding snapshot_def Let_def snd_conv by (rule fold_series_frame)

lemma snapshot_inv: "stats_inv s \<Longrightarrow> stats_inv (snd (snapshot now s))"
  using snapshot_state [of now s] by (auto simp: stats_inv_def)

lemma share_step_inv: "stats_inv s \<Longrightarrow> stats_inv (share_step orig e s)"
  by (cases e) (simp_all add: record_result_inv record_share_found_inv,
      auto simp: stats_inv_def record_submit_def record_job_def length_drop_to)

lemma stats_apply_inv: "stats_inv s \<Longrightarrow> stats_inv (stats_apply opn s)"
  by (cases opn) (simp_all add: record_attempt_inv share_step_inv snapshot_inv,
      auto simp: stats_inv_def set_device_labels_def ledger0_def set_driver_version_def
        set_telemetry_source_def set_devfee_rate_def set_devfee_active_def record_devfee_slice_def
        record_connect_def record_disconnect_def)

lemma stats_run_inv: "stats_inv s \<Longrightarrow> stats_inv (fold stats_apply ops s)"
  by (induction ops arbitrary: s) (simp_all add: stats_apply_inv)

lemma stats_new_inv: "stats_inv (stats_new now)"
  by (simp add: stats_inv_def stats_new_def ledger0_def)

section \<open>The windows\<close>

text \<open>The rig's figures are the sums of the devices' when every attempt names a known device.\<close>

definition tally_ok :: "nat \<Rightarrow> window_tally \<Rightarrow> bool" where
  "tally_ok n w \<longleftrightarrow> length (wt_dev15 w) = n \<and> length (wt_dev60 w) = n \<and> length (wt_devn60 w) = n \<and>
    wt_cand15 w = sum_list (wt_dev15 w) \<and> wt_cand60 w = sum_list (wt_dev60 w) \<and>
    wt_n60 w = sum_list (wt_devn60 w)"

lemma tally_event_ok:
  assumes "tally_ok n w" "ev_device e < n"
  shows "tally_ok n (tally_event now n w e)"
  using assms by (auto simp: tally_ok_def tally_event_def bump_at_def Let_def sum_list_update_word)

lemma tally_fold_ok:
  assumes "tally_ok n w" "\<forall>e \<in> set es. ev_device e < n"
  shows "tally_ok n (foldl (tally_event now n) w es)"
  using assms by (induction es arbitrary: w) (simp_all add: tally_event_ok)

lemma sum_replicate_0: "sum_list (replicate n (0 :: u64)) = 0"
  by (induction n) simp_all

text \<open>The attempt log, with a clock that does not run backwards.\<close>

definition log_ok :: "int \<Rightarrow> attempt list \<Rightarrow> bool" where
  "log_ok now es \<longleftrightarrow> sorted (map ev_t es) \<and> (\<forall>e \<in> set es. ev_t e \<le> now)"

lemma record_attempt_log:
  assumes "log_ok t0 (st_attempts s)" "t0 \<le> now"
  shows "log_ok now (st_attempts (record_attempt now c dev s))"
    and "st_attempts (record_attempt now c dev s) =
      filter (\<lambda>e. now - ev_t e \<le> kPruneAge)
        (st_attempts s @ [\<lparr>ev_t = now, ev_candidates = c, ev_device = dev\<rparr>])"
proof -
  let ?es = "st_attempts s @ [\<lparr>ev_t = now, ev_candidates = c, ev_device = dev\<rparr>]"
  have s: "sorted (map ev_t ?es)" "\<forall>e \<in> set ?es. ev_t e \<le> now"
    using assms by (auto simp: log_ok_def sorted_append)
  have D: "dropWhile (\<lambda>e. now - ev_t e > kPruneAge) es = filter (\<lambda>e. now - ev_t e \<le> kPruneAge) es"
    if "sorted (map ev_t es)" for es
    using that by (induction es) (auto simp: filter_id_conv intro!: filter_True [symmetric])
  show E: "st_attempts (record_attempt now c dev s) = filter (\<lambda>e. now - ev_t e \<le> kPruneAge) ?es"
    unfolding record_attempt_def prune_attempts_def using D [OF s(1)] by simp
  have "sorted (map ev_t (filter (\<lambda>e. now - ev_t e \<le> kPruneAge) ?es))" using s(1) by (rule sorted_filter)
  moreover have "\<forall>e \<in> set (filter (\<lambda>e. now - ev_t e \<le> kPruneAge) ?es). ev_t e \<le> now" using s(2) by simp
  ultimately show "log_ok now (st_attempts (record_attempt now c dev s))"
    unfolding E log_ok_def by (rule conjI)
qed

section \<open>Properties\<close>

text \<open>
  Non-interference of the two ledgers: from a fresh store, after any interleaving of share
  events of the two connections with at most 64 submissions, everything the store holds for one
  connection (counters, job, pending queue, banked difficulty, latency, best share and device
  rows) is what it would be had the other connection never existed.
\<close>
theorem ledgers_do_not_interfere:
  assumes "(\<Sum>(orig, e)\<leftarrow>es. share_cost e) \<le> 64"
  shows "view_of q (fold (\<lambda>(orig, e). share_step orig e) es (stats_new t0)) =
    view_of q (fold (\<lambda>(orig, e). share_step orig e) (filter (\<lambda>(orig, e). orig = q) es) (stats_new t0))"
  using assms by (intro ledgers.purge) (simp_all add: stats_new_def)

theorem ledgers_do_not_interfere_witness:
  "view_of Main (fold (\<lambda>(orig, e). share_step orig e)
      [(Main, Submit 1 ''a'' 0), (Dev, Submit 2 ''b'' 0), (Dev, ResultCode 3 1)] (stats_new 0)) =
   view_of Main (share_step Main (Submit 1 ''a'' 0) (stats_new 0))"
  using ledgers_do_not_interfere [of "[(Main, Submit 1 ''a'' 0), (Dev, Submit 2 ''b'' 0), (Dev, ResultCode 3 1)]"
      Main 0] by simp

text \<open>
  Whatever is recorded, in whatever order, the pending queue holds at most 64 submissions and
  the share log 128 shares, there is at least one device row, and no row's best share exceeds the
  user's best.
\<close>
theorem stats_bounded:
  "stats_inv (fold stats_apply ops (stats_new t0))"
  by (rule stats_run_inv [OF stats_new_inv])

text \<open>
  After any nonempty sequence of fewer than 2^53 doubles a running summary counts them all,
  its minimum and maximum are those of the values, the rounded running mean lies between them, and
  the sum of squared deviations is not negative.
\<close>
theorem summaries_bracket_mean:
  assumes "\<forall>v \<in> set vs. dbl v = v" "length vs < 2 ^ 53" "vs \<noteq> []"
  defines "s \<equiv> fold series_add vs series0"
  shows "unat (ser_n s) = length vs \<and> ser_min s = Min (set vs) \<and> ser_max s = Max (set vs) \<and>
    ser_min s \<le> ser_mean s \<and> ser_mean s \<le> ser_max s \<and> 0 \<le> ser_m2 s"
proof -
  from series_fold [OF assms(1,2)] have S: "series_ok s" "unat (ser_n s) = length vs"
    "ser_min s = Min (set vs)" "ser_max s = Max (set vs)" using assms(3) by (simp_all add: s_def)
  have "ser_n s \<noteq> 0" using S(2) assms(3) by (metis length_0_conv unat_0)
  with S show ?thesis by (simp add: series_ok_def)
qed

theorem summaries_bracket_mean_witness:
  "ser_min (fold series_add [3, 1, 2] series0) = 1 \<and> ser_max (fold series_add [3, 1, 2] series0) = 3 \<and>
    ser_mean (fold series_add [3, 1, 2] series0) \<le> 3"
  using summaries_bracket_mean [of "[3, 1, 2]"] dbl_int [of 1] dbl_int [of 2] dbl_int [of 3] by simp

text \<open>
  When every attempt in the log names a configured device, the rig's windowed candidate and
  attempt counts are the sums of the devices' own.
\<close>
theorem rig_rate_is_sum_of_devices:
  fixes now :: int
  assumes "\<forall>e \<in> set (st_attempts s). ev_device e < length (st_devices s)"
  defines "w \<equiv> window_tally_of now s"
  shows "wt_cand15 w = sum_list (wt_dev15 w) \<and> wt_cand60 w = sum_list (wt_dev60 w) \<and>
    wt_n60 w = sum_list (wt_devn60 w) \<and> length (wt_dev15 w) = length (st_devices s)"
proof -
  have "tally_ok (length (st_devices s)) (tally0 (length (st_devices s)))"
    by (simp add: tally_ok_def tally0_def sum_replicate_0)
  from tally_fold_ok [OF this assms(1)] show ?thesis by (simp add: w_def window_tally_of_def tally_ok_def)
qed

theorem rig_rate_is_sum_of_devices_witness:
  "wt_cand15 (window_tally_of 9 (record_attempt 5 3 0 (stats_new 0))) =
    sum_list (wt_dev15 (window_tally_of 9 (record_attempt 5 3 0 (stats_new 0))))"
  using rig_rate_is_sum_of_devices [of "record_attempt 5 3 0 (stats_new 0)" 9]
  by (simp add: record_attempt_def stats_new_def prune_attempts_def kPruneAge_def update_device_def)

text \<open>
  With a clock that does not run backwards, the attempt log after a solve is the old log and
  the new attempt, in order, less exactly the attempts older than fifteen minutes; so the windows
  of 15 and 60 seconds never miss an attempt.
\<close>
theorem attempt_log_pruned_exactly:
  assumes "log_ok t0 (st_attempts s)" "t0 \<le> now"
  shows "log_ok now (st_attempts (record_attempt now c dev s)) \<and>
    st_attempts (record_attempt now c dev s) =
      filter (\<lambda>e. now - ev_t e \<le> kPruneAge)
        (st_attempts s @ [\<lparr>ev_t = now, ev_candidates = c, ev_device = dev\<rparr>])"
  using record_attempt_log [OF assms] by simp

theorem attempt_log_pruned_exactly_witness:
  "st_attempts (record_attempt 1000000000000 2 0 (record_attempt 5 3 0 (stats_new 0))) =
    [\<lparr>ev_t = 1000000000000, ev_candidates = 2, ev_device = 0\<rparr>]"
  using attempt_log_pruned_exactly [of 5 "record_attempt 5 3 0 (stats_new 0)" 1000000000000 2 0]
  by (simp add: record_attempt_def stats_new_def prune_attempts_def kPruneAge_def update_device_def log_ok_def)

end
