(* ===== verification/DevFee.thy ===== *)
theory DevFee
  imports Printf Stratum Stats
begin

text \<open>
  The developer fee (src/miner/devfee.h, src/miner/devfee.cpp): what it charges, the login of the
  fee connection, the accrual clock and the router that decides which pool's job the solver has.
  The router's contract with the solver is the locale \<open>job_switch\<close>: whatever arrives, the solver
  holds the latest job of the active pool.
\<close>

section \<open>What is charged\<close>

definition kDevFeeRate :: double where "kDevFeeRate = dbl (1 / 100)"
definition kDevFeeCycle :: int where "kDevFeeCycle = 3600"
definition kDevAddress :: string where
  "kDevAddress = ''12cafbe121b5f063d2c63152058575479a2826a41fd4176296dae2e8ad3fc9ffc60''"
definition kDevPoolHost :: string where "kDevPoolHost = ''beam.herominers.com''"
definition kDevPoolPort :: u16 where "kDevPoolPort = 1130"
definition kDevPoolTls :: bool where "kDevPoolTls = True"

record fee_pool =
  fp_host :: string
  fp_port :: u16
  fp_tls :: bool
  fp_user :: string
  fp_pass :: string

text \<open>The cycle is in seconds.\<close>

record schedule =
  sc_rate :: double
  sc_cycle :: int

definition slice :: "schedule \<Rightarrow> int" where
  "slice s = llround (dmul (sc_rate s) (d_of_int (sc_cycle s)))"

definition devfee_pool :: fee_pool where
  "devfee_pool = \<lparr>fp_host = kDevPoolHost, fp_port = kDevPoolPort, fp_tls = kDevPoolTls,
     fp_user = kDevAddress, fp_pass = ''''\<rparr>"

definition devfee_schedule :: schedule where
  "devfee_schedule = \<lparr>sc_rate = kDevFeeRate, sc_cycle = kDevFeeCycle\<rparr>"

definition devfee_configured :: bool where
  "devfee_configured \<longleftrightarrow> kDevAddress \<noteq> '''' \<and> kDevFeeRate > 0 \<and> slice devfee_schedule > 0"

section \<open>The login of the fee connection\<close>

definition worker_char :: "char \<Rightarrow> bool" where
  "worker_char c = (let n = (of_char c :: nat) in
     97 \<le> n \<and> n \<le> 122 \<or> 65 \<le> n \<and> n \<le> 90 \<or> 48 \<le> n \<and> n \<le> 57 \<or> c = CHR ''_'' \<or> c = CHR ''-'')"

text \<open>What follows the first dot, or nothing.\<close>

definition worker_of :: "string \<Rightarrow> string" where
  "worker_of credential = (case dropWhile (\<lambda>c. c \<noteq> CHR ''.'') credential of [] \<Rightarrow> '''' | _ # w \<Rightarrow> w)"

fun sanitise :: "string \<Rightarrow> string \<Rightarrow> string" where
  "sanitise clean [] = clean"
| "sanitise clean (c # cs) =
    (let clean = (if worker_char c then clean @ [c] else clean)
     in if length clean \<ge> 32 then clean else sanitise clean cs)"

definition devfee_login :: "string \<Rightarrow> string \<Rightarrow> double \<Rightarrow> string" where
  "devfee_login dev_address user_credential rate =
    (let clean = sanitise '''' (worker_of user_credential);
         clean = (if clean = '''' then ''mxbm'' else clean)
     in dev_address @ ''.'' @ clean @ ''_'' @ fmt_g 6 (dmul rate 100))"

section \<open>The accrual clock\<close>

record accrual =
  ac_schedule :: schedule
  ac_debt :: double

definition accrual_new :: "schedule \<Rightarrow> accrual" where
  "accrual_new s = \<lparr>ac_schedule = s, ac_debt = 0\<rparr>"

definition add_mining_time :: "double \<Rightarrow> accrual \<Rightarrow> accrual" where
  "add_mining_time dt a =
    (if dt \<le> 0 then a else a\<lparr>ac_debt := dadd (ac_debt a) (dmul (sc_rate (ac_schedule a)) dt)\<rparr>)"

definition slice_due :: "accrual \<Rightarrow> bool" where
  "slice_due a = (let s = slice (ac_schedule a) in if s \<le> 0 then False else ac_debt a \<ge> d_of_int s)"

definition slice_len :: "accrual \<Rightarrow> int" where
  "slice_len a = slice (ac_schedule a)"

definition settle :: "double \<Rightarrow> accrual \<Rightarrow> accrual" where
  "settle spent a =
    (let d = dsub (ac_debt a) spent in a\<lparr>ac_debt := if d < 0 then 0 else d\<rparr>)"

section \<open>The router\<close>

record job_slot =
  sl_job :: job
  sl_prefix :: string
  sl_present :: bool
  sl_at :: int

record router =
  rt_main :: job_slot
  rt_dev :: job_slot
  rt_active :: origin

type_synonym dispatch = "job \<times> string \<times> origin"

definition slot0 :: job_slot where
  "slot0 = \<lparr>sl_job = \<lparr>j_id = '''', j_input = '''', j_difficulty = 0, j_height = 0\<rparr>, sl_prefix = '''',
     sl_present = False, sl_at = 0\<rparr>"

definition router_new :: router where
  "router_new = \<lparr>rt_main = slot0, rt_dev = slot0, rt_active = Main\<rparr>"

definition router_slot :: "origin \<Rightarrow> router \<Rightarrow> job_slot" where
  "router_slot orig r = (if orig = Dev then rt_dev r else rt_main r)"

definition put_slot :: "origin \<Rightarrow> job_slot \<Rightarrow> router \<Rightarrow> router" where
  "put_slot orig s r = (if orig = Dev then r\<lparr>rt_dev := s\<rparr> else r\<lparr>rt_main := s\<rparr>)"

text \<open>Each operation returns what it hands to the solver.\<close>

definition offer :: "int \<Rightarrow> job \<Rightarrow> string \<Rightarrow> origin \<Rightarrow> router \<Rightarrow> router \<times> dispatch list" where
  "offer now job nonceprefix orig r =
    (let r' = put_slot orig \<lparr>sl_job = job, sl_prefix = nonceprefix, sl_present = True, sl_at = now\<rparr> r
     in (r', if orig = rt_active r' then [(job, nonceprefix, orig)] else []))"

definition set_active :: "origin \<Rightarrow> router \<Rightarrow> router \<times> dispatch list" where
  "set_active orig r =
    (if orig = rt_active r then (r, [])
     else let r' = r\<lparr>rt_active := orig\<rparr>; s = router_slot orig r'
          in (r', if sl_present s then [(sl_job s, sl_prefix s, orig)] else []))"

definition router_has :: "origin \<Rightarrow> router \<Rightarrow> bool" where
  "router_has orig r = sl_present (router_slot orig r)"

definition router_clear :: "origin \<Rightarrow> router \<Rightarrow> router" where
  "router_clear orig r = put_slot orig ((router_slot orig r)\<lparr>sl_present := False\<rparr>) r"

definition router_fresh :: "int \<Rightarrow> origin \<Rightarrow> int \<Rightarrow> router \<Rightarrow> bool" where
  "router_fresh now orig max_age r \<longleftrightarrow>
    sl_present (router_slot orig r) \<and> now - sl_at (router_slot orig r) \<le> max_age"

datatype router_op = Offer int job string origin | Activate origin | Clear origin

fun router_apply :: "router_op \<Rightarrow> router \<Rightarrow> router \<times> dispatch list" where
  "router_apply (Offer now j p orig) r = offer now j p orig r"
| "router_apply (Activate orig) r = set_active orig r"
| "router_apply (Clear orig) r = (router_clear orig r, [])"

text \<open>A sequence of operations, with everything dispatched, in order.\<close>

fun router_run :: "router_op list \<Rightarrow> router \<Rightarrow> router \<times> dispatch list" where
  "router_run [] r = (r, [])"
| "router_run (x # xs) r =
    (let (r1, d1) = router_apply x r; (r2, d2) = router_run xs r1 in (r2, d1 @ d2))"

section \<open>Lemmas\<close>

lemma slot_put [simp]:
  "router_slot x (put_slot y s r) = (if x = y then s else router_slot x r)"
  "rt_active (put_slot y s r) = rt_active r"
  by (cases x; cases y; simp add: router_slot_def put_slot_def)+

lemma slot_active [simp]: "router_slot x (r\<lparr>rt_active := y\<rparr>) = router_slot x r"
  by (simp add: router_slot_def)

text \<open>
  The contract: \<open>holding d\<close> is what the solver has after dispatches \<open>d\<close>; \<open>offered\<close> is the
  latest usable job of a pool.
\<close>

definition cached :: "origin \<Rightarrow> router \<Rightarrow> dispatch option" where
  "cached orig r = (let s = router_slot orig r in
     if sl_present s then Some (sl_job s, sl_prefix s, orig) else None)"

definition holding :: "dispatch option \<Rightarrow> dispatch list \<Rightarrow> dispatch option" where
  "holding h ds = (if ds = [] then h else Some (last ds))"

lemma holding_append: "holding h (xs @ ys) = holding (holding h xs) ys"
  by (simp add: holding_def)

locale job_switch =
  fixes step :: "'op \<Rightarrow> 'r \<Rightarrow> 'r \<times> dispatch list"
    and pool_job :: "origin \<Rightarrow> 'r \<Rightarrow> dispatch option"
    and current :: "'r \<Rightarrow> origin"
  assumes step_dispatch: "step x r = (r', ds) \<Longrightarrow> pool_job (current r') r' = Some d \<Longrightarrow>
      ds = [] \<and> current r' = current r \<and> pool_job (current r) r = Some d \<or> ds \<noteq> [] \<and> last ds = d"
    and step_origin: "step x r = (r', ds) \<Longrightarrow> (j, p, orig) \<in> set ds \<Longrightarrow> orig = current r'"
begin

fun run :: "'op list \<Rightarrow> 'r \<Rightarrow> 'r \<times> dispatch list" where
  "run [] r = (r, [])"
| "run (x # xs) r = (let (r1, d1) = step x r; (r2, d2) = run xs r1 in (r2, d1 @ d2))"

definition in_sync :: "'r \<Rightarrow> dispatch option \<Rightarrow> bool" where
  "in_sync r h \<longleftrightarrow> (\<forall>d. pool_job (current r) r = Some d \<longrightarrow> h = Some d)"

lemma in_sync_step:
  assumes "in_sync r h" "step x r = (r', ds)"
  shows "in_sync r' (holding h ds)"
  using assms step_dispatch [OF assms(2)] unfolding in_sync_def holding_def by (metis (full_types))

lemma in_sync_run: "in_sync r h \<Longrightarrow> run xs r = (r', ds) \<Longrightarrow> in_sync r' (holding h ds)"
proof (induction xs arbitrary: r h r' ds)
  case Nil
  then show ?case by (simp add: holding_def)
next
  case (Cons x xs)
  obtain r1 d1 where s: "step x r = (r1, d1)" by (cases "step x r")
  obtain r2 d2 where t: "run xs r1 = (r2, d2)" by (cases "run xs r1")
  from Cons.IH [OF in_sync_step [OF Cons.prems(1) s] t] Cons.prems(2) s t
  show ?case by (auto simp: holding_append)
qed

end

interpretation js: job_switch router_apply cached rt_active
proof
  fix x r r' ds d
  assume s: "router_apply x r = (r', ds)" and c: "cached (rt_active r') r' = Some d"
  show "ds = [] \<and> rt_active r' = rt_active r \<and> cached (rt_active r) r = Some d \<or> ds \<noteq> [] \<and> last ds = d"
    using s c by (cases x) (auto simp: offer_def set_active_def router_clear_def cached_def Let_def split: if_splits)
next
  fix x r r' ds j p orig
  assume "router_apply x r = (r', ds)" "(j, p, orig) \<in> set ds"
  then show "orig = rt_active r'"
    by (cases x) (auto simp: offer_def set_active_def Let_def split: if_splits)
qed

lemma router_run_eq: "router_run xs r = js.run xs r"
  by (induction xs arbitrary: r) (simp_all add: Let_def split: prod.splits)


section \<open>The latest job of a pool\<close>

text \<open>Of a history, newest operation first: what the pool last sent since it last dropped.\<close>

fun latest_job :: "origin \<Rightarrow> router_op list \<Rightarrow> (job \<times> string) option" where
  "latest_job orig [] = None"
| "latest_job orig (Offer now j p o' # xs) = (if o' = orig then Some (j, p) else latest_job orig xs)"
| "latest_job orig (Clear o' # xs) = (if o' = orig then None else latest_job orig xs)"
| "latest_job orig (Activate o' # xs) = latest_job orig xs"

fun active_pool :: "router_op list \<Rightarrow> origin" where
  "active_pool [] = Main"
| "active_pool (Activate orig # xs) = orig"
| "active_pool (x # xs) = active_pool xs"

lemma router_run_snoc:
  "router_run (xs @ [x]) r =
    (let (r1, d1) = router_run xs r; (r2, d2) = router_apply x r1 in (r2, d1 @ d2))"
  by (induction xs arbitrary: r) (simp_all add: Let_def split: prod.splits)

lemma cached_put:
  "cached x (put_slot y s r) =
    (if x = y then if sl_present s then Some (sl_job s, sl_prefix s, x) else None else cached x r)"
  by (simp add: cached_def Let_def)

lemma cached_active: "cached x (r\<lparr>rt_active := y\<rparr>) = cached x r"
  by (simp add: cached_def)

lemma router_history:
  "router_run xs router_new = (r, ds) \<Longrightarrow>
    rt_active r = active_pool (rev xs) \<and>
    (\<forall>orig. cached orig r = map_option (\<lambda>(j, p). (j, p, orig)) (latest_job orig (rev xs)))"
proof (induction xs arbitrary: r ds rule: rev_induct)
  case Nil
  then show ?case by (auto simp: router_new_def cached_def router_slot_def slot0_def)
next
  case (snoc x xs)
  obtain r1 d1 where s: "router_run xs router_new = (r1, d1)" by (cases "router_run xs router_new")
  note IH = snoc.IH [OF s]
  from snoc.prems s obtain d2 where "router_apply x r1 = (r, d2)"
    by (auto simp: router_run_snoc split: prod.splits)
  with IH show ?case
    by (cases x) (auto simp: offer_def set_active_def router_clear_def cached_put cached_active Let_def split: if_splits)
qed

lemma latest_job_offered: "latest_job orig xs = Some (j, p) \<Longrightarrow> \<exists>now. Offer now j p orig \<in> set xs"
  by (induction orig xs rule: latest_job.induct) (auto split: if_splits)

text \<open>Nothing reaches the solver that its pool did not send.\<close>

lemma dispatched_was_offered:
  "router_run xs router_new = (r, ds) \<Longrightarrow> (j, p, orig) \<in> set ds \<Longrightarrow> \<exists>now. Offer now j p orig \<in> set xs"
proof (induction xs arbitrary: r ds rule: rev_induct)
  case (snoc x xs)
  obtain r1 d1 where s: "router_run xs router_new = (r1, d1)" by (cases "router_run xs router_new")
  from snoc.prems(1) s obtain d2 where x: "router_apply x r1 = (r, d2)" and ds: "ds = d1 @ d2"
    by (auto simp: router_run_snoc split: prod.splits)
  show ?case
  proof (cases "(j, p, orig) \<in> set d1")
    case True
    with snoc.IH [OF s] show ?thesis by auto
  next
    case False
    with snoc.prems(2) ds have d: "(j, p, orig) \<in> set d2" by simp
    show ?thesis
    proof (cases x)
      case (Offer now j' p' orig')
      with x d show ?thesis by (auto simp: offer_def Let_def split: if_splits)
    next
      case (Activate orig')
      with x d have "cached orig r1 = Some (j, p, orig)"
        by (auto simp: set_active_def Let_def cached_def split: if_splits)
      with router_history [OF s] have "latest_job orig (rev xs) = Some (j, p)" by auto
      from latest_job_offered [OF this] show ?thesis by auto
    next
      case (Clear orig')
      with x d show ?thesis by simp
    qed
  qed
qed simp

text \<open>
  Whatever the two pools send and however often the solver is switched between them, what the
  router last handed to the solver is the newest job of the pool that is active, unless that pool has
  dropped since; so switching back resumes with the job that arrived during the fee round.
\<close>
theorem solver_has_latest_job:
  assumes "router_run xs router_new = (r, ds)" "latest_job (active_pool (rev xs)) (rev xs) = Some (j, p)"
  shows "ds \<noteq> [] \<and> last ds = (j, p, active_pool (rev xs))"
proof -
  have "js.in_sync router_new None"
    by (simp add: js.in_sync_def cached_def router_new_def router_slot_def slot0_def)
  from js.in_sync_run [OF this, of xs r ds] assms(1)
  have "js.in_sync r (holding None ds)" by (simp add: router_run_eq)
  with router_history [OF assms(1)] assms(2) show ?thesis
    by (simp add: js.in_sync_def holding_def split: if_splits)
qed

theorem solver_has_latest_job_witness:
  "let j = \<lambda>n. \<lparr>j_id = n, j_input = '''', j_difficulty = 0, j_height = 0\<rparr>;
       ops = [Offer 0 (j ''1'') ''aa'' Main, Offer 1 (j ''9'') ''bb'' Dev, Activate Dev,
              Offer 2 (j ''2'') ''aa'' Main, Activate Main]
   in snd (router_run ops router_new) \<noteq> [] \<and> last (snd (router_run ops router_new)) = (j ''2'', ''aa'', Main)"
proof -
  let ?j = "\<lambda>n. \<lparr>j_id = n, j_input = '''', j_difficulty = 0, j_height = 0\<rparr>"
  let ?ops = "[Offer 0 (?j ''1'') ''aa'' Main, Offer 1 (?j ''9'') ''bb'' Dev, Activate Dev,
              Offer 2 (?j ''2'') ''aa'' Main, Activate Main]"
  have a: "active_pool (rev ?ops) = Main"
    and l: "latest_job (active_pool (rev ?ops)) (rev ?ops) = Some (?j ''2'', ''aa'')" by simp_all
  show ?thesis unfolding Let_def
    by (rule solver_has_latest_job [OF prod.collapse [symmetric] l, unfolded a])
qed

section \<open>The charge\<close>

datatype fee_step = Mined double | Round double

fun fee_apply :: "fee_step \<Rightarrow> accrual \<Rightarrow> accrual" where
  "fee_apply (Mined dt) a = add_mining_time dt a"
| "fee_apply (Round t) a = settle t a"

text \<open>A round runs when one is due, and no longer than its length.\<close>

fun fee_trace :: "fee_step list \<Rightarrow> accrual \<Rightarrow> bool" where
  "fee_trace [] a = True"
| "fee_trace (Mined dt # xs) a = fee_trace xs (add_mining_time dt a)"
| "fee_trace (Round t # xs) a =
    (slice_due a \<and> 0 \<le> t \<and> t \<le> d_of_int (slice_len a) \<and> fee_trace xs (settle t a))"

fun mined_time :: "fee_step list \<Rightarrow> rat" where
  "mined_time [] = 0"
| "mined_time (Mined dt # xs) = max 0 dt + mined_time xs"
| "mined_time (Round t # xs) = mined_time xs"

fun fee_time :: "fee_step list \<Rightarrow> rat" where
  "fee_time [] = 0"
| "fee_time (Round t # xs) = t + fee_time xs"
| "fee_time (Mined dt # xs) = fee_time xs"

lemma mined_nonneg: "0 \<le> mined_time xs"
  by (induction xs rule: mined_time.induct) auto

lemma fee_frame [simp]:
  "ac_schedule (add_mining_time dt a) = ac_schedule a" "ac_schedule (settle t a) = ac_schedule a"
  by (simp_all add: add_mining_time_def settle_def Let_def)

lemma debt_nonneg:
  "0 \<le> sc_rate (ac_schedule a) \<Longrightarrow> 0 \<le> ac_debt a \<Longrightarrow> 0 \<le> ac_debt (fee_apply x a)"
  by (cases x) (auto simp: add_mining_time_def settle_def Let_def dops intro!: dbl_nonneg add_nonneg_nonneg mult_nonneg_nonneg)

definition fp_slack :: rat where "fp_slack = 1 + 1 / 2 ^ 53"

lemma debt_mined:
  assumes "0 \<le> sc_rate (ac_schedule a)" "0 \<le> ac_debt a"
  shows "ac_debt (add_mining_time dt a) \<le> fp_slack ^ 2 * (ac_debt a + sc_rate (ac_schedule a) * max 0 dt)"
proof (cases "dt \<le> 0")
  case True
  have "1 * ac_debt a \<le> fp_slack ^ 2 * ac_debt a"
    using assms(2) by (intro mult_right_mono) (simp_all add: fp_slack_def)
  with True show ?thesis by (simp add: add_mining_time_def max_def)
next
  case False
  let ?m = "sc_rate (ac_schedule a) * dt"
  have m: "0 \<le> ?m" using False assms(1) by simp
  have p: "0 \<le> dbl ?m" "dbl ?m \<le> fp_slack * ?m"
    using dbl_nonneg [OF m] fp.rnd_upper [OF m] by (simp_all add: fp_slack_def mult.commute)
  have "1 * ac_debt a \<le> fp_slack * ac_debt a"
    using assms(2) by (intro mult_right_mono) (simp_all add: fp_slack_def)
  with p have "ac_debt a + dbl ?m \<le> fp_slack * (ac_debt a + ?m)" by (simp add: distrib_left)
  then have "fp_slack * (ac_debt a + dbl ?m) \<le> fp_slack * (fp_slack * (ac_debt a + ?m))"
    by (intro mult_left_mono) (simp_all add: fp_slack_def)
  moreover have "dbl (ac_debt a + dbl ?m) \<le> fp_slack * (ac_debt a + dbl ?m)"
    using fp.rnd_upper [of "ac_debt a + dbl ?m"] assms(2) p(1) by (simp add: fp_slack_def mult.commute)
  ultimately show ?thesis using False
    by (simp add: add_mining_time_def dops power2_eq_square max_def mult.assoc)
qed

lemma debt_settled:
  assumes "0 \<le> t" "t \<le> ac_debt a"
  shows "ac_debt (settle t a) \<le> fp_slack ^ 2 * (ac_debt a - t)"
proof -
  have d: "0 \<le> ac_debt a - t" using assms by simp
  have "dbl (ac_debt a - t) \<le> fp_slack * (ac_debt a - t)"
    using fp.rnd_upper [OF d] by (simp add: fp_slack_def mult.commute)
  also have "\<dots> \<le> fp_slack * (fp_slack * (ac_debt a - t))"
    using d by (intro mult_left_mono) (simp_all add: fp_slack_def mult_le_cancel_right1)
  finally show ?thesis using dbl_nonneg [OF d]
    by (simp add: settle_def dops Let_def power2_eq_square mult.assoc)
qed

lemma regroup:
  fixes L P Q d r x m :: rat
  shows "L \<le> P * (Q * (d + r * x) + Q * (r * m)) \<Longrightarrow> L \<le> P * Q * (d + r * (x + m))"
  by (simp add: algebra_simps)

lemma fee_trace_bound:
  "fee_trace xs a \<Longrightarrow> 0 \<le> sc_rate (ac_schedule a) \<Longrightarrow> 0 \<le> ac_debt a \<Longrightarrow>
    ac_debt (fold fee_apply xs a) + fee_time xs
      \<le> fp_slack ^ (2 * length xs) * (ac_debt a + sc_rate (ac_schedule a) * mined_time xs)"
proof (induction xs arbitrary: a)
  case Nil
  then show ?case by simp
next
  case (Cons x xs)
  let ?r = "sc_rate (ac_schedule a)" and ?n = "2 * length xs"
  have c: "1 \<le> fp_slack ^ k" for k by (rule one_le_power) (simp add: fp_slack_def)
  have c0: "0 \<le> fp_slack ^ k" for k using c [of k] by linarith
  have m: "0 \<le> ?r * mined_time xs" using Cons.prems(2) mined_nonneg by simp
  have cm: "?r * mined_time xs \<le> fp_slack ^ 2 * (?r * mined_time xs)"
    using mult_right_mono [OF c m, of 2] by simp
  have split: "fp_slack ^ (2 * length (x # xs)) = fp_slack ^ ?n * fp_slack ^ 2" by (simp only: flip: power_add) simp
  show ?case
  proof (cases x)
    case (Mined dt)
    let ?a = "add_mining_time dt a"
    have "ac_debt (fold fee_apply xs ?a) + fee_time xs \<le> fp_slack ^ ?n * (ac_debt ?a + ?r * mined_time xs)"
      using Cons.IH [of ?a] Cons.prems debt_nonneg [of a x] Mined by simp
    also have "\<dots> \<le> fp_slack ^ ?n * (fp_slack ^ 2 * (ac_debt a + ?r * max 0 dt) + fp_slack ^ 2 * (?r * mined_time xs))"
      using debt_mined [OF Cons.prems(2,3)] cm c0 by (intro mult_left_mono add_mono) auto
    finally show ?thesis using Mined regroup unfolding split by simp
  next
    case (Round t)
    let ?a = "settle t a"
    have t: "0 \<le> t" "t \<le> ac_debt a" and ok: "fee_trace xs ?a"
      using Cons.prems(1) Round by (auto simp: slice_due_def slice_len_def Let_def split: if_splits)
    have "ac_debt (fold fee_apply xs ?a) + fee_time xs \<le> fp_slack ^ ?n * (ac_debt ?a + ?r * mined_time xs)"
      using Cons.IH [OF ok] Cons.prems debt_nonneg [of a x] Round by simp
    also have "\<dots> \<le> fp_slack ^ ?n * (fp_slack ^ 2 * (ac_debt a - t) + fp_slack ^ 2 * (?r * mined_time xs))"
      using debt_settled [OF t] cm c0 by (intro mult_left_mono add_mono) auto
    finally have L: "ac_debt (fold fee_apply xs ?a) + fee_time xs
      \<le> fp_slack ^ ?n * (fp_slack ^ 2 * (ac_debt a - t) + fp_slack ^ 2 * (?r * mined_time xs))" .
    have "1 * t \<le> fp_slack ^ (?n + 2) * t" using c t(1) by (rule mult_right_mono)
    then have "t \<le> fp_slack ^ ?n * fp_slack ^ 2 * t" by (simp only: power_add mult_1)
    with L show ?thesis using Round unfolding split by (simp add: algebra_simps)
  qed
qed

text \<open>
  The fee never exceeds its rate: in any history of mining and fee rounds in which no round
  outlasts its slice, the time spent on rounds plus the debt left is at most the rate times the
  mining time, up to the rounding of two double operations per step.
\<close>
theorem fee_within_rate:
  assumes "0 \<le> sc_rate s" "fee_trace xs (accrual_new s)"
  shows "fee_time xs + ac_debt (fold fee_apply xs (accrual_new s))
    \<le> (1 + 1 / 2 ^ 53) ^ (2 * length xs) * (sc_rate s * mined_time xs)"
  using fee_trace_bound [OF assms(2)] assms(1) by (simp add: accrual_new_def fp_slack_def add.commute)

theorem fee_within_rate_witness:
  "let s = \<lparr>sc_rate = 1 / 2, sc_cycle = 4\<rparr>; xs = [Mined 1, Mined 2, Mined 1, Round 2]
   in fee_time xs + ac_debt (fold fee_apply xs (accrual_new s))
    \<le> (1 + 1 / 2 ^ 53) ^ (2 * length xs) * (sc_rate s * mined_time xs)"
proof -
  have "fee_trace [Mined 1, Mined 2, Mined 1, Round 2] (accrual_new \<lparr>sc_rate = 1 / 2, sc_cycle = 4\<rparr>)"
    by code_simp
  then show ?thesis unfolding Let_def by (intro fee_within_rate) simp_all
qed

section \<open>The login\<close>

lemma sanitise_eq: "length clean < 32 \<Longrightarrow> sanitise clean w = take 32 (clean @ filter worker_char w)"
  by (induction w arbitrary: clean) (auto simp: Let_def take_Cons')

text \<open>
  The login sent to the fee pool is the developer's address, a dot, and a worker name of at
  most 32 letters, digits, underscores and hyphens taken from the user's own credential (its worker
  part filtered and cut, or \<open>mxbm\<close> when nothing is left), then an underscore and the fee percentage.
\<close>
theorem login_is_sanitised:
  "\<exists>w. devfee_login addr credential rate = addr @ ''.'' @ w @ ''_'' @ fmt_g 6 (dmul rate 100) \<and>
    w \<noteq> '''' \<and> length w \<le> 32 \<and> list_all worker_char w \<and>
    w = (let f = take 32 (filter worker_char (worker_of credential)) in if f = '''' then ''mxbm'' else f)"
proof -
  let ?f = "take 32 (filter worker_char (worker_of credential))"
  have s: "sanitise '''' (worker_of credential) = ?f" by (simp add: sanitise_eq)
  have "list_all worker_char ?f" by (auto simp: list_all_iff dest: in_set_takeD)
  moreover have "list_all worker_char ''mxbm''" by code_simp
  ultimately show ?thesis by (simp add: devfee_login_def Let_def s)
qed

end
