(* ===== verification/Engine.thy ===== *)
theory Engine
  imports Difficulty Stratum Stats
begin

text \<open>
  The mining engine (src/miner/engine.h, src/miner/engine.cpp): hex coding, nonce construction,
  the synchronous core \<open>process_job\<close>, the mailbox and the worker thread. The solver is a parameter
  that returns candidates or throws. The worker is a step relation on its position in the loop;
  what other threads do while it solves or waits is a list of posts. Shown: the strict decoder is
  the inverse of the encoder, no input is tried twice with a nonce, every submission clears its job's
  target and carries the id and origin of the job it was solved for.
\<close>

section \<open>Hexadecimal\<close>

definition hex_digit :: "nat \<Rightarrow> char" where
  "hex_digit n = ''0123456789abcdef'' ! n"

definition to_hex :: "u8 list \<Rightarrow> string" where
  "to_hex bs = concat (map (\<lambda>b. [hex_digit (unat (drop_bit 4 b)), hex_digit (unat (b AND 0xF))]) bs)"

text \<open>The value of a lowercase hex digit; \<open>None\<close> is the \<open>-1\<close> of the source.\<close>

definition hex_val :: "char \<Rightarrow> nat option" where
  "hex_val c = (let n = (of_char c :: nat) in
     if 48 \<le> n \<and> n \<le> 57 then Some (n - 48)
     else if 97 \<le> n \<and> n \<le> 102 then Some (n - 97 + 10)
     else None)"

fun from_hex_pairs :: "string \<Rightarrow> u8 list option" where
  "from_hex_pairs [] = Some []"
| "from_hex_pairs [c] = None"
| "from_hex_pairs (c # d # s) =
    (case (hex_val c, hex_val d) of
       (Some hi, Some lo) \<Rightarrow>
         (case from_hex_pairs s of
            Some bs \<Rightarrow> Some (word_of_nat (hi * 16 + lo) # bs) | None \<Rightarrow> None)
     | _ \<Rightarrow> None)"

definition from_hex_strict :: "string \<Rightarrow> nat \<Rightarrow> u8 list option" where
  "from_hex_strict hx n = (if length hx \<noteq> n * 2 then None else from_hex_pairs hx)"

section \<open>Nonces\<close>

definition hex_val0 :: "char \<Rightarrow> nat" where
  "hex_val0 c = (case hex_val c of Some v \<Rightarrow> v | None \<Rightarrow> 0)"

definition put_nibble :: "u8 list \<Rightarrow> nat \<Rightarrow> char \<Rightarrow> u8 list" where
  "put_nibble out i c =
    (let v = hex_val0 c; k = i div 2
     in if i mod 2 = 0 then out[k := out ! k OR word_of_nat (v * 16)]
        else out[k := out ! k OR word_of_nat v])"

text \<open>The counter loop: \<open>b\<close> runs from the first free byte while the counter is not zero.\<close>

fun put_counter :: "nat list \<Rightarrow> u64 \<Rightarrow> u8 list \<Rightarrow> u8 list" where
  "put_counter [] counter out = out"
| "put_counter (b # bs) counter out =
    (if counter = 0 then out
     else put_counter bs (drop_bit 8 counter) (out[b := ucast (counter AND 0xFF)]))"

definition build_nonce :: "string \<Rightarrow> u64 \<Rightarrow> u8 list" where
  "build_nonce prefix counter =
    (let nibbles = (if length prefix > 16 then 16 else length prefix);
         out = foldl (\<lambda>out i. put_nibble out i (prefix ! i)) (replicate 8 0) [0..<nibbles];
         first = (nibbles + 1) div 2
     in put_counter [first..<8] counter out)"

section \<open>State and mailbox\<close>

record engine =
  en_nonce_counter :: u64
  en_nonce_stride :: u64
  en_latest_job :: job
  en_latest_nonceprefix :: string
  en_latest_origin :: origin
  en_has_job :: bool
  en_stop_requested :: bool
  en_started :: bool
  en_solver_failures :: u32

definition engine_new :: "u64 \<Rightarrow> u64 \<Rightarrow> engine" where
  "engine_new lane lanes = \<lparr>en_nonce_counter = lane, en_nonce_stride = (if lanes \<noteq> 0 then lanes else 1),
     en_latest_job = \<lparr>j_id = '''', j_input = '''', j_difficulty = 0, j_height = 0\<rparr>,
     en_latest_nonceprefix = '''', en_latest_origin = Main, en_has_job = False,
     en_stop_requested = False, en_started = False, en_solver_failures = 0\<rparr>"

definition on_job :: "job \<Rightarrow> string \<Rightarrow> origin \<Rightarrow> engine \<Rightarrow> engine" where
  "on_job job nonceprefix orig s =
    s\<lparr>en_latest_job := job, en_latest_nonceprefix := nonceprefix, en_latest_origin := orig, en_has_job := True\<rparr>"

definition engine_start :: "engine \<Rightarrow> engine" where
  "engine_start s = (if en_started s then s else s\<lparr>en_started := True, en_stop_requested := False\<rparr>)"

text \<open>The two halves of \<open>stop\<close>: the request, and the return of the join.\<close>

definition engine_stop_request :: "engine \<Rightarrow> engine" where
  "engine_stop_request s = (if \<not> en_started s then s else s\<lparr>en_stop_requested := True\<rparr>)"

definition engine_stop_joined :: "engine \<Rightarrow> engine" where
  "engine_stop_joined s = s\<lparr>en_started := False\<rparr>"

definition superseded_by_newer_job :: "string \<Rightarrow> engine \<Rightarrow> bool" where
  "superseded_by_newer_job job_id s \<longleftrightarrow> en_has_job s \<and> j_id (en_latest_job s) \<noteq> job_id"

text \<open>What other threads do meanwhile.\<close>

datatype post = PostJob job string origin | PostStop

fun apply_post :: "post \<Rightarrow> engine \<Rightarrow> engine" where
  "apply_post (PostJob j p orig) s = on_job j p orig s"
| "apply_post PostStop s = engine_stop_request s"

definition apply_posts :: "post list \<Rightarrow> engine \<Rightarrow> engine" where
  "apply_posts ps s = fold apply_post ps s"

section \<open>The synchronous core\<close>

text \<open>
  The callbacks, and the nonce each solve is given. \<open>solve\<close> returns the candidates or the text of
  an exception. \<open>meanwhile\<close> is what the other threads do during the solve.
\<close>

datatype engine_event =
    Solve "u8 list" "u8 list"
  | OnAttempt u32
  | SubmitSolution solution origin
  | OnSolverError string u32

definition solution_for :: "job \<Rightarrow> u8 list \<Rightarrow> u8 list \<Rightarrow> solution" where
  "solution_for job nonce8 cand = \<lparr>s_id = j_id job, s_nonce = to_hex nonce8, s_output = to_hex cand\<rparr>"

definition process_job ::
    "(u8 list \<Rightarrow> u8 list) \<Rightarrow> (u8 list \<Rightarrow> u8 list \<Rightarrow> string + u8 list list) \<Rightarrow> post list \<Rightarrow>
     job \<Rightarrow> string \<Rightarrow> origin \<Rightarrow> engine \<Rightarrow> string option \<times> engine \<times> engine_event list" where
  "process_job sha solve meanwhile job nonceprefix orig s =
    (case from_hex_strict (j_input job) 32 of
       None \<Rightarrow> (None, s, [])
     | Some input32 \<Rightarrow>
         let nonce8 = build_nonce nonceprefix (en_nonce_counter s);
             s = s\<lparr>en_nonce_counter := en_nonce_counter s + en_nonce_stride s\<rparr>;
             r = solve input32 nonce8;
             s = apply_posts meanwhile s
         in case r of
              Inl what \<Rightarrow> (Some what, s, [Solve input32 nonce8])
            | Inr candidates \<Rightarrow>
                let evs = [Solve input32 nonce8, OnAttempt (word_of_nat (length candidates))] in
                if superseded_by_newer_job (j_id job) s then (None, s, evs)
                else (None, s, evs @
                  map (\<lambda>cand. SubmitSolution (solution_for job nonce8 cand) orig)
                    (filter (\<lambda>cand. clears_difficulty sha cand (j_difficulty job)) candidates)))"

section \<open>The worker\<close>

text \<open>Milliseconds; the doubling loop runs at most five times.\<close>

definition retry_delay :: "int \<Rightarrow> u32 \<Rightarrow> int" where
  "retry_delay base failures =
    (let d = fold (\<lambda>i d. if i < unat failures then d * 2 else d) [1..<6] base;
         cap = base * 30
     in if d > cap then cap else d)"

text \<open>
  Where the worker is: waiting on the mailbox, about to solve for a job it took, holding (a
  thermal pause or the backoff after a failure), or returned.
\<close>

datatype worker = Waiting | Mining job string origin | Held job string origin | Exited

definition preempted :: "engine \<Rightarrow> bool" where
  "preempted s \<longleftrightarrow> en_stop_requested s \<or> en_has_job s"

text \<open>The top of the loop, once the wait is over.\<close>

definition worker_take :: "engine \<Rightarrow> worker \<times> engine" where
  "worker_take s =
    (if en_stop_requested s then (Exited, s)
     else
       let job = en_latest_job s; s' = s\<lparr>en_has_job := False\<rparr>
       in if from_hex_strict (j_input job) 32 = None then (Waiting, s')
          else (Mining job (en_latest_nonceprefix s) (en_latest_origin s), s'))"

text \<open>One solve of the inner loop, up to its end or its wait.\<close>

definition worker_solve ::
    "(u8 list \<Rightarrow> u8 list) \<Rightarrow> (u8 list \<Rightarrow> u8 list \<Rightarrow> string + u8 list list) \<Rightarrow> post list \<Rightarrow>
     job \<Rightarrow> string \<Rightarrow> origin \<Rightarrow> engine \<Rightarrow> worker \<times> engine \<times> engine_event list" where
  "worker_solve sha solve meanwhile job prefix orig s =
    (case process_job sha solve meanwhile job prefix orig s of
       (None, s, evs) \<Rightarrow>
         let s = s\<lparr>en_solver_failures := 0\<rparr>
         in (if preempted s then Waiting else Mining job prefix orig, s, evs)
     | (Some what, s, evs) \<Rightarrow>
         let s = s\<lparr>en_solver_failures := en_solver_failures s + 1\<rparr>
         in (if preempted s then Waiting else Held job prefix orig, s,
             evs @ [OnSolverError what (en_solver_failures s)]))"

text \<open>
  A run of the worker thread, with the posts of the other threads so far and the events so far.
  \<open>run_hold\<close> is the thermal pause; \<open>run_wake\<close> ends a hold, by its timeout or by a post.
\<close>

inductive engine_run ::
    "(u8 list \<Rightarrow> u8 list) \<Rightarrow> (u8 list \<Rightarrow> u8 list \<Rightarrow> string + u8 list list) \<Rightarrow> engine \<Rightarrow>
     post list \<Rightarrow> engine_event list \<Rightarrow> worker \<Rightarrow> engine \<Rightarrow> bool"
  for sha solve s0 where
  run_init: "engine_run sha solve s0 [] [] Waiting (engine_start s0)"
| run_post: "engine_run sha solve s0 ps evs w s \<Longrightarrow>
    engine_run sha solve s0 (ps @ [p]) evs w (apply_post p s)"
| run_take: "engine_run sha solve s0 ps evs Waiting s \<Longrightarrow> preempted s \<Longrightarrow>
    worker_take s = (w', s') \<Longrightarrow> engine_run sha solve s0 ps evs w' s'"
| run_hold: "engine_run sha solve s0 ps evs (Mining job prefix orig) s \<Longrightarrow>
    engine_run sha solve s0 ps evs (Held job prefix orig) s"
| run_wake: "engine_run sha solve s0 ps evs (Held job prefix orig) s \<Longrightarrow>
    engine_run sha solve s0 ps evs (if preempted s then Waiting else Mining job prefix orig) s"
| run_solve: "engine_run sha solve s0 ps evs (Mining job prefix orig) s \<Longrightarrow>
    worker_solve sha solve meanwhile job prefix orig s = (w', s', evs') \<Longrightarrow>
    engine_run sha solve s0 (ps @ meanwhile) (evs @ evs') w' s'"

section \<open>Hex coding\<close>

lemma hex_val_digit: "n < 16 \<Longrightarrow> hex_val (hex_digit n) = Some n"
proof -
  have "list_all (\<lambda>n. hex_val (hex_digit n) = Some n) [0..<16]" by code_simp
  then show "n < 16 \<Longrightarrow> hex_val (hex_digit n) = Some n" by (simp add: list_all_iff)
qed

lemma hex_val_Some:
  assumes "hex_val c = Some v"
  shows "v < 16 \<and> c = hex_digit v"
proof -
  define n :: nat where "n = of_char c"
  have c: "c = char_of n" and n: "n < 256" by (simp_all add: n_def)
  have A: "list_all (\<lambda>n. char_of n = hex_digit (n - 48)) [48..<58]"
    and B: "list_all (\<lambda>n. char_of n = hex_digit (n - 97 + 10)) [97..<103]" by code_simp+
  have "char_of n = hex_digit (n - 48)" if "48 \<le> n" "n \<le> 57"
    using bspec [OF A [unfolded list_all_iff], of n] that by (simp del: upt_rec_numeral)
  moreover have "char_of n = hex_digit (n - 97 + 10)" if "97 \<le> n" "n \<le> 102"
    using bspec [OF B [unfolded list_all_iff], of n] that by (simp del: upt_rec_numeral)
  ultimately show ?thesis using assms n unfolding c
    by (auto simp: hex_val_def Let_def split: if_splits)
qed

lemma unat_u8: "k < 256 \<Longrightarrow> unat (word_of_nat k :: u8) = k"
  by (simp add: unsigned_of_nat take_bit_nat_eq_self)

lemma nibbles:
  fixes b :: u8
  shows "unat (drop_bit 4 b) < 16" "unat (b AND 0xF) < 16"
    "unat (drop_bit 4 b) * 16 + unat (b AND 0xF) = unat b"
proof -
  have b: "unat b < 256" using unsigned_less [of b] by simp
  have d: "unat (drop_bit 4 b) = unat b div 16" by (simp add: drop_bit_eq_div unat_div)
  have "b AND 0xF = take_bit 4 b" by (simp add: take_bit_eq_mask mask_numeral)
  then have m: "unat (b AND 0xF) = unat b mod 16" by (simp add: take_bit_eq_mod unat_mod)
  show "unat (drop_bit 4 b) < 16" "unat (b AND 0xF) < 16"
    "unat (drop_bit 4 b) * 16 + unat (b AND 0xF) = unat b"
    using b unfolding d m by simp_all
qed

lemma length_to_hex [simp]: "length (to_hex bs) = 2 * length bs"
  by (induction bs) (simp_all add: to_hex_def)

lemma from_hex_to_hex: "from_hex_pairs (to_hex bs) = Some bs"
proof (induction bs)
  case Nil
  then show ?case by (simp add: to_hex_def)
next
  case (Cons b bs)
  have "word_of_nat (unat (drop_bit 4 b) * 16 + unat (b AND 0xF)) = b" by (simp only: nibbles(3)) simp
  with Cons nibbles(1,2) [of b] show ?case by (simp add: to_hex_def hex_val_digit)
qed

lemma to_hex_from_hex: "from_hex_pairs s = Some bs \<Longrightarrow> s = to_hex bs"
proof (induction s arbitrary: bs rule: from_hex_pairs.induct)
  case 1
  then show ?case by (simp add: to_hex_def)
next
  case (2 c)
  then show ?case by simp
next
  case (3 c d s)
  from "3.prems" obtain hi lo bs' where v: "hex_val c = Some hi" "hex_val d = Some lo"
    and bs': "from_hex_pairs s = Some bs'" and bs: "bs = word_of_nat (hi * 16 + lo) # bs'"
    by (auto split: option.splits)
  note H = hex_val_Some [OF v(1)] hex_val_Some [OF v(2)]
  define b :: u8 where "b = word_of_nat (hi * 16 + lo)"
  have "hi * 16 + lo < 256" using H by linarith
  then have "unat b = hi * 16 + lo" unfolding b_def by (rule unat_u8)
  then have "unat (drop_bit 4 b) * 16 + unat (b AND 0xF) = hi * 16 + lo" by (simp only: nibbles(3))
  moreover have "x = y \<and> u = w" if "x * 16 + u = y * 16 + w" "u < 16" "w < 16" for x y u w :: nat
    using that by presburger
  ultimately have "unat (drop_bit 4 b) = hi" "unat (b AND 0xF) = lo" using nibbles(2) [of b] H by blast+
  moreover have "s = to_hex bs'" using "3.IH" v bs' by blast
  ultimately show ?case using H bs by (simp add: to_hex_def b_def)
qed

section \<open>Nonces\<close>

lemma nibble_or:
  assumes "a < 16" "b < 16"
  shows "(word_of_nat (a * 16) :: u8) OR word_of_nat b = word_of_nat (a * 16 + b)"
proof -
  have "word_of_nat (a * 16) = (push_bit 4 (word_of_nat a) :: u8)"
    by (simp add: push_bit_eq_mult mult.commute)
  moreover have "unat (word_of_nat b :: u8) < 2 ^ 4"
    using assms by (simp add: unsigned_of_nat take_bit_nat_eq_self)
  then have "\<not> bit (word_of_nat b :: u8) n" if "4 \<le> n" for n using that by (rule bit_high_False)
  ultimately have "\<not> bit (word_of_nat (a * 16) :: u8) n \<or> \<not> bit (word_of_nat b :: u8) n" for n
    by (auto simp: bit_push_bit_iff)
  then show ?thesis by (simp add: disjunctive_add)
qed

definition prefix_val :: "string \<Rightarrow> nat \<Rightarrow> nat \<Rightarrow> nat" where
  "prefix_val p m i = (if i < m then hex_val0 (p ! i) else 0)"

definition prefix_bytes :: "string \<Rightarrow> nat \<Rightarrow> u8 list" where
  "prefix_bytes p m = map (\<lambda>k. word_of_nat (prefix_val p m (2 * k) * 16 + prefix_val p m (2 * k + 1))) [0..<8]"

lemma hex_val0_less: "hex_val0 c < 16"
  using hex_val_Some [of c] by (auto simp: hex_val0_def split: option.splits)

lemma put_nibbles: "m \<le> 16 \<Longrightarrow>
    foldl (\<lambda>out i. put_nibble out i (p ! i)) (replicate 8 0) [0..<m] = prefix_bytes p m"
proof (induction m)
  case 0
  then show ?case by (simp add: prefix_bytes_def prefix_val_def map_replicate_trivial flip: map_replicate_const)
next
  case (Suc m)
  have "put_nibble (prefix_bytes p m) m (p ! m) = prefix_bytes p (Suc m)"
  proof (rule nth_equalityI)
    fix k assume k: "k < length (put_nibble (prefix_bytes p m) m (p ! m))"
    then have k8: "k < 8" by (auto simp: put_nibble_def prefix_bytes_def Let_def split: if_splits)
    show "put_nibble (prefix_bytes p m) m (p ! m) ! k = prefix_bytes p (Suc m) ! k"
    proof (cases "k = m div 2")
      case False
      then have "2 * k < Suc m \<longleftrightarrow> 2 * k < m" "2 * k + 1 < Suc m \<longleftrightarrow> 2 * k + 1 < m" by linarith+
      with False k8 show ?thesis
        by (simp add: put_nibble_def prefix_bytes_def Let_def prefix_val_def)
    next
      case True
      show ?thesis
      proof (cases "m mod 2 = 0")
        case even: True
        then have "m = 2 * k" using True by presburger
        with k8 show ?thesis by (simp add: put_nibble_def prefix_bytes_def Let_def prefix_val_def)
      next
        case odd: False
        then have "m = 2 * k + 1" using True by presburger
        with k8 show ?thesis
          using nibble_or [OF hex_val0_less hex_val0_less, of "p ! (2 * k)" "p ! (2 * k + 1)"]
          by (simp add: put_nibble_def prefix_bytes_def Let_def prefix_val_def)
      qed
    qed
  qed (simp add: put_nibble_def prefix_bytes_def Let_def)
  with Suc show ?case by simp
qed

lemma put_counter_spec:
  assumes "length out = n" "k \<le> n" "drop k out = replicate (n - k) 0" "unat c < 256 ^ (n - k)"
  shows "le_nat (drop k (put_counter [k..<n] c out)) = unat c \<and>
    take k (put_counter [k..<n] c out) = take k out \<and> length (put_counter [k..<n] c out) = n"
  using assms
proof (induction "n - k" arbitrary: k c out)
  case 0
  then show ?case by simp
next
  case (Suc m)
  then have k: "k < n" by simp
  have l0: "le_nat (replicate j 0) = 0" for j by (induction j) simp_all
  show ?case
  proof (cases "c = 0")
    case True
    then show ?thesis using Suc.prems k by (simp add: upt_conv_Cons l0)
  next
    case False
    let ?out = "out[k := ucast (c AND 0xFF)]"
    have "drop (Suc k) ?out = drop (Suc k) out" by simp
    also have "\<dots> = replicate (n - Suc k) 0"
      using Suc.prems(3) k by (metis Suc_diff_Suc drop_Suc drop_replicate length_drop tl_drop drop_0
          replicate_Suc list.sel(3))
    finally have d: "drop (Suc k) ?out = replicate (n - Suc k) 0" .
    have ud: "unat (drop_bit 8 c) = unat c div 256" by (simp add: drop_bit_eq_div unat_div)
    have "unat (drop_bit 8 c) < 256 ^ (n - Suc k)"
      unfolding ud using Suc.prems(4) k
      by (simp add: less_mult_imp_div_less Suc_diff_Suc flip: power_Suc2)
    with Suc.hyps(1) [of "Suc k" ?out "drop_bit 8 c"] Suc.hyps(2) Suc.prems k d
    have IH: "le_nat (drop (Suc k) (put_counter [Suc k..<n] (drop_bit 8 c) ?out)) = unat c div 256"
      "take (Suc k) (put_counter [Suc k..<n] (drop_bit 8 c) ?out) = take (Suc k) ?out"
      "length (put_counter [Suc k..<n] (drop_bit 8 c) ?out) = n" by (simp_all add: ud)
    let ?r = "put_counter [Suc k..<n] (drop_bit 8 c) ?out"
    have r: "put_counter [k..<n] c out = ?r" using False k by (simp add: upt_conv_Cons)
    have "?r ! k = take (Suc k) ?r ! k" using k by simp
    also have "\<dots> = ucast (c AND 0xFF)" unfolding IH(2) using k Suc.prems(1) by simp
    finally have rk: "?r ! k = ucast (c AND 0xFF)" .
    have "c AND 0xFF = take_bit 8 c" by (simp add: take_bit_eq_mask mask_numeral)
    then have lo: "unat (ucast (c AND 0xFF) :: u8) = unat c mod 256"
      by (simp add: unsigned_ucast_eq unsigned_take_bit_eq take_bit_eq_mod unat_mod)
    have "drop k ?r = ?r ! k # drop (Suc k) ?r" using k IH(3) by (simp add: Cons_nth_drop_Suc)
    then have "le_nat (drop k ?r) = unat c" by (simp add: rk lo IH(1))
    moreover have "take k ?r = take k (take (Suc k) ?r)" by simp
    then have "take k ?r = take k out" unfolding IH(2) using k by (simp add: take_update_cancel)
    ultimately show ?thesis by (simp add: r IH(3))
  qed
qed

lemma build_nonce_spec:
  assumes "length p \<le> 16" "unat c < 256 ^ (8 - (length p + 1) div 2)"
  defines "f \<equiv> (length p + 1) div 2"
  shows "length (build_nonce p c) = 8" "take f (build_nonce p c) = take f (prefix_bytes p (length p))"
    "le_nat (drop f (build_nonce p c)) = unat c"
proof -
  let ?m = "length p"
  have f: "f \<le> 8" using assms(1) by (simp add: f_def)
  have l: "length (prefix_bytes p ?m) = 8" by (simp add: prefix_bytes_def)
  have "drop f (prefix_bytes p ?m) = replicate (8 - f) 0"
  proof (rule nth_equalityI)
    fix k assume "k < length (drop f (prefix_bytes p ?m))"
    then have k: "f + k < 8" using l by simp
    have "?m \<le> 2 * (f + k)" by (simp add: f_def)
    with k show "drop f (prefix_bytes p ?m) ! k = replicate (8 - f) 0 ! k"
      by (simp add: prefix_bytes_def prefix_val_def)
  qed (simp add: l)
  moreover have "unat c < 256 ^ (8 - f)" using assms(2) by (simp add: f_def)
  moreover have "build_nonce p c = put_counter [f..<8] c (prefix_bytes p ?m)"
    using assms(1) by (simp add: build_nonce_def Let_def put_nibbles f_def)
  ultimately show "length (build_nonce p c) = 8" "take f (build_nonce p c) = take f (prefix_bytes p ?m)"
    "le_nat (drop f (build_nonce p c)) = unat c"
    using put_counter_spec [of "prefix_bytes p ?m" 8 f c] l f by simp_all
qed

lemma build_nonce_inj:
  assumes "length p \<le> 16" "unat c < 256 ^ (8 - (length p + 1) div 2)"
    "unat d < 256 ^ (8 - (length p + 1) div 2)" "build_nonce p c = build_nonce p d"
  shows "c = d"
  using build_nonce_spec(3) [OF assms(1,2)] build_nonce_spec(3) [OF assms(1,3)] assms(4)
  by (simp add: word_unat_eq_iff)

lemma nth_to_hex:
  "i < 2 * length bs \<Longrightarrow> to_hex bs ! i =
    (if i mod 2 = 0 then hex_digit (unat (drop_bit 4 (bs ! (i div 2)))) else hex_digit (unat (bs ! (i div 2) AND 0xF)))"
proof (induction bs arbitrary: i)
  case (Cons b bs)
  have c: "to_hex (b # bs) = hex_digit (unat (drop_bit 4 b)) # hex_digit (unat (b AND 0xF)) # to_hex bs"
    by (simp add: to_hex_def)
  consider "i = 0" | "i = 1" | j where "i = Suc (Suc j)" by (metis One_nat_def not0_implies_Suc)
  then show ?case
  proof cases
    case 3
    then show ?thesis using Cons by (simp add: c)
  qed (simp_all add: c)
qed simp

section \<open>The solve and the submissions\<close>

definition trace_nonces :: "engine_event list \<Rightarrow> u8 list list" where
  "trace_nonces evs = concat (map (\<lambda>e. case e of Solve i n \<Rightarrow> [n] | _ \<Rightarrow> []) evs)"

lemma trace_nonces_append [simp]: "trace_nonces (xs @ ys) = trace_nonces xs @ trace_nonces ys"
  by (simp add: trace_nonces_def)

text \<open>What was solved for: the decoded input and the nonce of every attempt.\<close>

definition tries :: "engine_event list \<Rightarrow> (u8 list \<times> u8 list) list" where
  "tries evs = concat (map (\<lambda>e. case e of Solve i n \<Rightarrow> [(i, n)] | _ \<Rightarrow> []) evs)"

lemma tries_append [simp]: "tries (xs @ ys) = tries xs @ tries ys"
  by (simp add: tries_def)

lemma trace_tries: "trace_nonces evs = map snd (tries evs)"
  by (simp add: trace_nonces_def tries_def map_concat comp_def) (rule arg_cong [where f = concat], simp split: engine_event.split)

lemma apply_posts_frame [simp]:
  "en_nonce_counter (apply_posts ps s) = en_nonce_counter s"
  "en_nonce_stride (apply_posts ps s) = en_nonce_stride s"
proof -
  have "en_nonce_counter (apply_post p s) = en_nonce_counter s \<and>
      en_nonce_stride (apply_post p s) = en_nonce_stride s" for p s
    by (cases p) (simp_all add: on_job_def engine_stop_request_def)
  then show "en_nonce_counter (apply_posts ps s) = en_nonce_counter s"
    "en_nonce_stride (apply_posts ps s) = en_nonce_stride s"
    unfolding apply_posts_def by (induction ps arbitrary: s) simp_all
qed

lemma process_job_nonces:
  assumes "process_job sha solve mw job prefix orig s = (r, s', evs)" "from_hex_strict (j_input job) 32 \<noteq> None"
  shows "trace_nonces evs = [build_nonce prefix (en_nonce_counter s)]"
    "en_nonce_counter s' = en_nonce_counter s + en_nonce_stride s" "en_nonce_stride s' = en_nonce_stride s"
  using assms
  by (auto simp: process_job_def Let_def trace_nonces_def comp_def split: option.splits sum.splits if_splits)

lemma process_job_tries:
  assumes "process_job sha solve mw job prefix orig s = (r, s', evs)" "from_hex_strict (j_input job) 32 = Some i"
  shows "tries evs = [(i, build_nonce prefix (en_nonce_counter s))]"
  using assms by (auto simp: process_job_def Let_def tries_def comp_def split: option.splits sum.splits if_splits)

definition from_job :: "(u8 list \<Rightarrow> u8 list) \<Rightarrow> job \<Rightarrow> solution \<Rightarrow> bool" where
  "from_job sha job sol \<longleftrightarrow> s_id sol = j_id job \<and>
    (\<exists>cand. s_output sol = to_hex cand \<and> clears_difficulty sha cand (j_difficulty job))"

lemma process_job_submits:
  assumes "process_job sha solve mw job prefix orig s = (r, s', evs)" "SubmitSolution sol o' \<in> set evs"
  shows "o' = orig \<and> from_job sha job sol"
proof -
  obtain n8 cand where "o' = orig" "sol = solution_for job n8 cand" "clears_difficulty sha cand (j_difficulty job)"
    using assms by (auto simp: process_job_def Let_def split: option.splits sum.splits if_splits)
  then show ?thesis unfolding from_job_def solution_for_def by auto
qed

text \<open>The mailbox holds a job somebody posted, and so does the worker.\<close>

definition posted :: "post list \<Rightarrow> job \<Rightarrow> string \<Rightarrow> origin \<Rightarrow> bool" where
  "posted ps job prefix orig \<longleftrightarrow> PostJob job prefix orig \<in> set ps"

definition mailbox_ok :: "post list \<Rightarrow> engine \<Rightarrow> bool" where
  "mailbox_ok ps s \<longleftrightarrow>
    (en_has_job s \<longrightarrow> posted ps (en_latest_job s) (en_latest_nonceprefix s) (en_latest_origin s))"

lemma mailbox_ok_mono: "mailbox_ok ps s \<Longrightarrow> mailbox_ok (ps @ qs) s"
  by (simp add: mailbox_ok_def posted_def)

lemma mailbox_ok_post: "mailbox_ok ps s \<Longrightarrow> mailbox_ok (ps @ [p]) (apply_post p s)"
  by (cases p) (auto simp: mailbox_ok_def posted_def on_job_def engine_stop_request_def)

lemma mailbox_ok_posts: "mailbox_ok ps s \<Longrightarrow> mailbox_ok (ps @ qs) (apply_posts qs s)"
proof (induction qs rule: rev_induct)
  case (snoc q qs)
  then show ?case using mailbox_ok_post [of "ps @ qs" "apply_posts qs s" q] by (simp add: apply_posts_def)
qed (simp add: apply_posts_def)

lemma mailbox_ok_other [simp]:
  "mailbox_ok ps (s\<lparr>en_solver_failures := n\<rparr>) = mailbox_ok ps s"
  "mailbox_ok ps (s\<lparr>en_nonce_counter := c\<rparr>) = mailbox_ok ps s"
  by (simp_all add: mailbox_ok_def)

lemma process_job_mailbox:
  assumes "process_job sha solve mw job prefix orig s = (r, s', evs)" "mailbox_ok ps s"
  shows "mailbox_ok (ps @ mw) s'"
  using assms mailbox_ok_posts [of ps "s\<lparr>en_nonce_counter := en_nonce_counter s + en_nonce_stride s\<rparr>" mw]
  by (auto simp: process_job_def Let_def mailbox_ok_mono split: option.splits sum.splits if_splits)

lemma worker_solve_frame:
  assumes "worker_solve sha solve mw job prefix orig s = (w', s', evs)"
  obtains r s1 evs1 n where "process_job sha solve mw job prefix orig s = (r, s1, evs1)"
    "s' = s1\<lparr>en_solver_failures := n\<rparr>" "evs = evs1 \<or> (\<exists>x y. evs = evs1 @ [OnSolverError x y])"
    "w' = Waiting \<or> w' = Mining job prefix orig \<or> w' = Held job prefix orig"
proof -
  obtain r s1 evs1 where "process_job sha solve mw job prefix orig s = (r, s1, evs1)" by (cases "process_job sha solve mw job prefix orig s")
  with assms that show thesis by (cases r) (auto simp: worker_solve_def Let_def split: if_splits)
qed

fun worker_job :: "worker \<Rightarrow> (job \<times> string \<times> origin) option" where
  "worker_job (Mining j p orig) = Some (j, p, orig)"
| "worker_job (Held j p orig) = Some (j, p, orig)"
| "worker_job _ = None"

lemma run_origin:
  assumes "engine_run sha solve (engine_new lane lanes) ps evs w s"
  shows "mailbox_ok ps s \<and>
    (\<forall>job prefix orig. worker_job w = Some (job, prefix, orig) \<longrightarrow>
      posted ps job prefix orig \<and> from_hex_strict (j_input job) 32 \<noteq> None) \<and>
    (\<forall>sol orig. SubmitSolution sol orig \<in> set evs \<longrightarrow>
      (\<exists>job prefix. posted ps job prefix orig \<and> from_job sha job sol))"
  using assms
proof (induction rule: engine_run.induct)
  case run_init
  then show ?case by (simp add: mailbox_ok_def engine_start_def engine_new_def)
next
  case (run_post ps evs w s p)
  then have "posted (ps @ [p]) j pre orig" if "posted ps j pre orig" for j pre orig
    using that by (simp add: posted_def)
  with run_post.IH mailbox_ok_post [of ps s p] show ?case by blast
next
  case (run_take ps evs s w' s')
  have pre: "en_has_job s" if "\<not> en_stop_requested s" using run_take.hyps(2) that by (simp add: preempted_def)
  have "mailbox_ok ps s'" using run_take by (auto simp: worker_take_def mailbox_ok_def Let_def split: if_splits)
  moreover have "posted ps job prefix orig \<and> from_hex_strict (j_input job) 32 \<noteq> None"
    if "worker_job w' = Some (job, prefix, orig)" for job prefix orig
    using that run_take pre by (auto simp: worker_take_def Let_def mailbox_ok_def split: if_splits)
  ultimately show ?case using run_take.IH by blast
next
  case (run_hold ps evs job prefix orig s)
  then show ?case by simp
next
  case (run_wake ps evs job prefix orig s)
  then show ?case by simp
next
  case (run_solve ps evs job prefix orig s mw w' s' evs')
  from run_solve.hyps(2) obtain r s1 evs1 n where p: "process_job sha solve mw job prefix orig s = (r, s1, evs1)"
    and s': "s' = s1\<lparr>en_solver_failures := n\<rparr>" and e: "evs' = evs1 \<or> (\<exists>x y. evs' = evs1 @ [OnSolverError x y])"
    and w': "w' = Waiting \<or> w' = Mining job prefix orig \<or> w' = Held job prefix orig"
    by (rule worker_solve_frame)
  have mono: "posted (ps @ mw) j pre oo" if "posted ps j pre oo" for j pre oo using that by (simp add: posted_def)
  have job: "posted ps job prefix orig" "from_hex_strict (j_input job) 32 \<noteq> None" using run_solve.IH by auto
  have "mailbox_ok (ps @ mw) s'" unfolding s' using process_job_mailbox [OF p] run_solve.IH by simp
  moreover have "\<exists>job prefix. posted (ps @ mw) job prefix o' \<and> from_job sha job sol"
    if "SubmitSolution sol o' \<in> set (evs @ evs')" for sol o'
  proof (cases "SubmitSolution sol o' \<in> set evs")
    case True
    then show ?thesis using run_solve.IH mono by blast
  next
    case False
    then have "SubmitSolution sol o' \<in> set evs1" using that e by auto
    from process_job_submits [OF p this] job(1) mono show ?thesis by blast
  qed
  moreover have "posted (ps @ mw) j pre oo \<and> from_hex_strict (j_input j) 32 \<noteq> None"
    if "worker_job w' = Some (j, pre, oo)" for j pre oo
    using that w' job mono by auto
  ultimately show ?case by blast
qed

lemma run_tries:
  assumes "engine_run sha solve (engine_new lane lanes) ps evs w s"
  shows "en_nonce_stride s = (if lanes \<noteq> 0 then lanes else 1) \<and>
    en_nonce_counter s = lane + word_of_nat (length (tries evs)) * en_nonce_stride s \<and>
    (\<forall>k < length (tries evs). \<exists>job prefix orig i. posted ps job prefix orig \<and>
      from_hex_strict (j_input job) 32 = Some i \<and>
      tries evs ! k = (i, build_nonce prefix (lane + word_of_nat k * en_nonce_stride s)))"
  using assms
proof (induction rule: engine_run.induct)
  case run_init
  then show ?case by (simp add: tries_def engine_start_def engine_new_def)
next
  case (run_post ps evs w s p)
  have f: "en_nonce_counter (apply_post p s) = en_nonce_counter s" "en_nonce_stride (apply_post p s) = en_nonce_stride s"
    using apply_posts_frame [of "[p]" s] by (simp_all add: apply_posts_def)
  have "posted (ps @ [p]) j pre orig" if "posted ps j pre orig" for j pre orig
    using that by (simp add: posted_def)
  then show ?case using run_post.IH unfolding f by blast
next
  case (run_take ps evs s w' s')
  then have f: "en_nonce_stride s' = en_nonce_stride s" "en_nonce_counter s' = en_nonce_counter s"
    by (auto simp: worker_take_def Let_def split: if_splits)
  show ?case unfolding f by (rule run_take.IH)
next
  case (run_hold ps evs job prefix orig s)
  show ?case by (rule run_hold.IH)
next
  case (run_wake ps evs job prefix orig s)
  show ?case by (rule run_wake.IH)
next
  case (run_solve ps evs job prefix orig s mw w' s' evs')
  from run_solve.hyps(2) obtain r s1 evs1 n where p: "process_job sha solve mw job prefix orig s = (r, s1, evs1)"
    and s': "s' = s1\<lparr>en_solver_failures := n\<rparr>" and e: "evs' = evs1 \<or> (\<exists>x y. evs' = evs1 @ [OnSolverError x y])"
    by (rule worker_solve_frame) blast
  from run_origin [OF run_solve.hyps(1)] have job: "posted ps job prefix orig"
    "from_hex_strict (j_input job) 32 \<noteq> None" by auto
  note P = process_job_nonces [OF p job(2)]
  from job(2) obtain i where i: "from_hex_strict (j_input job) 32 = Some i" by blast
  have t: "tries evs' = [(i, build_nonce prefix (en_nonce_counter s))]"
    using e process_job_tries [OF p i] by (auto simp: tries_def)
  have c: "en_nonce_counter s = lane + word_of_nat (length (tries evs)) * en_nonce_stride s"
    using run_solve.IH by blast
  have "\<exists>job prefix orig i. posted (ps @ mw) job prefix orig \<and> from_hex_strict (j_input job) 32 = Some i \<and>
      tries (evs @ evs') ! k = (i, build_nonce prefix (lane + word_of_nat k * en_nonce_stride s))"
    if "k < length (tries (evs @ evs'))" for k
  proof (cases "k < length (tries evs)")
    case True
    then have e: "tries (evs @ evs') ! k = tries evs ! k" by (simp add: nth_append)
    have mono: "posted (ps @ mw) j pre oo" if "posted ps j pre oo" for j pre oo using that by (simp add: posted_def)
    show ?thesis unfolding e using True run_solve.IH mono by blast
  next
    case False
    then have "k = length (tries evs)" using that t by simp
    then have "tries (evs @ evs') ! k = (i, build_nonce prefix (lane + word_of_nat k * en_nonce_stride s))"
      using t c by (simp add: nth_append)
    moreover have "posted (ps @ mw) job prefix orig" using job(1) by (simp add: posted_def)
    ultimately show ?thesis using i by blast
  qed
  moreover have "en_nonce_stride s' = en_nonce_stride s" "en_nonce_counter s' = en_nonce_counter s + en_nonce_stride s"
    using P(2,3) by (simp_all add: s')
  moreover have "length (tries (evs @ evs')) = Suc (length (tries evs))" by (simp add: t)
  ultimately show ?case using run_solve.IH c by (simp only:) (simp add: distrib_right)
qed


section \<open>A concrete run\<close>

text \<open>One job posted, taken and solved, with one candidate that clears it.\<close>

definition demo_job :: job where
  "demo_job = \<lparr>j_id = ''7'', j_input = replicate 64 (CHR ''0''), j_difficulty = 0, j_height = 1\<rparr>"
abbreviation "demo_sha \<equiv> (\<lambda>_::u8 list. replicate 32 (0::u8))"
abbreviation "demo_solve \<equiv> (\<lambda>(_::u8 list) (_::u8 list). Inr [replicate 104 0] :: string + u8 list list)"
definition demo_state :: engine where
  "demo_state = (apply_post (PostJob demo_job ''ab'' Main) (engine_start (engine_new 0 1)))\<lparr>en_has_job := False\<rparr>"

lemma demo_input: "from_hex_strict (replicate 64 (CHR ''0'')) 32 = Some (replicate 32 0)"
  by code_simp
lemma demo_clears: "clears_difficulty demo_sha (replicate 104 0) 0"
  by code_simp
lemma demo_nonce: "build_nonce ''ab'' 0 = [0xab,0,0,0,0,0,0,0]" by code_simp
lemma demo_take: "engine_run demo_sha demo_solve (engine_new 0 1) [PostJob demo_job ''ab'' Main] []
   (Mining demo_job ''ab'' Main) demo_state"
proof -
  have a: "engine_run demo_sha demo_solve (engine_new 0 1) ([] @ [PostJob demo_job ''ab'' Main]) [] Waiting 
     (apply_post (PostJob demo_job ''ab'' Main) (engine_start (engine_new 0 1)))"
    by (rule run_post, rule run_init)
  show ?thesis
   by (rule run_take [OF a [simplified append_Nil], of "Mining demo_job ''ab'' Main" demo_state])
     (simp_all add: preempted_def on_job_def engine_start_def engine_new_def worker_take_def Let_def
       demo_job_def demo_input demo_state_def)
qed
lemma demo_solved: "\<exists>w s. engine_run demo_sha demo_solve (engine_new 0 1) [PostJob demo_job ''ab'' Main]
   [Solve (replicate 32 0) [0xab,0,0,0,0,0,0,0], OnAttempt 1,
    SubmitSolution (solution_for demo_job [0xab,0,0,0,0,0,0,0] (replicate 104 0)) Main] w s"
proof -
  obtain w s where "worker_solve demo_sha demo_solve [] demo_job ''ab'' Main demo_state = (w, s, [Solve (replicate 32 0) [0xab,0,0,0,0,0,0,0], OnAttempt 1,
    SubmitSolution (solution_for demo_job [0xab,0,0,0,0,0,0,0] (replicate 104 0)) Main])"
    using demo_nonce demo_clears demo_input
    by (simp add: worker_solve_def process_job_def demo_job_def Let_def demo_state_def superseded_by_newer_job_def apply_posts_def on_job_def engine_start_def engine_new_def)
  from run_solve [OF demo_take this] show ?thesis by auto
qed

section \<open>Properties\<close>

text \<open>
  The strict decoder accepts exactly the encodings: a string decodes to \<open>n\<close> bytes if and only if
  it is their lowercase encoding, so a job input that passes is the input the pool hashed.\<close>
theorem strict_hex_is_inverse:
  "from_hex_strict hx n = Some bs \<longleftrightarrow> hx = to_hex bs \<and> length bs = n"
proof
  assume a: "from_hex_strict hx n = Some bs"
  then have l: "length hx = n * 2" and p: "from_hex_pairs hx = Some bs"
    by (simp_all add: from_hex_strict_def split: if_splits)
  from to_hex_from_hex [OF p] l show "hx = to_hex bs \<and> length bs = n" by simp
next
  assume "hx = to_hex bs \<and> length bs = n"
  then show "from_hex_strict hx n = Some bs" by (simp add: from_hex_strict_def from_hex_to_hex)
qed

lemma lane_counters_distinct:
  fixes i j k l n :: nat
  assumes "i < n" "j < n" "i \<noteq> j"
  shows "i + k * n \<noteq> j + l * n"
proof
  assume "i + k * n = j + l * n"
  then have "(i + k * n) mod n = (j + l * n) mod n" by simp
  with assms show False by simp
qed

lemma unat_lane:
  fixes n :: u64
  assumes "i + k * unat n < 2 ^ 64"
  shows "unat (word_of_nat i + word_of_nat k * n) = i + k * unat n"
proof -
  have "word_of_nat i + word_of_nat k * n = (word_of_nat (i + k * unat n) :: u64)" by simp
  then show ?thesis using assms by (simp only: unsigned_of_nat) (simp add: take_bit_nat_eq_self)
qed

text \<open>
  The pool's nonce prefix goes with the input: \<open>pf\<close> gives the prefix of every input that is posted, of at
  most 16 digits, and the counters below \<open>n\<close> fit in the bytes it leaves free.
\<close>

definition assigned :: "(u8 list \<Rightarrow> string) \<Rightarrow> nat \<Rightarrow> post list \<Rightarrow> bool" where
  "assigned pf n ps =
    list_all (\<lambda>x. case x of
        PostStop \<Rightarrow> True
      | PostJob job prefix orig \<Rightarrow>
          (case from_hex_strict (j_input job) 32 of
             None \<Rightarrow> True
           | Some i \<Rightarrow> prefix = pf i \<and> length prefix \<le> 16 \<and> n \<le> 256 ^ (8 - (length prefix + 1) div 2))) ps"

text \<open>One engine's attempts, in terms of plain counters.\<close>

lemma lane_tries:
  assumes "engine_run sha solve (engine_new (word_of_nat i) lanes) ps evs w s" "i < unat lanes"
    "assigned pf (i + length (tries evs) * unat lanes) ps" "k < length (tries evs)"
  obtains x c where "tries evs ! k = (x, build_nonce (pf x) c)" "unat c = i + k * unat lanes"
    "length (pf x) \<le> 16" "unat c < 256 ^ (8 - (length (pf x) + 1) div 2)"
proof -
  note R = run_tries [OF assms(1)]
  have "lanes \<noteq> 0" using assms(2) by (auto simp: unat_eq_0)
  then have st: "en_nonce_stride s = lanes" using R by simp
  from R assms(4) st obtain job prefix orig x where p: "posted ps job prefix orig"
    and x: "from_hex_strict (j_input job) 32 = Some x"
    and t: "tries evs ! k = (x, build_nonce prefix (word_of_nat i + word_of_nat k * lanes))" by metis
  from assms(3) p x have a: "prefix = pf x" "length prefix \<le> 16"
    "i + length (tries evs) * unat lanes \<le> 256 ^ (8 - (length prefix + 1) div 2)"
    by (auto simp: assigned_def posted_def list_all_iff dest!: bspec)
  have "Suc k * unat lanes \<le> length (tries evs) * unat lanes" using assms(4) by (intro mult_right_mono) simp_all
  then have "i + k * unat lanes + unat lanes \<le> 256 ^ (8 - (length prefix + 1) div 2)" using a(3) by simp
  then have b: "i + k * unat lanes < 256 ^ (8 - (length prefix + 1) div 2)" using assms(2) by linarith
  have "(256::nat) ^ (8 - (length prefix + 1) div 2) \<le> 256 ^ 8" by (rule power_increasing) simp_all
  with b have "i + k * unat lanes < 2 ^ 64" by simp
  note u = unat_lane [OF this]
  show thesis
  proof (rule that)
    show "tries evs ! k = (x, build_nonce (pf x) (word_of_nat i + word_of_nat k * lanes))" using t a(1) by simp
    show "unat (word_of_nat i + word_of_nat k * lanes) < 256 ^ (8 - (length (pf x) + 1) div 2)"
      unfolding u using b a(1) by simp
  qed (use a(1,2) u in simp_all)
qed

lemma distinct_tries:
  assumes "engine_run sha solve (engine_new (word_of_nat i) lanes) ps evs w s" "i < unat lanes"
    "assigned pf (i + length (tries evs) * unat lanes) ps"
  shows "distinct (tries evs)"
proof (rule distinct_conv_nth [THEN iffD2], intro allI impI)
  fix k l assume k: "k < length (tries evs)" and l: "l < length (tries evs)" and n: "k \<noteq> l"
  from lane_tries [OF assms k] obtain x c where x: "tries evs ! k = (x, build_nonce (pf x) c)" "unat c = i + k * unat lanes"
    "length (pf x) \<le> 16" "unat c < 256 ^ (8 - (length (pf x) + 1) div 2)" .
  from lane_tries [OF assms l] obtain y d where y: "tries evs ! l = (y, build_nonce (pf y) d)" "unat d = i + l * unat lanes"
    "length (pf y) \<le> 16" "unat d < 256 ^ (8 - (length (pf y) + 1) div 2)" .
  show "tries evs ! k \<noteq> tries evs ! l"
  proof
    assume "tries evs ! k = tries evs ! l"
    then have e: "(x, build_nonce (pf x) c) = (y, build_nonce (pf y) d)" by (simp only: x(1) y(1))
    then have "y = x" by simp
    moreover from e have "build_nonce (pf x) c = build_nonce (pf x) d" by (elim Pair_inject) simp
    ultimately have "y = x" "build_nonce (pf x) c = build_nonce (pf x) d" by blast+
    with build_nonce_inj [of "pf x" c d] x y have "c = d" by simp
    with x(2) y(2) n assms(2) show False by simp
  qed
qed

text \<open>
  C8: No work is done twice on a rig: engines \<open>i \<noteq> j\<close> of a rig of \<open>lanes\<close> devices, each started on its own
  lane, whatever is posted to them and however they are paused, restarted or fail, never give their
  solvers the same nonce for the same input, neither twice on one device nor on both, as long as a
  pool's prefix goes with its inputs and the counters have not outgrown the bytes it leaves free.\<close>
theorem lanes_never_collide:
  assumes "engine_run sha solve (engine_new (word_of_nat i) lanes) ps evs w s"
    and "engine_run sha' solve' (engine_new (word_of_nat j) lanes) ps' evs' w' s'"
    and "i < unat lanes" "j < unat lanes" "i \<noteq> j"
    and "assigned pf (i + length (tries evs) * unat lanes) ps"
    and "assigned pf (j + length (tries evs') * unat lanes) ps'"
  shows "distinct (tries evs @ tries evs')"
proof -
  have "tries evs ! k \<noteq> tries evs' ! l" if k: "k < length (tries evs)" and l: "l < length (tries evs')" for k l
  proof -
    from lane_tries [OF assms(1,3,6) k] obtain x c where x: "tries evs ! k = (x, build_nonce (pf x) c)"
      "unat c = i + k * unat lanes" "length (pf x) \<le> 16" "unat c < 256 ^ (8 - (length (pf x) + 1) div 2)" .
    from lane_tries [OF assms(2,4,7) l] obtain y d where y: "tries evs' ! l = (y, build_nonce (pf y) d)"
      "unat d = j + l * unat lanes" "length (pf y) \<le> 16" "unat d < 256 ^ (8 - (length (pf y) + 1) div 2)" .
    show ?thesis
    proof
      assume "tries evs ! k = tries evs' ! l"
      then have e: "(x, build_nonce (pf x) c) = (y, build_nonce (pf y) d)" by (simp only: x(1) y(1))
      then have "y = x" by simp
      moreover from e have "build_nonce (pf x) c = build_nonce (pf x) d" by (elim Pair_inject) simp
      ultimately have "y = x" "build_nonce (pf x) c = build_nonce (pf x) d" by blast+
      with build_nonce_inj [of "pf x" c d] x y have "c = d" by simp
      with x(2) y(2) lane_counters_distinct [OF assms(3-5), of k l] show False by simp
    qed
  qed
  then have "set (tries evs) \<inter> set (tries evs') = {}" by (force simp: in_set_conv_nth)
  then show ?thesis
    using distinct_tries [OF assms(1,3,6)] distinct_tries [OF assms(2,4,7)] by simp
qed

text \<open>Two devices with the same job.\<close>

lemma demo_lane:
  "\<exists>evs w s. engine_run demo_sha demo_solve (engine_new l n) [PostJob demo_job ''ab'' Main] evs w s \<and>
    tries evs = [(replicate 32 0, build_nonce ''ab'' l)]"
proof -
  let ?s = "apply_post (PostJob demo_job ''ab'' Main) (engine_start (engine_new l n))"
  have "engine_run demo_sha demo_solve (engine_new l n) ([] @ [PostJob demo_job ''ab'' Main]) [] Waiting ?s"
    by (rule run_post, rule run_init)
  then have "engine_run demo_sha demo_solve (engine_new l n) [PostJob demo_job ''ab'' Main] []
      (Mining demo_job ''ab'' Main) (?s\<lparr>en_has_job := False\<rparr>)"
    unfolding append_Nil by (rule run_take) (simp_all add: preempted_def on_job_def engine_start_def engine_new_def
        worker_take_def Let_def demo_job_def demo_input)
  moreover obtain w s evs where b: "worker_solve demo_sha demo_solve [] demo_job ''ab'' Main (?s\<lparr>en_has_job := False\<rparr>) = (w, s, evs)"
    by (metis prod.exhaust)
  ultimately have "engine_run demo_sha demo_solve (engine_new l n) ([PostJob demo_job ''ab'' Main] @ []) ([] @ evs) w s"
    by (rule run_solve)
  moreover from b have "tries evs = [(replicate 32 0, build_nonce ''ab'' l)]"
    by (auto simp: worker_solve_def process_job_def demo_job_def Let_def demo_input demo_clears
        superseded_by_newer_job_def apply_posts_def on_job_def engine_start_def engine_new_def tries_def split: if_splits)
  ultimately show ?thesis by auto
qed

theorem lanes_never_collide_witness:
  "distinct ([(replicate 32 0, build_nonce ''ab'' 0)] @ [(replicate 32 0, build_nonce ''ab'' 1)])"
proof -
  from demo_lane [of 0 2] obtain evs w s where a: "engine_run demo_sha demo_solve (engine_new (word_of_nat 0) 2)
      [PostJob demo_job ''ab'' Main] evs w s" "tries evs = [(replicate 32 0, build_nonce ''ab'' 0)]" by auto
  from demo_lane [of 1 2] obtain evs' w' s' where b: "engine_run demo_sha demo_solve (engine_new (word_of_nat 1) 2)
      [PostJob demo_job ''ab'' Main] evs' w' s'" "tries evs' = [(replicate 32 0, build_nonce ''ab'' 1)]" by auto
  have "assigned (\<lambda>_. ''ab'') n [PostJob demo_job ''ab'' Main]" if "n \<le> 3" for n
    using that by (simp add: assigned_def split: option.split)
  with lanes_never_collide [OF a(1) b(1), of "\<lambda>_. ''ab''"] show ?thesis unfolding a(2) b(2) by simp
qed

lemma submissions_keep_job:
  assumes "engine_run sha solve (engine_new lane lanes) ps evs w s" "SubmitSolution sol orig \<in> set evs"
  shows "\<exists>job prefix cand. PostJob job prefix orig \<in> set ps \<and> s_id sol = j_id job \<and>
    s_output sol = to_hex cand \<and> clears_difficulty sha cand (j_difficulty job)"
  using run_origin [OF assms(1)] assms(2) unfolding posted_def from_job_def by blast

text \<open>
  C7: Whatever the other threads post and whenever they post it, every solution the worker submits
  carries the id and the origin of a job somebody posted, and its output clears that job's difficulty.\<close>
theorem submissions_keep_their_job:
  assumes "engine_run sha solve (engine_new lane lanes) ps evs w s" "SubmitSolution sol orig \<in> set evs"
  shows "\<exists>job prefix cand. PostJob job prefix orig \<in> set ps \<and> s_id sol = j_id job \<and>
    s_output sol = to_hex cand \<and> clears_difficulty sha cand (j_difficulty job)"
  using assms by (rule submissions_keep_job)

theorem submissions_keep_their_job_witness:
  "\<exists>job prefix cand. PostJob job prefix Main \<in> set [PostJob demo_job ''ab'' Main] \<and> ''7'' = j_id job \<and>
    s_output (solution_for demo_job [0xab,0,0,0,0,0,0,0] (replicate 104 0)) = to_hex cand \<and>
    clears_difficulty demo_sha cand (j_difficulty job)"
proof -
  from demo_solved obtain w s where "engine_run demo_sha demo_solve (engine_new 0 1) [PostJob demo_job ''ab'' Main]
   [Solve (replicate 32 0) [0xab,0,0,0,0,0,0,0], OnAttempt 1,
    SubmitSolution (solution_for demo_job [0xab,0,0,0,0,0,0,0] (replicate 104 0)) Main] w s" by blast
  from submissions_keep_their_job [OF this, of "solution_for demo_job [0xab,0,0,0,0,0,0,0] (replicate 104 0)" Main]
  have "\<exists>job prefix cand. PostJob job prefix Main \<in> set [PostJob demo_job ''ab'' Main] \<and>
    s_id (solution_for demo_job [0xab,0,0,0,0,0,0,0] (replicate 104 0)) = j_id job \<and>
    s_output (solution_for demo_job [0xab,0,0,0,0,0,0,0] (replicate 104 0)) = to_hex cand \<and>
    clears_difficulty demo_sha cand (j_difficulty job)" by auto
  moreover have "s_id (solution_for demo_job [0xab,0,0,0,0,0,0,0] (replicate 104 0)) = ''7''"
    by (simp add: solution_for_def demo_job_def)
  ultimately show ?thesis by simp
qed

text \<open>
  The nonces of a run, in order: attempt \<open>k\<close> uses counter \<open>lane + k * lanes\<close> under the prefix of
  a posted job, across job changes, solver failures, pauses and restarts of the inner loop.\<close>
theorem run_walks_its_lane:
  assumes "engine_run sha solve (engine_new lane lanes) ps evs w s" "lanes \<noteq> 0" "k < length (trace_nonces evs)"
  shows "\<exists>job prefix orig. PostJob job prefix orig \<in> set ps \<and>
    trace_nonces evs ! k = build_nonce prefix (lane + word_of_nat k * lanes)"
proof -
  note R = run_tries [OF assms(1)]
  have "en_nonce_stride s = lanes" using R assms(2) by simp
  then show ?thesis using R assms(3) unfolding posted_def trace_tries by (metis length_map nth_map snd_conv)
qed

theorem run_walks_its_lane_witness:
  "\<exists>job prefix orig. PostJob job prefix orig \<in> set [PostJob demo_job ''ab'' Main] \<and>
    [0xab,0,0,0,0,0,0,0] = build_nonce prefix (0 + word_of_nat 0 * 1)"
proof -
  from demo_solved obtain w s where r: "engine_run demo_sha demo_solve (engine_new 0 1) [PostJob demo_job ''ab'' Main]
   [Solve (replicate 32 0) [0xab,0,0,0,0,0,0,0], OnAttempt 1,
    SubmitSolution (solution_for demo_job [0xab,0,0,0,0,0,0,0] (replicate 104 0)) Main] w s" by blast
  have t: "trace_nonces [Solve (replicate 32 0) [0xab,0,0,0,0,0,0,0], OnAttempt 1,
    SubmitSolution (solution_for demo_job [0xab,0,0,0,0,0,0,0] (replicate 104 0)) Main] = [[0xab,0,0,0,0,0,0,0]]"
    by (simp add: trace_nonces_def)
  show ?thesis using run_walks_its_lane [OF r, of 0] unfolding t by simp
qed

lemma retry_fold:
  fixes b :: int
  assumes "b \<ge> 0"
  shows "retry_delay b f = (if unat f \<le> 1 then b else if unat f \<le> 2 then 2 * b else if unat f \<le> 3 then 4 * b
    else if unat f \<le> 4 then 8 * b else if unat f \<le> 5 then 16 * b else 30 * b)"
proof -
  have "[1..<6] = [1,2,3,4,5::nat]" by (simp add: upt_conv_Cons)
  then show ?thesis using assms by (auto simp: retry_delay_def Let_def)
qed

text \<open>
  The backoff after \<open>f\<close> consecutive failures is at least the base, at most thirty times the base, and
  never shrinks as the failures go on.\<close>
theorem retry_delay_bounds:
  assumes "base \<ge> 0" "f \<le> g"
  shows "base \<le> retry_delay base f \<and> retry_delay base f \<le> retry_delay base g \<and> retry_delay base g \<le> 30 * base"
proof -
  have "unat f \<le> unat g" using assms(2) by (simp add: word_le_nat_alt)
  then show ?thesis using assms(1) unfolding retry_fold [OF assms(1)] by auto
qed

theorem retry_delay_bounds_witness:
  "1000 \<le> retry_delay 1000 3 \<and> retry_delay 1000 3 \<le> retry_delay 1000 9 \<and> retry_delay 1000 9 \<le> 30 * 1000"
  by (rule retry_delay_bounds) simp_all

end
