(* ===== verification/Rig.thy ===== *)
theory Rig
  imports DevFee Engine
begin

text \<open>
  The wiring of src/main.cpp and the fee scheduler of src/miner/devfee.cpp: one engine per device,
  the router that feeds them all, the statistics, the callbacks of the two pool connections, and
  the clock that switches the router for a fee round. A callback is a step of the rig; what other
  threads do while a round runs is a list of steps.
\<close>

section \<open>The rig\<close>

record rig =
  rg_router :: router
  rg_stats :: stats
  rg_engines :: "engine list"
  rg_accrual :: accrual
  rg_warned :: bool

text \<open>What leaves the rig: a share to a pool, and the lines of the console.\<close>

datatype rig_output =
    SentTo origin solution
  | ShareFound nat double double
  | LoggedIn
  | LoginFailed int string
  | ShareResult int string int
  | JobLine string u32 u64
  | Disconnected
  | SolverErrorLine nat string u32
  | DevfeeStart int
  | DevfeeEnd int
  | Info string

definition rig_engines :: "nat \<Rightarrow> engine list" where
  "rig_engines lanes = map (\<lambda>k. engine_new (word_of_nat k) (word_of_nat lanes)) [0..<lanes]"

definition rig_new :: "int \<Rightarrow> string list \<Rightarrow> schedule \<Rightarrow> rig" where
  "rig_new now labels sched = \<lparr>rg_router = router_new,
     rg_stats = set_devfee_rate (sc_rate sched) (set_device_labels labels (stats_new now)),
     rg_engines = rig_engines (length labels), rg_accrual = accrual_new sched, rg_warned = False\<rparr>"

definition dispatch_to :: "dispatch \<Rightarrow> engine list \<Rightarrow> engine list" where
  "dispatch_to d es = (case d of (j, p, orig) \<Rightarrow> map (on_job j p orig) es)"

definition with_router :: "(router \<Rightarrow> router \<times> dispatch list) \<Rightarrow> rig \<Rightarrow> rig" where
  "with_router f g =
    (let (r, ds) = f (rg_router g)
     in g\<lparr>rg_router := r, rg_engines := fold dispatch_to ds (rg_engines g)\<rparr>)"

definition with_stats :: "(stats \<Rightarrow> stats) \<Rightarrow> rig \<Rightarrow> rig" where
  "with_stats f g = g\<lparr>rg_stats := f (rg_stats g)\<rparr>"

section \<open>The callbacks\<close>

definition main_on_job :: "int \<Rightarrow> job \<Rightarrow> string \<Rightarrow> rig \<Rightarrow> rig \<times> rig_output list" where
  "main_on_job now j prefix g =
    (let g = with_stats (record_job (j_id j) (to_display_units (j_difficulty j)) Main) g
     in (with_router (offer now j prefix Main) g, [JobLine (j_id j) (j_difficulty j) (j_height j)]))"

definition main_on_result :: "int \<Rightarrow> result \<Rightarrow> rig \<Rightarrow> rig \<times> rig_output list" where
  "main_on_result now r g =
    (if r_id r = ''login'' then
       (g, if r_code r = 0 then [LoggedIn] else [LoginFailed (sint (r_code r)) (r_description r)])
     else
       let s = record_result now (sint (r_code r)) Main (rg_stats g);
           (sn, s) = snapshot now s
       in (g\<lparr>rg_stats := s\<rparr>, [ShareResult (sint (r_code r)) (r_description r) (sn_last_latency_ms sn)]))"

definition main_on_disconnect :: "rig \<Rightarrow> rig \<times> rig_output list" where
  "main_on_disconnect g =
    (let g = with_stats record_disconnect g
     in (with_router (\<lambda>r. (router_clear Main r, [])) g, [Disconnected]))"

definition dev_on_job :: "int \<Rightarrow> job \<Rightarrow> string \<Rightarrow> rig \<Rightarrow> rig \<times> rig_output list" where
  "dev_on_job now j prefix g =
    (let g = with_router (offer now j prefix Dev) g
     in (with_stats (record_job (j_id j) (to_display_units (j_difficulty j)) Dev) g, []))"

definition dev_on_result :: "int \<Rightarrow> result \<Rightarrow> rig \<Rightarrow> rig \<times> rig_output list" where
  "dev_on_result now r g =
    (if r_id r = ''login'' then (g, [])
     else (with_stats (record_result now (sint (r_code r)) Dev) g, []))"

definition dev_on_disconnect :: "rig \<Rightarrow> rig \<times> rig_output list" where
  "dev_on_disconnect g = (with_router (\<lambda>r. (router_clear Dev r, [])) g, [])"

text \<open>
  The submission of engine \<open>dev\<close>. \<open>huge\<close> is \<open>HUGE_VAL\<close>, which \<open>achieved_units\<close> returns for a hash
  of zeros only. With no fee connection there is no solution of origin \<open>Dev\<close>.
\<close>

definition submit_fn ::
    "(u8 list \<Rightarrow> u8 list) \<Rightarrow> double \<Rightarrow> int \<Rightarrow> nat \<Rightarrow> solution \<Rightarrow> origin \<Rightarrow> rig \<Rightarrow> rig \<times> rig_output list" where
  "submit_fn sha huge now dev s orig g =
    (let (g, out) =
       (case from_hex_strict (s_output s) 104 of
          None \<Rightarrow> (g, [])
        | Some soln \<Rightarrow>
            let units = (case achieved_units (sha soln) of Some u \<Rightarrow> u | None \<Rightarrow> huge)
            in (with_stats (record_share_found now units orig dev) g,
                if orig = Main then [ShareFound dev units (current_job_units orig (rg_stats g))] else []));
         g = with_stats (record_submit now (s_id s) orig dev) g
     in (g, out @ [SentTo orig s]))"

definition on_attempt :: "int \<Rightarrow> u32 \<Rightarrow> nat \<Rightarrow> rig \<Rightarrow> rig \<times> rig_output list" where
  "on_attempt now candidates dev g = (with_stats (record_attempt now candidates dev) g, [])"

definition on_solver_error :: "nat \<Rightarrow> string \<Rightarrow> u32 \<Rightarrow> rig \<Rightarrow> rig \<times> rig_output list" where
  "on_solver_error dev what n g =
    (g, [SolverErrorLine dev what n] @
        (if n = 1 then [Info (''Retrying with backoff - mining continues. If another process '' @
           ''is using the GPU, stop it: a full BeamHash III search needs '' @
           ''~5.7 GiB free at the smallest geometry.'')] else []))"

text \<open>A worker taking its mailbox.\<close>

definition rig_take :: "nat \<Rightarrow> rig \<Rightarrow> rig" where
  "rig_take k g =
    (if k < length (rg_engines g)
     then g\<lparr>rg_engines := (rg_engines g)[k := snd (worker_take (rg_engines g ! k))]\<rparr> else g)"

datatype rig_event =
    PoolJob origin int job string
  | PoolResult origin int result
  | PoolDrop origin
  | Attempted int u32 nat
  | Solved int nat solution origin
  | SolverFailed nat string u32
  | WorkerTakes nat

fun rig_step :: "(u8 list \<Rightarrow> u8 list) \<Rightarrow> double \<Rightarrow> rig_event \<Rightarrow> rig \<Rightarrow> rig \<times> rig_output list" where
  "rig_step sha huge (PoolJob orig now j p) g =
    (case orig of Main \<Rightarrow> main_on_job now j p g | Dev \<Rightarrow> dev_on_job now j p g)"
| "rig_step sha huge (PoolResult orig now r) g =
    (case orig of Main \<Rightarrow> main_on_result now r g | Dev \<Rightarrow> dev_on_result now r g)"
| "rig_step sha huge (PoolDrop orig) g =
    (case orig of Main \<Rightarrow> main_on_disconnect g | Dev \<Rightarrow> dev_on_disconnect g)"
| "rig_step sha huge (Attempted now c dev) g = on_attempt now c dev g"
| "rig_step sha huge (Solved now dev s orig) g = submit_fn sha huge now dev s orig g"
| "rig_step sha huge (SolverFailed dev what n) g = on_solver_error dev what n g"
| "rig_step sha huge (WorkerTakes k) g = (rig_take k g, [])"

fun rig_steps :: "(u8 list \<Rightarrow> u8 list) \<Rightarrow> double \<Rightarrow> rig_event list \<Rightarrow> rig \<Rightarrow> rig \<times> rig_output list" where
  "rig_steps sha huge [] g = (g, [])"
| "rig_steps sha huge (e # es) g =
    (let (g, o1) = rig_step sha huge e g; (g, o2) = rig_steps sha huge es g in (g, o1 @ o2))"

section \<open>The scheduler\<close>

text \<open>Nanoseconds. The readings of the clock in one turn of the loop, in the order they are taken.\<close>

definition kTick :: int where "kTick = 1000000000"
definition kSolveGrace :: int where "kSolveGrace = 30 * 1000000000"
definition kDevJobMaxAge :: int where "kDevJobMaxAge = 120 * 1000000000"

record tick_clock =
  tk_now :: int
  tk_stats :: int
  tk_fresh :: int
  tk_t0 :: int
  tk_t1 :: int

definition run_slice ::
    "(u8 list \<Rightarrow> u8 list) \<Rightarrow> double \<Rightarrow> rig_event list \<Rightarrow> tick_clock \<Rightarrow> rig \<Rightarrow> rig \<times> rig_output list" where
  "run_slice sha huge meanwhile tk g =
    (if \<not> router_fresh (tk_fresh tk) Dev kDevJobMaxAge (rg_router g) then
       if \<not> rg_warned g
       then (g\<lparr>rg_warned := True\<rparr>, [Info ''dev fee pool has no current job - fee round deferred''])
       else (g, [])
     else
       let g = g\<lparr>rg_warned := False\<rparr>;
           len = slice_len (rg_accrual g);
           g = with_stats (set_devfee_active True) g;
           g = with_router (set_active Dev) g;
           (g, out) = rig_steps sha huge meanwhile g;
           g = with_router (set_active Main) g;
           spent = d_seconds (tk_t1 tk - tk_t0 tk);
           g = with_stats (set_devfee_active False) g;
           g = with_stats (record_devfee_slice spent) g;
           g = g\<lparr>rg_accrual := settle spent (rg_accrual g)\<rparr>
       in (g, [DevfeeStart len] @ out @ [DevfeeEnd (tdiv (tk_t1 tk - tk_t0 tk) 1000000000)]))"

text \<open>One turn of the loop after its wait, with the time of the previous turn.\<close>

definition tick_dt :: "int \<Rightarrow> int \<Rightarrow> double" where
  "tick_dt now prev = (let dt = d_seconds (now - prev) in if dt > 2 then 1 else dt)"

definition scheduler_tick ::
    "(u8 list \<Rightarrow> u8 list) \<Rightarrow> double \<Rightarrow> rig_event list \<Rightarrow> tick_clock \<Rightarrow> int \<Rightarrow> rig \<Rightarrow> rig \<times> int \<times> rig_output list" where
  "scheduler_tick sha huge meanwhile tk prev g =
    (let now = tk_now tk; dt = tick_dt now prev
     in if \<not> router_has Main (rg_router g) then (g, now, [])
        else if \<not> attempted_within (tk_stats tk) kSolveGrace (rg_stats g) then (g, now, [])
        else
          let g = g\<lparr>rg_accrual := add_mining_time dt (rg_accrual g)\<rparr>
          in if \<not> slice_due (rg_accrual g) then (g, now, [])
             else let (g, out) = run_slice sha huge meanwhile tk g in (g, now, out))"

section \<open>Start-up\<close>

text \<open>
  The fee of a run: \<open>pct\<close> is \<open>--dev-fee\<close>, negative when it was not given. An error refuses to start.
\<close>

definition fee_setup :: "double \<Rightarrow> string \<Rightarrow> string + (fee_pool \<times> schedule)" where
  "fee_setup pct user =
    (let pool = devfee_pool; sched = devfee_schedule; want = ddiv pct 100
     in if pct \<ge> 0 \<and> want < sc_rate sched then
          Inl (''--dev-fee '' @ fmt_g 4 pct @ ''% is below this build's '' @
               fmt_g 4 (dmul (sc_rate sched) 100) @
               ''% rate; the fee can be raised, not lowered (see docs/devfee.md).'')
        else
          let sched = (if pct \<ge> 0 then sched\<lparr>sc_rate := want\<rparr> else sched)
          in Inr (pool\<lparr>fp_user := devfee_login (fp_user pool) user (sc_rate sched)\<rparr>, sched))"


section \<open>A run of the rig\<close>

datatype rig_turn = Events "rig_event list" | Tick "rig_event list" tick_clock

fun rig_turn_step ::
    "(u8 list \<Rightarrow> u8 list) \<Rightarrow> double \<Rightarrow> rig_turn \<Rightarrow> rig \<times> int \<Rightarrow> rig \<times> int" where
  "rig_turn_step sha huge (Events es) (g, prev) = (fst (rig_steps sha huge es g), prev)"
| "rig_turn_step sha huge (Tick meanwhile tk) (g, prev) =
    (case scheduler_tick sha huge meanwhile tk prev g of (g', now, out) \<Rightarrow> (g', now))"

definition rig_run ::
    "(u8 list \<Rightarrow> u8 list) \<Rightarrow> double \<Rightarrow> rig_turn list \<Rightarrow> rig \<times> int \<Rightarrow> rig \<times> int" where
  "rig_run sha huge ts s = fold (rig_turn_step sha huge) ts s"

section \<open>The engines follow the router\<close>

definition engine_has :: "dispatch \<Rightarrow> engine \<Rightarrow> bool" where
  "engine_has d e \<longleftrightarrow> d = (en_latest_job e, en_latest_nonceprefix e, en_latest_origin e)"

definition rig_sync :: "rig \<Rightarrow> bool" where
  "rig_sync g \<longleftrightarrow>
    (\<forall>d. cached (rt_active (rg_router g)) (rg_router g) = Some d \<longrightarrow>
      (\<forall>e \<in> set (rg_engines g). engine_has d e))"

lemma dispatched: "ds \<noteq> [] \<Longrightarrow> e \<in> set (fold dispatch_to ds es) \<Longrightarrow> engine_has (last ds) e"
proof (induction ds arbitrary: es)
  case (Cons d ds)
  then show ?case
    by (cases "ds = []") (auto simp: dispatch_to_def engine_has_def on_job_def split: prod.splits)
qed simp

lemma sync_router:
  assumes "rig_sync g"
  shows "rig_sync (with_router (router_apply x) g)"
proof -
  obtain r ds where s: "router_apply x (rg_router g) = (r, ds)" by (cases "router_apply x (rg_router g)")
  have "engine_has d e"
    if c: "cached (rt_active r) r = Some d" and e: "e \<in> set (fold dispatch_to ds (rg_engines g))" for d e
    using js.step_dispatch [OF s c]
  proof (elim disjE conjE)
    assume "ds = []" "cached (rt_active (rg_router g)) (rg_router g) = Some d"
    with assms e show "engine_has d e" unfolding rig_sync_def fold_simps by (metis fold_simps(1) id_apply)
  next
    assume "ds \<noteq> []" "last ds = d"
    with e show "engine_has d e" using dispatched by blast
  qed
  then show ?thesis unfolding rig_sync_def with_router_def s by simp
qed

lemma sync_offer: "rig_sync g \<Longrightarrow> rig_sync (with_router (offer now j p orig) g)"
  using sync_router [of g "Offer now j p orig"] by (simp add: with_router_def)

lemma sync_active: "rig_sync g \<Longrightarrow> rig_sync (with_router (set_active orig) g)"
  using sync_router [of g "Activate orig"] by (simp add: with_router_def)

lemma sync_clear: "rig_sync g \<Longrightarrow> rig_sync (with_router (\<lambda>r. (router_clear orig r, [])) g)"
  using sync_router [of g "Clear orig"] by (simp add: with_router_def)

lemma sync_same:
  "rg_router g' = rg_router g \<Longrightarrow> rg_engines g' = rg_engines g \<Longrightarrow> rig_sync g \<Longrightarrow> rig_sync g'"
  by (simp add: rig_sync_def)

lemma stats_frame [simp]:
  "rg_router (with_stats f g) = rg_router g" "rg_engines (with_stats f g) = rg_engines g"
  "rg_accrual (with_stats f g) = rg_accrual g" "rg_stats (with_stats f g) = f (rg_stats g)"
  "rg_warned (with_stats f g) = rg_warned g" "rig_sync (with_stats f g) = rig_sync g"
  by (simp_all add: with_stats_def rig_sync_def)

lemma router_frame [simp]:
  "rg_stats (with_router f g) = rg_stats g" "rg_accrual (with_router f g) = rg_accrual g"
  "rg_router (with_router f g) = fst (f (rg_router g))"
  by (simp_all add: with_router_def split: prod.splits)

lemma active_frame [simp]:
  "rt_active (fst (offer now j p orig r)) = rt_active r"
  "rt_active (router_clear orig r) = rt_active r"
  "rt_active (fst (set_active orig r)) = orig"
  by (simp_all add: offer_def router_clear_def set_active_def Let_def)

lemma sync_take: "rig_sync g \<Longrightarrow> rig_sync (rig_take k g)"
proof -
  assume g: "rig_sync g"
  have same: "engine_has d (snd (worker_take e)) = engine_has d e" for d e
    by (simp add: worker_take_def Let_def engine_has_def)
  have "engine_has d e" if "cached (rt_active (rg_router g)) (rg_router g) = Some d"
    "e \<in> set ((rg_engines g)[k := snd (worker_take (rg_engines g ! k))])" "k < length (rg_engines g)" for d e
    using that g same set_update_subset_insert [of "rg_engines g" k "snd (worker_take (rg_engines g ! k))"]
    unfolding rig_sync_def by (metis insert_iff nth_mem subset_iff)
  with g show ?thesis by (auto simp: rig_take_def rig_sync_def)
qed

lemma take_frame [simp]:
  "rg_accrual (rig_take k g) = rg_accrual g" "rg_router (rig_take k g) = rg_router g"
  "rg_stats (rig_take k g) = rg_stats g"
  by (simp_all add: rig_take_def)

text \<open>What no callback changes.\<close>

lemma devfee_active_frame [simp]:
  "st_devfee_active (record_job i u orig s) = st_devfee_active s"
  "st_devfee_active (record_result now c orig s) = st_devfee_active s"
  "st_devfee_active (record_disconnect s) = st_devfee_active s"
  "st_devfee_active (record_share_found now u orig d s) = st_devfee_active s"
  "st_devfee_active (record_submit now i orig d s) = st_devfee_active s"
  "st_devfee_active (record_attempt now cand d s) = st_devfee_active s"
  by (auto simp: record_job_def record_result_def count_result_def record_disconnect_def record_share_found_def
      record_submit_def record_attempt_def Let_def split: option.splits)

lemma devfee_active_snapshot: "st_devfee_active (snd (snapshot now s)) = st_devfee_active s"
  using snapshot_state [of now s] by auto

lemma rig_step_frame:
  assumes "rig_step sha huge e g = (g', out)"
  shows "rg_accrual g' = rg_accrual g" "rt_active (rg_router g') = rt_active (rg_router g)"
    "st_devfee_active (rg_stats g') = st_devfee_active (rg_stats g)" "rig_sync g \<Longrightarrow> rig_sync g'"
proof -
  have "rg_accrual g' = rg_accrual g \<and> rt_active (rg_router g') = rt_active (rg_router g) \<and>
    st_devfee_active (rg_stats g') = st_devfee_active (rg_stats g) \<and> (rig_sync g \<longrightarrow> rig_sync g')"
  proof (cases e)
    case (PoolResult orig now r)
    have "st_devfee_active s' = st_devfee_active s" if "snapshot t s = (sn, s')" for t s sn s'
      using devfee_active_snapshot [of t s] that by simp
    with assms PoolResult show ?thesis
      by (cases orig) (auto simp: main_on_result_def dev_on_result_def Let_def intro: sync_same
          split: if_splits prod.splits)
  qed (use assms in \<open>auto simp: main_on_job_def dev_on_job_def main_on_disconnect_def dev_on_disconnect_def
      on_attempt_def submit_fn_def on_solver_error_def Let_def sync_offer sync_clear sync_take
      split: origin.splits option.splits if_splits\<close>)
  then show "rg_accrual g' = rg_accrual g" "rt_active (rg_router g') = rt_active (rg_router g)"
    "st_devfee_active (rg_stats g') = st_devfee_active (rg_stats g)" "rig_sync g \<Longrightarrow> rig_sync g'" by simp_all
qed


lemma rig_steps_frame:
  "rig_steps sha huge es g = (g', out) \<Longrightarrow>
    rg_accrual g' = rg_accrual g \<and> rt_active (rg_router g') = rt_active (rg_router g) \<and>
    st_devfee_active (rg_stats g') = st_devfee_active (rg_stats g) \<and> (rig_sync g \<longrightarrow> rig_sync g')"
proof (induction es arbitrary: g g' out)
  case (Cons e es)
  obtain g1 o1 where s: "rig_step sha huge e g = (g1, o1)" by (cases "rig_step sha huge e g")
  obtain g2 o2 where t: "rig_steps sha huge es g1 = (g2, o2)" by (cases "rig_steps sha huge es g1")
  from Cons.prems s t have "g' = g2" by simp
  with Cons.IH [OF t] rig_step_frame [OF s] show ?case by simp
qed simp

section \<open>The user's pool has the solver between rounds\<close>

definition rig_ok :: "rig \<Rightarrow> bool" where
  "rig_ok g \<longleftrightarrow> rig_sync g \<and> rt_active (rg_router g) = Main \<and> \<not> st_devfee_active (rg_stats g)"

lemma sync_accrual [simp]:
  "rig_sync (g\<lparr>rg_accrual := a\<rparr>) = rig_sync g" "rig_sync (g\<lparr>rg_warned := w\<rparr>) = rig_sync g"
  by (simp_all add: rig_sync_def)

lemma rig_ok_slice:
  assumes "rig_ok g" "run_slice sha huge mw tk g = (g', out)"
  shows "rig_ok g'"
proof (cases "router_fresh (tk_fresh tk) Dev kDevJobMaxAge (rg_router g)")
  case False
  with assms show ?thesis by (auto simp: run_slice_def rig_ok_def split: if_splits)
next
  case True
  define g1 where "g1 = with_router (set_active Dev) (with_stats (set_devfee_active True) (g\<lparr>rg_warned := False\<rparr>))"
  obtain g2 o2 where s: "rig_steps sha huge mw g1 = (g2, o2)" by (cases "rig_steps sha huge mw g1")
  have "rig_sync g1" using assms(1) unfolding g1_def rig_ok_def by (intro sync_active) simp
  with rig_steps_frame [OF s] have "rig_sync (with_router (set_active Main) g2)" by (intro sync_active) simp
  moreover from assms(2) True s obtain a where
    "g' = (with_stats (record_devfee_slice (d_seconds (tk_t1 tk - tk_t0 tk)))
       (with_stats (set_devfee_active False) (with_router (set_active Main) g2)))\<lparr>rg_accrual := a\<rparr>"
    unfolding run_slice_def Let_def g1_def [symmetric] by auto
  ultimately show ?thesis by (simp add: rig_ok_def set_devfee_active_def record_devfee_slice_def)
qed

lemma rig_ok_tick:
  assumes "rig_ok g" "scheduler_tick sha huge mw tk prev g = (g', now, out)"
  shows "rig_ok g'"
proof -
  have a: "rig_ok (g\<lparr>rg_accrual := x\<rparr>)" for x using assms(1) by (simp add: rig_ok_def)
  from assms(2) a assms(1) show ?thesis
    by (auto simp: scheduler_tick_def Let_def split: if_splits prod.splits intro: rig_ok_slice [OF a])
qed

lemma rig_ok_new: "rig_ok (rig_new now labels sched)"
  by (simp add: rig_ok_def rig_new_def rig_sync_def router_new_def cached_def router_slot_def slot0_def
      set_devfee_rate_def set_device_labels_def stats_new_def)

lemma rig_ok_turn: "rig_ok (fst s) \<Longrightarrow> rig_ok (fst (rig_turn_step sha huge t s))"
proof (induction t s rule: rig_turn_step.induct [of _ sha huge, case_names ev tick])
  case (ev sha huge es g prev)
  obtain g' out where s: "rig_steps sha huge es g = (g', out)" by (cases "rig_steps sha huge es g")
  with rig_steps_frame [OF s] ev show ?case by (simp add: rig_ok_def)
next
  case (tick sha huge meanwhile tk g prev)
  then show ?case by (auto intro: rig_ok_tick split: prod.splits)
qed

lemma rig_ok_run: "rig_ok (fst s) \<Longrightarrow> rig_ok (fst (rig_run sha huge ts s))"
  unfolding rig_run_def by (induction ts arbitrary: s) (simp_all add: rig_ok_turn)

text \<open>A turn that credits mining time, and one that runs a fee round.\<close>

definition earning :: "tick_clock \<Rightarrow> rig \<Rightarrow> bool" where
  "earning tk g \<longleftrightarrow> router_has Main (rg_router g) \<and> attempted_within (tk_stats tk) kSolveGrace (rg_stats g)"

definition round_runs :: "tick_clock \<Rightarrow> int \<Rightarrow> rig \<Rightarrow> bool" where
  "round_runs tk prev g \<longleftrightarrow> earning tk g \<and>
    slice_due (add_mining_time (tick_dt (tk_now tk) prev) (rg_accrual g)) \<and>
    router_fresh (tk_fresh tk) Dev kDevJobMaxAge (rg_router g)"

lemma tick_idle: "\<not> earning tk g \<Longrightarrow> scheduler_tick sha huge mw tk prev g = (g, tk_now tk, [])"
  by (simp add: earning_def scheduler_tick_def Let_def)

text \<open>The rig in the round, when it starts and when it is over.\<close>

definition round_start :: "tick_clock \<Rightarrow> int \<Rightarrow> rig \<Rightarrow> rig" where
  "round_start tk prev g =
    with_router (set_active Dev) (with_stats (set_devfee_active True)
      (g\<lparr>rg_accrual := add_mining_time (tick_dt (tk_now tk) prev) (rg_accrual g), rg_warned := False\<rparr>))"

definition round_over :: "double \<Rightarrow> rig \<Rightarrow> rig" where
  "round_over spent g =
    (let g = with_stats (record_devfee_slice spent) (with_stats (set_devfee_active False) (with_router (set_active Main) g))
     in g\<lparr>rg_accrual := settle spent (rg_accrual g)\<rparr>)"

lemma tick_round:
  assumes "round_runs tk prev g"
  shows "fst (scheduler_tick sha huge mw tk prev g) =
    round_over (d_seconds (tk_t1 tk - tk_t0 tk)) (fst (rig_steps sha huge mw (round_start tk prev g)))"
  using assms
  by (simp add: round_runs_def earning_def scheduler_tick_def run_slice_def round_over_def round_start_def Let_def
      split: prod.split)

lemma tick_no_round:
  assumes "earning tk g" "\<not> round_runs tk prev g" "scheduler_tick sha huge mw tk prev g = (g', now, out)"
  shows "rg_accrual g' = add_mining_time (tick_dt (tk_now tk) prev) (rg_accrual g)"
    "rg_router g' = rg_router g" "rg_stats g' = rg_stats g"
  using assms by (auto simp: round_runs_def earning_def scheduler_tick_def run_slice_def Let_def split: if_splits)

text \<open>What the rig was told over a history: what a turn without a round lists as heard during it is not.\<close>

fun heard :: "(u8 list \<Rightarrow> u8 list) \<Rightarrow> double \<Rightarrow> rig_turn list \<Rightarrow> rig \<times> int \<Rightarrow> rig_event list" where
  "heard sha huge [] s = []"
| "heard sha huge (Events es # ts) s = es @ heard sha huge ts (rig_turn_step sha huge (Events es) s)"
| "heard sha huge (Tick mw tk # ts) s =
    (if round_runs tk (snd s) (fst s) then mw else []) @ heard sha huge ts (rig_turn_step sha huge (Tick mw tk) s)"

text \<open>The job the user's pool last sent, unless it has dropped since.\<close>

definition user_job_after :: "rig_event \<Rightarrow> (job \<times> string) option \<Rightarrow> (job \<times> string) option" where
  "user_job_after e j =
    (case e of PoolJob Main now job p \<Rightarrow> Some (job, p) | PoolDrop Main \<Rightarrow> None | _ \<Rightarrow> j)"

definition user_job :: "rig_event list \<Rightarrow> (job \<times> string) option" where
  "user_job es = fold user_job_after es None"

abbreviation user_slot :: "rig \<Rightarrow> (job \<times> string) option" where
  "user_slot g \<equiv> map_option (\<lambda>(j, p, orig). (j, p)) (cached Main (rg_router g))"

lemma user_slot_router [simp]:
  "cached Main (fst (offer now j p Dev r)) = cached Main r"
  "cached Main (fst (offer now j p Main r)) = Some (j, p, Main)"
  "cached Main (router_clear Main r) = None" "cached Main (router_clear Dev r) = cached Main r"
  "cached Main (fst (set_active orig r)) = cached Main r"
  by (simp_all add: offer_def router_clear_def set_active_def cached_put cached_active Let_def)

lemma step_user_slot: "user_slot (fst (rig_step sha huge e g)) = user_job_after e (user_slot g)"
proof (cases e)
  case (PoolResult orig now r)
  then show ?thesis
    by (cases orig) (simp_all add: user_job_after_def main_on_result_def dev_on_result_def Let_def split: prod.split)
qed (auto simp: user_job_after_def main_on_job_def dev_on_job_def main_on_disconnect_def dev_on_disconnect_def
    on_attempt_def submit_fn_def on_solver_error_def Let_def split: origin.split option.split)

lemma steps_user_slot: "user_slot (fst (rig_steps sha huge es g)) = fold user_job_after es (user_slot g)"
proof (induction es arbitrary: g)
  case (Cons e es)
  obtain g1 o1 where s: "rig_step sha huge e g = (g1, o1)" by (cases "rig_step sha huge e g")
  obtain g2 o2 where t: "rig_steps sha huge es g1 = (g2, o2)" by (cases "rig_steps sha huge es g1")
  from Cons.IH [of g1] step_user_slot [of sha huge e g] show ?case by (simp add: s t)
qed simp

lemma tick_user_slot:
  "user_slot (fst (scheduler_tick sha huge mw tk prev g)) =
    fold user_job_after (if round_runs tk prev g then mw else []) (user_slot g)"
proof (cases "earning tk g")
  case False
  then show ?thesis by (simp add: tick_idle round_runs_def)
next
  case True
  obtain g' now out where t: "scheduler_tick sha huge mw tk prev g = (g', now, out)"
    by (cases "scheduler_tick sha huge mw tk prev g")
  show ?thesis
  proof (cases "round_runs tk prev g")
    case False
    with tick_no_round [OF True False t] t show ?thesis by simp
  next
    case r: True
    show ?thesis
      using steps_user_slot [of sha huge mw "round_start tk prev g"] r
      by (simp add: tick_round round_over_def round_start_def Let_def)
  qed
qed

lemma run_user_slot:
  "user_slot (fst (rig_run sha huge ts s)) = fold user_job_after (heard sha huge ts s) (user_slot (fst s))"
proof (induction ts arbitrary: s)
  case Nil
  then show ?case by (simp add: rig_run_def)
next
  case (Cons t ts)
  obtain g prev where s: "s = (g, prev)" by (cases s)
  have "user_slot (fst (rig_turn_step sha huge t s)) =
      fold user_job_after (case t of Events es \<Rightarrow> es | Tick mw tk \<Rightarrow> if round_runs tk prev g then mw else []) (user_slot g)"
  proof (cases t)
    case (Events es)
    then show ?thesis using steps_user_slot [of sha huge es g] by (simp add: s)
  next
    case (Tick mw tk)
    obtain g1 n o1 where "scheduler_tick sha huge mw tk prev g = (g1, n, o1)"
      by (cases "scheduler_tick sha huge mw tk prev g")
    with Tick tick_user_slot [of sha huge mw tk prev g] show ?thesis by (simp add: s)
  qed
  with Cons.IH [of "rig_turn_step sha huge t s"] show ?case by (cases t) (simp_all add: rig_run_def s)
qed

text \<open>
  C23: After any history of pool messages, solves and scheduler turns, fee rounds included and whatever
  arrived while they ran, the router is back on the user's pool, no round is reported as running, and
  every device's engine has the very job and nonce prefix the user's pool sent last over the whole
  history, unless that pool has dropped since; then the router knows that it has none.
\<close>
theorem user_job_between_rounds:
  "rig_run sha huge ts (rig_new now labels sched, prev) = (g, prev') \<Longrightarrow>
    rt_active (rg_router g) = Main \<and> \<not> st_devfee_active (rg_stats g) \<and>
    (case user_job (heard sha huge ts (rig_new now labels sched, prev)) of
       None \<Rightarrow> \<not> router_has Main (rg_router g)
     | Some (j, p) \<Rightarrow> router_has Main (rg_router g) \<and>
         list_all (\<lambda>e. en_latest_origin e = Main \<and> en_latest_job e = j \<and> en_latest_nonceprefix e = p)
           (rg_engines g))"
proof -
  assume r: "rig_run sha huge ts (rig_new now labels sched, prev) = (g, prev')"
  have "rig_ok (fst (rig_run sha huge ts (rig_new now labels sched, prev)))"
    by (rule rig_ok_run) (simp only: fst_conv rig_ok_new)
  then have g: "rig_ok g" unfolding r by simp
  then have a: "rt_active (rg_router g) = Main" "\<not> st_devfee_active (rg_stats g)" by (simp_all add: rig_ok_def)
  have "user_slot (rig_new now labels sched) = None"
    by (simp add: rig_new_def router_new_def cached_def router_slot_def slot0_def)
  with run_user_slot [of sha huge ts "(rig_new now labels sched, prev)"] r
  have u: "user_slot g = user_job (heard sha huge ts (rig_new now labels sched, prev))" by (simp add: user_job_def)
  have h: "router_has Main (rg_router g) \<longleftrightarrow> user_slot g \<noteq> None"
    by (simp add: cached_def router_has_def Let_def)
  have "engine_has (j, p, Main) e" if "user_slot g = Some (j, p)" "e \<in> set (rg_engines g)" for j p e
  proof -
    from that(1) have "cached Main (rg_router g) = Some (j, p, Main)"
      by (auto simp: cached_def Let_def split: if_splits)
    with g that(2) show ?thesis unfolding rig_ok_def rig_sync_def by (metis a(1))
  qed
  then show ?thesis
    using a h unfolding u by (auto simp: engine_has_def list_all_iff split: option.splits)
qed

section \<open>The scheduler and the accrual clock\<close>

text \<open>
  What the rig has been charged so far: the seconds of the rounds, as the statistics show them, and the
  debt that is still owed.
\<close>

definition charged :: "rig \<Rightarrow> rat" where
  "charged g = st_devfee_seconds (rg_stats g) + ac_debt (rg_accrual g)"

text \<open>
  Over a history: the mining time of the turns at which the user was earning, and by how much the rounds
  outlasted their slice (a wait of the slice's length is never shorter than it).
\<close>

fun worked :: "(u8 list \<Rightarrow> u8 list) \<Rightarrow> double \<Rightarrow> rig_turn list \<Rightarrow> rig \<times> int \<Rightarrow> rat" where
  "worked sha huge [] s = 0"
| "worked sha huge (Events es # ts) s = worked sha huge ts (rig_turn_step sha huge (Events es) s)"
| "worked sha huge (Tick mw tk # ts) s =
    (if earning tk (fst s) then max 0 (tick_dt (tk_now tk) (snd s)) else 0) +
    worked sha huge ts (rig_turn_step sha huge (Tick mw tk) s)"

fun overrun :: "(u8 list \<Rightarrow> u8 list) \<Rightarrow> double \<Rightarrow> rig_turn list \<Rightarrow> rig \<times> int \<Rightarrow> rat" where
  "overrun sha huge [] s = 0"
| "overrun sha huge (Events es # ts) s = overrun sha huge ts (rig_turn_step sha huge (Events es) s)"
| "overrun sha huge (Tick mw tk # ts) s =
    (if round_runs tk (snd s) (fst s)
     then max 0 (d_seconds (tk_t1 tk - tk_t0 tk) - d_of_int (slice_len (rg_accrual (fst s)))) else 0) +
    overrun sha huge ts (rig_turn_step sha huge (Tick mw tk) s)"

fun ticks :: "rig_turn list \<Rightarrow> nat" where
  "ticks [] = 0"
| "ticks (Events es # ts) = ticks ts"
| "ticks (Tick mw tk # ts) = Suc (ticks ts)"

text \<open>The clock never runs backwards in a round.\<close>

definition clock_steady :: "rig_turn list \<Rightarrow> bool" where
  "clock_steady ts = list_all (\<lambda>t. case t of Tick mw tk \<Rightarrow> tk_t0 tk \<le> tk_t1 tk | Events es \<Rightarrow> True) ts"

lemma fee_seconds_frame [simp]:
  "st_devfee_seconds (record_job i u orig s) = st_devfee_seconds s"
  "st_devfee_seconds (record_result now c orig s) = st_devfee_seconds s"
  "st_devfee_seconds (record_disconnect s) = st_devfee_seconds s"
  "st_devfee_seconds (record_share_found now u orig d s) = st_devfee_seconds s"
  "st_devfee_seconds (record_submit now i orig d s) = st_devfee_seconds s"
  "st_devfee_seconds (record_attempt now cand d s) = st_devfee_seconds s"
  by (auto simp: record_job_def record_result_def count_result_def record_disconnect_def record_share_found_def
      record_submit_def record_attempt_def Let_def split: option.splits)

lemma fee_seconds_snapshot: "st_devfee_seconds (snd (snapshot now s)) = st_devfee_seconds s"
  using snapshot_state [of now s] by auto

lemma step_charged:
  assumes "rig_step sha huge e g = (g', out)"
  shows "rg_accrual g' = rg_accrual g \<and> st_devfee_seconds (rg_stats g') = st_devfee_seconds (rg_stats g)"
proof (cases e)
  case (PoolResult orig now r)
  have "st_devfee_seconds s' = st_devfee_seconds s" if "snapshot t s = (sn, s')" for t s sn s'
    using fee_seconds_snapshot [of t s] that by simp
  with assms PoolResult show ?thesis
    by (cases orig) (auto simp: main_on_result_def dev_on_result_def Let_def split: if_splits prod.splits)
qed (use assms in \<open>auto simp: main_on_job_def dev_on_job_def main_on_disconnect_def dev_on_disconnect_def
    on_attempt_def submit_fn_def on_solver_error_def Let_def split: origin.splits option.splits if_splits\<close>)

lemma steps_charged:
  "rig_steps sha huge es g = (g', out) \<Longrightarrow>
    rg_accrual g' = rg_accrual g \<and> st_devfee_seconds (rg_stats g') = st_devfee_seconds (rg_stats g)"
proof (induction es arbitrary: g g' out)
  case (Cons e es)
  obtain g1 o1 where s: "rig_step sha huge e g = (g1, o1)" by (cases "rig_step sha huge e g")
  obtain g2 o2 where t: "rig_steps sha huge es g1 = (g2, o2)" by (cases "rig_steps sha huge es g1")
  from Cons.prems s t have "g' = g2" by simp
  with Cons.IH [OF t] step_charged [OF s] show ?case by simp
qed simp

text \<open>One round, of \<open>spent\<close> seconds: what is recorded and what is still owed.\<close>

lemma slack_power: "1 \<le> fp_slack ^ k" "0 \<le> (q :: rat) \<Longrightarrow> q \<le> fp_slack ^ k * q"
proof -
  show c: "1 \<le> fp_slack ^ k" by (rule one_le_power) (simp add: fp_slack_def)
  show "0 \<le> q \<Longrightarrow> q \<le> fp_slack ^ k * q" using mult_right_mono [OF c, of q] by simp
qed

lemma rounded_up: "0 \<le> q \<Longrightarrow> dbl q \<le> fp_slack * q"
  using fp.rnd_upper [of q] by (simp add: fp_slack_def mult.commute)

lemma settle_charged:
  assumes "0 \<le> secs" "0 \<le> spent" "len \<le> ac_debt a" "0 \<le> len"
  shows "dadd secs spent + ac_debt (settle spent a) \<le> fp_slack * (secs + ac_debt a + max 0 (spent - len))"
proof -
  have r: "dadd secs spent \<le> fp_slack * (secs + spent)"
    using rounded_up [of "secs + spent"] assms(1,2) by (simp add: dops)
  show ?thesis
  proof (cases "spent \<le> ac_debt a")
    case True
    have "ac_debt (settle spent a) \<le> fp_slack * (ac_debt a - spent)"
      using rounded_up [of "ac_debt a - spent"] dbl_nonneg [of "ac_debt a - spent"] True
      by (simp add: settle_def dops Let_def)
    with r have "dadd secs spent + ac_debt (settle spent a) \<le> fp_slack * (secs + ac_debt a)"
      by (simp add: algebra_simps)
    also have "\<dots> \<le> fp_slack * (secs + ac_debt a + max 0 (spent - len))"
      by (intro mult_left_mono) (simp_all add: fp_slack_def)
    finally show ?thesis .
  next
    case False
    then have "dbl (ac_debt a - spent) \<le> dbl 0" by (intro dbl_mono) simp
    then have z: "ac_debt (settle spent a) = 0" by (simp add: settle_def dops Let_def)
    have "fp_slack * (secs + spent) \<le> fp_slack * (secs + ac_debt a + max 0 (spent - len))"
      using assms(3) by (intro mult_left_mono) (auto simp: fp_slack_def max_def)
    with r z show ?thesis by simp
  qed
qed

text \<open>One turn of the scheduler.\<close>

lemma seconds_nonneg: "0 \<le> ns \<Longrightarrow> 0 \<le> d_seconds ns"
  by (auto simp: d_seconds_def d_of_int_def dops intro!: dbl_nonneg)

lemma turn_charged:
  assumes "0 \<le> sc_rate (ac_schedule (rg_accrual g))" "0 \<le> ac_debt (rg_accrual g)" "0 \<le> st_devfee_seconds (rg_stats g)"
    and "tk_t0 tk \<le> tk_t1 tk" "scheduler_tick sha huge mw tk prev g = (g', now, out)"
  shows "charged g' \<le> fp_slack ^ 3 * (charged g +
      sc_rate (ac_schedule (rg_accrual g)) * (if earning tk g then max 0 (tick_dt (tk_now tk) prev) else 0) +
      (if round_runs tk prev g then max 0 (d_seconds (tk_t1 tk - tk_t0 tk) - d_of_int (slice_len (rg_accrual g))) else 0)) \<and>
    0 \<le> ac_debt (rg_accrual g') \<and> 0 \<le> st_devfee_seconds (rg_stats g') \<and>
    ac_schedule (rg_accrual g') = ac_schedule (rg_accrual g)"
proof (cases "earning tk g")
  case False
  with assms(5) have "g' = g" by (simp add: tick_idle)
  with False assms(1-3) slack_power(2) [of "charged g" 3] show ?thesis by (simp add: round_runs_def charged_def)
next
  case e: True
  let ?dt = "tick_dt (tk_now tk) prev" and ?r = "sc_rate (ac_schedule (rg_accrual g))"
  let ?a = "add_mining_time ?dt (rg_accrual g)" and ?secs = "st_devfee_seconds (rg_stats g)"
  have m: "ac_debt ?a \<le> fp_slack ^ 2 * (ac_debt (rg_accrual g) + ?r * max 0 ?dt)"
    by (rule debt_mined [OF assms(1,2)])
  have a0: "0 \<le> ac_debt ?a" using debt_nonneg [OF assms(1,2), of "Mined ?dt"] by simp
  have c: "?secs + ac_debt ?a \<le> fp_slack ^ 2 * (charged g + ?r * max 0 ?dt)"
    using m slack_power(2) [OF assms(3), of 2] by (simp add: charged_def distrib_left)
  have p: "0 \<le> charged g + ?r * max 0 ?dt" using assms(1-3) by (simp add: charged_def)
  show ?thesis
  proof (cases "round_runs tk prev g")
    case False
    note n = tick_no_round [OF e False assms(5)]
    have "fp_slack ^ 2 * (charged g + ?r * max 0 ?dt) \<le> fp_slack ^ 3 * (charged g + ?r * max 0 ?dt)"
      using p by (intro mult_right_mono power_increasing) (simp_all add: fp_slack_def)
    with c have "charged g' \<le> fp_slack ^ 3 * (charged g + ?r * max 0 ?dt)" unfolding charged_def n by linarith
    with e False n a0 assms(3) show ?thesis by simp
  next
    case r: True
    define spent where "spent = d_seconds (tk_t1 tk - tk_t0 tk)"
    define len where "len = d_of_int (slice_len (rg_accrual g))"
    define o' where "o' = max 0 (spent - len)"
    obtain g2 o2 where s: "rig_steps sha huge mw (round_start tk prev g) = (g2, o2)"
      by (cases "rig_steps sha huge mw (round_start tk prev g)")
    from steps_charged [OF s] have g2: "rg_accrual g2 = ?a" "st_devfee_seconds (rg_stats g2) = ?secs"
      by (simp_all add: round_start_def set_devfee_active_def)
    have "g' = round_over spent g2" using tick_round [OF r, of sha huge mw] assms(5) s by (simp add: spent_def)
    with g2 have g': "rg_accrual g' = settle spent ?a" "st_devfee_seconds (rg_stats g') = dadd ?secs spent"
      by (simp_all add: round_over_def record_devfee_slice_def set_devfee_active_def Let_def)
    have s0: "0 \<le> spent" using assms(4) by (simp add: spent_def seconds_nonneg)
    have d: "len \<le> ac_debt ?a" "0 \<le> len"
      using r by (auto simp: round_runs_def slice_due_def slice_len_def len_def d_of_int_def Let_def
          intro!: dbl_nonneg split: if_splits)
    have o0: "0 \<le> o'" by (simp add: o'_def)
    have "charged g' \<le> fp_slack * (?secs + ac_debt ?a + o')"
      using settle_charged [OF assms(3) s0 d] by (simp add: charged_def g' o'_def)
    also have "\<dots> \<le> fp_slack * (fp_slack ^ 2 * (charged g + ?r * max 0 ?dt) + fp_slack ^ 2 * o')"
      using c slack_power(2) [OF o0, of 2] by (intro mult_left_mono add_mono) (simp_all add: fp_slack_def)
    also have "\<dots> = fp_slack ^ 3 * (charged g + ?r * max 0 ?dt + o')"
      by (simp add: power3_eq_cube power2_eq_square algebra_simps)
    finally have "charged g' \<le> fp_slack ^ 3 * (charged g + ?r * max 0 ?dt + o')" .
    moreover have "0 \<le> ac_debt (settle spent ?a)" by (simp add: settle_def Let_def)
    moreover have "0 \<le> dadd ?secs spent" using assms(3) s0 by (auto simp: dops intro!: dbl_nonneg)
    ultimately show ?thesis using e r by (simp add: g' o'_def spent_def len_def)
  qed
qed

lemma run_charged:
  "0 \<le> sc_rate (ac_schedule (rg_accrual (fst s))) \<Longrightarrow> 0 \<le> ac_debt (rg_accrual (fst s)) \<Longrightarrow>
    0 \<le> st_devfee_seconds (rg_stats (fst s)) \<Longrightarrow> clock_steady ts \<Longrightarrow>
    charged (fst (rig_run sha huge ts s)) \<le> fp_slack ^ (3 * ticks ts) *
      (charged (fst s) + sc_rate (ac_schedule (rg_accrual (fst s))) * worked sha huge ts s + overrun sha huge ts s)"
proof (induction ts arbitrary: s)
  case Nil
  then show ?case by (simp add: rig_run_def)
next
  case (Cons t ts)
  obtain g prev where s: "s = (g, prev)" by (cases s)
  let ?s = "rig_turn_step sha huge t s" and ?r = "sc_rate (ac_schedule (rg_accrual g))"
  have run: "rig_run sha huge (t # ts) s = rig_run sha huge ts ?s" by (simp add: rig_run_def)
  have n: "0 \<le> worked sha huge ts x" "0 \<le> overrun sha huge ts x" for x
    by (induction ts arbitrary: x rule: ticks.induct) auto
  show ?case
  proof (cases t)
    case (Events es)
    obtain g1 o1 where e: "rig_steps sha huge es g = (g1, o1)" by (cases "rig_steps sha huge es g")
    from steps_charged [OF e] Cons.IH [of ?s] Cons.prems show ?thesis
      unfolding run by (simp add: Events s e charged_def clock_steady_def)
  next
    case (Tick mw tk)
    obtain g1 now o1 where t: "scheduler_tick sha huge mw tk prev g = (g1, now, o1)"
      by (cases "scheduler_tick sha huge mw tk prev g")
    define w where "w = (if earning tk g then max 0 (tick_dt (tk_now tk) prev) else 0)"
    define o' where "o' = (if round_runs tk prev g
      then max 0 (d_seconds (tk_t1 tk - tk_t0 tk) - d_of_int (slice_len (rg_accrual g))) else 0)"
    define W where "W = worked sha huge ts (g1, now)"
    define O' where "O' = overrun sha huge ts (g1, now)"
    have "tk_t0 tk \<le> tk_t1 tk" using Cons.prems(4) Tick by (simp add: clock_steady_def)
    from turn_charged [OF _ _ _ this t] Cons.prems s
    have T: "charged g1 \<le> fp_slack ^ 3 * (charged g + ?r * w + o')" "0 \<le> ac_debt (rg_accrual g1)"
      "0 \<le> st_devfee_seconds (rg_stats g1)" "ac_schedule (rg_accrual g1) = ac_schedule (rg_accrual g)"
      by (simp_all add: w_def o'_def)
    have W: "0 \<le> W" "0 \<le> O'" using n by (simp_all add: W_def O'_def)
    have r: "0 \<le> ?r" using Cons.prems(1) s by simp
    have "charged (fst (rig_run sha huge ts (g1, now))) \<le> fp_slack ^ (3 * ticks ts) * (charged g1 + ?r * W + O')"
      using Cons.IH [of "(g1, now)"] T Cons.prems s Tick by (simp add: W_def O'_def clock_steady_def)
    also have "\<dots> \<le> fp_slack ^ (3 * ticks ts) * (fp_slack ^ 3 * (charged g + ?r * w + o') + fp_slack ^ 3 * (?r * W) + fp_slack ^ 3 * O')"
      using T(1) W r slack_power by (intro mult_left_mono add_mono) (simp_all add: slack_power order_trans [OF zero_le_one])
    also have "\<dots> = fp_slack ^ (3 * ticks (t # ts)) * (charged g + ?r * (w + W) + (o' + O'))"
      by (simp add: Tick power_add algebra_simps)
    finally show ?thesis unfolding run by (simp add: Tick s t w_def o'_def W_def O'_def split del: if_split cong: if_cong)
  qed
qed


section \<open>A concrete run\<close>

text \<open>Two cards, a job from each pool, one solve, and a turn that runs a round of one second.\<close>

definition demo_events :: "rig_event list" where
  "demo_events = [PoolJob Main 0 demo_job ''ab'', PoolJob Dev 0 (demo_job\<lparr>j_id := ''d''\<rparr>) ''cd'', Attempted 0 1 0]"

definition demo_turns :: "rig_turn list" where
  "demo_turns = [Events demo_events,
     Tick [PoolJob Main 2500000000 (demo_job\<lparr>j_id := ''8''\<rparr>) ''ab'']
       \<lparr>tk_now = 2000000000, tk_stats = 2000000000, tk_fresh = 2000000000, tk_t0 = 2000000000, tk_t1 = 3000000000\<rparr>]"

definition demo_rig :: rig where
  "demo_rig = rig_new 0 [''GPU 0'', ''GPU 1''] \<lparr>sc_rate = 1 / 2, sc_cycle = 2\<rparr>"

lemma demo_seconds: "d_seconds 2000000000 = 2" "d_seconds 1000000000 = 1" by code_simp+

lemma demo_slice: "slice \<lparr>sc_rate = 1 / 2, sc_cycle = 2\<rparr> = 1" by code_simp

lemma demo_add: "dadd 0 (dmul (1/2) 2) = 1" "d_of_int 1 = 1" by code_simp+

definition demo_g1 :: rig where
  "demo_g1 = fst (rig_steps demo_sha 0 demo_events demo_rig)"

lemma demo_g1: "st_attempts (rg_stats demo_g1) = [\<lparr>ev_t = 0, ev_candidates = 1, ev_device = 0\<rparr>]"
  "rg_accrual demo_g1 = accrual_new \<lparr>sc_rate = 1 / 2, sc_cycle = 2\<rparr>"
  "rg_router demo_g1 = \<lparr>rt_main = \<lparr>sl_job = demo_job, sl_prefix = ''ab'', sl_present = True, sl_at = 0\<rparr>,
     rt_dev = \<lparr>sl_job = demo_job\<lparr>j_id := ''d''\<rparr>, sl_prefix = ''cd'', sl_present = True, sl_at = 0\<rparr>, rt_active = Main\<rparr>"
  by (simp_all add: demo_g1_def demo_events_def demo_rig_def rig_new_def main_on_job_def dev_on_job_def on_attempt_def
    record_attempt_def record_job_def prune_attempts_def kPruneAge_def set_devfee_rate_def set_device_labels_def stats_new_def
   offer_def router_new_def put_slot_def)

lemma demo_due: "slice_due (add_mining_time 2 (rg_accrual demo_g1))"
  unfolding demo_g1 by (simp add: slice_due_def add_mining_time_def accrual_new_def demo_slice demo_add)

abbreviation demo_clock :: tick_clock where
  "demo_clock \<equiv> \<lparr>tk_now = 2000000000, tk_stats = 2000000000, tk_fresh = 2000000000, tk_t0 = 2000000000, tk_t1 = 3000000000\<rparr>"

lemma demo_round: "earning demo_clock demo_g1" "round_runs demo_clock 0 demo_g1"
  by (simp_all add: round_runs_def earning_def demo_g1 router_has_def router_slot_def attempted_within_def kSolveGrace_def
    tick_dt_def Let_def demo_seconds demo_due [unfolded demo_g1] router_fresh_def kDevJobMaxAge_def)

lemma demo_history:
  "heard demo_sha 0 demo_turns (demo_rig, 0) = demo_events @ [PoolJob Main 2500000000 (demo_job\<lparr>j_id := ''8''\<rparr>) ''ab'']"
  "worked demo_sha 0 demo_turns (demo_rig, 0) = 2" "overrun demo_sha 0 demo_turns (demo_rig, 0) = 0"
  by (simp_all add: demo_turns_def demo_g1_def [symmetric] demo_round tick_dt_def Let_def demo_seconds demo_g1
    slice_len_def accrual_new_def demo_slice demo_add)

theorem user_job_between_rounds_witness:
  "let g = fst (rig_run demo_sha 0 demo_turns (demo_rig, 0))
   in rt_active (rg_router g) = Main \<and>
      list_all (\<lambda>e. en_latest_origin e = Main \<and> en_latest_job e = demo_job\<lparr>j_id := ''8''\<rparr>) (rg_engines g)"
proof -
  have "user_job (heard demo_sha 0 demo_turns (demo_rig, 0)) = Some (demo_job\<lparr>j_id := ''8''\<rparr>, ''ab'')"
    by (simp add: demo_history user_job_def user_job_after_def)
  with user_job_between_rounds [of demo_sha 0 demo_turns 0 "[''GPU 0'', ''GPU 1'']"
      "\<lparr>sc_rate = 1 / 2, sc_cycle = 2\<rparr>" 0, folded demo_rig_def, OF prod.collapse [symmetric]]
  show ?thesis by (simp add: Let_def list_all_iff)
qed


end
