(* ===== verification/Guards.thy ===== *)
theory Guards
  imports Printf
begin

text \<open>
  The two guards that watch the cards: the hang watchdog (src/miner/watchdog.h, watchdog.cpp) and
  the thermal pause (src/miner/thermal.h, thermal.cpp). Both poll each card on its own and report
  the edges of a flag, which is the locale \<open>edge_reports\<close>. The clock and the sensors are arguments.
\<close>

section \<open>Edges\<close>

text \<open>
  A step reports exactly when the flag rises; then two reports are separated by a fall, and there
  is at most one report more than there are falls.
\<close>

locale edge_reports =
  fixes step :: "'i \<Rightarrow> 's \<Rightarrow> 's \<times> bool" and flag :: "'s \<Rightarrow> bool"
  assumes reports_rise: "step i s = (s', r) \<Longrightarrow> r \<longleftrightarrow> \<not> flag s \<and> flag s'"
begin

fun reports :: "'i list \<Rightarrow> 's \<Rightarrow> nat" where
  "reports [] s = 0"
| "reports (i # is') s = (let (s', r) = step i s in (if r then 1 else 0) + reports is' s')"

fun falls :: "'i list \<Rightarrow> 's \<Rightarrow> nat" where
  "falls [] s = 0"
| "falls (i # is') s = (let (s', r) = step i s in (if flag s \<and> \<not> flag s' then 1 else 0) + falls is' s')"

fun final :: "'i list \<Rightarrow> 's \<Rightarrow> 's" where
  "final [] s = s"
| "final (i # is') s = final is' (fst (step i s))"

lemma reports_balance:
  "reports xs s + (if flag s then 1 else 0) = falls xs s + (if flag (final xs s) then 1 else 0)"
proof (induction xs arbitrary: s)
  case (Cons i xs)
  obtain s' r where s: "step i s = (s', r)" by (cases "step i s")
  show ?case using Cons [of s'] reports_rise [OF s] by (simp add: s split: if_splits)
qed simp

lemma reports_bounded: "\<not> flag s \<Longrightarrow> reports xs s \<le> falls xs s + 1"
  using reports_balance [of xs s] by (simp split: if_splits)

end

section \<open>The watchdog\<close>

datatype watchdog_action = Off | Exit | Script

definition parse_watchdog_action :: "string \<Rightarrow> watchdog_action option" where
  "parse_watchdog_action text =
    (let t = lower text
     in if t = ''off'' then Some Off else if t = ''exit'' then Some Exit
        else if t = ''script'' then Some Script else None)"

fun watchdog_action_name :: "watchdog_action \<Rightarrow> string" where
  "watchdog_action_name Off = ''off''"
| "watchdog_action_name Exit = ''exit''"
| "watchdog_action_name Script = ''script''"

record dev_state =
  ds_last_count :: u64
  ds_last_progress :: int
  ds_seen :: bool
  ds_hung :: bool

record watchdog =
  wd_stall :: int
  wd_devs :: "dev_state list"
  wd_running :: bool

definition dev_state0 :: dev_state where
  "dev_state0 = \<lparr>ds_last_count = 0, ds_last_progress = 0, ds_seen = False, ds_hung = False\<rparr>"

definition watchdog_new :: "int \<Rightarrow> watchdog" where
  "watchdog_new stall = \<lparr>wd_stall = stall, wd_devs = [], wd_running = False\<rparr>"

text \<open>One card in one poll: its count, and whether it is expected to advance. The report is \<open>on_hung\<close>.\<close>

definition watch_dev :: "int \<Rightarrow> int \<times> u64 \<times> bool \<Rightarrow> dev_state \<Rightarrow> dev_state \<times> bool" where
  "watch_dev stall p d =
    (case p of (now, count, expected) \<Rightarrow>
      if \<not> ds_seen d then (d\<lparr>ds_seen := True, ds_last_count := count, ds_last_progress := now\<rparr>, False)
      else if count \<noteq> ds_last_count d then
        (let d = d\<lparr>ds_last_count := count, ds_last_progress := now\<rparr>
         in (if ds_hung d then d\<lparr>ds_hung := False\<rparr> else d, False))
      else if \<not> expected then (d\<lparr>ds_last_progress := now\<rparr>, False)
      else if \<not> ds_hung d \<and> now - ds_last_progress d \<ge> stall then (d\<lparr>ds_hung := True\<rparr>, True)
      else (d, False))"

definition resize :: "'a \<Rightarrow> nat \<Rightarrow> 'a list \<Rightarrow> 'a list" where
  "resize z n xs = take n xs @ replicate (n - length xs) z"

text \<open>
  A poll. \<open>counts\<close>, \<open>mining\<close> and \<open>paused\<close> are the values of the callbacks, \<open>None\<close> where the
  callback is not set; the result lists the cards reported.
\<close>

definition watchdog_poll ::
    "u64 list option \<Rightarrow> int \<Rightarrow> bool option \<Rightarrow> (nat \<Rightarrow> bool) option \<Rightarrow> watchdog \<Rightarrow> watchdog \<times> nat list" where
  "watchdog_poll counts now mining paused w =
    (case counts of
       None \<Rightarrow> (w, [])
     | Some c \<Rightarrow>
         let active = (case mining of None \<Rightarrow> True | Some b \<Rightarrow> b);
             held = (\<lambda>i. case paused of None \<Rightarrow> False | Some f \<Rightarrow> f i);
             devs = resize dev_state0 (length c) (wd_devs w);
             rs = map (\<lambda>i. watch_dev (wd_stall w) (now, c ! i, active \<and> \<not> held i) (devs ! i)) [0..<length c]
         in (w\<lparr>wd_devs := map fst rs\<rparr>, filter (\<lambda>i. snd (rs ! i)) [0..<length c]))"

definition watchdog_start :: "watchdog \<Rightarrow> watchdog" where
  "watchdog_start w = (if wd_running w then w else w\<lparr>wd_running := True\<rparr>)"

definition watchdog_stop :: "watchdog \<Rightarrow> watchdog" where
  "watchdog_stop w = (if \<not> wd_running w then w else w\<lparr>wd_running := False\<rparr>)"

interpretation wd: edge_reports "watch_dev stall" ds_hung for stall
proof
  fix i :: "int \<times> u64 \<times> bool" and s s' r
  assume "watch_dev stall i s = (s', r)"
  then show "r \<longleftrightarrow> \<not> ds_hung s \<and> ds_hung s'"
    by (cases i) (auto simp: watch_dev_def Let_def split: if_splits)
qed

text \<open>
  A history of one card's polls, newest first. The last sign of life is the newest poll at which
  the card was first seen, had advanced, or was not expected to.
\<close>

fun last_sign :: "(int \<times> u64 \<times> bool) list \<Rightarrow> int" where
  "last_sign [] = 0"
| "last_sign [(t, c, e)] = t"
| "last_sign ((t, c, e) # (t', c', e') # h) = (if c \<noteq> c' \<or> \<not> e then t else last_sign ((t', c', e') # h))"

definition watch_all :: "int \<Rightarrow> (int \<times> u64 \<times> bool) list \<Rightarrow> dev_state" where
  "watch_all stall h = foldr (\<lambda>p d. fst (watch_dev stall p d)) h dev_state0"

lemma watch_all_state:
  "h \<noteq> [] \<Longrightarrow> ds_seen (watch_all stall h) \<and> ds_last_count (watch_all stall h) = fst (snd (hd h)) \<and>
    ds_last_progress (watch_all stall h) = last_sign h"
proof (induction h rule: last_sign.induct)
  case 1
  then show ?case by simp
next
  case (2 t c e)
  then show ?case by (simp add: watch_all_def watch_dev_def dev_state0_def)
next
  case (3 t c e t' c' e' h)
  define d where "d = watch_all stall ((t', c', e') # h)"
  have d: "ds_seen d" "ds_last_count d = c'" "ds_last_progress d = last_sign ((t', c', e') # h)"
    if "c = c' \<and> e" using 3 that by (simp_all add: d_def)
  have seen: "ds_seen d \<and> ds_last_count d = c'"
    unfolding d_def by (cases h) (auto simp: watch_all_def watch_dev_def dev_state0_def Let_def)
  have "watch_all stall ((t, c, e) # (t', c', e') # h) = fst (watch_dev stall (t, c, e) d)"
    by (simp add: watch_all_def d_def)
  with d seen show ?case by (auto simp: watch_dev_def Let_def)
qed

lemma watch_report:
  assumes "h \<noteq> []"
  shows "snd (watch_dev stall (t, c, e) (watch_all stall h)) \<longleftrightarrow>
    c = fst (snd (hd h)) \<and> e \<and> t - last_sign h \<ge> stall \<and> \<not> ds_hung (watch_all stall h)"
  using watch_all_state [OF assms, of stall] by (auto simp: watch_dev_def Let_def)

lemma length_resize [simp]: "length (resize z n xs) = n"
  by (simp add: resize_def)

text \<open>
  The watchdog accuses a card exactly when it has made no progress for the stall time while it was
  expected to: a poll reports card \<open>i\<close>, whose polls so far are \<open>h\<close>, if and only if its count is the
  one of the previous poll, the rig is mining and the card not paused, the last sign of life is at
  least \<open>stall\<close> ago, and it is not already reported.
\<close>
theorem watchdog_reports_stalls:
  assumes "i < length c" "length (wd_devs w) = length c" "wd_devs w ! i = watch_all (wd_stall w) h" "h \<noteq> []"
  shows "i \<in> set (snd (watchdog_poll (Some c) now mining paused w)) \<longleftrightarrow>
    c ! i = fst (snd (hd h)) \<and> mining \<noteq> Some False \<and> \<not> (\<exists>f. paused = Some f \<and> f i) \<and>
    now - last_sign h \<ge> wd_stall w \<and> \<not> ds_hung (wd_devs w ! i)"
proof -
  have r: "resize dev_state0 (length c) (wd_devs w) = wd_devs w" using assms(2) by (simp add: resize_def)
  show ?thesis
    using assms(1) watch_report [OF assms(4), of "wd_stall w" now "c ! i"]
    by (simp add: watchdog_poll_def Let_def r assms(3) split: option.splits)
qed

theorem watchdog_reports_stalls_witness:
  "let h = [(20, 7, True), (10, 7, True), (5, 3, True)];
       w = \<lparr>wd_stall = 90, wd_devs = [watch_all 90 h], wd_running = True\<rparr>
   in 0 \<in> set (snd (watchdog_poll (Some [7]) 100 (Some True) None w))"
  unfolding Let_def
  by (subst watchdog_reports_stalls [where h = "[(20, 7, True), (10, 7, True), (5, 3, True)]"])
    (simp_all add: watch_all_def watch_dev_def dev_state0_def)

section \<open>The thermal pause\<close>

datatype temp_sensor = Edge | Junction | Memory

definition parse_temp_sensor :: "string \<Rightarrow> temp_sensor option" where
  "parse_temp_sensor text =
    (let t = lower text
     in if t = ''edge'' then Some Edge else if t = ''junction'' then Some Junction
        else if t = ''memory'' then Some Memory else None)"

fun temp_sensor_name :: "temp_sensor \<Rightarrow> string" where
  "temp_sensor_name Edge = ''edge''"
| "temp_sensor_name Junction = ''junction''"
| "temp_sensor_name Memory = ''memory''"

record limits =
  lm_stop_c :: u32
  lm_start_c :: u32

record thermal =
  th_limits :: "limits list"
  th_paused :: "bool list"
  th_started :: bool
  th_stop_requested :: bool
  th_interval :: int

definition thermal_new :: thermal where
  "thermal_new = \<lparr>th_limits = [], th_paused = [], th_started = False, th_stop_requested = False, th_interval = 2\<rparr>"

definition configure :: "limits list \<Rightarrow> thermal \<Rightarrow> thermal" where
  "configure ls t = t\<lparr>th_limits := ls, th_paused := replicate (length ls) False\<rparr>"

definition configured :: "thermal \<Rightarrow> bool" where
  "configured t = list_ex (\<lambda>l. lm_stop_c l \<noteq> 0) (th_limits t)"

definition thermal_paused :: "thermal \<Rightarrow> nat \<Rightarrow> bool" where
  "thermal_paused t dev = (dev < length (th_paused t) \<and> th_paused t ! dev)"

text \<open>One card in one poll; the sensor gives no reading as \<open>None\<close>.\<close>

definition thermal_dev :: "limits \<Rightarrow> u32 option \<Rightarrow> bool \<Rightarrow> bool" where
  "thermal_dev lm reading was_paused =
    (if lm_stop_c lm = 0 \<and> \<not> was_paused then was_paused
     else case reading of
       None \<Rightarrow> was_paused
     | Some temp \<Rightarrow>
         if \<not> was_paused \<and> lm_stop_c lm \<noteq> 0 \<and> temp \<ge> lm_stop_c lm then True
         else if was_paused \<and> lm_start_c lm \<noteq> 0 \<and> temp \<le> lm_start_c lm then False
         else was_paused)"

datatype thermal_event = Paused nat u32 | Resumed nat u32

definition thermal_events :: "nat \<Rightarrow> u32 option \<Rightarrow> bool \<Rightarrow> bool \<Rightarrow> thermal_event list" where
  "thermal_events i reading was now =
    (case reading of
       None \<Rightarrow> []
     | Some temp \<Rightarrow> if now = was then [] else if now then [Paused i temp] else [Resumed i temp])"

text \<open>A poll; \<open>read_temp\<close> is \<open>None\<close> when the callback is not set.\<close>

definition thermal_poll :: "(nat \<Rightarrow> u32 option) option \<Rightarrow> thermal \<Rightarrow> thermal \<times> thermal_event list" where
  "thermal_poll read_temp t =
    (case read_temp of
       None \<Rightarrow> (t, [])
     | Some rd \<Rightarrow>
         let n = length (th_limits t);
             now = map (\<lambda>i. thermal_dev (th_limits t ! i) (rd i) (th_paused t ! i)) [0..<n]
         in (t\<lparr>th_paused := now @ drop n (th_paused t)\<rparr>,
             concat (map (\<lambda>i. thermal_events i (rd i) (th_paused t ! i) (now ! i)) [0..<n])))"

definition thermal_start :: "int \<Rightarrow> thermal \<Rightarrow> thermal" where
  "thermal_start interval t =
    (if th_started t then t
     else t\<lparr>th_started := True, th_stop_requested := False, th_interval := interval\<rparr>)"

definition thermal_stop :: "thermal \<Rightarrow> thermal" where
  "thermal_stop t = (if \<not> th_started t then t else t\<lparr>th_stop_requested := True, th_started := False\<rparr>)"

interpretation th: edge_reports "\<lambda>r p. (thermal_dev lm r p, \<not> p \<and> thermal_dev lm r p)" "\<lambda>p. p" for lm
  by (rule edge_reports.intro) auto

text \<open>The readings of one card, newest first, from an unpaused start.\<close>

definition thermal_all :: "limits \<Rightarrow> u32 option list \<Rightarrow> bool" where
  "thermal_all lm h = foldr (thermal_dev lm) h False"

lemma thermal_all_Cons [simp]: "thermal_all lm (r # h) = thermal_dev lm r (thermal_all lm h)"
  by (simp add: thermal_all_def)

definition hot :: "limits \<Rightarrow> u32 option \<Rightarrow> bool" where
  "hot lm r \<longleftrightarrow> (\<exists>t. r = Some t \<and> lm_stop_c lm \<le> t)"

definition cool :: "limits \<Rightarrow> u32 option \<Rightarrow> bool" where
  "cool lm r \<longleftrightarrow> lm_start_c lm \<noteq> 0 \<and> (\<exists>t. r = Some t \<and> t \<le> lm_start_c lm)"

lemma thermal_dev_eq:
  "lm_stop_c lm \<noteq> 0 \<Longrightarrow> lm_start_c lm < lm_stop_c lm \<Longrightarrow>
    thermal_dev lm r p = (hot lm r \<or> p \<and> \<not> cool lm r)"
  by (cases r) (auto simp: thermal_dev_def hot_def cool_def)

text \<open>
  C29: The pause is a hysteresis: with a restart temperature below the stop temperature, a card that has
  a stop temperature is paused if and only if some reading reached it and no reading since has come
  down to the restart temperature; polls on which the sensor did not answer change nothing, and a
  card without a stop temperature is never paused.
\<close>
theorem thermal_hysteresis:
  assumes "lm_start_c lm < lm_stop_c lm \<or> lm_stop_c lm = 0"
  shows "thermal_all lm h \<longleftrightarrow> lm_stop_c lm \<noteq> 0 \<and>
    (\<exists>new r old. h = new @ r # old \<and> hot lm r \<and> list_all (\<lambda>x. \<not> cool lm x) new)"
proof (cases "lm_stop_c lm = 0")
  case True
  have "\<not> thermal_all lm h" by (induction h) (simp_all add: thermal_all_def thermal_dev_def True)
  with True show ?thesis by simp
next
  case False
  with assms have step: "thermal_dev lm r p = (hot lm r \<or> p \<and> \<not> cool lm r)" for r p
    by (intro thermal_dev_eq) auto
  have "thermal_all lm h \<longleftrightarrow> (\<exists>new r old. h = new @ r # old \<and> hot lm r \<and> list_all (\<lambda>x. \<not> cool lm x) new)"
  proof (induction h)
    case Nil
    then show ?case by (simp add: thermal_all_def)
  next
    case (Cons x h)
    have "(\<exists>new r old. x # h = new @ r # old \<and> hot lm r \<and> list_all (\<lambda>x. \<not> cool lm x) new) \<longleftrightarrow>
        hot lm x \<or> \<not> cool lm x \<and> (\<exists>new r old. h = new @ r # old \<and> hot lm r \<and> list_all (\<lambda>x. \<not> cool lm x) new)"
      (is "?L \<longleftrightarrow> ?R")
    proof
      assume ?L
      then obtain new r old where "x # h = new @ r # old" "hot lm r" "list_all (\<lambda>x. \<not> cool lm x) new" by blast
      then show ?R by (cases new) auto
    next
      assume ?R
      then show ?L
      proof
        assume "hot lm x"
        then have "x # h = [] @ x # h \<and> hot lm x \<and> list_all (\<lambda>x. \<not> cool lm x) []" by simp
        then show ?L by blast
      next
        assume "\<not> cool lm x \<and> (\<exists>new r old. h = new @ r # old \<and> hot lm r \<and> list_all (\<lambda>x. \<not> cool lm x) new)"
        then obtain new r old where "h = new @ r # old" "hot lm r" "list_all (\<lambda>x. \<not> cool lm x) new" "\<not> cool lm x" by blast
        then have "x # h = (x # new) @ r # old \<and> hot lm r \<and> list_all (\<lambda>x. \<not> cool lm x) (x # new)" by simp
        then show ?L by blast
      qed
    qed
    with Cons step show ?case by auto
  qed
  with False show ?thesis by simp
qed

theorem thermal_hysteresis_witness:
  "thermal_all \<lparr>lm_stop_c = 80, lm_start_c = 60\<rparr> [None, Some 70, Some 85, Some 50] \<longleftrightarrow>
    (80::u32) \<noteq> 0 \<and> (\<exists>new r old. [None, Some 70, Some 85, Some 50] = new @ r # old \<and>
      hot \<lparr>lm_stop_c = 80, lm_start_c = 60\<rparr> r \<and>
      list_all (\<lambda>x. \<not> cool \<lparr>lm_stop_c = 80, lm_start_c = 60\<rparr> x) new)"
  using thermal_hysteresis [of "\<lparr>lm_stop_c = 80, lm_start_c = 60\<rparr>" "[None, Some 70, Some 85, Some 50]"] by simp

end
