(* ===== verification/Devices.thy ===== *)
theory Devices
  imports Printf "HOL-Library.Multiset"
begin

text \<open>
  The cards of the rig: the join of the CUDA, OpenCL and NVML views into one device table
  (src/gpu/device_join.h, device_join.cpp) and the reduction of a measured window of telemetry
  (src/gpu/telemetry_window.h, telemetry_window.cpp). The three views are arguments.
\<close>

section \<open>The join\<close>

datatype backend = NoBackend | Cuda | OpenCL

record cuda_card =
  cc_name :: string
  cc_pci :: string
  cc_index :: int
  cc_global_mem :: u64
  cc_viable :: bool

record cl_card =
  cl_name :: string
  cl_vendor :: string
  cl_pci :: string
  cl_idx :: u32
  cl_global_mem :: u64

record nvml_card =
  nv_name :: string
  nv_pci :: string

record joined_card =
  jc_name :: string
  jc_pci :: string
  jc_vendor :: string
  jc_global_mem :: u64
  jc_backend :: backend
  jc_cuda_index :: int
  jc_cl_index :: int
  jc_viable :: bool
  jc_degraded :: bool
  jc_reason :: string

definition joined0 :: joined_card where
  "joined0 = \<lparr>jc_name = '''', jc_pci = '''', jc_vendor = '''', jc_global_mem = 0, jc_backend = NoBackend,
     jc_cuda_index = -1, jc_cl_index = -1, jc_viable = False, jc_degraded = False, jc_reason = ''''\<rparr>"

definition norm_name :: "string \<Rightarrow> string" where
  "norm_name s = lower (trim s)"

definition pci_bus :: "string \<Rightarrow> string" where
  "pci_bus pci = (if CHR '':'' \<in> set pci then takeWhile (\<lambda>c. c \<noteq> CHR '':'') pci else '''')"

definition same_bus :: "string \<Rightarrow> string \<Rightarrow> bool" where
  "same_bus a b = (let x = pci_bus a; y = pci_bus b in x \<noteq> '''' \<and> y \<noteq> '''' \<and> lower x = lower y)"

definition kNoPciFromCl :: string where
  "kNoPciFromCl = ''the OpenCL driver reports no PCI address for its devices '' @
     ''(cl_nv_device_attribute_query is missing), so no OpenCL device can be matched '' @ ''to this card''"

definition kNotCudaCapable :: string where
  "kNotCudaCapable = ''the CUDA path needs compute capability 7.5 or newer and a geometry that fits''"

definition want_cuda :: "string \<Rightarrow> bool" where
  "want_cuda solver = (solver = ''auto'' \<or> solver = ''gpu'' \<or> solver = ''cuda'')"

definition want_opencl :: "string \<Rightarrow> bool" where
  "want_opencl solver = (solver = ''auto'' \<or> solver = ''gpu'' \<or> solver = ''opencl'')"

definition nvml_disagrees :: "nvml_card list \<Rightarrow> nat \<Rightarrow> string \<Rightarrow> bool" where
  "nvml_disagrees nvml pos pci =
    (pos < length nvml \<and> nv_pci (nvml ! pos) \<noteq> '''' \<and> pci \<noteq> '''' \<and> \<not> same_bus (nv_pci (nvml ! pos)) pci)"

text \<open>The identity of a CUDA card: its row, and the reason its OpenCL twin is not used.\<close>

definition join_identity ::
    "cl_card list \<Rightarrow> nvml_card list \<Rightarrow> bool \<Rightarrow> nat \<Rightarrow> cuda_card \<Rightarrow> joined_card \<Rightarrow> joined_card \<times> string" where
  "join_identity cl nvml opencl i c j =
    (if nvml_disagrees nvml i (cc_pci c) then
       (j\<lparr>jc_degraded := True\<rparr>,
        ''NVML reports PCI '' @ nv_pci (nvml ! i) @ '' at this position but the card is at '' @ cc_pci c @
        '' - the two device orders disagree, so per-card power settings '' @
        ''and any OpenCL match for this card cannot be trusted'')
     else if opencl then
       let ms = filter (\<lambda>d. same_bus (cl_pci d) (cc_pci c)) cl;
           found = (case ms of [] \<Rightarrow> -1 | m # _ \<Rightarrow> sint (cl_idx m));
           matches = length ms
       in if matches > 1 then
            (j\<lparr>jc_degraded := True\<rparr>,
             ''two OpenCL devices report PCI bus '' @ pci_bus (cc_pci c) @
             '' - identity is ambiguous, so neither is used for this card'')
          else if matches = 1 then
            (let ds = filter (\<lambda>d. sint (cl_idx d) = found) cl;
                 m = (if ds = [] then None else Some (last ds))
             in case m of
                  Some d \<Rightarrow>
                    if norm_name (cl_name d) = norm_name (cc_name c) then (j\<lparr>jc_cl_index := found\<rparr>, '''')
                    else (j\<lparr>jc_degraded := True\<rparr>,
                      ''the OpenCL device on PCI bus '' @ pci_bus (cc_pci c) @ '' calls itself '' @ [CHR 0x22] @
                      cl_name d @ [CHR 0x22] @ '' where CUDA reports '' @ [CHR 0x22] @ cc_name c @ [CHR 0x22] @
                      '' - identity is ambiguous, so it is not used for this card'')
                | None \<Rightarrow> (j\<lparr>jc_degraded := True\<rparr>,
                      ''the OpenCL device on PCI bus '' @ pci_bus (cc_pci c) @ '' calls itself '' @ [CHR 0x22] @
                      [CHR 0x22] @ '' where CUDA reports '' @ [CHR 0x22] @ cc_name c @ [CHR 0x22] @
                      '' - identity is ambiguous, so it is not used for this card''))
          else if cl \<noteq> [] \<and> \<not> list_ex (\<lambda>d. cl_pci d \<noteq> '''') cl then (j, kNoPciFromCl)
          else (j, '''')
     else (j, ''''))"

text \<open>What will drive a card, by the \<open>--solver\<close> value.\<close>

definition join_backend :: "string \<Rightarrow> joined_card \<Rightarrow> string \<Rightarrow> joined_card" where
  "join_backend solver j amb =
    (if solver = ''cuda'' then
       if jc_viable j then j\<lparr>jc_backend := Cuda\<rparr>
       else j\<lparr>jc_reason := kNotCudaCapable @ '' - --solver cuda was requested, so this card is skipped''\<rparr>
     else if solver = ''opencl'' then
       if jc_cl_index j \<ge> 0 then j\<lparr>jc_backend := OpenCL\<rparr>
       else j\<lparr>jc_reason := (if amb = '''' then ''no OpenCL device could be matched to this card'' else amb)\<rparr>
     else if want_cuda solver \<and> jc_viable j then
       let j = j\<lparr>jc_backend := Cuda\<rparr> in if jc_degraded j then j\<lparr>jc_reason := amb\<rparr> else j
     else if want_opencl solver \<and> jc_cl_index j \<ge> 0 then j\<lparr>jc_backend := OpenCL\<rparr>
     else if want_cuda solver \<or> want_opencl solver then
       j\<lparr>jc_reason := (if amb = '''' then kNotCudaCapable @ '', and no OpenCL device could be matched '' @ ''to this card''
          else kNotCudaCapable @ '', and '' @ amb)\<rparr>
     else j)"

definition join_cuda :: "cl_card list \<Rightarrow> nvml_card list \<Rightarrow> string \<Rightarrow> nat \<Rightarrow> cuda_card \<Rightarrow> joined_card" where
  "join_cuda cl nvml solver i c =
    (let j = joined0\<lparr>jc_name := cc_name c, jc_pci := cc_pci c, jc_vendor := ''NVIDIA Corporation'',
               jc_global_mem := cc_global_mem c, jc_viable := cc_viable c, jc_cuda_index := cc_index c\<rparr>;
         (j, amb) = join_identity cl nvml (want_opencl solver) i c j
     in join_backend solver j amb)"

definition join_cl :: "nvml_card list \<Rightarrow> string \<Rightarrow> nat \<Rightarrow> cl_card \<Rightarrow> joined_card" where
  "join_cl nvml solver i c =
    (let j = joined0\<lparr>jc_name := cl_name c, jc_pci := cl_pci c, jc_vendor := cl_vendor c,
               jc_global_mem := cl_global_mem c, jc_cl_index := sint (cl_idx c)\<rparr>;
         j = (if nvml_disagrees nvml i (cl_pci c) then
                j\<lparr>jc_degraded := True, jc_reason :=
                  ''NVML reports PCI '' @ nv_pci (nvml ! i) @ '' at this position but the device is at '' @
                  cl_pci c @ '' - per-card power settings may not land on this card''\<rparr> else j)
     in if want_opencl solver then j\<lparr>jc_backend := OpenCL\<rparr>
        else if solver = ''cuda'' then j\<lparr>jc_reason := ''--solver cuda was requested but no CUDA device is present''\<rparr>
        else j)"

definition join_devices :: "cuda_card list \<Rightarrow> cl_card list \<Rightarrow> nvml_card list \<Rightarrow> string \<Rightarrow> joined_card list" where
  "join_devices cuda cl nvml solver =
    (if cuda \<noteq> [] then map (\<lambda>i. join_cuda cl nvml solver i (cuda ! i)) [0..<length cuda]
     else map (\<lambda>i. join_cl nvml solver i (cl ! i)) [0..<length cl])"

section \<open>A measured window\<close>

text \<open>One sample; a reading the card did not give is \<open>None\<close>.\<close>

record tel_sample =
  ts_power_w :: "double option"
  ts_sm_clock_mhz :: "u32 option"
  ts_mem_clock_mhz :: "u32 option"
  ts_temp_c :: "u32 option"
  ts_util_pct :: "u32 option"
  ts_events :: "u64 option"

record tel_summary =
  sy_power_w :: "double option"
  sy_joules :: "double option"
  sy_sm_clock_mhz :: "u32 option"
  sy_mem_clock_mhz :: "u32 option"
  sy_temp_c :: "u32 option"
  sy_util_pct :: "u32 option"
  sy_events :: "u64 option"
  sy_samples :: u32

definition trimmed :: "'a list \<Rightarrow> 'a list" where
  "trimmed v = drop (length v div 5) v"

definition trimmed_median :: "u32 list \<Rightarrow> u32 option" where
  "trimmed_median v =
    (if v = [] then None
     else let skip = length v div 5
          in Some ((take skip v @ sort (drop skip v)) ! (skip + (length v - skip) div 2)))"

definition series_of :: "(tel_sample \<Rightarrow> 'a option) \<Rightarrow> tel_sample list \<Rightarrow> 'a list" where
  "series_of f xs = concat (map (\<lambda>s. case f s of Some x \<Rightarrow> [x] | None \<Rightarrow> []) xs)"

definition events_seen :: "tel_sample list \<Rightarrow> u64 option" where
  "events_seen xs =
    (let es = series_of ts_events xs in if es = [] then None else Some (foldl (OR) 0 es))"

definition trimmed_mean :: "double list \<Rightarrow> double option" where
  "trimmed_mean v =
    (if v = [] then None
     else let t = trimmed v in Some (ddiv (foldl dadd 0 t) (d_of_nat (length t))))"

text \<open>
  The close of a window over the samples its thread took; \<open>e0\<close> and \<open>e1\<close> are the energy counter
  at its start and end, in millijoules.
\<close>

definition window_close :: "tel_sample list \<Rightarrow> u64 option \<Rightarrow> u64 option \<Rightarrow> double \<Rightarrow> tel_summary" where
  "window_close xs e0 e1 elapsed =
    (let power = series_of ts_power_w xs;
         pw = trimmed_mean power;
         joules = (case (e0, e1) of
            (Some a, Some b) \<Rightarrow> if b > a then Some (ddiv (d_of_nat (unat (b - a))) 1000) else None
          | _ \<Rightarrow> None);
         pw = (case joules of Some j \<Rightarrow> if elapsed > 0 then Some (ddiv j elapsed) else pw | None \<Rightarrow> pw)
     in \<lparr>sy_power_w = pw, sy_joules = joules,
         sy_sm_clock_mhz = trimmed_median (series_of ts_sm_clock_mhz xs),
         sy_mem_clock_mhz = trimmed_median (series_of ts_mem_clock_mhz xs),
         sy_temp_c = trimmed_median (series_of ts_temp_c xs),
         sy_util_pct = trimmed_median (series_of ts_util_pct xs),
         sy_events = events_seen xs, sy_samples = word_of_nat (length power)\<rparr>)"

section \<open>Every card has a driver or a reason\<close>

lemma backend_or_reason:
  "want_cuda solver \<or> want_opencl solver \<Longrightarrow>
    jc_backend (join_backend solver j amb) \<noteq> NoBackend \<or> jc_reason (join_backend solver j amb) \<noteq> ''''"
  by (auto simp: join_backend_def kNotCudaCapable_def Let_def)

lemma cl_backend_or_reason:
  "want_cuda solver \<or> want_opencl solver \<Longrightarrow>
    jc_backend (join_cl nvml solver i c) \<noteq> NoBackend \<or> jc_reason (join_cl nvml solver i c) \<noteq> ''''"
  by (auto simp: join_cl_def want_cuda_def want_opencl_def Let_def)

lemma identity_frame:
  assumes "join_identity cl nvml b i c j = (j', amb)"
  shows "jc_backend j' = jc_backend j \<and> jc_pci j' = jc_pci j \<and> jc_viable j' = jc_viable j"
  using assms by (auto simp: join_identity_def Let_def split: if_splits option.splits)

text \<open>An OpenCL twin is the only device on the card's bus, under the card's own name.\<close>

lemma identity_match:
  assumes "join_identity cl nvml b i c j = (j', amb)" "jc_cl_index j = -1" "jc_cl_index j' \<ge> 0"
  shows "\<exists>d. filter (\<lambda>d. same_bus (cl_pci d) (cc_pci c)) cl = [d] \<and> jc_cl_index j' = sint (cl_idx d) \<and>
    (\<exists>d' \<in> set cl. cl_idx d' = cl_idx d \<and> norm_name (cl_name d') = norm_name (cc_name c))"
proof -
  let ?ms = "filter (\<lambda>d. same_bus (cl_pci d) (cc_pci c)) cl"
  from assms have l: "length ?ms = 1"
    by (auto simp: join_identity_def Let_def split: if_splits)
  then obtain d where d: "?ms = [d]" by (auto simp: length_Suc_conv)
  let ?ds = "filter (\<lambda>x. sint (cl_idx x) = sint (cl_idx d)) cl"
  from assms d have "jc_cl_index j' = sint (cl_idx d) \<and> ?ds \<noteq> [] \<and> norm_name (cl_name (last ?ds)) = norm_name (cc_name c)"
    by (auto simp: join_identity_def Let_def split: if_splits)
  moreover from this have "last ?ds \<in> set ?ds" by (intro last_in_set) simp
  then have "last ?ds \<in> set cl" "cl_idx (last ?ds) = cl_idx d" by (auto intro: signed_word_eqI)
  ultimately show ?thesis using d by blast
qed


lemma backend_opencl:
  "jc_cl_index (join_backend solver j amb) = jc_cl_index j"
  "jc_backend j = NoBackend \<Longrightarrow> jc_backend (join_backend solver j amb) = OpenCL \<Longrightarrow> jc_cl_index j \<ge> 0"
  "jc_backend j = NoBackend \<Longrightarrow> jc_backend (join_backend solver j amb) = Cuda \<Longrightarrow> jc_viable j"
  by (auto simp: join_backend_def Let_def split: if_splits)

lemma join_cuda_match:
  assumes "jc_backend (join_cuda cl nvml solver i c) = OpenCL"
  shows "\<exists>d \<in> set cl. same_bus (cl_pci d) (cc_pci c) \<and> jc_cl_index (join_cuda cl nvml solver i c) = sint (cl_idx d)"
proof -
  let ?j = "joined0\<lparr>jc_name := cc_name c, jc_pci := cc_pci c, jc_vendor := ''NVIDIA Corporation'',
               jc_global_mem := cc_global_mem c, jc_viable := cc_viable c, jc_cuda_index := cc_index c\<rparr>"
  obtain j' amb where s: "join_identity cl nvml (want_opencl solver) i c ?j = (j', amb)"
    by (cases "join_identity cl nvml (want_opencl solver) i c ?j")
  then have J: "join_cuda cl nvml solver i c = join_backend solver j' amb" by (simp add: join_cuda_def)
  from identity_frame [OF s] have "jc_backend j' = NoBackend" by (simp add: joined0_def)
  with assms J backend_opencl(2) have p: "jc_cl_index j' \<ge> 0" by metis
  have "jc_cl_index ?j = -1" by (simp add: joined0_def)
  from identity_match [OF s this p] obtain d where
    d: "filter (\<lambda>d. same_bus (cl_pci d) (cc_pci c)) cl = [d]" "jc_cl_index j' = sint (cl_idx d)" by blast
  then have "d \<in> set (filter (\<lambda>d. same_bus (cl_pci d) (cc_pci c)) cl)" by simp
  with d(2) show ?thesis unfolding J backend_opencl(1) by auto
qed

text \<open>
  No device is driven twice: when two cards of the table are both driven through the same OpenCL
  device, they are on the same PCI bus, that is, the same card; and no requested solver leaves a card
  without either a backend or the reason it is skipped.
\<close>
theorem join_claims_each_device_once:
  assumes "distinct (map cl_idx cl)" "i < length cuda" "j < length cuda"
    and "jc_backend (join_devices cuda cl nvml solver ! i) = OpenCL"
    and "jc_backend (join_devices cuda cl nvml solver ! j) = OpenCL"
    and "jc_cl_index (join_devices cuda cl nvml solver ! i) = jc_cl_index (join_devices cuda cl nvml solver ! j)"
  shows "same_bus (cc_pci (cuda ! i)) (cc_pci (cuda ! j))"
proof -
  have nth: "join_devices cuda cl nvml solver ! k = join_cuda cl nvml solver k (cuda ! k)" if "k < length cuda" for k
    using that by (auto simp: join_devices_def)
  note N = nth [OF assms(2)] nth [OF assms(3)]
  from join_cuda_match [OF assms(4) [unfolded N]] obtain d where d: "d \<in> set cl" "same_bus (cl_pci d) (cc_pci (cuda ! i))"
    "jc_cl_index (join_devices cuda cl nvml solver ! i) = sint (cl_idx d)" unfolding N by blast
  from join_cuda_match [OF assms(5) [unfolded N]] obtain e where e: "e \<in> set cl" "same_bus (cl_pci e) (cc_pci (cuda ! j))"
    "jc_cl_index (join_devices cuda cl nvml solver ! j) = sint (cl_idx e)" unfolding N by blast
  from d(3) e(3) assms(6) have "sint (cl_idx d) = sint (cl_idx e)" by simp
  then have "cl_idx d = cl_idx e" by (rule signed_word_eqI)
  with assms(1) d(1) e(1) have "d = e" by (simp add: distinct_map inj_on_def)
  with d(2) e(2) show ?thesis by (simp add: same_bus_def Let_def)
qed

theorem join_claims_each_device_once_witness:
  "let card = \<lparr>cc_name = ''RTX'', cc_pci = ''1:0'', cc_index = 0, cc_global_mem = 0, cc_viable = False\<rparr>;
       ocl = \<lparr>cl_name = ''rtx '', cl_vendor = ''N'', cl_pci = ''1:1'', cl_idx = 0, cl_global_mem = 0\<rparr>
   in jc_backend (join_devices [card] [ocl] [] ''auto'' ! 0) = OpenCL \<and> same_bus (cc_pci card) (cc_pci card)"
proof -
  let ?card = "\<lparr>cc_name = ''RTX'', cc_pci = ''1:0'', cc_index = 0, cc_global_mem = 0, cc_viable = False\<rparr>"
  let ?ocl = "\<lparr>cl_name = ''rtx '', cl_vendor = ''N'', cl_pci = ''1:1'', cl_idx = 0, cl_global_mem = 0\<rparr>"
  have b: "jc_backend (join_devices [?card] [?ocl] [] ''auto'' ! 0) = OpenCL" by code_simp
  from join_claims_each_device_once [of "[?ocl]" 0 "[?card]" 0, OF _ _ _ b b] b show ?thesis by simp
qed

lemma join_backend_or_reason:
  assumes "want_cuda solver \<or> want_opencl solver" "c \<in> set (join_devices cuda cl nvml solver)"
  shows "jc_backend c \<noteq> NoBackend \<or> jc_reason c \<noteq> ''''"
  using assms backend_or_reason [OF assms(1)] cl_backend_or_reason [OF assms(1)]
  by (auto simp: join_devices_def join_cuda_def Let_def split: if_splits prod.splits)

section \<open>The median\<close>

text \<open>The figure of a window is a sample of it, and at least half of the kept samples lie on each side.\<close>

lemma trimmed_median_middle:
  assumes "trimmed_median v = Some m"
  shows "m \<in> set (trimmed v)" "length (trimmed v) \<le> 2 * length (filter (\<lambda>x. m \<le> x) (trimmed v))"
    "length (trimmed v) \<le> 2 * length (filter (\<lambda>x. x \<le> m) (trimmed v))"
proof -
  let ?s = "sort (trimmed v)"
  let ?n = "length (trimmed v)"
  from assms have v: "v \<noteq> []" by (auto simp: trimmed_median_def)
  then have n: "0 < ?n" using div_less_dividend [of 5 "length v"] by (simp add: trimmed_def)
  let ?k = "length v div 5"
  have "length (take ?k v) = ?k" by simp
  then have "(take ?k v @ ?s) ! (?k + x) = ?s ! x" for x using nth_append_length_plus [of "take ?k v" ?s x] by metis
  with assms v have m: "m = ?s ! (?n div 2)" by (simp add: trimmed_median_def trimmed_def Let_def)
  have k: "?n div 2 < ?n" using n by simp
  then show "m \<in> set (trimmed v)" unfolding m by (metis length_sort nth_mem set_sort)
  have perm: "length (filter P (trimmed v)) = length (filter P ?s)" for P
    by (metis mset_filter mset_sort size_mset)
  have up: "m \<le> ?s ! i" if "?n div 2 \<le> i" "i < ?n" for i
    unfolding m using that by (intro sorted_nth_mono) simp_all
  have lo: "?s ! i \<le> m" if "i \<le> ?n div 2" for i
    unfolding m using that k by (intro sorted_nth_mono) simp_all
  have "length (drop (?n div 2) ?s) = length (filter (\<lambda>x. m \<le> x) (drop (?n div 2) ?s))"
    using up by (subst filter_True) (auto simp: set_conv_nth)
  also have "\<dots> \<le> length (filter (\<lambda>x. m \<le> x) ?s)"
    by (metis append_take_drop_id filter_append le_add2 length_append)
  finally show "?n \<le> 2 * length (filter (\<lambda>x. m \<le> x) (trimmed v))" unfolding perm by simp
  have "length (take (Suc (?n div 2)) ?s) = length (filter (\<lambda>x. x \<le> m) (take (Suc (?n div 2)) ?s))"
    using lo by (subst filter_True) (auto simp: set_conv_nth)
  also have "\<dots> \<le> length (filter (\<lambda>x. x \<le> m) ?s)"
    by (metis append_take_drop_id filter_append le_add1 length_append)
  finally show "?n \<le> 2 * length (filter (\<lambda>x. x \<le> m) (trimmed v))" unfolding perm using k by simp
qed

end
