(* ===== verification/Format.thy ===== *)
theory Format
  imports Printf
begin

text \<open>
  The console's formatting (src/ui/format.h, src/ui/format.cpp): uptime, share triples, padding,
  device names, the columns of the statistics table and the \<open>--statsformat\<close> list.
\<close>

definition cquote :: "string \<Rightarrow> string" where
  "cquote s = [CHR 0x27] @ s @ [CHR 0x27]"

text \<open>Seconds, not negative.\<close>

definition format_uptime :: "nat \<Rightarrow> string" where
  "format_uptime t = dec (t div 3600) @ ''h '' @ dec (t mod 3600 div 60) @ ''m '' @ dec (t mod 60) @ ''s''"

definition format_shares :: "u64 \<Rightarrow> u64 \<Rightarrow> u64 \<Rightarrow> string" where
  "format_shares a st r = dec (unat a) @ ''/'' @ dec (unat st) @ ''/'' @ dec (unat r)"

definition kNameW :: nat where "kNameW = 17"
definition kDefaultDigits :: nat where "kDefaultDigits = 2"

definition pad_left :: "string \<Rightarrow> nat \<Rightarrow> string" where
  "pad_left s w = replicate (w - length s) CHR '' '' @ s"

definition pad_right :: "string \<Rightarrow> nat \<Rightarrow> string" where
  "pad_right s w = s @ replicate (w - length s) CHR '' ''"

definition kMissing :: string where "kMissing = ''--''"

definition device_prefixes :: "string list" where
  "device_prefixes = [''NVIDIA GeForce '', ''NVIDIA '', ''AMD Radeon '', ''AMD '',
     ''Advanced Micro Devices, Inc. '', ''Intel(R) '', ''Intel '']"

fun strip_first :: "string list \<Rightarrow> string \<Rightarrow> string" where
  "strip_first [] n = n"
| "strip_first (p # ps) n = (if has_prefix p n then drop (length p) n else strip_first ps n)"

definition short_device_name :: "string \<Rightarrow> string" where
  "short_device_name full = take kNameW (strip_first device_prefixes full)"

section \<open>The columns\<close>

record stat_column_spec =
  sc_name :: string
  sc_head1 :: string
  sc_head2 :: string
  sc_width :: nat
  sc_total :: bool
  sc_vlabel :: string

definition col :: "string \<Rightarrow> string \<Rightarrow> string \<Rightarrow> nat \<Rightarrow> bool \<Rightarrow> string \<Rightarrow> stat_column_spec" where
  "col n h1 h2 w t v = \<lparr>sc_name = n, sc_head1 = h1, sc_head2 = h2, sc_width = w, sc_total = t, sc_vlabel = v\<rparr>"

definition stat_columns :: "stat_column_spec list" where
  "stat_columns =
    [col ''gpuName'' ''Name'' '''' kNameW True ''Name'',
     col ''speed'' ''Speed'' ''sol/s'' 6 True ''Speed (sol/s)'',
     col ''poolHr'' ''Pool'' ''sol/s'' 6 True ''Pool (sol/s)'',
     col ''iter'' ''Iter.'' ''it/s'' 6 True ''Iter. (it/s)'',
     col ''shares'' ''Shares'' ''A/S/R'' 8 True ''Shares (A/S/R)'',
     col ''bestShare'' ''Best'' ''Share'' 6 True ''Best Share'',
     col ''hrPerWatt'' ''Eff.'' ''sol/s/W'' 8 True ''Efficiency (sol/s/W)'',
     col ''power'' ''Power'' ''W'' 6 True ''Power (W)'',
     col ''coreClk'' ''CCLK'' ''MHz'' 5 False ''Core Clock (MHz)'',
     col ''memClk'' ''MCLK'' ''MHz'' 6 False ''Memory Clock (MHz)'',
     col ''coreT'' ''Core'' ''Temp'' 5 False ''Temp (deg C)'',
     col ''fanPct'' ''Fan'' ''Pct'' 4 False ''Fan Speed (%)'',
     col ''sharesPerMin'' ''Shr/m'' ''min'' 6 True ''Shares per minute'',
     col ''wattPerHr'' ''W per'' ''sol/s'' 7 True ''Watt per sol/s'',
     col ''util'' ''Util'' ''Pct'' 5 False ''Utilisation (%)'',
     col ''state'' ''State'' '''' 7 False ''State'']"

definition stat_column :: "string \<Rightarrow> stat_column_spec option" where
  "stat_column name = find (\<lambda>c. lower (sc_name c) = lower name) stat_columns"

fun up_to :: "string \<Rightarrow> string list \<Rightarrow> string list" where
  "up_to stop [] = []"
| "up_to stop (n # ns) = (if n = stop then [n] else n # up_to stop ns)"

definition default_stat_format :: "string list" where
  "default_stat_format = up_to ''fanPct'' (map sc_name stat_columns)"

fun join_comma :: "string list \<Rightarrow> string" where
  "join_comma [] = ''''"
| "join_comma [s] = s"
| "join_comma (s # ss) = s @ '', '' @ join_comma ss"

fun parse_columns :: "string list \<Rightarrow> string + string list" where
  "parse_columns [] = Inr []"
| "parse_columns (t # ts) =
    (let tok = trim t
     in if tok = '''' then Inl ''empty field in the --statsformat list''
        else case stat_column tok of
          None \<Rightarrow> Inl (cquote tok @ '' is not a statistics field. MXBM has no presets; list '' @
             ''fields, e.g. gpuName,speed,power,coreT. Available: '' @ join_comma (map sc_name stat_columns))
        | Some c \<Rightarrow> (case parse_columns ts of Inl e \<Rightarrow> Inl e | Inr cs \<Rightarrow> Inr (sc_name c # cs)))"

definition parse_stats_format :: "string \<Rightarrow> string + string list" where
  "parse_stats_format spec =
    (case parse_columns (split_on CHR '','' spec) of
       Inl e \<Rightarrow> Inl e
     | Inr [] \<Rightarrow> Inl ''the --statsformat list selected nothing''
     | Inr cs \<Rightarrow> Inr cs)"

lemma parse_columns_known:
  "parse_columns ts = Inr cs \<Longrightarrow> set cs \<subseteq> sc_name ` set stat_columns \<and> length cs = length ts"
proof (induction ts arbitrary: cs)
  case (Cons t ts)
  then obtain c cs' where c: "stat_column (trim t) = Some c" "parse_columns ts = Inr cs'" "cs = sc_name c # cs'"
    by (auto simp: Let_def split: if_splits option.splits sum.splits)
  from c(1) have "c \<in> set stat_columns" by (auto simp: stat_column_def find_Some_iff in_set_conv_nth)
  with Cons.IH [OF c(2)] c(3) show ?case by auto
qed simp

end
