(* ===== verification/Overclock.thy ===== *)
theory Overclock
  imports Printf "HOL-Library.Signed_Division"
begin

text \<open>
  Overclocking (src/gpu/overclock.h, overclock.cpp): the per-card list syntax, the six knobs with
  their clamping and bookkeeping, and the restore at exit. The driver is a parameter, the record
  \<open>card_ops\<close> over an abstract hardware state \<open>'hw\<close>; what the restore relies on are the predicates
  \<open>faithful\<close>, by which a write is refused or does what it says, and \<open>takes_back\<close>.
\<close>

section \<open>The card\<close>

datatype nvml_write = Ok | NoPermission | Unsupported | Failed

record power_limit =
  pl_current_w :: u32
  pl_default_w :: u32
  pl_min_w :: u32
  pl_max_w :: u32

record clock_offset =
  co_current_mhz :: int
  co_min_mhz :: int
  co_max_mhz :: int

record fan_info =
  fi_count :: u32
  fi_pct :: u32
  fi_min_pct :: u32
  fi_max_pct :: u32

text \<open>\<open>PowerOps\<close> and \<open>ClockOps\<close>; a read is \<open>None\<close> where its \<open>valid\<close> flag is false.\<close>

record 'hw card_ops =
  op_pl_read :: "'hw \<Rightarrow> nat \<Rightarrow> power_limit option"
  op_pl_write :: "nat \<Rightarrow> u32 \<Rightarrow> 'hw \<Rightarrow> nvml_write \<times> 'hw"
  op_core_read :: "'hw \<Rightarrow> nat \<Rightarrow> clock_offset option"
  op_core_write :: "nat \<Rightarrow> int \<Rightarrow> 'hw \<Rightarrow> nvml_write \<times> 'hw"
  op_mem_read :: "'hw \<Rightarrow> nat \<Rightarrow> clock_offset option"
  op_mem_write :: "nat \<Rightarrow> int \<Rightarrow> 'hw \<Rightarrow> nvml_write \<times> 'hw"
  op_max_core :: "'hw \<Rightarrow> nat \<Rightarrow> u32"
  op_max_mem :: "'hw \<Rightarrow> nat \<Rightarrow> u32"
  op_lock_core :: "nat \<Rightarrow> u32 \<Rightarrow> u32 \<Rightarrow> 'hw \<Rightarrow> nvml_write \<times> 'hw"
  op_unlock_core :: "nat \<Rightarrow> 'hw \<Rightarrow> nvml_write \<times> 'hw"
  op_lock_mem :: "nat \<Rightarrow> u32 \<Rightarrow> u32 \<Rightarrow> 'hw \<Rightarrow> nvml_write \<times> 'hw"
  op_unlock_mem :: "nat \<Rightarrow> 'hw \<Rightarrow> nvml_write \<times> 'hw"
  op_fan_read :: "'hw \<Rightarrow> nat \<Rightarrow> fan_info option"
  op_fan_write :: "nat \<Rightarrow> nat \<Rightarrow> u32 \<Rightarrow> 'hw \<Rightarrow> nvml_write \<times> 'hw"
  op_fan_reset :: "nat \<Rightarrow> nat \<Rightarrow> 'hw \<Rightarrow> nvml_write \<times> 'hw"

section \<open>Results and bookkeeping\<close>

datatype oc_status = NotRequested | Applied | Clamped | OcNoPermission | OcUnsupported | OcFailed

record oc_result =
  or_status :: oc_status
  or_device :: nat
  or_knob :: string
  or_requested :: int
  or_applied :: int
  or_previous :: int
  or_min :: int
  or_max :: int
  or_message :: string

record oc_request =
  oq_pl :: string
  oq_cclk :: string
  oq_mclk :: string
  oq_coff :: string
  oq_moff :: string
  oq_fan :: string

text \<open>The arrays of \<open>kMaxOcDevices\<close> entries, as functions of the device.\<close>

record oc_state =
  os_prev_pl_w :: "nat \<Rightarrow> u32"
  os_coff_applied :: "nat \<Rightarrow> bool"
  os_prev_coff :: "nat \<Rightarrow> int"
  os_moff_applied :: "nat \<Rightarrow> bool"
  os_prev_moff :: "nat \<Rightarrow> int"
  os_core_locked :: "nat \<Rightarrow> bool"
  os_mem_locked :: "nat \<Rightarrow> bool"
  os_fan_applied :: "nat \<Rightarrow> bool"
  os_fan_count :: "nat \<Rightarrow> u32"
  os_restore_enabled :: bool
  os_hooks :: bool

definition kMaxOcDevices :: nat where "kMaxOcDevices = 16"

definition oc_state0 :: oc_state where
  "oc_state0 = \<lparr>os_prev_pl_w = (\<lambda>_. 0), os_coff_applied = (\<lambda>_. False), os_prev_coff = (\<lambda>_. 0),
     os_moff_applied = (\<lambda>_. False), os_prev_moff = (\<lambda>_. 0), os_core_locked = (\<lambda>_. False),
     os_mem_locked = (\<lambda>_. False), os_fan_applied = (\<lambda>_. False), os_fan_count = (\<lambda>_. 0),
     os_restore_enabled = True, os_hooks = False\<rparr>"

definition oc_result0 :: oc_result where
  "oc_result0 = \<lparr>or_status = NotRequested, or_device = 0, or_knob = '''', or_requested = 0, or_applied = 0,
     or_previous = 0, or_min = 0, or_max = 0, or_message = ''''\<rparr>"

text \<open>\<open>snprintf\<close> into a buffer of \<open>n\<close> bytes.\<close>

definition snprintf :: "nat \<Rightarrow> string \<Rightarrow> string" where
  "snprintf n s = take (n - 1) s"

abbreviation u32_dec :: "u32 \<Rightarrow> string" where "u32_dec w \<equiv> dec (unat w)"

definition oc_install_restore_hooks :: "oc_state \<Rightarrow> oc_state" where
  "oc_install_restore_hooks st = st\<lparr>os_hooks := True\<rparr>"

definition oc_set_restore_enabled :: "bool \<Rightarrow> oc_state \<Rightarrow> oc_state" where
  "oc_set_restore_enabled b st = st\<lparr>os_restore_enabled := b\<rparr>"

section \<open>The list syntax\<close>

fun parse_entries :: "bool \<Rightarrow> nat \<Rightarrow> nat \<Rightarrow> string list \<Rightarrow> int option \<Rightarrow> string + int option" where
  "parse_entries allow_negative index n [] found = Inr found"
| "parse_entries allow_negative index n (t # ts) found =
    (let tok = trim t
     in if tok = '''' then Inl ''empty entry in list''
        else if tok \<noteq> ''*'' then
          (let digits_from = (if allow_negative \<and> (hd tok = CHR ''-'' \<or> hd tok = CHR ''+'') then 1 else 0)
           in if length tok = digits_from then Inl ([CHR 0x27] @ tok @ [CHR 0x27] @ '' has no digits'')
              else if \<not> list_all is_digit (drop digits_from tok)
              then Inl ([CHR 0x27] @ tok @ [CHR 0x27] @ '' is not a number or '' @ [CHR 0x27] @ ''*'' @ [CHR 0x27])
              else
                let v = strtol10 tok
                in if \<not> allow_negative \<and> v \<le> 0
                   then Inl ([CHR 0x27] @ tok @ [CHR 0x27] @ '' must be greater than zero'')
                   else parse_entries allow_negative index (n + 1) ts (if n = index then Some v else found))
        else parse_entries allow_negative index (n + 1) ts found)"

text \<open>An error, or the entry for the card, \<open>None\<close> where it is skipped or the list is shorter.\<close>

definition oc_parse_list :: "string \<Rightarrow> nat \<Rightarrow> bool \<Rightarrow> string + int option" where
  "oc_parse_list spec index allow_negative =
    (if spec = '''' then Inl ''empty value''
     else parse_entries allow_negative index 0 (split_on CHR '','' spec) None)"

definition oc_spec_at :: "nat \<Rightarrow> int \<Rightarrow> string" where
  "oc_spec_at index v = concat (replicate index ''*,'') @ int_dec v"

section \<open>One knob\<close>

definition describe_failure :: "oc_result \<Rightarrow> nvml_write \<Rightarrow> string \<Rightarrow> oc_result" where
  "describe_failure r w unit =
    (case w of
       NoPermission \<Rightarrow> r\<lparr>or_status := OcNoPermission, or_message := snprintf 256
         (or_knob r @ '' '' @ int_dec (or_requested r) @ unit @
          '' not applied: insufficient permission - re-run under sudo. '' @
          ''Mining continues at the card'' @ [CHR 0x27] @ ''s current setting.'')\<rparr>
     | Unsupported \<Rightarrow> r\<lparr>or_status := OcUnsupported, or_message := snprintf 256
         (or_knob r @ '' '' @ int_dec (or_requested r) @ unit @
          '' not applied: this device does not support it. Mining continues.'')\<rparr>
     | _ \<Rightarrow> r\<lparr>or_status := OcFailed, or_message := snprintf 256
         (or_knob r @ '' '' @ int_dec (or_requested r) @ unit @
          '' not applied: the driver rejected it. Mining continues.'')\<rparr>)"

text \<open>The result so far, and whether there is something to do.\<close>

definition want :: "string \<Rightarrow> nat \<Rightarrow> string \<Rightarrow> bool \<Rightarrow> oc_result \<times> bool" where
  "want spec device knob allow_negative =
    (let r = oc_result0\<lparr>or_knob := knob, or_device := device\<rparr>
     in if spec = '''' then (r, False)
        else case oc_parse_list spec device allow_negative of
          Inl err \<Rightarrow> (r\<lparr>or_status := OcFailed, or_message := knob @ '' '' @ spec @ '': '' @ err\<rparr>, False)
        | Inr None \<Rightarrow> (r, False)
        | Inr (Some v) \<Rightarrow> (r\<lparr>or_requested := v\<rparr>, True))"

definition clamp_to :: "int \<Rightarrow> int \<Rightarrow> int \<Rightarrow> int \<times> bool" where
  "clamp_to v lo hi =
    (if lo = 0 \<and> hi = 0 then (v, False) else if v < lo then (lo, True) else if v > hi then (hi, True) else (v, False))"

definition oc_apply_power_limit ::
    "'hw card_ops \<Rightarrow> nat \<Rightarrow> string \<Rightarrow> 'hw \<times> oc_state \<Rightarrow> oc_result \<times> 'hw \<times> oc_state" where
  "oc_apply_power_limit ops device spec s =
    (case s of (hw, st) \<Rightarrow> case want spec device ''--pl'' False of
       (r, False) \<Rightarrow> (r, s)
     | (r, True) \<Rightarrow>
         if device \<ge> kMaxOcDevices
         then (r\<lparr>or_status := OcFailed, or_message := ''--pl: device index out of range for restore bookkeeping''\<rparr>, s)
         else case op_pl_read ops hw device of
           None \<Rightarrow> (r\<lparr>or_status := OcUnsupported,
             or_message := ''--pl: this device does not report a power limit; continuing at stock''\<rparr>, s)
         | Some pl \<Rightarrow>
             let r = r\<lparr>or_min := uint (pl_min_w pl), or_max := uint (pl_max_w pl), or_previous := uint (pl_current_w pl)\<rparr>;
                 (target, clamped) = clamp_to (or_requested r) (uint (pl_min_w pl)) (uint (pl_max_w pl));
                 r = r\<lparr>or_applied := target\<rparr>;
                 (w, hw') = op_pl_write ops device (word_of_int target) hw
             in if w \<noteq> Ok then
                  let r = describe_failure r w '' W''
                  in (r\<lparr>or_message := snprintf 256 (or_message r @ '' Card stays at '' @ u32_dec (pl_current_w pl) @ '' W.'')\<rparr>, hw', st)
                else
                  let st = oc_install_restore_hooks (st\<lparr>os_prev_pl_w := (os_prev_pl_w st)(device := pl_current_w pl)\<rparr>)
                  in if clamped then
                       (r\<lparr>or_status := Clamped, or_message := snprintf 256
                          (''Power limit: '' @ int_dec (or_requested r) @ '' W requested, applied '' @ int_dec target @
                           '' W (device allows '' @ u32_dec (pl_min_w pl) @ ''-'' @ u32_dec (pl_max_w pl) @ '' W)'')\<rparr>, hw', st)
                     else
                       (r\<lparr>or_status := Applied, or_message := snprintf 256
                          (''Power limit: '' @ int_dec target @ '' W (was '' @ u32_dec (pl_current_w pl) @
                           '' W, device allows '' @ u32_dec (pl_min_w pl) @ ''-'' @ u32_dec (pl_max_w pl) @ '' W)'')\<rparr>, hw', st))"

text \<open>\<open>record_prev\<close> stores what was there before and marks the knob as applied.\<close>

definition apply_offset ::
    "string \<Rightarrow> nat \<Rightarrow> string \<Rightarrow> ('hw \<Rightarrow> nat \<Rightarrow> clock_offset option) \<Rightarrow> (nat \<Rightarrow> int \<Rightarrow> 'hw \<Rightarrow> nvml_write \<times> 'hw) \<Rightarrow>
     (int \<Rightarrow> oc_state \<Rightarrow> oc_state) \<Rightarrow> string \<Rightarrow> bool \<Rightarrow> 'hw \<times> oc_state \<Rightarrow> oc_result \<times> 'hw \<times> oc_state" where
  "apply_offset spec device knob rd wr record_prev domain transfer_rate s =
    (case s of (hw, st) \<Rightarrow> case want spec device knob True of
       (r, False) \<Rightarrow> (r, s)
     | (r, True) \<Rightarrow>
         case rd hw device of
           None \<Rightarrow> (r\<lparr>or_status := OcUnsupported,
             or_message := knob @ '': this device does not expose a '' @ domain @ '' clock offset; continuing at stock''\<rparr>, s)
         | Some off \<Rightarrow>
             let r = r\<lparr>or_min := co_min_mhz off, or_max := co_max_mhz off, or_previous := co_current_mhz off\<rparr>;
                 (target, clamped) = clamp_to (or_requested r) (co_min_mhz off) (co_max_mhz off);
                 r = r\<lparr>or_applied := target\<rparr>;
                 (w, hw') = wr device (sint (word_of_int target :: u32)) hw
             in if w \<noteq> Ok then (describe_failure r w '' MHz'', hw', st)
                else
                  let st = oc_install_restore_hooks (record_prev (co_current_mhz off) st);
                      note = (if transfer_rate
                        then snprintf 80 (''; transfer rate, so the clock moves '' @ plus_dec (target sdiv 2)) else '''')
                  in if clamped then
                       (r\<lparr>or_status := Clamped, or_message := snprintf 256
                          (domain @ '' clock offset: '' @ plus_dec (or_requested r) @ '' MHz requested, applied '' @
                           plus_dec target @ '' MHz (device allows '' @ plus_dec (co_min_mhz off) @ ''..'' @
                           plus_dec (co_max_mhz off) @ '')'' @ note)\<rparr>, hw', st)
                     else
                       (r\<lparr>or_status := Applied, or_message := snprintf 256
                          (domain @ '' clock offset: '' @ plus_dec target @ '' MHz (was '' @ plus_dec (co_current_mhz off) @
                           '', device allows '' @ plus_dec (co_min_mhz off) @ ''..'' @ plus_dec (co_max_mhz off) @ '')'' @
                           note)\<rparr>, hw', st))"

definition apply_lock ::
    "string \<Rightarrow> nat \<Rightarrow> string \<Rightarrow> ('hw \<Rightarrow> nat \<Rightarrow> u32) \<Rightarrow> (nat \<Rightarrow> u32 \<Rightarrow> u32 \<Rightarrow> 'hw \<Rightarrow> nvml_write \<times> 'hw) \<Rightarrow>
     (oc_state \<Rightarrow> oc_state) \<Rightarrow> string \<Rightarrow> 'hw \<times> oc_state \<Rightarrow> oc_result \<times> 'hw \<times> oc_state" where
  "apply_lock spec device knob max_mhz lock mark domain s =
    (case s of (hw, st) \<Rightarrow> case want spec device knob False of
       (r, False) \<Rightarrow> (r, s)
     | (r, True) \<Rightarrow>
         let hi = max_mhz hw device;
             r = r\<lparr>or_max := uint hi\<rparr>;
             clamped = (hi \<noteq> 0 \<and> or_requested r > uint hi);
             target = (if clamped then uint hi else or_requested r);
             r = r\<lparr>or_applied := target\<rparr>;
             (w, hw') = lock device (word_of_int target) (word_of_int target) hw
         in if w \<noteq> Ok then (describe_failure r w '' MHz'', hw', st)
            else
              let st = oc_install_restore_hooks (mark st)
              in if clamped then
                   (r\<lparr>or_status := Clamped, or_message := snprintf 256
                      (domain @ '' clock locked: '' @ int_dec (or_requested r) @ '' MHz requested, applied '' @
                       int_dec target @ '' MHz (device maximum '' @ u32_dec hi @ '')'')\<rparr>, hw', st)
                 else
                   (r\<lparr>or_status := Applied, or_message := snprintf 256
                      (domain @ '' clock locked: '' @ int_dec target @ '' MHz (device maximum '' @ u32_dec hi @ '')'')\<rparr>, hw', st))"

text \<open>The write of every fan up to the first refusal: the last status, how many took, the card.\<close>

fun write_fans ::
    "(nat \<Rightarrow> nat \<Rightarrow> u32 \<Rightarrow> 'hw \<Rightarrow> nvml_write \<times> 'hw) \<Rightarrow> nat \<Rightarrow> u32 \<Rightarrow> nat list \<Rightarrow> u32 \<Rightarrow> nvml_write \<Rightarrow> 'hw \<Rightarrow>
     nvml_write \<times> u32 \<times> 'hw" where
  "write_fans wr device pct [] done w hw = (w, done, hw)"
| "write_fans wr device pct (i # is) done w hw =
    (case wr device i pct hw of (w, hw) \<Rightarrow>
       if w \<noteq> Ok then (w, done, hw) else write_fans wr device pct is (done + 1) w hw)"

text \<open>The line of a fan setting that reached at least one fan.\<close>

definition fan_outcome :: "fan_info \<Rightarrow> int \<Rightarrow> bool \<Rightarrow> nvml_write \<Rightarrow> u32 \<Rightarrow> oc_result \<Rightarrow> oc_result" where
  "fan_outcome f target clamped w took r =
    (if w \<noteq> Ok then
       r\<lparr>or_status := Clamped, or_message := snprintf 256
         (''Fan: '' @ int_dec target @ '' % applied to '' @ u32_dec took @ '' of '' @ u32_dec (fi_count f) @
          '' fans; the rest stay on the driver'' @ [CHR 0x27] @ ''s curve'')\<rparr>
     else if clamped then
       r\<lparr>or_status := Clamped, or_message := snprintf 256
         (''Fan: '' @ int_dec (or_requested r) @ '' % requested, applied '' @ int_dec target @ '' % to '' @
          u32_dec took @ '' fan(s) (device allows '' @ u32_dec (fi_min_pct f) @ ''-'' @
          u32_dec (fi_max_pct f) @ '' %)'')\<rparr>
     else
       r\<lparr>or_status := Applied, or_message := snprintf 256
         (''Fan: '' @ int_dec target @ '' % on '' @ u32_dec took @ '' fan(s) (was '' @ u32_dec (fi_pct f) @
          '' %, device allows '' @ u32_dec (fi_min_pct f) @ ''-'' @ u32_dec (fi_max_pct f) @ '' %)'')\<rparr>)"

definition apply_fan :: "'hw card_ops \<Rightarrow> string \<Rightarrow> nat \<Rightarrow> 'hw \<times> oc_state \<Rightarrow> oc_result \<times> 'hw \<times> oc_state" where
  "apply_fan ops spec device s =
    (case s of (hw, st) \<Rightarrow> case want spec device ''--fan'' True of
       (r, False) \<Rightarrow> (r, s)
     | (r, True) \<Rightarrow>
         if or_requested r < 0
         then (r\<lparr>or_status := OcFailed, or_message := ''--fan: a fan speed below 0 % is not a setting''\<rparr>, s)
         else case op_fan_read ops hw device of
           None \<Rightarrow> (r\<lparr>or_status := OcUnsupported,
             or_message := ''--fan: this device does not report a controllable fan; continuing on auto''\<rparr>, s)
         | Some f \<Rightarrow>
             let r = r\<lparr>or_min := uint (fi_min_pct f), or_max := uint (fi_max_pct f), or_previous := uint (fi_pct f)\<rparr>;
                 (target, clamped) = clamp_to (or_requested r) (uint (fi_min_pct f)) (uint (fi_max_pct f));
                 (target, clamped) = (if target > 100 then (100, True) else (target, clamped));
                 r = r\<lparr>or_applied := target\<rparr>;
                 (w, took, hw') = write_fans (op_fan_write ops) device (word_of_int target) [0..<unat (fi_count f)] 0 Ok hw
             in if took = 0 then (describe_failure r w '' %'', hw', st)
                else
                  let st = oc_install_restore_hooks (st\<lparr>os_fan_count := (os_fan_count st)(device := took),
                         os_fan_applied := (os_fan_applied st)(device := True)\<rparr>)
                  in (fan_outcome f target clamped w took r, hw', st))"

section \<open>Apply and restore\<close>

definition set_coff :: "nat \<Rightarrow> int \<Rightarrow> oc_state \<Rightarrow> oc_state" where
  "set_coff d prev st = st\<lparr>os_prev_coff := (os_prev_coff st)(d := prev), os_coff_applied := (os_coff_applied st)(d := True)\<rparr>"

definition set_moff :: "nat \<Rightarrow> int \<Rightarrow> oc_state \<Rightarrow> oc_state" where
  "set_moff d prev st = st\<lparr>os_prev_moff := (os_prev_moff st)(d := prev), os_moff_applied := (os_moff_applied st)(d := True)\<rparr>"

definition set_core_locked :: "nat \<Rightarrow> oc_state \<Rightarrow> oc_state" where
  "set_core_locked d st = st\<lparr>os_core_locked := (os_core_locked st)(d := True)\<rparr>"

definition set_mem_locked :: "nat \<Rightarrow> oc_state \<Rightarrow> oc_state" where
  "set_mem_locked d st = st\<lparr>os_mem_locked := (os_mem_locked st)(d := True)\<rparr>"

text \<open>The knobs in their order; a result that was not requested produces no line.\<close>

definition oc_knobs ::
    "'hw card_ops \<Rightarrow> nat \<Rightarrow> oc_request \<Rightarrow> ('hw \<times> oc_state \<Rightarrow> oc_result \<times> 'hw \<times> oc_state) list" where
  "oc_knobs ops d req =
    [oc_apply_power_limit ops d (oq_pl req),
     apply_offset (oq_coff req) d ''--coff'' (op_core_read ops) (op_core_write ops) (set_coff d) ''Core'' False,
     apply_offset (oq_moff req) d ''--moff'' (op_mem_read ops) (op_mem_write ops) (set_moff d) ''Memory'' True,
     apply_lock (oq_cclk req) d ''--cclk'' (op_max_core ops) (op_lock_core ops) (set_core_locked d) ''Core'',
     apply_lock (oq_mclk req) d ''--mclk'' (op_max_mem ops) (op_lock_mem ops) (set_mem_locked d) ''Memory'',
     apply_fan ops (oq_fan req) d]"

fun run_knobs :: "('s \<Rightarrow> oc_result \<times> 's) list \<Rightarrow> 's \<Rightarrow> oc_result list \<times> 's" where
  "run_knobs [] s = ([], s)"
| "run_knobs (k # ks) s =
    (let (r, s) = k s; (rs, s) = run_knobs ks s
     in (if or_status r \<noteq> NotRequested then r # rs else rs, s))"

definition oc_apply :: "'hw card_ops \<Rightarrow> nat \<Rightarrow> oc_request \<Rightarrow> 'hw \<times> oc_state \<Rightarrow> oc_result list \<times> 'hw \<times> oc_state" where
  "oc_apply ops device req s =
    (if device \<ge> kMaxOcDevices then
       ([oc_result0\<lparr>or_device := device, or_status := OcFailed,
           or_message := ''overclock: device index out of range for restore bookkeeping''\<rparr>], s)
     else run_knobs (oc_knobs ops device req) s)"

definition device_pending :: "oc_state \<Rightarrow> nat \<Rightarrow> bool" where
  "device_pending st d \<longleftrightarrow> os_prev_pl_w st d \<noteq> 0 \<or> os_coff_applied st d \<or> os_moff_applied st d \<or>
    os_core_locked st d \<or> os_mem_locked st d \<or> os_fan_applied st d"

definition oc_has_pending_restore :: "oc_state \<Rightarrow> bool" where
  "oc_has_pending_restore st = (os_restore_enabled st \<and> list_ex (device_pending st) [0..<kMaxOcDevices])"

text \<open>\<open>if (flag.exchange(false)) (void) call;\<close>\<close>

definition undo_if :: "bool \<Rightarrow> ('hw \<Rightarrow> nvml_write \<times> 'hw) \<Rightarrow> 'hw \<Rightarrow> 'hw" where
  "undo_if b f hw = (if b then snd (f hw) else hw)"

definition restore_device :: "'hw card_ops \<Rightarrow> nat \<Rightarrow> 'hw \<times> oc_state \<Rightarrow> 'hw \<times> oc_state" where
  "restore_device ops d s =
    (case s of (hw, st) \<Rightarrow>
       let hw = (if os_fan_applied st d
                 then fold (\<lambda>i hw. snd (op_fan_reset ops d i hw)) [0..<unat (os_fan_count st d)] hw else hw);
           hw = undo_if (os_mem_locked st d) (op_unlock_mem ops d) hw;
           hw = undo_if (os_core_locked st d) (op_unlock_core ops d) hw;
           hw = undo_if (os_moff_applied st d) (op_mem_write ops d (os_prev_moff st d)) hw;
           hw = undo_if (os_coff_applied st d) (op_core_write ops d (os_prev_coff st d)) hw;
           hw = undo_if (os_prev_pl_w st d \<noteq> 0) (op_pl_write ops d (os_prev_pl_w st d)) hw
       in (hw, st\<lparr>os_fan_count := (if os_fan_applied st d then (os_fan_count st)(d := 0) else os_fan_count st),
                  os_fan_applied := (os_fan_applied st)(d := False),
                  os_mem_locked := (os_mem_locked st)(d := False), os_core_locked := (os_core_locked st)(d := False),
                  os_prev_moff := (if os_moff_applied st d then (os_prev_moff st)(d := 0) else os_prev_moff st),
                  os_moff_applied := (os_moff_applied st)(d := False),
                  os_prev_coff := (if os_coff_applied st d then (os_prev_coff st)(d := 0) else os_prev_coff st),
                  os_coff_applied := (os_coff_applied st)(d := False),
                  os_prev_pl_w := (os_prev_pl_w st)(d := 0)\<rparr>))"

definition oc_restore :: "'hw card_ops \<Rightarrow> 'hw \<times> oc_state \<Rightarrow> 'hw \<times> oc_state" where
  "oc_restore ops s =
    (if \<not> os_restore_enabled (snd s) then s else fold (restore_device ops) [0..<kMaxOcDevices] s)"


text \<open>The loop of \<open>main\<close> over the selected cards, each with its own request.\<close>

definition oc_apply_all :: "'hw card_ops \<Rightarrow> (nat \<times> oc_request) list \<Rightarrow> 'hw \<times> oc_state \<Rightarrow> 'hw \<times> oc_state" where
  "oc_apply_all ops xs s = fold (\<lambda>(d, req) s. snd (oc_apply ops d req s)) xs s"

section \<open>What the driver promises\<close>

text \<open>What the knobs of one card are set to; \<open>None\<close> is the driver's own management.\<close>

record card =
  cd_pl :: u32
  cd_coff :: int
  cd_moff :: int
  cd_core_lock :: "(u32 \<times> u32) option"
  cd_mem_lock :: "(u32 \<times> u32) option"
  cd_fans :: "nat \<Rightarrow> u32 option"

datatype knob = PowerLimit u32 | CoreOffset int | MemOffset int | CoreLock u32 u32 | CoreFree |
  MemLock u32 u32 | MemFree | FanSpeed nat u32 | FanAuto nat

text \<open>
  A write reaches the card it names and nothing else. The driver accepts or refuses each by what is
  written, the value included, and by the card: a missing permission, a missing knob and a value out
  of its band are all refusals, and a refused write changes nothing.
\<close>

definition writes ::
    "('hw \<Rightarrow> nat \<Rightarrow> card) \<Rightarrow> (knob \<Rightarrow> nat \<Rightarrow> bool) \<Rightarrow> ('hw \<Rightarrow> nvml_write \<times> 'hw) \<Rightarrow> knob \<Rightarrow> nat \<Rightarrow>
     (card \<Rightarrow> card) \<Rightarrow> bool" where
  "writes view ok f k d upd \<longleftrightarrow>
    (\<forall>hw w hw'. f hw = (w, hw') \<longrightarrow> (w = Ok \<longleftrightarrow> ok k d) \<and>
      view hw' = (if ok k d then (view hw)(d := upd (view hw d)) else view hw))"

definition faithful :: "'hw card_ops \<Rightarrow> ('hw \<Rightarrow> nat \<Rightarrow> card) \<Rightarrow> (knob \<Rightarrow> nat \<Rightarrow> bool) \<Rightarrow> bool" where
  "faithful ops view ok \<longleftrightarrow>
    (\<forall>hw d pl. op_pl_read ops hw d = Some pl \<longrightarrow> pl_current_w pl = cd_pl (view hw d)) \<and>
    (\<forall>hw d c. op_core_read ops hw d = Some c \<longrightarrow> co_current_mhz c = cd_coff (view hw d)) \<and>
    (\<forall>hw d c. op_mem_read ops hw d = Some c \<longrightarrow> co_current_mhz c = cd_moff (view hw d)) \<and>
    (\<forall>d v. writes view ok (op_pl_write ops d v) (PowerLimit v) d (\<lambda>c. c\<lparr>cd_pl := v\<rparr>)) \<and>
    (\<forall>d v. writes view ok (op_core_write ops d v) (CoreOffset v) d (\<lambda>c. c\<lparr>cd_coff := v\<rparr>)) \<and>
    (\<forall>d v. writes view ok (op_mem_write ops d v) (MemOffset v) d (\<lambda>c. c\<lparr>cd_moff := v\<rparr>)) \<and>
    (\<forall>d a b. writes view ok (op_lock_core ops d a b) (CoreLock a b) d (\<lambda>c. c\<lparr>cd_core_lock := Some (a, b)\<rparr>)) \<and>
    (\<forall>d. writes view ok (op_unlock_core ops d) CoreFree d (\<lambda>c. c\<lparr>cd_core_lock := None\<rparr>)) \<and>
    (\<forall>d a b. writes view ok (op_lock_mem ops d a b) (MemLock a b) d (\<lambda>c. c\<lparr>cd_mem_lock := Some (a, b)\<rparr>)) \<and>
    (\<forall>d. writes view ok (op_unlock_mem ops d) MemFree d (\<lambda>c. c\<lparr>cd_mem_lock := None\<rparr>)) \<and>
    (\<forall>d i p. writes view ok (op_fan_write ops d i p) (FanSpeed i p) d (\<lambda>c. c\<lparr>cd_fans := (cd_fans c)(i := Some p)\<rparr>)) \<and>
    (\<forall>d i. writes view ok (op_fan_reset ops d i) (FanAuto i) d (\<lambda>c. c\<lparr>cd_fans := (cd_fans c)(i := None)\<rparr>))"

text \<open>
  Where a card accepts any setting of a knob, it accepts back the setting it had, and lets the knob go.
\<close>

definition takes_back :: "(knob \<Rightarrow> nat \<Rightarrow> bool) \<Rightarrow> nat \<Rightarrow> card \<Rightarrow> bool" where
  "takes_back ok d c \<longleftrightarrow>
    (\<forall>w. ok (PowerLimit w) d \<longrightarrow> ok (PowerLimit (cd_pl c)) d) \<and>
    (\<forall>i. ok (CoreOffset i) d \<longrightarrow> ok (CoreOffset (cd_coff c)) d) \<and>
    (\<forall>i. ok (MemOffset i) d \<longrightarrow> ok (MemOffset (cd_moff c)) d) \<and>
    (\<forall>a b. ok (CoreLock a b) d \<longrightarrow> ok CoreFree d) \<and>
    (\<forall>a b. ok (MemLock a b) d \<longrightarrow> ok MemFree d) \<and>
    (\<forall>i p. ok (FanSpeed i p) d \<longrightarrow> ok (FanAuto i) d)"

section \<open>The restore undoes the apply\<close>

text \<open>Card \<open>d\<close>, whose knobs are now \<open>v\<close>, can be put back to \<open>v0\<close> from the bookkeeping.\<close>

definition undoable :: "(knob \<Rightarrow> nat \<Rightarrow> bool) \<Rightarrow> nat \<Rightarrow> card \<Rightarrow> card \<Rightarrow> oc_state \<Rightarrow> bool" where
  "undoable ok d v0 v st \<longleftrightarrow>
    (if os_prev_pl_w st d \<noteq> 0 then os_prev_pl_w st d = cd_pl v0 \<and> ok (PowerLimit (cd_pl v0)) d else cd_pl v = cd_pl v0) \<and>
    (if os_coff_applied st d then os_prev_coff st d = cd_coff v0 \<and> ok (CoreOffset (cd_coff v0)) d else cd_coff v = cd_coff v0) \<and>
    (if os_moff_applied st d then os_prev_moff st d = cd_moff v0 \<and> ok (MemOffset (cd_moff v0)) d else cd_moff v = cd_moff v0) \<and>
    (if os_core_locked st d then ok CoreFree d else cd_core_lock v = cd_core_lock v0) \<and>
    (if os_mem_locked st d then ok MemFree d else cd_mem_lock v = cd_mem_lock v0) \<and>
    (if os_fan_applied st d
     then (\<forall>i < unat (os_fan_count st d). ok (FanAuto i) d) \<and>
       (\<forall>i \<ge> unat (os_fan_count st d). cd_fans v i = cd_fans v0 i)
     else cd_fans v = cd_fans v0)"

text \<open>
  What the restore makes of card \<open>d\<close>: the limit and the offsets it had; a lock or a fan speed the miner
  wrote is handed to the driver, one it did not write is as it was.
\<close>

definition given_back :: "oc_state \<Rightarrow> nat \<Rightarrow> card \<Rightarrow> card" where
  "given_back st d c = c\<lparr>
     cd_core_lock := (if os_core_locked st d then None else cd_core_lock c),
     cd_mem_lock := (if os_mem_locked st d then None else cd_mem_lock c),
     cd_fans := (\<lambda>i. if os_fan_applied st d \<and> i < unat (os_fan_count st d) then None else cd_fans c i)\<rparr>"

text \<open>A card with a power limit to return to, and one under the driver's own management.\<close>

definition limited :: "card \<Rightarrow> bool" where
  "limited c \<longleftrightarrow> cd_pl c \<noteq> 0"

definition unmanaged :: "card \<Rightarrow> bool" where
  "unmanaged c \<longleftrightarrow> cd_core_lock c = None \<and> cd_mem_lock c = None \<and> cd_fans c = (\<lambda>_. None)"

lemma given_back_unmanaged: "unmanaged c \<Longrightarrow> given_back st d c = c"
  by (rule card.equality) (auto simp: given_back_def unmanaged_def fun_eq_iff)

text \<open>What a step for card \<open>d\<close> leaves alone.\<close>

definition same_elsewhere :: "nat \<Rightarrow> ('hw \<Rightarrow> nat \<Rightarrow> card) \<Rightarrow> 'hw \<times> oc_state \<Rightarrow> 'hw \<times> oc_state \<Rightarrow> bool" where
  "same_elsewhere d view s s' \<longleftrightarrow>
    os_restore_enabled (snd s') = os_restore_enabled (snd s) \<and>
    (\<forall>e. e \<noteq> d \<longrightarrow> view (fst s') e = view (fst s) e \<and>
      os_prev_pl_w (snd s') e = os_prev_pl_w (snd s) e \<and>
      os_coff_applied (snd s') e = os_coff_applied (snd s) e \<and> os_prev_coff (snd s') e = os_prev_coff (snd s) e \<and>
      os_moff_applied (snd s') e = os_moff_applied (snd s) e \<and> os_prev_moff (snd s') e = os_prev_moff (snd s) e \<and>
      os_core_locked (snd s') e = os_core_locked (snd s) e \<and> os_mem_locked (snd s') e = os_mem_locked (snd s) e \<and>
      os_fan_applied (snd s') e = os_fan_applied (snd s) e \<and> os_fan_count (snd s') e = os_fan_count (snd s) e)"

lemma same_refl [simp]: "same_elsewhere d view s s"
  by (simp add: same_elsewhere_def)

lemma same_trans: "same_elsewhere d view s s' \<Longrightarrow> same_elsewhere d view s' s'' \<Longrightarrow> same_elsewhere d view s s''"
  by (simp add: same_elsewhere_def)

text \<open>The knobs of card \<open>d\<close> that were already written.\<close>

definition pending_knobs :: "oc_state \<Rightarrow> nat \<Rightarrow> bool list" where
  "pending_knobs st d = [os_prev_pl_w st d \<noteq> 0, os_coff_applied st d, os_moff_applied st d, os_core_locked st d,
     os_mem_locked st d, os_fan_applied st d]"

text \<open>
  The step of knob number \<open>k\<close>, when it was not written before: the card stays undoable, other cards
  and later knobs are left alone.
\<close>

definition knob_step :: "(knob \<Rightarrow> nat \<Rightarrow> bool) \<Rightarrow> nat \<Rightarrow> ('hw \<Rightarrow> nat \<Rightarrow> card) \<Rightarrow> card \<Rightarrow> nat \<Rightarrow>
    ('hw \<times> oc_state \<Rightarrow> oc_result \<times> 'hw \<times> oc_state) \<Rightarrow> bool" where
  "knob_step ok d view v0 k f \<longleftrightarrow>
    (\<forall>s r s'. f s = (r, s') \<longrightarrow> undoable ok d v0 (view (fst s) d) (snd s) \<longrightarrow> \<not> pending_knobs (snd s) d ! k \<longrightarrow>
      undoable ok d v0 (view (fst s') d) (snd s') \<and> same_elsewhere d view s s' \<and>
      (\<forall>j. k < j \<longrightarrow> j < 6 \<longrightarrow> pending_knobs (snd s') d ! j = pending_knobs (snd s) d ! j))"

lemma writesD:
  assumes "writes view ok f k d upd" "f hw = (w, hw')"
  shows "w = Ok \<longleftrightarrow> ok k d" "view hw' = (if ok k d then (view hw)(d := upd (view hw d)) else view hw)"
  using assms unfolding writes_def by blast+

lemma faithfulD:
  assumes "faithful ops view ok"
  shows "op_pl_read ops hw d = Some pl \<Longrightarrow> pl_current_w pl = cd_pl (view hw d)"
    "op_core_read ops hw d = Some c \<Longrightarrow> co_current_mhz c = cd_coff (view hw d)"
    "op_mem_read ops hw d = Some c \<Longrightarrow> co_current_mhz c = cd_moff (view hw d)"
    "writes view ok (op_pl_write ops d v) (PowerLimit v) d (\<lambda>c. c\<lparr>cd_pl := v\<rparr>)"
    "writes view ok (op_core_write ops d i) (CoreOffset i) d (\<lambda>c. c\<lparr>cd_coff := i\<rparr>)"
    "writes view ok (op_mem_write ops d i) (MemOffset i) d (\<lambda>c. c\<lparr>cd_moff := i\<rparr>)"
    "writes view ok (op_lock_core ops d a b) (CoreLock a b) d (\<lambda>c. c\<lparr>cd_core_lock := Some (a, b)\<rparr>)"
    "writes view ok (op_unlock_core ops d) CoreFree d (\<lambda>c. c\<lparr>cd_core_lock := None\<rparr>)"
    "writes view ok (op_lock_mem ops d a b) (MemLock a b) d (\<lambda>c. c\<lparr>cd_mem_lock := Some (a, b)\<rparr>)"
    "writes view ok (op_unlock_mem ops d) MemFree d (\<lambda>c. c\<lparr>cd_mem_lock := None\<rparr>)"
    "writes view ok (op_fan_write ops d n p) (FanSpeed n p) d (\<lambda>c. c\<lparr>cd_fans := (cd_fans c)(n := Some p)\<rparr>)"
    "writes view ok (op_fan_reset ops d n) (FanAuto n) d (\<lambda>c. c\<lparr>cd_fans := (cd_fans c)(n := None)\<rparr>)"
  using assms by (simp_all add: faithful_def)

definition knob_ok :: "(knob \<Rightarrow> nat \<Rightarrow> bool) \<Rightarrow> nat \<Rightarrow> ('hw \<Rightarrow> nat \<Rightarrow> card) \<Rightarrow> card \<Rightarrow> nat \<Rightarrow>
    'hw \<times> oc_state \<Rightarrow> 'hw \<times> oc_state \<Rightarrow> bool" where
  "knob_ok ok d view v0 k s s' \<longleftrightarrow>
    undoable ok d v0 (view (fst s') d) (snd s') \<and> same_elsewhere d view s s' \<and>
    (\<forall>j. k < j \<longrightarrow> j < 6 \<longrightarrow> pending_knobs (snd s') d ! j = pending_knobs (snd s) d ! j)"

lemma knob_stepI:
  assumes "\<And>hw st r s'. f (hw, st) = (r, s') \<Longrightarrow> undoable ok d v0 (view hw d) st \<Longrightarrow>
      \<not> pending_knobs st d ! k \<Longrightarrow> s' \<noteq> (hw, st) \<Longrightarrow> knob_ok ok d view v0 k (hw, st) s'"
  shows "knob_step ok d view v0 k f"
  unfolding knob_step_def
proof (intro allI impI)
  fix s r s'
  assume a: "f s = (r, s')" and u: "undoable ok d v0 (view (fst s) d) (snd s)" and n: "\<not> pending_knobs (snd s) d ! k"
  obtain hw st where s: "s = (hw, st)" by (cases s)
  show "undoable ok d v0 (view (fst s') d) (snd s') \<and> same_elsewhere d view s s' \<and>
      (\<forall>j. k < j \<longrightarrow> j < 6 \<longrightarrow> pending_knobs (snd s') d ! j = pending_knobs (snd s) d ! j)"
    using assms [OF a [unfolded s]] u n s by (cases "s' = s") (auto simp: knob_ok_def)
qed

text \<open>One write and, if it was accepted, its record.\<close>

lemma knob_write:
  assumes "g hw = (w, hw')" "writes view ok g kn d upd" "s' = (hw', if w = Ok then mark st else st)"
    and "undoable ok d v0 (view hw d) st"
    and "ok kn d \<Longrightarrow> undoable ok d v0 (upd (view hw d)) (mark st)"
    and "\<And>x. same_elsewhere d view (x, st) (x, mark st)"
    and "\<And>j. k < j \<Longrightarrow> j < 6 \<Longrightarrow> pending_knobs (mark st) d ! j = pending_knobs st d ! j"
  shows "knob_ok ok d view v0 k (hw, st) s'"
proof -
  note w = writesD [OF assms(2,1)]
  show ?thesis
  proof (cases "ok kn d")
    case True
    have "same_elsewhere d view (hw, st) (hw', mark st)"
      using assms(6) w True by (simp add: same_elsewhere_def)
    with True w assms show ?thesis by (simp add: knob_ok_def)
  next
    case False
    with w assms show ?thesis by (simp add: knob_ok_def same_elsewhere_def)
  qed
qed

lemmas knob_facts = undoable_def same_elsewhere_def oc_install_restore_hooks_def pending_knobs_def set_coff_def
  set_moff_def set_core_locked_def set_mem_locked_def limited_def takes_back_def

lemma less_6: "j < 6 \<longleftrightarrow> j = 0 \<or> j = 1 \<or> j = 2 \<or> j = 3 \<or> j = 4 \<or> j = (5::nat)"
  by auto

lemma pl_step:
  assumes "faithful ops view ok" "limited v0" "takes_back ok d v0"
  shows "knob_step ok d view v0 0 (oc_apply_power_limit ops d spec)"
proof (rule knob_stepI)
  fix hw st r s'
  assume a: "oc_apply_power_limit ops d spec (hw, st) = (r, s')" "s' \<noteq> (hw, st)"
    and u: "undoable ok d v0 (view hw d) st" and n: "\<not> pending_knobs st d ! 0"
  note F = faithfulD [OF assms(1)]
  from a obtain pl target w hw' where rd: "op_pl_read ops hw d = Some pl"
    and wr: "op_pl_write ops d (word_of_int target) hw = (w, hw')"
    and s': "s' = (hw', if w = Ok then oc_install_restore_hooks (st\<lparr>os_prev_pl_w := (os_prev_pl_w st)(d := pl_current_w pl)\<rparr>) else st)"
    by (auto simp: oc_apply_power_limit_def Let_def split: prod.splits bool.splits option.splits if_splits)
  show "knob_ok ok d view v0 0 (hw, st) s'"
    by (rule knob_write [OF wr F(4), where mark = "\<lambda>st. oc_install_restore_hooks (st\<lparr>os_prev_pl_w := (os_prev_pl_w st)(d := pl_current_w pl)\<rparr>)"])
      (use s' u n F(1) [OF rd] assms(2,3) in \<open>auto simp: knob_facts less_6\<close>)
qed

lemma offset_step:
  assumes rdv: "\<And>hw c. rd hw d = Some c \<Longrightarrow> co_current_mhz c = get (view hw d)"
    and wrv: "\<And>i. writes view ok (wr d i) (kn i) d (upd i)"
    and m: "\<And>i p v st. ok (kn i) d \<Longrightarrow> undoable ok d v0 v st \<Longrightarrow> \<not> pending_knobs st d ! k \<Longrightarrow> p = get v \<Longrightarrow>
      undoable ok d v0 (upd i v) (oc_install_restore_hooks (mk p st))"
    and e: "\<And>x p st. same_elsewhere d view (x, st) (x, oc_install_restore_hooks (mk p st))"
    and q: "\<And>j p st. k < j \<Longrightarrow> j < 6 \<Longrightarrow> pending_knobs (oc_install_restore_hooks (mk p st)) d ! j = pending_knobs st d ! j"
  shows "knob_step ok d view v0 k (apply_offset spec d knob rd wr mk domain tr)"
proof (rule knob_stepI)
  fix hw st r s'
  assume a: "apply_offset spec d knob rd wr mk domain tr (hw, st) = (r, s')" "s' \<noteq> (hw, st)"
    and u: "undoable ok d v0 (view hw d) st" and n: "\<not> pending_knobs st d ! k"
  from a obtain c i w hw' where c: "rd hw d = Some c" and wr: "wr d i hw = (w, hw')"
    and s': "s' = (hw', if w = Ok then oc_install_restore_hooks (mk (co_current_mhz c) st) else st)"
    by (auto simp: apply_offset_def Let_def split: prod.splits bool.splits option.splits if_splits)
  show "knob_ok ok d view v0 k (hw, st) s'"
    by (rule knob_write [OF wr wrv, where mark = "\<lambda>st. oc_install_restore_hooks (mk (co_current_mhz c) st)"])
      (use s' u n m [OF _ u n rdv [OF c]] e q in auto)
qed

lemma lock_step:
  assumes wrv: "\<And>a. writes view ok (lock d a a) (kn a) d (upd a)"
    and m: "\<And>a v st. ok (kn a) d \<Longrightarrow> undoable ok d v0 v st \<Longrightarrow> undoable ok d v0 (upd a v) (oc_install_restore_hooks (mk st))"
    and e: "\<And>x st. same_elsewhere d view (x, st) (x, oc_install_restore_hooks (mk st))"
    and q: "\<And>j st. k < j \<Longrightarrow> j < 6 \<Longrightarrow> pending_knobs (oc_install_restore_hooks (mk st)) d ! j = pending_knobs st d ! j"
  shows "knob_step ok d view v0 k (apply_lock spec d knob mx lock mk domain)"
proof (rule knob_stepI)
  fix hw st r s'
  assume a: "apply_lock spec d knob mx lock mk domain (hw, st) = (r, s')" "s' \<noteq> (hw, st)"
    and u: "undoable ok d v0 (view hw d) st" and n: "\<not> pending_knobs st d ! k"
  from a obtain c w hw' where wr: "lock d c c hw = (w, hw')"
    and s': "s' = (hw', if w = Ok then oc_install_restore_hooks (mk st) else st)"
    by (auto simp: apply_lock_def Let_def split: prod.splits bool.splits if_splits)
  show "knob_ok ok d view v0 k (hw, st) s'"
    by (rule knob_write [OF wr wrv, where mark = "\<lambda>st. oc_install_restore_hooks (mk st)"])
      (use s' u m [OF _ u] e q in auto)
qed


lemma write_fans_spec:
  assumes wr: "\<And>i. writes view ok (wr d i p) (FanSpeed i p) d (\<lambda>c. c\<lparr>cd_fans := (cd_fans c)(i := Some p)\<rparr>)"
  shows "write_fans wr d p [k..<n] (word_of_nat k) w0 hw = (w, took, hw') \<Longrightarrow> k \<le> n \<Longrightarrow>
    \<exists>m. k \<le> m \<and> m \<le> n \<and> took = word_of_nat m \<and> (\<forall>i. k \<le> i \<and> i < m \<longrightarrow> ok (FanSpeed i p) d) \<and>
      view hw' = (view hw)(d := (view hw d)\<lparr>cd_fans := (\<lambda>i. if k \<le> i \<and> i < m then Some p else cd_fans (view hw d) i)\<rparr>)"
proof (induction "n - k" arbitrary: k w0 hw)
  case 0
  then have "k = n" by simp
  with 0 show ?case by (intro exI [of _ n]) (auto simp: fun_eq_iff intro!: card.equality)
next
  case (Suc x)
  then have k: "k < n" by simp
  obtain w1 hw1 where s: "wr d k p hw = (w1, hw1)" by (cases "wr d k p hw")
  note W = writesD [OF wr s]
  show ?case
  proof (cases "w1 = Ok")
    case False
    with Suc.prems k s W show ?thesis by (intro exI [of _ k]) (auto simp: upt_conv_Cons fun_eq_iff intro!: card.equality)
  next
    case True
    with Suc.prems(1) k s have "write_fans wr d p [Suc k..<n] (word_of_nat (Suc k)) Ok hw1 = (w, took, hw')"
      by (simp add: upt_conv_Cons add.commute)
    moreover have "x = n - Suc k" using Suc.hyps(2) by simp
    ultimately obtain m where m: "Suc k \<le> m" "m \<le> n" "took = word_of_nat m"
      "\<And>i. Suc k \<le> i \<Longrightarrow> i < m \<Longrightarrow> ok (FanSpeed i p) d"
      "view hw' = (view hw1)(d := (view hw1 d)\<lparr>cd_fans := (\<lambda>i. if Suc k \<le> i \<and> i < m then Some p else cd_fans (view hw1 d) i)\<rparr>)"
      using Suc.hyps(1) [of "Suc k" Ok hw1] k by auto
    have "ok (FanSpeed i p) d" if "k \<le> i" "i < m" for i
      using that m(4) [of i] W(1) True by (cases "i = k") auto
    moreover have "view hw' = (view hw)(d := (view hw d)\<lparr>cd_fans := (\<lambda>i. if k \<le> i \<and> i < m then Some p else cd_fans (view hw d) i)\<rparr>)"
      unfolding m(5) using W True m(1) by (auto simp: fun_eq_iff intro!: card.equality)
    ultimately show ?thesis using m(1-3) by (intro exI [of _ m]) auto
  qed
qed

lemma fan_step:
  assumes "faithful ops view ok" "takes_back ok d v0"
  shows "knob_step ok d view v0 5 (apply_fan ops spec d)"
proof (rule knob_stepI)
  fix hw st r s'
  assume a: "apply_fan ops spec d (hw, st) = (r, s')" "s' \<noteq> (hw, st)"
    and u: "undoable ok d v0 (view hw d) st" and n: "\<not> pending_knobs st d ! 5"
  let ?mark = "\<lambda>took. oc_install_restore_hooks (st\<lparr>os_fan_count := (os_fan_count st)(d := took),
                         os_fan_applied := (os_fan_applied st)(d := True)\<rparr>)"
  obtain r0 b where w0: "want spec d ''--fan'' True = (r0, b)" by (cases "want spec d ''--fan'' True")
  with a have b: "b" by (cases b) (simp_all add: apply_fan_def)
  with w0 a have r0: "\<not> or_requested r0 < 0" by (cases "or_requested r0 < 0") (simp_all add: apply_fan_def)
  with w0 a b obtain f where rd: "op_fan_read ops hw d = Some f"
    by (cases "op_fan_read ops hw d") (simp_all add: apply_fan_def)
  obtain t0 c0 where c: "clamp_to (or_requested r0) (uint (fi_min_pct f)) (uint (fi_max_pct f)) = (t0, c0)"
    by (cases "clamp_to (or_requested r0) (uint (fi_min_pct f)) (uint (fi_max_pct f))")
  define p :: u32 where "p = word_of_int (if t0 > 100 then 100 else t0)"
  obtain w took hw' where f: "write_fans (op_fan_write ops) d p [0..<unat (fi_count f)] 0 Ok hw = (w, took, hw')"
    by (cases "write_fans (op_fan_write ops) d p [0..<unat (fi_count f)] 0 Ok hw")
  have s': "s' = (hw', if took = 0 then st else ?mark took)"
    using a(1) w0 b r0 rd c f by (auto simp: apply_fan_def p_def Let_def split: if_splits)
  from write_fans_spec [of view ok "op_fan_write ops" d p 0, OF faithfulD(11) [OF assms(1)]] f
  obtain m where m: "m \<le> unat (fi_count f)" "took = word_of_nat m" "\<And>i. i < m \<Longrightarrow> ok (FanSpeed i p) d"
    "view hw' = (view hw)(d := (view hw d)\<lparr>cd_fans := (\<lambda>i. if i < m then Some p else cd_fans (view hw d) i)\<rparr>)"
    by fastforce
  have "unat (fi_count f) < 2 ^ 32" using unsigned_less [of "fi_count f"] by simp
  with m(1) have "m < 2 ^ 32" by simp
  then have t: "unat took = m" unfolding m(2) by (simp add: unsigned_of_nat take_bit_nat_eq_self)
  then have z: "took = 0 \<longleftrightarrow> m = 0" by (metis unsigned_0 unsigned_word_eqI)
  show "knob_ok ok d view v0 5 (hw, st) s'"
  proof (cases "m = 0")
    case True
    then have "view hw' = view hw" using m(4) by (auto simp: fun_eq_iff intro!: card.equality)
    with True z s' u show ?thesis by (simp add: knob_ok_def same_elsewhere_def)
  next
    case False
    have "\<And>i. i < m \<Longrightarrow> ok (FanAuto i) d" using m(3) assms(2) by (auto simp: takes_back_def)
    with False z s' m(4) t u n show ?thesis by (auto simp: knob_ok_def knob_facts split: if_splits)
  qed
qed

lemma knob_stepD:
  assumes "knob_step ok d view v0 k f" "f s = (r, s')" "undoable ok d v0 (view (fst s) d) (snd s)"
    "\<not> pending_knobs (snd s) d ! k"
  shows "undoable ok d v0 (view (fst s') d) (snd s') \<and> same_elsewhere d view s s' \<and>
      (\<forall>j. k < j \<longrightarrow> j < 6 \<longrightarrow> pending_knobs (snd s') d ! j = pending_knobs (snd s) d ! j)"
  using assms unfolding knob_step_def by blast

text \<open>All six, in order, from a card none of whose knobs was written.\<close>

lemma run_knobs_undoable:
  assumes "\<And>k. k < length fs \<Longrightarrow> knob_step ok d view v0 (i + k) (fs ! k)" "i + length fs = 6"
  shows "run_knobs fs s = (rs, s') \<Longrightarrow> undoable ok d v0 (view (fst s) d) (snd s) \<Longrightarrow>
    (\<forall>j. i \<le> j \<longrightarrow> j < 6 \<longrightarrow> \<not> pending_knobs (snd s) d ! j) \<Longrightarrow>
    undoable ok d v0 (view (fst s') d) (snd s') \<and> same_elsewhere d view s s'"
  using assms
proof (induction fs arbitrary: i s rs s')
  case Nil
  then show ?case by simp
next
  case (Cons f fs)
  obtain r s1 where f: "f s = (r, s1)" by (cases "f s")
  obtain rs1 s2 where fs: "run_knobs fs s1 = (rs1, s2)" by (cases "run_knobs fs s1")
  from Cons.prems(1) f fs have s': "s' = s2" by (auto simp: Let_def split: if_splits)
  have "knob_step ok d view v0 i f" using Cons.prems(4) [of 0] by simp
  moreover have "\<not> pending_knobs (snd s) d ! i" using Cons.prems(3,5) by simp
  ultimately have K: "undoable ok d v0 (view (fst s1) d) (snd s1)" "same_elsewhere d view s s1"
    "\<forall>j. i < j \<longrightarrow> j < 6 \<longrightarrow> pending_knobs (snd s1) d ! j = pending_knobs (snd s) d ! j"
    using knob_stepD [of ok d view v0 i f s r s1, OF _ f Cons.prems(2)] by blast+
  have "undoable ok d v0 (view (fst s2) d) (snd s2) \<and> same_elsewhere d view s1 s2"
  proof (rule Cons.IH [OF fs K(1), of "Suc i"])
    show "\<forall>j. Suc i \<le> j \<longrightarrow> j < 6 \<longrightarrow> \<not> pending_knobs (snd s1) d ! j" using K(3) Cons.prems(3) by simp
    show "knob_step ok d view v0 (Suc i + k) (fs ! k)" if "k < length fs" for k
      using Cons.prems(4) [of "Suc k"] that by simp
    show "Suc i + length fs = 6" using Cons.prems(5) by simp
  qed
  with K(2) show ?case unfolding s' using same_trans by blast
qed

lemma oc_apply_undoable:
  assumes F: "faithful ops view ok" and v0: "limited v0" "takes_back ok d v0"
    and "oc_apply ops d req s = (rs, s')" "undoable ok d v0 (view (fst s) d) (snd s)" "\<not> device_pending (snd s) d"
  shows "undoable ok d v0 (view (fst s') d) (snd s') \<and> same_elsewhere d view s s'"
proof (cases "d \<ge> kMaxOcDevices")
  case True
  with assms(4,5) show ?thesis by (simp add: oc_apply_def)
next
  case False
  note D = faithfulD [OF F]
  have "knob_step ok d view v0 0 (oc_apply_power_limit ops d (oq_pl req))" by (rule pl_step [OF F v0])
  moreover have "knob_step ok d view v0 1
      (apply_offset (oq_coff req) d ''--coff'' (op_core_read ops) (op_core_write ops) (set_coff d) ''Core'' False)"
    by (rule offset_step [where get = cd_coff, OF _ D(5)]) (use D(2) v0(2) in \<open>auto simp: knob_facts less_6\<close>)
  moreover have "knob_step ok d view v0 2
      (apply_offset (oq_moff req) d ''--moff'' (op_mem_read ops) (op_mem_write ops) (set_moff d) ''Memory'' True)"
    by (rule offset_step [where get = cd_moff, OF _ D(6)]) (use D(3) v0(2) in \<open>auto simp: knob_facts less_6\<close>)
  moreover have "knob_step ok d view v0 3
      (apply_lock (oq_cclk req) d ''--cclk'' (op_max_core ops) (op_lock_core ops) (set_core_locked d) ''Core'')"
    by (rule lock_step [OF D(7)]) (use v0(2) in \<open>auto simp: knob_facts less_6\<close>)
  moreover have "knob_step ok d view v0 4
      (apply_lock (oq_mclk req) d ''--mclk'' (op_max_mem ops) (op_lock_mem ops) (set_mem_locked d) ''Memory'')"
    by (rule lock_step [OF D(9)]) (use v0(2) in \<open>auto simp: knob_facts less_6\<close>)
  moreover have "knob_step ok d view v0 5 (apply_fan ops (oq_fan req) d)" by (rule fan_step [OF F v0(2)])
  ultimately have K: "\<And>k. k < length (oc_knobs ops d req) \<Longrightarrow> knob_step ok d view v0 (0 + k) (oc_knobs ops d req ! k)"
    by (auto simp: oc_knobs_def less_Suc_eq numeral_eq_Suc)
  have "run_knobs (oc_knobs ops d req) s = (rs, s')" using assms(4) False by (simp add: oc_apply_def)
  from run_knobs_undoable [OF K _ this assms(5)] assms(6) show ?thesis
    by (auto simp: oc_knobs_def pending_knobs_def device_pending_def less_6)
qed


text \<open>The restore of one card.\<close>

definition restored_card :: "nat \<Rightarrow> ('hw \<Rightarrow> nat \<Rightarrow> card) \<Rightarrow> 'hw \<Rightarrow> card \<Rightarrow> 'hw \<Rightarrow> bool" where
  "restored_card d view hw c hw' \<longleftrightarrow> view hw' = (view hw)(d := c)"

lemma undo_write:
  assumes "writes view ok f k d upd" "b \<Longrightarrow> ok k d" "view hw = v0(d := c)"
  shows "view (undo_if b f hw) = v0(d := if b then upd c else c)"
proof -
  obtain w hw' where f: "f hw = (w, hw')" by (cases "f hw")
  from writesD [OF assms(1) f] assms(2,3) f show ?thesis by (simp add: undo_if_def)
qed

lemma undo_fans:
  assumes wr: "\<And>i. writes view ok (f i) (FanAuto i) d (\<lambda>c. c\<lparr>cd_fans := (cd_fans c)(i := None)\<rparr>)"
    and ok: "\<And>i. i < n \<Longrightarrow> ok (FanAuto i) d" and c: "view hw = v0(d := c)"
  shows "view (fold (\<lambda>i hw. snd (f i hw)) [0..<n] hw) =
    v0(d := c\<lparr>cd_fans := (\<lambda>i. if i < n then None else cd_fans c i)\<rparr>)"
  using ok
proof (induction n)
  case 0
  then show ?case by (simp add: c)
next
  case (Suc n)
  let ?h = "fold (\<lambda>i hw. snd (f i hw)) [0..<n] hw"
  obtain w hw' where f: "f n ?h = (w, hw')" by (cases "f n ?h")
  have IH: "view ?h = v0(d := c\<lparr>cd_fans := (\<lambda>i. if i < n then None else cd_fans c i)\<rparr>)"
    by (rule Suc.IH) (use Suc.prems in simp)
  have "view hw' = v0(d := c\<lparr>cd_fans := (\<lambda>i. if i < n then None else cd_fans c i)(n := None)\<rparr>)"
    using writesD(2) [OF wr f] Suc.prems [of n] IH by simp
  also have "(\<lambda>i. if i < n then None else cd_fans c i)(n := None) = (\<lambda>i. if i < Suc n then None else cd_fans c i)"
    by (auto simp: fun_eq_iff)
  finally show ?case using f by simp
qed

lemma restore_device_undoes:
  assumes F: "faithful ops view ok" and u: "undoable ok d v0 (view hw d) st"
  shows "view (fst (restore_device ops d (hw, st))) = (view hw)(d := given_back st d v0)"
    "same_elsewhere d view (hw, st) (restore_device ops d (hw, st))"
proof -
  note D = faithfulD [OF F]
  define c where "c = view hw d"
  have h: "view hw = (view hw)(d := c)" by (simp add: c_def)
  note U = u [unfolded undoable_def c_def [symmetric]]
  define c1 where "c1 = (if os_fan_applied st d then c\<lparr>cd_fans := (\<lambda>i. if i < unat (os_fan_count st d) then None else cd_fans c i)\<rparr> else c)"
  define h1 where "h1 = (if os_fan_applied st d
    then fold (\<lambda>i hw. snd (op_fan_reset ops d i hw)) [0..<unat (os_fan_count st d)] hw else hw)"
  have 1: "view h1 = (view hw)(d := c1)"
  proof (cases "os_fan_applied st d")
    case True
    with U have "\<And>i. i < unat (os_fan_count st d) \<Longrightarrow> ok (FanAuto i) d" by simp
    from undo_fans [of view ok "op_fan_reset ops d" d, OF D(12) this h] True show ?thesis by (simp add: h1_def c1_def)
  next
    case False
    with h show ?thesis by (simp add: h1_def c1_def)
  qed
  define h2 where "h2 = undo_if (os_mem_locked st d) (op_unlock_mem ops d) h1"
  have 2: "view h2 = (view hw)(d := if os_mem_locked st d then c1\<lparr>cd_mem_lock := None\<rparr> else c1)" (is "_ = (view hw)(d := ?c2)")
    unfolding h2_def by (rule undo_write [OF D(10) _ 1]) (use U in \<open>simp split: if_splits\<close>)
  define h3 where "h3 = undo_if (os_core_locked st d) (op_unlock_core ops d) h2"
  have 3: "view h3 = (view hw)(d := if os_core_locked st d then ?c2\<lparr>cd_core_lock := None\<rparr> else ?c2)" (is "_ = (view hw)(d := ?c3)")
    unfolding h3_def by (rule undo_write [OF D(8) _ 2]) (use U in \<open>simp split: if_splits\<close>)
  define h4 where "h4 = undo_if (os_moff_applied st d) (op_mem_write ops d (os_prev_moff st d)) h3"
  have 4: "view h4 = (view hw)(d := if os_moff_applied st d then ?c3\<lparr>cd_moff := os_prev_moff st d\<rparr> else ?c3)" (is "_ = (view hw)(d := ?c4)")
    unfolding h4_def by (rule undo_write [OF D(6) _ 3]) (use U in \<open>simp split: if_splits\<close>)
  define h5 where "h5 = undo_if (os_coff_applied st d) (op_core_write ops d (os_prev_coff st d)) h4"
  have 5: "view h5 = (view hw)(d := if os_coff_applied st d then ?c4\<lparr>cd_coff := os_prev_coff st d\<rparr> else ?c4)" (is "_ = (view hw)(d := ?c5)")
    unfolding h5_def by (rule undo_write [OF D(5) _ 4]) (use U in \<open>simp split: if_splits\<close>)
  define h6 where "h6 = undo_if (os_prev_pl_w st d \<noteq> 0) (op_pl_write ops d (os_prev_pl_w st d)) h5"
  have 6: "view h6 = (view hw)(d := if os_prev_pl_w st d \<noteq> 0 then ?c5\<lparr>cd_pl := os_prev_pl_w st d\<rparr> else ?c5)" (is "_ = (view hw)(d := ?c6)")
    unfolding h6_def by (rule undo_write [OF D(4) _ 5]) (use U in \<open>simp split: if_splits\<close>)
  have hw': "fst (restore_device ops d (hw, st)) = h6"
    by (simp add: restore_device_def Let_def h6_def h5_def h4_def h3_def h2_def h1_def)
  have "?c6 = given_back st d v0"
  proof (rule card.equality)
    show "cd_fans ?c6 = cd_fans (given_back st d v0)"
      using U by (auto simp: c1_def given_back_def fun_eq_iff split: if_splits)
  qed (use U in \<open>auto simp: c1_def given_back_def\<close>)
  with 6 hw' show v: "view (fst (restore_device ops d (hw, st))) = (view hw)(d := given_back st d v0)" by simp
  then show "same_elsewhere d view (hw, st) (restore_device ops d (hw, st))"
    by (simp add: same_elsewhere_def restore_device_def Let_def)
qed


section \<open>All cards\<close>

definition all_undoable :: "(knob \<Rightarrow> nat \<Rightarrow> bool) \<Rightarrow> ('hw \<Rightarrow> nat \<Rightarrow> card) \<Rightarrow> (nat \<Rightarrow> card) \<Rightarrow> 'hw \<times> oc_state \<Rightarrow> bool" where
  "all_undoable ok view v0 s \<longleftrightarrow> (\<forall>d. undoable ok d (v0 d) (view (fst s) d) (snd s))"

lemma undoable_same:
  assumes "same_elsewhere d view s s'" "e \<noteq> d"
  shows "undoable ok e c (view (fst s') e) (snd s') = undoable ok e c (view (fst s) e) (snd s)"
    "device_pending (snd s') e = device_pending (snd s) e"
  using assms by (simp_all add: same_elsewhere_def undoable_def device_pending_def)

lemma oc_apply_all_undoable:
  assumes F: "faithful ops view ok" and v0: "\<And>d. limited (v0 d)" "\<And>d. takes_back ok d (v0 d)"
  shows "distinct (map fst xs) \<Longrightarrow> all_undoable ok view v0 s \<Longrightarrow> (\<forall>d \<in> fst ` set xs. \<not> device_pending (snd s) d) \<Longrightarrow>
    all_undoable ok view v0 (oc_apply_all ops xs s) \<and>
    os_restore_enabled (snd (oc_apply_all ops xs s)) = os_restore_enabled (snd s) \<and>
    (\<forall>d. d \<notin> fst ` set xs \<longrightarrow> view (fst (oc_apply_all ops xs s)) d = view (fst s) d \<and>
      device_pending (snd (oc_apply_all ops xs s)) d = device_pending (snd s) d)"
proof (induction xs arbitrary: s)
  case Nil
  then show ?case by (simp add: oc_apply_all_def)
next
  case (Cons x xs)
  obtain d req where x: "x = (d, req)" by (cases x)
  obtain rs s1 where a: "oc_apply ops d req s = (rs, s1)" by (cases "oc_apply ops d req s")
  from oc_apply_undoable [OF F v0(1) v0(2) a] Cons.prems x
  have u: "undoable ok d (v0 d) (view (fst s1) d) (snd s1)" and e: "same_elsewhere d view s s1"
    by (auto simp: all_undoable_def)
  have "all_undoable ok view v0 s1"
    using Cons.prems(2) u undoable_same(1) [OF e] unfolding all_undoable_def by metis
  moreover have "\<forall>e \<in> fst ` set xs. \<not> device_pending (snd s1) e"
  proof
    fix c assume c: "c \<in> fst ` set xs"
    then have "c \<noteq> d" using Cons.prems(1) x by auto
    with undoable_same(2) [OF e] have "device_pending (snd s1) c = device_pending (snd s) c" by blast
    moreover have "\<not> device_pending (snd s) c" using Cons.prems(3) c by auto
    ultimately show "\<not> device_pending (snd s1) c" by simp
  qed
  ultimately have "all_undoable ok view v0 (oc_apply_all ops xs s1) \<and>
    os_restore_enabled (snd (oc_apply_all ops xs s1)) = os_restore_enabled (snd s1) \<and>
    (\<forall>d. d \<notin> fst ` set xs \<longrightarrow> view (fst (oc_apply_all ops xs s1)) d = view (fst s1) d \<and>
      device_pending (snd (oc_apply_all ops xs s1)) d = device_pending (snd s1) d)"
    using Cons.IH Cons.prems(1) by simp
  moreover have "oc_apply_all ops (x # xs) s = oc_apply_all ops xs s1" by (simp add: oc_apply_all_def x a)
  ultimately show ?case using e x undoable_same(2) [OF e] by (auto simp: same_elsewhere_def)
qed

lemma restore_all:
  assumes F: "faithful ops view ok"
  shows "distinct ds \<Longrightarrow> (\<And>d. d \<in> set ds \<Longrightarrow> undoable ok d (v0 d) (view (fst s) d) (snd s)) \<Longrightarrow>
    view (fst (fold (restore_device ops) ds s)) =
      (\<lambda>d. if d \<in> set ds then given_back (snd s) d (v0 d) else view (fst s) d)"
proof (induction ds arbitrary: s)
  case Nil
  then show ?case by simp
next
  case (Cons d ds)
  obtain hw st where s: "s = (hw, st)" by (cases s)
  let ?s1 = "restore_device ops d s"
  have "undoable ok d (v0 d) (view hw d) st" using Cons.prems(2) [of d] by (simp add: s)
  from restore_device_undoes [OF F this]
  have v: "view (fst ?s1) = (view hw)(d := given_back st d (v0 d))" and e: "same_elsewhere d view s ?s1"
    by (simp_all add: s)
  have u: "undoable ok x (v0 x) (view (fst ?s1) x) (snd ?s1)" if "x \<in> set ds" for x
    using that Cons.prems(1) Cons.prems(2) [of x] undoable_same(1) [OF e, of x] by auto
  have h: "given_back (snd ?s1) x c = given_back st x c" if "x \<noteq> d" for x c
    using e that by (simp add: same_elsewhere_def given_back_def s)
  have "view (fst (fold (restore_device ops) ds ?s1)) =
      (\<lambda>x. if x \<in> set ds then given_back (snd ?s1) x (v0 x) else view (fst ?s1) x)"
    using Cons.IH [of ?s1] Cons.prems(1) u by simp
  also have "\<dots> = (\<lambda>x. if x \<in> set (d # ds) then given_back (snd s) x (v0 x) else view (fst s) x)"
  proof
    fix x
    have "d \<notin> set ds" using Cons.prems(1) by simp
    then show "(if x \<in> set ds then given_back (snd ?s1) x (v0 x) else view (fst ?s1) x) =
        (if x \<in> set (d # ds) then given_back (snd s) x (v0 x) else view (fst s) x)"
      using v h [of x "v0 x"] by (cases "x = d") (simp_all add: s)
  qed
  finally show ?case by simp
qed

text \<open>
  C4: What is applied is undone: with a driver that may refuse any write by card, knob or value but
  takes back the value a knob had, applying any request to any selection of cards and then running the
  restore leaves every card with the power limit and the clock offsets it had before the miner started,
  whatever was clamped, refused or only partly accepted; a clock lock or fan speed the miner wrote is
  released to the driver, one it did not write stays as it was, so a card that came without locks and
  fixed fans is exactly as it was found; cards that were not selected are never touched. A card that
  reports a power limit of 0 W is outside: the code takes 0 for nothing to restore.
\<close>
theorem restore_undoes_apply:
  assumes "faithful ops view ok" "\<forall>d. limited (view hw d) \<and> takes_back ok d (view hw d)"
    and "distinct (map fst xs)" "fst ` set xs \<subseteq> {..<kMaxOcDevices}"
    and "oc_apply_all ops xs (hw, oc_state0) = (hw1, st1)"
  shows "view (fst (oc_restore ops (hw1, st1))) =
      (\<lambda>d. if d \<in> fst ` set xs then given_back st1 d (view hw d) else view hw d) \<and>
    (\<forall>d. d \<notin> fst ` set xs \<or> unmanaged (view hw d) \<longrightarrow>
      view (fst (oc_restore ops (hw1, st1))) d = view hw d)"
proof -
  have "all_undoable ok view (view hw) (hw, oc_state0)"
    by (simp add: all_undoable_def undoable_def oc_state0_def)
  from oc_apply_all_undoable [OF assms(1), of "view hw" xs "(hw, oc_state0)", OF _ _ assms(3) this] assms(2,5)
  have A: "all_undoable ok view (view hw) (hw1, st1)" "os_restore_enabled st1"
    "\<And>d. d \<notin> fst ` set xs \<Longrightarrow> view hw1 d = view hw d \<and> \<not> device_pending st1 d"
    by (auto simp: oc_state0_def device_pending_def)
  have n: "given_back st1 d c = c" if "d \<notin> fst ` set xs" for d c
    using A(3) [OF that] by (simp add: given_back_def device_pending_def)
  have "view (fst (oc_restore ops (hw1, st1))) =
      (\<lambda>d. if d \<in> set [0..<kMaxOcDevices] then given_back st1 d (view hw d) else view hw1 d)"
    using restore_all [OF assms(1), of "[0..<kMaxOcDevices]" "view hw" "(hw1, st1)"] A(1,2)
    by (simp add: oc_restore_def all_undoable_def cong: if_cong)
  also have "\<dots> = (\<lambda>d. if d \<in> fst ` set xs then given_back st1 d (view hw d) else view hw d)"
    using A(3) n assms(4) by (fastforce simp: fun_eq_iff)
  finally show ?thesis by (simp add: given_back_unmanaged)
qed


text \<open>A driver that refuses the second fan, and every power limit out of 100 to 300 W.\<close>

definition sim_write :: "bool \<Rightarrow> (card \<Rightarrow> card) \<Rightarrow> nat \<Rightarrow> (nat \<Rightarrow> card) \<Rightarrow> nvml_write \<times> (nat \<Rightarrow> card)" where
  "sim_write b upd d hw = (if b then (Ok, hw(d := upd (hw d))) else (NoPermission, hw))"

definition sim_ops :: "(nat \<Rightarrow> card) card_ops" where
  "sim_ops = \<lparr>
     op_pl_read = (\<lambda>hw d. Some \<lparr>pl_current_w = cd_pl (hw d), pl_default_w = 250, pl_min_w = 100, pl_max_w = 300\<rparr>),
     op_pl_write = (\<lambda>d v. sim_write (100 \<le> v \<and> v \<le> 300) (\<lambda>c. c\<lparr>cd_pl := v\<rparr>) d),
     op_core_read = (\<lambda>hw d. Some \<lparr>co_current_mhz = cd_coff (hw d), co_min_mhz = -500, co_max_mhz = 500\<rparr>),
     op_core_write = (\<lambda>d v. sim_write True (\<lambda>c. c\<lparr>cd_coff := v\<rparr>) d),
     op_mem_read = (\<lambda>hw d. Some \<lparr>co_current_mhz = cd_moff (hw d), co_min_mhz = -500, co_max_mhz = 500\<rparr>),
     op_mem_write = (\<lambda>d v. sim_write True (\<lambda>c. c\<lparr>cd_moff := v\<rparr>) d),
     op_max_core = (\<lambda>hw d. 3000), op_max_mem = (\<lambda>hw d. 9000),
     op_lock_core = (\<lambda>d a b. sim_write True (\<lambda>c. c\<lparr>cd_core_lock := Some (a, b)\<rparr>) d),
     op_unlock_core = (\<lambda>d. sim_write True (\<lambda>c. c\<lparr>cd_core_lock := None\<rparr>) d),
     op_lock_mem = (\<lambda>d a b. sim_write True (\<lambda>c. c\<lparr>cd_mem_lock := Some (a, b)\<rparr>) d),
     op_unlock_mem = (\<lambda>d. sim_write True (\<lambda>c. c\<lparr>cd_mem_lock := None\<rparr>) d),
     op_fan_read = (\<lambda>hw d. Some \<lparr>fi_count = 2, fi_pct = 30, fi_min_pct = 20, fi_max_pct = 100\<rparr>),
     op_fan_write = (\<lambda>d i p. sim_write (i \<noteq> 1) (\<lambda>c. c\<lparr>cd_fans := (cd_fans c)(i := Some p)\<rparr>) d),
     op_fan_reset = (\<lambda>d i. sim_write (i \<noteq> 1) (\<lambda>c. c\<lparr>cd_fans := (cd_fans c)(i := None)\<rparr>) d)\<rparr>"

fun sim_ok :: "knob \<Rightarrow> nat \<Rightarrow> bool" where
  "sim_ok (PowerLimit v) d = (100 \<le> v \<and> v \<le> 300)"
| "sim_ok (FanSpeed i p) d = (i \<noteq> 1)"
| "sim_ok (FanAuto i) d = (i \<noteq> 1)"
| "sim_ok k d = True"

lemma sim_faithful: "faithful sim_ops (\<lambda>hw. hw) sim_ok"
  by (auto simp: faithful_def sim_ops_def writes_def sim_write_def split: if_splits)

definition sim_card :: card where
  "sim_card = \<lparr>cd_pl = 285, cd_coff = 0, cd_moff = 50, cd_core_lock = None, cd_mem_lock = None, cd_fans = (\<lambda>_. None)\<rparr>"

definition sim_request :: oc_request where
  "sim_request = \<lparr>oq_pl = ''400,240'', oq_cclk = ''2100'', oq_mclk = '''', oq_coff = ''*,-150'', oq_moff = '''', oq_fan = ''70''\<rparr>"

theorem restore_undoes_apply_witness:
  "fst (oc_restore sim_ops (oc_apply_all sim_ops [(0, sim_request), (1, sim_request)] (\<lambda>_. sim_card, oc_state0))) 1
     = sim_card"
proof -
  obtain hw st where a: "oc_apply_all sim_ops [(0, sim_request), (1, sim_request)] (\<lambda>_. sim_card, oc_state0) = (hw, st)"
    by (cases "oc_apply_all sim_ops [(0, sim_request), (1, sim_request)] (\<lambda>_. sim_card, oc_state0)")
  have c: "\<forall>d :: nat. limited sim_card \<and> takes_back sim_ok d sim_card"
    by (simp add: limited_def takes_back_def sim_card_def)
  have d: "distinct (map fst [(0 :: nat, sim_request), (1, sim_request)])"
    "fst ` set [(0, sim_request), (1, sim_request)] \<subseteq> {..<kMaxOcDevices}"
    by (simp_all add: kMaxOcDevices_def)
  have "unmanaged sim_card" by (simp add: unmanaged_def sim_card_def)
  with conjunct2 [OF restore_undoes_apply [OF sim_faithful c d a]] show ?thesis unfolding a by blast
qed

section \<open>The list syntax\<close>

lemma parse_stars:
  "parse_entries neg index n (replicate k ''*'' @ ts) found = parse_entries neg index (n + k) ts found"
proof (induction k arbitrary: n)
  case (Suc k)
  have "trim ''*'' = ''*''" by code_simp
  with Suc show ?case by (simp add: Let_def)
qed simp

lemma split_stars: "split_on CHR '','' (concat (replicate k ''*,'') @ s) = replicate k ''*'' @ split_on CHR '','' s"
  by (induction k) simp_all

text \<open>
  The list made for a resolved setting reads back as that setting on its own card and as nothing on
  every other: a cap tuned for card \<open>i\<close> never lands on another card.
\<close>
theorem spec_at_roundtrip:
  assumes "- (2 ^ 63) \<le> v" "v < 2 ^ 63" "0 < v \<or> allow_negative"
  shows "oc_parse_list (oc_spec_at i v) j allow_negative = Inr (if j = i then Some v else None)"
proof -
  let ?t = "int_dec v"
  have chars: "c \<in> set ?t \<Longrightarrow> is_digit c \<or> c = CHR ''-''" for c by (rule int_dec_chars)
  have nodig: "\<not> is_digit CHR '',''" "\<not> is_digit CHR '' ''" "\<not> is_digit CHR 0x09" "\<not> is_digit CHR ''*''" "\<not> is_digit CHR ''-''" "\<not> is_digit CHR ''+''"
    by code_simp+
  have trim: "trim ?t = ?t" using chars nodig by (intro trim_id) (auto simp: blank_def)
  have comma: "CHR '','' \<notin> set ?t" using chars nodig(1) by auto
  have ne: "?t \<noteq> ''''" by (auto simp: int_dec_def split: if_splits)
  have star: "?t \<noteq> ''*''" using chars [of "CHR ''*''"] nodig(4) by auto
  have body: "list_all is_digit (drop (if allow_negative \<and> (hd ?t = CHR ''-'' \<or> hd ?t = CHR ''+'') then 1 else 0) ?t) \<and>
      length ?t \<noteq> (if allow_negative \<and> (hd ?t = CHR ''-'' \<or> hd ?t = CHR ''+'') then 1 else 0)"
  proof (cases "v < 0")
    case True
    with assms(3) show ?thesis using dec_digits by (auto simp: int_dec_def list_all_iff)
  next
    case False
    then have t: "?t = dec (nat v)" by (simp add: int_dec_def)
    obtain c r where c: "dec (nat v) = c # r" "is_digit c" using dec_head_digit by blast
    with nodig have "hd ?t \<noteq> CHR ''-''" "hd ?t \<noteq> CHR ''+''" by (auto simp: t)
    with t c show ?thesis using dec_digits [of _ "nat v"] by (auto simp: list_all_iff)
  qed
  have "oc_parse_list (oc_spec_at i v) j allow_negative = parse_entries allow_negative j i [?t] None"
    using ne by (simp add: oc_parse_list_def oc_spec_at_def split_stars split_on_none [OF comma] parse_stars)
  also have "\<dots> = Inr (if j = i then Some v else None)"
    using trim ne star body assms(3) strtol_int_dec [OF assms(1,2)] by (auto simp: Let_def)
  finally show ?thesis .
qed

theorem spec_at_roundtrip_witness: "oc_parse_list (oc_spec_at 2 172) 2 False = Inr (Some 172)"
  using spec_at_roundtrip [of 172 False 2 2] by simp

end
