(* ===== verification/Options.thy ===== *)
theory Options
  imports Format Overclock
begin

text \<open>
  The command line (src/cli/options.h, src/cli/options.cpp): the options and which of them were
  given, the parsers of the single values, \<open>parse_args\<close> as a loop over the arguments with one
  handler per group of flags, and the resolution of \<open>--devices\<close>.
\<close>

section \<open>Data\<close>

definition kApiPortMin :: int where "kApiPortMin = 0"
definition kApiPortMax :: int where "kApiPortMax = 65535"
definition kStatsIntervalMin :: int where "kStatsIntervalMin = 1"
definition kDigitsMin :: int where "kDigitsMin = 0"
definition kDigitsMax :: int where "kDigitsMax = 6"
definition kBenchmarkSecondsMin :: int where "kBenchmarkSecondsMin = 1"
definition kSilenceMin :: int where "kSilenceMin = 0"
definition kSilenceMax :: int where "kSilenceMax = 3"
definition kKeepFreeMbMin :: int where "kKeepFreeMbMin = 0"
definition kKeepFreeMbMax :: int where "kKeepFreeMbMax = 1024 * 1024"
definition kTempCMin :: int where "kTempCMin = 0"
definition kTempCMax :: int where "kTempCMax = 150"
definition kDevFeePctMin :: double where "kDevFeePctMin = 0"
definition kDevFeePctMax :: double where "kDevFeePctMax = 100"
definition int_max :: int where "int_max = 2 ^ 31 - 1"

record pool_entry =
  pe_host :: string
  pe_port :: u16
  pe_user :: string
  pe_pass :: string
  pe_tls :: bool

definition kLoopbackDefaultUser :: string where "kLoopbackDefaultUser = ''x''"

text \<open>Which options the command line gave.\<close>

record seen =
  seen_pools :: bool
  seen_user :: bool
  seen_pass :: bool
  seen_tls :: bool
  seen_nocolor :: bool
  seen_apiport :: bool
  seen_shortstats :: bool
  seen_longstats :: bool
  seen_devices :: bool
  seen_solver :: bool
  seen_devfee :: bool
  seen_log :: bool
  seen_logfile :: bool
  seen_timeprint :: bool
  seen_digits :: bool
  seen_silence :: bool
  seen_compactaccept :: bool
  seen_keepfree :: bool
  seen_tstop :: bool
  seen_tstart :: bool
  seen_tmode :: bool
  seen_statsformat :: bool
  seen_vstats :: bool
  seen_hstats :: bool
  seen_watchdog :: bool
  seen_benchmark :: bool
  seen_benchmark_seconds :: bool
  seen_report :: bool
  seen_report_seconds :: bool
  seen_report_out :: bool
  seen_tune_caps :: bool
  seen_tune_seconds :: bool
  seen_list_devices :: bool
  seen_apihost :: bool
  seen_devices_by_pcie :: bool
  seen_power_limit :: bool
  seen_no_oc_reset :: bool
  seen_core_clock :: bool
  seen_mem_clock :: bool
  seen_core_offset :: bool
  seen_mem_offset :: bool
  seen_fan :: bool
  seen_algo :: bool

definition seen0 :: seen where
  "seen0 = \<lparr>seen_pools = False, seen_user = False, seen_pass = False, seen_tls = False,
    seen_nocolor = False, seen_apiport = False, seen_shortstats = False, seen_longstats = False,
    seen_devices = False, seen_solver = False, seen_devfee = False, seen_log = False,
    seen_logfile = False, seen_timeprint = False, seen_digits = False, seen_silence = False,
    seen_compactaccept = False, seen_keepfree = False, seen_tstop = False, seen_tstart = False,
    seen_tmode = False, seen_statsformat = False, seen_vstats = False, seen_hstats = False,
    seen_watchdog = False, seen_benchmark = False, seen_benchmark_seconds = False, seen_report = False,
    seen_report_seconds = False, seen_report_out = False, seen_tune_caps = False,
    seen_tune_seconds = False, seen_list_devices = False, seen_apihost = False,
    seen_devices_by_pcie = False, seen_power_limit = False, seen_no_oc_reset = False,
    seen_core_clock = False, seen_mem_clock = False, seen_core_offset = False, seen_mem_offset = False,
    seen_fan = False, seen_algo = False\<rparr>"

text \<open>The options; \<open>devfee_pct\<close> and \<open>keepfree_mb\<close> are negative when not given.\<close>

record options =
  o_pools :: "pool_entry list"
  o_nocolor :: bool
  o_apiport :: int
  o_apihost :: string
  o_shortstats :: int
  o_longstats :: int
  o_devices :: string
  o_devices_by_pcie :: bool
  o_list_devices :: bool
  o_list_algos :: bool
  o_list_coins :: bool
  o_watchdog_requested :: bool
  o_watchdog_action :: string
  o_watchdog_script :: string
  o_solver :: string
  o_log_enabled :: bool
  o_log_path :: string
  o_timeprint :: bool
  o_silence :: int
  o_compactaccept :: bool
  o_statsformat :: string
  o_vstats :: bool
  o_hstats :: bool
  o_stats_width :: int
  o_keepfree_mb :: int
  o_tstop :: int
  o_tstart :: int
  o_tmode :: string
  o_digits :: int
  o_power_limit :: string
  o_core_clock :: string
  o_mem_clock :: string
  o_core_offset :: string
  o_mem_offset :: string
  o_fan :: string
  o_no_oc_reset :: bool
  o_devfee_pct :: double
  o_benchmark :: string
  o_benchmark_seconds :: int
  o_report :: bool
  o_report_seconds :: int
  o_report_out :: string
  o_tune :: bool
  o_tune_seconds :: int
  o_tune_caps :: string
  o_tune_min_gain :: xdouble
  o_config_path :: string
  o_json_profile :: string
  o_use_json_config :: bool
  o_version_requested :: bool
  o_help_requested :: bool
  o_substituted_user :: bool
  o_seen :: seen

definition options0 :: options where
  "options0 = \<lparr>o_pools = [], o_nocolor = False, o_apiport = 0, o_apihost = ''0.0.0.0'',
    o_shortstats = 15, o_longstats = 60, o_devices = '''', o_devices_by_pcie = False,
    o_list_devices = False, o_list_algos = False, o_list_coins = False, o_watchdog_requested = False,
    o_watchdog_action = ''exit'', o_watchdog_script = '''', o_solver = ''auto'', o_log_enabled = False,
    o_log_path = '''', o_timeprint = False, o_silence = 0, o_compactaccept = False,
    o_statsformat = '''', o_vstats = False, o_hstats = False, o_stats_width = 0, o_keepfree_mb = -1,
    o_tstop = 0, o_tstart = 0, o_tmode = ''edge'', o_digits = 2, o_power_limit = '''',
    o_core_clock = '''', o_mem_clock = '''', o_core_offset = '''', o_mem_offset = '''', o_fan = '''',
    o_no_oc_reset = False, o_devfee_pct = -1, o_benchmark = '''', o_benchmark_seconds = 0,
    o_report = False, o_report_seconds = 120, o_report_out = '''', o_tune = False, o_tune_seconds = 60,
    o_tune_caps = '''', o_tune_min_gain = Fin (dbl (7 / 100)), o_config_path = '''',
    o_json_profile = '''', o_use_json_config = False, o_version_requested = False,
    o_help_requested = False, o_substituted_user = False, o_seen = seen0\<rparr>"

section \<open>The usage text\<close>

definition usage_text :: string where
  "usage_text = concat (map (\<lambda>l. l @ [CHR 0x0A])
    [''Usage: mxbm --algo BEAM-III --pool host:port --user addr[.worker] [options]'',
     '''',
     ''Required:'',
     ''  -a, --algo BEAM-III    algorithm to mine (only BEAM-III is supported)'',
     ''  -p, --pool host:port   pool address (repeatable for failover pools)'',
     ''  -u, --user addr[.worker]'',
     ''                         wallet address, optionally with a worker suffix'',
     ''                         (repeat to bind one per --pool, or pass once for all).'',
     ''                         Optional for a loopback pool, which has no address'',
     '''',
     ''Options:'',
     ''  -c, --coin BEAM        select by coin instead of by algorithm'',
     ''  --pass x               accepted for compatibility with pool instructions, and'',
     ''                         ignored: BeamHash III stratum logs in with the address'',
     ''                         alone, so there is no password on the wire'',
     ''  --tls [0|1]            enable/disable TLS to the pool (default: on for a remote'',
     ''                         pool, off for a loopback one; binds like --user)'',
     ''  --apiport N            enable the /summary API on port N, 0 disables it (default: 0)'',
     ''  --apihost ADDR         interface the API binds (default: 0.0.0.0, every interface;'',
     ''                         127.0.0.1 restricts it to this machine). The API is'',
     ''                         unauthenticated -- see docs/usage.md'',
     ''  --shortstats N         short-stats interval in seconds, >=1 (default: 15)'',
     ''  --longstats N          long-stats interval in seconds, >=1 (default: 60)'',
     ''  --devices LIST         which GPU to mine on: ALL (default) or a comma-separated'',
     ''                         list of indices as shown by --list-devices'',
     ''  --list-devices         print the detected GPUs, with their indices, and exit'',
     ''  --watchdog [ACTION]    watch for a GPU that stops working. ACTION is exit'',
     ''                         (default; exits 42 for a supervisor to restart), script'',
     ''                         (runs --watchdogscript), or off (report only)'',
     ''  --watchdogscript PATH  script to run when ACTION is script'',
     ''  --benchmark ALGO       offline benchmark (no pool, no wallet); ALGO is BEAM-III'',
     ''  --benchmark-seconds N  stop the benchmark after N seconds (default: until Ctrl+C)'',
     ''  --report               benchmark this card and print a paste-ready report for'',
     ''                         the project: hardware, throughput, telemetry, and this'',
     ''                         card'' @ [CHR 0x27] @ ''s power curve. Measures the curve first (--tune,'',
     ''                         ~25 min, needs root) unless this build already stored'',
     ''                         one. Nothing is uploaded.'',
     ''                         --report-seconds N  benchmark length (default: 120)'',
     ''                         --report-out FILE   also write the block to a file'',
     ''  --tune                 measure this card'' @ [CHR 0x27] @ ''s power/speed curve and recommend a'',
     ''                         --pl value (needs root, ~25 min, no pool): a coarse pass'',
     ''                         across the card'' @ [CHR 0x27] @ ''s band, ~10 W steps around the best'',
     ''                         cap found, the card'' @ [CHR 0x27] @ ''s low memory clock at the capped'',
     ''                         points -- so the verdict can also say when to add'',
     ''                         --mclk -- and a final refinement around the'',
     ''                         best-efficiency point. Stored per card; apply the'',
     ''                         wattage with --pl auto.'',
     ''                         --tune-seconds N   seconds per power point (default: 60)'',
     ''                         --tune-caps LIST   exactly these watt points, single pass'',
     ''                                            ('' @ [CHR 0x22] @ ''100,140,220'' @ [CHR 0x22] @ ''; default: 6 across the'',
     ''                                            band + the refining second pass)'',
     ''                         --tune-min-gain X  sol/s per extra watt below which more'',
     ''                                            power stops paying (default: 0.07)'',
     ''  --solver cuda|metal|opencl|gpu|ref|auto'',
     ''                         solver backend. gpu = any GPU (CUDA, then Metal, then'',
     ''                         OpenCL), cuda/metal/opencl'',
     ''                         pin one, ref = CPU reference. Default: auto'',
     ''  --dev-fee PCT          raise the developer fee above its built-in rate, as a'',
     ''                         percentage (e.g. 2.5). Can only be raised, never lowered;'',
     ''                         see docs/devfee.md'',
     ''  --json [PATH]          load a JSON config file (default: user_config.json)'',
     ''  --profile NAME         select a profile from the --json config'',
     ''  --config PATH          load a flat KEY = VALUE config file'',
     ''  --nocolor, --nocolour  disable ANSI colors in console output'',
     ''  --log [0|1]            write a timestamped transcript of the console to a file'',
     ''                         (default: off; see --logfile for where it goes)'',
     ''  --logfile PATH         transcript location; implies --log. Default when --log is'',
     ''                         given alone: logs/mxbm_<date>_<time>.log'',
     ''  --timeprint [0|1]      stamp the short-stats line with [HH:MM:SS] (default: off)'',
     ''  --silence N            console verbosity: 0 everything (default), 1 no job lines,'',
     ''                         2 no job or share lines (accepts become * marks on the'',
     ''                         speed line), 3 the statistics block only. Applies to the'',
     ''                         --log transcript as well'',
     ''  --compactaccept        report accepted shares as * marks on the speed line'',
     ''  --statsformat LIST     which columns the statistics block shows, in order'',
     ''                         (gpuName,speed,poolHr,iter,shares,bestShare,hrPerWatt,'',
     ''                         power,coreClk,memClk,coreT,fanPct,sharesPerMin,wattPerHr,'',
     ''                         util,state). No presets: the default is what you get'',
     ''                         without the flag'',
     ''  --vstats               one column per GPU, fields as rows'',
     ''  --hstats [N]           wrap the table into groups N characters wide; a bare'',
     ''                         --hstats asks the terminal how wide it is'',
     ''  --tstop C              pause a GPU at this temperature; 0 disables (default)'',
     ''  --tstart C             resume it at this temperature; 0 leaves it paused'',
     ''  --tmode MODE           which sensor those read: edge (default), junction or'',
     ''                         memory. A sensor the card does not report is an error,'',
     ''                         not a silent fallback to edge'',
     ''  --keepfree MB          VRAM to leave unallocated, replacing the built-in reserve'',
     ''                         (256 MB with a display attached, 64 MB headless). 0 takes'',
     ''                         everything the driver reports free'',
     ''  --digits N             decimals on the speed figures, 0..6 (default: 2)'',
     ''  --pl W                 board power limit in watts, per GPU ('' @ [CHR 0x22] @ ''240'' @ [CHR 0x22] @ '', '' @ [CHR 0x22] @ ''240,*,260'' @ [CHR 0x22] @ '';'',
     ''                         * skips a GPU), or '' @ [CHR 0x22] @ ''auto'' @ [CHR 0x22] @ '' for the value a --tune run'',
     ''                         stored for this card. Needs root. Restored on exit'',
     ''                         unless --no-oc-reset. See docs/overclocking.md'',
     ''  --cclk MHz             lock the core clock       --coff MHz  shift its V/F curve'',
     ''  --mclk MHz             lock the memory clock     --moff MHz  shift its V/F curve'',
     ''  --fan PCT              fan target, in percent'',
     ''                         All take the same per-GPU list syntax as --pl and need'',
     ''                         root; the two offsets may be negative. Clamped to the'',
     ''                         band the driver reports, and restored on exit.'',
     ''                         --moff is in MHz of TRANSFER RATE, as every other tool'',
     ''                         and guide states it, so it moves the reported memory'',
     ''                         clock by half the number given (--moff 200 -> +100 MHz).'',
     ''  --no-oc-reset [0|1]    leave --pl applied at exit instead of restoring (default: off)'',
     ''  --list-algos           print the supported algorithms and exit'',
     ''  --list-coins           print the supported coins and exit'',
     ''  -v, --version          print the version string and exit'',
     ''  -h, --help             show this help text''])"

section \<open>Single values\<close>

definition all_digits :: "string \<Rightarrow> bool" where
  "all_digits s = (s \<noteq> '''' \<and> list_all is_digit s)"

definition parse_port :: "string \<Rightarrow> u16 option" where
  "parse_port s =
    (if \<not> all_digits s then None
     else let v = strtol10 s in if v < 1 \<or> v > 65535 then None else Some (word_of_int v))"

definition parse_int :: "string \<Rightarrow> int \<Rightarrow> int \<Rightarrow> int option" where
  "parse_int s lo hi =
    (if \<not> all_digits s then None
     else let v = strtol10 s in if v < lo \<or> v > hi then None else Some v)"

definition lower_trim :: "string \<Rightarrow> string" where
  "lower_trim s = trim (lower s)"

definition before :: "char \<Rightarrow> string \<Rightarrow> string" where
  "before c s = takeWhile (\<lambda>x. x \<noteq> c) s"

definition after :: "char \<Rightarrow> string \<Rightarrow> string" where
  "after c s = drop 1 (dropWhile (\<lambda>x. x \<noteq> c) s)"

definition normalize_pci :: "string \<Rightarrow> string option" where
  "normalize_pci s =
    (let t = before CHR ''.'' (lower_trim s)
     in if CHR '':'' \<notin> set t then None
        else
          let t = (if CHR '':'' \<in> set (after CHR '':'' t) then after CHR '':'' t else t);
              bus = before CHR '':'' t; dev = after CHR '':'' t
          in if bus = '''' \<or> dev = '''' \<or> length bus > 8 \<or> length dev > 8 then None
             else if \<not> list_all is_xdigit bus \<or> \<not> list_all is_xdigit dev then None
             else Some (hex (unhex bus) @ '':'' @ hex (unhex dev)))"

definition vendor_keyword :: "string \<Rightarrow> bool" where
  "vendor_keyword tok = (tok = ''nvidia'' \<or> tok = ''amd'' \<or> tok = ''intel'' \<or> tok = ''apple'')"

definition vendor_matches :: "string \<Rightarrow> string \<Rightarrow> bool" where
  "vendor_matches keyword vendor =
    (let v = lower_trim vendor
     in if v = '''' then False
        else if keyword = ''amd'' then contains ''amd'' v \<or> contains ''advanced micro devices'' v
        else contains keyword v)"

text \<open>Four octets exactly; the loop leaves at the fourth.\<close>

definition parse_ipv4 :: "string \<Rightarrow> bool" where
  "parse_ipv4 s =
    (let ts = split_on CHR ''.'' s
     in length ts = 4 \<and> list_all (\<lambda>t. t \<noteq> '''' \<and> length t \<le> 3 \<and> parse_int t 0 255 \<noteq> None) ts)"

definition bound_value :: "'a list \<Rightarrow> nat \<Rightarrow> 'a \<Rightarrow> 'a" where
  "bound_value vals i d =
    (if vals = [] then d else vals ! (if i < length vals then i else length vals - 1))"

definition is_loopback_host :: "string \<Rightarrow> bool" where
  "is_loopback_host h =
    (if h = '''' then False
     else if h = ''::1'' then True
     else if lower_trim h = ''localhost'' then True
     else if \<not> has_prefix ''127.'' h then False
     else list_all (\<lambda>c. c = CHR ''.'' \<or> is_digit c) h \<and> length (filter (\<lambda>c. c = CHR ''.'') h) = 3)"

section \<open>The device list\<close>

record device_ref =
  dr_pci :: string
  dr_vendor :: string

definition take_dev :: "nat \<Rightarrow> nat list \<Rightarrow> nat list" where
  "take_dev i sel = (if i \<in> set sel then sel else sel @ [i])"

text \<open>The cards a token names, or why it names none.\<close>

definition token_devices :: "device_ref list \<Rightarrow> bool \<Rightarrow> string \<Rightarrow> string + nat list" where
  "token_devices devices by_pcie tok =
    (let count = length devices
     in if tok = '''' then Inl ''empty entry in the device list''
        else if by_pcie then
          (case normalize_pci tok of
             None \<Rightarrow> Inl (cquote tok @ '' is not a PCI address (expected 1:0, 01:00 or 0000:01:00.0)'')
           | Some key \<Rightarrow>
               let hits = filter (\<lambda>i. normalize_pci (dr_pci (devices ! i)) = Some key) [0..<count]
               in if hits = [] then Inl (''no detected card is at PCI '' @ tok) else Inr hits)
        else if vendor_keyword tok then
          (let hits = filter (\<lambda>i. vendor_matches tok (dr_vendor (devices ! i))) [0..<count]
           in if hits = [] then Inl (''no detected card is made by '' @ tok) else Inr hits)
        else if \<not> list_all is_digit tok then
          Inl (cquote tok @ '' is not a device index, a vendor (NVIDIA, AMD, '' @ ''INTEL, APPLE) or the word ALL'')
        else
          let v = strtol10 tok
          in if v < 0 \<or> v \<ge> int count then
               Inl (''device '' @ tok @ '' does not exist; '' @ dec count @
                 (if count = 1 then '' was detected'' else '' were detected''))
             else Inr [nat v])"

fun resolve_tokens :: "device_ref list \<Rightarrow> bool \<Rightarrow> string list \<Rightarrow> nat list \<Rightarrow> string + nat list" where
  "resolve_tokens devices by_pcie [] sel = Inr sel"
| "resolve_tokens devices by_pcie (t # ts) sel =
    (case token_devices devices by_pcie (lower_trim t) of
       Inl e \<Rightarrow> Inl e
     | Inr is \<Rightarrow> resolve_tokens devices by_pcie ts (fold take_dev is sel))"

definition resolve_devices :: "string \<Rightarrow> device_ref list \<Rightarrow> bool \<Rightarrow> string + nat list" where
  "resolve_devices spec devices by_pcie =
    (let norm = lower_trim spec
     in if norm = '''' \<or> norm = ''all'' then Inr [0..<length devices]
        else if devices = [] then Inl ''no devices were detected''
        else case resolve_tokens devices by_pcie (split_on CHR '','' norm) [] of
          Inl e \<Rightarrow> Inl e
        | Inr sel \<Rightarrow> if sel = [] then Inl ''the device list selected nothing'' else Inr sel)"

definition resolve_device_count :: "string \<Rightarrow> nat \<Rightarrow> string + nat list" where
  "resolve_device_count spec count =
    resolve_devices spec (replicate count \<lparr>dr_pci = '''', dr_vendor = ''''\<rparr>) False"

section \<open>The argument loop\<close>

record pstate =
  pa_out :: options
  pa_algo :: string
  pa_pools :: "string list"
  pa_users :: "string list"
  pa_passes :: "string list"
  pa_tls :: "bool list"

text \<open>
  What a flag does: \<open>Stop\<close> returns false with the error and the options so far, \<open>Continue\<close> goes on
  after as many further arguments as were consumed.
\<close>

datatype outcome = Stop string options | Continue nat pstate

definition bad :: "string \<Rightarrow> pstate \<Rightarrow> outcome" where
  "bad msg s = Stop (msg @ [CHR 0x0A, CHR 0x0A] @ usage_text) (pa_out s)"

definition upd :: "(options \<Rightarrow> options) \<Rightarrow> pstate \<Rightarrow> pstate" where
  "upd f s = s\<lparr>pa_out := f (pa_out s)\<rparr>"

definition saw :: "(seen \<Rightarrow> seen) \<Rightarrow> options \<Rightarrow> options" where
  "saw f o' = o'\<lparr>o_seen := f (o_seen o')\<rparr>"

text \<open>A flag with a value: the value is the next argument.\<close>

definition with_value :: "string \<Rightarrow> string list \<Rightarrow> pstate \<Rightarrow> (string \<Rightarrow> outcome) \<Rightarrow> outcome" where
  "with_value missing rest s k = (case rest of [] \<Rightarrow> bad missing s | v # vs \<Rightarrow> k v)"

text \<open>A short flag spelled out.\<close>

definition expand_short :: "string \<Rightarrow> string + string" where
  "expand_short arg =
    (case arg of
       c # d # r \<Rightarrow>
         if c = CHR ''-'' \<and> d \<noteq> CHR ''-'' then
           if r \<noteq> [] then Inl (''unknown flag: '' @ arg @ '' (short flags cannot be combined)'')
           else if d = CHR ''h'' then Inr ''--help'' else if d = CHR ''v'' then Inr ''--version''
           else if d = CHR ''a'' then Inr ''--algo'' else if d = CHR ''p'' then Inr ''--pool''
           else if d = CHR ''u'' then Inr ''--user'' else if d = CHR ''c'' then Inr ''--coin''
           else Inl (''unknown flag: '' @ arg)
         else Inr arg
     | _ \<Rightarrow> Inr arg)"

definition parse_help :: "string \<Rightarrow> string list \<Rightarrow> pstate \<Rightarrow> outcome option" where
  "parse_help arg rest s =
    (if arg = ''--help'' then Some (Stop usage_text ((pa_out s)\<lparr>o_help_requested := True\<rparr>))
     else if arg = ''--version'' then Some (Stop '''' ((pa_out s)\<lparr>o_version_requested := True\<rparr>))
     else None)"

definition parse_algo :: "string \<Rightarrow> string list \<Rightarrow> pstate \<Rightarrow> outcome option" where
  "parse_algo arg rest s =
    (if arg = ''--algo'' then
       Some (with_value ''unsupported algo'' rest s (\<lambda>v. Continue 1 (s\<lparr>pa_algo := v\<rparr>)))
     else if arg = ''--coin'' then
       Some (with_value ''missing value for --coin'' rest s (\<lambda>v.
         if map toupper v \<noteq> ''BEAM'' then bad ''unsupported coin (MXBM mines BEAM only)'' s
         else Continue 1 (s\<lparr>pa_algo := ''BEAM-III''\<rparr>)))
     else if arg = ''--list-algos'' then Some (Continue 0 (upd (\<lambda>x. x\<lparr>o_list_algos := True\<rparr>) s))
     else if arg = ''--list-coins'' then Some (Continue 0 (upd (\<lambda>x. x\<lparr>o_list_coins := True\<rparr>) s))
     else None)"

definition parse_pool_flags :: "string \<Rightarrow> string list \<Rightarrow> pstate \<Rightarrow> outcome option" where
  "parse_pool_flags arg rest s =
    (if arg = ''--pool'' then
       Some (with_value ''missing --pool'' rest s (\<lambda>v. Continue 1 (s\<lparr>pa_pools := pa_pools s @ [v]\<rparr>)))
     else if arg = ''--user'' then
       Some (with_value ''missing --user'' rest s (\<lambda>v. Continue 1 (s\<lparr>pa_users := pa_users s @ [v]\<rparr>)))
     else if arg = ''--pass'' then
       Some (with_value ''missing value for --pass'' rest s (\<lambda>v. Continue 1 (s\<lparr>pa_passes := pa_passes s @ [v]\<rparr>)))
     else if arg = ''--tls'' then
       Some (case rest of
           v # vs \<Rightarrow> if v = ''0'' \<or> v = ''off'' then Continue 1 (s\<lparr>pa_tls := pa_tls s @ [False]\<rparr>)
             else if v = ''1'' \<or> v = ''on'' then Continue 1 (s\<lparr>pa_tls := pa_tls s @ [True]\<rparr>)
             else Continue 0 (s\<lparr>pa_tls := pa_tls s @ [True]\<rparr>)
         | [] \<Rightarrow> Continue 0 (s\<lparr>pa_tls := pa_tls s @ [True]\<rparr>))
     else None)"

definition parse_power :: "string \<Rightarrow> string list \<Rightarrow> pstate \<Rightarrow> outcome option" where
  "parse_power arg rest s =
    (if arg = ''--nocolor'' \<or> arg = ''--nocolour'' then
       Some (Continue 0 (upd (\<lambda>x. saw (\<lambda>z. z\<lparr>seen_nocolor := True\<rparr>) (x\<lparr>o_nocolor := True\<rparr>)) s))
     else if arg = ''--pl'' then
       Some (with_value ''missing value for --pl'' rest s (\<lambda>v.
         if lower v = ''auto''
         then Continue 1 (upd (\<lambda>x. saw (\<lambda>z. z\<lparr>seen_power_limit := True\<rparr>) (x\<lparr>o_power_limit := ''auto''\<rparr>)) s)
         else case oc_parse_list v 0 False of
           Inl e \<Rightarrow> bad (''invalid --pl ('' @ e @ '')'') s
         | Inr _ \<Rightarrow> Continue 1 (upd (\<lambda>x. saw (\<lambda>z. z\<lparr>seen_power_limit := True\<rparr>) (x\<lparr>o_power_limit := v\<rparr>)) s)))
     else None)"

text \<open>The first entry of a \<open>--tune-caps\<close> list that is not a wattage.\<close>

definition bad_cap :: "string \<Rightarrow> string option" where
  "bad_cap v = find (\<lambda>t. \<not> all_digits t) (split_on CHR '','' v)"

definition parse_tune :: "string \<Rightarrow> string list \<Rightarrow> pstate \<Rightarrow> outcome option" where
  "parse_tune arg rest s =
    (if arg = ''--tune'' then Some (Continue 0 ((upd (\<lambda>x. x\<lparr>o_tune := True\<rparr>) s)\<lparr>pa_algo := ''BEAM-III''\<rparr>))
     else if arg = ''--tune-seconds'' then
       Some (with_value ''missing value for --tune-seconds'' rest s (\<lambda>v. case strtol v of (n, r) \<Rightarrow>
         if r \<noteq> '''' \<or> n < 15 then bad (''invalid --tune-seconds (must be an integer >= 15; shorter '' @
             ''windows measure ramp, not rate)'') s
         else Continue 1 (upd (\<lambda>x. saw (\<lambda>z. z\<lparr>seen_tune_seconds := True\<rparr>) (x\<lparr>o_tune_seconds := to_int32 n\<rparr>)) s)))
     else if arg = ''--tune-caps'' then
       Some (with_value ''missing value for --tune-caps'' rest s (\<lambda>v. case bad_cap v of
           Some t \<Rightarrow> bad (''invalid --tune-caps ('' @ cquote t @ '' is not a wattage)'') s
         | None \<Rightarrow> Continue 1 (upd (\<lambda>x. saw (\<lambda>z. z\<lparr>seen_tune_caps := True\<rparr>) (x\<lparr>o_tune_caps := v\<rparr>)) s)))
     else if arg = ''--tune-min-gain'' then
       Some (with_value ''missing value for --tune-min-gain'' rest s (\<lambda>v. case strtod v of (d, r, erange) \<Rightarrow>
         if r \<noteq> '''' \<or> \<not> (case d of Fin q \<Rightarrow> q > 0 | PInf \<Rightarrow> True | _ \<Rightarrow> False)
         then bad ''invalid --tune-min-gain (sol/s per watt, must be > 0)'' s
         else Continue 1 (upd (\<lambda>x. x\<lparr>o_tune_min_gain := d\<rparr>) s)))
     else None)"

definition set_clock :: "string \<Rightarrow> string \<Rightarrow> options \<Rightarrow> options" where
  "set_clock arg spec x =
    (if arg = ''--cclk'' then saw (\<lambda>z. z\<lparr>seen_core_clock := True\<rparr>) (x\<lparr>o_core_clock := spec\<rparr>)
     else if arg = ''--mclk'' then saw (\<lambda>z. z\<lparr>seen_mem_clock := True\<rparr>) (x\<lparr>o_mem_clock := spec\<rparr>)
     else if arg = ''--coff'' then saw (\<lambda>z. z\<lparr>seen_core_offset := True\<rparr>) (x\<lparr>o_core_offset := spec\<rparr>)
     else if arg = ''--moff'' then saw (\<lambda>z. z\<lparr>seen_mem_offset := True\<rparr>) (x\<lparr>o_mem_offset := spec\<rparr>)
     else saw (\<lambda>z. z\<lparr>seen_fan := True\<rparr>) (x\<lparr>o_fan := spec\<rparr>))"

definition parse_clocks :: "string \<Rightarrow> string list \<Rightarrow> pstate \<Rightarrow> outcome option" where
  "parse_clocks arg rest s =
    (if arg \<in> {''--cclk'', ''--mclk'', ''--coff'', ''--moff'', ''--fan''} then
       Some (with_value (''missing value for '' @ arg) rest s (\<lambda>v.
         case oc_parse_list v 0 (arg = ''--coff'' \<or> arg = ''--moff'' \<or> arg = ''--fan'') of
           Inl e \<Rightarrow> bad (''invalid '' @ arg @ '' ('' @ e @ '')'') s
         | Inr _ \<Rightarrow> Continue 1 (upd (set_clock arg v) s)))
     else None)"

text \<open>A flag whose value is an integer in a range.\<close>

definition int_flag :: "string \<Rightarrow> string \<Rightarrow> int \<Rightarrow> int \<Rightarrow> (int \<Rightarrow> options \<Rightarrow> options) \<Rightarrow> string list \<Rightarrow> pstate \<Rightarrow> outcome" where
  "int_flag arg invalid lo hi set_opt rest s =
    with_value (''missing value for '' @ arg) rest s (\<lambda>v. case parse_int v lo hi of
      None \<Rightarrow> bad invalid s
    | Some n \<Rightarrow> Continue 1 (upd (set_opt n) s))"

definition parse_limits :: "string \<Rightarrow> string list \<Rightarrow> pstate \<Rightarrow> outcome option" where
  "parse_limits arg rest s =
    (if arg = ''--silence'' then
       Some (int_flag arg ''invalid --silence (must be 0, 1, 2 or 3)'' kSilenceMin kSilenceMax
         (\<lambda>n x. saw (\<lambda>z. z\<lparr>seen_silence := True\<rparr>) (x\<lparr>o_silence := n\<rparr>)) rest s)
     else if arg = ''--keepfree'' then
       Some (int_flag arg ''invalid --keepfree (megabytes, 0 or more)'' kKeepFreeMbMin kKeepFreeMbMax
         (\<lambda>n x. saw (\<lambda>z. z\<lparr>seen_keepfree := True\<rparr>) (x\<lparr>o_keepfree_mb := n\<rparr>)) rest s)
     else if arg = ''--tstop'' then
       Some (int_flag arg (''invalid '' @ arg @ '' (degrees C, 0 disables)'') kTempCMin kTempCMax
         (\<lambda>n x. saw (\<lambda>z. z\<lparr>seen_tstop := True\<rparr>) (x\<lparr>o_tstop := n\<rparr>)) rest s)
     else if arg = ''--tstart'' then
       Some (int_flag arg (''invalid '' @ arg @ '' (degrees C, 0 disables)'') kTempCMin kTempCMax
         (\<lambda>n x. saw (\<lambda>z. z\<lparr>seen_tstart := True\<rparr>) (x\<lparr>o_tstart := n\<rparr>)) rest s)
     else if arg = ''--tmode'' then
       Some (with_value ''missing value for --tmode'' rest s (\<lambda>v.
         let m = lower_trim v
         in if m \<noteq> ''edge'' \<and> m \<noteq> ''junction'' \<and> m \<noteq> ''memory''
            then bad ''invalid --tmode (edge, junction or memory)'' s
            else Continue 1 (upd (\<lambda>x. saw (\<lambda>z. z\<lparr>seen_tmode := True\<rparr>) (x\<lparr>o_tmode := m\<rparr>)) s)))
     else None)"

definition set_layout :: "bool \<Rightarrow> options \<Rightarrow> options" where
  "set_layout vertical x =
    (if vertical then saw (\<lambda>z. z\<lparr>seen_vstats := True\<rparr>) (x\<lparr>o_vstats := True\<rparr>)
     else saw (\<lambda>z. z\<lparr>seen_hstats := True\<rparr>) (x\<lparr>o_hstats := True\<rparr>))"

definition parse_layout :: "string \<Rightarrow> string list \<Rightarrow> pstate \<Rightarrow> outcome option" where
  "parse_layout arg rest s =
    (if arg = ''--statsformat'' then
       Some (with_value ''missing value for --statsformat'' rest s (\<lambda>v.
         Continue 1 (upd (\<lambda>x. saw (\<lambda>z. z\<lparr>seen_statsformat := True\<rparr>) (x\<lparr>o_statsformat := v\<rparr>)) s)))
     else if arg = ''--vstats'' \<or> arg = ''--hstats'' then
       (let vertical = (arg = ''--vstats'')
        in Some (case rest of
            v # vs \<Rightarrow>
              if v \<noteq> '''' \<and> \<not> has_prefix ''-'' v then
                (case parse_int v 20 1000 of
                   None \<Rightarrow> bad (''invalid width for '' @ arg @ '' (characters, 20..1000)'') s
                 | Some n \<Rightarrow> Continue 1 (upd (\<lambda>x. set_layout vertical (x\<lparr>o_stats_width := n\<rparr>)) s))
              else Continue 0 (upd (set_layout vertical) s)
          | [] \<Rightarrow> Continue 0 (upd (set_layout vertical) s)))
     else if arg = ''--compactaccept'' then
       Some (Continue 0 (upd (\<lambda>x. saw (\<lambda>z. z\<lparr>seen_compactaccept := True\<rparr>) (x\<lparr>o_compactaccept := True\<rparr>)) s))
     else None)"

text \<open>An optional switch value: the value, and whether an argument was consumed.\<close>

definition switch_value :: "string list \<Rightarrow> bool \<times> nat" where
  "switch_value rest =
    (case rest of
       v # vs \<Rightarrow> if v = ''0'' \<or> v = ''off'' then (False, 1) else if v = ''1'' \<or> v = ''on'' then (True, 1) else (True, 0)
     | [] \<Rightarrow> (True, 0))"

definition set_switch :: "string \<Rightarrow> bool \<Rightarrow> options \<Rightarrow> options" where
  "set_switch arg b x =
    (if arg = ''--log'' then saw (\<lambda>z. z\<lparr>seen_log := True\<rparr>) (x\<lparr>o_log_enabled := b\<rparr>)
     else if arg = ''--timeprint'' then saw (\<lambda>z. z\<lparr>seen_timeprint := True\<rparr>) (x\<lparr>o_timeprint := b\<rparr>)
     else saw (\<lambda>z. z\<lparr>seen_no_oc_reset := True\<rparr>) (x\<lparr>o_no_oc_reset := b\<rparr>))"

definition parse_logging :: "string \<Rightarrow> string list \<Rightarrow> pstate \<Rightarrow> outcome option" where
  "parse_logging arg rest s =
    (if arg = ''--log'' \<or> arg = ''--timeprint'' \<or> arg = ''--no-oc-reset'' then
       (case switch_value rest of (b, n) \<Rightarrow> Some (Continue n (upd (set_switch arg b) s)))
     else if arg = ''--watchdogscript'' then
       Some (with_value ''missing value for --watchdogscript'' rest s (\<lambda>v.
         Continue 1 (upd (\<lambda>x. x\<lparr>o_watchdog_script := v\<rparr>) s)))
     else if arg = ''--logfile'' then
       Some (with_value ''missing value for --logfile'' rest s (\<lambda>v.
         Continue 1 (upd (\<lambda>x. saw (\<lambda>z. z\<lparr>seen_logfile := True\<rparr>) (x\<lparr>o_log_path := v\<rparr>)) s)))
     else if arg = ''--digits'' then
       Some (int_flag arg ''invalid --digits (must be 0..6)'' kDigitsMin kDigitsMax
         (\<lambda>n x. saw (\<lambda>z. z\<lparr>seen_digits := True\<rparr>) (x\<lparr>o_digits := n\<rparr>)) rest s)
     else if arg = ''--watchdog'' then
       (let s = upd (\<lambda>x. saw (\<lambda>z. z\<lparr>seen_watchdog := True\<rparr>) (x\<lparr>o_watchdog_requested := True\<rparr>)) s
        in Some (case rest of
            v # vs \<Rightarrow> if v = ''off'' \<or> v = ''exit'' \<or> v = ''script''
              then Continue 1 (upd (\<lambda>x. x\<lparr>o_watchdog_action := v\<rparr>) s) else Continue 0 s
          | [] \<Rightarrow> Continue 0 s))
     else None)"

definition parse_api :: "string \<Rightarrow> string list \<Rightarrow> pstate \<Rightarrow> outcome option" where
  "parse_api arg rest s =
    (if arg = ''--apiport'' then
       Some (int_flag arg ''invalid --apiport (must be 0..65535)'' kApiPortMin kApiPortMax
         (\<lambda>n x. saw (\<lambda>z. z\<lparr>seen_apiport := True\<rparr>) (x\<lparr>o_apiport := n\<rparr>)) rest s)
     else if arg = ''--apihost'' then
       Some (with_value ''missing value for --apihost'' rest s (\<lambda>v.
         if \<not> parse_ipv4 v
         then bad ''invalid --apihost (expected an IPv4 address such as 0.0.0.0 or 127.0.0.1)'' s
         else Continue 1 (upd (\<lambda>x. saw (\<lambda>z. z\<lparr>seen_apihost := True\<rparr>) (x\<lparr>o_apihost := v\<rparr>)) s)))
     else if arg = ''--shortstats'' then
       Some (int_flag arg ''invalid --shortstats (must be >=1)'' kStatsIntervalMin int_max
         (\<lambda>n x. saw (\<lambda>z. z\<lparr>seen_shortstats := True\<rparr>) (x\<lparr>o_shortstats := n\<rparr>)) rest s)
     else if arg = ''--longstats'' then
       Some (int_flag arg ''invalid --longstats (must be >=1)'' kStatsIntervalMin int_max
         (\<lambda>n x. saw (\<lambda>z. z\<lparr>seen_longstats := True\<rparr>) (x\<lparr>o_longstats := n\<rparr>)) rest s)
     else None)"

definition parse_devices :: "string \<Rightarrow> string list \<Rightarrow> pstate \<Rightarrow> outcome option" where
  "parse_devices arg rest s =
    (if arg = ''--list-devices'' then
       Some (Continue 0 (upd (\<lambda>x. saw (\<lambda>z. z\<lparr>seen_list_devices := True\<rparr>) (x\<lparr>o_list_devices := True\<rparr>)) s))
     else if arg = ''--devices'' then
       Some (with_value ''missing value for --devices'' rest s (\<lambda>v.
         Continue 1 (upd (\<lambda>x. saw (\<lambda>z. z\<lparr>seen_devices := True\<rparr>) (x\<lparr>o_devices := v\<rparr>)) s)))
     else if arg = ''--devicesbypcie'' then
       Some (Continue 0 (upd (\<lambda>x. saw (\<lambda>z. z\<lparr>seen_devices_by_pcie := True\<rparr>) (x\<lparr>o_devices_by_pcie := True\<rparr>)) s))
     else None)"

text \<open>A number of seconds; only the lower bound is checked before the conversion to \<open>int\<close>.\<close>

definition seconds_flag :: "string \<Rightarrow> (int \<Rightarrow> options \<Rightarrow> options) \<Rightarrow> string list \<Rightarrow> pstate \<Rightarrow> outcome" where
  "seconds_flag arg set_opt rest s =
    with_value (''missing value for '' @ arg) rest s (\<lambda>v. case strtol v of (n, r) \<Rightarrow>
      if r \<noteq> '''' \<or> n < kBenchmarkSecondsMin then bad (''invalid '' @ arg @ '' (must be an integer >= 1)'') s
      else Continue 1 (upd (set_opt (to_int32 n)) s))"

definition parse_modes :: "string \<Rightarrow> string list \<Rightarrow> pstate \<Rightarrow> outcome option" where
  "parse_modes arg rest s =
    (if arg = ''--benchmark'' then
       Some (with_value ''missing value for --benchmark'' rest s (\<lambda>v.
         let up = map toupper v
         in if up \<noteq> ''BEAM-III'' \<and> up \<noteq> ''BEAMHASH3'' \<and> up \<noteq> ''BEAMHASHIII'' \<and> up \<noteq> ''BEAM''
            then bad ''invalid --benchmark algorithm (only BEAM-III is supported)'' s
            else Continue 1 ((upd (\<lambda>x. saw (\<lambda>z. z\<lparr>seen_benchmark := True\<rparr>) (x\<lparr>o_benchmark := ''BEAM-III''\<rparr>)) s)
              \<lparr>pa_algo := ''BEAM-III''\<rparr>)))
     else if arg = ''--benchmark-seconds'' then
       Some (seconds_flag arg (\<lambda>n x. saw (\<lambda>z. z\<lparr>seen_benchmark_seconds := True\<rparr>) (x\<lparr>o_benchmark_seconds := n\<rparr>)) rest s)
     else if arg = ''--report'' then
       Some (Continue 0 ((upd (\<lambda>x. saw (\<lambda>z. z\<lparr>seen_report := True\<rparr>) (x\<lparr>o_report := True\<rparr>)) s)\<lparr>pa_algo := ''BEAM-III''\<rparr>))
     else if arg = ''--report-seconds'' then
       Some (seconds_flag arg (\<lambda>n x. saw (\<lambda>z. z\<lparr>seen_report_seconds := True\<rparr>) (x\<lparr>o_report_seconds := n\<rparr>)) rest s)
     else if arg = ''--report-out'' then
       Some (with_value ''missing value for --report-out'' rest s (\<lambda>v.
         Continue 1 (upd (\<lambda>x. saw (\<lambda>z. z\<lparr>seen_report_out := True\<rparr>) (x\<lparr>o_report_out := v\<rparr>)) s)))
     else None)"

definition fee_value :: "string \<Rightarrow> double option" where
  "fee_value v =
    (case strtod v of (d, r, erange) \<Rightarrow>
      if v = '''' \<or> r \<noteq> '''' \<or> erange then None
      else case d of
        Fin pct \<Rightarrow> if pct < kDevFeePctMin \<or> pct > kDevFeePctMax then None else Some pct
      | _ \<Rightarrow> None)"

definition parse_rest :: "string \<Rightarrow> string list \<Rightarrow> pstate \<Rightarrow> outcome option" where
  "parse_rest arg rest s =
    (if arg = ''--dev-fee'' then
       Some (with_value ''missing value for --dev-fee'' rest s (\<lambda>v. case fee_value v of
           None \<Rightarrow> bad ''invalid --dev-fee (must be a percentage in 0..100, e.g. 2.5)'' s
         | Some pct \<Rightarrow> Continue 1 (upd (\<lambda>x. saw (\<lambda>z. z\<lparr>seen_devfee := True\<rparr>) (x\<lparr>o_devfee_pct := pct\<rparr>)) s)))
     else if arg = ''--solver'' then
       Some (with_value ''missing value for --solver'' rest s (\<lambda>v.
         if v \<notin> {''gpu'', ''cuda'', ''metal'', ''opencl'', ''ref'', ''auto''}
         then bad ''invalid --solver (must be cuda, metal, opencl, gpu, ref, or auto)'' s
         else Continue 1 (upd (\<lambda>x. saw (\<lambda>z. z\<lparr>seen_solver := True\<rparr>) (x\<lparr>o_solver := v\<rparr>)) s)))
     else if arg = ''--json'' then
       (let s = upd (\<lambda>x. x\<lparr>o_use_json_config := True\<rparr>) s
        in Some (case rest of
            v # vs \<Rightarrow> if v \<noteq> '''' \<and> \<not> has_prefix ''--'' v then Continue 1 (upd (\<lambda>x. x\<lparr>o_config_path := v\<rparr>) s)
              else Continue 0 (upd (\<lambda>x. x\<lparr>o_config_path := ''user_config.json''\<rparr>) s)
          | [] \<Rightarrow> Continue 0 (upd (\<lambda>x. x\<lparr>o_config_path := ''user_config.json''\<rparr>) s)))
     else if arg = ''--profile'' then
       Some (with_value ''missing value for --profile'' rest s (\<lambda>v. Continue 1 (upd (\<lambda>x. x\<lparr>o_json_profile := v\<rparr>) s)))
     else if arg = ''--config'' then
       Some (with_value ''missing value for --config'' rest s (\<lambda>v. Continue 1 (upd (\<lambda>x. x\<lparr>o_config_path := v\<rparr>) s)))
     else None)"

definition flag_groups :: "(string \<Rightarrow> string list \<Rightarrow> pstate \<Rightarrow> outcome option) list" where
  "flag_groups = [parse_help, parse_algo, parse_pool_flags, parse_power, parse_tune, parse_clocks, parse_limits,
     parse_layout, parse_logging, parse_api, parse_devices, parse_modes, parse_rest]"

fun first_group :: "(string \<Rightarrow> string list \<Rightarrow> pstate \<Rightarrow> outcome option) list \<Rightarrow> string \<Rightarrow> string list \<Rightarrow> pstate \<Rightarrow> outcome" where
  "first_group [] arg rest s = bad (''unknown flag: '' @ arg) s"
| "first_group (g # gs) arg rest s = (case g arg rest s of Some r \<Rightarrow> r | None \<Rightarrow> first_group gs arg rest s)"

definition parse_one :: "string \<Rightarrow> string list \<Rightarrow> pstate \<Rightarrow> outcome" where
  "parse_one arg rest s =
    (case expand_short arg of Inl e \<Rightarrow> bad e s | Inr arg \<Rightarrow> first_group flag_groups arg rest s)"

function parse_loop :: "string list \<Rightarrow> pstate \<Rightarrow> (string \<times> options) + pstate" where
  "parse_loop [] s = Inr s"
| "parse_loop (arg # rest) s =
    (case parse_one arg rest s of Stop e x \<Rightarrow> Inl (e, x) | Continue n s' \<Rightarrow> parse_loop (drop n rest) s')"
  by pat_completeness auto
termination by (relation "measure (\<lambda>(args, s). length args)") auto

section \<open>After the arguments\<close>

text \<open>The position of the last colon.\<close>

definition split_last_colon :: "string \<Rightarrow> (string \<times> string) option" where
  "split_last_colon s =
    (if CHR '':'' \<notin> set s then None
     else Some (rev (after CHR '':'' (rev s)), rev (before CHR '':'' (rev s))))"

definition unbracket :: "string \<Rightarrow> string" where
  "unbracket h = (if length h \<ge> 2 \<and> hd h = CHR ''['' \<and> last h = CHR '']'' then butlast (tl h) else h)"

text \<open>One \<open>--pool\<close>; the flag tells that the loopback default was substituted.\<close>

definition bind_pool :: "string list \<Rightarrow> string list \<Rightarrow> bool list \<Rightarrow> nat \<Rightarrow> string \<Rightarrow> string + pool_entry \<times> bool" where
  "bind_pool users passes tlss i arg =
    (case split_last_colon arg of
       None \<Rightarrow> Inl ''invalid pool port''
     | Some (host, port) \<Rightarrow>
         if host = '''' then Inl ''invalid pool port''
         else case parse_port port of
           None \<Rightarrow> Inl ''invalid pool port''
         | Some p \<Rightarrow>
             let host = unbracket host; user = bound_value users i ''''; pass = bound_value passes i '''';
                 local = is_loopback_host host;
                 e = \<lparr>pe_host = host, pe_port = p, pe_user = user, pe_pass = pass, pe_tls = bound_value tlss i (\<not> local)\<rparr>
             in if user = '''' then
                  if \<not> local then Inl ''missing --user'' else Inr (e\<lparr>pe_user := kLoopbackDefaultUser\<rparr>, True)
                else Inr (e, False))"

fun bind_pools :: "string list \<Rightarrow> string list \<Rightarrow> bool list \<Rightarrow> nat \<Rightarrow> string list \<Rightarrow> options \<Rightarrow> (string \<times> options) + options" where
  "bind_pools users passes tlss i [] x = Inr x"
| "bind_pools users passes tlss i (p # ps) x =
    (case bind_pool users passes tlss i p of
       Inl e \<Rightarrow> Inl (e, x)
     | Inr (pe, sub) \<Rightarrow>
         bind_pools users passes tlss (i + 1) ps
           (x\<lparr>o_substituted_user := o_substituted_user x \<or> sub, o_pools := o_pools x @ [pe]\<rparr>))"

definition cross_checks :: "options \<Rightarrow> string option" where
  "cross_checks x =
    (if o_vstats x \<and> o_hstats x then Some ''--vstats and --hstats are two layouts; pick one''
     else case (if o_statsformat x = '''' then Inr [] else parse_stats_format (o_statsformat x)) of
       Inl e \<Rightarrow> Some (''invalid --statsformat: '' @ e)
     | Inr _ \<Rightarrow>
         if o_tstop x \<noteq> 0 \<and> o_tstart x \<noteq> 0 \<and> o_tstart x \<ge> o_tstop x
         then Some ''--tstart must be below --tstop (it is the temperature to resume at)'' else None)"

definition parse_finish :: "pstate \<Rightarrow> (string \<times> options) + options" where
  "parse_finish s =
    (let fail = (\<lambda>msg x. Inl (msg @ [CHR 0x0A, CHR 0x0A] @ usage_text, x)); x = pa_out s
     in case cross_checks x of
          Some e \<Rightarrow> fail e x
        | None \<Rightarrow>
            if pa_algo s \<noteq> '''' \<and> pa_algo s \<noteq> ''BEAM-III'' then fail ''unsupported algo'' x
            else
              let x = saw (\<lambda>z. z\<lparr>seen_algo := (pa_algo s \<noteq> ''''), seen_pools := (pa_pools s \<noteq> []),
                        seen_user := (pa_users s \<noteq> []), seen_pass := (pa_passes s \<noteq> []), seen_tls := (pa_tls s \<noteq> [])\<rparr>) x
              in case bind_pools (pa_users s) (pa_passes s) (pa_tls s) 0 (pa_pools s) x of
                   Inl (e, x) \<Rightarrow> fail e x
                 | Inr x \<Rightarrow> Inr x)"

text \<open>The arguments after the program name; an error comes with the options as they were then.\<close>

definition pstate0 :: pstate where
  "pstate0 = \<lparr>pa_out = options0, pa_algo = '''', pa_pools = [], pa_users = [], pa_passes = [], pa_tls = []\<rparr>"

definition parse_args :: "string list \<Rightarrow> (string \<times> options) + options" where
  "parse_args args = (case parse_loop args pstate0 of Inl e \<Rightarrow> Inl e | Inr s \<Rightarrow> parse_finish s)"

definition resolve_implied_options :: "options \<Rightarrow> options" where
  "resolve_implied_options x =
    (let x = (if \<not> seen_log (o_seen x) \<and> o_log_path x \<noteq> '''' then x\<lparr>o_log_enabled := True\<rparr> else x)
     in if o_benchmark x \<noteq> '''' then saw (\<lambda>z. z\<lparr>seen_algo := True\<rparr>) x else x)"

section \<open>Values in range\<close>

text \<open>
  What every accepted command line satisfies. Of \<open>--tune-seconds\<close>, \<open>--benchmark-seconds\<close> and
  \<open>--report-seconds\<close> it only says that they are an \<open>int\<close>: their upper end is not checked, so a
  value that wraps may end below the lower one (see \<open>seconds_wrap\<close>).
\<close>

definition spec_ok :: "string \<Rightarrow> bool \<Rightarrow> bool" where
  "spec_ok v neg = (v = '''' \<or> (\<exists>e. oc_parse_list v 0 neg = Inr e))"

definition gain_ok :: "xdouble \<Rightarrow> bool" where
  "gain_ok d = (case d of Fin q \<Rightarrow> q > 0 | PInf \<Rightarrow> True | _ \<Rightarrow> False)"

definition caps_ok :: "string \<Rightarrow> bool" where
  "caps_ok v = (v = '''' \<or> (\<forall>t \<in> set (split_on CHR '','' v). all_digits t))"

definition int_range :: "int set" where
  "int_range = {-2147483648..int_max}"

definition values_ok :: "options \<Rightarrow> bool" where
  "values_ok x =
    (o_apiport x \<in> {0..65535} \<and> parse_ipv4 (o_apihost x) \<and>
     o_shortstats x \<in> {1..int_max} \<and> o_longstats x \<in> {1..int_max} \<and>
     o_digits x \<in> {0..6} \<and> o_silence x \<in> {0..3} \<and> o_keepfree_mb x \<in> {-1..1048576} \<and>
     o_tstop x \<in> {0..150} \<and> o_tstart x \<in> {0..150} \<and>
     o_tmode x \<in> {''edge'', ''junction'', ''memory''} \<and>
     (o_stats_width x = 0 \<or> o_stats_width x \<in> {20..1000}) \<and>
     o_watchdog_action x \<in> {''off'', ''exit'', ''script''} \<and>
     o_solver x \<in> {''gpu'', ''cuda'', ''metal'', ''opencl'', ''ref'', ''auto''} \<and>
     (o_devfee_pct x = -1 \<or> o_devfee_pct x \<in> {0..100}) \<and>
     (o_power_limit x = ''auto'' \<or> spec_ok (o_power_limit x) False) \<and>
     spec_ok (o_core_clock x) False \<and> spec_ok (o_mem_clock x) False \<and>
     spec_ok (o_core_offset x) True \<and> spec_ok (o_mem_offset x) True \<and> spec_ok (o_fan x) True \<and>
     gain_ok (o_tune_min_gain x) \<and> caps_ok (o_tune_caps x) \<and> o_benchmark x \<in> {'''', ''BEAM-III''} \<and>
     o_tune_seconds x \<in> int_range \<and> o_benchmark_seconds x \<in> int_range \<and> o_report_seconds x \<in> int_range)"

text \<open>While the arguments are read no pool is bound yet.\<close>

definition reading_ok :: "options \<Rightarrow> bool" where
  "reading_ok x = (values_ok x \<and> o_pools x = [] \<and> \<not> o_substituted_user x)"

text \<open>A property of the options that an outcome, if the loop goes on, keeps.\<close>

definition kept :: "(options \<Rightarrow> bool) \<Rightarrow> outcome \<Rightarrow> bool" where
  "kept P r = (case r of Stop e x \<Rightarrow> True | Continue n s \<Rightarrow> P (pa_out s))"

definition group_keeps :: "(options \<Rightarrow> bool) \<Rightarrow> outcome option \<Rightarrow> bool" where
  "group_keeps P r = (case r of None \<Rightarrow> True | Some q \<Rightarrow> kept P q)"

named_theorems kept_intros

lemma kept_bad [kept_intros]: "kept P (bad m s)" by (simp add: kept_def bad_def)

lemma kept_stop [kept_intros]: "kept P (Stop e x)" by (simp add: kept_def)

lemma kept_upd: "P (f (pa_out s)) \<Longrightarrow> kept P (Continue n (upd f s))"
  by (simp add: kept_def upd_def)

lemma kept_continue: "P (pa_out s) \<Longrightarrow> kept P (Continue n s)" by (simp add: kept_def)

lemma kept_if [kept_intros]: "(b \<Longrightarrow> kept P p) \<Longrightarrow> (\<not> b \<Longrightarrow> kept P q) \<Longrightarrow> kept P (if b then p else q)"
  by simp

lemma kept_value [kept_intros]: "(\<And>v. kept P (k v)) \<Longrightarrow> kept P (with_value m rest s k)"
  by (simp add: with_value_def kept_bad split: list.splits)

lemma kept_list [kept_intros]:
  "kept P p \<Longrightarrow> (\<And>v vs. kept P (q v vs)) \<Longrightarrow> kept P (case rest of [] \<Rightarrow> p | v # vs \<Rightarrow> q v vs)"
  by (simp split: list.splits)

lemma kept_option [kept_intros]:
  "(z = None \<Longrightarrow> kept P p) \<Longrightarrow> (\<And>v. z = Some v \<Longrightarrow> kept P (q v)) \<Longrightarrow> kept P (case z of None \<Rightarrow> p | Some v \<Rightarrow> q v)"
  by (simp split: option.splits)

lemma kept_sum [kept_intros]:
  "(\<And>e. kept P (p e)) \<Longrightarrow> (\<And>v. z = Inr v \<Longrightarrow> kept P (q v)) \<Longrightarrow> kept P (case z of Inl e \<Rightarrow> p e | Inr v \<Rightarrow> q v)"
  by (simp split: sum.splits)

lemma kept_pair [kept_intros]: "(\<And>a b. kept P (q a b)) \<Longrightarrow> kept P (case z of (a, b) \<Rightarrow> q a b)"
  by (simp split: prod.splits)

lemma parse_int_some: "parse_int v lo hi = Some n \<Longrightarrow> lo \<le> n \<and> n \<le> hi"
  by (auto simp: parse_int_def Let_def split: if_splits)

lemma kept_int_flag [kept_intros]:
  "(\<And>i. lo \<le> i \<Longrightarrow> i \<le> hi \<Longrightarrow> P (f i (pa_out s))) \<Longrightarrow> kept P (int_flag arg m lo hi f rest s)"
  unfolding int_flag_def by (intro kept_value kept_option kept_bad kept_upd) (blast dest: parse_int_some)

lemma group_keeps_simps [kept_intros]:
  "group_keeps P None" "kept P q \<Longrightarrow> group_keeps P (Some q)"
  "group_keeps P r1 \<Longrightarrow> group_keeps P r2 \<Longrightarrow> group_keeps P (if b then r1 else r2)"
  "(\<And>a b. group_keeps P (g a b)) \<Longrightarrow> group_keeps P (case z of (a, b) \<Rightarrow> g a b)"
  by (simp_all add: group_keeps_def split: prod.splits)

lemmas limit_defs = kApiPortMin_def kApiPortMax_def kStatsIntervalMin_def kDigitsMin_def kDigitsMax_def
  kSilenceMin_def kSilenceMax_def kKeepFreeMbMin_def kKeepFreeMbMax_def kTempCMin_def kTempCMax_def
  kDevFeePctMin_def kDevFeePctMax_def

text \<open>The setters.\<close>

lemma values_saw [simp]: "reading_ok (saw f x) = reading_ok x" by (simp add: saw_def reading_ok_def values_ok_def)

lemma values_free [simp]:
  "reading_ok (x\<lparr>o_nocolor := b\<rparr>) = reading_ok x" "reading_ok (x\<lparr>o_devices := v\<rparr>) = reading_ok x"
  "reading_ok (x\<lparr>o_devices_by_pcie := b\<rparr>) = reading_ok x" "reading_ok (x\<lparr>o_list_devices := b\<rparr>) = reading_ok x"
  "reading_ok (x\<lparr>o_list_algos := b\<rparr>) = reading_ok x" "reading_ok (x\<lparr>o_list_coins := b\<rparr>) = reading_ok x"
  "reading_ok (x\<lparr>o_watchdog_requested := b\<rparr>) = reading_ok x" "reading_ok (x\<lparr>o_watchdog_script := v\<rparr>) = reading_ok x"
  "reading_ok (x\<lparr>o_log_enabled := b\<rparr>) = reading_ok x" "reading_ok (x\<lparr>o_log_path := v\<rparr>) = reading_ok x"
  "reading_ok (x\<lparr>o_timeprint := b\<rparr>) = reading_ok x" "reading_ok (x\<lparr>o_compactaccept := b\<rparr>) = reading_ok x"
  "reading_ok (x\<lparr>o_statsformat := v\<rparr>) = reading_ok x" "reading_ok (x\<lparr>o_vstats := b\<rparr>) = reading_ok x"
  "reading_ok (x\<lparr>o_hstats := b\<rparr>) = reading_ok x" "reading_ok (x\<lparr>o_no_oc_reset := b\<rparr>) = reading_ok x"
  by (simp_all add: reading_ok_def values_ok_def)

lemma values_free' [simp]:
  "reading_ok (x\<lparr>o_report := b\<rparr>) = reading_ok x" "reading_ok (x\<lparr>o_report_out := v\<rparr>) = reading_ok x"
  "reading_ok (x\<lparr>o_tune := b\<rparr>) = reading_ok x" "reading_ok (x\<lparr>o_config_path := v\<rparr>) = reading_ok x"
  "reading_ok (x\<lparr>o_json_profile := v\<rparr>) = reading_ok x" "reading_ok (x\<lparr>o_use_json_config := b\<rparr>) = reading_ok x"
  by (simp_all add: reading_ok_def values_ok_def)

lemma int32_range [simp]: "to_int32 n \<in> int_range"
proof -
  have "- (2 ^ 31) \<le> sint (word_of_int n :: 32 word)" "sint (word_of_int n :: 32 word) < 2 ^ 31"
    using sint_ge [of "word_of_int n :: 32 word"] sint_lt [of "word_of_int n :: 32 word"] by simp_all
  then show ?thesis by (simp add: to_int32_def int_range_def int_max_def)
qed

lemma values_windows [simp]:
  assumes "reading_ok x"
  shows "reading_ok (x\<lparr>o_tune_seconds := to_int32 n\<rparr>)" "reading_ok (x\<lparr>o_benchmark_seconds := to_int32 n\<rparr>)"
    "reading_ok (x\<lparr>o_report_seconds := to_int32 n\<rparr>)" "reading_ok (x\<lparr>o_benchmark := ''BEAM-III''\<rparr>)"
  using assms int32_range [of n] unfolding reading_ok_def values_ok_def by simp_all

lemma values_caps [simp]: "reading_ok x \<Longrightarrow> bad_cap v = None \<Longrightarrow> reading_ok (x\<lparr>o_tune_caps := v\<rparr>)"
  by (simp add: reading_ok_def values_ok_def caps_ok_def bad_cap_def find_None_iff)

lemma values_gain: "reading_ok x \<Longrightarrow> gain_ok d \<Longrightarrow> reading_ok (x\<lparr>o_tune_min_gain := d\<rparr>)"
  by (simp add: reading_ok_def values_ok_def)

lemma values_set [simp]:
  assumes "reading_ok x"
  shows "0 \<le> i \<Longrightarrow> i \<le> 65535 \<Longrightarrow> reading_ok (x\<lparr>o_apiport := i\<rparr>)"
    and "parse_ipv4 v \<Longrightarrow> reading_ok (x\<lparr>o_apihost := v\<rparr>)"
    and "1 \<le> i \<Longrightarrow> i \<le> int_max \<Longrightarrow> reading_ok (x\<lparr>o_shortstats := i\<rparr>)"
    and "1 \<le> i \<Longrightarrow> i \<le> int_max \<Longrightarrow> reading_ok (x\<lparr>o_longstats := i\<rparr>)"
    and "0 \<le> i \<Longrightarrow> i \<le> 6 \<Longrightarrow> reading_ok (x\<lparr>o_digits := i\<rparr>)"
    and "0 \<le> i \<Longrightarrow> i \<le> 3 \<Longrightarrow> reading_ok (x\<lparr>o_silence := i\<rparr>)"
    and "0 \<le> i \<Longrightarrow> i \<le> 1048576 \<Longrightarrow> reading_ok (x\<lparr>o_keepfree_mb := i\<rparr>)"
    and "0 \<le> i \<Longrightarrow> i \<le> 150 \<Longrightarrow> reading_ok (x\<lparr>o_tstop := i\<rparr>)"
    and "0 \<le> i \<Longrightarrow> i \<le> 150 \<Longrightarrow> reading_ok (x\<lparr>o_tstart := i\<rparr>)"
    and "20 \<le> i \<Longrightarrow> i \<le> 1000 \<Longrightarrow> reading_ok (x\<lparr>o_stats_width := i\<rparr>)"
    and "0 \<le> p \<Longrightarrow> p \<le> 100 \<Longrightarrow> reading_ok (x\<lparr>o_devfee_pct := p\<rparr>)"
  using assms unfolding reading_ok_def values_ok_def by simp_all

lemma values_set' [simp]:
  assumes "reading_ok x"
  shows "v \<in> {''edge'', ''junction'', ''memory''} \<Longrightarrow> reading_ok (x\<lparr>o_tmode := v\<rparr>)"
    and "v \<in> {''off'', ''exit'', ''script''} \<Longrightarrow> reading_ok (x\<lparr>o_watchdog_action := v\<rparr>)"
    and "v \<in> {''gpu'', ''cuda'', ''metal'', ''opencl'', ''ref'', ''auto''} \<Longrightarrow> reading_ok (x\<lparr>o_solver := v\<rparr>)"
    and "v = ''auto'' \<or> spec_ok v False \<Longrightarrow> reading_ok (x\<lparr>o_power_limit := v\<rparr>)"
    and "spec_ok v False \<Longrightarrow> reading_ok (x\<lparr>o_core_clock := v\<rparr>)"
    and "spec_ok v False \<Longrightarrow> reading_ok (x\<lparr>o_mem_clock := v\<rparr>)"
    and "spec_ok v True \<Longrightarrow> reading_ok (x\<lparr>o_core_offset := v\<rparr>)"
    and "spec_ok v True \<Longrightarrow> reading_ok (x\<lparr>o_mem_offset := v\<rparr>)"
    and "spec_ok v True \<Longrightarrow> reading_ok (x\<lparr>o_fan := v\<rparr>)"
  using assms unfolding reading_ok_def values_ok_def by simp_all

text \<open>The groups.\<close>

lemma values_help: "group_keeps P (parse_help arg rest s)"
  unfolding parse_help_def by (intro kept_intros)

lemma values_algo: "reading_ok (pa_out s) \<Longrightarrow> group_keeps reading_ok (parse_algo arg rest s)"
  unfolding parse_algo_def by (intro kept_intros kept_upd kept_continue) simp_all

lemma values_pool_flags: "reading_ok (pa_out s) \<Longrightarrow> group_keeps reading_ok (parse_pool_flags arg rest s)"
  unfolding parse_pool_flags_def by (intro kept_intros kept_upd kept_continue) simp_all

lemma values_power: "reading_ok (pa_out s) \<Longrightarrow> group_keeps reading_ok (parse_power arg rest s)"
  unfolding parse_power_def by (intro kept_intros kept_upd) (simp_all add: spec_ok_def)

lemma values_tune: "reading_ok (pa_out s) \<Longrightarrow> group_keeps reading_ok (parse_tune arg rest s)"
  unfolding parse_tune_def gain_ok_def [symmetric]
  by (intro kept_intros kept_upd kept_continue) (simp_all add: upd_def values_gain)

lemma values_set_clock:
  assumes "reading_ok x" "oc_parse_list v 0 (arg = ''--coff'' \<or> arg = ''--moff'' \<or> arg = ''--fan'') = Inr e"
    "arg \<in> {''--cclk'', ''--mclk'', ''--coff'', ''--moff'', ''--fan''}"
  shows "reading_ok (set_clock arg v x)"
  using assms(3,1,2) by (elim insertE emptyE) (simp_all add: set_clock_def spec_ok_def exI [of _ e])

lemma values_clocks: "reading_ok (pa_out s) \<Longrightarrow> group_keeps reading_ok (parse_clocks arg rest s)"
proof (cases "arg \<in> {''--cclk'', ''--mclk'', ''--coff'', ''--moff'', ''--fan''}")
  case True
  assume "reading_ok (pa_out s)"
  with True show ?thesis unfolding parse_clocks_def
    by (intro kept_intros kept_upd) (rule values_set_clock)
next
  case False
  then show ?thesis unfolding parse_clocks_def by (simp only: if_False group_keeps_simps(1))
qed

lemma values_limits: "reading_ok (pa_out s) \<Longrightarrow> group_keeps reading_ok (parse_limits arg rest s)"
  unfolding parse_limits_def Let_def limit_defs by (intro kept_intros kept_upd) simp_all

lemma values_set_layout [simp]: "reading_ok (set_layout b x) = reading_ok x"
  by (simp add: set_layout_def)

lemma values_layout: "reading_ok (pa_out s) \<Longrightarrow> group_keeps reading_ok (parse_layout arg rest s)"
  unfolding parse_layout_def Let_def by (intro kept_intros kept_upd) (auto dest!: parse_int_some)

lemma values_set_switch [simp]: "reading_ok (set_switch arg b x) = reading_ok x"
  by (simp add: set_switch_def)

lemma values_logging: "reading_ok (pa_out s) \<Longrightarrow> group_keeps reading_ok (parse_logging arg rest s)"
  unfolding parse_logging_def Let_def limit_defs
  by (intro kept_intros kept_upd kept_continue) (simp_all add: upd_def)

lemma values_api: "reading_ok (pa_out s) \<Longrightarrow> group_keeps reading_ok (parse_api arg rest s)"
  unfolding parse_api_def Let_def limit_defs by (intro kept_intros kept_upd) simp_all

lemma values_devices: "reading_ok (pa_out s) \<Longrightarrow> group_keeps reading_ok (parse_devices arg rest s)"
  unfolding parse_devices_def by (intro kept_intros kept_upd) simp_all

lemma values_modes: "reading_ok (pa_out s) \<Longrightarrow> group_keeps reading_ok (parse_modes arg rest s)"
  unfolding parse_modes_def seconds_flag_def Let_def
  by (intro kept_intros kept_upd kept_continue) (simp_all add: upd_def)

lemma fee_value_range: "fee_value v = Some p \<Longrightarrow> 0 \<le> p \<and> p \<le> 100"
  by (auto simp: fee_value_def limit_defs split: prod.splits if_splits xdouble.splits)

lemma values_rest: "reading_ok (pa_out s) \<Longrightarrow> group_keeps reading_ok (parse_rest arg rest s)"
  unfolding parse_rest_def Let_def
  by (intro kept_intros kept_upd) (auto simp: upd_def dest!: fee_value_range)

lemma first_group_keeps:
  assumes "\<And>g. g \<in> set gs \<Longrightarrow> group_keeps P (g arg rest s)"
  shows "kept P (first_group gs arg rest s)"
  using assms
proof (induction gs)
  case (Cons g gs)
  show ?case
  proof (cases "g arg rest s")
    case None
    with Cons show ?thesis by simp
  next
    case (Some r)
    with Cons.prems [of g] show ?thesis by (simp add: group_keeps_def)
  qed
qed (simp add: kept_intros)

lemma values_parse_one:
  assumes "reading_ok (pa_out s)"
  shows "kept reading_ok (parse_one arg rest s)"
proof -
  have "kept reading_ok (first_group flag_groups a rest s)" for a
    by (rule first_group_keeps) (use assms in \<open>auto simp: flag_groups_def values_help values_algo
      values_pool_flags values_power values_tune values_clocks values_limits values_layout values_logging
      values_api values_devices values_modes values_rest\<close>)
  then show ?thesis by (simp add: parse_one_def kept_bad split: sum.splits)
qed

lemma values_parse_loop: "reading_ok (pa_out s) \<Longrightarrow> parse_loop args s = Inr s' \<Longrightarrow> reading_ok (pa_out s')"
proof (induction args s arbitrary: s' rule: parse_loop.induct)
  case (2 arg rest s)
  from 2(3) obtain n t where t: "parse_one arg rest s = Continue n t" "parse_loop (drop n rest) t = Inr s'"
    by (auto split: outcome.splits)
  with values_parse_one [OF 2(2), of arg rest] have "reading_ok (pa_out t)" by (simp add: kept_def)
  with 2(1) t show ?case by blast
qed simp

lemma values_options0: "reading_ok options0"
proof -
  have "parse_ipv4 ''0.0.0.0''" by code_simp
  moreover have "gain_ok (Fin (dbl (7 / 100)))" by code_simp
  ultimately show ?thesis
    by (simp add: reading_ok_def values_ok_def options0_def spec_ok_def caps_ok_def int_range_def int_max_def)
qed

text \<open>What the argument loop leaves is fit for the checks after it.\<close>

lemma reading_after_loop: "parse_loop args pstate0 = Inr s \<Longrightarrow> reading_ok (pa_out s)"
  by (rule values_parse_loop) (simp_all add: pstate0_def values_options0)

section \<open>Pools\<close>

lemma parse_port_pos: "parse_port v = Some p \<Longrightarrow> p \<noteq> 0"
proof -
  assume "parse_port v = Some p"
  then have r: "1 \<le> strtol10 v" "strtol10 v \<le> 65535" and p: "p = word_of_int (strtol10 v)"
    by (auto simp: parse_port_def Let_def split: if_splits)
  have "uint p = strtol10 v" unfolding p using r by (simp add: unsigned_of_int take_bit_int_eq_self)
  with r show "p \<noteq> 0" by auto
qed

text \<open>The entry that the \<open>i\<close>-th \<open>--pool\<close> becomes.\<close>

definition bound_entry :: "string list \<Rightarrow> string list \<Rightarrow> bool list \<Rightarrow> nat \<Rightarrow> string \<Rightarrow> pool_entry \<Rightarrow> bool" where
  "bound_entry users passes tlss i arg e =
    (let u = bound_value users i '''' in
     \<exists>host port. arg = host @ '':'' @ port \<and> host \<noteq> '''' \<and> CHR '':'' \<notin> set port \<and>
       parse_port port = Some (pe_port e) \<and> pe_port e \<noteq> 0 \<and> pe_host e = unbracket host \<and>
       pe_user e = (if u = '''' then kLoopbackDefaultUser else u) \<and>
       (u = '''' \<longrightarrow> is_loopback_host (pe_host e)) \<and> pe_pass e = bound_value passes i '''' \<and>
       pe_tls e = bound_value tlss i (\<not> is_loopback_host (pe_host e)))"

lemma split_at: "c \<in> set r \<Longrightarrow> r = before c r @ c # after c r"
  by (induction r) (auto simp: before_def after_def)

lemma split_last_colonD:
  assumes "split_last_colon s = Some (host, port)"
  shows "s = host @ '':'' @ port \<and> CHR '':'' \<notin> set port"
proof -
  from assms have c: "CHR '':'' \<in> set (rev s)"
    and hp: "host = rev (after CHR '':'' (rev s))" "port = rev (before CHR '':'' (rev s))"
    by (auto simp: split_last_colon_def split: if_splits)
  from arg_cong [OF split_at [OF c], of rev] have "s = host @ '':'' @ port" unfolding hp by simp
  moreover have "CHR '':'' \<notin> set port" unfolding hp before_def by (auto dest: set_takeWhileD)
  ultimately show ?thesis by simp
qed

lemma bind_pool_bound:
  assumes "bind_pool users passes tlss i arg = Inr (e, sub)"
  shows "bound_entry users passes tlss i arg e \<and> (sub \<longleftrightarrow> bound_value users i '''' = '''')"
proof -
  from assms obtain host port p where s: "split_last_colon arg = Some (host, port)" "host \<noteq> ''''"
    and p: "parse_port port = Some p"
    by (auto simp: bind_pool_def split: option.splits if_splits)
  let ?h = "unbracket host" and ?u = "bound_value users i ''''"
  from assms s p have ok: "?u \<noteq> '''' \<or> is_loopback_host ?h" and sub: "sub \<longleftrightarrow> ?u = ''''"
    and e: "pe_host e = ?h" "pe_port e = p" "pe_user e = (if ?u = '''' then kLoopbackDefaultUser else ?u)"
      "pe_pass e = bound_value passes i ''''" "pe_tls e = bound_value tlss i (\<not> is_loopback_host ?h)"
    by (auto simp: bind_pool_def Let_def split: if_splits)
  show ?thesis unfolding bound_entry_def Let_def
    by (intro conjI exI [of _ host] exI [of _ port] sub)
      (use split_last_colonD [OF s(1)] parse_port_pos [OF p] s(2) p ok e in auto)
qed

lemma bind_pools_bound:
  assumes "bind_pools users passes tlss k ps x = Inr y"
  shows "\<exists>es. o_pools y = o_pools x @ es \<and> length es = length ps \<and>
    (\<forall>i < length ps. bound_entry users passes tlss (k + i) (ps ! i) (es ! i)) \<and>
    (o_substituted_user y \<longleftrightarrow> o_substituted_user x \<or> (\<exists>i < length ps. bound_value users (k + i) '''' = ''''))"
  using assms
proof (induction ps arbitrary: k x)
  case Nil
  then show ?case by simp
next
  case (Cons p ps)
  from Cons.prems obtain e sub where e: "bind_pool users passes tlss k p = Inr (e, sub)"
    and rest: "bind_pools users passes tlss (k + 1) ps
      (x\<lparr>o_substituted_user := o_substituted_user x \<or> sub, o_pools := o_pools x @ [e]\<rparr>) = Inr y"
    by (auto split: sum.splits prod.splits)
  from Cons.IH [OF rest] obtain es where es: "o_pools y = o_pools x @ e # es" "length es = length ps"
    "\<forall>i < length ps. bound_entry users passes tlss (k + 1 + i) (ps ! i) (es ! i)"
    "o_substituted_user y \<longleftrightarrow> (o_substituted_user x \<or> sub) \<or> (\<exists>i < length ps. bound_value users (k + 1 + i) '''' = '''')"
    by auto
  have "bound_entry users passes tlss (k + i) ((p # ps) ! i) ((e # es) ! i)" if "i < length (p # ps)" for i
    using that es(3) bind_pool_bound [OF e] by (cases i) auto
  moreover have "(\<exists>i < length (p # ps). bound_value users (k + i) '''' = '''') \<longleftrightarrow>
      sub \<or> (\<exists>i < length ps. bound_value users (k + 1 + i) '''' = '''')"
    using bind_pool_bound [OF e] by (simp add: Ex_less_Suc2)
  ultimately show ?case using es by (intro exI [of _ "e # es"]) auto
qed

lemma bind_pools_values: "bind_pools users passes tlss k ps x = Inr y \<Longrightarrow>
    values_ok y = values_ok x \<and> cross_checks y = cross_checks x"
proof (induction ps arbitrary: k x)
  case (Cons p ps)
  then obtain e sub where "bind_pools users passes tlss (k + 1) ps
      (x\<lparr>o_substituted_user := o_substituted_user x \<or> sub, o_pools := o_pools x @ [e]\<rparr>) = Inr y"
    by (auto split: sum.splits prod.splits)
  from Cons.IH [OF this] show ?case by (simp add: values_ok_def cross_checks_def)
qed simp

lemma parse_finishD:
  assumes "parse_finish s = Inr x"
  obtains y where "cross_checks (pa_out s) = None" "pa_algo s \<in> {'''', ''BEAM-III''}"
    "y = saw (\<lambda>z. z\<lparr>seen_algo := (pa_algo s \<noteq> ''''), seen_pools := (pa_pools s \<noteq> []),
        seen_user := (pa_users s \<noteq> []), seen_pass := (pa_passes s \<noteq> []), seen_tls := (pa_tls s \<noteq> [])\<rparr>) (pa_out s)"
    "bind_pools (pa_users s) (pa_passes s) (pa_tls s) 0 (pa_pools s) y = Inr x"
  using assms unfolding parse_finish_def Let_def
  by (force split: option.splits if_splits sum.splits prod.splits)

section \<open>What an accepted command line guarantees\<close>

definition options_ok :: "options \<Rightarrow> bool" where
  "options_ok x =
    (values_ok x \<and> \<not> (o_vstats x \<and> o_hstats x) \<and>
     (o_statsformat x = '''' \<or> (\<exists>cs. parse_stats_format (o_statsformat x) = Inr cs)) \<and>
     (o_tstop x = 0 \<or> o_tstart x = 0 \<or> o_tstart x < o_tstop x) \<and>
     list_all (\<lambda>e. pe_port e \<noteq> 0 \<and> pe_user e \<noteq> '''') (o_pools x))"

lemma bound_entryD: "bound_entry users passes tlss i arg e \<Longrightarrow> pe_port e \<noteq> 0 \<and> pe_user e \<noteq> ''''"
  by (auto simp: bound_entry_def Let_def kLoopbackDefaultUser_def split: if_splits)

lemma checks_saw: "cross_checks (saw f x) = cross_checks x" "values_ok (saw f x) = values_ok x"
  by (simp_all add: saw_def cross_checks_def values_ok_def)

lemma parse_argsE:
  assumes "parse_args args = Inr x"
  obtains s where "parse_loop args pstate0 = Inr s" "parse_finish s = Inr x"
  using assms by (auto simp: parse_args_def split: sum.splits)

lemma finish_pools:
  assumes "parse_loop args pstate0 = Inr s" "parse_finish s = Inr x"
  shows "length (o_pools x) = length (pa_pools s) \<and>
    (\<forall>i < length (pa_pools s). bound_entry (pa_users s) (pa_passes s) (pa_tls s) i (pa_pools s ! i) (o_pools x ! i)) \<and>
    (o_substituted_user x \<longleftrightarrow> (\<exists>i < length (pa_pools s). bound_value (pa_users s) i '''' = ''''))"
  using assms(2)
proof (rule parse_finishD)
  fix y
  assume y: "y = saw (\<lambda>z. z\<lparr>seen_algo := (pa_algo s \<noteq> ''''), seen_pools := (pa_pools s \<noteq> []),
        seen_user := (pa_users s \<noteq> []), seen_pass := (pa_passes s \<noteq> []), seen_tls := (pa_tls s \<noteq> [])\<rparr>) (pa_out s)"
    and b: "bind_pools (pa_users s) (pa_passes s) (pa_tls s) 0 (pa_pools s) y = Inr x"
  from reading_after_loop [OF assms(1)] have "o_pools y = [] \<and> \<not> o_substituted_user y"
    by (simp add: y reading_ok_def saw_def)
  with bind_pools_bound [OF b] show ?thesis by auto
qed

lemma parse_args_ok:
  assumes "parse_args args = Inr x"
  shows "options_ok x"
proof -
  from assms obtain s where s: "parse_loop args pstate0 = Inr s" and f: "parse_finish s = Inr x" by (rule parse_argsE)
  from finish_pools [OF s f] have "list_all (\<lambda>e. pe_port e \<noteq> 0 \<and> pe_user e \<noteq> '''') (o_pools x)"
    by (auto simp: list_all_length dest!: spec dest: bound_entryD)
  moreover from f have "values_ok x \<and> cross_checks x = None"
  proof (rule parse_finishD)
    fix y
    assume "cross_checks (pa_out s) = None"
      and y: "y = saw (\<lambda>z. z\<lparr>seen_algo := (pa_algo s \<noteq> ''''), seen_pools := (pa_pools s \<noteq> []),
        seen_user := (pa_users s \<noteq> []), seen_pass := (pa_passes s \<noteq> []), seen_tls := (pa_tls s \<noteq> [])\<rparr>) (pa_out s)"
      and b: "bind_pools (pa_users s) (pa_passes s) (pa_tls s) 0 (pa_pools s) y = Inr x"
    with reading_after_loop [OF s] have "values_ok y \<and> cross_checks y = None"
      by (simp add: reading_ok_def checks_saw)
    with bind_pools_values [OF b] show ?thesis by simp
  qed
  ultimately show ?thesis
    by (auto simp: options_ok_def cross_checks_def split: if_splits sum.splits)
qed

text \<open>
  C9: Every command line that is accepted gives options in range: the numbers lie between their
  bounds, the least gain of the tuner is positive and its list of caps is a list of wattages, the
  words are among their choices, the API address is an IPv4 address, every overclocking list parses,
  the statistics columns are known, the two layouts are not both asked for, the temperature to resume
  at is below the one to stop at, and every pool has a port and a login. The three windows in seconds
  are excepted: they are only known to be an \<open>int\<close>, since a value above its end wraps.
\<close>
theorem accepted_options_valid:
  assumes "parse_args args = Inr x"
  shows "options_ok x"
  by (rule parse_args_ok [OF assms])

theorem accepted_options_valid_witness:
  "case parse_args [''-a'', ''BEAM-III'', ''-p'', ''eu.pool:3333'', ''-u'', ''abc'', ''--tstop'', ''85'', ''--tstart'', ''60'']
   of Inr x \<Rightarrow> options_ok x \<and> o_tstop x = 85 | Inl _ \<Rightarrow> False"
proof -
  let ?args = "[''-a'', ''BEAM-III'', ''-p'', ''eu.pool:3333'', ''-u'', ''abc'', ''--tstop'', ''85'', ''--tstart'', ''60'']"
  have "case parse_args ?args of Inr x \<Rightarrow> o_tstop x = 85 | Inl _ \<Rightarrow> False" by code_simp
  then show ?thesis using accepted_options_valid [of ?args] by (simp split: sum.splits)
qed

text \<open>
  Pools bind to their options by position: the accepted command line has one pool per
  \<open>--pool\<close>, in order; the \<open>i\<close>-th has the host and port its argument names (split at the last colon, an
  IPv6 literal without its brackets), the \<open>i\<close>-th \<open>--user\<close>, \<open>--pass\<close> and \<open>--tls\<close> or the last one given, and
  TLS by default exactly when the host is not this machine. A login is filled in only for a pool on
  this machine, and the options record that it was.
\<close>
theorem pools_bind_by_position:
  assumes "parse_loop args pstate0 = Inr s" "parse_args args = Inr x"
  shows "length (o_pools x) = length (pa_pools s) \<and>
    (\<forall>i < length (pa_pools s). bound_entry (pa_users s) (pa_passes s) (pa_tls s) i (pa_pools s ! i) (o_pools x ! i)) \<and>
    (o_substituted_user x \<longleftrightarrow> (\<exists>i < length (pa_pools s). bound_value (pa_users s) i '''' = ''''))"
  by (rule finish_pools [OF assms(1)]) (use assms in \<open>simp add: parse_args_def\<close>)

definition two_pools :: "string list" where
  "two_pools = [''-p'', ''eu.pool:3333'', ''-p'', ''[::1]:4000'', ''-u'', ''abc'', ''-u'', '''']"

definition two_pools_state :: pstate where
  "two_pools_state = pstate0\<lparr>pa_pools := [''eu.pool:3333'', ''[::1]:4000''], pa_users := [''abc'', '''']\<rparr>"

lemma two_pools_loop: "parse_loop two_pools pstate0 = Inr two_pools_state"
  by code_simp

lemma two_pools_accepted: "case parse_args two_pools of Inr x \<Rightarrow> True | Inl _ \<Rightarrow> False"
  by code_simp

theorem pools_bind_by_position_witness:
  "case parse_args two_pools of
     Inr x \<Rightarrow> length (o_pools x) = 2 \<and> o_substituted_user x \<and>
       bound_entry [''abc'', ''''] [] [] 1 ''[::1]:4000'' (o_pools x ! 1)
   | Inl _ \<Rightarrow> False"
proof -
  from two_pools_accepted obtain x where x: "parse_args two_pools = Inr x" by (auto split: sum.splits)
  have s: "pa_pools two_pools_state = [''eu.pool:3333'', ''[::1]:4000'']" "pa_users two_pools_state = [''abc'', '''']"
    "pa_passes two_pools_state = []" "pa_tls two_pools_state = []"
    by (simp_all add: two_pools_state_def pstate0_def)
  note b = pools_bind_by_position [OF two_pools_loop x]
  have "length (o_pools x) = 2" using b by (simp add: s)
  moreover have "bound_entry [''abc'', ''''] [] [] 1 ''[::1]:4000'' (o_pools x ! 1)"
    using b [THEN conjunct2, THEN conjunct1, rule_format, of 1] by (simp add: s)
  moreover have "o_substituted_user x"
    using b by (auto simp: s bound_value_def intro!: exI [of _ 1])
  ultimately show ?thesis by (simp add: x)
qed

section \<open>The device list\<close>

lemma fold_take_dev:
  "distinct sel \<Longrightarrow> distinct (fold take_dev xs sel) \<and> set (fold take_dev xs sel) = set sel \<union> set xs"
  by (induction xs arbitrary: sel) (auto simp: take_dev_def)

lemma token_devices_range: "token_devices devs b tok = Inr hits \<Longrightarrow> set hits \<subseteq> {..<length devs} \<and> hits \<noteq> []"
  by (auto simp: token_devices_def Let_def split: if_splits option.splits)

lemma resolve_tokens_sound:
  "resolve_tokens devs b ts sel = Inr sel' \<Longrightarrow> distinct sel \<Longrightarrow> set sel \<subseteq> {..<length devs} \<Longrightarrow>
    distinct sel' \<and> set sel \<subseteq> set sel' \<and> set sel' \<subseteq> {..<length devs} \<and>
    (\<forall>t \<in> set ts. \<exists>hits. token_devices devs b (lower_trim t) = Inr hits \<and> hits \<noteq> [] \<and> set hits \<subseteq> set sel')"
proof (induction ts arbitrary: sel)
  case Nil
  then show ?case by simp
next
  case (Cons t ts)
  then obtain hits where h: "token_devices devs b (lower_trim t) = Inr hits"
    and r: "resolve_tokens devs b ts (fold take_dev hits sel) = Inr sel'"
    by (auto split: sum.splits)
  from fold_take_dev [OF Cons.prems(2)] token_devices_range [OF h] Cons.prems(3)
  have "distinct (fold take_dev hits sel)" "set (fold take_dev hits sel) = set sel \<union> set hits"
    "set (fold take_dev hits sel) \<subseteq> {..<length devs}" by auto
  with Cons.IH [OF r] h token_devices_range [OF h] show ?case by auto
qed

text \<open>
  C24: A device list that resolves names each card once, names only cards that exist, and, unless it
  asks for all of them, names at least one; every entry of the list contributed a card, so a typo is
  never silently dropped.
\<close>
theorem resolved_devices_exist_once:
  assumes "resolve_devices spec devs by_pcie = Inr sel"
  shows "distinct sel \<and> set sel \<subseteq> {..<length devs} \<and> (sel = [] \<longrightarrow> devs = []) \<and>
    (lower_trim spec \<noteq> '''' \<and> lower_trim spec \<noteq> ''all'' \<longrightarrow>
      (\<forall>t \<in> set (split_on CHR '','' (lower_trim spec)). \<exists>hits.
        token_devices devs by_pcie (lower_trim t) = Inr hits \<and> hits \<noteq> [] \<and> set hits \<subseteq> set sel))"
proof (cases "lower_trim spec = '''' \<or> lower_trim spec = ''all''")
  case True
  then have "sel = [0..<length devs]" using assms unfolding resolve_devices_def Let_def by auto
  with True show ?thesis by auto
next
  case False
  then have "resolve_tokens devs by_pcie (split_on CHR '','' (lower_trim spec)) [] = Inr sel" "sel \<noteq> []"
    using assms unfolding resolve_devices_def Let_def by (auto split: if_splits sum.splits)
  with resolve_tokens_sound [OF this(1)] show ?thesis by simp
qed

definition rig_cards :: "device_ref list" where
  "rig_cards = [\<lparr>dr_pci = ''0000:01:00.0'', dr_vendor = ''NVIDIA Corporation''\<rparr>,
     \<lparr>dr_pci = ''0000:03:00.0'', dr_vendor = ''Advanced Micro Devices, Inc.''\<rparr>]"

theorem resolved_devices_exist_once_witness:
  "resolve_devices ''AMD, 1, 0'' rig_cards False = Inr [1, 0] \<and>
   distinct [1, 0 :: nat] \<and> set [1, 0] \<subseteq> {..<length rig_cards}"
proof -
  have t: "lower_trim ''AMD, 1, 0'' = ''amd, 1, 0''" "split_on CHR '','' ''amd, 1, 0'' = [''amd'', '' 1'', '' 0'']"
    "lower_trim ''amd'' = ''amd''" "lower_trim '' 1'' = ''1''" "lower_trim '' 0'' = ''0''" by code_simp+
  have v: "vendor_matches ''amd'' ''NVIDIA Corporation'' = False" "vendor_matches ''amd'' ''Advanced Micro Devices, Inc.''"
    "vendor_keyword ''amd''" "vendor_keyword ''0'' = False" "vendor_keyword ''1'' = False" "strtol10 ''0'' = 0"
    "strtol10 ''1'' = 1" "list_all is_digit ''0''" "list_all is_digit ''1''"
    by code_simp+
  have d: "token_devices rig_cards False ''amd'' = Inr [1]" "token_devices rig_cards False ''1'' = Inr [1]"
    "token_devices rig_cards False ''0'' = Inr [0]"
    using v by (simp_all add: token_devices_def Let_def rig_cards_def)
  have r: "resolve_devices ''AMD, 1, 0'' rig_cards False = Inr [1, 0]"
    unfolding resolve_devices_def Let_def t by (simp add: t d take_dev_def) (simp add: rig_cards_def)
  with resolved_devices_exist_once [OF r] show ?thesis by simp
qed

text \<open>
  \<open>--benchmark-seconds\<close> checks only the lower bound: every count from 1 that a \<open>long\<close> holds is
  accepted, and what is stored is the count wrapped to 32 bits, so that \<open>2 ^ 32 + 1\<close> seconds are
  accepted and run as one, and \<open>2 ^ 31\<close> seconds are stored as a negative number.
\<close>
theorem seconds_wrap:
  assumes "0 < n" "n < 2 ^ 63"
  shows "\<exists>x. parse_args [''--benchmark-seconds'', dec n] = Inr x \<and> o_benchmark_seconds x = to_int32 (int n)"
proof -
  define t where "t = upd (\<lambda>x. saw (\<lambda>z. z\<lparr>seen_benchmark_seconds := True\<rparr>)
      (x\<lparr>o_benchmark_seconds := to_int32 (int n)\<rparr>)) pstate0"
  have "parse_one ''--benchmark-seconds'' [dec n] pstate0 = seconds_flag ''--benchmark-seconds''
      (\<lambda>n x. saw (\<lambda>z. z\<lparr>seen_benchmark_seconds := True\<rparr>) (x\<lparr>o_benchmark_seconds := n\<rparr>)) [dec n] pstate0"
    by (simp add: parse_one_def expand_short_def flag_groups_def parse_help_def parse_algo_def parse_pool_flags_def
      parse_power_def parse_tune_def parse_clocks_def parse_limits_def parse_layout_def parse_logging_def
      parse_api_def parse_devices_def parse_modes_def)
  also have "\<dots> = Continue 1 t"
    using assms by (simp add: seconds_flag_def with_value_def strtol_dec kBenchmarkSecondsMin_def t_def)
  finally have l: "parse_loop [''--benchmark-seconds'', dec n] pstate0 = Inr t" by simp
  have "cross_checks (pa_out t) = None" "pa_algo t = ''''" "pa_pools t = []"
    "o_benchmark_seconds (pa_out t) = to_int32 (int n)"
    by (simp_all add: t_def upd_def saw_def pstate0_def options0_def cross_checks_def)
  then show ?thesis unfolding parse_args_def l by (simp add: parse_finish_def Let_def saw_def)
qed

theorem seconds_wrap_witness:
  "\<exists>x. parse_args [''--benchmark-seconds'', dec 4294967297] = Inr x \<and> o_benchmark_seconds x = 1"
  using seconds_wrap [of 4294967297] by (simp add: to_int32_def)

lemma conflicting_algo_accepted:
  "case parse_args [''--algo'', ''ETHASH'', ''--benchmark'', ''BEAM-III''] of Inr x \<Rightarrow> o_benchmark x = ''BEAM-III'' | Inl _ \<Rightarrow> False"
  by code_simp

lemma empty_host_accepted:
  "case parse_args [''--pool'', ''[]:3333'', ''--user'', ''abc''] of Inr x \<Rightarrow> map pe_host (o_pools x) = [''''] | Inl _ \<Rightarrow> False"
  by code_simp

end
