(* ===== verification/Config.thy ===== *)
theory Config
  imports Options Json
begin

text \<open>
  The configuration files (src/config): one table of options that both loaders walk, the flat
  \<open>KEY = VALUE\<close> file and the JSON profile. What the command line marked as given is never overridden. The JSON
  parser is a parameter: its result, or \<open>None\<close> where it throws.
\<close>

section \<open>Small parsers\<close>

definition blank4 :: "char \<Rightarrow> bool" where
  "blank4 c = (c = CHR '' '' \<or> c = CHR 0x09 \<or> c = CHR 0x0D \<or> c = CHR 0x0A)"

definition trim4 :: "string \<Rightarrow> string" where
  "trim4 s = rev (dropWhile blank4 (rev (dropWhile blank4 s)))"

definition to_upper :: "string \<Rightarrow> string" where
  "to_upper s = map toupper s"

definition split_host_port :: "string \<Rightarrow> (string \<times> u16) option" where
  "split_host_port s =
    (case split_last_colon s of
       None \<Rightarrow> None
     | Some (host, port) \<Rightarrow>
         if host = '''' \<or> \<not> all_digits port then None
         else let v = strtol10 port in if v < 1 \<or> v > 65535 then None else Some (host, word_of_int v))"

definition parse_flat_int :: "string \<Rightarrow> int \<Rightarrow> int \<Rightarrow> int option" where
  "parse_flat_int s lo hi =
    (if \<not> all_digits s then None
     else let v = strtol10 s in if v < lo \<or> v > hi then None else Some v)"

definition parse_flat_bool :: "string \<Rightarrow> bool option" where
  "parse_flat_bool s =
    (let u = to_upper s
     in if u = ''1'' \<or> u = ''TRUE'' \<or> u = ''ON'' then Some True
        else if u = ''0'' \<or> u = ''FALSE'' \<or> u = ''OFF'' then Some False else None)"

text \<open>\<open>get<long long>\<close> of an integer.\<close>

definition to_int64 :: "int \<Rightarrow> int" where
  "to_int64 v = sint (word_of_int v :: u64)"

definition parse_json_bool :: "json \<Rightarrow> bool option" where
  "parse_json_bool j = (case j of JBool b \<Rightarrow> Some b | JInt i \<Rightarrow> Some (to_int64 i \<noteq> 0) | _ \<Rightarrow> None)"

definition flat_double :: "double \<Rightarrow> double \<Rightarrow> string \<Rightarrow> double option" where
  "flat_double lo hi s =
    (case strtod s of (d, r, erange) \<Rightarrow>
      if s = '''' \<or> r \<noteq> '''' \<or> erange then None
      else case d of Fin v \<Rightarrow> if v \<ge> lo \<and> v \<le> hi then Some v else None | _ \<Rightarrow> None)"

section \<open>The tables\<close>

text \<open>A row: its key, where the value lands, and the flag that guards it.\<close>

record 'a row =
  r_key :: string
  r_get :: "options \<Rightarrow> 'a"
  r_set :: "'a \<Rightarrow> options \<Rightarrow> options"
  r_seen :: "seen \<Rightarrow> bool"
  r_mark :: "seen \<Rightarrow> seen"

record int_opt = "int row" +
  io_lo :: int
  io_hi :: int

record bool_opt = "bool row" +
  bo_alias :: "string option"

record str_opt = "string row" +
  so_domain :: "string list option"
  so_canonical :: "string option"
  so_join :: bool

record dbl_opt = "double row" +
  do_lo :: double
  do_hi :: double

definition kTmodeDomain :: "string list" where
  "kTmodeDomain = [''edge'', ''junction'', ''memory'']"

definition kSolverDomain :: "string list" where
  "kSolverDomain = [''cuda'', ''opencl'', ''gpu'', ''ref'', ''auto'']"

definition kBenchmarkDomain :: "string list" where
  "kBenchmarkDomain = [''BEAM-III'', ''BEAMHASH3'', ''BEAMHASHIII'', ''BEAM'']"

definition int_row :: "string \<Rightarrow> (options \<Rightarrow> int) \<Rightarrow> (int \<Rightarrow> options \<Rightarrow> options) \<Rightarrow> (seen \<Rightarrow> bool) \<Rightarrow> (seen \<Rightarrow> seen) \<Rightarrow>
    int \<Rightarrow> int \<Rightarrow> int_opt" where
  "int_row key get put sn mark lo hi =
    \<lparr>r_key = key, r_get = get, r_set = put, r_seen = sn, r_mark = mark, io_lo = lo, io_hi = hi\<rparr>"

definition bool_row :: "string \<Rightarrow> string option \<Rightarrow> (options \<Rightarrow> bool) \<Rightarrow> (bool \<Rightarrow> options \<Rightarrow> options) \<Rightarrow> (seen \<Rightarrow> bool) \<Rightarrow>
    (seen \<Rightarrow> seen) \<Rightarrow> bool_opt" where
  "bool_row key alias get put sn mark =
    \<lparr>r_key = key, r_get = get, r_set = put, r_seen = sn, r_mark = mark, bo_alias = alias\<rparr>"

definition str_row :: "string \<Rightarrow> (options \<Rightarrow> string) \<Rightarrow> (string \<Rightarrow> options \<Rightarrow> options) \<Rightarrow> (seen \<Rightarrow> bool) \<Rightarrow> (seen \<Rightarrow> seen) \<Rightarrow>
    string list option \<Rightarrow> string option \<Rightarrow> bool \<Rightarrow> str_opt" where
  "str_row key get put sn mark dm canonical join =
    \<lparr>r_key = key, r_get = get, r_set = put, r_seen = sn, r_mark = mark, so_domain = dm,
      so_canonical = canonical, so_join = join\<rparr>"

definition kIntOpts :: "int_opt list" where
  "kIntOpts =
    [int_row ''APIPORT'' o_apiport (\<lambda>v x. x\<lparr>o_apiport := v\<rparr>) seen_apiport
        (\<lambda>z. z\<lparr>seen_apiport := True\<rparr>) kApiPortMin kApiPortMax,
     int_row ''SHORTSTATS'' o_shortstats (\<lambda>v x. x\<lparr>o_shortstats := v\<rparr>) seen_shortstats
        (\<lambda>z. z\<lparr>seen_shortstats := True\<rparr>) kStatsIntervalMin int_max,
     int_row ''LONGSTATS'' o_longstats (\<lambda>v x. x\<lparr>o_longstats := v\<rparr>) seen_longstats
        (\<lambda>z. z\<lparr>seen_longstats := True\<rparr>) kStatsIntervalMin int_max,
     int_row ''DIGITS'' o_digits (\<lambda>v x. x\<lparr>o_digits := v\<rparr>) seen_digits
        (\<lambda>z. z\<lparr>seen_digits := True\<rparr>) kDigitsMin kDigitsMax,
     int_row ''SILENCE'' o_silence (\<lambda>v x. x\<lparr>o_silence := v\<rparr>) seen_silence
        (\<lambda>z. z\<lparr>seen_silence := True\<rparr>) kSilenceMin kSilenceMax,
     int_row ''KEEPFREE'' o_keepfree_mb (\<lambda>v x. x\<lparr>o_keepfree_mb := v\<rparr>) seen_keepfree
        (\<lambda>z. z\<lparr>seen_keepfree := True\<rparr>) kKeepFreeMbMin kKeepFreeMbMax,
     int_row ''TSTOP'' o_tstop (\<lambda>v x. x\<lparr>o_tstop := v\<rparr>) seen_tstop
        (\<lambda>z. z\<lparr>seen_tstop := True\<rparr>) kTempCMin kTempCMax,
     int_row ''TSTART'' o_tstart (\<lambda>v x. x\<lparr>o_tstart := v\<rparr>) seen_tstart
        (\<lambda>z. z\<lparr>seen_tstart := True\<rparr>) kTempCMin kTempCMax,
     int_row ''BENCHMARK_SECONDS'' o_benchmark_seconds (\<lambda>v x. x\<lparr>o_benchmark_seconds := v\<rparr>) seen_benchmark_seconds
        (\<lambda>z. z\<lparr>seen_benchmark_seconds := True\<rparr>) kBenchmarkSecondsMin int_max]"

definition kBoolOpts :: "bool_opt list" where
  "kBoolOpts =
    [bool_row ''NOCOLOR'' (Some ''NOCOLOUR'') o_nocolor (\<lambda>v x. x\<lparr>o_nocolor := v\<rparr>) seen_nocolor
        (\<lambda>z. z\<lparr>seen_nocolor := True\<rparr>),
     bool_row ''LOG'' None o_log_enabled (\<lambda>v x. x\<lparr>o_log_enabled := v\<rparr>) seen_log
        (\<lambda>z. z\<lparr>seen_log := True\<rparr>),
     bool_row ''TIMEPRINT'' None o_timeprint (\<lambda>v x. x\<lparr>o_timeprint := v\<rparr>) seen_timeprint
        (\<lambda>z. z\<lparr>seen_timeprint := True\<rparr>),
     bool_row ''WATCHDOG'' None o_watchdog_requested (\<lambda>v x. x\<lparr>o_watchdog_requested := v\<rparr>) seen_watchdog
        (\<lambda>z. z\<lparr>seen_watchdog := True\<rparr>),
     bool_row ''NO_OC_RESET'' (Some ''NOOCRESET'') o_no_oc_reset (\<lambda>v x. x\<lparr>o_no_oc_reset := v\<rparr>) seen_no_oc_reset
        (\<lambda>z. z\<lparr>seen_no_oc_reset := True\<rparr>),
     bool_row ''DEVICESBYPCIE'' None o_devices_by_pcie (\<lambda>v x. x\<lparr>o_devices_by_pcie := v\<rparr>) seen_devices_by_pcie
        (\<lambda>z. z\<lparr>seen_devices_by_pcie := True\<rparr>),
     bool_row ''COMPACTACCEPT'' None o_compactaccept (\<lambda>v x. x\<lparr>o_compactaccept := v\<rparr>) seen_compactaccept
        (\<lambda>z. z\<lparr>seen_compactaccept := True\<rparr>),
     bool_row ''VSTATS'' None o_vstats (\<lambda>v x. x\<lparr>o_vstats := v\<rparr>) seen_vstats
        (\<lambda>z. z\<lparr>seen_vstats := True\<rparr>),
     bool_row ''HSTATS'' None o_hstats (\<lambda>v x. x\<lparr>o_hstats := v\<rparr>) seen_hstats
        (\<lambda>z. z\<lparr>seen_hstats := True\<rparr>)]"

definition kStrOpts :: "str_opt list" where
  "kStrOpts =
    [str_row ''APIHOST'' o_apihost (\<lambda>v x. x\<lparr>o_apihost := v\<rparr>) seen_apihost
        (\<lambda>z. z\<lparr>seen_apihost := True\<rparr>) None None False,
     str_row ''DEVICES'' o_devices (\<lambda>v x. x\<lparr>o_devices := v\<rparr>) seen_devices
        (\<lambda>z. z\<lparr>seen_devices := True\<rparr>) None None True,
     str_row ''TMODE'' o_tmode (\<lambda>v x. x\<lparr>o_tmode := v\<rparr>) seen_tmode
        (\<lambda>z. z\<lparr>seen_tmode := True\<rparr>) (Some kTmodeDomain) None False,
     str_row ''STATSFORMAT'' o_statsformat (\<lambda>v x. x\<lparr>o_statsformat := v\<rparr>) seen_statsformat
        (\<lambda>z. z\<lparr>seen_statsformat := True\<rparr>) None None True,
     str_row ''LOGFILE'' o_log_path (\<lambda>v x. x\<lparr>o_log_path := v\<rparr>) seen_logfile
        (\<lambda>z. z\<lparr>seen_logfile := True\<rparr>) None None False,
     str_row ''SOLVER'' o_solver (\<lambda>v x. x\<lparr>o_solver := v\<rparr>) seen_solver
        (\<lambda>z. z\<lparr>seen_solver := True\<rparr>) (Some kSolverDomain) None False,
     str_row ''BENCHMARK'' o_benchmark (\<lambda>v x. x\<lparr>o_benchmark := v\<rparr>) seen_benchmark
        (\<lambda>z. z\<lparr>seen_benchmark := True\<rparr>) (Some kBenchmarkDomain) (Some ''BEAM-III'') False,
     str_row ''PL'' o_power_limit (\<lambda>v x. x\<lparr>o_power_limit := v\<rparr>) seen_power_limit
        (\<lambda>z. z\<lparr>seen_power_limit := True\<rparr>) None None True,
     str_row ''CCLK'' o_core_clock (\<lambda>v x. x\<lparr>o_core_clock := v\<rparr>) seen_core_clock
        (\<lambda>z. z\<lparr>seen_core_clock := True\<rparr>) None None True,
     str_row ''MCLK'' o_mem_clock (\<lambda>v x. x\<lparr>o_mem_clock := v\<rparr>) seen_mem_clock
        (\<lambda>z. z\<lparr>seen_mem_clock := True\<rparr>) None None True,
     str_row ''COFF'' o_core_offset (\<lambda>v x. x\<lparr>o_core_offset := v\<rparr>) seen_core_offset
        (\<lambda>z. z\<lparr>seen_core_offset := True\<rparr>) None None True,
     str_row ''MOFF'' o_mem_offset (\<lambda>v x. x\<lparr>o_mem_offset := v\<rparr>) seen_mem_offset
        (\<lambda>z. z\<lparr>seen_mem_offset := True\<rparr>) None None True,
     str_row ''FAN'' o_fan (\<lambda>v x. x\<lparr>o_fan := v\<rparr>) seen_fan
        (\<lambda>z. z\<lparr>seen_fan := True\<rparr>) None None True,
     str_row ''WATCHDOGSCRIPT'' o_watchdog_script (\<lambda>v x. x\<lparr>o_watchdog_script := v\<rparr>) seen_watchdog
        (\<lambda>z. z\<lparr>seen_watchdog := True\<rparr>) None None False]"

definition kDblOpts :: "dbl_opt list" where
  "kDblOpts =
    [\<lparr>r_key = ''DEVFEE'', r_get = o_devfee_pct, r_set = \<lambda>v x. x\<lparr>o_devfee_pct := v\<rparr>, r_seen = seen_devfee,
      r_mark = \<lambda>z. z\<lparr>seen_devfee := True\<rparr>, do_lo = kDevFeePctMin, do_hi = kDevFeePctMax\<rparr>]"

text \<open>The entry of a domain that the value spells in any case.\<close>

definition domain_find :: "string list \<Rightarrow> string \<Rightarrow> string option" where
  "domain_find dm v = find (\<lambda>p. to_upper p = to_upper v) dm"

text \<open>A value that passed a string row's domain, in its canonical spelling.\<close>

definition in_domain :: "str_opt \<Rightarrow> string \<Rightarrow> string option" where
  "in_domain r v =
    (case so_domain r of
       None \<Rightarrow> Some v
     | Some dm \<Rightarrow>
         (case domain_find dm v of
            None \<Rightarrow> None
          | Some hit \<Rightarrow> Some (case so_canonical r of Some c \<Rightarrow> c | None \<Rightarrow> hit)))"

definition row_seen :: "('a, 'b) row_scheme \<Rightarrow> options \<Rightarrow> bool" where
  "row_seen r x = r_seen r (o_seen x)"

definition row_put :: "('a, 'b) row_scheme \<Rightarrow> 'a \<Rightarrow> options \<Rightarrow> options" where
  "row_put r v x = saw (r_mark r) (r_set r v x)"

text \<open>A loop over a table; an error comes with the options as they were then.\<close>

fun each :: "('r \<Rightarrow> options \<Rightarrow> string + options) \<Rightarrow> 'r list \<Rightarrow> options \<Rightarrow> (string \<times> options) + options" where
  "each f [] x = Inr x"
| "each f (r # rs) x = (case f r x of Inl e \<Rightarrow> Inl (e, x) | Inr x' \<Rightarrow> each f rs x')"

definition and_then :: "('e + 'a) \<Rightarrow> ('a \<Rightarrow> 'e + 'b) \<Rightarrow> 'e + 'b" where
  "and_then m k = (case m of Inl e \<Rightarrow> Inl e | Inr x \<Rightarrow> k x)"

section \<open>JSON profiles\<close>

definition range_of :: "string \<Rightarrow> string \<Rightarrow> string \<Rightarrow> string \<Rightarrow> string" where
  "range_of key profile lo hi =
    ''invalid '' @ key @ '' in profile '' @ squote profile @ '' (must be '' @ lo @ ''..'' @ hi @ '')''"

definition bad_key :: "string \<Rightarrow> string \<Rightarrow> string" where
  "bad_key profile key = ''invalid '' @ key @ '' in profile '' @ squote profile"

definition json_int_row :: "string \<Rightarrow> (string \<times> json) list \<Rightarrow> int_opt \<Rightarrow> options \<Rightarrow> string + options" where
  "json_int_row profile prof r x =
    (if row_seen r x then Inr x
     else case map_of prof (r_key r) of
       None \<Rightarrow> Inr x
     | Some (JInt i) \<Rightarrow>
         let v = to_int64 i
         in if v < io_lo r \<or> v > io_hi r
            then Inl (range_of (r_key r) profile (int_dec (io_lo r)) (int_dec (io_hi r)))
            else Inr (row_put r (to_int32 v) x)
     | Some _ \<Rightarrow> Inl (range_of (r_key r) profile (int_dec (io_lo r)) (int_dec (io_hi r))))"

text \<open>A key, or else its alias.\<close>

definition find_key :: "(string \<Rightarrow> 'v option) \<Rightarrow> string \<Rightarrow> string option \<Rightarrow> 'v option" where
  "find_key kv key alias =
    (case kv key of Some v \<Rightarrow> Some v | None \<Rightarrow> (case alias of Some a \<Rightarrow> kv a | None \<Rightarrow> None))"

definition json_bool_row :: "string \<Rightarrow> (string \<times> json) list \<Rightarrow> bool_opt \<Rightarrow> options \<Rightarrow> string + options" where
  "json_bool_row profile prof r x =
    (if row_seen r x then Inr x
     else case find_key (map_of prof) (r_key r) (bo_alias r) of
       None \<Rightarrow> Inr x
     | Some j \<Rightarrow> (case parse_json_bool j of
           None \<Rightarrow> Inl (bad_key profile (r_key r)) | Some v \<Rightarrow> Inr (row_put r v x)))"

definition json_number :: "json \<Rightarrow> double option" where
  "json_number j = (case j of JInt i \<Rightarrow> Some (dbl (of_int i)) | JFloat d \<Rightarrow> Some d | _ \<Rightarrow> None)"

definition json_dbl_row :: "string \<Rightarrow> (string \<times> json) list \<Rightarrow> dbl_opt \<Rightarrow> options \<Rightarrow> string + options" where
  "json_dbl_row profile prof r x =
    (if row_seen r x then Inr x
     else case map_of prof (r_key r) of
       None \<Rightarrow> Inr x
     | Some j \<Rightarrow> (case json_number j of
           None \<Rightarrow> Inl (bad_key profile (r_key r))
         | Some v \<Rightarrow>
             if \<not> v \<ge> do_lo r \<or> \<not> v \<le> do_hi r
             then Inl (range_of (r_key r) profile (fixed 6 (do_lo r)) (fixed 6 (do_hi r)))
             else Inr (row_put r v x)))"

text \<open>A list's entries, strings or integers, joined by commas.\<close>

fun join_entries :: "json list \<Rightarrow> bool \<Rightarrow> string option" where
  "join_entries [] first = Some ''''"
| "join_entries (e # es) first =
    (let entry = (case e of JString s \<Rightarrow> Some s | JInt i \<Rightarrow> Some (int_dec (to_int64 i)) | _ \<Rightarrow> None)
     in case (entry, join_entries es False) of
          (Some s, Some t) \<Rightarrow> Some ((if first then '''' else '','') @ s @ t)
        | _ \<Rightarrow> None)"

definition json_text :: "str_opt \<Rightarrow> json \<Rightarrow> string option" where
  "json_text r j =
    (case j of
       JString s \<Rightarrow> Some s
     | JArray es \<Rightarrow> if so_join r then join_entries es True else None
     | _ \<Rightarrow> None)"

definition json_str_row :: "string \<Rightarrow> (string \<times> json) list \<Rightarrow> str_opt \<Rightarrow> options \<Rightarrow> string + options" where
  "json_str_row profile prof r x =
    (if row_seen r x then Inr x
     else case map_of prof (r_key r) of
       None \<Rightarrow> Inr x
     | Some j \<Rightarrow> (case Option.bind (json_text r j) (in_domain r) of
           None \<Rightarrow> Inl (bad_key profile (r_key r)) | Some v \<Rightarrow> Inr (row_put r v x)))"

definition json_algo :: "string \<Rightarrow> (string \<times> json) list \<Rightarrow> options \<Rightarrow> (string \<times> options) + options" where
  "json_algo profile prof x =
    (case map_of prof ''ALGO'' of
       None \<Rightarrow> Inr x
     | Some j \<Rightarrow>
         if j \<noteq> JString ''BEAM-III''
         then Inl (''unsupported ALGO in profile '' @ squote profile @ '' (only BEAM-III is supported)'', x)
         else Inr (saw (\<lambda>z. z\<lparr>seen_algo := True\<rparr>) x))"

definition apply_json_scalars :: "(string \<times> json) list \<Rightarrow> string \<Rightarrow> options \<Rightarrow> (string \<times> options) + options" where
  "apply_json_scalars prof profile x =
    and_then (json_algo profile prof x) (\<lambda>x.
    and_then (each (json_int_row profile prof) kIntOpts x) (\<lambda>x.
    and_then (each (json_bool_row profile prof) kBoolOpts x) (\<lambda>x.
    and_then (each (json_dbl_row profile prof) kDblOpts x) (\<lambda>x.
      each (json_str_row profile prof) kStrOpts x))))"

text \<open>One entry of \<open>POOLS\<close>; \<open>tls\<close> is the profile's own \<open>TLS\<close>.\<close>

definition json_pool :: "string \<Rightarrow> bool option \<Rightarrow> json \<Rightarrow> string + pool_entry" where
  "json_pool profile tls entry =
    (case entry of
       JObject e \<Rightarrow>
         (case map_of e ''POOL'' of
            Some (JString hp) \<Rightarrow>
              (case split_host_port hp of
                 None \<Rightarrow> Inl (''invalid POOL host:port in profile '' @ squote profile)
               | Some (host, port) \<Rightarrow>
                   let local = is_loopback_host host;
                       user = (case map_of e ''USER'' of
                           None \<Rightarrow> Inr ''''
                         | Some (JString u) \<Rightarrow> Inr u
                         | Some _ \<Rightarrow> Inl (''invalid USER in a POOLS entry in profile '' @ squote profile));
                       pass = (case map_of e ''PASS'' of
                           None \<Rightarrow> Inr ''''
                         | Some (JString p) \<Rightarrow> Inr p
                         | Some _ \<Rightarrow> Inl (''invalid PASS in a POOLS entry in profile '' @ squote profile));
                       own = (case map_of e ''TLS'' of
                           None \<Rightarrow> Inr (case tls of Some b \<Rightarrow> b | None \<Rightarrow> \<not> local)
                         | Some j \<Rightarrow> (case parse_json_bool j of
                               Some b \<Rightarrow> Inr b
                             | None \<Rightarrow> Inl (''invalid TLS in a POOLS entry in profile '' @ squote profile)))
                   in and_then user (\<lambda>u.
                        if u = '''' \<and> \<not> local
                        then Inl (''a POOLS entry is missing USER in profile '' @ squote profile)
                        else and_then pass (\<lambda>p. and_then own (\<lambda>b.
                          Inr \<lparr>pe_host = host, pe_port = port,
                            pe_user = (if u = '''' then kLoopbackDefaultUser else u), pe_pass = p, pe_tls = b\<rparr>))))
          | _ \<Rightarrow> Inl (''a POOLS entry is missing POOL in profile '' @ squote profile))
     | _ \<Rightarrow> Inl (''a POOLS entry is not an object in profile '' @ squote profile))"

fun json_pools :: "string \<Rightarrow> bool option \<Rightarrow> json list \<Rightarrow> string + pool_entry list" where
  "json_pools profile tls [] = Inr []"
| "json_pools profile tls (e # es) =
    and_then (json_pool profile tls e) (\<lambda>p. and_then (json_pools profile tls es) (\<lambda>ps. Inr (p # ps)))"

definition apply_json_pools :: "(string \<times> json) list \<Rightarrow> string \<Rightarrow> options \<Rightarrow> string + options" where
  "apply_json_pools prof profile x =
    (case map_of prof ''POOLS'' of
       None \<Rightarrow> Inr x
     | Some (JArray es) \<Rightarrow>
         let tls = (case map_of prof ''TLS'' of
               None \<Rightarrow> Inr None
             | Some j \<Rightarrow> (case parse_json_bool j of
                   None \<Rightarrow> Inl (''invalid TLS in profile '' @ squote profile) | Some b \<Rightarrow> Inr (Some b)))
         in and_then tls (\<lambda>tls. and_then (json_pools profile tls es) (\<lambda>ps.
              Inr (saw (\<lambda>z. z\<lparr>seen_pools := True\<rparr>) (x\<lparr>o_pools := ps\<rparr>))))
     | Some _ \<Rightarrow> Inl (''POOLS is not an array in profile '' @ squote profile))"

text \<open>The whole loader: \<open>file\<close> is the text, \<open>None\<close> where it cannot be opened.\<close>

definition load_json_config ::
    "(string \<Rightarrow> json option) \<Rightarrow> string option \<Rightarrow> string \<Rightarrow> string \<Rightarrow> options \<Rightarrow> (string \<times> options) + options" where
  "load_json_config read_json file path profile x =
    (case file of
       None \<Rightarrow> Inl (''cannot open config file: '' @ path, x)
     | Some body \<Rightarrow>
       (case read_json body of
          None \<Rightarrow> Inl (''malformed JSON in config file: '' @ path, x)
        | Some (JObject (kv # kvs)) \<Rightarrow>
            let name = (if profile = '''' then fst kv else profile)
            in (case map_of (kv # kvs) name of
                  None \<Rightarrow> Inl (''profile '' @ squote name @ '' not found in config file: '' @ path, x)
                | Some (JObject prof) \<Rightarrow>
                    and_then (apply_json_scalars prof name x) (\<lambda>x.
                      if seen_pools (o_seen x) then Inr x
                      else case apply_json_pools prof name x of Inl e \<Rightarrow> Inl (e, x) | Inr x \<Rightarrow> Inr x)
                | Some _ \<Rightarrow> Inl (''profile '' @ squote name @ '' is not an object in config file: '' @ path, x))
        | Some _ \<Rightarrow> Inl (''no profiles found in config file: '' @ path, x)))"

section \<open>Flat files\<close>

text \<open>The lines of a file; each assignment replaces the one before.\<close>

definition flat_line :: "string \<Rightarrow> (string \<rightharpoonup> string) \<Rightarrow> string \<rightharpoonup> string" where
  "flat_line line kv =
    (let t = trim4 line
     in if t = '''' \<or> hd t = CHR ''#'' \<or> CHR ''='' \<notin> set t then kv
        else kv(to_upper (trim4 (before CHR ''='' t)) \<mapsto> trim4 (after CHR ''='' t)))"

definition flat_map :: "string \<Rightarrow> string \<rightharpoonup> string" where
  "flat_map body = fold flat_line (split_on CHR 0x0A body) Map.empty"

definition bad_flat :: "string \<Rightarrow> string \<Rightarrow> string" where
  "bad_flat path key = ''invalid '' @ key @ '' in config file: '' @ path"

definition flat_row :: "string \<Rightarrow> (string \<rightharpoonup> string) \<Rightarrow> string option \<Rightarrow> (string \<Rightarrow> 'a option) \<Rightarrow>
    ('a, 'b) row_scheme \<Rightarrow> options \<Rightarrow> string + options" where
  "flat_row path kv alias read r x =
    (case find_key kv (r_key r) alias of
       None \<Rightarrow> Inr x
     | Some s \<Rightarrow>
         if row_seen r x then Inr x
         else case read s of None \<Rightarrow> Inl (bad_flat path (r_key r)) | Some v \<Rightarrow> Inr (row_put r v x))"

definition flat_int_row :: "string \<Rightarrow> (string \<rightharpoonup> string) \<Rightarrow> int_opt \<Rightarrow> options \<Rightarrow> string + options" where
  "flat_int_row path kv r = flat_row path kv None (\<lambda>s. parse_flat_int s (io_lo r) (io_hi r)) r"

definition flat_bool_row :: "string \<Rightarrow> (string \<rightharpoonup> string) \<Rightarrow> bool_opt \<Rightarrow> options \<Rightarrow> string + options" where
  "flat_bool_row path kv r = flat_row path kv (bo_alias r) parse_flat_bool r"

definition flat_dbl_row :: "string \<Rightarrow> (string \<rightharpoonup> string) \<Rightarrow> dbl_opt \<Rightarrow> options \<Rightarrow> string + options" where
  "flat_dbl_row path kv r = flat_row path kv None (flat_double (do_lo r) (do_hi r)) r"

definition flat_str_row :: "string \<Rightarrow> (string \<rightharpoonup> string) \<Rightarrow> str_opt \<Rightarrow> options \<Rightarrow> string + options" where
  "flat_str_row path kv r = flat_row path kv None (in_domain r) r"

definition flat_algo :: "string \<Rightarrow> (string \<rightharpoonup> string) \<Rightarrow> options \<Rightarrow> (string \<times> options) + options" where
  "flat_algo path kv x =
    (case kv ''ALGO'' of
       None \<Rightarrow> Inr x
     | Some a \<Rightarrow>
         if a \<noteq> ''BEAM-III''
         then Inl (''unsupported ALGO in config file: '' @ path @ '' (only BEAM-III is supported)'', x)
         else Inr (saw (\<lambda>z. z\<lparr>seen_algo := True\<rparr>) x))"

definition flat_scalars :: "string \<Rightarrow> (string \<rightharpoonup> string) \<Rightarrow> options \<Rightarrow> (string \<times> options) + options" where
  "flat_scalars path kv x =
    and_then (flat_algo path kv x) (\<lambda>x.
    and_then (each (flat_int_row path kv) kIntOpts x) (\<lambda>x.
    and_then (each (flat_bool_row path kv) kBoolOpts x) (\<lambda>x.
    and_then (each (flat_dbl_row path kv) kDblOpts x) (\<lambda>x.
      each (flat_str_row path kv) kStrOpts x))))"

definition flat_pool :: "string \<Rightarrow> (string \<rightharpoonup> string) \<Rightarrow> string \<Rightarrow> string + pool_entry" where
  "flat_pool path kv pool =
    (case split_host_port pool of
       None \<Rightarrow> Inl (''invalid POOL host:port in config file: '' @ path)
     | Some (host, port) \<Rightarrow>
         let local = is_loopback_host host; user = the_default '''' (kv ''USER'');
             e = \<lparr>pe_host = host, pe_port = port, pe_user = (if user = '''' then kLoopbackDefaultUser else user),
               pe_pass = the_default '''' (kv ''PASS''), pe_tls = \<not> local\<rparr>
         in if user = '''' \<and> \<not> local then Inl (''POOL given without USER in config file: '' @ path)
            else case kv ''TLS'' of
              None \<Rightarrow> Inr e
            | Some t \<Rightarrow> (case parse_flat_bool t of
                  None \<Rightarrow> Inl (''invalid TLS in config file: '' @ path) | Some b \<Rightarrow> Inr (e\<lparr>pe_tls := b\<rparr>)))"

definition flat_pools :: "string \<Rightarrow> (string \<rightharpoonup> string) \<Rightarrow> options \<Rightarrow> (string \<times> options) + options" where
  "flat_pools path kv x =
    (case kv ''POOL'' of
       None \<Rightarrow> Inr x
     | Some pool \<Rightarrow>
         if seen_pools (o_seen x) then Inr x
         else case flat_pool path kv pool of
           Inl e \<Rightarrow> Inl (e, x)
         | Inr e \<Rightarrow> Inr (saw (\<lambda>z. z\<lparr>seen_pools := True\<rparr>) (x\<lparr>o_pools := o_pools x @ [e]\<rparr>)))"

definition load_flat_config :: "string option \<Rightarrow> string \<Rightarrow> options \<Rightarrow> (string \<times> options) + options" where
  "load_flat_config file path x =
    (case file of
       None \<Rightarrow> Inl (''cannot open config file: '' @ path, x)
     | Some body \<Rightarrow>
         let kv = flat_map body
         in and_then (flat_scalars path kv x) (flat_pools path kv))"

section \<open>The merge\<close>

text \<open>After the command line: one file at most, JSON first; then what one option implies of another.\<close>

definition merge_config ::
    "(string \<Rightarrow> json option) \<Rightarrow> (string \<Rightarrow> string option) \<Rightarrow> options \<Rightarrow> (string \<times> options) + options" where
  "merge_config read_json files x =
    and_then
      (if o_use_json_config x then load_json_config read_json (files (o_config_path x)) (o_config_path x) (o_json_profile x) x
       else if o_config_path x \<noteq> '''' then load_flat_config (files (o_config_path x)) (o_config_path x) x
       else Inr x)
      (\<lambda>x. Inr (resolve_implied_options x))"

section \<open>What both loaders do\<close>

text \<open>
  The contract of the merge as a relation: a file fills settings that nothing has given yet, each with
  a value its row accepts.
\<close>

definition int_ok :: "int_opt \<Rightarrow> int \<Rightarrow> bool" where
  "int_ok r v = (io_lo r \<le> v \<and> v \<le> io_hi r)"

definition dbl_ok :: "dbl_opt \<Rightarrow> double \<Rightarrow> bool" where
  "dbl_ok r v = (do_lo r \<le> v \<and> v \<le> do_hi r)"

definition str_ok :: "str_opt \<Rightarrow> string \<Rightarrow> bool" where
  "str_ok r v =
    (case so_domain r of None \<Rightarrow> True
     | Some dm \<Rightarrow> (case so_canonical r of None \<Rightarrow> v \<in> set dm | Some c \<Rightarrow> v = c))"

definition pool_ok :: "pool_entry \<Rightarrow> bool" where
  "pool_ok e = (pe_port e \<noteq> 0 \<and> pe_host e \<noteq> '''' \<and> pe_user e \<noteq> '''')"

inductive merges :: "options \<Rightarrow> options \<Rightarrow> bool" where
  same: "merges x x"
| algo: "merges x y \<Longrightarrow> merges x (saw (\<lambda>z. z\<lparr>seen_algo := True\<rparr>) y)"
| int: "merges x y \<Longrightarrow> r \<in> set kIntOpts \<Longrightarrow> \<not> row_seen r y \<Longrightarrow> int_ok r v \<Longrightarrow> merges x (row_put r v y)"
| bool: "merges x y \<Longrightarrow> r \<in> set kBoolOpts \<Longrightarrow> \<not> row_seen r y \<Longrightarrow> merges x (row_put r v y)"
| dbl: "merges x y \<Longrightarrow> r \<in> set kDblOpts \<Longrightarrow> \<not> row_seen r y \<Longrightarrow> dbl_ok r v \<Longrightarrow> merges x (row_put r v y)"
| str: "merges x y \<Longrightarrow> r \<in> set kStrOpts \<Longrightarrow> \<not> row_seen r y \<Longrightarrow> str_ok r v \<Longrightarrow> merges x (row_put r v y)"
| pools: "merges x y \<Longrightarrow> \<not> seen_pools (o_seen y) \<Longrightarrow> list_all pool_ok ps \<Longrightarrow> qs = ps \<or> qs = o_pools y @ ps \<Longrightarrow>
    merges x (saw (\<lambda>z. z\<lparr>seen_pools := True\<rparr>) (y\<lparr>o_pools := qs\<rparr>))"

lemma each_inv:
  assumes "each f rs x = Inr y" "P x" "\<And>r x x'. r \<in> set rs \<Longrightarrow> P x \<Longrightarrow> f r x = Inr x' \<Longrightarrow> P x'"
  shows "P y"
  using assms
proof (induction rs arbitrary: x)
  case (Cons r rs)
  then obtain x' where "f r x = Inr x'" "each f rs x' = Inr y" by (auto split: sum.splits)
  with Cons show ?case by (metis list.set_intros)
qed simp

lemma and_then_Inr [simp]: "and_then m k = Inr y \<longleftrightarrow> (\<exists>x. m = Inr x \<and> k x = Inr y)"
  by (cases m) (simp_all add: and_then_def)

lemma in_domain_ok: "in_domain r v = Some w \<Longrightarrow> str_ok r w"
  by (auto simp: in_domain_def str_ok_def domain_find_def find_Some_iff split: option.splits)

lemma flat_int_ok: "parse_flat_int s (io_lo r) (io_hi r) = Some v \<Longrightarrow> int_ok r v"
  by (auto simp: parse_flat_int_def int_ok_def Let_def split: if_splits)

lemma flat_double_ok: "flat_double (do_lo r) (do_hi r) s = Some v \<Longrightarrow> dbl_ok r v"
  by (auto simp: flat_double_def dbl_ok_def split: prod.splits if_splits xdouble.splits)

lemma flat_row_fills:
  "flat_row path kv alias rd r x = Inr y \<Longrightarrow> y = x \<or> (\<exists>s v. \<not> row_seen r x \<and> rd s = Some v \<and> y = row_put r v x)"
  by (auto simp: flat_row_def split: option.splits if_splits)

lemma io_range:
  assumes "r \<in> set kIntOpts"
  shows "0 \<le> io_lo r" "io_hi r < 2 ^ 31"
  using assms by (auto simp: kIntOpts_def int_row_def limit_defs kBenchmarkSecondsMin_def int_max_def)

lemma to_int32_id: "- (2 ^ 31) \<le> v \<Longrightarrow> v < 2 ^ 31 \<Longrightarrow> to_int32 v = v"
  by (simp add: to_int32_def signed_of_int signed_take_bit_int_eq_self)

lemma json_int_fills:
  assumes "json_int_row profile prof r x = Inr y" "r \<in> set kIntOpts"
  shows "y = x \<or> (\<exists>v. \<not> row_seen r x \<and> int_ok r v \<and> y = row_put r v x)"
  using assms(1) io_range [OF assms(2)] to_int32_id
  by (auto simp: json_int_row_def int_ok_def Let_def not_less split: if_splits option.splits json.splits)

lemma json_bool_fills:
  "json_bool_row profile prof r x = Inr y \<Longrightarrow> y = x \<or> (\<exists>v. \<not> row_seen r x \<and> y = row_put r v x)"
  by (auto simp: json_bool_row_def split: if_splits option.splits)

lemma json_dbl_fills:
  "json_dbl_row profile prof r x = Inr y \<Longrightarrow> y = x \<or> (\<exists>v. \<not> row_seen r x \<and> dbl_ok r v \<and> y = row_put r v x)"
  by (auto simp: json_dbl_row_def dbl_ok_def split: if_splits option.splits)

lemma json_str_fills:
  "json_str_row profile prof r x = Inr y \<Longrightarrow> y = x \<or> (\<exists>v. \<not> row_seen r x \<and> str_ok r v \<and> y = row_put r v x)"
  by (auto simp: json_str_row_def bind_eq_Some_conv dest: in_domain_ok split: if_splits option.splits)

lemma flat_scalars_merges:
  assumes "flat_scalars path kv x = Inr y"
  shows "merges x y"
proof -
  from assms obtain a b c d where s: "flat_algo path kv x = Inr a" "each (flat_int_row path kv) kIntOpts a = Inr b"
    "each (flat_bool_row path kv) kBoolOpts b = Inr c" "each (flat_dbl_row path kv) kDblOpts c = Inr d"
    "each (flat_str_row path kv) kStrOpts d = Inr y"
    by (auto simp: flat_scalars_def)
  from s(1) have "merges x a"
    by (auto simp: flat_algo_def intro: merges.intros split: option.splits if_splits)
  with s(2) have "merges x b"
    by (rule each_inv) (auto simp: flat_int_row_def intro: merges.int flat_int_ok dest!: flat_row_fills)
  with s(3) have "merges x c"
    by (rule each_inv) (auto simp: flat_bool_row_def intro: merges.bool dest!: flat_row_fills)
  with s(4) have "merges x d"
    by (rule each_inv) (auto simp: flat_dbl_row_def intro: merges.dbl flat_double_ok dest!: flat_row_fills)
  with s(5) show ?thesis
    by (rule each_inv) (auto simp: flat_str_row_def intro: merges.str in_domain_ok dest!: flat_row_fills)
qed

lemma json_scalars_merges:
  assumes "apply_json_scalars prof profile x = Inr y"
  shows "merges x y"
proof -
  from assms obtain a b c d where s: "json_algo profile prof x = Inr a" "each (json_int_row profile prof) kIntOpts a = Inr b"
    "each (json_bool_row profile prof) kBoolOpts b = Inr c" "each (json_dbl_row profile prof) kDblOpts c = Inr d"
    "each (json_str_row profile prof) kStrOpts d = Inr y"
    by (auto simp: apply_json_scalars_def)
  from s(1) have "merges x a"
    by (auto simp: json_algo_def intro: merges.intros split: option.splits if_splits)
  with s(2) have "merges x b" by (rule each_inv) (auto intro: merges.int dest!: json_int_fills)
  with s(3) have "merges x c" by (rule each_inv) (auto intro: merges.bool dest!: json_bool_fills)
  with s(4) have "merges x d" by (rule each_inv) (auto intro: merges.dbl dest!: json_dbl_fills)
  with s(5) show ?thesis by (rule each_inv) (auto intro: merges.str dest!: json_str_fills)
qed

lemma split_host_port_ok:
  assumes "split_host_port s = Some (h, p)"
  shows "h \<noteq> '''' \<and> p \<noteq> 0"
proof -
  from assms obtain t where "h \<noteq> ''''" "parse_port t = Some p"
    unfolding split_host_port_def parse_port_def by (force simp: Let_def split: option.splits if_splits)
  with parse_port_pos show ?thesis by blast
qed

lemma default_user_ok: "kLoopbackDefaultUser \<noteq> ''''"
  by (simp add: kLoopbackDefaultUser_def)

lemma flat_pool_ok: "flat_pool path kv pool = Inr e \<Longrightarrow> pool_ok e"
  using default_user_ok
  by (auto simp: flat_pool_def pool_ok_def Let_def dest!: split_host_port_ok split: option.splits if_splits)

lemma json_pool_ok:
  assumes "json_pool profile tls j = Inr e"
  shows "pool_ok e"
proof -
  from assms obtain hp host port where p: "split_host_port hp = Some (host, port)"
    and e: "pe_host e = host" "pe_port e = port" "pe_user e \<noteq> ''''"
    using default_user_ok
    by (cases j) (auto simp: json_pool_def Let_def split: option.splits json.splits if_splits)
  from split_host_port_ok [OF p] e show ?thesis by (simp add: pool_ok_def)
qed

lemma json_pools_ok: "json_pools profile tls js = Inr ps \<Longrightarrow> list_all pool_ok ps"
  by (induction js arbitrary: ps) (auto dest: json_pool_ok)

lemma json_pools_merge:
  assumes "apply_json_pools prof profile y = Inr z" "merges x y" "\<not> seen_pools (o_seen y)"
  shows "merges x z"
proof -
  consider "z = y" | ps where "list_all pool_ok ps" "z = saw (\<lambda>z. z\<lparr>seen_pools := True\<rparr>) (y\<lparr>o_pools := ps\<rparr>)"
    using assms(1) by (auto simp: apply_json_pools_def Let_def dest: json_pools_ok split: option.splits json.splits)
  then show ?thesis using assms(2,3) by cases (auto intro: merges.pools)
qed

text \<open>The JSON loader implements the contract, and so does the flat one.\<close>

lemma json_merges:
  assumes "load_json_config read_json file path profile x = Inr y"
  shows "merges x y"
proof -
  from assms obtain prof name z where z: "apply_json_scalars prof name x = Inr z"
    and y: "if seen_pools (o_seen z) then y = z else apply_json_pools prof name z = Inr y"
    by (auto simp: load_json_config_def Let_def split: option.splits json.splits list.splits if_splits sum.splits)
  from json_scalars_merges [OF z] y json_pools_merge show ?thesis by (auto split: if_splits)
qed

lemma flat_pools_merge:
  assumes "flat_pools path kv y = Inr z" "merges x y"
  shows "merges x z"
proof -
  from assms(1) have "z = y \<or> (\<exists>pool e. \<not> seen_pools (o_seen y) \<and> flat_pool path kv pool = Inr e \<and>
      z = saw (\<lambda>s. s\<lparr>seen_pools := True\<rparr>) (y\<lparr>o_pools := o_pools y @ [e]\<rparr>))"
    unfolding flat_pools_def by (simp split: option.splits if_splits sum.splits) blast
  then show ?thesis
  proof (elim disjE exE conjE)
    fix pool e
    assume y: "\<not> seen_pools (o_seen y)" "flat_pool path kv pool = Inr e"
      "z = saw (\<lambda>s. s\<lparr>seen_pools := True\<rparr>) (y\<lparr>o_pools := o_pools y @ [e]\<rparr>)"
    from flat_pool_ok [OF y(2)] have "list_all pool_ok [e]" by simp
    from merges.pools [OF assms(2) y(1) this] y(3) show ?thesis by simp
  qed (simp add: assms(2))
qed

lemma flat_merges:
  assumes "load_flat_config file path x = Inr y"
  shows "merges x y"
proof -
  from assms obtain body where f: "file = Some body" by (cases "file") (auto simp: load_flat_config_def)
  from assms obtain z where "flat_scalars path (flat_map body) x = Inr z" "flat_pools path (flat_map body) z = Inr y"
    unfolding f load_flat_config_def Let_def option.case and_then_Inr by blast
  then show ?thesis by (blast intro: flat_scalars_merges flat_pools_merge)
qed

section \<open>Nothing given is overridden\<close>

text \<open>What was given, by table.\<close>

definition row_kept :: "options \<Rightarrow> options \<Rightarrow> ('a, 'b) row_scheme \<Rightarrow> bool" where
  "row_kept x y r = (row_seen r x \<longrightarrow> row_seen r y \<and> r_get r y = r_get r x)"

definition given_kept :: "options \<Rightarrow> options \<Rightarrow> bool" where
  "given_kept x y =
    (list_all (row_kept x y) kIntOpts \<and> list_all (row_kept x y) kBoolOpts \<and>
     list_all (row_kept x y) kDblOpts \<and> list_all (row_kept x y) kStrOpts \<and>
     (seen_pools (o_seen x) \<longrightarrow> seen_pools (o_seen y) \<and> o_pools y = o_pools x))"

lemmas table_defs = kIntOpts_def kBoolOpts_def kStrOpts_def kDblOpts_def int_row_def bool_row_def str_row_def
lemmas row_defs = row_seen_def row_put_def saw_def

lemma kept_int: "list_all (\<lambda>r. \<forall>v. \<not> row_seen r y \<longrightarrow> given_kept x y \<longrightarrow> given_kept x (row_put r v y)) kIntOpts"
  unfolding table_defs given_kept_def row_kept_def row_defs by simp

lemma kept_bool: "list_all (\<lambda>r. \<forall>v. \<not> row_seen r y \<longrightarrow> given_kept x y \<longrightarrow> given_kept x (row_put r v y)) kBoolOpts"
  unfolding table_defs given_kept_def row_kept_def row_defs by simp

lemma kept_dbl: "list_all (\<lambda>r. \<forall>v. \<not> row_seen r y \<longrightarrow> given_kept x y \<longrightarrow> given_kept x (row_put r v y)) kDblOpts"
  unfolding table_defs given_kept_def row_kept_def row_defs by simp

lemma kept_str: "list_all (\<lambda>r. \<forall>v. \<not> row_seen r y \<longrightarrow> given_kept x y \<longrightarrow> given_kept x (row_put r v y)) kStrOpts"
  unfolding table_defs given_kept_def row_kept_def row_defs by simp

text \<open>Every table's rows keep what was given.\<close>

lemma given_kept_rows:
  assumes "given_kept x y"
  shows "ri \<in> set kIntOpts \<Longrightarrow> \<not> row_seen ri y \<Longrightarrow> given_kept x (row_put ri i y)"
    and "rb \<in> set kBoolOpts \<Longrightarrow> \<not> row_seen rb y \<Longrightarrow> given_kept x (row_put rb b y)"
    and "rd \<in> set kDblOpts \<Longrightarrow> \<not> row_seen rd y \<Longrightarrow> given_kept x (row_put rd d y)"
    and "rs \<in> set kStrOpts \<Longrightarrow> \<not> row_seen rs y \<Longrightarrow> given_kept x (row_put rs s y)"
  using assms kept_int [of y x] kept_bool [of y x] kept_dbl [of y x] kept_str [of y x]
  by (simp_all add: list_all_iff)

lemma given_kept_same: "given_kept x x"
  by (simp add: given_kept_def row_kept_def list_all_iff)

lemma given_kept_algo: "given_kept x y \<Longrightarrow> given_kept x (saw (\<lambda>z. z\<lparr>seen_algo := True\<rparr>) y)"
  unfolding table_defs given_kept_def row_kept_def row_defs by simp

lemma given_kept_pools:
  "given_kept x y \<Longrightarrow> \<not> seen_pools (o_seen y) \<Longrightarrow>
    given_kept x (saw (\<lambda>z. z\<lparr>seen_pools := True\<rparr>) (y\<lparr>o_pools := ps\<rparr>))"
  unfolding table_defs given_kept_def row_kept_def row_defs by simp

lemma merges_kept: "merges x y \<Longrightarrow> given_kept x y"
  by (induction rule: merges.induct)
    (simp_all add: given_kept_same given_kept_algo given_kept_rows given_kept_pools)

text \<open>
  What the argument loop marks: a setting of the tables that no argument marked as given still has its
  default. The one exception is the script of the watchdog, whose argument marks nothing.
\<close>

definition row_marked :: "options \<Rightarrow> ('a, 'b) row_scheme \<Rightarrow> bool" where
  "row_marked x r = (row_seen r x \<or> r_get r x = r_get r options0)"

definition strings_marked :: "str_opt list" where
  "strings_marked = filter (\<lambda>r. r_key r \<noteq> ''WATCHDOGSCRIPT'') kStrOpts"

definition marked :: "options \<Rightarrow> bool" where
  "marked x = (list_all (row_marked x) kIntOpts \<and> list_all (row_marked x) kBoolOpts \<and>
     list_all (row_marked x) kDblOpts \<and> list_all (row_marked x) strings_marked)"

lemmas marked_eq = marked_def [unfolded strings_marked_def table_defs row_marked_def row_seen_def, simplified]

lemma marked_options0: "marked options0"
  by (simp add: marked_def row_marked_def list_all_iff)

lemma marked_free [simp]:
  "marked (x\<lparr>o_watchdog_action := a\<rparr>) = marked x" "marked (x\<lparr>o_watchdog_script := v\<rparr>) = marked x"
  "marked (x\<lparr>o_stats_width := n\<rparr>) = marked x" "marked (x\<lparr>o_list_algos := b\<rparr>) = marked x"
  "marked (x\<lparr>o_list_coins := b\<rparr>) = marked x" "marked (x\<lparr>o_config_path := v\<rparr>) = marked x"
  "marked (x\<lparr>o_json_profile := v\<rparr>) = marked x" "marked (x\<lparr>o_use_json_config := b\<rparr>) = marked x"
  "marked (x\<lparr>o_tune := b\<rparr>) = marked x" "marked (x\<lparr>o_tune_min_gain := d\<rparr>) = marked x"
  "marked (x\<lparr>o_pools := ps\<rparr>) = marked x" "marked (x\<lparr>o_substituted_user := b\<rparr>) = marked x"
  by (simp_all add: marked_eq)

lemma marked_groups:
  assumes "marked (pa_out s)"
  shows "group_keeps marked (parse_algo arg rest s)" "group_keeps marked (parse_pool_flags arg rest s)"
    "group_keeps marked (parse_power arg rest s)" "group_keeps marked (parse_tune arg rest s)"
  using assms unfolding parse_algo_def parse_pool_flags_def parse_power_def parse_tune_def
  by (intro kept_intros kept_upd kept_continue; simp add: upd_def; simp add: marked_eq saw_def)+

lemma marked_clock: "marked x \<Longrightarrow> marked (set_clock arg v x)"
  by (simp add: set_clock_def marked_eq saw_def)

lemma marked_layout: "marked x \<Longrightarrow> marked (set_layout b x)"
  by (simp add: set_layout_def marked_eq saw_def)

lemma marked_switch: "marked x \<Longrightarrow> marked (set_switch arg b x)"
  by (simp add: set_switch_def marked_eq saw_def)

lemma marked_groups':
  assumes "marked (pa_out s)"
  shows "group_keeps marked (parse_clocks arg rest s)" "group_keeps marked (parse_limits arg rest s)"
    "group_keeps marked (parse_layout arg rest s)" "group_keeps marked (parse_api arg rest s)"
    "group_keeps marked (parse_devices arg rest s)"
  using assms unfolding parse_clocks_def parse_limits_def parse_layout_def parse_api_def parse_devices_def Let_def
  by (intro kept_intros kept_upd kept_continue; simp add: marked_clock marked_layout; simp add: marked_eq saw_def)+

lemma marked_groups'':
  assumes "marked (pa_out s)"
  shows "group_keeps marked (parse_logging arg rest s)" "group_keeps marked (parse_modes arg rest s)"
    "group_keeps marked (parse_rest arg rest s)"
  using assms unfolding parse_logging_def parse_modes_def seconds_flag_def parse_rest_def Let_def
  by (intro kept_intros kept_upd kept_continue; simp add: upd_def marked_switch; simp add: marked_eq saw_def)+

lemma marked_parse_one:
  assumes "marked (pa_out s)"
  shows "kept marked (parse_one arg rest s)"
proof -
  have "kept marked (first_group flag_groups a rest s)" for a
    by (rule first_group_keeps)
      (use assms in \<open>auto simp: flag_groups_def values_help marked_groups marked_groups' marked_groups''\<close>)
  then show ?thesis by (simp add: parse_one_def kept_bad split: sum.splits)
qed

lemma marked_parse_loop: "marked (pa_out s) \<Longrightarrow> parse_loop args s = Inr s' \<Longrightarrow> marked (pa_out s')"
proof (induction args s arbitrary: s' rule: parse_loop.induct)
  case (2 arg rest s)
  from 2(3) obtain n t where t: "parse_one arg rest s = Continue n t" "parse_loop (drop n rest) t = Inr s'"
    by (auto split: outcome.splits)
  with marked_parse_one [OF 2(2), of arg rest] have "marked (pa_out t)" by (simp add: kept_def)
  with 2(1) t show ?case by blast
qed simp

lemma bind_pools_marked:
  "bind_pools users passes tlss k ps x = Inr y \<Longrightarrow> marked y = marked x \<and> o_seen y = o_seen x"
proof (induction ps arbitrary: k x)
  case (Cons p ps)
  then obtain e sub where "bind_pools users passes tlss (k + 1) ps
      (x\<lparr>o_substituted_user := o_substituted_user x \<or> sub, o_pools := o_pools x @ [e]\<rparr>) = Inr y"
    by (auto split: sum.splits prod.splits)
  from Cons.IH [OF this] show ?case by simp
qed simp

lemma marked_parse_args:
  assumes "parse_args args = Inr x"
  shows "marked x \<and> (o_pools x \<noteq> [] \<longrightarrow> seen_pools (o_seen x))"
proof -
  from assms obtain s where s: "parse_loop args pstate0 = Inr s" and f: "parse_finish s = Inr x" by (rule parse_argsE)
  have m: "marked (pa_out s)"
    by (rule marked_parse_loop [OF _ s]) (simp add: pstate0_def marked_options0)
  from f show ?thesis
  proof (rule parse_finishD)
    fix y
    assume y: "y = saw (\<lambda>z. z\<lparr>seen_algo := (pa_algo s \<noteq> ''''), seen_pools := (pa_pools s \<noteq> []),
        seen_user := (pa_users s \<noteq> []), seen_pass := (pa_passes s \<noteq> []), seen_tls := (pa_tls s \<noteq> [])\<rparr>) (pa_out s)"
      and b: "bind_pools (pa_users s) (pa_passes s) (pa_tls s) 0 (pa_pools s) y = Inr x"
    from m have "marked y" unfolding y by (simp add: marked_eq saw_def)
    moreover have "seen_pools (o_seen y) \<longleftrightarrow> pa_pools s \<noteq> []" by (simp add: y saw_def)
    moreover have "length (o_pools x) = length (pa_pools s)" using finish_pools [OF s f] by blast
    ultimately show ?thesis using bind_pools_marked [OF b] by auto
  qed
qed

text \<open>A setting that the command line moved away from its default is the same after the file.\<close>

definition row_stays :: "options \<Rightarrow> options \<Rightarrow> ('a, 'b) row_scheme \<Rightarrow> bool" where
  "row_stays x y r = (row_seen r x \<or> r_get r x \<noteq> r_get r options0 \<longrightarrow> r_get r y = r_get r x)"

definition all_stay :: "options \<Rightarrow> options \<Rightarrow> bool" where
  "all_stay x y =
    (list_all (row_stays x y) kIntOpts \<and> list_all (row_stays x y) kBoolOpts \<and>
     list_all (row_stays x y) kDblOpts \<and> list_all (row_stays x y) strings_marked \<and>
     (o_pools x \<noteq> [] \<longrightarrow> o_pools y = o_pools x))"

lemma row_staysI: "row_kept x y r \<Longrightarrow> row_marked x r \<Longrightarrow> row_stays x y r"
  by (auto simp: row_kept_def row_marked_def row_stays_def)

lemma marked_stay:
  assumes "given_kept x y" "marked x" "o_pools x \<noteq> [] \<longrightarrow> seen_pools (o_seen x)"
  shows "all_stay x y"
  using assms unfolding given_kept_def marked_def all_stay_def
  by (auto simp: list_all_iff strings_marked_def intro!: row_staysI)

lemma loaders_keep_given:
  "load_json_config read_json file path profile x = Inr y \<or> load_flat_config file path x = Inr y \<Longrightarrow> given_kept x y"
  by (auto intro: merges_kept json_merges flat_merges)

text \<open>
  C13: A configuration file never overrides what the command line gave: after an accepted command
  line, whichever loader runs and whatever the file says, every setting of the tables that an argument
  marked as given has its value and stays marked, every setting that the command line moved away from
  its default keeps the value it was moved to, and pools given on the command line are the pools. The
  one setting excepted from the second part is the script of the watchdog: its argument marks nothing,
  and a file does replace it where \<open>--watchdog\<close> was not given (\<open>given_script_replaced\<close>).
\<close>
theorem command_line_wins:
  assumes "parse_args args = Inr x"
    and "load_json_config read_json file path profile x = Inr y \<or> load_flat_config file path x = Inr y"
  shows "given_kept x y \<and> all_stay x y"
  using loaders_keep_given [OF assms(2)] marked_parse_args [OF assms(1)] by (simp add: marked_stay)

text \<open>The example: a command line with a port, and a file with another port and a temperature.\<close>

definition sample_flat :: string where
  "sample_flat = ''# rig'' @ [CHR 0x0A] @ ''apiport = 4068'' @ [CHR 0x0A] @ ''tstop = 85'' @ [CHR 0x0A]"

definition sample_options :: options where
  "sample_options = options0\<lparr>o_apiport := 80, o_seen := seen0\<lparr>seen_apiport := True\<rparr>\<rparr>"

definition sample_args :: "string list" where
  "sample_args = [''--apiport'', ''80'', ''--tmode'', ''junction'']"

theorem command_line_wins_witness:
  "case parse_args sample_args of
     Inr x \<Rightarrow> (case load_flat_config (Some sample_flat) ''c'' x of
         Inr y \<Rightarrow> o_apiport y = 80 \<and> o_tstop y = 85 \<and> given_kept x y \<and> all_stay x y
       | Inl _ \<Rightarrow> False)
   | Inl _ \<Rightarrow> False"
proof -
  have "case parse_args sample_args of
     Inr x \<Rightarrow> (case load_flat_config (Some sample_flat) ''c'' x of
         Inr y \<Rightarrow> o_apiport y = 80 \<and> o_tstop y = 85 | Inl _ \<Rightarrow> False) | Inl _ \<Rightarrow> False"
    by code_simp
  then show ?thesis using command_line_wins [of sample_args _ _ "Some sample_flat" "''c''"]
    by (auto split: sum.splits)
qed

text \<open>The script of the watchdog given on the command line, replaced by the one of a file.\<close>

lemma given_script_replaced:
  "case parse_args [''--watchdogscript'', ''/a''] of
     Inr x \<Rightarrow> o_watchdog_script x = ''/a'' \<and>
       (case load_flat_config (Some ''WATCHDOGSCRIPT = /b'') ''c'' x of
         Inr y \<Rightarrow> o_watchdog_script y = ''/b'' | Inl _ \<Rightarrow> False)
   | Inl _ \<Rightarrow> False"
  by code_simp

section \<open>What a file fills in\<close>

definition row_filled :: "options \<Rightarrow> options \<Rightarrow> (('a, 'b) row_scheme \<Rightarrow> 'a \<Rightarrow> bool) \<Rightarrow> ('a, 'b) row_scheme \<Rightarrow> bool" where
  "row_filled x y ok r = (row_seen r y \<longrightarrow> row_seen r x \<or> ok r (r_get r y))"

definition filled_ok :: "options \<Rightarrow> options \<Rightarrow> bool" where
  "filled_ok x y =
    (list_all (row_filled x y int_ok) kIntOpts \<and> list_all (row_filled x y dbl_ok) kDblOpts \<and>
     list_all (row_filled x y str_ok) kStrOpts \<and>
     (o_pools y = o_pools x \<or>
      seen_pools (o_seen y) \<and> list_all pool_ok (drop (length (o_pools x)) (o_pools y))))"

lemma filled_int: "list_all (\<lambda>r. \<forall>v. int_ok r v \<longrightarrow> filled_ok x y \<longrightarrow> filled_ok x (row_put r v y)) kIntOpts"
  unfolding table_defs filled_ok_def row_filled_def row_defs by (simp add: int_ok_def str_ok_def dbl_ok_def)


lemma filled_bool: "list_all (\<lambda>r. \<forall>v. filled_ok x y \<longrightarrow> filled_ok x (row_put r v y)) kBoolOpts"
  unfolding table_defs filled_ok_def row_filled_def row_defs by (simp add: int_ok_def str_ok_def dbl_ok_def)

lemma filled_dbl: "list_all (\<lambda>r. \<forall>v. dbl_ok r v \<longrightarrow> filled_ok x y \<longrightarrow> filled_ok x (row_put r v y)) kDblOpts"
  unfolding table_defs filled_ok_def row_filled_def row_defs by (simp add: int_ok_def str_ok_def dbl_ok_def)

lemma filled_str: "list_all (\<lambda>r. \<forall>v. str_ok r v \<longrightarrow> filled_ok x y \<longrightarrow> filled_ok x (row_put r v y)) kStrOpts"
  unfolding table_defs filled_ok_def row_filled_def row_defs by (simp add: int_ok_def str_ok_def dbl_ok_def)

lemma filled_rows:
  assumes "filled_ok x y"
  shows "ri \<in> set kIntOpts \<Longrightarrow> int_ok ri i \<Longrightarrow> filled_ok x (row_put ri i y)"
    and "rb \<in> set kBoolOpts \<Longrightarrow> filled_ok x (row_put rb b y)"
    and "rd \<in> set kDblOpts \<Longrightarrow> dbl_ok rd d \<Longrightarrow> filled_ok x (row_put rd d y)"
    and "rs \<in> set kStrOpts \<Longrightarrow> str_ok rs s \<Longrightarrow> filled_ok x (row_put rs s y)"
  using assms filled_int [of x y] filled_bool [of x y] filled_dbl [of x y] filled_str [of x y]
  by (simp_all add: list_all_iff)

lemma filled_same: "filled_ok x x"
  by (simp add: filled_ok_def row_filled_def list_all_iff)

lemma filled_algo: "filled_ok x y \<Longrightarrow> filled_ok x (saw (\<lambda>z. z\<lparr>seen_algo := True\<rparr>) y)"
  unfolding table_defs filled_ok_def row_filled_def row_defs by simp

lemma filled_pools:
  assumes "filled_ok x y" "\<not> seen_pools (o_seen y)" "list_all pool_ok ps" "qs = ps \<or> qs = o_pools y @ ps"
  shows "filled_ok x (saw (\<lambda>z. z\<lparr>seen_pools := True\<rparr>) (y\<lparr>o_pools := qs\<rparr>))"
proof -
  from assms have "o_pools y = o_pools x" by (auto simp: filled_ok_def)
  with assms(3,4) have "list_all pool_ok (drop (length (o_pools x)) qs)"
    by (auto simp: list_all_iff dest: in_set_dropD)
  with assms(1) show ?thesis
    unfolding table_defs filled_ok_def row_filled_def row_defs by simp
qed

lemma merges_filled: "merges x y \<Longrightarrow> filled_ok x y"
  by (induction rule: merges.induct)
    (simp_all add: filled_same filled_algo filled_rows filled_pools)

text \<open>
  C26: What a file fills in is in range: an option that was not given before and is after has a value
  its row accepts (an integer between the bounds the command line enforces, a percentage between 0 and
  100, a word of its domain), and pools that came from the file have a host, a port and a login.
\<close>
theorem file_values_in_range:
  assumes "load_json_config read_json file path profile x = Inr y \<or> load_flat_config file path x = Inr y"
  shows "filled_ok x y"
  using assms by (auto intro: merges_filled json_merges flat_merges)

theorem file_values_in_range_witness:
  "case load_flat_config (Some sample_flat) ''c'' sample_options of
     Inr y \<Rightarrow> row_seen (kIntOpts ! 6) y \<and> filled_ok sample_options y | Inl _ \<Rightarrow> False"
proof -
  have "case load_flat_config (Some sample_flat) ''c'' sample_options of
     Inr y \<Rightarrow> row_seen (kIntOpts ! 6) y | Inl _ \<Rightarrow> False"
    by code_simp
  then show ?thesis using file_values_in_range [of _ "Some sample_flat" "''c''" _ sample_options]
    by (auto split: sum.splits)
qed

section \<open>The two formats agree\<close>

text \<open>
  A flat file and a profile that say the same: the same keys, each with a text and a typed value that
  denote the same setting.
\<close>

definition same_int :: "string option \<Rightarrow> json option \<Rightarrow> bool" where
  "same_int s j =
    (s = None \<and> j = None \<or>
     (\<exists>i. s = Some (int_dec i) \<and> j = Some (JInt i) \<and> - (2 ^ 63) \<le> i \<and> i < 2 ^ 63))"

definition same_bool :: "string option \<Rightarrow> json option \<Rightarrow> bool" where
  "same_bool s j = (s = None \<and> j = None \<or> (\<exists>t b. s = Some t \<and> j = Some (JBool b) \<and> parse_flat_bool t = Some b))"

definition same_dbl :: "string option \<Rightarrow> json option \<Rightarrow> bool" where
  "same_dbl s j =
    (s = None \<and> j = None \<or>
     (\<exists>t v d. s = Some t \<and> j = Some v \<and> t \<noteq> '''' \<and> json_number v = Some d \<and> strtod t = (Fin d, '''', False)))"

definition same_str :: "string option \<Rightarrow> json option \<Rightarrow> bool" where
  "same_str s j = (s = None \<and> j = None \<or> (\<exists>t. s = Some t \<and> j = Some (JString t)))"

definition same_settings :: "(string \<rightharpoonup> string) \<Rightarrow> (string \<rightharpoonup> json) \<Rightarrow> bool" where
  "same_settings kv prof =
    (list_all (\<lambda>r. same_int (kv (r_key r)) (prof (r_key r))) kIntOpts \<and>
     list_all (\<lambda>r. same_bool (find_key kv (r_key r) (bo_alias r)) (find_key prof (r_key r) (bo_alias r))) kBoolOpts \<and>
     list_all (\<lambda>r. same_dbl (kv (r_key r)) (prof (r_key r))) kDblOpts \<and>
     list_all (\<lambda>r. same_str (kv (r_key r)) (prof (r_key r))) kStrOpts \<and>
     same_str (kv ''ALGO'') (prof ''ALGO''))"

text \<open>An outcome without the wording of its error.\<close>

definition unworded :: "(string \<times> options) + options \<Rightarrow> options + options" where
  "unworded m = (case m of Inl (e, x) \<Rightarrow> Inl x | Inr x \<Rightarrow> Inr x)"

definition row_agrees :: "(options \<Rightarrow> string + options) \<Rightarrow> (options \<Rightarrow> string + options) \<Rightarrow> bool" where
  "row_agrees f g = (\<forall>x. (case f x of Inl _ \<Rightarrow> \<exists>e. g x = Inl e | Inr y \<Rightarrow> g x = Inr y))"

lemma unworded_each:
  "(\<And>r. r \<in> set rs \<Longrightarrow> row_agrees (f r) (g r)) \<Longrightarrow> unworded (each f rs x) = unworded (each g rs x)"
proof (induction rs arbitrary: x)
  case (Cons r rs)
  from Cons.prems [of r] have a: "case f r x of Inl _ \<Rightarrow> \<exists>e. g r x = Inl e | Inr y \<Rightarrow> g r x = Inr y"
    by (simp add: row_agrees_def)
  show ?case
  proof (cases "f r x")
    case (Inl e)
    with a show ?thesis by (auto simp: unworded_def)
  next
    case (Inr y)
    with a Cons show ?thesis by simp
  qed
qed (simp add: unworded_def)

lemma unworded_and_then:
  assumes "unworded m = unworded m'" "\<And>x. unworded (k x) = unworded (k' x)"
  shows "unworded (and_then m k) = unworded (and_then m' k')"
proof (cases m)
  case (Inl e)
  with assms(1) show ?thesis by (cases m') (auto simp: unworded_def and_then_def split: prod.splits)
next
  case (Inr y)
  with assms(1) have "m' = Inr y" by (cases m') (auto simp: unworded_def)
  with Inr assms(2) show ?thesis by (simp add: and_then_def)
qed

lemma to_int64_id: "- (2 ^ 63) \<le> v \<Longrightarrow> v < 2 ^ 63 \<Longrightarrow> to_int64 v = v"
  by (simp add: to_int64_def signed_of_int signed_take_bit_int_eq_self)

lemma int_dec_digits: "all_digits (int_dec i) \<longleftrightarrow> 0 \<le> i"
proof (cases "i < 0")
  case True
  then show ?thesis by (simp add: all_digits_def int_dec_def is_digit_def)
next
  case False
  obtain c r where "dec (nat i) = c # r" using dec_head_digit by blast
  with False show ?thesis using dec_digits [of _ "nat i"] by (simp add: all_digits_def int_dec_def list_all_iff)
qed

lemma agree_int:
  assumes "same_int (kv (r_key r)) (map_of prof (r_key r))" "r \<in> set kIntOpts"
  shows "row_agrees (flat_int_row path kv r) (json_int_row profile prof r)"
proof -
  consider "kv (r_key r) = None" "map_of prof (r_key r) = None"
    | i where "kv (r_key r) = Some (int_dec i)" "map_of prof (r_key r) = Some (JInt i)" "- (2 ^ 63) \<le> i" "i < 2 ^ 63"
    using assms(1) by (auto simp: same_int_def)
  then show ?thesis
  proof cases
    case 1
    then show ?thesis
      by (simp add: row_agrees_def flat_int_row_def flat_row_def json_int_row_def find_key_def split: sum.splits)
  next
    case (2 i)
    from 2(3,4) have "strtol10 (int_dec i) = i" "to_int64 i = i" by (simp_all add: strtol_int_dec to_int64_id)
    moreover have "to_int32 i = i" if "io_lo r \<le> i" "i \<le> io_hi r"
      using that io_range [OF assms(2)] by (intro to_int32_id) simp_all
    ultimately show ?thesis using 2(1,2) io_range [OF assms(2)]
      by (auto simp: row_agrees_def flat_int_row_def flat_row_def json_int_row_def find_key_def
          parse_flat_int_def int_dec_digits Let_def split: sum.splits)
  qed
qed

lemma agree_bool:
  assumes "same_bool (find_key kv (r_key r) (bo_alias r)) (find_key (map_of prof) (r_key r) (bo_alias r))"
  shows "row_agrees (flat_bool_row path kv r) (json_bool_row profile prof r)"
  using assms by (auto simp: same_bool_def row_agrees_def flat_bool_row_def flat_row_def json_bool_row_def
      parse_json_bool_def split: sum.splits)

lemma agree_dbl:
  assumes "same_dbl (kv (r_key r)) (map_of prof (r_key r))"
  shows "row_agrees (flat_dbl_row path kv r) (json_dbl_row profile prof r)"
  using assms by (auto simp: same_dbl_def row_agrees_def flat_dbl_row_def flat_row_def json_dbl_row_def
      find_key_def flat_double_def split: sum.splits if_splits)

lemma agree_str:
  assumes "same_str (kv (r_key r)) (map_of prof (r_key r))"
  shows "row_agrees (flat_str_row path kv r) (json_str_row profile prof r)"
  using assms by (auto simp: same_str_def row_agrees_def flat_str_row_def flat_row_def json_str_row_def
      find_key_def json_text_def split: sum.splits option.splits)

lemma agree_algo:
  "same_str (kv ''ALGO'') (map_of prof ''ALGO'') \<Longrightarrow>
    unworded (flat_algo path kv x) = unworded (json_algo profile prof x)"
  by (auto simp: same_str_def flat_algo_def json_algo_def unworded_def)

text \<open>
  The two formats cannot drift apart: when a flat file and a JSON profile state the same
  settings, the two loaders do the same to the options, whatever was given before: both accept and
  yield equal options, or both refuse at the same setting, having filled in the same ones before it.
\<close>
theorem formats_agree:
  assumes "same_settings kv (map_of prof)"
  shows "unworded (flat_scalars path kv x) = unworded (apply_json_scalars prof profile x)"
  unfolding flat_scalars_def apply_json_scalars_def
  using assms
  by (intro unworded_and_then unworded_each agree_algo agree_int agree_bool agree_dbl agree_str)
    (simp_all add: same_settings_def list_all_iff)

definition sample_kv :: "string \<rightharpoonup> string" where
  "sample_kv = [''TSTOP'' \<mapsto> ''85'', ''LOG'' \<mapsto> ''on'', ''SOLVER'' \<mapsto> ''CUDA'', ''DIGITS'' \<mapsto> ''9'']"

definition sample_profile :: "(string \<times> json) list" where
  "sample_profile = [(''DIGITS'', JInt 9), (''TSTOP'', JInt 85), (''LOG'', JBool True), (''SOLVER'', JString ''CUDA'')]"

theorem formats_agree_witness:
  "same_settings sample_kv (map_of sample_profile) \<and>
   unworded (flat_scalars ''c'' sample_kv options0) = unworded (apply_json_scalars sample_profile ''p'' options0)"
proof -
  have d: "int_dec 85 = ''85''" "int_dec 9 = ''9''" "parse_flat_bool ''on'' = Some True" by code_simp+
  have e: "same_int (Some ''85'') (Some (JInt 85))" "same_int (Some ''9'') (Some (JInt 9))" "same_int None None"
    "same_bool (Some ''on'') (Some (JBool True))" "same_bool None None" "same_dbl None None" "same_str None None"
    "same_str (Some ''CUDA'') (Some (JString ''CUDA''))"
    using d by (auto simp: same_int_def same_bool_def same_dbl_def same_str_def intro: exI [of _ 85] exI [of _ 9])
  have "same_settings sample_kv (map_of sample_profile)"
    unfolding same_settings_def table_defs sample_kv_def sample_profile_def
    by (simp add: find_key_def e)
  with formats_agree [OF this] show ?thesis by simp
qed

section \<open>A script that is never run\<close>

lemma each_frame:
  assumes "each f rs x = Inr y" "\<And>r x x'. r \<in> set rs \<Longrightarrow> f r x = Inr x' \<Longrightarrow> g x' = g x"
  shows "g y = g x"
  by (rule each_inv [OF assms(1), where P = "\<lambda>y. g y = g x"]) (use assms(2) in auto)

text \<open>The rows before the strings leave the script alone.\<close>

lemma script_frame:
  "list_all (\<lambda>r. \<forall>v x. o_watchdog_script (row_put r v x) = o_watchdog_script x) kIntOpts"
  "list_all (\<lambda>r. \<forall>v x. o_watchdog_script (row_put r v x) = o_watchdog_script x) kBoolOpts"
  "list_all (\<lambda>r. \<forall>v x. o_watchdog_script (row_put r v x) = o_watchdog_script x) kDblOpts"
  unfolding table_defs row_defs by simp_all

text \<open>The row of \<open>WATCHDOG\<close> marks the flag that guards \<open>WATCHDOGSCRIPT\<close>.\<close>

definition watchdog_row :: bool_opt where
  "watchdog_row = kBoolOpts ! 3"

definition script_row :: str_opt where
  "script_row = kStrOpts ! 13"

lemma guard_rows:
  "watchdog_row \<in> set kBoolOpts" "script_row \<in> set kStrOpts" "r_key watchdog_row = ''WATCHDOG''"
  "bo_alias watchdog_row = None" "r_key script_row = ''WATCHDOGSCRIPT''"
  "r_get script_row = o_watchdog_script" "row_seen script_row x = seen_watchdog (o_seen x)"
  "row_seen watchdog_row x = seen_watchdog (o_seen x)" "seen_watchdog (o_seen (row_put watchdog_row v x))"
  unfolding watchdog_row_def script_row_def table_defs row_defs by simp_all

lemma each_reaches:
  assumes e: "each f rs x = Inr y" and m: "r \<in> set rs" and a: "\<And>x x'. f r x = Inr x' \<Longrightarrow> Q x'"
    and b: "\<And>r x x'. r \<in> set rs \<Longrightarrow> Q x \<Longrightarrow> f r x = Inr x' \<Longrightarrow> Q x'"
  shows "Q y"
  using e m b
proof (induction rs arbitrary: x)
  case (Cons s rs)
  from Cons.prems(1) obtain x' where x': "f s x = Inr x'" "each f rs x' = Inr y" by (simp split: sum.splits)
  have st: "Q t'" if "q \<in> set rs" "Q t" "f q t = Inr t'" for q t t'
    using that(2,3) by (rule Cons.prems(3) [rotated]) (simp add: that(1))
  show ?case
  proof (cases "s = r")
    case True
    with x'(1) have "f r x = Inr x'" by simp
    then have "Q x'" by (rule a)
    then show ?thesis by (rule each_inv [where P = Q, OF x'(2)]) (rule st)
  next
    case False
    with Cons.prems(2) have "r \<in> set rs" by simp
    then show ?thesis by (rule Cons.IH [OF x'(2)]) (rule st)
  qed
qed simp

lemma flags_stay:
  "list_all (\<lambda>r. \<forall>v x. seen_watchdog (o_seen x) \<longrightarrow> seen_watchdog (o_seen (row_put r v x))) kBoolOpts"
  "list_all (\<lambda>r. \<forall>v x. seen_watchdog (o_seen x) \<longrightarrow> seen_watchdog (o_seen (row_put r v x))) kDblOpts"
  unfolding table_defs row_defs by simp_all

text \<open>
  A flat file that turns the watchdog on cannot set its script: both rows share one flag, the
  booleans are read before the strings, and so \<open>WATCHDOGSCRIPT\<close> is skipped whenever \<open>WATCHDOG\<close> is
  present, although the command line had given neither.
\<close>
theorem watchdog_script_dropped:
  assumes "load_flat_config (Some body) path x = Inr y" "flat_map body ''WATCHDOG'' = Some s"
  shows "o_watchdog_script y = o_watchdog_script x"
proof -
  from assms(1) obtain z where z: "flat_scalars path (flat_map body) x = Inr z" "flat_pools path (flat_map body) z = Inr y"
    unfolding load_flat_config_def Let_def option.case and_then_Inr by blast
  then obtain a b c d where s: "flat_algo path (flat_map body) x = Inr a"
    "each (flat_int_row path (flat_map body)) kIntOpts a = Inr b"
    "each (flat_bool_row path (flat_map body)) kBoolOpts b = Inr c"
    "each (flat_dbl_row path (flat_map body)) kDblOpts c = Inr d"
    "each (flat_str_row path (flat_map body)) kStrOpts d = Inr z"
    by (auto simp: flat_scalars_def)
  let ?w = o_watchdog_script
  have "?w a = ?w x" using s(1) by (auto simp: flat_algo_def saw_def split: option.splits if_splits)
  moreover have "?w b = ?w a" using s(2) script_frame(1)
    by (intro each_frame [OF s(2)]) (auto simp: flat_int_row_def list_all_iff dest!: flat_row_fills)
  moreover have "?w c = ?w b" using s(3) script_frame(2)
    by (intro each_frame [OF s(3)]) (auto simp: flat_bool_row_def list_all_iff dest!: flat_row_fills)
  moreover have "?w d = ?w c" using s(4) script_frame(3)
    by (intro each_frame [OF s(4)]) (auto simp: flat_dbl_row_def list_all_iff dest!: flat_row_fills)
  moreover have "?w z = ?w d"
  proof -
    have "seen_watchdog (o_seen c)"
    proof (rule each_reaches [OF s(3) guard_rows(1)])
      show "seen_watchdog (o_seen x')" if "flat_bool_row path (flat_map body) watchdog_row x = Inr x'" for x x'
        using that assms(2) guard_rows(9)
        by (auto simp: flat_bool_row_def flat_row_def find_key_def guard_rows split: if_splits option.splits)
    qed (use flags_stay(1) in \<open>auto simp: flat_bool_row_def list_all_iff dest!: flat_row_fills\<close>)
    with s(4) have "seen_watchdog (o_seen d)"
      by (rule each_inv) (use flags_stay(2) in \<open>auto simp: flat_dbl_row_def list_all_iff dest!: flat_row_fills\<close>)
    then have g: "row_seen script_row d" by (simp add: guard_rows)
    have "given_kept d z"
      by (rule each_inv [OF s(5) given_kept_same])
        (auto simp: flat_str_row_def intro: given_kept_rows(4) dest!: flat_row_fills)
    with g guard_rows(2) have "r_get script_row z = r_get script_row d"
      by (auto simp: given_kept_def row_kept_def list_all_iff)
    then show ?thesis by (simp add: guard_rows)
  qed
  moreover have "?w y = ?w z" using z(2)
    by (auto simp: flat_pools_def saw_def split: option.splits if_splits sum.splits)
  ultimately show ?thesis by simp
qed

definition script_file :: string where
  "script_file = ''WATCHDOG = 1'' @ [CHR 0x0A] @ ''WATCHDOGSCRIPT = /reset.sh''"

theorem watchdog_script_dropped_witness:
  "flat_map script_file ''WATCHDOGSCRIPT'' = Some ''/reset.sh'' \<and>
   (case load_flat_config (Some script_file) ''c'' options0 of
      Inr y \<Rightarrow> o_watchdog_requested y \<and> o_watchdog_script y = '''' | Inl _ \<Rightarrow> False)"
proof -
  have a: "flat_map script_file ''WATCHDOGSCRIPT'' = Some ''/reset.sh''" "flat_map script_file ''WATCHDOG'' = Some ''1''"
    by code_simp+
  have "case load_flat_config (Some script_file) ''c'' options0 of Inr y \<Rightarrow> o_watchdog_requested y | Inl _ \<Rightarrow> False"
    by code_simp
  then show ?thesis using watchdog_script_dropped [of script_file "''c''" options0, OF _ a(2)] a
    by (auto simp: options0_def split: sum.splits)
qed

section \<open>Where the files and the command line differ\<close>

text \<open>A local pool in brackets needs no login on the command line, but does in a file.\<close>

lemma brackets_kept:
  "load_flat_config (Some ''POOL = [::1]:3333'') ''c'' options0 =
    Inl (''POOL given without USER in config file: c'', options0)"
  "case parse_args [''--pool'', ''[::1]:3333''] of Inr x \<Rightarrow> map pe_host (o_pools x) = [''::1''] | Inl _ \<Rightarrow> False"
  by code_simp+

text \<open>A login filled in for a local pool of a file is not announced.\<close>

lemma substitution_unannounced:
  "case load_flat_config (Some ''POOL = localhost:3333'') ''c'' options0 of
     Inr x \<Rightarrow> map pe_user (o_pools x) = [''x''] \<and> \<not> o_substituted_user x | Inl _ \<Rightarrow> False"
  by code_simp

text \<open>A file can set a restart temperature above the stop, which the command line refuses.\<close>

lemma cross_checks_skipped:
  "case load_flat_config (Some (''TSTOP = 60'' @ [CHR 0x0A] @ ''TSTART = 80'')) ''c'' options0 of
     Inr x \<Rightarrow> cross_checks x \<noteq> None | Inl _ \<Rightarrow> False"
  by code_simp

end
