(* ===== verification/Tune.thy ===== *)
theory Tune
  imports Json Overclock Devices
begin

text \<open>
  The power tuner (src/miner/tune.h, src/miner/tune.cpp): the verdict over measured points, the caps it
  measures, the sweep with its four passes and its restore, and the store that \<open>--pl auto\<close> reads. The
  card, the solver and the clock are an environment of functions on an explicit state; what is printed
  on the way is not modelled. Shown: the verdict's guarantees, that the refinement ends and stays
  in its bracket, that every return leaves the card as it was where an exception
  of the benchmark does not, and that what is stored is read back.
\<close>

section \<open>Points and verdict\<close>

record tune_point =
  tp_cap_w :: u32
  tp_draw_w :: double
  tp_sol_s :: double
  tp_median_ms :: double

definition point0 :: tune_point where
  "point0 = \<lparr>tp_cap_w = 0, tp_draw_w = 0, tp_sol_s = 0, tp_median_ms = 0\<rparr>"

record tune_verdict =
  tv_recommended_w :: u32
  tv_eff_w :: u32

text \<open>A comparison with the given gain, which may be infinite.\<close>

fun less_x :: "double \<Rightarrow> xdouble \<Rightarrow> bool" where
  "less_x v (Fin g) = (v < g)"
| "less_x v PInf = True"
| "less_x v NInf = False"
| "less_x v NaN = False"

text \<open>The watts a point is priced at: the measured draw, or the cap where there is none.\<close>

definition watts :: "tune_point \<Rightarrow> double" where
  "watts p = (if tp_draw_w p > 0 then tp_draw_w p else d_of_nat (unat (tp_cap_w p)))"

definition efficiency :: "tune_point \<Rightarrow> double" where
  "efficiency p = ddiv (tp_sol_s p) (watts p)"

definition better :: "tune_point \<Rightarrow> double \<times> u32 \<Rightarrow> double \<times> u32" where
  "better p b = (if watts p > 0 \<and> efficiency p > fst b then (efficiency p, tp_cap_w p) else b)"

fun tune_walk :: "xdouble \<Rightarrow> tune_point \<Rightarrow> tune_point list \<Rightarrow> u32 \<Rightarrow> u32" where
  "tune_walk gain p [] rec = rec"
| "tune_walk gain p (q # qs) rec =
    (let dw = dsub (d_of_nat (unat (tp_cap_w q))) (d_of_nat (unat (tp_cap_w p)))
     in if dw \<le> 0 then tune_walk gain q qs rec
        else if less_x (ddiv (dsub (tp_sol_s q) (tp_sol_s p)) dw) gain then rec
        else tune_walk gain q qs (tp_cap_w q))"

text \<open>The successful points in cap order.\<close>

definition usable :: "tune_point list \<Rightarrow> tune_point list" where
  "usable pts = sort_key tp_cap_w (filter (\<lambda>p. \<not> tp_sol_s p \<le> 0) pts)"

definition tune_verdict_of :: "tune_point list \<Rightarrow> xdouble \<Rightarrow> tune_verdict" where
  "tune_verdict_of pts gain =
    (case usable pts of
       [] \<Rightarrow> \<lparr>tv_recommended_w = 0, tv_eff_w = 0\<rparr>
     | p # ps \<Rightarrow>
         \<lparr>tv_recommended_w = tune_walk gain p ps (tp_cap_w p),
          tv_eff_w = snd (fold better (p # ps) (-1, 0))\<rparr>)"

section \<open>The caps to measure\<close>

text \<open>\<open>for (c = start; c < hi; c += s)\<close>, which need not end when \<open>c\<close> wraps around.\<close>

partial_function (option) steps :: "u32 \<Rightarrow> u32 \<Rightarrow> u32 \<Rightarrow> u32 list option" where
  "steps s hi c =
    (if c < hi then Option.bind (steps s hi (c + s)) (\<lambda>cs. Some (c # cs)) else Some [])"

definition interior :: "u32 \<Rightarrow> u32 \<Rightarrow> u32 \<Rightarrow> u32 \<Rightarrow> u32 list option" where
  "interior lo hi around s = map_option (filter (\<lambda>c. c \<noteq> around)) (steps s hi (lo + s))"

text \<open>The step, widened by 5 W until at most \<open>max_points\<close> fit.\<close>

partial_function (option) widen :: "u32 \<Rightarrow> u32 \<Rightarrow> u32 \<Rightarrow> u32 \<Rightarrow> u32 \<Rightarrow> u32 option" where
  "widen lo hi around max_points s =
    Option.bind (interior lo hi around s)
      (\<lambda>cs. if word_of_nat (length cs) > max_points then widen lo hi around max_points (s + 5) else Some s)"

definition refine_between :: "u32 \<Rightarrow> u32 \<Rightarrow> u32 \<Rightarrow> u32 \<Rightarrow> u32 list option" where
  "refine_between lo hi around max_points =
    (if hi \<le> lo then Some []
     else case widen lo hi around max_points 10 of
       None \<Rightarrow> None
     | Some s \<Rightarrow> interior lo hi around s)"

text \<open>The neighbours of the first point at a cap, in cap order.\<close>

fun bracket :: "u32 \<Rightarrow> u32 option \<Rightarrow> u32 list \<Rightarrow> (u32 \<times> u32) option" where
  "bracket around prev [] = None"
| "bracket around prev (c # cs) =
    (if c \<noteq> around then bracket around (Some c) cs
     else Some (the_default around prev, (case cs of [] \<Rightarrow> around | d # _ \<Rightarrow> d)))"

definition tune_refine_caps :: "tune_point list \<Rightarrow> u32 \<Rightarrow> u32 \<Rightarrow> u32 list option" where
  "tune_refine_caps pts around max_points =
    (case bracket around None (map tp_cap_w (sort_key tp_cap_w pts)) of
       None \<Rightarrow> Some []
     | Some (lo, hi) \<Rightarrow> refine_between lo hi around max_points)"

definition tune_default_caps :: "u32 \<Rightarrow> u32 \<Rightarrow> u32 list" where
  "tune_default_caps min_w default_w =
    (if min_w = 0 \<or> default_w \<le> min_w then []
     else remdups_adj (map (\<lambda>i. min_w + word_of_int (llround (ddiv (dmul (d_of_nat (unat (default_w - min_w))) (d_of_nat i)) 5)))
       [0..<6]))"

definition tune_rung_pick :: "u32 list \<Rightarrow> u32" where
  "tune_rung_pick supported =
    (let top = fold max supported 0;
         pick = fold (\<lambda>c p. if c < top * 7 div 10 \<and> c > p then c else p) supported 0
     in if top \<noteq> 0 \<and> pick \<ge> top div 5 then pick else 0)"

text \<open>The gains of the rung at the caps measured with and without it.\<close>

definition rung_gains :: "tune_point list \<Rightarrow> tune_point list \<Rightarrow> (u32 \<times> double) list" where
  "rung_gains stock rung =
    concat (map (\<lambda>r. if tp_sol_s r \<le> 0 then []
        else map (\<lambda>s. (tp_cap_w r, dsub (tp_sol_s r) (tp_sol_s s)))
          (filter (\<lambda>s. tp_cap_w s = tp_cap_w r \<and> tp_sol_s s > 0) (sort_key tp_cap_w stock)))
      (sort_key tp_cap_w rung))"

fun crossing :: "u32 \<times> double \<Rightarrow> (u32 \<times> double) list \<Rightarrow> u32" where
  "crossing (c, g) [] = c"
| "crossing (c, g) ((c', g') # ds) =
    (if g' > 0 then crossing (c', g') ds
     else c + word_of_int (llround (dmul (ddiv g (dsub g g')) (d_of_nat (unat (c' - c))))))"

definition tune_rung_below :: "tune_point list \<Rightarrow> tune_point list \<Rightarrow> u32" where
  "tune_rung_below stock rung =
    (case rung_gains stock rung of
       [] \<Rightarrow> 0
     | d # ds \<Rightarrow> if snd d \<le> 0 then 0 else crossing d ds)"

section \<open>The configuration\<close>

record tune_config =
  tc_device :: nat
  tc_seconds_per_point :: int
  tc_min_gain :: xdouble
  tc_caps :: "u32 list"
  tc_refine :: bool
  tc_rung_pass :: bool

definition tune_estimated_minutes :: "tune_config \<Rightarrow> u32 \<Rightarrow> int" where
  "tune_estimated_minutes cfg default_caps =
    (let n = (if tc_caps cfg = [] then default_caps else word_of_nat (length (tc_caps cfg)));
         pts = n + 2 + (if tc_refine cfg then 12 else 0) + (if tc_rung_pass cfg then n else 0);
         secs = sint pts * (tc_seconds_per_point cfg + 8)
     in (secs + 59) div 60)"

section \<open>The sweep\<close>

text \<open>
  How one benchmark ends: with its rate, its median and the telemetry; by what the solver threw, which
  nothing between it and \<open>main\<close> catches; or not at all, where it has no deadline and no stop comes.
\<close>

datatype bench_end = Measured double double tel_summary | BenchThrew string | BenchEndless

text \<open>What a step of the sweep tells the next: go on, stop, left by an exception, or stuck.\<close>

datatype flow = Go | Abort | Escape string | Stuck

text \<open>
  The world of the sweep: the driver's operations, the pause after a write (false when it was
  interrupted), the rebuilt solver (false when it failed), the benchmark with its telemetry, the
  supported memory clocks, and whether a stop was asked for.
\<close>

record 'hw tune_env =
  te_ops :: "'hw card_ops"
  te_settle :: "'hw \<Rightarrow> bool \<times> 'hw"
  te_remake :: "('hw \<Rightarrow> bool \<times> 'hw) option"
  te_bench :: "int \<Rightarrow> 'hw \<Rightarrow> bench_end \<times> 'hw"
  te_mem_clocks :: "'hw \<Rightarrow> u32 list"
  te_stopped :: "'hw \<Rightarrow> bool"

definition tune_can_write :: "'hw card_ops \<Rightarrow> nat \<Rightarrow> 'hw \<Rightarrow> bool \<times> 'hw" where
  "tune_can_write ops d hw =
    (case op_pl_read ops hw d of
       None \<Rightarrow> (False, hw)
     | Some pl \<Rightarrow> (case op_pl_write ops d (pl_current_w pl) hw of (w, hw') \<Rightarrow> (w = Ok, hw')))"

text \<open>Whether the memory clock stayed on the rung.\<close>

definition held :: "u32 \<Rightarrow> tel_summary \<Rightarrow> bool" where
  "held mclk t =
    (case sy_mem_clock_mhz t of None \<Rightarrow> False | Some c \<Rightarrow> \<not> c + 5 < mclk \<and> \<not> c > mclk + 5)"

text \<open>
  One measured point. The state is the world and whether this sweep has locked the memory clock; the
  result tells whether to go on, and has cap 0 where a rung arm was refused.
\<close>

definition go_on :: "'hw tune_env \<Rightarrow> 'hw \<Rightarrow> flow" where
  "go_on env hw = (if te_stopped env hw then Abort else Go)"

definition measure_point ::
    "'hw tune_env \<Rightarrow> tune_config \<Rightarrow> u32 \<Rightarrow> u32 \<Rightarrow> 'hw \<times> bool \<Rightarrow> flow \<times> tune_point \<times> 'hw \<times> bool" where
  "measure_point env cfg cap mclk st =
    (case st of (hw, mem) \<Rightarrow>
     case op_pl_write (te_ops env) (tc_device cfg) cap hw of (w, hw) \<Rightarrow>
     if w \<noteq> Ok then (Abort, point0, hw, mem)
     else case (if mclk = 0 then (Ok, hw) else op_lock_mem (te_ops env) (tc_device cfg) mclk mclk hw) of (l, hw) \<Rightarrow>
     if l \<noteq> Ok then (go_on env hw, point0, hw, mem)
     else let mem = (mem \<or> mclk \<noteq> 0) in
     case te_settle env hw of (rested, hw) \<Rightarrow>
     if \<not> rested then (Abort, point0, hw, mem)
     else case (case te_remake env of None \<Rightarrow> (True, hw) | Some f \<Rightarrow> f hw) of (built, hw) \<Rightarrow>
     if \<not> built then (Abort, point0, hw, mem)
     else case te_bench env (tc_seconds_per_point cfg) hw of
       (BenchThrew e, hw) \<Rightarrow> (Escape e, point0, hw, mem)
     | (BenchEndless, hw) \<Rightarrow> (Stuck, point0, hw, mem)
     | (Measured sol_s median t, hw) \<Rightarrow>
         if mclk \<noteq> 0 \<and> \<not> held mclk t then (go_on env hw, point0, hw, mem)
         else (go_on env hw,
           \<lparr>tp_cap_w = cap, tp_draw_w = the_default 0 (sy_power_w t), tp_sol_s = sol_s, tp_median_ms = median\<rparr>, hw, mem))"

fun run_pass ::
    "'hw tune_env \<Rightarrow> tune_config \<Rightarrow> u32 \<Rightarrow> u32 list \<Rightarrow> tune_point list \<Rightarrow> 'hw \<times> bool \<Rightarrow>
     flow \<times> tune_point list \<times> 'hw \<times> bool" where
  "run_pass env cfg mclk [] into st = (Go, into, st)"
| "run_pass env cfg mclk (cap # caps) into st =
    (case measure_point env cfg cap mclk st of (ok, p, st') \<Rightarrow>
     if ok \<noteq> Go then (ok, into, st')
     else if tp_cap_w p = 0 then
       (if \<not> snd st' then (Go, into, st') else run_pass env cfg mclk caps into st')
     else run_pass env cfg mclk caps (into @ [p]) st')"

definition clamp_cap :: "power_limit \<Rightarrow> u32 \<Rightarrow> u32" where
  "clamp_cap pl c =
    (let c = (if pl_min_w pl \<noteq> 0 \<and> c < pl_min_w pl then pl_min_w pl else c)
     in if pl_max_w pl \<noteq> 0 \<and> c > pl_max_w pl then pl_max_w pl else c)"

definition descending :: "u32 list \<Rightarrow> u32 list" where
  "descending cs = rev (sort cs)"

definition sweep_caps :: "tune_config \<Rightarrow> power_limit \<Rightarrow> u32 list" where
  "sweep_caps cfg pl =
    remdups_adj (descending (map (clamp_cap pl)
      (if tc_caps cfg = []
       then tune_default_caps (pl_min_w pl) (if pl_default_w pl \<noteq> 0 then pl_default_w pl else pl_max_w pl)
       else tc_caps cfg)))"

text \<open>The unlock after a rung pass.\<close>

definition unlock_mem :: "'hw tune_env \<Rightarrow> tune_config \<Rightarrow> 'hw \<times> bool \<Rightarrow> 'hw \<times> bool" where
  "unlock_mem env cfg st =
    (if snd st then (snd (op_unlock_mem (te_ops env) (tc_device cfg) (fst st)), False) else st)"

definition pass2 ::
    "'hw tune_env \<Rightarrow> tune_config \<Rightarrow> tune_point list \<Rightarrow> 'hw \<times> bool \<Rightarrow> (flow \<times> tune_point list \<times> 'hw \<times> bool) option" where
  "pass2 env cfg points st =
    (if \<not> tc_refine cfg then Some (Go, points, st)
     else case tune_refine_caps points (tv_recommended_w (tune_verdict_of points (tc_min_gain cfg))) 8 of
       None \<Rightarrow> None
     | Some fine \<Rightarrow> Some (run_pass env cfg 0 (descending fine) points st))"

definition pass3 ::
    "'hw tune_env \<Rightarrow> tune_config \<Rightarrow> u32 list \<Rightarrow> tune_point list \<Rightarrow> 'hw \<times> bool \<Rightarrow>
     flow \<times> u32 \<times> tune_point list \<times> 'hw \<times> bool" where
  "pass3 env cfg caps points st =
    (if \<not> tc_rung_pass cfg then (Go, 0, [], st)
     else
       let rung = tune_rung_pick (te_mem_clocks env (fst st));
           rcaps = filter (\<lambda>c. c \<le> tv_recommended_w (tune_verdict_of points (tc_min_gain cfg))) caps
       in if rung = 0 \<or> rcaps = [] then (Go, rung, [], st)
          else case run_pass env cfg rung rcaps [] st of (ok, pts, st') \<Rightarrow>
            if ok = Go then (Go, rung, pts, unlock_mem env cfg st') else (ok, rung, pts, st'))"

text \<open>The most efficient point so far, and whether it is a rung point.\<close>

definition eff_or_0 :: "tune_point \<Rightarrow> double" where
  "eff_or_0 p = (if watts p > 0 then efficiency p else 0)"

definition best_point :: "tune_point list \<Rightarrow> tune_point list \<Rightarrow> double \<times> u32 \<times> bool" where
  "best_point points rung_pts =
    fold (\<lambda>p b. if eff_or_0 p > fst b then (eff_or_0 p, tp_cap_w p, True) else b) rung_pts
      (fold (\<lambda>p b. if eff_or_0 p > fst b then (eff_or_0 p, tp_cap_w p, snd (snd b)) else b) points (0, 0, False))"

definition pass4 ::
    "'hw tune_env \<Rightarrow> tune_config \<Rightarrow> u32 \<Rightarrow> tune_point list \<Rightarrow> tune_point list \<Rightarrow> 'hw \<times> bool \<Rightarrow>
     (flow \<times> tune_point list \<times> tune_point list \<times> 'hw \<times> bool) option" where
  "pass4 env cfg rung points rung_pts st =
    (if \<not> tc_refine cfg then Some (Go, points, rung_pts, st)
     else case best_point points rung_pts of (best, best_cap, on_rung) \<Rightarrow>
       let series = (if on_rung then rung_pts else points)
       in case tune_refine_caps series best_cap 4 of
            None \<Rightarrow> None
          | Some ecaps \<Rightarrow>
              let ecaps = filter (\<lambda>c. c \<notin> tp_cap_w ` set series) ecaps
              in if ecaps = [] then Some (Go, points, rung_pts, st)
                 else case run_pass env cfg (if on_rung then rung else 0) ecaps series st of (ok, series, st') \<Rightarrow>
                   let st' = (if ok = Go then unlock_mem env cfg st' else st')
                   in Some (if on_rung then (ok, points, series, st') else (ok, series, rung_pts, st')))"

text \<open>The last measurement repeats the first: the drift in per cent.\<close>

definition drift_gauge ::
    "'hw tune_env \<Rightarrow> tune_config \<Rightarrow> u32 \<Rightarrow> tune_point list \<Rightarrow> 'hw \<times> bool \<Rightarrow> flow \<times> double \<times> 'hw \<times> bool" where
  "drift_gauge env cfg cap points st =
    (case measure_point env cfg cap 0 st of (ok, again, st') \<Rightarrow>
     let first = tp_median_ms (hd points) in
     if ok \<noteq> Go \<and> ok \<noteq> Abort then (ok, 0, st')
     else if ok = Go \<and> first > 0
     then (Go, dmul (ddiv (dsub (tp_median_ms again) first) first) 100, st')
     else (go_on env (fst st'), 0, st'))"

text \<open>What a sweep found.\<close>

record tune_result =
  tr_points :: "tune_point list"
  tr_rung_points :: "tune_point list"
  tr_rung_mhz :: u32
  tr_rung_below :: u32
  tr_recommended_w :: u32
  tr_eff_w :: u32
  tr_eff_on_rung :: bool
  tr_drift_pct :: double

definition by_cap_desc :: "tune_point list \<Rightarrow> tune_point list" where
  "by_cap_desc ps = rev (sort_key tp_cap_w (rev ps))"

definition tune_conclude :: "tune_config \<Rightarrow> tune_point list \<Rightarrow> tune_point list \<Rightarrow> u32 \<Rightarrow> double \<Rightarrow> tune_result" where
  "tune_conclude cfg points rung_pts rung drift =
    (let points = by_cap_desc points; rung_pts = by_cap_desc rung_pts;
         v = tune_verdict_of points (tc_min_gain cfg);
         below = (if length rung_pts \<ge> 2 then tune_rung_below points rung_pts else 0);
         b = fold (\<lambda>p b. if watts p > 0 \<and> efficiency p > fst b then (efficiency p, tp_cap_w p, snd (snd b)) else b)
           points (0, tv_eff_w v, False);
         b = fold (\<lambda>p b. if watts p > 0 \<and> efficiency p > fst b then (efficiency p, tp_cap_w p, True) else b) rung_pts b
     in \<lparr>tr_points = points, tr_rung_points = rung_pts, tr_rung_mhz = rung, tr_rung_below = below,
         tr_recommended_w = tv_recommended_w v, tr_eff_w = fst (snd b), tr_eff_on_rung = snd (snd b),
         tr_drift_pct = drift\<rparr>)"

text \<open>The destructor that runs on every way out of the sweep.\<close>

definition sweep_restore :: "'hw tune_env \<Rightarrow> tune_config \<Rightarrow> u32 \<Rightarrow> 'hw \<times> bool \<Rightarrow> 'hw" where
  "sweep_restore env cfg w st =
    snd (op_pl_write (te_ops env) (tc_device cfg) w (fst (unlock_mem env cfg st)))"

text \<open>The passes, up to what they conclude, or how they were left.\<close>

definition sweep ::
    "'hw tune_env \<Rightarrow> tune_config \<Rightarrow> u32 list \<Rightarrow> 'hw \<times> bool \<Rightarrow> ((flow + tune_result) \<times> 'hw \<times> bool) option" where
  "sweep env cfg caps st =
    (case measure_point env cfg (hd caps) 0 st of (ok, _, st) \<Rightarrow>
     if ok \<noteq> Go then Some (Inl ok, st)
     else case run_pass env cfg 0 caps [] st of (ok, points, st) \<Rightarrow>
     if ok \<noteq> Go then Some (Inl ok, st)
     else case pass2 env cfg points st of
       None \<Rightarrow> None
     | Some (ok, points, st) \<Rightarrow>
     if ok \<noteq> Go then Some (Inl ok, st)
     else case pass3 env cfg caps points st of (ok, rung, rung_pts, st) \<Rightarrow>
     if ok \<noteq> Go then Some (Inl ok, st)
     else case pass4 env cfg rung points rung_pts st of
       None \<Rightarrow> None
     | Some (ok, points, rung_pts, st) \<Rightarrow>
     if ok \<noteq> Go then Some (Inl ok, st)
     else case drift_gauge env cfg (hd caps) points st of (ok, drift, st) \<Rightarrow>
     if ok \<noteq> Go then Some (Inl ok, st)
     else Some (Inr (tune_conclude cfg points rung_pts rung drift), st))"

text \<open>
  \<open>None\<close> where it does not return; else how it ended and the world then. An exception ends the process
  where it was thrown: no handler waits for it, so the destructor does not run.
\<close>

datatype tune_exit = Failed1 | Threw string | Concluded tune_result

definition run_tune :: "'hw tune_env \<Rightarrow> tune_config \<Rightarrow> 'hw \<Rightarrow> (tune_exit \<times> 'hw) option" where
  "run_tune env cfg hw =
    (case op_pl_read (te_ops env) hw (tc_device cfg) of
       None \<Rightarrow> Some (Failed1, hw)
     | Some pl0 \<Rightarrow>
         (case tune_can_write (te_ops env) (tc_device cfg) hw of (can, hw) \<Rightarrow>
          if \<not> can then Some (Failed1, hw)
          else let caps = sweep_caps cfg pl0 in
          if length caps < 2 then Some (Failed1, hw)
          else case sweep env cfg caps (hw, False) of
            None \<Rightarrow> None
          | Some (Inl Stuck, st) \<Rightarrow> None
          | Some (Inl (Escape e), st) \<Rightarrow> Some (Threw e, fst st)
          | Some (Inl _, st) \<Rightarrow> Some (Failed1, sweep_restore env cfg (pl_current_w pl0) st)
          | Some (Inr r, st) \<Rightarrow> Some (Concluded r, sweep_restore env cfg (pl_current_w pl0) st)))"

section \<open>The refinement ends\<close>

lemma u32_less_iff: "(a :: u32) < b \<longleftrightarrow> unat a < unat b"
  by (simp add: word_less_nat_alt)

lemma unat_u32_add: "unat a + unat b < 2 ^ 32 \<Longrightarrow> unat (a + b :: u32) = unat a + unat b"
  using unat_add_lem [of a b] by simp

lemma u32_lt: "unat (a :: u32) < 2 ^ 32"
  using unsigned_less [of a] by simp

text \<open>An ascent by at least \<open>s\<close> at each step.\<close>

definition spaced :: "u32 \<Rightarrow> u32 list \<Rightarrow> bool" where
  "spaced s cs = sorted_wrt (\<lambda>a b. unat a + unat s \<le> unat b) cs"

lemma steps_ends:
  assumes "unat hi + unat s < 2 ^ 32" "s \<noteq> 0"
  shows "\<exists>cs. steps s hi c = Some cs \<and> spaced s cs \<and> (\<forall>x \<in> set cs. c \<le> x \<and> x < hi) \<and>
    length cs * unat s < (unat hi - unat c) + unat s \<and> (c < hi \<longrightarrow> cs \<noteq> [])"
  using assms
proof (induction "unat hi - unat c" arbitrary: c rule: less_induct)
  case less
  have s: "0 < unat s" using less.prems(2) by (simp add: unat_gt_0)
  show ?case
  proof (cases "c < hi")
    case False
    then have "unat hi - unat c = 0" by (simp add: u32_less_iff)
    with False s show ?thesis by (simp add: steps.simps [of s hi c] spaced_def)
  next
    case True
    then have c: "unat c < unat hi" by (simp add: u32_less_iff)
    with less.prems(1) have a: "unat (c + s) = unat c + unat s" by (intro unat_u32_add) simp
    from c s a have m: "unat hi - unat (c + s) < unat hi - unat c" by simp
    from less.hyps [OF m less.prems] obtain cs where cs: "steps s hi (c + s) = Some cs" "spaced s cs"
      "\<forall>x \<in> set cs. c + s \<le> x \<and> x < hi" "length cs * unat s < (unat hi - unat (c + s)) + unat s"
      "c + s < hi \<longrightarrow> cs \<noteq> []" by blast
    have n: "cs \<noteq> [] \<Longrightarrow> unat c + unat s < unat hi"
    proof -
      assume "cs \<noteq> []"
      then obtain x where "x \<in> set cs" by (cases cs) auto
      with cs(3) a show ?thesis by (force simp: word_le_nat_alt u32_less_iff)
    qed
    have "length (c # cs) * unat s < (unat hi - unat c) + unat s"
      using cs(4) n c a by (cases "cs = []") auto
    moreover have "spaced s (c # cs)" using cs(2,3) a by (auto simp: spaced_def word_le_nat_alt)
    moreover have "\<forall>x \<in> set (c # cs). c \<le> x \<and> x < hi"
      using cs(3) True a by (auto simp: word_le_nat_alt)
    ultimately show ?thesis using True cs(1) by (simp add: steps.simps [of s hi c])
  qed
qed

lemma interior_ends:
  assumes "unat hi + unat s < 2 ^ 32" "s \<noteq> 0" "lo < hi"
  shows "\<exists>cs. interior lo hi around s = Some cs \<and> spaced s cs \<and>
    (\<forall>x \<in> set cs. lo < x \<and> x < hi \<and> x \<noteq> around) \<and> (unat hi - unat lo \<le> unat s \<longrightarrow> cs = []) \<and>
    length cs < 2 ^ 32"
proof -
  from steps_ends [OF assms(1,2), of "lo + s"] obtain cs where cs: "steps s hi (lo + s) = Some cs" "spaced s cs"
    "\<forall>x \<in> set cs. lo + s \<le> x \<and> x < hi" "length cs * unat s < (unat hi - unat (lo + s)) + unat s" by blast
  have a: "unat (lo + s) = unat lo + unat s" using assms by (intro unat_u32_add) (simp add: u32_less_iff)
  have s: "0 < unat s" using assms(2) by (simp add: unat_gt_0)
  have "\<forall>x \<in> set cs. lo < x" using cs(3) a s by (auto simp: word_le_nat_alt u32_less_iff)
  moreover have "length cs < 2 ^ 32"
  proof -
    have "length cs \<le> length cs * unat s" using s by simp
    also have "\<dots> < 2 ^ 32" using cs(4) assms(1) by simp
    finally show ?thesis .
  qed
  moreover have "cs = []" if "unat hi - unat lo \<le> unat s"
    using cs(3) that a by (cases cs) (auto simp: word_le_nat_alt u32_less_iff)
  moreover have "spaced s (filter (\<lambda>c. c \<noteq> around) cs)"
    using cs(2) by (simp add: spaced_def sorted_wrt_filter)
  moreover have "length (filter (\<lambda>c. c \<noteq> around) cs) < 2 ^ 32"
    by (rule le_less_trans [OF length_filter_le \<open>length cs < 2 ^ 32\<close>])
  ultimately show ?thesis using cs(1,3)
    by (intro exI [of _ "filter (\<lambda>c. c \<noteq> around) cs"]) (auto simp: interior_def intro: le_less_trans)
qed

lemma widen_ends:
  assumes "unat hi < 2 ^ 31 - 8" "lo < hi" "10 \<le> unat s" "unat s < (unat hi - unat lo) + 10"
  shows "\<exists>s' cs. widen lo hi around m s = Some s' \<and> unat s \<le> unat s' \<and>
    interior lo hi around s' = Some cs \<and> length cs \<le> unat m \<and> spaced s' cs \<and>
    (\<forall>x \<in> set cs. lo < x \<and> x < hi \<and> x \<noteq> around)"
  using assms
proof (induction "unat hi + 10 - unat s" arbitrary: s rule: less_induct)
  case less
  have b: "unat hi + unat s < 2 ^ 32" "s \<noteq> 0" using less.prems by (auto simp: unat_eq_0)
  from interior_ends [OF b less.prems(2), of around] obtain cs where cs: "interior lo hi around s = Some cs" "spaced s cs"
    "\<forall>x \<in> set cs. lo < x \<and> x < hi \<and> x \<noteq> around" "unat hi - unat lo \<le> unat s \<longrightarrow> cs = []" "length cs < 2 ^ 32" by blast
  have l: "unat (word_of_nat (length cs) :: u32) = length cs"
    using cs(5) by (simp add: unsigned_of_nat take_bit_nat_eq_self)
  show ?case
  proof (cases "length cs \<le> unat m")
    case True
    then have "\<not> word_of_nat (length cs) > m" by (simp add: u32_less_iff l)
    with cs True show ?thesis by (simp add: widen.simps [of lo hi around m s])
  next
    case False
    then have w: "word_of_nat (length cs) > m" by (simp add: u32_less_iff l)
    from False have "cs \<noteq> []" by auto
    with cs(4) have lt: "unat s < unat hi - unat lo" by linarith
    then have five: "unat (s + 5) = unat s + 5" using less.prems(1) by (subst unat_u32_add) auto
    with lt have "\<exists>s' cs. widen lo hi around m (s + 5) = Some s' \<and> unat (s + 5) \<le> unat s' \<and>
      interior lo hi around s' = Some cs \<and> length cs \<le> unat m \<and> spaced s' cs \<and>
      (\<forall>x \<in> set cs. lo < x \<and> x < hi \<and> x \<noteq> around)"
      using less.prems by (intro less.hyps) auto
    then obtain s' cs' where s': "widen lo hi around m (s + 5) = Some s'" "unat (s + 5) \<le> unat s'"
      "interior lo hi around s' = Some cs'" "length cs' \<le> unat m" "spaced s' cs'"
      "\<forall>x \<in> set cs'. lo < x \<and> x < hi \<and> x \<noteq> around" by blast
    have "widen lo hi around m s = Some s'" using cs(1) w s'(1) by (simp add: widen.simps [of lo hi around m s])
    moreover have "unat s \<le> unat s'" using s'(2) five by simp
    ultimately show ?thesis using s'(3-6) by blast
  qed
qed

text \<open>The neighbours in a sorted list.\<close>

lemma bracket_neighbours:
  "bracket around prev cs = Some (lo, hi) \<Longrightarrow> sorted cs \<Longrightarrow> (\<forall>x \<in> set cs. the_default around prev \<le> x \<or> prev = None) \<Longrightarrow>
    around \<in> set cs \<and> lo \<in> insert (the_default around prev) (set cs) \<and> hi \<in> set cs \<and>
    (\<forall>x \<in> set cs. x \<le> lo \<or> hi \<le> x \<or> x = around)"
proof (induction cs arbitrary: prev)
  case (Cons c cs)
  show ?case
  proof (cases "c = around")
    case True
    with Cons.prems show ?thesis by (cases cs) auto
  next
    case False
    with Cons.prems have b: "bracket around (Some c) cs = Some (lo, hi)" "sorted cs"
      "\<forall>x \<in> set cs. the_default around (Some c) \<le> x \<or> Some c = None" by auto
    from Cons.IH [OF b] have IH: "around \<in> set cs" "lo \<in> insert c (set cs)" "hi \<in> set cs"
      "\<forall>x \<in> set cs. x \<le> lo \<or> hi \<le> x \<or> x = around" by auto
    have "c \<le> lo" using IH(2) Cons.prems(2) by auto
    with IH show ?thesis by auto
  qed
qed simp

text \<open>The caps that refine a verdict, between the neighbours of \<open>around\<close>.\<close>

definition refines :: "tune_point list \<Rightarrow> u32 \<Rightarrow> u32 \<Rightarrow> u32 list \<Rightarrow> bool" where
  "refines pts around max_points cs =
    (length cs \<le> unat max_points \<and> spaced 10 cs \<and> set cs \<inter> tp_cap_w ` set pts = {} \<and>
     (cs \<noteq> [] \<longrightarrow> around \<in> tp_cap_w ` set pts) \<and>
     (\<forall>c \<in> set cs. \<exists>lo \<in> tp_cap_w ` set pts. \<exists>hi \<in> tp_cap_w ` set pts. lo < c \<and> c < hi \<and> lo \<le> around \<and> around \<le> hi))"

lemma spaced_mono: "unat s \<le> unat s' \<Longrightarrow> spaced s' cs \<Longrightarrow> spaced s cs"
  unfolding spaced_def by (rule sorted_wrt_mono_rel) auto

lemma bracket_around:
  "bracket around prev xs = Some (lo, hi) \<Longrightarrow> sorted xs \<Longrightarrow> the_default around prev \<le> around \<Longrightarrow>
    (\<forall>x \<in> set xs. the_default x prev \<le> x) \<Longrightarrow> lo \<le> around \<and> around \<le> hi"
proof (induction xs arbitrary: prev)
  case (Cons x xs)
  show ?case
  proof (cases "x = around")
    case True
    with Cons.prems show ?thesis by (cases xs) auto
  next
    case False
    with Cons.prems have n: "bracket around (Some x) xs = Some (lo, hi)" "sorted xs" "\<forall>y \<in> set xs. x \<le> y" by auto
    have "around \<in> set xs" using bracket_neighbours [OF n(1,2)] n(3) by simp
    with n show ?thesis by (intro Cons.IH [OF n(1,2)]) auto
  qed
qed simp

lemma bracket_sides:
  assumes "bracket around None (sort cs) = Some (lo, hi)"
  shows "around \<in> set cs" "lo \<in> set cs" "hi \<in> set cs" "lo \<le> around" "around \<le> hi"
    and "\<forall>x \<in> set cs. x \<le> lo \<or> hi \<le> x \<or> x = around"
  using bracket_neighbours [OF assms] bracket_around [OF assms] by auto

lemma caps_sorted: "map tp_cap_w (sort_key tp_cap_w pts) = sort (map tp_cap_w pts)"
  by (rule properties_for_sort [symmetric]) (simp_all add: mset_map)

lemma refine_caps_end:
  assumes "list_all (\<lambda>p. unat (tp_cap_w p) < 2 ^ 31 - 8) pts"
  shows "\<exists>cs. tune_refine_caps pts around max_points = Some cs \<and> refines pts around max_points cs"
proof (cases "bracket around None (map tp_cap_w (sort_key tp_cap_w pts))")
  case None
  then show ?thesis by (simp add: tune_refine_caps_def refines_def spaced_def)
next
  case (Some b)
  obtain lo hi where b: "b = (lo, hi)" by (cases b)
  from Some b have "bracket around None (sort (map tp_cap_w pts)) = Some (lo, hi)" by (simp add: caps_sorted)
  note sides = bracket_sides [OF this]
  have r: "tune_refine_caps pts around max_points = refine_between lo hi around max_points"
    using Some b by (simp add: tune_refine_caps_def)
  show ?thesis
  proof (cases "hi \<le> lo")
    case True
    then show ?thesis by (simp add: r refine_between_def refines_def spaced_def)
  next
    case False
    then have lt: "lo < hi" by simp
    from assms sides(3) have "unat hi < 2 ^ 31 - 8" by (auto simp: list_all_iff)
    from widen_ends [OF this lt, of 10 around max_points] lt obtain s cs
      where s: "widen lo hi around max_points 10 = Some s" "10 \<le> unat s" "interior lo hi around s = Some cs"
        "length cs \<le> unat max_points" "spaced s cs" "\<forall>x \<in> set cs. lo < x \<and> x < hi \<and> x \<noteq> around"
      by (auto simp: u32_less_iff)
    have "spaced 10 cs" using s(2,5) by (intro spaced_mono [of 10 s]) simp_all
    moreover have "set cs \<inter> tp_cap_w ` set pts = {}"
      using s(6) sides(6) by fastforce
    ultimately have "refines pts around max_points cs"
      using s(4,6) sides(1-5) by (auto simp: refines_def)
    with s(1,3) False show ?thesis by (simp add: r refine_between_def)
  qed
qed

text \<open>
  The refinement ends and stays where it should: for caps below \<open>2 ^ 31 - 8\<close> watts
  \<open>tune_refine_caps\<close> returns, with at most \<open>max_points\<close> caps, at least ten watts apart, none of them
  measured before, and all strictly between the two measured caps that touch \<open>around\<close>. (The loops
  count in 32 bits without a guard: above that bound they may wrap around and not end.)
\<close>
theorem refinement_ends:
  assumes "list_all (\<lambda>p. unat (tp_cap_w p) < 2 ^ 31 - 8) pts"
  shows "\<exists>cs. tune_refine_caps pts around max_points = Some cs \<and> refines pts around max_points cs"
  by (rule refine_caps_end [OF assms])

definition sample_points :: "tune_point list" where
  "sample_points = map (\<lambda>(c, s). \<lparr>tp_cap_w = c, tp_draw_w = 0, tp_sol_s = s, tp_median_ms = 1\<rparr>)
    [(240, 30), (200, 28), (160, 24)]"

theorem refinement_ends_witness:
  "\<exists>cs. tune_refine_caps sample_points 200 8 = Some cs \<and> refines sample_points 200 8 cs"
  by (rule refinement_ends) (simp add: sample_points_def)

section \<open>The verdict\<close>

text \<open>Whether the step from \<open>p\<close> to \<open>q\<close> pays.\<close>

definition pays :: "xdouble \<Rightarrow> tune_point \<Rightarrow> tune_point \<Rightarrow> bool" where
  "pays gain p q =
    (tp_cap_w q \<le> tp_cap_w p \<or>
     \<not> less_x (ddiv (dsub (tp_sol_s q) (tp_sol_s p)) (of_nat (unat (tp_cap_w q) - unat (tp_cap_w p)))) gain)"

lemma cap_diff:
  "dsub (d_of_nat (unat (c :: u32))) (d_of_nat (unat (d :: u32))) = of_int (int (unat c) - int (unat d))"
proof -
  have e: "d_of_nat (unat x) = of_nat (unat x)" for x :: u32
    using u32_lt [of x] by (intro d_of_nat_exact) simp
  have "dbl (of_int (int (unat c) - int (unat d))) = of_int (int (unat c) - int (unat d))"
  proof (rule dbl_int)
    have "x < 2 ^ 32 \<Longrightarrow> y < 2 ^ 32 \<Longrightarrow> \<bar>int x - int y\<bar> \<le> 2 ^ 53" for x y :: nat by simp
    then show "\<bar>int (unat c) - int (unat d)\<bar> \<le> 2 ^ 53" using u32_lt [of c] u32_lt [of d] by blast
  qed
  then show ?thesis by (simp add: dsub_def e)
qed

lemma walk_spec:
  assumes "sorted_wrt (\<lambda>a b. tp_cap_w a \<le> tp_cap_w b) (p # qs)"
  shows "\<exists>pre post. p # qs = pre @ post \<and> pre \<noteq> [] \<and> successively (pays gain) pre \<and>
    tune_walk gain p qs (tp_cap_w p) = tp_cap_w (last pre) \<and>
    (post = [] \<or> \<not> pays gain (last pre) (hd post))"
  using assms
proof (induction qs arbitrary: p)
  case Nil
  show ?case by (intro exI [of _ "[p]"] exI [of _ "[]"]) simp
next
  case (Cons q qs)
  then have le: "tp_cap_w p \<le> tp_cap_w q" by simp
  let ?dw = "dsub (d_of_nat (unat (tp_cap_w q))) (d_of_nat (unat (tp_cap_w p)))"
  have dw: "?dw = of_nat (unat (tp_cap_w q) - unat (tp_cap_w p))"
    using le by (simp add: cap_diff word_le_nat_alt of_nat_diff)
  have z: "?dw \<le> 0 \<longleftrightarrow> tp_cap_w q = tp_cap_w p"
    unfolding dw of_nat_le_0_iff using le by (auto simp: word_le_nat_alt word_unat_eq_iff)
  show ?case
  proof (cases "pays gain p q")
    case False
    then have "\<not> ?dw \<le> 0" "less_x (ddiv (dsub (tp_sol_s q) (tp_sol_s p)) ?dw) gain"
      unfolding dw [symmetric] z pays_def by (auto simp: dw)
    then have "tune_walk gain p (q # qs) (tp_cap_w p) = tp_cap_w p" by simp
    with False show ?thesis by (intro exI [of _ "[p]"] exI [of _ "q # qs"]) simp
  next
    case True
    have w: "tune_walk gain p (q # qs) (tp_cap_w p) = tune_walk gain q qs (tp_cap_w q)"
    proof (cases "tp_cap_w q = tp_cap_w p")
      case True
      with z show ?thesis by simp
    next
      case False
      with True le have "\<not> less_x (ddiv (dsub (tp_sol_s q) (tp_sol_s p)) ?dw) gain"
        by (auto simp: pays_def dw)
      with z False show ?thesis by simp
    qed
    from Cons.IH [of q] Cons.prems obtain pre post where p: "q # qs = pre @ post" "pre \<noteq> []"
      "successively (pays gain) pre" "tune_walk gain q qs (tp_cap_w q) = tp_cap_w (last pre)"
      "post = [] \<or> \<not> pays gain (last pre) (hd post)" by auto
    from p(1,2) have "hd pre = q" by (cases pre) auto
    with True p have "successively (pays gain) (p # pre)" by (simp add: successively_Cons)
    with p w show ?thesis by (intro exI [of _ "p # pre"] exI [of _ post]) simp
  qed
qed

text \<open>The most efficient point.\<close>

lemma best_spec:
  "fold better ps b = b' \<Longrightarrow>
    fst b \<le> fst b' \<and> (\<forall>p \<in> set ps. watts p > 0 \<longrightarrow> efficiency p \<le> fst b') \<and>
    (b' = b \<or> (\<exists>p \<in> set ps. watts p > 0 \<and> b' = (efficiency p, tp_cap_w p)))"
proof (induction ps arbitrary: b)
  case (Cons p ps)
  from Cons.prems have f: "fold better ps (better p b) = b'" by simp
  from Cons.IH [OF f] show ?case by (auto simp: better_def split: if_splits)
qed auto

lemma usable_watts:
  assumes "q \<in> set (usable pts)" "0 < tp_cap_w q"
  shows "0 < watts q" and "0 \<le> efficiency q"
proof -
  have "0 < n \<Longrightarrow> n < 2 ^ 32 \<Longrightarrow> 0 < d_of_nat n" for n by (subst d_of_nat_exact) simp_all
  with assms(2) u32_lt have "0 < d_of_nat (unat (tp_cap_w q))" by (simp add: word_less_nat_alt)
  then show w: "0 < watts q" by (simp add: watts_def)
  from assms(1) have "0 < tp_sol_s q" by (auto simp: usable_def)
  with w have "0 \<le> tp_sol_s q / watts q" by simp
  from dbl_mono [OF this] show "0 \<le> efficiency q" by (simp add: efficiency_def ddiv_def)
qed

lemma eff_best:
  assumes "list_all (\<lambda>p. 0 < tp_cap_w p) (usable pts)" "usable pts \<noteq> []"
  shows "\<exists>p \<in> set (usable pts). snd (fold better (usable pts) (-1, 0)) = tp_cap_w p \<and>
    list_all (\<lambda>q. efficiency q \<le> efficiency p) (usable pts)"
proof -
  have w: "0 < watts q \<and> 0 \<le> efficiency q" if "q \<in> set (usable pts)" for q
    using that assms(1) usable_watts by (auto simp: list_all_iff)
  define b where "b = fold better (usable pts) (-1, 0)"
  from best_spec [OF b_def [symmetric]] have b: "\<forall>q \<in> set (usable pts). watts q > 0 \<longrightarrow> efficiency q \<le> fst b"
    "b = (-1, 0) \<or> (\<exists>q \<in> set (usable pts). watts q > 0 \<and> b = (efficiency q, tp_cap_w q))" by auto
  have "b \<noteq> (-1, 0)"
  proof
    assume "b = (-1, 0)"
    with b(1) w [of "hd (usable pts)"] assms(2) show False by fastforce
  qed
  with b(2) obtain q where "q \<in> set (usable pts)" "b = (efficiency q, tp_cap_w q)" by blast
  with b(1) w show ?thesis unfolding b_def [symmetric] by (intro bexI [of _ q]) (auto simp: list_all_iff)
qed

text \<open>
  C25: The verdict is the one the points support. Climbing the successful points by cap, every step up to
  the recommended cap pays at least the wanted gain per watt and the step after it does not; no
  successful point has a better yield per watt than the one at the efficient cap. Failed points do not
  count, and without any successful point there is no verdict.
\<close>
theorem verdict_supported:
  assumes "tune_verdict_of pts gain = v"
  shows "case usable pts of
      [] \<Rightarrow> v = \<lparr>tv_recommended_w = 0, tv_eff_w = 0\<rparr>
    | ps \<Rightarrow>
      (\<exists>pre post. ps = pre @ post \<and> pre \<noteq> [] \<and> successively (pays gain) pre \<and>
        tv_recommended_w v = tp_cap_w (last pre) \<and> (post = [] \<or> \<not> pays gain (last pre) (hd post))) \<and>
      (list_all (\<lambda>p. 0 < tp_cap_w p) ps \<longrightarrow>
        (\<exists>p \<in> set ps. tv_eff_w v = tp_cap_w p \<and> list_all (\<lambda>q. efficiency q \<le> efficiency p) ps))"
proof (cases "usable pts")
  case Nil
  with assms show ?thesis by (simp add: tune_verdict_of_def)
next
  case (Cons p ps)
  have so: "sorted_wrt (\<lambda>a b. tp_cap_w a \<le> tp_cap_w b) (p # ps)"
    using sorted_sort_key [of tp_cap_w "filter (\<lambda>p. \<not> tp_sol_s p \<le> 0) pts"] Cons
    by (simp add: usable_def sorted_map)
  have v: "tv_recommended_w v = tune_walk gain p ps (tp_cap_w p)" "tv_eff_w v = snd (fold better (usable pts) (-1, 0))"
    using assms Cons by (auto simp: tune_verdict_of_def)
  have "\<exists>pre post. usable pts = pre @ post \<and> pre \<noteq> [] \<and>
      successively (pays gain) pre \<and> tv_recommended_w v = tp_cap_w (last pre) \<and>
      (post = [] \<or> \<not> pays gain (last pre) (hd post))"
    unfolding Cons v(1) by (rule walk_spec [OF so])
  moreover have "list_all (\<lambda>p. 0 < tp_cap_w p) (usable pts) \<longrightarrow> (\<exists>p \<in> set (usable pts). tv_eff_w v = tp_cap_w p \<and>
      list_all (\<lambda>q. efficiency q \<le> efficiency p) (usable pts))"
    using eff_best [of pts] Cons by (simp add: v(2))
  ultimately show ?thesis using Cons by auto
qed

theorem verdict_supported_witness:
  "tune_verdict_of sample_points (Fin (1 / 10)) = \<lparr>tv_recommended_w = 200, tv_eff_w = 160\<rparr> \<and>
   (\<exists>p \<in> set (usable sample_points). p \<in> set sample_points \<and> tp_cap_w p = 160)"
proof -
  have u: "usable sample_points = map (\<lambda>(c, s). \<lparr>tp_cap_w = c, tp_draw_w = 0, tp_sol_s = s, tp_median_ms = 1\<rparr>)
      [(160, 24), (200, 28), (240, 30)]"
    by (simp add: usable_def sample_points_def)
  have v: "tune_verdict_of sample_points (Fin (1 / 10)) = \<lparr>tv_recommended_w = 200, tv_eff_w = 160\<rparr>"
    by code_simp
  from verdict_supported [OF v] u show ?thesis using v by (auto simp: u sample_points_def)
qed

section \<open>Every exit restores the card\<close>

text \<open>Only the writes touch the knobs: waiting, building a solver and benchmarking do not.\<close>

definition quiet :: "'hw tune_env \<Rightarrow> ('hw \<Rightarrow> nat \<Rightarrow> card) \<Rightarrow> bool" where
  "quiet env view \<longleftrightarrow>
    (\<forall>hw. view (snd (te_settle env hw)) = view hw) \<and>
    (\<forall>f hw. te_remake env = Some f \<longrightarrow> view (snd (f hw)) = view hw) \<and>
    (\<forall>n hw. view (snd (te_bench env n hw)) = view hw)"

text \<open>
  During the sweep: the card differs from its first state \<open>v0\<close> in the power limit only, and in the
  memory lock where this sweep set it.
\<close>

definition tuned :: "(knob \<Rightarrow> nat \<Rightarrow> bool) \<Rightarrow> ('hw \<Rightarrow> nat \<Rightarrow> card) \<Rightarrow> nat \<Rightarrow> (nat \<Rightarrow> card) \<Rightarrow> 'hw \<times> bool \<Rightarrow> bool" where
  "tuned ok view d v0 st \<longleftrightarrow>
    (\<exists>pl lock. view (fst st) = v0(d := (v0 d)\<lparr>cd_pl := pl, cd_mem_lock := lock\<rparr>) \<and>
      (if snd st then ok MemFree d \<and> cd_mem_lock (v0 d) = None else lock = cd_mem_lock (v0 d)))"

lemma write_view:
  assumes "writes view ok f k d upd" "f hw = (r, hw')"
  shows "r = Ok \<longleftrightarrow> ok k d" and "view hw' = (if r = Ok then (view hw)(d := upd (view hw d)) else view hw)"
  using assms by (auto simp: writes_def)

lemma card_updates: "c\<lparr>cd_mem_lock := l, cd_pl := w\<rparr> = c\<lparr>cd_pl := w, cd_mem_lock := l\<rparr>"
  by simp

lemma tunedI:
  assumes "view hw = v0(d := (v0 d)\<lparr>cd_pl := pl, cd_mem_lock := lock\<rparr>)"
    "if mem then ok MemFree d \<and> cd_mem_lock (v0 d) = None else lock = cd_mem_lock (v0 d)"
  shows "tuned ok view d v0 (hw, mem)"
  using assms unfolding tuned_def fst_conv snd_conv by blast

lemma tunedE:
  assumes "tuned ok view d v0 (hw, mem)"
  obtains pl lock where "view hw = v0(d := (v0 d)\<lparr>cd_pl := pl, cd_mem_lock := lock\<rparr>)"
    "if mem then ok MemFree d \<and> cd_mem_lock (v0 d) = None else lock = cd_mem_lock (v0 d)"
  using assms unfolding tuned_def fst_conv snd_conv by blast

lemma tuned_start: "tuned ok view d (view hw) (hw, False)"
  by (rule tunedI [where pl = "cd_pl (view hw d)" and lock = "cd_mem_lock (view hw d)"]) simp_all

lemma tuned_same: "tuned ok view d v0 (hw, mem) \<Longrightarrow> view hw' = view hw \<Longrightarrow> tuned ok view d v0 (hw', mem)"
  by (simp add: tuned_def)

lemma tuned_pl:
  assumes "tuned ok view d v0 (hw, mem)" "faithful ops view ok" "op_pl_write ops d w hw = (r, hw')"
  shows "tuned ok view d v0 (hw', mem)"
  using assms(1)
proof (rule tunedE)
  fix pl lock
  assume v: "view hw = v0(d := (v0 d)\<lparr>cd_pl := pl, cd_mem_lock := lock\<rparr>)"
    and m: "if mem then ok MemFree d \<and> cd_mem_lock (v0 d) = None else lock = cd_mem_lock (v0 d)"
  have "view hw' = (if r = Ok then (view hw)(d := (view hw d)\<lparr>cd_pl := w\<rparr>) else view hw)"
    by (rule write_view(2) [OF faithfulD(4) [OF assms(2)] assms(3)])
  then have "view hw' = v0(d := (v0 d)\<lparr>cd_pl := (if r = Ok then w else pl), cd_mem_lock := lock\<rparr>)"
    by (simp add: v card_updates)
  then show ?thesis using m by (rule tunedI)
qed

lemma tuned_lock:
  assumes "tuned ok view d v0 (hw, mem)" "faithful ops view ok" "op_lock_mem ops d a b hw = (r, hw')"
    "cd_mem_lock (v0 d) = None" "ok (MemLock a b) d \<Longrightarrow> ok MemFree d"
  shows "tuned ok view d v0 (hw', mem \<or> r = Ok)"
  using assms(1)
proof (rule tunedE)
  fix pl lock
  assume v: "view hw = v0(d := (v0 d)\<lparr>cd_pl := pl, cd_mem_lock := lock\<rparr>)"
    and m: "if mem then ok MemFree d \<and> cd_mem_lock (v0 d) = None else lock = cd_mem_lock (v0 d)"
  note w = write_view [OF faithfulD(9) [OF assms(2)] assms(3)]
  from w(2) have "view hw' = v0(d := (v0 d)\<lparr>cd_pl := pl, cd_mem_lock := (if r = Ok then Some (a, b) else lock)\<rparr>)"
    by (simp add: v)
  then show ?thesis by (rule tunedI) (use m w(1) assms(4,5) in auto)
qed

lemma tuned_unlock:
  assumes "tuned ok view d v0 st" "faithful (te_ops env) view ok" "tc_device cfg = d"
  shows "tuned ok view d v0 (unlock_mem env cfg st) \<and> \<not> snd (unlock_mem env cfg st)"
proof (cases "snd st")
  case True
  obtain hw where st: "st = (hw, True)" using True by (cases st) auto
  obtain r hw' where u: "op_unlock_mem (te_ops env) d hw = (r, hw')" by (cases "op_unlock_mem (te_ops env) d hw") 
  note w = write_view [OF faithfulD(10) [OF assms(2)] u]
  from assms(1) [unfolded st] have "tuned ok view d v0 (hw', False)"
  proof (rule tunedE)
    fix pl lock
    assume v: "view hw = v0(d := (v0 d)\<lparr>cd_pl := pl, cd_mem_lock := lock\<rparr>)"
      and m: "if True then ok MemFree d \<and> cd_mem_lock (v0 d) = None else lock = cd_mem_lock (v0 d)"
    from w m have "view hw' = v0(d := (v0 d)\<lparr>cd_pl := pl, cd_mem_lock := None\<rparr>)" by (simp add: v)
    then show ?thesis by (rule tunedI) (use m in simp)
  qed
  then show ?thesis by (simp add: st unlock_mem_def assms(3) u)
qed (use assms(1) in \<open>simp add: unlock_mem_def\<close>)

text \<open>A measurement keeps it, on the rung only where the memory was not locked before.\<close>

lemma measure_tuned:
  assumes "tuned ok view d v0 st" "faithful (te_ops env) view ok" "tc_device cfg = d" "quiet env view"
    "mclk \<noteq> 0 \<Longrightarrow> cd_mem_lock (v0 d) = None" "\<And>a b. ok (MemLock a b) d \<Longrightarrow> ok MemFree d" "measure_point env cfg cap mclk st = (go, p, st')"
  shows "tuned ok view d v0 st'"
proof -
  obtain hw mem where st: "st = (hw, mem)" by (cases st)
  obtain w h1 where w: "op_pl_write (te_ops env) d cap hw = (w, h1)" by (cases "op_pl_write (te_ops env) d cap hw")
  have t1: "tuned ok view d v0 (h1, mem)" using assms(1) unfolding st by (rule tuned_pl [OF _ assms(2) w])
  obtain l h2 where l: "(if mclk = 0 then (Ok, h1) else op_lock_mem (te_ops env) d mclk mclk h1) = (l, h2)"
    by (cases "if mclk = 0 then (Ok, h1) else op_lock_mem (te_ops env) d mclk mclk h1")
  have t2: "tuned ok view d v0 (h2, mem \<or> mclk \<noteq> 0 \<and> l = Ok)"
  proof (cases "mclk = 0")
    case True
    with l t1 show ?thesis by simp
  next
    case False
    with l have "op_lock_mem (te_ops env) d mclk mclk h1 = (l, h2)" by simp
    from tuned_lock [OF t1 assms(2) this assms(5) [OF False] assms(6)] False show ?thesis by simp
  qed
  obtain rested h3 where s: "te_settle env h2 = (rested, h3)" by (cases "te_settle env h2")
  obtain built h4 where r: "(case te_remake env of None \<Rightarrow> (True, h3) | Some f \<Rightarrow> f h3) = (built, h4)"
    by (cases "case te_remake env of None \<Rightarrow> (True, h3) | Some f \<Rightarrow> f h3")
  obtain be h5 where b: "te_bench env (tc_seconds_per_point cfg) h4 = (be, h5)"
    by (metis prod.exhaust)
  have "view (snd (te_settle env h2)) = view h2"
    "view (snd (case te_remake env of None \<Rightarrow> (True, h3) | Some f \<Rightarrow> f h3)) = view h3"
    "view (snd (te_bench env (tc_seconds_per_point cfg) h4)) = view h4"
    using assms(4) by (auto simp: quiet_def split: option.splits)
  then have v: "view h3 = view h2" "view h4 = view h2" "view h5 = view h2" by (simp_all add: s r b)
  have "st' = (h1, mem) \<or> l \<noteq> Ok \<and> st' = (h2, mem) \<or>
      l = Ok \<and> snd st' = (mem \<or> mclk \<noteq> 0) \<and> view (fst st') = view h2"
  proof (cases "w = Ok \<and> l = Ok")
    case True
    have "fst st' = h3 \<or> fst st' = h4 \<or> fst st' = h5" "snd st' = (mem \<or> mclk \<noteq> 0)"
      using assms(7) True unfolding measure_point_def st assms(3) Let_def
      by (cases be; auto simp: w l s r b split: if_splits)+
    with v True show ?thesis by auto
  next
    case False
    then show ?thesis
      using assms(7) unfolding measure_point_def st assms(3) by (auto simp: w l split: if_splits)
  qed
  then show ?thesis
  proof (elim disjE conjE)
    assume "l \<noteq> Ok" "st' = (h2, mem)"
    with t2 show ?thesis by simp
  next
    assume "l = Ok" "snd st' = (mem \<or> mclk \<noteq> 0)" "view (fst st') = view h2"
    with t2 show ?thesis by (simp add: tuned_def)
  qed (use t1 in simp)
qed

definition sweep_frame ::
    "'hw tune_env \<Rightarrow> tune_config \<Rightarrow> ('hw \<Rightarrow> nat \<Rightarrow> card) \<Rightarrow> (knob \<Rightarrow> nat \<Rightarrow> bool) \<Rightarrow> (nat \<Rightarrow> card) \<Rightarrow> bool" where
  "sweep_frame env cfg view ok v0 \<longleftrightarrow>
    faithful (te_ops env) view ok \<and> quiet env view \<and>
    (\<forall>a b. ok (MemLock a b) (tc_device cfg) \<longrightarrow> ok MemFree (tc_device cfg)) \<and>
    (tc_rung_pass cfg \<longrightarrow> cd_mem_lock (v0 (tc_device cfg)) = None)"

lemma measure_ok:
  "sweep_frame env cfg view ok v0 \<Longrightarrow> tuned ok view (tc_device cfg) v0 st \<Longrightarrow> (mclk \<noteq> 0 \<Longrightarrow> tc_rung_pass cfg) \<Longrightarrow> measure_point env cfg cap mclk st = (go, p, st') \<Longrightarrow> tuned ok view (tc_device cfg) v0 st'"
  using measure_tuned [of ok view "tc_device cfg" v0 st env cfg mclk cap go p st'] unfolding sweep_frame_def by blast

lemma run_pass_ok:
  "sweep_frame env cfg view ok v0 \<Longrightarrow> tuned ok view (tc_device cfg) v0 st \<Longrightarrow> (mclk \<noteq> 0 \<Longrightarrow> tc_rung_pass cfg) \<Longrightarrow> run_pass env cfg mclk caps into st = (go, pts, st') \<Longrightarrow> tuned ok view (tc_device cfg) v0 st'"
proof (induction caps arbitrary: into st)
  case (Cons cap caps)
  obtain g p s where m: "measure_point env cfg cap mclk st = (g, p, s)" by (metis prod.exhaust)
  from measure_ok [OF Cons.prems(1,2,3) m] have s: "tuned ok view (tc_device cfg) v0 s" by blast
  show ?case
  proof (cases "g = Go \<and> (tp_cap_w p \<noteq> 0 \<or> snd s)")
    case True
    with Cons.prems(4) obtain into' where "run_pass env cfg mclk caps into' s = (go, pts, st')"
      by (auto simp: m split: if_splits)
    with Cons.IH [OF Cons.prems(1) s Cons.prems(3)] show ?thesis by blast
  next
    case False
    with Cons.prems(4) s show ?thesis by (auto simp: m split: if_splits)
  qed
qed simp

lemma unlock_ok:
  "sweep_frame env cfg view ok v0 \<Longrightarrow> tuned ok view (tc_device cfg) v0 st \<Longrightarrow> tuned ok view (tc_device cfg) v0 (unlock_mem env cfg st)"
  using tuned_unlock [OF _ _ refl] unfolding sweep_frame_def by blast

lemma pass2_ok:
  "sweep_frame env cfg view ok v0 \<Longrightarrow> tuned ok view (tc_device cfg) v0 st \<Longrightarrow> pass2 env cfg points st = Some (go, pts, st') \<Longrightarrow> tuned ok view (tc_device cfg) v0 st'"
  using run_pass_ok [of env cfg view ok v0 st 0] by (auto simp: pass2_def split: if_splits option.splits)

lemma pass3_ok:
  assumes F: "sweep_frame env cfg view ok v0" and "tuned ok view (tc_device cfg) v0 st" "pass3 env cfg caps points st = (go, rung, pts, st')"
  shows "tuned ok view (tc_device cfg) v0 st' \<and> (pts \<noteq> [] \<longrightarrow> tc_rung_pass cfg)"
proof (cases "tc_rung_pass cfg")
  case True
  let ?rung = "tune_rung_pick (te_mem_clocks env (fst st))"
  let ?caps = "filter (\<lambda>c. c \<le> tv_recommended_w (tune_verdict_of points (tc_min_gain cfg))) caps"
  obtain g ps s where r: "run_pass env cfg ?rung ?caps [] st = (g, ps, s)" by (metis prod.exhaust)
  from run_pass_ok [OF F assms(2) True r] have "tuned ok view (tc_device cfg) v0 s" .
  with unlock_ok [OF F this] assms(2,3) True show ?thesis by (auto simp: pass3_def r Let_def split: if_splits)
qed (use assms in \<open>simp add: pass3_def\<close>)

lemma best_point_rung: "best_point points rung_pts = (e, c, True) \<Longrightarrow> rung_pts \<noteq> []"
proof
  assume b: "best_point points rung_pts = (e, c, True)" "rung_pts = []"
  have "\<not> snd (snd (fold (\<lambda>p b. if eff_or_0 p > fst b then (eff_or_0 p, tp_cap_w p, snd (snd b)) else b) points b))"
    if "\<not> snd (snd b)" for b
    using that by (induction points arbitrary: b) auto
  from this [of "(0, 0, False)"] b show False by (simp add: best_point_def)
qed

lemma pass4_ok:
  assumes F: "sweep_frame env cfg view ok v0" and "tuned ok view (tc_device cfg) v0 st" "rung_pts \<noteq> [] \<longrightarrow> tc_rung_pass cfg"
    "pass4 env cfg rung points rung_pts st = Some (go, points', rung_pts', st')"
  shows "tuned ok view (tc_device cfg) v0 st'"
proof (cases "tc_refine cfg")
  case True
  obtain e c on where b: "best_point points rung_pts = (e, c, on)" by (metis prod.exhaust)
  let ?series = "if on then rung_pts else points"
  from assms(4) True obtain ecaps where ec: "tune_refine_caps ?series c 4 = Some ecaps"
    by (auto simp: pass4_def b Let_def split: option.splits)
  let ?ecaps = "filter (\<lambda>c. c \<notin> tp_cap_w ` set ?series) ecaps"
  obtain g ps s where r: "run_pass env cfg (if on then rung else 0) ?ecaps ?series st = (g, ps, s)" by (metis prod.exhaust)
  have "(if on then rung else 0) \<noteq> 0 \<Longrightarrow> tc_rung_pass cfg"
    using best_point_rung [of points rung_pts e c] b assms(3) by (auto split: if_splits)
  from run_pass_ok [OF F assms(2) this r] have "tuned ok view (tc_device cfg) v0 s" .
  then have "tuned ok view (tc_device cfg) v0 (unlock_mem env cfg s)" by (rule unlock_ok [OF F])
  with \<open>tuned ok view (tc_device cfg) v0 s\<close> assms(2,4) True show ?thesis
    by (auto simp: pass4_def b ec r Let_def split: if_splits)
qed (use assms in \<open>simp add: pass4_def\<close>)

lemma drift_ok:
  "sweep_frame env cfg view ok v0 \<Longrightarrow> tuned ok view (tc_device cfg) v0 st \<Longrightarrow> drift_gauge env cfg cap points st = (f, d, st') \<Longrightarrow> tuned ok view (tc_device cfg) v0 st'"
proof -
  assume F: "sweep_frame env cfg view ok v0"
    and a: "tuned ok view (tc_device cfg) v0 st" "drift_gauge env cfg cap points st = (f, d, st')"
  obtain g p s where m: "measure_point env cfg cap 0 st = (g, p, s)" by (metis prod.exhaust)
  have "tuned ok view (tc_device cfg) v0 s" by (rule measure_ok [OF F a(1) _ m]) simp
  moreover have "st' = s" using a(2) by (auto simp: drift_gauge_def m Let_def split: if_splits)
  ultimately show ?thesis by simp
qed

lemma sweep_ok:
  assumes F: "sweep_frame env cfg view ok v0" and "tuned ok view (tc_device cfg) v0 st" "sweep env cfg caps st = Some (r, st')"
  shows "tuned ok view (tc_device cfg) v0 st'"
proof -
  obtain g1 p1 s1 where 1: "measure_point env cfg (hd caps) 0 st = (g1, p1, s1)" by (metis prod.exhaust)
  have s1: "tuned ok view (tc_device cfg) v0 s1" by (rule measure_ok [OF F assms(2) _ 1]) simp
  obtain g2 ps2 s2 where 2: "run_pass env cfg 0 caps [] s1 = (g2, ps2, s2)" by (metis prod.exhaust)
  have s2: "tuned ok view (tc_device cfg) v0 s2" by (rule run_pass_ok [OF F s1 _ 2]) simp
  show ?thesis
  proof (cases "g1 = Go \<and> g2 = Go")
    case False
    with assms(3) s1 s2 show ?thesis by (auto simp: sweep_def 1 2 split: if_splits)
  next
    case True
    with assms(3) obtain g3 ps3 s3 where 3: "pass2 env cfg ps2 s2 = Some (g3, ps3, s3)"
      by (auto simp: sweep_def 1 2 split: option.splits)
    from pass2_ok [OF F s2 3] have s3: "tuned ok view (tc_device cfg) v0 s3" .
    obtain g4 rung rps4 s4 where 4: "pass3 env cfg caps ps3 s3 = (g4, rung, rps4, s4)" by (metis prod.exhaust)
    from pass3_ok [OF F s3 4] have s4: "tuned ok view (tc_device cfg) v0 s4" and rp: "rps4 \<noteq> [] \<longrightarrow> tc_rung_pass cfg" by simp_all
    show ?thesis
    proof (cases "g3 = Go \<and> g4 = Go")
      case False
      with True assms(3) s3 s4 show ?thesis by (auto simp: sweep_def 1 2 3 4 split: if_splits)
    next
      case g: True
      with True assms(3) obtain g5 ps5 rps5 s5 where 5: "pass4 env cfg rung ps3 rps4 s4 = Some (g5, ps5, rps5, s5)"
        by (auto simp: sweep_def 1 2 3 4 split: option.splits)
      from pass4_ok [OF F s4 rp 5] have s5: "tuned ok view (tc_device cfg) v0 s5" .
      obtain f6 d s6 where 6: "drift_gauge env cfg (hd caps) ps5 s5 = (f6, d, s6)" by (metis prod.exhaust)
      from drift_ok [OF F s5 6] g True assms(3) s5 show ?thesis
        by (auto simp: sweep_def 1 2 3 4 5 6 split: if_splits)
    qed
  qed
qed

text \<open>The destructor after it.\<close>

lemma sweep_restored:
  assumes "tuned ok view d v0 st" "faithful (te_ops env) view ok" "tc_device cfg = d"
    "ok (PowerLimit w) d" "w = cd_pl (v0 d)"
  shows "view (sweep_restore env cfg w st) = v0"
proof -
  note u = tuned_unlock [OF assms(1-3)]
  obtain h2 where h2: "unlock_mem env cfg st = (h2, False)" using u by (cases "unlock_mem env cfg st") auto
  obtain r h3 where w: "op_pl_write (te_ops env) d w h2 = (r, h3)" by (cases "op_pl_write (te_ops env) d w h2")
  note wv = write_view [OF faithfulD(4) [OF assms(2)] w]
  from u h2 obtain p where "view h2 = v0(d := (v0 d)\<lparr>cd_pl := p, cd_mem_lock := cd_mem_lock (v0 d)\<rparr>)"
    by (auto simp: tuned_def)
  with wv assms(4,5) have "view h3 = v0" by (auto simp: fun_eq_iff)
  with h2 w assms(3) show ?thesis by (simp add: sweep_restore_def)
qed

text \<open>
  C12: The tuner gives the card back: with a driver whose answer to a write depends on the card and on what
  is written, and which takes back the power limit and lets go of the memory clock where it took them,
  and a memory clock that was not locked before (or with the rung pass off), whatever fails, is refused
  or is interrupted during the sweep, when \<open>run_tune\<close> returns the power limit and the memory clock of
  the tuned card, and everything of every other card, are what they were at the start. The one way
  out that does not give it back is an exception of the solver inside a benchmark, which nothing
  catches: then too nothing but the tuned card's power limit and memory lock is changed.
\<close>
theorem tune_restores_card:
  assumes "faithful (te_ops env) view ok" "quiet env view"
    and "takes_back ok (tc_device cfg) (view hw (tc_device cfg))"
    and "tc_rung_pass cfg \<longrightarrow> cd_mem_lock (view hw (tc_device cfg)) = None"
    and "run_tune env cfg hw = Some (r, hw')"
  shows "case r of
      Threw e \<Rightarrow> (\<exists>pl lock. view hw' =
        (view hw)(tc_device cfg := (view hw (tc_device cfg))\<lparr>cd_pl := pl, cd_mem_lock := lock\<rparr>))
    | Failed1 \<Rightarrow> view hw' = view hw
    | Concluded t \<Rightarrow> view hw' = view hw"
proof (cases "op_pl_read (te_ops env) hw (tc_device cfg)")
  case None
  with assms(5) show ?thesis by (auto simp: run_tune_def)
next
  case (Some pl0)
  let ?d = "tc_device cfg"
  obtain w h1 where w: "op_pl_write (te_ops env) ?d (pl_current_w pl0) hw = (w, h1)"
    by (cases "op_pl_write (te_ops env) ?d (pl_current_w pl0) hw")
  note pl = faithfulD(1) [OF assms(1) Some] and wv = write_view [OF faithfulD(4) [OF assms(1)] w]
  have h1: "view h1 = view hw" using wv(2) pl by simp
  show ?thesis
  proof (cases "w = Ok \<and> \<not> length (sweep_caps cfg pl0) < 2")
    case False
    with assms(5) h1 show ?thesis by (auto simp: run_tune_def tune_can_write_def Some w Let_def split: if_splits)
  next
    case True
    with assms(5) obtain q st where s: "sweep env cfg (sweep_caps cfg pl0) (h1, False) = Some (q, st)"
      by (auto simp: run_tune_def tune_can_write_def Some w Let_def split: option.splits)
    have F: "sweep_frame env cfg view ok (view h1)"
      using assms(1-4) h1 by (simp add: sweep_frame_def takes_back_def)
    from sweep_ok [OF F tuned_start s] have T: "tuned ok view ?d (view h1) st" .
    have "view (sweep_restore env cfg (pl_current_w pl0) st) = view hw"
      using sweep_restored [OF T assms(1) refl, of "pl_current_w pl0"] True wv(1) pl h1 by simp
    moreover have "\<exists>pl lock. view (fst st) = (view hw)(?d := (view hw ?d)\<lparr>cd_pl := pl, cd_mem_lock := lock\<rparr>)"
      using T h1 by (auto simp: tuned_def)
    moreover have "case r of Threw e \<Rightarrow> hw' = fst st | _ \<Rightarrow> hw' = sweep_restore env cfg (pl_current_w pl0) st"
      using True assms(5) s
      by (auto simp: run_tune_def tune_can_write_def Some w Let_def split: sum.splits flow.splits)
    ultimately show ?thesis by (auto split: tune_exit.splits)
  qed
qed

definition sample_summary :: "u32 \<Rightarrow> tel_summary" where
  "sample_summary clock = \<lparr>sy_power_w = None, sy_joules = None, sy_sm_clock_mhz = None,
     sy_mem_clock_mhz = Some clock, sy_temp_c = None, sy_util_pct = None, sy_events = None, sy_samples = 9\<rparr>"

definition sample_env :: "(nat \<Rightarrow> card) tune_env" where
  "sample_env = \<lparr>te_ops = sim_ops, te_settle = (\<lambda>hw. (True, hw)), te_remake = None,
     te_bench = (\<lambda>n hw. (Measured (if cd_pl (hw 0) = 200 then 0 else 150) 50
       (sample_summary (case cd_mem_lock (hw 0) of Some (a, b) \<Rightarrow> a | None \<Rightarrow> 10501)), hw)),
     te_mem_clocks = (\<lambda>hw. [10501, 5001]),
     te_stopped = (\<lambda>hw. cd_pl (hw 0) = 150 \<and> cd_mem_lock (hw 0) \<noteq> None)\<rparr>"

definition sample_config :: tune_config where
  "sample_config = \<lparr>tc_device = 0, tc_seconds_per_point = 60, tc_min_gain = Fin (7 / 100), tc_caps = [150, 200],
     tc_refine = False, tc_rung_pass = True\<rparr>"

lemma sample_aborts: "\<exists>hw. run_tune sample_env sample_config (\<lambda>_. sim_card) = Some (Failed1, hw)"
proof -
  have "case run_tune sample_env sample_config (\<lambda>_. sim_card) of Some (Failed1, hw) \<Rightarrow> True | _ \<Rightarrow> False"
    by code_simp
  then show ?thesis by (auto split: option.splits tune_exit.splits)
qed

lemma sample_holds:
  "faithful (te_ops sample_env) (\<lambda>hw. hw) sim_ok" "quiet sample_env (\<lambda>hw. hw)"
  "takes_back sim_ok (tc_device sample_config) ((\<lambda>_. sim_card) (tc_device sample_config))"
  using sim_faithful by (simp_all add: sample_env_def quiet_def takes_back_def sim_card_def)

theorem tune_restores_card_witness:
  "(case sweep sample_env sample_config [200, 150] (\<lambda>_. sim_card, False) of
      Some (Inl Abort, hw, locked) \<Rightarrow> locked \<and> cd_pl (hw 0) = 150 | _ \<Rightarrow> False) \<and>
   run_tune sample_env sample_config (\<lambda>_. sim_card) = Some (Failed1, \<lambda>_. sim_card)"
proof
  show "case sweep sample_env sample_config [200, 150] (\<lambda>_. sim_card, False) of
      Some (Inl Abort, hw, locked) \<Rightarrow> locked \<and> cd_pl (hw 0) = 150 | _ \<Rightarrow> False"
    by code_simp
  have m: "tc_rung_pass sample_config \<longrightarrow> cd_mem_lock ((\<lambda>_. sim_card) (tc_device sample_config)) = None"
    by (simp add: sim_card_def)
  obtain hw where r: "run_tune sample_env sample_config (\<lambda>_. sim_card) = Some (Failed1, hw)"
    using sample_aborts by blast
  with tune_restores_card [where hw = "\<lambda>_. sim_card" and cfg = sample_config, OF sample_holds m r]
  show "run_tune sample_env sample_config (\<lambda>_. sim_card) = Some (Failed1, \<lambda>_. sim_card)" by simp
qed

text \<open>
  A solver that throws while it is benchmarked, at the first point of the rung pass: the process ends with
  the card still capped and its memory clock still locked.
\<close>

definition throwing_env :: "(nat \<Rightarrow> card) tune_env" where
  "throwing_env = sample_env\<lparr>te_bench := (\<lambda>n hw. if cd_mem_lock (hw 0) = None then te_bench sample_env n hw
     else (BenchThrew ''device lost'', hw)), te_stopped := (\<lambda>_. False)\<rparr>"

lemma exception_leaves_card:
  "case run_tune throwing_env sample_config (\<lambda>_. sim_card) of
     Some (Threw e, hw) \<Rightarrow> cd_pl (hw 0) = 150 \<and> cd_mem_lock (hw 0) = Some (5001, 5001) \<and> cd_pl sim_card = 285
   | _ \<Rightarrow> False"
  by code_simp

section \<open>The sweep returns\<close>

text \<open>Every point is measured at a cap of its pass.\<close>

lemma measured_cap:
  assumes "measure_point env cfg cap mclk st = (g, p, s)"
  shows "tp_cap_w p = 0 \<or> tp_cap_w p = cap"
proof -
  have "tp_cap_w (fst (snd (measure_point env cfg cap mclk st))) \<in> {0, cap}"
    by (simp add: measure_point_def Let_def point0_def split: prod.split bench_end.split)
  with assms show ?thesis by simp
qed

definition caps_below :: "u32 \<Rightarrow> tune_point list \<Rightarrow> bool" where
  "caps_below m pts = (\<forall>c \<in> tp_cap_w ` set pts. c \<le> m)"

lemma run_pass_below:
  "run_pass env cfg mclk caps into st = (ok, pts, st') \<Longrightarrow> \<forall>c \<in> set caps. c \<le> m \<Longrightarrow> caps_below m into \<Longrightarrow> caps_below m pts"
proof (induction caps arbitrary: into st)
  case (Cons cap caps)
  obtain g p s where m: "measure_point env cfg cap mclk st = (g, p, s)" by (metis prod.exhaust)
  show ?case
  proof (cases "g = Go \<and> (tp_cap_w p \<noteq> 0 \<or> snd s)")
    case True
    with Cons.prems measured_cap [OF m] obtain into' where "run_pass env cfg mclk caps into' s = (ok, pts, st')" "caps_below m into'"
      by (auto simp: m caps_below_def split: if_splits)
    with Cons.IH Cons.prems(2) show ?thesis by simp
  next
    case False
    with Cons.prems(1,3) show ?thesis by (auto simp: m split: if_splits)
  qed
qed simp

lemma refine_returns:
  assumes "caps_below m pts" "unat m < 2 ^ 31 - 8"
  shows "\<exists>cs. tune_refine_caps pts around n = Some cs \<and> (\<forall>c \<in> set cs. c \<le> m)"
proof -
  from assms have "list_all (\<lambda>p. unat (tp_cap_w p) < 2 ^ 31 - 8) pts"
    by (auto simp: caps_below_def list_all_iff word_le_nat_alt intro: le_less_trans)
  from refine_caps_end [OF this, of around n] assms(1) show ?thesis
    unfolding refines_def caps_below_def by (metis order.strict_implies_order order.trans)
qed

text \<open>No benchmark runs for ever.\<close>

definition benches_end :: "'hw tune_env \<Rightarrow> tune_config \<Rightarrow> bool" where
  "benches_end env cfg \<longleftrightarrow> (\<forall>hw. fst (te_bench env (tc_seconds_per_point cfg) hw) \<noteq> BenchEndless)"

lemma measure_unstuck:
  assumes "benches_end env cfg"
  shows "fst (measure_point env cfg cap mclk st) \<noteq> Stuck"
proof -
  have b: "te_bench env (tc_seconds_per_point cfg) hw \<noteq> (BenchEndless, hw')" for hw hw'
    using assms unfolding benches_end_def by (metis fst_conv)
  then show ?thesis by (auto simp: measure_point_def go_on_def Let_def split: prod.split bench_end.split)
qed

lemma pass_unstuck:
  assumes "benches_end env cfg"
  shows "fst (run_pass env cfg mclk caps into st) \<noteq> Stuck"
proof (induction caps arbitrary: into st)
  case (Cons cap caps)
  with measure_unstuck [OF assms, of cap mclk st] show ?case by (auto split: prod.split)
qed simp

lemmas unstuck = measure_unstuck pass_unstuck

lemma passes_unstuck:
  assumes "benches_end env cfg"
  shows "pass2 env cfg points st = Some r \<Longrightarrow> fst r \<noteq> Stuck"
    "fst (pass3 env cfg caps points st) \<noteq> Stuck"
    "pass4 env cfg rung points rung_pts st = Some r' \<Longrightarrow> fst r' \<noteq> Stuck"
    "fst (drift_gauge env cfg cap points st) \<noteq> Stuck"
proof -
  have p: "run_pass env cfg m cs into s \<noteq> (Stuck, x)" for m cs into s x
    using pass_unstuck [OF assms, of m cs into s] by auto
  have m: "measure_point env cfg c k s \<noteq> (Stuck, x)" for c k s x
    using measure_unstuck [OF assms, of c k s] by auto
  show "pass2 env cfg points st = Some r \<Longrightarrow> fst r \<noteq> Stuck"
    using p by (cases r; cases st) (auto simp: pass2_def split: if_splits option.splits)
  show "fst (pass3 env cfg caps points st) \<noteq> Stuck"
    using p by (cases st) (auto simp: pass3_def Let_def split: prod.split)
  show "pass4 env cfg rung points rung_pts st = Some r' \<Longrightarrow> fst r' \<noteq> Stuck"
    using p by (cases r'; cases st) (auto simp: pass4_def Let_def split: if_splits option.splits prod.splits)
  show "fst (drift_gauge env cfg cap points st) \<noteq> Stuck"
    using m by (cases st) (auto simp: drift_gauge_def go_on_def Let_def split: prod.split)
qed

lemma sweep_unstuck:
  assumes "benches_end env cfg" "sweep env cfg caps st = Some (q, st')"
  shows "q \<noteq> Inl Stuck"
proof
  assume q: "q = Inl Stuck"
  note P = passes_unstuck [OF assms(1)]
  obtain g1 p1 s1 where 1: "measure_point env cfg (hd caps) 0 st = (g1, p1, s1)" by (metis prod.exhaust)
  obtain g2 ps2 s2 where 2: "run_pass env cfg 0 caps [] s1 = (g2, ps2, s2)" by (metis prod.exhaust)
  from 1 2 unstuck [OF assms(1)] have n: "g1 \<noteq> Stuck" "g2 \<noteq> Stuck" by (metis fst_conv)+
  show False
  proof (cases "g1 = Go \<and> g2 = Go")
    case False
    with assms(2) n q show False by (auto simp: sweep_def 1 2 split: if_splits)
  next
    case True
    with assms(2) obtain g3 ps3 s3 where 3: "pass2 env cfg ps2 s2 = Some (g3, ps3, s3)"
      by (auto simp: sweep_def 1 2 split: option.splits)
    obtain g4 rung rps4 s4 where 4: "pass3 env cfg caps ps3 s3 = (g4, rung, rps4, s4)" by (metis prod.exhaust)
    from P(1) [OF 3] P(2) [of caps ps3 s3] 4 have m: "g3 \<noteq> Stuck" "g4 \<noteq> Stuck" by simp_all
    show False
    proof (cases "g3 = Go \<and> g4 = Go")
      case False
      with True assms(2) m q show False by (auto simp: sweep_def 1 2 3 4 split: if_splits)
    next
      case g: True
      with True assms(2) obtain g5 ps5 rps5 s5 where 5: "pass4 env cfg rung ps3 rps4 s4 = Some (g5, ps5, rps5, s5)"
        by (auto simp: sweep_def 1 2 3 4 split: option.splits)
      obtain f6 d s6 where 6: "drift_gauge env cfg (hd caps) ps5 s5 = (f6, d, s6)" by (metis prod.exhaust)
      from P(3) [OF 5] P(4) [of "hd caps" ps5 s5] 6 have "g5 \<noteq> Stuck" "f6 \<noteq> Stuck" by simp_all
      with True g assms(2) q show False by (auto simp: sweep_def 1 2 3 4 5 6 split: if_splits)
    qed
  qed
qed

lemma pass2_returns:
  assumes "caps_below m points" "unat m < 2 ^ 31 - 8"
  shows "\<exists>g ps s. pass2 env cfg points st = Some (g, ps, s) \<and> caps_below m ps"
proof -
  from refine_returns [OF assms] obtain cs where
    cs: "tune_refine_caps points (tv_recommended_w (tune_verdict_of points (tc_min_gain cfg))) 8 = Some cs" "\<forall>c \<in> set cs. c \<le> m"
    by blast
  obtain g ps s where r: "run_pass env cfg 0 (descending cs) points st = (g, ps, s)" by (metis prod.exhaust)
  from run_pass_below [OF r _ assms(1)] cs(2) have "caps_below m ps" by (simp add: descending_def)
  with r cs(1) assms(1) show ?thesis by (auto simp: pass2_def)
qed

lemma pass3_below:
  assumes "pass3 env cfg caps points st = (g, rung, ps, s)" "\<forall>c \<in> set caps. c \<le> m"
  shows "caps_below m ps"
proof -
  obtain g' ps' s' where r: "run_pass env cfg (tune_rung_pick (te_mem_clocks env (fst st)))
    (filter (\<lambda>c. c \<le> tv_recommended_w (tune_verdict_of points (tc_min_gain cfg))) caps) [] st = (g', ps', s')" by (metis prod.exhaust)
  from run_pass_below [OF r, of m] assms(2) have "caps_below m ps'" by (simp add: caps_below_def)
  with assms(1) show ?thesis by (auto simp: pass3_def Let_def r caps_below_def split: if_splits)
qed

lemma pass4_returns:
  assumes "caps_below m points" "caps_below m rung_pts" "unat m < 2 ^ 31 - 8"
  shows "\<exists>r. pass4 env cfg rung points rung_pts st = Some r"
proof -
  obtain e c on where b: "best_point points rung_pts = (e, c, on)" by (metis prod.exhaust)
  have "caps_below m (if on then rung_pts else points)" using assms(1,2) by simp
  from refine_returns [OF this assms(3), of c 4] show ?thesis
    by (auto simp: pass4_def b Let_def split: prod.splits)
qed

lemma sweep_returns:
  assumes "\<forall>c \<in> set caps. c \<le> m" "unat m < 2 ^ 31 - 8"
  shows "\<exists>r. sweep env cfg caps st = Some r"
proof -
  obtain g1 p1 s1 where 1: "measure_point env cfg (hd caps) 0 st = (g1, p1, s1)" by (metis prod.exhaust)
  obtain g2 ps2 s2 where 2: "run_pass env cfg 0 caps [] s1 = (g2, ps2, s2)" by (metis prod.exhaust)
  from run_pass_below [OF 2 assms(1)] have "caps_below m ps2" by (simp add: caps_below_def)
  from pass2_returns [OF this assms(2), of env cfg s2] obtain g3 ps3 s3
    where 3: "pass2 env cfg ps2 s2 = Some (g3, ps3, s3)" "caps_below m ps3" by blast
  obtain g4 rung rps4 s4 where 4: "pass3 env cfg caps ps3 s3 = (g4, rung, rps4, s4)" by (metis prod.exhaust)
  from pass4_returns [OF 3(2) pass3_below [OF 4 assms(1)] assms(2)] obtain g5 ps5 rps5 s5
    where 5: "pass4 env cfg rung ps3 rps4 s4 = Some (g5, ps5, rps5, s5)" by (metis prod.exhaust)
  show ?thesis by (simp add: sweep_def 1 2 3(1) 4 5 split: prod.splits)
qed

lemma sweep_caps_below: "pl_max_w pl \<noteq> 0 \<Longrightarrow> \<forall>c \<in> set (sweep_caps cfg pl). c \<le> pl_max_w pl"
  by (auto simp: sweep_caps_def descending_def clamp_cap_def Let_def)

text \<open>
  C14: The tuner itself never hangs: on a card whose driver names a maximum power limit below \<open>2 ^ 31 - 8\<close>
  watts, when every benchmark of a point ends (with a figure or by an exception; one without a deadline ends
  with the stop flag only), \<open>run_tune\<close> ends, whatever caps the user asks for, whatever the benchmarks
  measure and whatever fails on the way: the loops of both refining passes, which count in 32 bits
  without a guard, end too.
\<close>
theorem tuner_returns:
  assumes "benches_end env cfg" "op_pl_read (te_ops env) hw (tc_device cfg) = Some pl" "pl_max_w pl \<noteq> 0"
    "unat (pl_max_w pl) < 2 ^ 31 - 8"
  shows "\<exists>r. run_tune env cfg hw = Some r"
proof -
  obtain can hw' where c: "tune_can_write (te_ops env) (tc_device cfg) hw = (can, hw')" by (metis prod.exhaust)
  from sweep_returns [OF sweep_caps_below [OF assms(3)] assms(4)] obtain r st
    where s: "sweep env cfg (sweep_caps cfg pl) (hw', False) = Some (r, st)" by (metis prod.exhaust)
  from sweep_unstuck [OF assms(1) s] have "r \<noteq> Inl Stuck" .
  with c s assms(2) show ?thesis by (auto simp: run_tune_def Let_def split: sum.splits flow.splits)
qed

theorem tuner_returns_witness: "\<exists>r. run_tune sample_env sample_config (\<lambda>_. sim_card) = Some r"
  by (rule tuner_returns [where pl = "the (op_pl_read sim_ops (\<lambda>_. sim_card) 0)"])
    (simp_all add: sample_env_def sample_config_def sim_ops_def sim_card_def benches_end_def)

section \<open>The store\<close>

text \<open>
  The store is one JSON object with an entry per card; \<open>None\<close> is a file that is absent or does not
  parse. What the library writes it reads back unchanged, except that a number that is not finite
  is written as \<open>null\<close> (strings are taken to be UTF-8, which the library insists on).
\<close>

record tune_store =
  ts_date :: string
  ts_mxbm_version :: string
  ts_recommended_w :: u32
  ts_eff_w :: u32
  ts_eff_on_rung :: bool
  ts_min_gain :: double
  ts_drift_pct :: double
  ts_rung_mhz :: u32
  ts_rung_below_w :: u32
  ts_points :: "tune_point list"
  ts_points_rung :: "tune_point list"

definition jfields :: "(string \<times> json) list \<Rightarrow> json" where
  "jfields kvs = JObject (fold (\<lambda>(k, v). jset k v) kvs [])"

definition j_unsigned :: "u32 \<Rightarrow> json" where
  "j_unsigned w = JInt (uint w)"

definition j_gain :: "xdouble \<Rightarrow> json" where
  "j_gain g = (case g of Fin d \<Rightarrow> JFloat d | _ \<Rightarrow> JNull)"

definition point_json :: "tune_point \<Rightarrow> json" where
  "point_json p = jfields [(''cap_w'', j_unsigned (tp_cap_w p)), (''draw_w'', JFloat (tp_draw_w p)),
     (''sol_s'', JFloat (tp_sol_s p)), (''median_ms'', JFloat (tp_median_ms p))]"

definition entry_json :: "xdouble \<Rightarrow> string \<Rightarrow> string \<Rightarrow> tune_result \<Rightarrow> json" where
  "entry_json gain date version r = jfields
    ([(''recommended_w'', j_unsigned (tr_recommended_w r)), (''eff_w'', j_unsigned (tr_eff_w r)),
      (''eff_on_rung'', JBool (tr_eff_on_rung r)), (''min_gain'', j_gain gain), (''date'', JString date),
      (''mxbm_version'', JString version), (''drift_pct'', JFloat (tr_drift_pct r)),
      (''points'', JArray (map point_json (tr_points r)))] @
     (if tr_rung_points r = [] then []
      else [(''rung_mhz'', j_unsigned (tr_rung_mhz r)), (''rung_below_w'', j_unsigned (tr_rung_below r)),
        (''points_rung'', JArray (map point_json (tr_rung_points r)))]))"

text \<open>
  The end of \<open>run_tune\<close>: whether it reports the result as stored, and the file after. The flags tell
  whether the directory could be made (which throws) and whether the file could be opened (which is
  not looked at).
\<close>

definition tune_save ::
    "bool \<Rightarrow> bool \<Rightarrow> json option \<Rightarrow> string \<Rightarrow> xdouble \<Rightarrow> string \<Rightarrow> string \<Rightarrow> tune_result \<Rightarrow> bool \<times> json option" where
  "tune_save dir_made opened stored key gain date version r =
    (case (case stored of None \<Rightarrow> Some [] | Some (JObject kvs) \<Rightarrow> Some kvs | Some JNull \<Rightarrow> Some [] | Some _ \<Rightarrow> None) of
       None \<Rightarrow> (False, stored)
     | Some kvs \<Rightarrow>
         if \<not> dir_made then (False, stored)
         else (True, if opened then Some (JObject (jset key (entry_json gain date version r) kvs)) else stored))"

text \<open>The readers of the library, \<open>None\<close> where they throw.\<close>

fun jdouble_of :: "json \<Rightarrow> double option" where
  "jdouble_of (JInt i) = Some (dbl (of_int i))"
| "jdouble_of (JFloat d) = Some d"
| "jdouble_of _ = None"

fun jbool_of :: "json \<Rightarrow> bool option" where
  "jbool_of (JBool b) = Some b"
| "jbool_of _ = None"

definition junsigned_of :: "json \<Rightarrow> u32 option" where
  "junsigned_of j = map_option word_of_int (jint_of j)"

definition point_of :: "json \<Rightarrow> tune_point option" where
  "point_of p =
    Option.bind (jvalue junsigned_of p ''cap_w'' 0) (\<lambda>cap.
    Option.bind (jvalue jdouble_of p ''draw_w'' 0) (\<lambda>draw.
    Option.bind (jvalue jdouble_of p ''sol_s'' 0) (\<lambda>sol.
    Option.bind (jvalue jdouble_of p ''median_ms'' 0) (\<lambda>median.
    Some \<lparr>tp_cap_w = cap, tp_draw_w = draw, tp_sol_s = sol, tp_median_ms = median\<rparr>))))"

fun points_of :: "json list \<Rightarrow> tune_point list option" where
  "points_of [] = Some []"
| "points_of (j # js) = Option.bind (point_of j) (\<lambda>p. map_option ((#) p) (points_of js))"

fun stored_series :: "json option \<Rightarrow> tune_point list option" where
  "stored_series (Some (JArray js)) = points_of js"
| "stored_series _ = Some []"

definition entry_of :: "json \<Rightarrow> tune_store option" where
  "entry_of e =
    Option.bind (jvalue jstring_of e ''date'' '''') (\<lambda>date.
    Option.bind (jvalue jstring_of e ''mxbm_version'' '''') (\<lambda>version.
    Option.bind (jvalue junsigned_of e ''recommended_w'' 0) (\<lambda>recommended.
    Option.bind (jvalue junsigned_of e ''eff_w'' 0) (\<lambda>eff.
    Option.bind (jvalue jbool_of e ''eff_on_rung'' False) (\<lambda>on_rung.
    Option.bind (jvalue jdouble_of e ''min_gain'' 0) (\<lambda>gain.
    Option.bind (jvalue jdouble_of e ''drift_pct'' 0) (\<lambda>drift.
    Option.bind (jvalue junsigned_of e ''rung_mhz'' 0) (\<lambda>rung.
    Option.bind (jvalue junsigned_of e ''rung_below_w'' 0) (\<lambda>below.
    Option.bind (stored_series (jfind e ''points'')) (\<lambda>points.
    Option.bind (stored_series (jfind e ''points_rung'')) (\<lambda>rung_points.
    Some \<lparr>ts_date = date, ts_mxbm_version = version, ts_recommended_w = recommended, ts_eff_w = eff,
      ts_eff_on_rung = on_rung, ts_min_gain = gain, ts_drift_pct = drift, ts_rung_mhz = rung,
      ts_rung_below_w = below, ts_points = points, ts_points_rung = rung_points\<rparr>)))))))))))"

text \<open>\<open>None\<close> where \<open>found\<close> stays clear.\<close>

definition tune_load :: "json option \<Rightarrow> string \<Rightarrow> tune_store option" where
  "tune_load stored key =
    (case stored of None \<Rightarrow> None | Some j \<Rightarrow> Option.bind (jfind j key) entry_of)"

text \<open>The recommended limit, and the date, which is left alone where there is none.\<close>

definition tune_stored_pl :: "json option \<Rightarrow> string \<Rightarrow> string \<Rightarrow> u32 \<times> string" where
  "tune_stored_pl stored key date =
    (case tune_load stored key of None \<Rightarrow> (0, date) | Some st \<Rightarrow> (ts_recommended_w st, ts_date st))"

definition tune_stored_rung :: "json option \<Rightarrow> string \<Rightarrow> u32 \<Rightarrow> u32 \<Rightarrow> bool \<times> u32 \<times> u32" where
  "tune_stored_rung stored key mhz below =
    (case tune_load stored key of
       None \<Rightarrow> (False, mhz, below)
     | Some st \<Rightarrow> (ts_rung_mhz st \<noteq> 0 \<and> ts_rung_below_w st \<noteq> 0, ts_rung_mhz st, ts_rung_below_w st))"

section \<open>What is stored is read back\<close>

text \<open>What the store keeps of a result.\<close>

definition stored_entry :: "double \<Rightarrow> string \<Rightarrow> string \<Rightarrow> tune_result \<Rightarrow> tune_store" where
  "stored_entry g date version r =
    (let rung = tr_rung_points r \<noteq> []
     in \<lparr>ts_date = date, ts_mxbm_version = version, ts_recommended_w = tr_recommended_w r, ts_eff_w = tr_eff_w r,
         ts_eff_on_rung = tr_eff_on_rung r, ts_min_gain = g, ts_drift_pct = tr_drift_pct r,
         ts_rung_mhz = (if rung then tr_rung_mhz r else 0), ts_rung_below_w = (if rung then tr_rung_below r else 0),
         ts_points = tr_points r, ts_points_rung = tr_rung_points r\<rparr>)"

lemma jfind_fields: "jfind (jfields kvs) k = map_of (rev kvs) k"
proof -
  have "map_of (fold (\<lambda>(k, v). jset k v) kvs acc) k = (map_of acc ++ map_of (rev kvs)) k" for acc
    by (induction kvs arbitrary: acc) (auto simp: map_of_jset map_add_def split: option.split)
  from this [of "[]"] show ?thesis by (simp add: jfields_def)
qed

lemma jvalue_find: "(\<exists>kvs. j = JObject kvs) \<Longrightarrow> jvalue get j k d = (case jfind j k of None \<Rightarrow> Some d | Some v \<Rightarrow> get v)"
  by (cases j) auto

lemma jvalue_fields: "jvalue get (jfields kvs) k d = (case map_of (rev kvs) k of None \<Rightarrow> Some d | Some v \<Rightarrow> get v)"
  using jvalue_find [of "jfields kvs" get k d] by (simp add: jfind_fields) (simp add: jfields_def)

lemma unsigned_back [simp]: "junsigned_of (j_unsigned w) = Some w"
  by (simp add: junsigned_of_def j_unsigned_def)

lemma point_back: "point_of (point_json p) = Some p"
  by (simp add: point_of_def point_json_def jvalue_fields)

lemma points_back: "points_of (map point_json ps) = Some ps"
  by (induction ps) (simp_all add: point_back)

lemma entry_back: "entry_of (entry_json (Fin g) date version r) = Some (stored_entry g date version r)"
  by (simp add: entry_of_def entry_json_def jvalue_fields jfind_fields points_back j_gain_def stored_entry_def Let_def)

lemma entry_lost: "gain = PInf \<or> gain = NInf \<or> gain = NaN \<Longrightarrow> entry_of (entry_json gain date version r) = None"
  by (auto simp: entry_of_def entry_json_def jvalue_fields j_gain_def)

lemma load_saved:
  assumes "tune_save dir_made opened stored key gain date version r = (True, stored')" "opened"
  shows "tune_load stored' k = (if k = key then entry_of (entry_json gain date version r) else tune_load stored k)"
  using assms
  by (auto simp: tune_save_def tune_load_def map_of_jset split: option.splits json.splits if_splits)

text \<open>
  C27: What the tuner stores, \<open>--pl auto\<close> and the report read back: for a minimum gain that is a finite
  number (an infinite one is lost, \<open>infinite_gain_lost\<close>), after a result is reported stored (in a file
  that could be opened), reading the card's entry gives every figure and every point of both series
  as measured, the rung's figures as zeros where the rung was not measured, and every other card's
  entry reads as before, whatever the file held.
\<close>
theorem store_roundtrip:
  assumes "tune_save dir_made True stored key (Fin g) date version r = (True, stored')"
  shows "tune_load stored' k = (if k = key then Some (stored_entry g date version r) else tune_load stored k)"
  using load_saved [OF assms TrueI] by (simp add: entry_back)

definition sample_result :: tune_result where
  "sample_result = \<lparr>tr_points = sample_points, tr_rung_points = [], tr_rung_mhz = 5001, tr_rung_below = 0,
     tr_recommended_w = 200, tr_eff_w = 160, tr_eff_on_rung = False, tr_drift_pct = 1 / 2\<rparr>"

theorem store_roundtrip_witness:
  "\<exists>f. tune_save True True (Some (JObject [(''a@1'', JObject [])])) ''b@2'' (Fin 1) ''2026-01-01 00:00'' ''3.0'' sample_result = (True, f) \<and>
    tune_load f ''b@2'' = Some (stored_entry 1 ''2026-01-01 00:00'' ''3.0'' sample_result)"
proof -
  let ?old = "Some (JObject [(''a@1'', JObject [])])"
  obtain f where f: "tune_save True True ?old ''b@2'' (Fin 1) ''2026-01-01 00:00'' ''3.0'' sample_result = (True, f)"
    by (simp add: tune_save_def)
  from store_roundtrip [OF f, of "''b@2''"] f show ?thesis by simp
qed

text \<open>
  A gain that is not a number is not read back: \<open>--tune-min-gain inf\<close> is accepted, the result is
  reported stored, and from then on the card's entry does not load at all, so neither \<open>--pl auto\<close> nor the
  report finds the sweep.
\<close>
theorem infinite_gain_lost:
  assumes "tune_save dir_made True stored key PInf date version r = (True, stored')"
  shows "tune_load stored' key = None"
  using load_saved [OF assms TrueI] by (simp add: entry_lost)

theorem infinite_gain_lost_witness:
  "\<exists>f. tune_save True True None ''b@2'' PInf ''2026-01-01 00:00'' ''3.0'' sample_result = (True, f) \<and> tune_load f ''b@2'' = None"
proof -
  obtain f where f: "tune_save True True None ''b@2'' PInf ''2026-01-01 00:00'' ''3.0'' sample_result = (True, f)"
    by (simp add: tune_save_def)
  from infinite_gain_lost [OF f] f show ?thesis by simp
qed

text \<open>A file that cannot be opened is reported as stored all the same.\<close>

lemma unwritten_reported: "tune_save True False None key gain date version r = (True, None)"
  by (simp add: tune_save_def)

end
