(* ===== verification/Launch.thy ===== *)
theory Launch
  imports Config Tune Geometry Rig Guards
begin

text \<open>
  From the command line to the running rig (src/main.cpp): the refusals before the hardware is looked
  at, the choice of the cards and of what drives each, the overclock settings with the stored tune,
  the measuring modes' set-up, and the pause key. The drivers are functions of the card's position.
  Shown: what every start that gets past the refusals satisfies, that an engine, its label and its
  sensors belong to the same card, and that a stored cap lands on the card it was tuned for.
\<close>

section \<open>Before the hardware\<close>

text \<open>An exit: its code, what goes to stdout and what goes to stderr.\<close>

type_synonym leave = "int \<times> string \<times> string"

definition newline :: string where
  "newline = [CHR 0x0A]"

text \<open>The options, or the exit; \<open>version\<close> is the string the build compiles in.\<close>

definition start_args :: "string \<Rightarrow> string list \<Rightarrow> leave + options" where
  "start_args version args =
    (case parse_args args of
       Inl (err, x) \<Rightarrow>
         if o_version_requested x then Inl (0, ''MXBM '' @ version @ newline, '''')
         else if o_help_requested x then Inl (0, err, '''')
         else Inl (1, '''', err)
     | Inr x \<Rightarrow> Inr x)"

definition algo_list :: "double \<Rightarrow> string" where
  "algo_list fee_pct = ''Supported algorithms:'' @ newline @ newline @ ''Parameter   Algorithm      Fee %'' @ newline @
     ''BEAM-III    BeamHash III   '' @ fixed 1 fee_pct @ newline"

definition coin_list :: "double \<Rightarrow> string" where
  "coin_list fee_pct = ''Supported coins:'' @ newline @ newline @ ''Parameter   Coin   Algorithm      Fee %'' @ newline @
     ''BEAM        Beam   BeamHash III   '' @ fixed 1 fee_pct @ newline"

definition list_exit :: "options \<Rightarrow> leave option" where
  "list_exit x =
    (if o_list_algos x \<or> o_list_coins x then
       let fee_pct = dmul (sc_rate devfee_schedule) 100
       in Some (0, (if o_list_algos x then algo_list fee_pct else '''') @
                   (if o_list_coins x then (if o_list_algos x then newline else '''') @ coin_list fee_pct else ''''), '''')
     else None)"

definition benchmark_mode :: "options \<Rightarrow> bool" where
  "benchmark_mode x = (o_benchmark x \<noteq> '''')"

definition measure_mode :: "options \<Rightarrow> bool" where
  "measure_mode x = (benchmark_mode x \<or> o_tune x \<or> o_report x)"

text \<open>The refusals that need every source of options, in the order they are tested.\<close>

definition refusal :: "options \<Rightarrow> string option" where
  "refusal x =
    (if (o_tstop x \<noteq> 0 \<or> o_tstart x \<noteq> 0) \<and> o_tmode x \<noteq> ''edge'' then
       Some (''--tmode '' @ o_tmode x @ '' is not available on this card: the driver reports no '' @ o_tmode x @
         '' sensor. Use --tmode edge.'')
     else if o_report x \<and> (benchmark_mode x \<or> o_tune x) then
       Some ''--report already runs both; drop --benchmark/--tune''
     else if o_report x \<and> (seen_tune_caps (o_seen x) \<or> seen_tune_seconds (o_seen x)) then
       Some (''--tune-caps and --tune-seconds configure --tune; --report always sweeps at the defaults. '' @
         ''Run --tune directly to choose a grid'')
     else if o_report x \<and> o_power_limit x \<noteq> '''' then
       Some ''--report measures the power curve itself; drop --pl (other OC flags may stay)''
     else if o_tune x \<and> o_power_limit x \<noteq> '''' then
       Some ''--tune sets the power limit itself; drop --pl (other OC flags may stay)''
     else if o_tune x \<and> benchmark_mode x then Some ''--tune and --benchmark are both modes; pick one''
     else if \<not> seen_algo (o_seen x) \<and> \<not> measure_mode x \<and> \<not> o_list_devices x then
       Some ''unsupported algo (pass --algo BEAM-III, or set ALGO in your config)''
     else if o_pools x = [] \<and> \<not> measure_mode x \<and> \<not> o_list_devices x then
       Some ''missing --pool (or config with POOLS)''
     else None)"

definition startup ::
    "string \<Rightarrow> (string \<Rightarrow> json option) \<Rightarrow> (string \<Rightarrow> string option) \<Rightarrow> string list \<Rightarrow> leave + options" where
  "startup version read_json files args =
    and_then (start_args version args) (\<lambda>x.
     case list_exit x of
       Some l \<Rightarrow> Inl l
     | None \<Rightarrow>
         (case merge_config read_json files x of
            Inl (err, y) \<Rightarrow> Inl (1, '''', err @ newline)
          | Inr y \<Rightarrow> (case refusal y of Some err \<Rightarrow> Inl (1, '''', err @ newline) | None \<Rightarrow> Inr y)))"

text \<open>\<open>--keepfree\<close>, set before anything is sized.\<close>

definition startup_keepfree :: "options \<Rightarrow> keepfree \<Rightarrow> keepfree" where
  "startup_keepfree x k =
    (if o_keepfree_mb x \<ge> 0 then set_keepfree_bytes (word_of_int (o_keepfree_mb x) * 1024 * 1024) k else k)"

section \<open>What gets past the refusals\<close>

text \<open>The settings both the command line and the files check.\<close>

definition in_range :: "options \<Rightarrow> bool" where
  "in_range x =
    (o_apiport x \<in> {0..65535} \<and> o_shortstats x \<in> {1..int_max} \<and> o_longstats x \<in> {1..int_max} \<and>
     o_digits x \<in> {0..6} \<and> o_silence x \<in> {0..3} \<and> o_keepfree_mb x \<in> {-1..1048576} \<and>
     o_tstop x \<in> {0..150} \<and> o_tstart x \<in> {0..150} \<and>
     o_tmode x \<in> {''edge'', ''junction'', ''memory''} \<and>
     o_solver x \<in> {''gpu'', ''cuda'', ''metal'', ''opencl'', ''ref'', ''auto''} \<and>
     (o_devfee_pct x = -1 \<or> o_devfee_pct x \<in> {0..100}))"

lemma in_range_values: "values_ok x \<Longrightarrow> in_range x"
  unfolding values_ok_def in_range_def by blast

lemmas bound_defs = kApiPortMin_def kApiPortMax_def kStatsIntervalMin_def kDigitsMin_def kDigitsMax_def kSilenceMin_def
  kSilenceMax_def kKeepFreeMbMin_def kKeepFreeMbMax_def kTempCMin_def kTempCMax_def kDevFeePctMin_def kDevFeePctMax_def
  kTmodeDomain_def kSolverDomain_def kBenchmarkDomain_def

lemma in_range_int: "list_all (\<lambda>r. \<forall>v. int_ok r v \<longrightarrow> in_range y \<longrightarrow> in_range (row_put r v y)) kIntOpts"
  unfolding table_defs in_range_def row_defs by (simp add: int_ok_def bound_defs)

lemma in_range_bool: "list_all (\<lambda>r. \<forall>v. in_range y \<longrightarrow> in_range (row_put r v y)) kBoolOpts"
  unfolding table_defs in_range_def row_defs by simp

lemma in_range_dbl: "list_all (\<lambda>r. \<forall>v. dbl_ok r v \<longrightarrow> in_range y \<longrightarrow> in_range (row_put r v y)) kDblOpts"
  unfolding table_defs in_range_def row_defs by (simp add: dbl_ok_def bound_defs)

lemma in_range_str: "list_all (\<lambda>r. \<forall>v. str_ok r v \<longrightarrow> in_range y \<longrightarrow> in_range (row_put r v y)) kStrOpts"
  unfolding table_defs in_range_def row_defs by (simp add: str_ok_def bound_defs)

text \<open>A pool one can log in to.\<close>

definition login_ok :: "options \<Rightarrow> bool" where
  "login_ok x = list_all (\<lambda>e. pe_port e \<noteq> 0 \<and> pe_user e \<noteq> '''') (o_pools x)"

lemma login_rows:
  "list_all (\<lambda>r. \<forall>v. o_pools (row_put r v y) = o_pools y) kIntOpts"
  "list_all (\<lambda>r. \<forall>v. o_pools (row_put r v y) = o_pools y) kBoolOpts"
  "list_all (\<lambda>r. \<forall>v. o_pools (row_put r v y) = o_pools y) kDblOpts"
  "list_all (\<lambda>r. \<forall>v. o_pools (row_put r v y) = o_pools y) kStrOpts"
  unfolding table_defs row_defs by simp_all

definition sound :: "options \<Rightarrow> bool" where
  "sound x = (in_range x \<and> login_ok x)"

lemma sound_rows:
  assumes "sound y"
  shows "ri \<in> set kIntOpts \<Longrightarrow> int_ok ri i \<Longrightarrow> sound (row_put ri i y)"
    and "rb \<in> set kBoolOpts \<Longrightarrow> sound (row_put rb b y)"
    and "rd \<in> set kDblOpts \<Longrightarrow> dbl_ok rd d \<Longrightarrow> sound (row_put rd d y)"
    and "rs \<in> set kStrOpts \<Longrightarrow> str_ok rs s \<Longrightarrow> sound (row_put rs s y)"
  using assms in_range_int [of y] in_range_bool [of y] in_range_dbl [of y] in_range_str [of y] login_rows [of y]
  by (simp_all add: list_all_iff sound_def login_ok_def)

lemma sound_saw: "sound (saw f y) = sound y"
  by (simp add: sound_def in_range_def login_ok_def saw_def)

lemma sound_pools: "sound y \<Longrightarrow> list_all pool_ok ps \<Longrightarrow> qs = ps \<or> qs = o_pools y @ ps \<Longrightarrow> sound (y\<lparr>o_pools := qs\<rparr>)"
  by (auto simp: sound_def in_range_def login_ok_def list_all_iff pool_ok_def)

lemma merges_sound: "merges x y \<Longrightarrow> sound x \<Longrightarrow> sound y"
  by (induction rule: merges.induct) (simp_all add: sound_rows sound_saw sound_pools)

lemma merge_config_sound:
  assumes "merge_config read_json files x = Inr y" "sound x"
  shows "sound y"
proof -
  from assms(1) obtain z where z: "merges x z" "y = resolve_implied_options z"
    by (auto simp: merge_config_def and_then_def intro: merges.same json_merges flat_merges split: sum.splits if_splits)
  from merges_sound [OF z(1) assms(2)] show ?thesis
    by (simp add: z(2) resolve_implied_options_def Let_def sound_saw) (simp add: sound_def in_range_def login_ok_def)
qed

text \<open>What a mode may not be combined with.\<close>

definition modes_apart :: "options \<Rightarrow> bool" where
  "modes_apart x =
    (\<not> (o_report x \<and> (o_tune x \<or> benchmark_mode x)) \<and> \<not> (o_tune x \<and> benchmark_mode x) \<and>
     (o_tune x \<or> o_report x \<longrightarrow> o_power_limit x = ''''))"

lemma refusal_none:
  assumes "refusal x = None"
  shows "modes_apart x" "measure_mode x \<or> o_list_devices x \<or> seen_algo (o_seen x) \<and> o_pools x \<noteq> []"
    "o_tstop x = 0 \<and> o_tstart x = 0 \<or> o_tmode x = ''edge''"
  using assms by (auto simp: refusal_def modes_apart_def split: if_splits)

text \<open>
  Whatever the command line and the config file say, a start that is not refused has settings in
  range, pools that all have a port and a login, at least one of them unless it only measures or
  lists, at most one measuring mode, no fixed power limit under a sweep, and no temperature limit on a
  sensor that cannot be read.
\<close>
theorem started_options_sound:
  assumes "startup version read_json files args = Inr x"
  shows "in_range x \<and> login_ok x \<and> modes_apart x \<and>
    (measure_mode x \<or> o_list_devices x \<or> seen_algo (o_seen x) \<and> o_pools x \<noteq> []) \<and>
    (o_tstop x = 0 \<and> o_tstart x = 0 \<or> o_tmode x = ''edge'')"
proof -
  from assms obtain y where y: "parse_args args = Inr y" "merge_config read_json files y = Inr x" "refusal x = None"
    by (auto simp: startup_def start_args_def and_then_def split: sum.splits option.splits if_splits)
  from y(1) have "options_ok y" by (rule parse_args_ok)
  then have "sound y" by (simp add: options_ok_def sound_def in_range_values login_ok_def)
  from merge_config_sound [OF y(2) this] refusal_none [OF y(3)] show ?thesis by (simp add: sound_def)
qed

theorem started_options_sound_witness:
  "case startup ''3'' (\<lambda>_. None) (\<lambda>_. None) [''-a'', ''BEAM-III'', ''-p'', ''eu.pool:3333'', ''-u'', ''abc'', ''--tstop'', ''85''] of
     Inr x \<Rightarrow> in_range x \<and> o_pools x \<noteq> [] \<and> o_tmode x = ''edge'' | Inl _ \<Rightarrow> False"
proof -
  let ?s = "startup ''3'' (\<lambda>_. None) (\<lambda>_. None) [''-a'', ''BEAM-III'', ''-p'', ''eu.pool:3333'', ''-u'', ''abc'', ''--tstop'', ''85'']"
  have "case ?s of Inr x \<Rightarrow> o_pools x \<noteq> [] \<and> o_tmode x = ''edge'' | Inl _ \<Rightarrow> False" by code_simp
  then show ?thesis using started_options_sound by (auto split: sum.splits)
qed

section \<open>The cards\<close>

text \<open>The backends of the build.\<close>

record build =
  bd_cuda :: bool
  bd_opencl :: bool
  bd_metal :: bool
  bd_oracle :: bool

record metal_card =
  mc_name :: string
  mc_global_mem :: u64
  mc_compute_units :: u32
  mc_viable :: bool

text \<open>What the drivers report; \<open>hw_nvml\<close> is \<open>None\<close> where NVML cannot be opened.\<close>

record hardware =
  hw_cuda :: "cuda_card list"
  hw_cl :: "cl_card list"
  hw_metal :: "metal_card list"
  hw_metal_available :: "nat \<Rightarrow> bool"
  hw_nvml :: "nvml_card list option"

definition metal_cards :: "build \<Rightarrow> hardware \<Rightarrow> metal_card list" where
  "metal_cards bd hw = (if \<not> bd_metal bd \<or> bd_cuda bd \<and> hw_cuda hw \<noteq> [] then [] else hw_metal hw)"

definition table_of :: "build \<Rightarrow> hardware \<Rightarrow> string \<Rightarrow> joined_card list" where
  "table_of bd hw solver =
    (if metal_cards bd hw \<noteq> [] \<or> \<not> bd_cuda bd \<and> \<not> bd_opencl bd then []
     else join_devices (if bd_cuda bd then hw_cuda hw else []) (if bd_opencl bd then hw_cl hw else [])
       (the_default [] (hw_nvml hw)) solver)"

definition device_count :: "build \<Rightarrow> hardware \<Rightarrow> string \<Rightarrow> nat" where
  "device_count bd hw solver =
    (let n = length (table_of bd hw solver) in if bd_metal bd \<and> n = 0 then length (metal_cards bd hw) else n)"

definition mebibytes :: "u64 \<Rightarrow> string" where
  "mebibytes b = dec (unat (b div (1024 * 1024)))"

definition card_lines :: "nat \<Rightarrow> joined_card \<Rightarrow> string list" where
  "card_lines i c =
    snprintf 256 (''  '' @ dec i @ '': '' @ pad_right (jc_name c) 34 @ '' '' @ pad_left (mebibytes (jc_global_mem c)) 5 @
      '' MB  PCI '' @ pad_right (if jc_pci c = '''' then ''-'' else jc_pci c) 6 @ ''  '' @
      (case jc_backend c of Cuda \<Rightarrow> ''Cuda'' | OpenCL \<Rightarrow> ''OpenCL'' | NoBackend \<Rightarrow> ''not used'')) #
    (if jc_reason c = '''' then [] else [''       '' @ jc_reason c])"

definition metal_line :: "nat \<Rightarrow> metal_card \<Rightarrow> string" where
  "metal_line i d =
    snprintf 256 (''  '' @ dec i @ '': '' @ pad_right (mc_name d) 34 @ '' '' @ pad_left (mebibytes (mc_global_mem d)) 5 @
      '' MB  '' @ pad_left (dec (unat (mc_compute_units d))) 2 @ '' cores  Metal'' @
      (if mc_viable d then '''' else ''  [too small for BeamHash III]''))"

text \<open>\<open>--list-devices\<close>.\<close>

definition device_listing :: "build \<Rightarrow> hardware \<Rightarrow> string \<Rightarrow> string list" where
  "device_listing bd hw solver =
    (let cards = table_of bd hw solver; metals = metal_cards bd hw
     in (if cards = [] then []
         else (''Detected devices (indices are in PCI order, and mean the same card in --devices and --pl):'' #
               concat (map (\<lambda>(i, c). card_lines i c) (enumerate 0 cards)))) @
        (if metals = [] then [] else ''Detected devices:'' # map (\<lambda>(i, d). metal_line i d) (enumerate 0 metals)) @
        (if device_count bd hw solver = 0
         then [''No GPU devices detected by any backend built into this binary.''] else []))"

definition select_devices :: "options \<Rightarrow> build \<Rightarrow> hardware \<Rightarrow> string + nat list" where
  "select_devices x bd hw =
    (let cards = table_of bd hw (o_solver x); n = device_count bd hw (o_solver x);
         refs = map (\<lambda>c. \<lparr>dr_pci = jc_pci c, dr_vendor = jc_vendor c\<rparr>) cards
     in case (if length refs = n then resolve_devices (o_devices x) refs (o_devices_by_pcie x)
              else resolve_device_count (o_devices x) n) of
          Inl derr \<Rightarrow> Inl (''--devices '' @ [CHR 0x22] @ o_devices x @ [CHR 0x22] @ '': '' @ derr @ '' (try --list-devices)'')
        | Inr sel \<Rightarrow> Inr sel)"

definition device_index :: "nat list \<Rightarrow> nat" where
  "device_index sel = (case sel of [] \<Rightarrow> 0 | d # _ \<Rightarrow> d)"

text \<open>What will drive the first card, known before anything is built.\<close>

definition primary :: "joined_card list \<Rightarrow> nat list \<Rightarrow> joined_card option" where
  "primary cards sel = (if device_index sel < length cards then Some (cards ! device_index sel) else None)"

definition wants_metal :: "options \<Rightarrow> bool" where
  "wants_metal x = (o_solver x \<in> {''metal'', ''gpu'', ''auto''})"

definition cuda_will_run :: "build \<Rightarrow> joined_card list \<Rightarrow> nat list \<Rightarrow> bool" where
  "cuda_will_run bd cards sel =
    (bd_cuda bd \<and> (case primary cards sel of None \<Rightarrow> False | Some c \<Rightarrow> jc_backend c = Cuda))"

definition metal_will_run :: "options \<Rightarrow> build \<Rightarrow> hardware \<Rightarrow> joined_card list \<Rightarrow> nat list \<Rightarrow> bool" where
  "metal_will_run x bd hw cards sel =
    (bd_metal bd \<and> \<not> cuda_will_run bd cards sel \<and> cards = [] \<and> wants_metal x \<and> hw_metal_available hw (device_index sel))"

definition opencl_will_run :: "options \<Rightarrow> build \<Rightarrow> hardware \<Rightarrow> joined_card list \<Rightarrow> nat list \<Rightarrow> bool" where
  "opencl_will_run x bd hw cards sel =
    (bd_opencl bd \<and> \<not> metal_will_run x bd hw cards sel \<and>
     (case primary cards sel of None \<Rightarrow> False
      | Some c \<Rightarrow> jc_cl_index c \<ge> 0 \<and> (jc_backend c = OpenCL \<or> jc_backend c = Cuda)))"

definition gpu_will_run :: "options \<Rightarrow> build \<Rightarrow> hardware \<Rightarrow> joined_card list \<Rightarrow> nat list \<Rightarrow> bool" where
  "gpu_will_run x bd hw cards sel =
    (cuda_will_run bd cards sel \<or> metal_will_run x bd hw cards sel \<or> opencl_will_run x bd hw cards sel)"

definition have_nvml :: "options \<Rightarrow> build \<Rightarrow> hardware \<Rightarrow> joined_card list \<Rightarrow> nat list \<Rightarrow> bool" where
  "have_nvml x bd hw cards sel = (gpu_will_run x bd hw cards sel \<and> hw_nvml hw \<noteq> None)"

section \<open>The solvers\<close>

text \<open>
  The constructors: what a card's constructor makes of its index (and, for CUDA, of the power limit
  and the memory clock observed on the card): why it threw, or the device's name and memory.
\<close>

record builders =
  bl_cuda :: "nat \<Rightarrow> int \<Rightarrow> u32 \<Rightarrow> u32 \<Rightarrow> string + string \<times> u64"
  bl_cl :: "nat \<Rightarrow> u32 \<Rightarrow> string + string \<times> u64"
  bl_metal :: "nat \<Rightarrow> string + string \<times> u64"
  bl_limit :: "nat \<Rightarrow> u32 option"
  bl_mem_clock :: "nat \<Rightarrow> u32 option"

record built =
  bu_name :: string
  bu_mem :: u64
  bu_driver :: string

text \<open>One card's solver, what is reported as an error, and whether an attempt failed.\<close>

definition try_cuda :: "build \<Rightarrow> bool \<Rightarrow> builders \<Rightarrow> nat \<Rightarrow> joined_card \<Rightarrow> string + built" where
  "try_cuda bd nvml bl pos c =
    (if bd_cuda bd \<and> jc_backend c = Cuda then
       (case bl_cuda bl pos (jc_cuda_index c) (if nvml then the_default 0 (bl_limit bl pos) else 0)
               (if nvml then the_default 0 (bl_mem_clock bl pos) else 0) of
          Inl why \<Rightarrow> Inl why
        | Inr (name, mem) \<Rightarrow> Inr \<lparr>bu_name = name, bu_mem = mem, bu_driver = ''Cuda''\<rparr>)
     else Inl '''')"

definition may_try_cl :: "options \<Rightarrow> build \<Rightarrow> joined_card \<Rightarrow> bool" where
  "may_try_cl x bd c = (bd_opencl bd \<and> jc_cl_index c \<ge> 0 \<and> o_solver x \<noteq> ''cuda'')"

definition try_cl :: "builders \<Rightarrow> nat \<Rightarrow> joined_card \<Rightarrow> string + built" where
  "try_cl bl pos c =
    (case bl_cl bl pos (word_of_int (jc_cl_index c)) of
       Inl why \<Rightarrow> Inl why
     | Inr (name, mem) \<Rightarrow> Inr \<lparr>bu_name = name, bu_mem = mem, bu_driver = ''OpenCL''\<rparr>)"

definition make_solver ::
    "options \<Rightarrow> build \<Rightarrow> bool \<Rightarrow> builders \<Rightarrow> joined_card list \<Rightarrow> nat \<Rightarrow> built option \<times> string list \<times> bool" where
  "make_solver x bd nvml bl cards pos =
    (if pos \<ge> length cards then (None, [], False)
     else let c = cards ! pos; tag = ''Device '' @ dec pos @ '' ('' @ jc_name c @ '')'' in
     if jc_backend c = NoBackend then
       (None, if jc_reason c = '''' then [] else [tag @ '': '' @ jc_reason c @ ''. Continuing without it.''], False)
     else
       let warn = (if jc_degraded c \<and> jc_reason c \<noteq> '''' then [tag @ '': '' @ jc_reason c] else []);
           lost = (\<lambda>why. tag @ '': could not be initialised ('' @ why @ '') - continuing without it'')
       in case try_cuda bd nvml bl pos c of
            Inr b \<Rightarrow> (Some b, warn, False)
          | Inl why \<Rightarrow>
              if \<not> may_try_cl x bd c then (None, warn @ [lost why], True)
              else
                let warn = warn @ (if why = '''' then [] else [tag @ '': CUDA initialization failed ('' @ why @
                      '') - trying the OpenCL path on the same card''])
                in case try_cl bl pos c of
                     Inr b \<Rightarrow> (Some b, warn, False)
                   | Inl why \<Rightarrow> (None, warn @ [lost why], True))"

text \<open>The solvers of the run: the first, and the rest with their labels; the cards they are on.\<close>

record launch =
  la_solver :: "built option"
  la_extra :: "built list"
  la_extra_labels :: "string list"
  la_positions :: "nat list"
  la_failed :: bool
  la_worker_label :: string
  la_name :: string
  la_mem :: u64
  la_driver :: string
  la_errors :: "string list"

definition launch0 :: launch where
  "launch0 = \<lparr>la_solver = None, la_extra = [], la_extra_labels = [], la_positions = [], la_failed = False,
     la_worker_label = ''GPU 0'', la_name = '''', la_mem = 0, la_driver = '''', la_errors = []\<rparr>"

definition adopt :: "built \<Rightarrow> launch \<Rightarrow> launch" where
  "adopt b l = l\<lparr>la_worker_label := bu_name b, la_name := bu_name b, la_mem := bu_mem b, la_driver := bu_driver b,
     la_solver := Some b\<rparr>"

definition add_card :: "options \<Rightarrow> build \<Rightarrow> bool \<Rightarrow> builders \<Rightarrow> joined_card list \<Rightarrow> nat \<Rightarrow> launch \<Rightarrow> launch" where
  "add_card x bd nvml bl cards pos l =
    (case make_solver x bd nvml bl cards pos of (b, errs, failed) \<Rightarrow>
     let l = l\<lparr>la_errors := la_errors l @ errs, la_failed := la_failed l \<or> failed\<rparr>
     in case b of
          None \<Rightarrow> l
        | Some b \<Rightarrow>
            let l = (if la_solver l = None then adopt b l
                     else l\<lparr>la_extra_labels := la_extra_labels l @ [bu_name b], la_extra := la_extra l @ [b]\<rparr>)
            in l\<lparr>la_positions := la_positions l @ [pos]\<rparr>)"

definition add_metal :: "options \<Rightarrow> build \<Rightarrow> hardware \<Rightarrow> builders \<Rightarrow> joined_card list \<Rightarrow> nat list \<Rightarrow> launch \<Rightarrow> launch" where
  "add_metal x bd hw bl cards sel l =
    (if bd_metal bd \<and> la_solver l = None \<and> cards = [] \<and> wants_metal x \<and> hw_metal_available hw (device_index sel) then
       (case bl_metal bl (device_index sel) of
          Inr (name, mem) \<Rightarrow> adopt \<lparr>bu_name = name, bu_mem = mem, bu_driver = ''Metal''\<rparr> l
        | Inl why \<Rightarrow> l\<lparr>la_errors := la_errors l @ [''Metal solver initialization failed: '' @ why], la_failed := True\<rparr>)
     else l)"

definition add_ref :: "options \<Rightarrow> build \<Rightarrow> launch \<Rightarrow> launch" where
  "add_ref x bd l =
    (if bd_oracle bd \<and> la_solver l = None \<and> (o_solver x = ''ref'' \<or> o_solver x = ''auto'') then
       l\<lparr>la_solver := Some \<lparr>bu_name = '''', bu_mem = 0, bu_driver = ''''\<rparr>, la_worker_label := ''CPU 0 reference''\<rparr>
     else l)"

text \<open>A measuring mode builds the first selected card only.\<close>

definition build_solvers :: "options \<Rightarrow> build \<Rightarrow> hardware \<Rightarrow> builders \<Rightarrow> joined_card list \<Rightarrow> nat list \<Rightarrow> launch" where
  "build_solvers x bd hw bl cards sel =
    (let nvml = have_nvml x bd hw cards sel;
         todo = (if \<not> bd_cuda bd \<and> \<not> bd_opencl bd then [] else if measure_mode x then take 1 sel else sel)
     in add_ref x bd (add_metal x bd hw bl cards sel (fold (add_card x bd nvml bl cards) todo launch0)))"

text \<open>The lines about a run without a solver: whether it is an error, and the text.\<close>

definition no_solver_line :: "options \<Rightarrow> launch \<Rightarrow> (bool \<times> string) option" where
  "no_solver_line x l =
    (if la_solver l \<noteq> None then None
     else if la_failed l then Some (False, ''Falling back to monitoring jobs only (no solving)'')
     else if o_solver x = ''gpu'' then
       Some (True, ''--solver gpu requested but no usable GPU backend is available (no CUDA or OpenCL device, '' @
         ''or built without either) - monitoring jobs only (no solving)'')
     else if o_solver x = ''cuda'' then
       Some (True, ''--solver cuda requested but no usable CUDA device is available (needs compute capability 7.5 '' @
         ''or newer with room for the full 2^25 seed layer, or this build has no CUDA support) - '' @
         ''monitoring jobs only (no solving)'')
     else if o_solver x = ''metal'' then
       Some (True, ''--solver metal requested but no usable Metal device is available '' @
         ''(or this build has no Metal backend) - monitoring jobs only (no solving)'')
     else if o_solver x = ''opencl'' then
       Some (True, ''--solver opencl requested but no OpenCL device is available '' @
         ''(or built without OpenCL support) - monitoring jobs only (no solving)'')
     else if o_solver x = ''ref'' then
       Some (True, ''--solver ref requested but this build has no Beam reference oracle - '' @
         ''monitoring jobs only (no solving)'')
     else Some (False, ''No solver backend available (no CUDA or OpenCL device, and no Beam oracle build) - '' @
       ''monitoring jobs only (no solving)''))"

section \<open>The engines\<close>

text \<open>One engine per solver: its solver, its lane among the lanes, and its label in the statistics.\<close>

definition engine_solvers :: "launch \<Rightarrow> built list" where
  "engine_solvers l = (case la_solver l of None \<Rightarrow> [] | Some b \<Rightarrow> b # la_extra l)"

definition engine_lanes :: "launch \<Rightarrow> (u64 \<times> u64) list" where
  "engine_lanes l =
    (let lanes = 1 + word_of_nat (length (la_extra l))
     in case la_solver l of None \<Rightarrow> []
        | Some _ \<Rightarrow> (0, lanes) # map (\<lambda>k. (word_of_nat k + 1, lanes)) [0..<length (la_extra l)])"

definition engine_labels :: "launch \<Rightarrow> string list" where
  "engine_labels l = la_worker_label l # la_extra_labels l"

text \<open>The card a row of the telemetry samples, and the card whose temperature pauses an engine.\<close>

definition telemetry_card :: "launch \<Rightarrow> nat \<Rightarrow> nat" where
  "telemetry_card l row =
    (let ix = (if la_positions l = [] then [0] else la_positions l)
     in if row < length ix then ix ! row else row)"

definition thermal_card :: "launch \<Rightarrow> nat \<Rightarrow> nat option" where
  "thermal_card l k = (if k \<ge> length (la_positions l) then None else Some (la_positions l ! k))"

section \<open>An engine, its label and its sensors\<close>

text \<open>The launch while the cards are gone through: everything is determined by the positions.\<close>

definition in_step :: "(nat \<Rightarrow> built option) \<Rightarrow> launch \<Rightarrow> bool" where
  "in_step mk l =
    (engine_solvers l = map (\<lambda>p. the (mk p)) (la_positions l) \<and> list_all (\<lambda>p. mk p \<noteq> None) (la_positions l) \<and>
     (la_solver l = None \<longrightarrow> la_extra l = [] \<and> la_extra_labels l = []) \<and>
     (la_positions l \<noteq> [] \<longrightarrow> engine_labels l = map (\<lambda>p. bu_name (the (mk p))) (la_positions l)))"

lemma add_card_in_step:
  assumes "in_step (\<lambda>p. fst (make_solver x bd nvml bl cards p)) l"
  shows "in_step (\<lambda>p. fst (make_solver x bd nvml bl cards p)) (add_card x bd nvml bl cards pos l)"
    and "la_positions (add_card x bd nvml bl cards pos l) =
      la_positions l @ (if fst (make_solver x bd nvml bl cards pos) = None then [] else [pos])"
proof -
  obtain b errs failed where m: "make_solver x bd nvml bl cards pos = (b, errs, failed)" by (metis prod.exhaust)
  show "la_positions (add_card x bd nvml bl cards pos l) =
      la_positions l @ (if fst (make_solver x bd nvml bl cards pos) = None then [] else [pos])"
    by (cases b) (simp_all add: add_card_def m adopt_def Let_def)
  show "in_step (\<lambda>p. fst (make_solver x bd nvml bl cards p)) (add_card x bd nvml bl cards pos l)"
  proof (cases b)
    case None
    with assms show ?thesis
      by (cases "la_solver l") (simp_all add: add_card_def m in_step_def engine_solvers_def engine_labels_def Let_def)
  next
    case (Some c)
    show ?thesis
    proof (cases "la_solver l")
      case None
      with assms have "la_positions l = []" by (simp add: in_step_def engine_solvers_def)
      with None Some assms show ?thesis
        by (simp add: add_card_def m in_step_def engine_solvers_def engine_labels_def adopt_def Let_def)
    next
      case (Some s)
      with assms have "la_positions l \<noteq> []" by (auto simp: in_step_def engine_solvers_def)
      with Some \<open>b = Some c\<close> assms show ?thesis
        by (simp add: add_card_def m in_step_def engine_solvers_def engine_labels_def Let_def)
    qed
  qed
qed

lemma add_cards_in_step:
  assumes "in_step (\<lambda>p. fst (make_solver x bd nvml bl cards p)) l"
  shows "in_step (\<lambda>p. fst (make_solver x bd nvml bl cards p)) (fold (add_card x bd nvml bl cards) sel l) \<and>
    la_positions (fold (add_card x bd nvml bl cards) sel l) =
      la_positions l @ filter (\<lambda>p. fst (make_solver x bd nvml bl cards p) \<noteq> None) sel"
  using assms by (induction sel arbitrary: l) (simp_all add: add_card_in_step)

lemma backless_frame:
  "la_positions (add_ref x bd l) = la_positions l" "la_positions (add_metal x bd hw bl cards sel l) = la_positions l"
  by (simp_all add: add_ref_def add_metal_def adopt_def split: sum.split)

lemma built_frame:
  assumes "la_solver l \<noteq> None"
  shows "add_ref x bd (add_metal x bd hw bl cards sel l) = l"
  using assms by (auto simp: add_ref_def add_metal_def)

lemma built_in_step:
  assumes "l = build_solvers x bd hw bl cards sel" "la_positions l \<noteq> []" "nvml = have_nvml x bd hw cards sel"
  shows "in_step (\<lambda>p. fst (make_solver x bd nvml bl cards p)) l"
    and "la_positions l = filter (\<lambda>p. fst (make_solver x bd nvml bl cards p) \<noteq> None) (if measure_mode x then take 1 sel else sel)"
proof -
  let ?todo = "if \<not> bd_cuda bd \<and> \<not> bd_opencl bd then [] else if measure_mode x then take 1 sel else sel"
  let ?g = "fold (add_card x bd nvml bl cards) ?todo launch0"
  let ?mk = "\<lambda>p. fst (make_solver x bd nvml bl cards p)"
  have "in_step ?mk launch0" by (simp add: in_step_def engine_solvers_def launch0_def)
  note g = add_cards_in_step [OF this, of ?todo]
  have l: "l = add_ref x bd (add_metal x bd hw bl cards sel ?g)"
    by (simp add: assms(1,3) build_solvers_def Let_def)
  then have pos: "la_positions l = la_positions ?g" by (simp add: backless_frame)
  have "la_solver ?g \<noteq> None"
  proof
    assume "la_solver ?g = None"
    with g have "la_positions ?g = []" by (simp add: in_step_def engine_solvers_def)
    with pos assms(2) show False by simp
  qed
  with l have lg: "l = ?g" by (simp add: built_frame)
  with g show "in_step ?mk l" by simp
  from lg g have ps: "la_positions l = filter (\<lambda>p. ?mk p \<noteq> None) ?todo" by (simp add: launch0_def)
  with assms(2) have "?todo = (if measure_mode x then take 1 sel else sel)" by (auto split: if_splits)
  with ps show "la_positions l = filter (\<lambda>p. ?mk p \<noteq> None) (if measure_mode x then take 1 sel else sel)" by simp
qed

text \<open>
  C35: An engine, its label in the statistics and its sensors belong to one card: the engines run, in the
  order of the selection, exactly the selected cards whose solver could be built (only the first where
  the run measures), and engine \<open>k\<close>, the label of row \<open>k\<close>, the card row \<open>k\<close> samples and the
  card whose temperature pauses engine \<open>k\<close> are all those of the \<open>k\<close>-th of these cards, however many
  cards before it were skipped.
\<close>
theorem rows_follow_cards:
  assumes "l = build_solvers x bd hw bl cards sel" "la_positions l \<noteq> []" "k < length (engine_solvers l)"
    "nvml = have_nvml x bd hw cards sel" "todo = (if measure_mode x then take 1 sel else sel)"
  shows "la_positions l = filter (\<lambda>p. fst (make_solver x bd nvml bl cards p) \<noteq> None) todo \<and>
    length (engine_solvers l) = length (la_positions l) \<and>
    fst (make_solver x bd nvml bl cards (la_positions l ! k)) = Some (engine_solvers l ! k) \<and>
    engine_labels l ! k = bu_name (engine_solvers l ! k) \<and>
    telemetry_card l k = la_positions l ! k \<and> thermal_card l k = Some (la_positions l ! k)"
proof -
  let ?mk = "\<lambda>p. fst (make_solver x bd nvml bl cards p)"
  note step = built_in_step(1) [OF assms(1,2,4)] and 1 = built_in_step(2) [OF assms(1,2,4), folded assms(5)]
  from step have e: "engine_solvers l = map (\<lambda>p. the (?mk p)) (la_positions l)"
    and all: "list_all (\<lambda>p. ?mk p \<noteq> None) (la_positions l)"
    and lab: "engine_labels l = map (\<lambda>p. bu_name (the (?mk p))) (la_positions l)"
    using assms(2) by (simp_all add: in_step_def)
  from e assms(3) have k: "k < length (la_positions l)" by simp
  from all k have "?mk (la_positions l ! k) \<noteq> None" by (simp add: list_all_length)
  with 1 e lab k assms(2) show ?thesis by (auto simp: telemetry_card_def thermal_card_def Let_def)
qed

text \<open>Three cards of which the first has no backend and the second does not come up under CUDA.\<close>

definition sample_cards :: "joined_card list" where
  "sample_cards =
    [joined0\<lparr>jc_name := ''A'', jc_reason := ''too small''\<rparr>,
     joined0\<lparr>jc_name := ''B'', jc_backend := Cuda, jc_cuda_index := 1, jc_cl_index := 4\<rparr>,
     joined0\<lparr>jc_name := ''C'', jc_backend := Cuda, jc_cuda_index := 2\<rparr>]"

definition sample_build :: build where
  "sample_build = \<lparr>bd_cuda = True, bd_opencl = True, bd_metal = False, bd_oracle = False\<rparr>"

definition sample_hardware :: hardware where
  "sample_hardware = \<lparr>hw_cuda = [], hw_cl = [], hw_metal = [], hw_metal_available = (\<lambda>_. False), hw_nvml = Some []\<rparr>"

definition sample_builders :: builders where
  "sample_builders = \<lparr>bl_cuda = (\<lambda>pos i pl mclk. if pos = 1 then Inl ''out of memory'' else Inr (''C'', 16)),
     bl_cl = (\<lambda>pos i. Inr (''B'', 8)), bl_metal = (\<lambda>_. Inl ''''), bl_limit = (\<lambda>_. Some 200), bl_mem_clock = (\<lambda>_. None)\<rparr>"

theorem rows_follow_cards_witness:
  "let l = build_solvers options0 sample_build sample_hardware sample_builders sample_cards [0, 1, 2]
   in map bu_driver (engine_solvers l) = [''OpenCL'', ''Cuda''] \<and> engine_labels l ! 1 = ''C'' \<and> thermal_card l 1 = Some 2"
proof -
  define l where l: "l = build_solvers options0 sample_build sample_hardware sample_builders sample_cards [0, 1, 2]"
  have c: "la_positions l = [1, 2]" "engine_solvers l =
    [\<lparr>bu_name = ''B'', bu_mem = 8, bu_driver = ''OpenCL''\<rparr>, \<lparr>bu_name = ''C'', bu_mem = 16, bu_driver = ''Cuda''\<rparr>]"
    unfolding l by code_simp+
  show ?thesis unfolding Let_def l [symmetric]
    using rows_follow_cards [OF l, of 1, OF _ _ refl refl] c by simp
qed

section \<open>The stored tune\<close>

text \<open>The key of a card's entry in the store: the name NVML gives, else the one CUDA gives.\<close>

definition nvml_name :: "hardware \<Rightarrow> nat \<Rightarrow> string" where
  "nvml_name hw pos = (case hw_nvml hw of None \<Rightarrow> '''' | Some cs \<Rightarrow> if pos < length cs then nv_name (cs ! pos) else '''')"

definition nvml_pci :: "hardware \<Rightarrow> nat \<Rightarrow> string" where
  "nvml_pci hw pos = (case hw_nvml hw of None \<Rightarrow> '''' | Some cs \<Rightarrow> if pos < length cs then nv_pci (cs ! pos) else '''')"

definition auto_key :: "build \<Rightarrow> hardware \<Rightarrow> bool \<Rightarrow> nat \<Rightarrow> string" where
  "auto_key bd hw nvml pos =
    (let key = (if nvml \<and> nvml_name hw pos \<noteq> '''' then nvml_name hw pos @ ''@'' @ nvml_pci hw pos else '''')
     in if bd_cuda bd \<and> key = '''' \<and> pos < length (hw_cuda hw)
        then cc_name (hw_cuda hw ! pos) @ ''@'' @ (if nvml then nvml_pci hw pos else '''')
        else key)"

text \<open>The key under which the measuring modes store.\<close>

definition measure_key :: "hardware \<Rightarrow> string \<Rightarrow> nat \<Rightarrow> string" where
  "measure_key hw dev_name pos = (if nvml_name hw pos = '''' then dev_name else nvml_name hw pos) @ ''@'' @ nvml_pci hw pos"

text \<open>A line for the console: whether it is an error, and the text.\<close>

type_synonym line = "bool \<times> string"

text \<open>\<open>--pl auto\<close> for one card: the request with the stored limit at the card's own place.\<close>

definition resolve_pl_auto ::
    "options \<Rightarrow> string \<Rightarrow> json option \<Rightarrow> string \<Rightarrow> nat \<Rightarrow> string \<Rightarrow> oc_request \<Rightarrow> line list \<times> oc_request" where
  "resolve_pl_auto x store_path store key pos prefix r =
    (if oq_pl r \<noteq> ''auto'' then ([], r)
     else let (w, date) = (if key = '''' then (0, '''') else tune_stored_pl store key '''')
     in if w \<noteq> 0 then
          let r = r\<lparr>oq_pl := oc_spec_at pos (uint w)\<rparr>;
              first = (False, prefix @ ''--pl auto: '' @ dec (unat w) @ '' W, tuned for this card on '' @ date @
                '' (re-run --tune after driver or cooling changes)'');
              (found, rmhz, rbelow) = tune_stored_rung store key 0 0
          in (if o_mem_clock x = '''' \<and> found \<and> w < rbelow
              then [first, (False, prefix @ ''--pl auto: at this cap the tune also measured the '' @ dec (unat rmhz) @
                     '' MHz memory rung faster - consider adding --mclk '' @ dec (unat rmhz))]
              else [first], r)
        else
          ([(True, prefix @ ''--pl auto: no stored tune for this card in '' @ store_path @
              '' - run `sudo mxbm --tune` once; continuing at the card'' @ [CHR 0x27] @ ''s current limit'')],
           r\<lparr>oq_pl := ''''\<rparr>))"

section \<open>The overclock settings\<close>

definition oc_request_of :: "options \<Rightarrow> oc_request" where
  "oc_request_of x = \<lparr>oq_pl = o_power_limit x, oq_cclk = o_core_clock x, oq_mclk = o_mem_clock x,
     oq_coff = o_core_offset x, oq_moff = o_mem_offset x, oq_fan = o_fan x\<rparr>"

text \<open>The first malformed setting, which ends the start.\<close>

definition malformed_oc :: "oc_request \<Rightarrow> string option" where
  "malformed_oc r =
    (case concat (map (\<lambda>(spec, flag, sign).
        if spec = '''' \<or> flag = ''--pl'' \<and> spec = ''auto'' then []
        else case oc_parse_list spec 0 sign of
               Inl perr \<Rightarrow> [''Invalid '' @ flag @ '' '' @ [CHR 0x22] @ spec @ [CHR 0x22] @ '': '' @ perr]
             | Inr _ \<Rightarrow> [])
      [(oq_pl r, ''--pl'', False), (oq_cclk r, ''--cclk'', False), (oq_mclk r, ''--mclk'', False),
       (oq_coff r, ''--coff'', True), (oq_moff r, ''--moff'', True), (oq_fan r, ''--fan'', True)]) of
       [] \<Rightarrow> None
     | e # _ \<Rightarrow> Some e)"

definition any_oc :: "oc_request \<Rightarrow> bool" where
  "any_oc r = (\<not> (oq_pl r = '''' \<and> oq_cclk r = '''' \<and> oq_mclk r = '''' \<and> oq_coff r = '''' \<and> oq_moff r = '''' \<and> oq_fan r = ''''))"

definition oc_targets :: "options \<Rightarrow> nat list \<Rightarrow> nat list" where
  "oc_targets x sel = (if measure_mode x then [device_index sel] else if sel = [] then [0] else sel)"

text \<open>One target: its request resolved and applied.\<close>

definition apply_target ::
    "'hw card_ops \<Rightarrow> (nat \<Rightarrow> string \<Rightarrow> line list \<times> oc_request) \<Rightarrow> bool \<Rightarrow> nat \<Rightarrow> line list \<times> 'hw \<times> oc_state \<Rightarrow>
     line list \<times> 'hw \<times> oc_state" where
  "apply_target ops resolve multi pos acc =
    (case acc of (out, s) \<Rightarrow>
     let prefix = (if multi then ''GPU '' @ dec pos @ '': '' else '''');
         (lines, r) = resolve pos prefix;
         (rs, s) = oc_apply ops pos r s
     in (out @ lines @ map (\<lambda>q. (or_status q \<noteq> Applied \<and> or_status q \<noteq> Clamped, prefix @ or_message q)) rs, s))"

definition start_overclock ::
    "options \<Rightarrow> 'hw card_ops \<Rightarrow> (nat \<Rightarrow> string \<Rightarrow> line list \<times> oc_request) \<Rightarrow> bool \<Rightarrow> bool \<Rightarrow> bool \<Rightarrow> nat list \<Rightarrow>
     'hw \<times> oc_state \<Rightarrow> string + line list \<times> 'hw \<times> oc_state" where
  "start_overclock x ops resolve nvml metal gpu sel s =
    (case malformed_oc (oc_request_of x) of
       Some e \<Rightarrow> Inl e
     | None \<Rightarrow>
         if \<not> any_oc (oc_request_of x) then
           Inr (if o_no_oc_reset x
                then [(False, ''--no-oc-reset noted, but no overclock setting was given - nothing to reset'')] else [], s)
         else
           let s = (fst s, oc_set_restore_enabled (\<not> o_no_oc_reset x) (snd s))
           in if \<not> nvml then
                Inr ([(True,
                  if metal then ''Overclock settings are not supported on Apple Silicon: macOS '' @
                    ''exposes no power-limit, clock or fan control. Continuing at the system'' @ [CHR 0x27] @ ''s own settings''
                  else if gpu then ''Overclock settings need NVML (an NVIDIA driver), which is not '' @
                    ''available here; continuing at the card'' @ [CHR 0x27] @ ''s current settings''
                  else ''Overclock settings were not applied: no GPU solver is in use, '' @
                    ''so there is no card for them to apply to'')], s)
              else
                let targets = oc_targets x sel;
                    (out, s) = fold (apply_target ops resolve (length targets > 1)) targets
                      ([(False, ''Applying overclock settings...'')], s)
                in Inr (out @ (if o_no_oc_reset x
                     then [(False, ''--no-oc-reset: applied settings will be left on the card at exit'')] else []), s))"

text \<open>The limit the geometry is chosen for, read back after the settings landed.\<close>

definition startup_pl_w :: "'hw card_ops \<Rightarrow> bool \<Rightarrow> nat list \<Rightarrow> 'hw \<Rightarrow> u32" where
  "startup_pl_w ops nvml sel hw =
    (if nvml then (case op_pl_read ops hw (device_index sel) of None \<Rightarrow> 0 | Some pl \<Rightarrow> pl_current_w pl) else 0)"

section \<open>A stored cap lands on its own card\<close>

lemma stored_pl:
  assumes "tune_save dir_made opened stored key (Fin g) date version r = (True, store)" "opened"
  shows "tune_stored_pl store key d = (tr_recommended_w r, date)"
  using load_saved [OF assms] by (simp add: tune_stored_pl_def entry_back stored_entry_def Let_def)

lemma resolve_stored:
  assumes "oq_pl q = ''auto''" "key \<noteq> ''''" "tune_stored_pl store key '''' = (w, date)" "w \<noteq> 0"
  shows "snd (resolve_pl_auto x path store key pos prefix q) = q\<lparr>oq_pl := oc_spec_at pos (uint w)\<rparr>"
  using assms by (simp add: resolve_pl_auto_def Let_def split: prod.split)

lemma keys_agree: "nvml_name hw pos \<noteq> '''' \<Longrightarrow> auto_key bd hw True pos = measure_key hw dev_name pos"
  by (simp add: auto_key_def measure_key_def)

text \<open>
  The limit a sweep recommended is the limit \<open>--pl auto\<close> asks for, on that card and on no other: once
  the result of a sweep is stored under the key the measuring modes derive for a card NVML names,
  resolving \<open>--pl auto\<close> under the key the mining run derives for that card, whatever backend drives it
  then, gives a request whose entry for this card is the recommended limit, and whose entry for every
  other card asks for nothing.
\<close>
theorem auto_limit_lands:
  assumes "tune_save dir_made True stored (measure_key hw dev_name pos) (Fin g) date version r = (True, store)"
    and "nvml_name hw pos \<noteq> ''''" "oq_pl q = ''auto''" "tr_recommended_w r \<noteq> 0"
  shows "oc_parse_list (oq_pl (snd (resolve_pl_auto x path store (auto_key bd hw True pos) pos prefix q))) j False =
    Inr (if j = pos then Some (uint (tr_recommended_w r)) else None)"
proof -
  let ?w = "tr_recommended_w r"
  from stored_pl [OF assms(1)] have "tune_stored_pl store (auto_key bd hw True pos) '''' = (?w, date)"
    by (simp add: keys_agree [OF assms(2), of bd dev_name])
  moreover have "auto_key bd hw True pos \<noteq> ''''" by (simp add: keys_agree [OF assms(2), of bd dev_name] measure_key_def)
  ultimately have "oq_pl (snd (resolve_pl_auto x path store (auto_key bd hw True pos) pos prefix q)) = oc_spec_at pos (uint ?w)"
    using resolve_stored [OF assms(3)] assms(4) by simp
  moreover have "uint ?w \<noteq> 0" using assms(4) by (simp add: uint_0_iff)
  then have "0 < uint ?w" using uint_ge_0 [of ?w] by linarith
  moreover have "uint ?w < 2 ^ 63" using unsigned_less [of ?w, where 'a = int] by simp
  ultimately show ?thesis using spec_at_roundtrip [of "uint ?w" False pos j] by simp
qed

definition named_hardware :: hardware where
  "named_hardware = sample_hardware\<lparr>hw_nvml := Some [\<lparr>nv_name = ''A'', nv_pci = ''1:0''\<rparr>, \<lparr>nv_name = ''B'', nv_pci = ''2:0''\<rparr>]\<rparr>"

theorem auto_limit_lands_witness:
  "\<exists>store. tune_save True True None (measure_key named_hardware ''b'' 1) (Fin 1) ''d'' ''3'' sample_result = (True, store) \<and>
    oc_parse_list (oq_pl (snd (resolve_pl_auto options0 ''tune.json'' store (auto_key sample_build named_hardware True 1) 1 ''''
      (oc_request_of (options0\<lparr>o_power_limit := ''auto''\<rparr>))))) 1 False = Inr (Some 200)"
proof -
  obtain f where f: "tune_save True True None (measure_key named_hardware ''b'' 1) (Fin 1) ''d'' ''3'' sample_result = (True, f)"
    by (simp add: tune_save_def)
  have n: "nvml_name named_hardware 1 \<noteq> ''''" by (simp add: nvml_name_def named_hardware_def)
  have q: "oq_pl (oc_request_of (options0\<lparr>o_power_limit := ''auto''\<rparr>)) = ''auto''" by (simp add: oc_request_of_def)
  have w: "tr_recommended_w sample_result \<noteq> 0" by (simp add: sample_result_def)
  from auto_limit_lands [OF f n q w, of options0 "''tune.json''" sample_build "''''" 1] f
  show ?thesis by (intro exI [of _ f]) (simp add: sample_result_def)
qed

section \<open>The measuring modes\<close>

text \<open>\<open>strtoul\<close> in base 10, cut to 32 bits.\<close>

definition cap_of :: "string \<Rightarrow> u32" where
  "cap_of s =
    (let (neg, u) = sign_of (dropWhile is_space s); v = undec (takeWhile is_digit u)
     in if v \<ge> 2 ^ 64 then -1 else if neg then - word_of_nat v else word_of_nat v)"

definition caps_of :: "string \<Rightarrow> u32 list" where
  "caps_of s = (if s = '''' then [] else map cap_of (split_on CHR '','' s))"

definition tune_config_of :: "options \<Rightarrow> nat list \<Rightarrow> tune_config" where
  "tune_config_of x sel = \<lparr>tc_device = device_index sel, tc_seconds_per_point = o_tune_seconds x,
     tc_min_gain = o_tune_min_gain x, tc_caps = caps_of (o_tune_caps x), tc_refine = (o_tune_caps x = ''''),
     tc_rung_pass = (o_tune_caps x = '''' \<and> o_mem_clock x = '''')\<rparr>"

text \<open>\<open>--tune\<close>: the exit code, the world and the store after; \<open>None\<close> where it does not return or an
  exception of the solver ends the process.\<close>

definition tune_mode ::
    "options \<Rightarrow> launch \<Rightarrow> bool \<Rightarrow> 'hw tune_env \<Rightarrow> nat list \<Rightarrow> string \<Rightarrow> string \<Rightarrow> string \<Rightarrow> bool \<Rightarrow> bool \<Rightarrow>
     json option \<Rightarrow> 'hw \<Rightarrow> (int \<times> json option \<times> 'hw) option" where
  "tune_mode x l nvml env sel key date version dir_made opened store hw =
    (if la_solver l = None \<or> \<not> nvml then Some (1, store, hw)
     else case run_tune env (tune_config_of x sel) hw of
            None \<Rightarrow> None
          | Some (Threw e, hw) \<Rightarrow> None
          | Some (Failed1, hw) \<Rightarrow> Some (1, store, hw)
          | Some (Concluded r, hw) \<Rightarrow>
              Some (0, snd (tune_save dir_made opened store key (o_tune_min_gain x) date version r), hw))"

text \<open>The caps as they are written on the command line are the caps that are measured.\<close>

fun caps_text :: "nat list \<Rightarrow> string" where
  "caps_text [] = ''''"
| "caps_text [n] = dec n"
| "caps_text (n # m # ns) = dec n @ CHR '','' # caps_text (m # ns)"

lemma cap_of_dec: "n < 2 ^ 64 \<Longrightarrow> cap_of (dec n) = word_of_nat n"
proof -
  assume n: "n < 2 ^ 64"
  obtain c r where d: "dec n = c # r" "is_digit c" using dec_head_digit by blast
  then have "\<not> is_space c" "c \<noteq> CHR ''-''" "c \<noteq> CHR ''+''" by (auto simp: is_digit_def is_space_def)
  with d(1) have s: "sign_of (dropWhile is_space (dec n)) = (False, dec n)" by (simp add: sign_of_def)
  with s n show ?thesis by (simp add: cap_of_def takeWhile_dec)
qed

lemma comma_dec: "CHR '','' \<notin> set (dec n)"
  using dec_digits [of "CHR '',''" n] by (auto simp: is_digit_def)

lemma caps_read: "list_all (\<lambda>n. n < 2 ^ 64) ns \<Longrightarrow> caps_of (caps_text ns) = map word_of_nat ns"
proof -
  assume a: "list_all (\<lambda>n. n < 2 ^ 64) ns"
  have "ns \<noteq> [] \<Longrightarrow> split_on CHR '','' (caps_text ns) = map dec ns"
    by (induction ns rule: caps_text.induct) (simp_all add: split_on_none split_on_join comma_dec)
  moreover have "ns \<noteq> [] \<Longrightarrow> caps_text ns \<noteq> ''''" by (induction ns rule: caps_text.induct) simp_all
  ultimately show ?thesis using a by (cases "ns = []") (simp_all add: caps_of_def list_all_iff cap_of_dec)
qed

section \<open>The pause key and the guards\<close>

datatype key = NoKey | Speed | StatsBlock | Connection | Pause | Resume | Help

definition key_command :: "char \<Rightarrow> key" where
  "key_command c =
    (if c = CHR ''h'' \<or> c = CHR ''H'' then Speed
     else if c = CHR ''s'' \<or> c = CHR ''S'' then StatsBlock
     else if c = CHR ''c'' \<or> c = CHR ''C'' then Connection
     else if c = CHR ''p'' \<or> c = CHR ''P'' then Pause
     else if c = CHR ''r'' \<or> c = CHR ''R'' then Resume
     else if c = CHR ''?'' then Help
     else NoKey)"

definition key_help_line :: string where
  "key_help_line = ''Console keys: h speed, s stats, c connection, p pause, r resume''"

text \<open>The two keys that change something: the flag after, and the line.\<close>

definition press_pause :: "bool \<Rightarrow> bool \<Rightarrow> bool \<times> string" where
  "press_pause can_pause paused =
    (if \<not> can_pause then (paused, ''Nothing to pause - no mining device is active'')
     else (True, if paused then ''Already paused - press r to resume''
                 else ''Paused - devices idle after the solve in flight; press r to resume''))"

definition press_resume :: "bool \<Rightarrow> bool \<Rightarrow> bool \<times> string option" where
  "press_resume can_pause paused =
    (if \<not> can_pause then (paused, None) else (False, Some (if paused then ''Resuming mining'' else ''Not paused'')))"

text \<open>The line of the connection key.\<close>

definition connection_line :: "string \<Rightarrow> nat \<Rightarrow> int \<Rightarrow> u64 \<Rightarrow> string \<Rightarrow> double \<Rightarrow> int \<Rightarrow> string" where
  "connection_line pool uptime connect_ms reconnects last_job units latency =
    (if pool = '''' then ''No pool connection''
     else ''Pool '' @ pool @ '' - uptime '' @ format_uptime uptime @ '', connected in '' @ int_dec connect_ms @
       '' ms, reconnects '' @ dec (unat reconnects) @
       (if last_job = '''' then '''' else snprintf 96 ('', last job '' @ last_job @ '' (difficulty '' @ fixed 0 units @ '')'')) @
       (if latency \<ge> 0 then '', share latency '' @ int_dec latency @ '' ms'' else ''''))"

text \<open>What an engine, the watchdog and the paused column ask.\<close>

definition engine_held :: "bool \<Rightarrow> thermal \<Rightarrow> nat \<Rightarrow> bool" where
  "engine_held user_paused th k = (user_paused \<or> thermal_paused th k)"

definition thermal_setup :: "options \<Rightarrow> nat \<Rightarrow> thermal" where
  "thermal_setup x engines =
    (if o_tstop x \<noteq> 0 \<or> o_tstart x \<noteq> 0
     then configure (replicate engines \<lparr>lm_stop_c = word_of_int (o_tstop x), lm_start_c = word_of_int (o_tstart x)\<rparr>) thermal_new
     else thermal_new)"

text \<open>The watchdog of the run: \<open>Inl\<close> ends the start, \<open>None\<close> is no watchdog.\<close>

definition watchdog_setup :: "options \<Rightarrow> nat \<Rightarrow> string + watchdog_action option" where
  "watchdog_setup x engines =
    (if \<not> o_watchdog_requested x \<or> engines = 0 then Inr None
     else case parse_watchdog_action (o_watchdog_action x) of
            None \<Rightarrow> Inl (''Unknown --watchdog action '' @ [CHR 0x22] @ o_watchdog_action x @ [CHR 0x22] @
              '' - expected off, exit or script'')
          | Some a \<Rightarrow>
              if a = Script \<and> o_watchdog_script x = '''' then Inl ''--watchdog script needs --watchdogscript PATH''
              else Inr (Some a))"

datatype hung_effect = ExitProcess int | RunCommand string | KeepMining

fun hung_action :: "watchdog_action \<Rightarrow> string \<Rightarrow> nat \<Rightarrow> hung_effect" where
  "hung_action Exit script dev = ExitProcess 42"
| "hung_action Script script dev = RunCommand (script @ '' '' @ dec dev)"
| "hung_action Off script dev = KeepMining"

text \<open>The last sign of life is no older than any poll at which the card was not expected to work.\<close>

lemma last_sign_recent: "sorted_wrt (\<lambda>a b. fst b \<le> fst a) h \<Longrightarrow> (t, n, False) \<in> set h \<Longrightarrow> t \<le> last_sign h"
  by (induction h rule: last_sign.induct) auto

text \<open>
  A card that is held is not accused of hanging: whatever the key and the temperature did, when a poll
  reports a card, the card is not held at that poll and was last held at a poll at least the stall
  time ago; so neither a pause of any length nor the start of work after it sets off the watchdog.
\<close>
theorem pause_is_no_hang:
  assumes "i < length c" "length (wd_devs w) = length c" "wd_devs w ! i = watch_all (wd_stall w) h" "h \<noteq> []"
    and "sorted_wrt (\<lambda>a b. fst b \<le> fst a) h" "(t, n, False) \<in> set h"
    and "i \<in> set (snd (watchdog_poll (Some c) now mining (Some (engine_held user_paused th)) w))"
  shows "\<not> user_paused \<and> \<not> thermal_paused th i \<and> t + wd_stall w \<le> now"
proof -
  have r: "resize dev_state0 (length c) (wd_devs w) = wd_devs w" using assms(2) by (simp add: resize_def)
  have "snd (watch_dev (wd_stall w) (now, c ! i, (case mining of None \<Rightarrow> True | Some b \<Rightarrow> b) \<and> \<not> engine_held user_paused th i)
      (watch_all (wd_stall w) h))"
    using assms(1,7) by (simp add: watchdog_poll_def Let_def r assms(3))
  then have "\<not> engine_held user_paused th i \<and> wd_stall w \<le> now - last_sign h" unfolding watch_report [OF assms(4)] by simp
  with last_sign_recent [OF assms(5,6)] show ?thesis by (simp add: engine_held_def)
qed

theorem pause_is_no_hang_witness:
  "let h = [(20, 7, True), (10, 7, False), (5, 3, True)];
       w = \<lparr>wd_stall = 90, wd_devs = [watch_all 90 h], wd_running = True\<rparr>
   in 0 \<in> set (snd (watchdog_poll (Some [7]) 100 (Some True) (Some (engine_held False thermal_new)) w)) \<and> (10 :: int) + 90 \<le> 100"
proof -
  let ?h = "[(20, 7, True), (10, 7, False), (5, 3, True)]"
  let ?w = "\<lparr>wd_stall = 90, wd_devs = [watch_all 90 ?h], wd_running = True\<rparr>"
  have r: "0 \<in> set (snd (watchdog_poll (Some [7]) 100 (Some True) (Some (engine_held False thermal_new)) ?w))"
    by code_simp
  have "10 + wd_stall ?w \<le> 100"
    using pause_is_no_hang [of 0 "[7]" ?w ?h 10 7 100 "Some True" False thermal_new] r by simp
  with r show ?thesis by (simp add: Let_def)
qed

section \<open>The restart notice\<close>

text \<open>
  What the telemetry callback asks about the geometry: the ladder's defaults with quad rungs allowed,
  the card's whole memory, and no implicit bits, arenas, octo records or replay.
\<close>

definition notice_request :: "u64 \<Rightarrow> u32 \<Rightarrow> rb_request" where
  "notice_request mem pl =
    \<lparr>q_max_alloc = 0, q_global_mem = mem, q_allow_quad = True, q_power_limit_w = pl, q_allow_split = False,
     q_slack_bytes = 2 ^ 30, q_allow_impb = False, q_allow_arena = False, q_allow_octo = False, q_allow_replay = False\<rparr>"

text \<open>One sample of the first row: whether the notice was given before, and whether it is now.\<close>

definition restart_notice :: "double option \<Rightarrow> bool \<Rightarrow> u64 \<Rightarrow> u32 \<Rightarrow> u32 option \<Rightarrow> bool \<Rightarrow> bool" where
  "restart_notice forced watch_pl mem0 pl0 now noticed =
    (watch_pl \<and> \<not> noticed \<and>
     (case now of None \<Rightarrow> False
      | Some w \<Rightarrow> w \<noteq> pl0 \<and>
          g_bb (rb_geometry_for forced kRbCapacity (notice_request mem0 pl0)) \<noteq>
          g_bb (rb_geometry_for forced kRbCapacity (notice_request mem0 w))))"

text \<open>
  On a 9 GiB card the CUDA solver chooses another geometry at 120 W than at 200 W, and the notice
  is not given when the limit changes from one to the other.
\<close>

lemma notice_total:
  "rowbucket_bytes None kRbCapacity 17 (fmt False False False False False) = (8684314688, 4010803200)"
  by (simp_all add: shipping_bytes del: One_nat_def)

lemma low_power_choice:
  assumes "impb = q_allow_impb q" "f = fmt False (impb \<and> rb_impb_ok 17 0 False) False False (q_allow_replay q)"
    "rowbucket_bytes None kRbCapacity 17 f = (bytes, single)" "q_max_alloc q = 0" "q_global_mem q \<noteq> 0"
  shows "rb_geometry_for None kRbCapacity q =
    (if q_power_limit_w q \<noteq> 0 \<and> q_power_limit_w q < kRbLowPowerW \<and> bytes + q_slack_bytes q \<le> q_global_mem q
     then \<lparr>g_bb = 17, g_sm = 0, g_quad = False, g_viable = True, g_arena = False, g_octo = False\<rparr>
     else rb_walk None kRbCapacity q rb_rungs)"
  using assms by (simp add: rb_geometry_for_def impb_at_def fmt_def Let_def kRbLowPowerW_def)

lemma bb_low:
  "g_bb (rb_walk None kRbCapacity q rb_rungs) \<noteq> 17"
proof -
  have "g_bb (rb_walk None kRbCapacity q rs) \<in> insert 14 (r_bb ` set rs)" for rs
    by (induction rs) (auto simp: Let_def split: prod.splits)
  from this [of rb_rungs] show ?thesis by (auto simp: rb_rungs_def rung_def)
qed

definition lost_notice :: u64 where
  "lost_notice = 9663676416"

lemma restart_notice_missed:
  "g_bb (rb_geometry_for None kRbCapacity (cuda_request lost_notice 671088640 120)) = 17 \<and>
   g_bb (rb_geometry_for None kRbCapacity (cuda_request lost_notice 671088640 200)) \<noteq> 17 \<and>
   \<not> restart_notice None True lost_notice 200 (Some 120) False"
proof -
  have c: "rb_geometry_for None kRbCapacity (cuda_request lost_notice 671088640 pl) =
      (if pl \<noteq> 0 \<and> pl < 130 then \<lparr>g_bb = 17, g_sm = 0, g_quad = False, g_viable = True, g_arena = False, g_octo = False\<rparr>
       else rb_walk None kRbCapacity (cuda_request lost_notice 671088640 pl) rb_rungs)" for pl
    by (subst low_power_choice [where bytes = 7577534528 and single = 3565158400, OF refl refl])
      (simp_all add: cuda_request_def rb_impb_ok_def shipping_footprints kRbLowPowerW_def lost_notice_def)
  have n: "rb_geometry_for None kRbCapacity (notice_request lost_notice pl) =
      rb_walk None kRbCapacity (notice_request lost_notice pl) rb_rungs" for pl
    by (subst low_power_choice [where bytes = 8684314688 and single = 4010803200, OF refl refl])
      (simp_all add: notice_request_def notice_total lost_notice_def)
  have w: "rb_walk None kRbCapacity (notice_request lost_notice pl) rs = rb_walk None kRbCapacity (notice_request lost_notice 0) rs" for pl rs
    by (induction rs) (simp_all add: notice_request_def rung_format_def impb_at_def binding_single_def Let_def split: prod.split)
  have "g_bb (rb_geometry_for None kRbCapacity (notice_request lost_notice 200)) =
      g_bb (rb_geometry_for None kRbCapacity (notice_request lost_notice 120))"
    unfolding n w [of 200] w [of 120] ..
  then show ?thesis using bb_low by (simp add: c restart_notice_def)
qed

section \<open>The CUDA solver's geometry\<close>

text \<open>
  The constructor (src/gpu/cuda_solver.cu) without the overriding environment variables: the choice
  against the usable memory, and, where the allocator refuses it, the rungs below it on the ladder;
  the low-power geometry is not on the ladder and is followed by the whole of it. The
  allocator is a function of the geometry.
\<close>

definition kAvailSlackBytes :: u64 where
  "kAvailSlackBytes = push_bit 20 640"

definition pick_geometry :: "u64 \<Rightarrow> u32 \<Rightarrow> u64 \<Rightarrow> rb_geometry" where
  "pick_geometry memory pl slack = rb_geometry_for None kRbCapacity (cuda_request memory slack pl)"

definition rung_of :: "rb_geometry \<Rightarrow> rb_rung" where
  "rung_of g = rung (g_bb g) (g_sm g) (g_quad g) (g_arena g) (g_octo g)"

definition same_rung :: "rb_geometry \<Rightarrow> rb_rung \<Rightarrow> bool" where
  "same_rung g r = (r_bb r = g_bb g \<and> r_quad r = g_quad g \<and> r_arena r = g_arena g \<and> r_octo r = g_octo g)"

text \<open>The rungs tried after a refusal.\<close>

definition retry_rungs :: "rb_geometry \<Rightarrow> rb_rung list" where
  "retry_rungs g =
    (if list_ex (same_rung g) rb_rungs then tl (dropWhile (\<lambda>r. \<not> same_rung g r) rb_rungs) else rb_rungs)"

definition cuda_geometry :: "(rb_rung \<Rightarrow> bool) \<Rightarrow> u64 \<Rightarrow> u32 \<Rightarrow> string + rb_rung" where
  "cuda_geometry alloc memory pl =
    (let g = pick_geometry memory pl 0
     in if \<not> g_viable g then Inl ''CUDA: no row-bucket geometry fits this device''
        else if alloc (rung_of g) then Inr (rung_of g)
        else case find alloc (retry_rungs g) of
               None \<Rightarrow> Inl ''CUDA allocation failed (device out of memory)''
             | Some r \<Rightarrow> Inr r)"

lemma cuda_geometry_allocated:
  assumes "cuda_geometry alloc memory pl = Inr r"
  shows "alloc r \<and> (r \<in> set rb_rungs \<or> r = rung_of (pick_geometry memory pl 0))"
proof -
  have "set (tl (dropWhile P xs)) \<subseteq> set xs" for P and xs :: "rb_rung list"
    by (induction xs) auto
  then have s: "set (retry_rungs g) \<subseteq> set rb_rungs" for g by (simp add: retry_rungs_def)
  from assms show ?thesis
    using s [THEN subsetD] nth_mem
    by (auto simp: cuda_geometry_def Let_def find_Some_iff split: if_splits option.splits)
qed

end
