(* ===== verification/Measure.thy ===== *)
theory Measure
  imports Launch "HOL-Library.Sublist"
begin

text \<open>
  The measuring modes: the benchmark over the mining path (src/miner/benchmark.cpp), the files of
  the user's directory (src/miner/user_paths.cpp, src/miner/report_paths.cpp) and the report
  (src/miner/report.h, src/miner/report.cpp). The clock and the stop flag are a list of ticks; the
  text of the console is not modelled, the report's block is. Shown: a benchmark counts what
  mining counts, never tries a nonce twice, and ends; its percentiles are ordered samples; a curve in
  a report is this build's or says whose it is.
\<close>

section \<open>The benchmark\<close>

definition kHeaderHex :: string where
  "kHeaderHex = ''4d58424d2062656e63686d61726b20686561646572000000000000000000beef''"

definition kNoncePrefix :: string where
  "kNoncePrefix = ''0000''"

definition percentile :: "double list \<Rightarrow> double \<Rightarrow> double" where
  "percentile v p =
    (if v = [] then 0
     else let i = nat \<lfloor>dadd (dmul p (d_of_nat (length v - 1))) (1 / 2)\<rfloor> in sort v ! min i (length v - 1))"

definition bench_job :: job where
  "bench_job = \<lparr>j_id = ''benchmark'', j_input = kHeaderHex, j_difficulty = 512, j_height = 0\<rparr>"

text \<open>
  One turn of the loop: the stop flag, the clock before, at the attempt's hook, and after, in nanoseconds
  of the steady clock.
\<close>

record bench_tick =
  bt_stop :: bool
  bt_s0 :: int
  bt_hook :: int
  bt_s1 :: int

record bench_state =
  bs_engine :: engine
  bs_stats :: stats
  bs_samples :: "double list"
  bs_solutions :: u64

definition d_millis :: "int \<Rightarrow> double" where
  "d_millis ns = ddiv (d_of_int ns) 1000000"

text \<open>What \<open>submit_fn\<close> is replaced by: nothing.\<close>

definition bench_submit :: "solution \<Rightarrow> origin \<Rightarrow> bench_state \<Rightarrow> bench_state" where
  "bench_submit sol orig b = b"

text \<open>The hooks of the benchmark on the events of one call.\<close>

definition bench_hook :: "int \<Rightarrow> engine_event list \<Rightarrow> bench_state \<Rightarrow> bench_state" where
  "bench_hook now evs b =
    fold (\<lambda>e b. case e of
        OnAttempt c \<Rightarrow> b\<lparr>bs_stats := record_attempt now c 0 (bs_stats b), bs_solutions := bs_solutions b + ucast c\<rparr>
      | SubmitSolution sol orig \<Rightarrow> bench_submit sol orig b
      | _ \<Rightarrow> b) evs b"

text \<open>The loop: what the solver threw, or the state at the end; \<open>None\<close> where the ticks run out first.\<close>

fun bench_loop ::
    "(u8 list \<Rightarrow> u8 list) \<Rightarrow> (u8 list \<Rightarrow> u8 list \<Rightarrow> string + u8 list list) \<Rightarrow> int \<Rightarrow> int \<Rightarrow> bench_tick list \<Rightarrow>
     bench_state \<Rightarrow> (string \<times> bench_state + bench_state) option" where
  "bench_loop sha solve seconds deadline [] b = None"
| "bench_loop sha solve seconds deadline (tk # tks) b =
    (if bt_stop tk \<or> seconds > 0 \<and> bt_s0 tk \<ge> deadline then Some (Inr b)
     else case process_job sha solve [] bench_job kNoncePrefix Main (bs_engine b) of
            (Some what, e, evs) \<Rightarrow> Some (Inl (what, (bench_hook (bt_hook tk) evs b)\<lparr>bs_engine := e\<rparr>))
          | (None, e, evs) \<Rightarrow>
              let b = (bench_hook (bt_hook tk) evs b)\<lparr>bs_engine := e\<rparr>
              in bench_loop sha solve seconds deadline tks (b\<lparr>bs_samples := bs_samples b @ [d_millis (bt_s1 tk - bt_s0 tk)]\<rparr>))"

record bench_result =
  br_solves :: u64
  br_solutions :: u64
  br_elapsed_s :: double
  br_sol_per_s :: double
  br_solves_per_s :: double
  br_per_solve_avg :: double
  br_median_ms :: double
  br_p5_ms :: double
  br_p95_ms :: double

definition bench_summary :: "bench_state \<Rightarrow> double \<Rightarrow> bench_result" where
  "bench_summary b elapsed =
    (let solves = word_of_nat (length (bs_samples b)) :: u64; d = (\<lambda>w :: u64. d_of_nat (unat w))
     in \<lparr>br_solves = solves, br_solutions = bs_solutions b, br_elapsed_s = elapsed,
         br_sol_per_s = (if elapsed > 0 then ddiv (d (bs_solutions b)) elapsed else 0),
         br_solves_per_s = (if elapsed > 0 then ddiv (d solves) elapsed else 0),
         br_per_solve_avg = (if solves > 0 then ddiv (d (bs_solutions b)) (d solves) else 0),
         br_median_ms = percentile (bs_samples b) (1 / 2), br_p5_ms = percentile (bs_samples b) (dbl (1 / 20)),
         br_p95_ms = percentile (bs_samples b) (dbl (19 / 20))\<rparr>)"

definition bench_start :: "stats \<Rightarrow> bench_state" where
  "bench_start s = \<lparr>bs_engine = engine_new 0 1, bs_stats = s, bs_samples = [], bs_solutions = 0\<rparr>"

text \<open>\<open>t1\<close> is the clock at the end as a function of the ticks, like \<open>t0\<close>.\<close>

definition run_benchmark ::
    "(u8 list \<Rightarrow> u8 list) \<Rightarrow> (u8 list \<Rightarrow> u8 list \<Rightarrow> string + u8 list list) \<Rightarrow> int \<Rightarrow> int \<Rightarrow> int \<Rightarrow> bench_tick list \<Rightarrow>
     stats \<Rightarrow> (string + bench_result \<times> stats) option" where
  "run_benchmark sha solve seconds t0 t1 tks s =
    (case bench_loop sha solve seconds (t0 + (if seconds > 0 then seconds else 0) * 1000000000) tks (bench_start s) of
       None \<Rightarrow> None
     | Some (Inl (what, _)) \<Rightarrow> Some (Inl what)
     | Some (Inr b) \<Rightarrow> Some (Inr (bench_summary b (d_seconds (t1 - t0)), bs_stats b)))"

section \<open>What a benchmark counts\<close>

lemma bench_header: "\<exists>i. from_hex_strict kHeaderHex 32 = Some i"
proof -
  have "from_hex_strict kHeaderHex 32 \<noteq> None" by code_simp
  then show ?thesis by blast
qed

text \<open>One call of the core: it advances the counter by one and hooks one attempt unless the solver threw.\<close>

lemma bench_call:
  assumes "process_job sha solve [] bench_job kNoncePrefix Main e = (r, e', evs)"
  shows "trace_nonces evs = [build_nonce kNoncePrefix (en_nonce_counter e)]"
    "en_nonce_counter e' = en_nonce_counter e + en_nonce_stride e" "en_nonce_stride e' = en_nonce_stride e"
    "r = None \<Longrightarrow> \<exists>c. \<forall>now b. bench_hook now evs b =
       b\<lparr>bs_stats := record_attempt now c 0 (bs_stats b), bs_solutions := bs_solutions b + ucast c\<rparr>"
proof -
  have h: "from_hex_strict (j_input bench_job) 32 \<noteq> None" using bench_header by (auto simp: bench_job_def)
  note N = process_job_nonces [OF assms h]
  show "trace_nonces evs = [build_nonce kNoncePrefix (en_nonce_counter e)]"
    "en_nonce_counter e' = en_nonce_counter e + en_nonce_stride e" "en_nonce_stride e' = en_nonce_stride e"
    by (rule N)+
  have s: "fold (\<lambda>e b. case e of
        OnAttempt c \<Rightarrow> b\<lparr>bs_stats := record_attempt now c 0 (bs_stats b), bs_solutions := bs_solutions b + ucast c\<rparr>
      | SubmitSolution sol orig \<Rightarrow> bench_submit sol orig b
      | _ \<Rightarrow> b) (map (\<lambda>c. SubmitSolution (f c) orig) cs) b = b" for now f orig cs and b :: bench_state
    by (induction cs) (simp_all add: bench_submit_def)
  assume "r = None"
  with assms h show "\<exists>c. \<forall>now b. bench_hook now evs b =
       b\<lparr>bs_stats := record_attempt now c 0 (bs_stats b), bs_solutions := bs_solutions b + ucast c\<rparr>"
    by (auto simp: process_job_def bench_hook_def Let_def s split: option.splits sum.splits if_splits)
qed

text \<open>
  The statistics during a benchmark that began with \<open>s\<close>: its solutions and its calls are counted, and
  nothing but the attempts differs.
\<close>

definition bench_counts :: "stats \<Rightarrow> bench_state \<Rightarrow> bool" where
  "bench_counts s b =
    (st_total_candidates (bs_stats b) = st_total_candidates s + bs_solutions b \<and>
     (st_devices s \<noteq> [] \<longrightarrow> st_devices (bs_stats b) \<noteq> [] \<and>
        dl_attempts (st_devices (bs_stats b) ! 0) = dl_attempts (st_devices s ! 0) + word_of_nat (length (bs_samples b))) \<and>
     bs_stats b = s\<lparr>st_total_candidates := st_total_candidates (bs_stats b), st_devices := st_devices (bs_stats b),
       st_attempts := st_attempts (bs_stats b)\<rparr>)"

lemma stats_attempt_fields:
  "t = s\<lparr>st_total_candidates := x, st_devices := y, st_attempts := z\<rparr> \<Longrightarrow>
    t\<lparr>st_total_candidates := x', st_devices := y', st_attempts := z'\<rparr> =
    s\<lparr>st_total_candidates := x', st_devices := y', st_attempts := z'\<rparr>"
  by simp

lemma bench_counts_attempt:
  assumes "bench_counts s b" "bs_stats b' = record_attempt now c 0 (bs_stats b)"
    "bs_solutions b' = bs_solutions b + ucast c" "length (bs_samples b') = Suc (length (bs_samples b))"
  shows "bench_counts s b'"
proof -
  from assms(1) have n: "st_total_candidates (bs_stats b) = st_total_candidates s + bs_solutions b"
    and d: "st_devices s \<noteq> [] \<longrightarrow> st_devices (bs_stats b) \<noteq> [] \<and>
      dl_attempts (st_devices (bs_stats b) ! 0) = dl_attempts (st_devices s ! 0) + word_of_nat (length (bs_samples b))"
    and e: "bs_stats b = s\<lparr>st_total_candidates := st_total_candidates (bs_stats b), st_devices := st_devices (bs_stats b),
      st_attempts := st_attempts (bs_stats b)\<rparr>"
    unfolding bench_counts_def by blast+
  have "st_total_candidates (bs_stats b') = st_total_candidates s + bs_solutions b'"
    by (simp add: assms(2,3) record_attempt_def n)
  moreover have "st_devices s \<noteq> [] \<longrightarrow> st_devices (bs_stats b') \<noteq> [] \<and>
      dl_attempts (st_devices (bs_stats b') ! 0) = dl_attempts (st_devices s ! 0) + word_of_nat (length (bs_samples b'))"
    using d by (simp add: assms(2,4) record_attempt_def update_device_def)
  moreover have "bs_stats b' = s\<lparr>st_total_candidates := st_total_candidates (bs_stats b'),
      st_devices := st_devices (bs_stats b'), st_attempts := st_attempts (bs_stats b')\<rparr>"
    unfolding assms(2) record_attempt_def stats_attempt_fields [OF e] by simp
  ultimately show ?thesis unfolding bench_counts_def by (intro conjI)
qed

lemma bench_loop_counts:
  "bench_loop sha solve seconds deadline tks b = Some (Inr b') \<Longrightarrow> bench_counts s b \<Longrightarrow> bench_counts s b'"
proof (induction tks arbitrary: b)
  case (Cons tk tks)
  show ?case
  proof (cases "bt_stop tk \<or> seconds > 0 \<and> bt_s0 tk \<ge> deadline")
    case True
    with Cons.prems show ?thesis by simp
  next
    case False
    obtain r e evs where p: "process_job sha solve [] bench_job kNoncePrefix Main (bs_engine b) = (r, e, evs)" by (metis prod.exhaust)
    from Cons.prems(1) False p have r: "r = None" by (cases r) auto
    from bench_call(4) [OF p r] obtain c where c: "bench_hook now evs b =
       b\<lparr>bs_stats := record_attempt now c 0 (bs_stats b), bs_solutions := bs_solutions b + ucast c\<rparr>" for now by blast
    let ?b = "(bench_hook (bt_hook tk) evs b)\<lparr>bs_engine := e,
       bs_samples := bs_samples b @ [d_millis (bt_s1 tk - bt_s0 tk)]\<rparr>"
    have "bench_loop sha solve seconds deadline tks ?b = Some (Inr b')"
      using Cons.prems(1) False p r by (simp add: c Let_def)
    moreover have "bench_counts s ?b"
      by (rule bench_counts_attempt [OF Cons.prems(2), of _ "bt_hook tk" c]) (simp_all add: c)
    ultimately show ?thesis by (rule Cons.IH)
  qed
qed simp


section \<open>It ends, and tries each nonce once\<close>

text \<open>The nonces the solver is given, in order.\<close>

fun bench_nonces ::
    "(u8 list \<Rightarrow> u8 list) \<Rightarrow> (u8 list \<Rightarrow> u8 list \<Rightarrow> string + u8 list list) \<Rightarrow> int \<Rightarrow> int \<Rightarrow> bench_tick list \<Rightarrow>
     engine \<Rightarrow> u8 list list" where
  "bench_nonces sha solve seconds deadline [] e = []"
| "bench_nonces sha solve seconds deadline (tk # tks) e =
    (if bt_stop tk \<or> seconds > 0 \<and> bt_s0 tk \<ge> deadline then []
     else case process_job sha solve [] bench_job kNoncePrefix Main e of
            (Some what, e, evs) \<Rightarrow> trace_nonces evs
          | (None, e, evs) \<Rightarrow> trace_nonces evs @ bench_nonces sha solve seconds deadline tks e)"

lemma bench_nonces_walk:
  "en_nonce_counter e = word_of_nat n \<Longrightarrow> en_nonce_stride e = 1 \<Longrightarrow>
    \<exists>m. bench_nonces sha solve seconds deadline tks e = map (\<lambda>k. build_nonce kNoncePrefix (word_of_nat k)) [n..<m]"
proof (induction tks arbitrary: e n)
  case (Cons tk tks)
  obtain r e' evs where p: "process_job sha solve [] bench_job kNoncePrefix Main e = (r, e', evs)" by (metis prod.exhaust)
  note C = bench_call(1-3) [OF p]
  show ?case
  proof (cases "bt_stop tk \<or> seconds > 0 \<and> bt_s0 tk \<ge> deadline")
    case True
    then show ?thesis by (intro exI [of _ n]) simp
  next
    case go: False
    show ?thesis
    proof (cases r)
      case (Some what)
      with go p C(1) Cons.prems(1) show ?thesis by (intro exI [of _ "Suc n"]) simp
    next
      case None
      have "en_nonce_counter e' = word_of_nat (Suc n)" "en_nonce_stride e' = 1" using C(2,3) Cons.prems by simp_all
      from Cons.IH [OF this] obtain m where
        m: "bench_nonces sha solve seconds deadline tks e' = map (\<lambda>k. build_nonce kNoncePrefix (word_of_nat k)) [Suc n..<m]"
        by blast
      have "[n..<max (Suc n) m] = n # [Suc n..<m]" by (simp add: upt_conv_Cons max_def)
      with go p None C(1) Cons.prems(1) m show ?thesis by (intro exI [of _ "max (Suc n) m"]) simp
    qed
  qed
qed (auto intro: exI [of _ n])

lemma bench_nonce_inj:
  assumes "i < 2 ^ 48" "j < 2 ^ 48" "build_nonce kNoncePrefix (word_of_nat i) = build_nonce kNoncePrefix (word_of_nat j)"
  shows "i = j"
proof -
  have l: "length kNoncePrefix = 4" by (simp add: kNoncePrefix_def)
  have u: "unat (word_of_nat n :: u64) = n" if "n < 2 ^ 48" for n
    using that by (simp add: unsigned_of_nat take_bit_nat_eq_self)
  have "(word_of_nat i :: u64) = word_of_nat j"
    by (rule build_nonce_inj [OF _ _ _ assms(3)]) (use assms(1,2) in \<open>simp_all add: l u\<close>)
  then have "unat (word_of_nat i :: u64) = unat (word_of_nat j :: u64)" by simp
  with assms(1,2) show ?thesis by (simp add: u)
qed

text \<open>
  The benchmark never solves a nonce twice: the nonces it gives the solver are all different, for
  as many solves as the six bytes the prefix leaves can count.
\<close>
theorem benchmark_nonces_distinct:
  assumes "length tks \<le> 2 ^ 48"
  shows "distinct (bench_nonces sha solve seconds deadline tks (engine_new 0 1))"
proof -
  have "length (bench_nonces sha solve seconds deadline tks e) \<le> length tks" for e
  proof (induction tks arbitrary: e)
    case (Cons tk tks)
    obtain r e' evs where p: "process_job sha solve [] bench_job kNoncePrefix Main e = (r, e', evs)" by (metis prod.exhaust)
    from Cons.IH [of e'] bench_call(1) [OF p] show ?case by (auto simp: p split: option.splits)
  qed simp
  then have len: "length (bench_nonces sha solve seconds deadline tks (engine_new 0 1)) \<le> 2 ^ 48"
    using assms le_trans by blast
  from bench_nonces_walk [of "engine_new 0 1" 0 sha solve seconds deadline tks] obtain m where
    m: "bench_nonces sha solve seconds deadline tks (engine_new 0 1) = map (\<lambda>k. build_nonce kNoncePrefix (word_of_nat k)) [0..<m]"
    by (auto simp: engine_new_def)
  with len have "m \<le> 2 ^ 48" by simp
  then show ?thesis unfolding m by (auto simp: distinct_map inj_on_def intro: bench_nonce_inj)
qed

text \<open>
  C40: The benchmark ends: when the stop flag is seen or the clock reaches the deadline at the head of some
  turn, \<open>run_benchmark\<close> returns, with a result or with what the solver threw.
\<close>
theorem benchmark_ends:
  assumes "tk \<in> set tks" "bt_stop tk \<or> seconds > 0 \<and> bt_s0 tk \<ge> t0 + seconds * 1000000000"
  shows "run_benchmark sha solve seconds t0 t1 tks s \<noteq> None"
proof -
  define d where "d = t0 + (if seconds > 0 then seconds else 0) * 1000000000"
  from assms(2) have e: "bt_stop tk \<or> seconds > 0 \<and> bt_s0 tk \<ge> d" by (auto simp: d_def)
  have "bench_loop sha solve seconds d tks b \<noteq> None" for b
    using assms(1)
  proof (induction tks arbitrary: b)
    case (Cons x xs)
    show ?case
    proof (cases "bt_stop x \<or> seconds > 0 \<and> bt_s0 x \<ge> d")
      case False
      with e Cons.prems have "tk \<in> set xs" by auto
      from Cons.IH [OF this] False show ?thesis by (simp split: prod.split option.split add: Let_def)
    qed simp
  qed simp
  then show ?thesis by (auto simp: run_benchmark_def simp flip: d_def split: option.splits sum.splits)
qed

section \<open>The percentiles\<close>

lemma percentile_mono:
  assumes "p \<le> q"
  shows "percentile v p \<le> percentile v q"
proof (cases "v = []")
  case False
  let ?n = "d_of_nat (length v - 1)"
  have "0 \<le> ?n" using d_of_nat_mono [of 0 "length v - 1"] by (simp add: d_of_nat_def)
  with assms have "dmul p ?n \<le> dmul q ?n" by (simp add: dmul_def dbl_mono mult_right_mono)
  then have "dadd (dmul p ?n) (1 / 2) \<le> dadd (dmul q ?n) (1 / 2)" by (simp add: dadd_def dbl_mono)
  then have "nat \<lfloor>dadd (dmul p ?n) (1 / 2)\<rfloor> \<le> nat \<lfloor>dadd (dmul q ?n) (1 / 2)\<rfloor>" by (intro nat_mono floor_mono)
  then have "min (nat \<lfloor>dadd (dmul p ?n) (1 / 2)\<rfloor>) (length v - 1) \<le> min (nat \<lfloor>dadd (dmul q ?n) (1 / 2)\<rfloor>) (length v - 1)"
    by (rule min.mono) simp
  moreover have "min k (length v - 1) < length (sort v)" for k using False by (cases v) auto
  ultimately show ?thesis using False unfolding percentile_def Let_def
    by (simp only: if_False) (rule sorted_nth_mono, simp_all only: sorted_sort)
qed (simp add: percentile_def)

text \<open>
  The spread a benchmark prints encloses its median: the 5th percentile is at most the median and
  the median at most the 95th, whatever was sampled.
\<close>
theorem benchmark_spread_ordered:
  assumes "run_benchmark sha solve seconds t0 t1 tks s = Some (Inr (r, s'))"
  shows "br_p5_ms r \<le> br_median_ms r \<and> br_median_ms r \<le> br_p95_ms r"
proof -
  from assms obtain b where "r = bench_summary b (d_seconds (t1 - t0))"
    by (auto simp: run_benchmark_def split: option.splits sum.splits)
  moreover have "dbl (1 / 20) \<le> 1 / 2" "1 / 2 \<le> dbl (19 / 20)" by code_simp+
  ultimately show ?thesis by (simp add: bench_summary_def Let_def percentile_mono)
qed

text \<open>Three turns of a solver that finds two candidates in one of them.\<close>

definition sample_ticks :: "bench_tick list" where
  "sample_ticks =
    [\<lparr>bt_stop = False, bt_s0 = 0, bt_hook = 1000, bt_s1 = 2000\<rparr>,
     \<lparr>bt_stop = False, bt_s0 = 2000, bt_hook = 5000, bt_s1 = 9000\<rparr>,
     \<lparr>bt_stop = True, bt_s0 = 9000, bt_hook = 0, bt_s1 = 0\<rparr>]"

definition sample_solver :: "u8 list \<Rightarrow> u8 list \<Rightarrow> string + u8 list list" where
  "sample_solver i n = Inr (if last n = 0 \<and> n ! 2 = 1 then [replicate 104 1, replicate 104 2] else [])"

definition bench_out :: "(string + bench_result \<times> stats) option \<Rightarrow> (u64 \<times> u64 \<times> u64) option" where
  "bench_out o' = (case o' of Some (Inr (r, s)) \<Rightarrow> Some (br_solves r, br_solutions r, st_total_candidates s) | _ \<Rightarrow> None)"

lemma sample_bench: "bench_out (run_benchmark (\<lambda>x. replicate 32 255) sample_solver 0 0 9000 sample_ticks (stats_new 0)) = Some (2, 2, 2)"
  by code_simp

lemma bench_outD: "bench_out o' = Some (a, b, c) \<Longrightarrow> \<exists>r s. o' = Some (Inr (r, s)) \<and> br_solutions r = b \<and> st_total_candidates s = c"
  by (auto simp: bench_out_def split: option.splits sum.splits)


theorem benchmark_spread_ordered_witness:
  "\<exists>r s'. run_benchmark (\<lambda>x. replicate 32 255) sample_solver 0 0 9000 sample_ticks (stats_new 0) = Some (Inr (r, s')) \<and>
    br_p5_ms r \<le> br_median_ms r"
  using bench_outD [OF sample_bench] benchmark_spread_ordered by metis

theorem benchmark_nonces_distinct_witness:
  "distinct (bench_nonces (\<lambda>x. replicate 32 255) sample_solver 0 0 sample_ticks (engine_new 0 1)) \<and>
   length (bench_nonces (\<lambda>x. replicate 32 255) sample_solver 0 0 sample_ticks (engine_new 0 1)) = 2"
proof
  show "length (bench_nonces (\<lambda>x. replicate 32 255) sample_solver 0 0 sample_ticks (engine_new 0 1)) = 2"
    by code_simp
qed (rule benchmark_nonces_distinct, simp add: sample_ticks_def)

theorem benchmark_ends_witness:
  "run_benchmark (\<lambda>x. replicate 32 255) sample_solver 0 0 9000 sample_ticks (stats_new 0) \<noteq> None"
  by (rule benchmark_ends [of "sample_ticks ! 2"]) (simp_all add: sample_ticks_def)

section \<open>The user's files\<close>

text \<open>The environment on a POSIX system; an unset variable is \<open>None\<close>.\<close>

record user_env =
  ue_xdg_config_home :: "string option"
  ue_root :: bool
  ue_sudo_user :: "string option"
  ue_home_of :: "string \<Rightarrow> string option"
  ue_home :: "string option"

definition given :: "string option \<Rightarrow> string option" where
  "given v = (case v of Some s \<Rightarrow> if s = '''' then None else Some s | None \<Rightarrow> None)"

definition config_dir :: "user_env \<Rightarrow> string" where
  "config_dir u =
    (case given (ue_xdg_config_home u) of
       Some x \<Rightarrow> x
     | None \<Rightarrow>
         (case (if ue_root u then Option.bind (given (ue_sudo_user u)) (ue_home_of u) else None) of
            Some h \<Rightarrow> h @ ''/.config''
          | None \<Rightarrow> (case given (ue_home u) of Some h \<Rightarrow> h @ ''/.config'' | None \<Rightarrow> ''.'')))"

definition tune_store_path :: "user_env \<Rightarrow> string" where
  "tune_store_path u = config_dir u @ ''/mxbm/tune.json''"

text \<open>The user a file is handed back to: \<open>atoi\<close> of the two variables sudo sets.\<close>

definition handed_back :: "bool \<Rightarrow> string option \<Rightarrow> string option \<Rightarrow> (int \<times> int) option" where
  "handed_back as_root uid gid =
    (if \<not> as_root then None
     else case (uid, gid) of
       (Some u, Some g) \<Rightarrow> Some (fst (strtol u), fst (strtol g))
     | _ \<Rightarrow> None)"

definition is_alnum :: "char \<Rightarrow> bool" where
  "is_alnum c = (let n = (of_char c :: nat) in 48 \<le> n \<and> n \<le> 57 \<or> 65 \<le> n \<and> n \<le> 90 \<or> 97 \<le> n \<and> n \<le> 122)"

fun slug_loop :: "string \<Rightarrow> string \<Rightarrow> string" where
  "slug_loop [] out = out"
| "slug_loop (c # cs) out =
    (if is_alnum c then slug_loop cs (out @ [tolower c])
     else if out \<noteq> '''' \<and> last out \<noteq> CHR ''-'' then slug_loop cs (out @ ''-'')
     else slug_loop cs out)"

definition slug :: "string \<Rightarrow> string" where
  "slug name =
    (let out = rev (dropWhile (\<lambda>c. c = CHR ''-'') (rev (slug_loop name '''')))
     in if out = '''' then ''gpu'' else out)"

definition report_file :: "string \<Rightarrow> bool \<Rightarrow> string \<Rightarrow> string" where
  "report_file gpu_name whole_rig today = ''report-'' @ (if whole_rig then ''rig'' else slug gpu_name) @ ''-'' @ today @ ''.md''"

definition report_default_path :: "user_env \<Rightarrow> string \<Rightarrow> bool \<Rightarrow> string \<Rightarrow> string" where
  "report_default_path u gpu_name whole_rig today = config_dir u @ ''/mxbm/'' @ report_file gpu_name whole_rig today"

text \<open>
  The file system as functions on paths: the absolute path or why there is none, what is a
  directory, the parent, an entry of a directory, the normal form, and whether the directories can be made.
\<close>

record file_system =
  fs_absolute :: "string \<Rightarrow> string + string"
  fs_is_directory :: "string \<Rightarrow> bool"
  fs_parent :: "string \<Rightarrow> string"
  fs_entry :: "string \<Rightarrow> string \<Rightarrow> string"
  fs_normal :: "string \<Rightarrow> string"
  fs_create :: "string \<Rightarrow> string option"

definition expand_home :: "user_env \<Rightarrow> string \<Rightarrow> string" where
  "expand_home u w =
    (case w of
       c # d # r \<Rightarrow>
         if c = CHR ''~'' \<and> (d = CHR ''/'' \<or> d = CHR 0x5C)
         then (case given (ue_home u) of Some h \<Rightarrow> h @ d # r | None \<Rightarrow> w) else w
     | _ \<Rightarrow> w)"

definition report_resolve_path ::
    "file_system \<Rightarrow> user_env \<Rightarrow> string \<Rightarrow> string \<Rightarrow> bool \<Rightarrow> string \<Rightarrow> string + string" where
  "report_resolve_path fs u requested gpu_name whole_rig today =
    (let w = expand_home u (if requested = '''' then report_default_path u gpu_name whole_rig today else requested)
     in case fs_absolute fs w of
          Inl e \<Rightarrow> Inl (''cannot resolve '' @ squote w @ '': '' @ e)
        | Inr p \<Rightarrow>
            let p = (if fs_is_directory fs p then fs_entry fs p (report_file gpu_name whole_rig today) else p)
            in if fs_parent fs p = '''' then Inr (fs_normal fs p)
               else case fs_create fs (fs_parent fs p) of
                 None \<Rightarrow> Inr (fs_normal fs p)
               | Some e \<Rightarrow>
                   if fs_is_directory fs (fs_parent fs p) then Inr (fs_normal fs p)
                   else Inl (''cannot create '' @ fs_parent fs p @ '': '' @ e))"

text \<open>Writing: whether the file opens, and whether it is written to the end.\<close>

definition report_write :: "bool \<Rightarrow> bool \<Rightarrow> string \<Rightarrow> string option" where
  "report_write opens written path =
    (if \<not> opens then Some (''cannot write '' @ path) else if \<not> written then Some (''failed while writing '' @ path) else None)"

section \<open>A report's name is a file name\<close>

definition name_char :: "char \<Rightarrow> bool" where
  "name_char c = (let n = (of_char c :: nat) in 48 \<le> n \<and> n \<le> 57 \<or> 97 \<le> n \<and> n \<le> 122)"

definition hyphens_single :: "string \<Rightarrow> bool" where
  "hyphens_single s = list_all (\<lambda>(a, b). a \<noteq> CHR ''-'' \<or> b \<noteq> CHR ''-'') (zip s (tl s))"

definition slugged :: "string \<Rightarrow> bool" where
  "slugged out = (list_all (\<lambda>c. name_char c \<or> c = CHR ''-'') out \<and> (out \<noteq> '''' \<longrightarrow> hd out \<noteq> CHR ''-'') \<and> hyphens_single out)"

lemma lower_name: "is_alnum c \<Longrightarrow> name_char (tolower c)"
  by (auto simp: is_alnum_def name_char_def tolower_def Let_def)

lemma hyphen_no_name: "\<not> name_char CHR ''-''"
  by (simp add: name_char_def)

lemma hyphens_snoc:
  "hyphens_single (s @ [c]) \<longleftrightarrow> hyphens_single s \<and> (s \<noteq> '''' \<longrightarrow> last s \<noteq> CHR ''-'' \<or> c \<noteq> CHR ''-'')"
proof (induction s)
  case (Cons a s)
  then show ?case by (cases s) (auto simp: hyphens_single_def)
qed (simp add: hyphens_single_def)

lemma slugged_snoc:
  "slugged (s @ [c]) \<longleftrightarrow> slugged s \<and> (name_char c \<or> c = CHR ''-'') \<and> (s = '''' \<or> last s = CHR ''-'' \<longrightarrow> c \<noteq> CHR ''-'')"
proof -
  have "hd (s @ [c]) = (if s = '''' then c else hd s)" by (cases s) simp_all
  then show ?thesis by (auto simp: slugged_def hyphens_snoc)
qed

lemma slug_loop_slugged: "slugged out \<Longrightarrow> slugged (slug_loop name out)"
proof (induction name arbitrary: out)
  case (Cons c cs)
  have "slugged (out @ [tolower c])" if "is_alnum c"
    using Cons.prems lower_name [OF that] hyphen_no_name by (auto simp: slugged_snoc)
  moreover have "slugged (out @ ''-'')" if "out \<noteq> ''''" "last out \<noteq> CHR ''-''"
    using Cons.prems that by (simp add: slugged_snoc)
  ultimately show ?case using Cons.IH Cons.prems by simp
qed simp

lemma slugged_butlast: "slugged (s @ t) \<Longrightarrow> slugged s"
proof (induction t rule: rev_induct)
  case (snoc x xs)
  from snoc.prems have "slugged ((s @ xs) @ [x])" by simp
  then have "slugged (s @ xs)" by (simp only: slugged_snoc)
  then show ?case by (rule snoc.IH)
qed simp

text \<open>
  Whatever a card calls itself, its part of a report's name is a plain file name: not empty, of lower
  case letters, digits and hyphens, with no hyphen at either end and no two in a row, so the file
  lands in the directory it was meant for.
\<close>
theorem slug_is_file_name:
  "slug name \<noteq> '''' \<and> list_all (\<lambda>c. name_char c \<or> c = CHR ''-'') (slug name) \<and> hd (slug name) \<noteq> CHR ''-'' \<and>
    last (slug name) \<noteq> CHR ''-'' \<and> hyphens_single (slug name)"
proof -
  let ?o = "slug_loop name ''''"
  let ?s = "rev (dropWhile (\<lambda>c. c = CHR ''-'') (rev ?o))"
  have "slugged ''''" by (simp add: slugged_def hyphens_single_def)
  then have "slugged ?o" by (rule slug_loop_slugged)
  moreover have "?o = ?s @ rev (takeWhile (\<lambda>c. c = CHR ''-'') (rev ?o))"
    by (simp only: rev_append [symmetric] takeWhile_dropWhile_id rev_rev_ident)
  ultimately have s: "slugged ?s" by (metis slugged_butlast)
  show ?thesis
  proof (cases "?s = ''''")
    case True
    then show ?thesis by (simp add: slug_def name_char_def hyphens_single_def)
  next
    case False
    then have d: "dropWhile (\<lambda>c. c = CHR ''-'') (rev ?o) \<noteq> ''''" by simp
    have "last ?s = hd (dropWhile (\<lambda>c. c = CHR ''-'') (rev ?o))" by (simp only: last_rev)
    with hd_dropWhile [OF d] have "last ?s \<noteq> CHR ''-''" by simp
    moreover have "slug name = ?s" unfolding slug_def Let_def by (simp only: False if_False)
    ultimately show ?thesis using s False by (simp only: slugged_def simp_thms)
  qed
qed

text \<open>
  A sweep run under sudo is found by the unprivileged run: when \<open>XDG_CONFIG_HOME\<close> is not set for
  either and \<open>HOME\<close> is the user's home directory, both use the same store.
\<close>
theorem sudo_store_is_users:
  assumes "ue_xdg_config_home r = None" "ue_root r" "ue_sudo_user r = Some name" "name \<noteq> ''''" "ue_home_of r name = Some home"
    and "ue_xdg_config_home u = None" "\<not> ue_root u" "ue_home u = Some home" "home \<noteq> ''''"
  shows "tune_store_path r = tune_store_path u"
  using assms by (simp add: tune_store_path_def config_dir_def given_def)

definition user_jo :: user_env where
  "user_jo = \<lparr>ue_xdg_config_home = None, ue_root = False, ue_sudo_user = None,
     ue_home_of = (\<lambda>n. if n = ''jo'' then Some ''/home/jo'' else None), ue_home = Some ''/home/jo''\<rparr>"

definition sudo_jo :: user_env where
  "sudo_jo = user_jo\<lparr>ue_root := True, ue_sudo_user := Some ''jo'', ue_home := Some ''/root''\<rparr>"

theorem sudo_store_is_users_witness: "tune_store_path sudo_jo = tune_store_path user_jo"
  by (rule sudo_store_is_users [of _ "''jo''" "''/home/jo''"]) (simp_all add: sudo_jo_def user_jo_def)

text \<open>With \<open>XDG_CONFIG_HOME\<close> set, which sudo does not pass on, the daily run looks elsewhere.\<close>

lemma xdg_store_lost: "tune_store_path (user_jo\<lparr>ue_xdg_config_home := Some ''/home/jo/cfg''\<rparr>) \<noteq> tune_store_path sudo_jo"
  by (simp add: tune_store_path_def config_dir_def given_def sudo_jo_def user_jo_def)

section \<open>The report\<close>

text \<open>The bytes of the characters beyond ASCII.\<close>

definition em_dash :: string where "em_dash = [CHR 0xE2, CHR 0x80, CHR 0x94]"
definition en_dash :: string where "en_dash = [CHR 0xE2, CHR 0x80, CHR 0x93]"
definition degree_sign :: string where "degree_sign = [CHR 0xC2, CHR 0xB0]"
definition middle_dot :: string where "middle_dot = [CHR 0xC2, CHR 0xB7]"
definition plus_minus :: string where "plus_minus = [CHR 0xC2, CHR 0xB1]"

definition report_curve_fresh :: "string \<Rightarrow> string \<Rightarrow> bool" where
  "report_curve_fresh stored running =
    (if stored = '''' \<or> running = '''' then False else if contains ''[nogit]'' running then False else stored = running)"

definition u_dec :: "u32 \<Rightarrow> string" where
  "u_dec w = dec (unat w)"

definition plus_fixed :: "nat \<Rightarrow> double \<Rightarrow> string" where
  "plus_fixed p x = (if x < 0 then '''' else ''+'') @ fixed p x"

definition row_line :: "string \<Rightarrow> string \<Rightarrow> string" where
  "row_line key v = ''| '' @ key @ '' | '' @ v @ '' |'' @ newline"

definition only_if :: "bool \<Rightarrow> string \<Rightarrow> string" where
  "only_if b s = (if b then s else '''')"

definition curve_cell :: "tune_point list \<Rightarrow> tune_point \<Rightarrow> string" where
  "curve_cell against p =
    fold (\<lambda>q cell. if tp_cap_w q = tp_cap_w p \<and> tp_sol_s q > 0
        then plus_fixed 1 (dmul (ddiv (dsub (tp_sol_s p) (tp_sol_s q)) (tp_sol_s q)) 100) @ '' %'' else cell)
      against em_dash"

definition curve_row :: "tune_point list option \<Rightarrow> tune_point \<Rightarrow> string" where
  "curve_row against p =
    ''| '' @ u_dec (tp_cap_w p) @ '' | '' @ fixed 1 (tp_draw_w p) @ '' | '' @ fixed 2 (tp_sol_s p) @ '' | '' @
    fixed 2 (tp_median_ms p) @ '' | '' @ fixed 4 (eff_or_0 p) @ '' |'' @
    (case against of None \<Rightarrow> '''' | Some qs \<Rightarrow> '' '' @ curve_cell qs p @ '' |'') @ newline"

definition curve_table :: "tune_point list \<Rightarrow> string \<Rightarrow> tune_point list option \<Rightarrow> string" where
  "curve_table pts title against =
    (if pts = [] then ''''
     else newline @ ''<details>'' @ newline @ ''<summary>'' @ title @ '' ('' @ dec (length pts) @ '' points)</summary>'' @
       newline @ newline @ ''| cap W | draw W | sol/s | ms/solve | sol/s/W |'' @ only_if (against \<noteq> None) '' vs stock |'' @
       newline @ ''|---|---|---|---|---|'' @ only_if (against \<noteq> None) ''---|'' @ newline @
       concat (map (curve_row against) (by_cap_desc pts)) @ ''</details>'' @ newline)"

text \<open>What is known about the card and the machine.\<close>

record report_facts =
  rp_version :: string
  rp_nvml_name :: string
  rp_device_name :: string
  rp_position :: u32
  rp_count :: u32
  rp_vram_total :: "u64 option"
  rp_have_nvml :: bool
  rp_driver :: string
  rp_os :: string
  rp_backend :: string
  rp_geometry :: string
  rp_limit :: "power_limit option"
  rp_display :: bool
  rp_processes :: "u32 option"
  rp_device_facts :: "(string \<times> string) list"
  rp_stages :: "(string \<times> double) list"

definition report_head :: "report_facts \<Rightarrow> tel_summary \<Rightarrow> string" where
  "report_head f t =
    ''### MXBM benchmark report'' @ newline @ newline @ ''| | |'' @ newline @ ''|---|---|'' @ newline @
    row_line ''MXBM'' (rp_version f) @
    row_line ''GPU'' ((if rp_nvml_name f = '''' then rp_device_name f else rp_nvml_name f) @
      only_if (rp_count f > 1) ('' (GPU '' @ u_dec (rp_position f) @ '' of '' @ u_dec (rp_count f) @
        '' on this rig; the rest are not covered by this report)'')) @
    (case rp_vram_total f of None \<Rightarrow> '''' | Some b \<Rightarrow> row_line ''VRAM'' (mebibytes b @ '' MiB'')) @
    only_if (rp_have_nvml f \<and> rp_driver f \<noteq> '''') (row_line ''Driver'' (rp_driver f)) @
    row_line ''OS'' (rp_os f) @
    row_line ''Backend'' (if rp_backend f = ''Cuda'' then ''CUDA'' else rp_backend f) @
    only_if (rp_geometry f \<noteq> '''') (row_line ''Geometry'' (rp_geometry f)) @
    (case rp_limit f of None \<Rightarrow> ''''
     | Some pl \<Rightarrow> row_line ''Board power limit'' (u_dec (pl_current_w pl) @ '' W (card default '' @ u_dec (pl_default_w pl) @
         '' W, driver band '' @ u_dec (pl_min_w pl) @ en_dash @ u_dec (pl_max_w pl) @ '' W)'')) @
    (case sy_mem_clock_mhz t of None \<Rightarrow> '''' | Some m \<Rightarrow> row_line ''Memory clock'' (u_dec m @ '' MHz'')) @
    only_if (rp_have_nvml f) (row_line ''Display attached to this GPU'' (if rp_display f then ''**yes**'' else ''no'')) @
    (case rp_processes f of None \<Rightarrow> ''''
     | Some n \<Rightarrow> row_line ''Other processes on this GPU''
         (if n > 1 then ''**'' @ u_dec (n - 1) @ ''** - this run measured contention'' else ''none''))"

definition report_detail :: "(string \<times> string) list \<Rightarrow> string" where
  "report_detail fs =
    only_if (fs \<noteq> [])
      (newline @ ''<details>'' @ newline @ ''<summary>Device and kernel detail</summary>'' @ newline @ newline @ ''| | |'' @ newline @
       ''|---|---|'' @ newline @ concat (map (\<lambda>(label, v). row_line label v) fs) @ ''</details>'' @ newline)"

definition clock_event_names :: "(u64 \<times> string) list" where
  "clock_event_names =
    [(0x2, ''app_clocks_setting''), (0x4, ''sw_power_cap''), (0x8, ''hw_slowdown''), (0x10, ''sync_boost''),
     (0x20, ''sw_thermal''), (0x40, ''hw_thermal''), (0x80, ''hw_power_brake''), (0x100, ''display_clock_setting'')]"

definition events_text :: "u64 \<Rightarrow> string" where
  "events_text evs =
    (let seen = fold (\<lambda>(bit, name) s. if evs AND bit \<noteq> 0 then s @ only_if (s \<noteq> '''') '', '' @ name else s) clock_event_names ''''
     in if seen = '''' then ''nothing'' else seen)"

definition report_throughput :: "bench_result \<Rightarrow> tel_summary \<Rightarrow> string" where
  "report_throughput r t =
    newline @ ''### Throughput '' @ em_dash @ '' '' @ fixed 1 (br_elapsed_s r) @ '' s, '' @ dec (unat (br_solves r)) @ '' solves'' @
    newline @ newline @ ''| | |'' @ newline @ ''|---|---|'' @ newline @
    row_line ''Throughput'' (''**'' @ fixed 2 (br_sol_per_s r) @ '' sol/s**'') @
    row_line ''Solve time'' (fixed 2 (br_median_ms r) @ '' ms median (p5 '' @ fixed 2 (br_p5_ms r) @ '', p95 '' @ fixed 2 (br_p95_ms r) @ '')'') @
    row_line ''Verified solutions/solve'' (fixed 2 (br_per_solve_avg r)) @
    (case sy_power_w t of None \<Rightarrow> ''''
     | Some p \<Rightarrow> row_line ''Board power'' (fixed 1 p @ '' W mean'' @
         (case sy_joules t of None \<Rightarrow> '''' | Some j \<Rightarrow> '' (card energy counter, '' @ fixed 1 (ddiv j 1000) @ '' kJ over the run)''))) @
    (case sy_sm_clock_mhz t of None \<Rightarrow> '''' | Some m \<Rightarrow> row_line ''Core clock'' (u_dec m @ '' MHz median'')) @
    (case sy_mem_clock_mhz t of None \<Rightarrow> '''' | Some m \<Rightarrow> row_line ''Memory clock'' (u_dec m @ '' MHz median'')) @
    (case sy_temp_c t of None \<Rightarrow> '''' | Some c \<Rightarrow> row_line ''Temperature'' (u_dec c @ '' '' @ degree_sign @ ''C median'')) @
    (case sy_power_w t of None \<Rightarrow> ''''
     | Some p \<Rightarrow> only_if (p > 0 \<and> br_solutions r > 0)
         (row_line ''Efficiency'' (fixed 4 (ddiv (br_sol_per_s r) p) @ '' sol/s/W '' @ middle_dot @ '' '' @
           fixed 2 (case sy_joules t of Some j \<Rightarrow> ddiv j (d_of_nat (unat (br_solutions r))) | None \<Rightarrow> ddiv p (br_sol_per_s r)) @
           '' J/solution''))) @
    (case sy_events t of None \<Rightarrow> '''' | Some m \<Rightarrow> row_line ''Clocks limited by'' (events_text m)) @
    only_if (br_solves r < 100)
      (newline @ ''> Fewer than 100 solves '' @ em_dash @ '' too short to quote a margin. Re-run with `--report-seconds 300`.'' @ newline)"

definition report_stages :: "(string \<times> double) list \<Rightarrow> double \<Rightarrow> string" where
  "report_stages stages wall =
    (let gpu_ms = fold (\<lambda>s g. dadd g (snd s)) stages 0
     in only_if (stages \<noteq> [])
       (newline @ ''<details>'' @ newline @ ''<summary>Where the solve goes '' @ em_dash @ '' GPU time per stage, medians</summary>'' @
        newline @ newline @ ''| stage | ms | share |'' @ newline @ ''|---|---|---|'' @ newline @
        concat (map (\<lambda>(name, ms). ''| '' @ name @ '' | '' @ fixed 2 ms @ '' | '' @
          fixed 1 (if gpu_ms > 0 then ddiv (dmul 100 ms) gpu_ms else 0) @ '' % |'' @ newline) stages) @
        ''| **GPU total** | **'' @ fixed 2 gpu_ms @ ''** | (solve wall '' @ fixed 2 wall @ '') |'' @ newline @ ''</details>'' @ newline))"

text \<open>The curve: what is stored, or why there is none.\<close>

definition stored_by :: "tune_store option \<Rightarrow> string" where
  "stored_by st =
    (case st of None \<Rightarrow> ''an unstamped build''
     | Some e \<Rightarrow> if ts_mxbm_version e = '''' then ''an unstamped build'' else ts_mxbm_version e)"

definition curve_note :: "tune_store option \<Rightarrow> string \<Rightarrow> string" where
  "curve_note st ver = ''> Curve measured by '' @ stored_by st @ ''; the throughput above is '' @ ver @ ''.'' @ newline @ newline"

definition report_verdict :: "tune_store \<Rightarrow> string" where
  "report_verdict st =
    ''| | |'' @ newline @ ''|---|---|'' @ newline @
    only_if (ts_recommended_w st \<noteq> 0) (''| Recommended `--pl` | **'' @ u_dec (ts_recommended_w st) @ '' W** '' @ em_dash @
      '' past this, extra watts buy almost no speed |'' @ newline) @
    only_if (ts_eff_w st \<noteq> 0) (''| Most efficient `--pl` | **'' @ u_dec (ts_eff_w st) @ '' W**'' @
      only_if (ts_eff_on_rung st \<and> ts_rung_mhz st \<noteq> 0) ('' with `--mclk '' @ u_dec (ts_rung_mhz st) @ ''`'') @ '' |'' @ newline) @
    (if ts_rung_mhz st \<noteq> 0 \<and> ts_rung_below_w st \<noteq> 0 then
       ''| Low memory clock | below ~'' @ u_dec (ts_rung_below_w st) @ '' W, `--mclk '' @ u_dec (ts_rung_mhz st) @
       ''` measured faster on this card |'' @ newline
     else only_if (ts_points_rung st \<noteq> []) (''| Low memory clock | never paid at the measured caps '' @ em_dash @
       '' keep stock memory |'' @ newline)) @
    ''| Drift over the sweep | '' @ plus_fixed 2 (ts_drift_pct st) @ '' % (first cap re-measured last'' @
    (if \<bar>ts_drift_pct st\<bar> > 3 / 2 then '', **above the 1.5 % gauge '' @ em_dash @ '' read the table as '' @ plus_minus @ '' that**''
     else '', under the 1.5 % gauge'') @ '') |'' @ newline"

definition report_curve :: "tune_store option \<Rightarrow> bool \<Rightarrow> string \<Rightarrow> bool \<Rightarrow> string" where
  "report_curve st fresh ver can_tune =
    (case st of
       Some e \<Rightarrow>
         if ts_points e \<noteq> [] then
           newline @ ''### Power curve '' @ em_dash @ '' measured on this card, '' @ ts_date e @ '', '' @
           dec (length (ts_points e) + length (ts_points_rung e)) @ '' points'' @ newline @ newline @
           only_if (\<not> fresh) (curve_note st ver) @ report_verdict e @
           curve_table (ts_points e) (''Full curve '' @ em_dash @ '' stock memory'') None @
           curve_table (ts_points_rung e) (''Full curve '' @ em_dash @ '' '' @ u_dec (ts_rung_mhz e) @ '' MHz memory clock'')
             (Some (ts_points e))
         else if \<not> can_tune then
           newline @ ''### Power curve'' @ newline @ newline @
           ''Not measured: setting the power limit needs root. Re-running there adds the curve.'' @ newline
         else newline @ ''### Power curve'' @ newline @ newline @ ''Not measured (the sweep was interrupted).'' @ newline
     | None \<Rightarrow>
         if \<not> can_tune then
           newline @ ''### Power curve'' @ newline @ newline @
           ''Not measured: setting the power limit needs root. Re-running there adds the curve.'' @ newline
         else newline @ ''### Power curve'' @ newline @ newline @ ''Not measured (the sweep was interrupted).'' @ newline)"

definition report_tail :: string where
  "report_tail = newline @ ''### Anything unusual?'' @ newline @ newline @
    ''_Overclock/undervolt, laptop/eGPU/risers, unusual cooling, another miner'' @ [CHR 0x27] @ ''s'' @ newline @
    ''figure on this card. Delete this line if it was a clean stock run._'' @ newline"

definition report_block :: "report_facts \<Rightarrow> tel_summary \<Rightarrow> bench_result \<Rightarrow> tune_store option \<Rightarrow> bool \<Rightarrow> bool \<Rightarrow> string" where
  "report_block f t r st fresh can_tune =
    report_head f t @ report_detail (rp_device_facts f) @ report_throughput r t @ report_stages (rp_stages f) (br_median_ms r) @
    report_curve st fresh (rp_version f) can_tune @ report_tail"

section \<open>The run of a report\<close>

text \<open>
  The world around a report: the tuner's (whose stop flag is the run's), the benchmark with its
  telemetry and stage times (what the solver threw, or the result), what the card and the machine say of
  themselves afterwards, and how the tuner's store is written.
\<close>

record 'hw report_env =
  re_tune :: "'hw tune_env"
  re_bench :: "'hw \<Rightarrow> (string + bench_result \<times> tel_summary \<times> (string \<times> double) list) \<times> 'hw"
  re_facts :: "'hw \<Rightarrow> report_facts"
  re_dir_made :: bool
  re_opened :: bool
  re_date :: string

record report_config =
  rc_device :: nat
  rc_device_key :: string
  rc_have_nvml :: bool
  rc_tune :: tune_config

text \<open>Whether the store may be republished as this build's.\<close>

definition curve_fresh :: "tune_store option \<Rightarrow> string \<Rightarrow> bool" where
  "curve_fresh st ver = (case st of None \<Rightarrow> False | Some e \<Rightarrow> report_curve_fresh (ts_mxbm_version e) ver)"

text \<open>The sweep of a report: the hardware and the store after it, \<open>None\<close> where the sweep does not return
  or an exception of the solver in it ends the process.\<close>

definition report_sweep ::
    "'hw report_env \<Rightarrow> report_config \<Rightarrow> string \<Rightarrow> 'hw \<Rightarrow> json option \<Rightarrow> ('hw \<times> json option) option" where
  "report_sweep env cfg ver hw stored =
    (let tc = (rc_tune cfg)\<lparr>tc_device := rc_device cfg\<rparr>
     in case run_tune (re_tune env) tc hw of
          None \<Rightarrow> None
        | Some (Threw e, hw) \<Rightarrow> None
        | Some (Failed1, hw) \<Rightarrow> Some (hw, stored)
        | Some (Concluded r, hw) \<Rightarrow>
            Some (hw, snd (tune_save (re_dir_made env) (re_opened env) stored (rc_device_key cfg) (tc_min_gain tc) (re_date env) ver r)))"

text \<open>
  \<open>run_report\<close> for the running version \<open>ver\<close>: the block (\<open>None\<close> for exit code 1), the hardware and the
  store.
\<close>

definition run_report ::
    "'hw report_env \<Rightarrow> report_config \<Rightarrow> string \<Rightarrow> bool \<Rightarrow> 'hw \<Rightarrow> json option \<Rightarrow> (string option \<times> 'hw \<times> json option) option" where
  "run_report env cfg ver solver hw stored =
    (if \<not> solver then Some (None, hw, stored)
     else let st = tune_load stored (rc_device_key cfg); fresh = curve_fresh st ver
     in case (if rc_have_nvml cfg then tune_can_write (te_ops (re_tune env)) (rc_device cfg) hw else (False, hw)) of (can_tune, hw) \<Rightarrow>
        case re_bench env hw of
          (Inl what, hw) \<Rightarrow> Some (None, hw, stored)
        | (Inr (r, t, stages), hw) \<Rightarrow>
            let block = (\<lambda>hw st fresh.
              report_block ((re_facts env hw)\<lparr>rp_version := ver, rp_stages := stages\<rparr>) t r st fresh can_tune)
            in if \<not> fresh \<and> can_tune \<and> \<not> te_stopped (re_tune env) hw then
                 (case report_sweep env cfg ver hw stored of
                    None \<Rightarrow> None
                  | Some (hw, stored) \<Rightarrow>
                      let st = tune_load stored (rc_device_key cfg)
                      in Some (Some (block hw st (curve_fresh st ver)), hw, stored))
               else Some (Some (block hw st fresh), hw, stored))"

definition block_of :: "string \<Rightarrow> tune_store option \<Rightarrow> bool \<Rightarrow> string \<Rightarrow> bool" where
  "block_of ver st fresh block \<longleftrightarrow> (\<exists>f t r can. rp_version f = ver \<and> block = report_block f t r st fresh can)"

lemma block_ofI: "block_of ver st fresh (report_block (f\<lparr>rp_version := ver, rp_stages := sg\<rparr>) t r st fresh can)"
  unfolding block_of_def by (rule exI [of _ "f\<lparr>rp_version := ver, rp_stages := sg\<rparr>"]) auto

lemma run_report_block:
  assumes "run_report env cfg ver solver hw stored = Some (Some block, hw', stored')"
  shows "block_of ver (tune_load stored' (rc_device_key cfg)) (curve_fresh (tune_load stored' (rc_device_key cfg)) ver) block"
proof -
  obtain can h1 where c: "(if rc_have_nvml cfg then tune_can_write (te_ops (re_tune env)) (rc_device cfg) hw else (False, hw)) = (can, h1)"
    by (metis prod.exhaust)
  obtain b h2 where b: "re_bench env h1 = (b, h2)" by (cases "re_bench env h1")
  from assms show ?thesis
    unfolding run_report_def Let_def c
    by (auto simp: b block_ofI simp del: curve_fresh_def split: if_splits sum.splits option.splits)
qed

lemma sublist_prepend: "sublist n y \<Longrightarrow> sublist n (x @ y)" and sublist_append: "sublist n x \<Longrightarrow> sublist n (x @ y)"
  by (meson sublist_append_leftI sublist_append_rightI sublist_order.order.trans)+

lemma curve_note_shown:
  assumes "\<not> fresh" "ts_points e \<noteq> []"
  shows "sublist (curve_note (Some e) ver) (report_curve (Some e) fresh ver can)"
proof -
  have n: "sublist (curve_note (Some e) ver) (only_if (\<not> fresh) (curve_note (Some e) ver))"
    using assms(1) by (simp add: only_if_def)
  show ?thesis
    unfolding report_curve_def option.case if_P [OF assms(2)] by ((rule sublist_append, rule n) | rule sublist_prepend)+
qed

text \<open>
  C37: A report never passes off another build's curve as this one's: whenever it publishes a stored curve,
  the entry was stamped by exactly the running version, which is not an unstamped build, or the block
  carries the line that names the build that measured it beside the one that is running. This holds
  however the sweep ended: not needed, refused, interrupted, stored, or not written.
\<close>
theorem report_curve_labelled:
  assumes "run_report env cfg ver solver hw stored = Some (Some block, hw', stored')"
    and "tune_load stored' (rc_device_key cfg) = Some e" "ts_points e \<noteq> []"
  shows "ts_mxbm_version e = ver \<and> ver \<noteq> '''' \<and> \<not> contains ''[nogit]'' ver \<or> sublist (curve_note (Some e) ver) block"
proof -
  from run_report_block [OF assms(1)] assms(2) obtain f t r can
    where f: "rp_version f = ver" "block = report_block f t r (Some e) (curve_fresh (Some e) ver) can"
    by (auto simp: block_of_def)
  show ?thesis
  proof (cases "curve_fresh (Some e) ver")
    case True
    then show ?thesis by (simp add: curve_fresh_def report_curve_fresh_def split: if_splits)
  next
    case False
    note n = curve_note_shown [OF this assms(3)]
    show ?thesis
      unfolding f(2) report_block_def f(1) by (rule disjI2) ((rule sublist_append, rule n) | rule sublist_prepend)+
  qed
qed

text \<open>A store written by 3.0, reported by 3.1 on a machine whose driver is not reachable.\<close>

definition sample_facts :: report_facts where
  "sample_facts = \<lparr>rp_version = '''', rp_nvml_name = '''', rp_device_name = ''card'', rp_position = 0, rp_count = 1,
     rp_vram_total = None, rp_have_nvml = False, rp_driver = '''', rp_os = ''Linux'', rp_backend = ''Cuda'', rp_geometry = '''',
     rp_limit = None, rp_display = False, rp_processes = None, rp_device_facts = [], rp_stages = []\<rparr>"

definition sample_bench_result :: bench_result where
  "sample_bench_result = \<lparr>br_solves = 200, br_solutions = 400, br_elapsed_s = 100, br_sol_per_s = 4, br_solves_per_s = 2,
     br_per_solve_avg = 2, br_median_ms = 500, br_p5_ms = 490, br_p95_ms = 510\<rparr>"

definition sample_report_env :: "(nat \<Rightarrow> card) report_env" where
  "sample_report_env = \<lparr>re_tune = sample_env, re_bench = (\<lambda>hw. (Inr (sample_bench_result, sample_summary 10501, []), hw)),
     re_facts = (\<lambda>hw. sample_facts), re_dir_made = True, re_opened = True, re_date = ''2026-01-02 00:00''\<rparr>"

definition sample_report_config :: report_config where
  "sample_report_config = \<lparr>rc_device = 0, rc_device_key = ''b@2'', rc_have_nvml = False, rc_tune = sample_config\<rparr>"

theorem report_curve_labelled_witness:
  "\<exists>stored block hw' stored'.
    run_report sample_report_env sample_report_config ''3.1'' True (\<lambda>_. sim_card) stored = Some (Some block, hw', stored') \<and>
    sublist (curve_note (tune_load stored' ''b@2'') ''3.1'') block"
proof -
  let ?e = "stored_entry 1 ''2026-01-01 00:00'' ''3.0'' sample_result"
  define stored where "stored = snd (tune_save True True None ''b@2'' (Fin 1) ''2026-01-01 00:00'' ''3.0'' sample_result)"
  have "tune_save True True None ''b@2'' (Fin 1) ''2026-01-01 00:00'' ''3.0'' sample_result = (True, stored)"
    by (simp add: stored_def tune_save_def)
  from load_saved [OF this TrueI] have l: "tune_load stored ''b@2'' = Some ?e" by (simp add: entry_back)
  have e: "ts_points ?e \<noteq> []" "ts_mxbm_version ?e \<noteq> ''3.1''" by (simp_all add: stored_entry_def sample_result_def sample_points_def)
  obtain block where r: "run_report sample_report_env sample_report_config ''3.1'' True (\<lambda>_. sim_card) stored =
      Some (Some block, (\<lambda>_. sim_card), stored)"
    by (simp add: run_report_def sample_report_env_def sample_report_config_def Let_def)
  have "tune_load stored (rc_device_key sample_report_config) = Some ?e" using l by (simp add: sample_report_config_def)
  from report_curve_labelled [OF r this e(1)] e(2) have "sublist (curve_note (Some ?e) ''3.1'') block" by auto
  with r l show ?thesis by (intro exI [of _ stored] exI [of _ block] exI [of _ "\<lambda>_. sim_card"]) simp
qed

section \<open>The report mode\<close>

text \<open>
  The report of src/main.cpp: which card on a rig of several is for the user to say, and the selected
  cards are measured one after another, each with a solver built for it.
\<close>

definition report_which :: "options \<Rightarrow> tune_config \<Rightarrow> joined_card list \<Rightarrow> string list option" where
  "report_which x tc cards =
    (if length cards \<le> 1 \<or> o_devices x \<noteq> '''' then None
     else let widest = foldr (\<lambda>c m. max (length (jc_name c)) m) cards 0
     in Some ((''--report measures one GPU at a time, and this rig has '' @ dec (length cards) @ ''. Say which, or ask for all of them:'') #
       map (\<lambda>(i, c). ''    --devices '' @ dec i @ ''    '' @ jc_name c @
           only_if (jc_pci c \<noteq> '''') (replicate (widest - length (jc_name c) + 2) CHR '' '' @ ''('' @ jc_pci c @ '')''))
         (enumerate 0 cards) @
       [''    --devices ALL  every card, one after another (~'' @ int_dec (tune_estimated_minutes tc 6) @ '' min each)'']))"

text \<open>
  The run over the cards: the solver and the card it is on, the hardware and the store, the exit code and
  the blocks collected, with the runs made and the solver each was given. The stop flag is read
  off the hardware; a solver's construction may depend on it.
\<close>

record 'hw report_run =
  rr_solver :: "built option"
  rr_positions :: "nat list"
  rr_name :: string
  rr_driver :: string
  rr_hw :: 'hw
  rr_stored :: "json option"
  rr_rc :: int
  rr_collected :: string
  rr_log :: "(nat \<times> built option) list"

record 'hw report_rig =
  rg_options :: options
  rg_build :: build
  rg_nvml :: bool
  rg_cards :: "joined_card list"
  rg_builders :: "'hw \<Rightarrow> builders"
  rg_stopped :: "'hw \<Rightarrow> bool"
  rg_env :: "nat \<Rightarrow> 'hw report_env"
  rg_key :: "nat \<Rightarrow> string \<Rightarrow> string"
  rg_tune :: tune_config
  rg_version :: string

definition build_on :: "'hw report_rig \<Rightarrow> 'hw \<Rightarrow> nat \<Rightarrow> built option" where
  "build_on rg hw pos = fst (make_solver (rg_options rg) (rg_build rg) (rg_nvml rg) (rg_builders rg hw) (rg_cards rg) pos)"

definition on_card :: "'hw report_rig \<Rightarrow> nat \<Rightarrow> 'hw report_run \<Rightarrow> bool \<times> 'hw report_run" where
  "on_card rg pos s =
    (if rr_positions s \<noteq> [] \<and> hd (rr_positions s) = pos then (True, s)
     else case build_on rg (rr_hw s) pos of
            None \<Rightarrow> (False, s\<lparr>rr_solver := None, rr_rc := 1\<rparr>)
          | Some b \<Rightarrow> (True, s\<lparr>rr_name := bu_name b, rr_driver := bu_driver b, rr_solver := Some b, rr_positions := [pos]\<rparr>))"

text \<open>The world of one card's report: the rig's stop flag, and the card's place among the cards.\<close>

definition card_env :: "'hw report_rig \<Rightarrow> nat \<Rightarrow> 'hw report_run \<Rightarrow> 'hw report_env" where
  "card_env rg pos s =
    (let env = rg_env rg pos
     in env\<lparr>re_tune := (re_tune env)\<lparr>te_stopped := rg_stopped rg\<rparr>,
         re_facts := (\<lambda>hw. (re_facts env hw)\<lparr>rp_device_name := rr_name s,
           rp_backend := (if rr_driver s = '''' then ''unknown'' else rr_driver s), rp_have_nvml := rg_nvml rg,
           rp_position := word_of_nat pos,
           rp_count := (if rg_cards rg = [] then 1 else word_of_nat (length (rg_cards rg)))\<rparr>)\<rparr>)"

definition report_card :: "'hw report_rig \<Rightarrow> nat \<Rightarrow> 'hw report_run \<Rightarrow> 'hw report_run option" where
  "report_card rg pos s =
    (let cfg = \<lparr>rc_device = pos, rc_device_key = rg_key rg pos (rr_name s), rc_have_nvml = rg_nvml rg,
           rc_tune = (rg_tune rg)\<lparr>tc_device := pos\<rparr>\<rparr>
     in case run_report (card_env rg pos s) cfg (rg_version rg) (rr_solver s \<noteq> None) (rr_hw s) (rr_stored s) of
          None \<Rightarrow> None
        | Some (block, hw, stored) \<Rightarrow>
            Some (s\<lparr>rr_hw := hw, rr_stored := stored, rr_log := rr_log s @ [(pos, rr_solver s)],
              rr_rc := (case block of None \<Rightarrow> 1 | Some _ \<Rightarrow> rr_rc s),
              rr_collected := rr_collected s @ the_default '''' block\<rparr>))"

fun report_cards :: "'hw report_rig \<Rightarrow> nat list \<Rightarrow> 'hw report_run \<Rightarrow> 'hw report_run option" where
  "report_cards rg [] s = Some s"
| "report_cards rg (pos # ps) s =
    (if pos \<ge> length (rg_cards rg) then report_cards rg ps s
     else case on_card rg pos s of
            (False, s) \<Rightarrow> report_cards rg ps s
          | (True, s) \<Rightarrow>
              (case report_card rg pos s of
                 None \<Rightarrow> None
               | Some s \<Rightarrow> if rg_stopped rg (rr_hw s) then Some s else report_cards rg ps s))"

text \<open>Before the rest \<open>ps\<close> of the selection: the solver at hand is none of theirs, or is built for the first of them.\<close>

definition at_hand :: "'hw report_rig \<Rightarrow> nat list \<Rightarrow> 'hw report_run \<Rightarrow> bool" where
  "at_hand rg ps s \<longleftrightarrow>
    rr_positions s = [] \<or> hd (rr_positions s) \<notin> set ps \<or>
    ps \<noteq> [] \<and> hd (rr_positions s) = hd ps \<and> rr_solver s \<noteq> None \<and> (\<exists>hw. rr_solver s = build_on rg hw (hd ps))"

definition built_for :: "'hw report_rig \<Rightarrow> nat \<times> built option \<Rightarrow> bool" where
  "built_for rg e \<longleftrightarrow> snd e \<noteq> None \<and> (\<exists>hw. snd e = build_on rg hw (fst e))"

lemma on_card_fits:
  assumes "on_card rg pos s = (ok, t)" "at_hand rg (pos # ps) s" "distinct (pos # ps)"
  shows "rr_log t = rr_log s" "rr_rc t = 0 \<Longrightarrow> rr_rc s = 0 \<and> ok" "at_hand rg ps t"
    "ok \<Longrightarrow> built_for rg (pos, rr_solver t) \<and> rr_positions t \<noteq> [] \<and> hd (rr_positions t) = pos"
  using assms by (auto simp: on_card_def at_hand_def built_for_def split: if_splits option.splits) metis+

lemma report_card_log:
  assumes "report_card rg pos s = Some t"
  shows "rr_log t = rr_log s @ [(pos, rr_solver s)]" "rr_positions t = rr_positions s" "rr_rc t = 0 \<Longrightarrow> rr_rc s = 0"
  using assms by (auto simp: report_card_def Let_def split: option.splits)

lemma report_cards_log:
  assumes "report_cards rg ps s = Some t" "at_hand rg ps s" "distinct ps"
  shows "\<exists>l. rr_log t = rr_log s @ l \<and> list_all (built_for rg) l \<and> subseq (map fst l) ps \<and>
    (rr_rc t = 0 \<longrightarrow> rr_rc s = 0 \<and> (rg_stopped rg (rr_hw t) \<or> map fst l = filter (\<lambda>p. p < length (rg_cards rg)) ps))"
  using assms
proof (induction rg ps s rule: report_cards.induct)
  case (1 rg s)
  then show ?case by (intro exI [of _ "[]"]) simp
next
  case (2 rg pos ps s)
  show ?case
  proof (cases "pos \<ge> length (rg_cards rg)")
    case True
    have "at_hand rg ps s" using 2(5,6) by (auto simp: at_hand_def)
    with 2(1) [OF True] 2(4,6) True obtain l where
      "rr_log t = rr_log s @ l" "list_all (built_for rg) l" "subseq (map fst l) ps"
      "rr_rc t = 0 \<longrightarrow> rr_rc s = 0 \<and> (rg_stopped rg (rr_hw t) \<or> map fst l = filter (\<lambda>p. p < length (rg_cards rg)) ps)"
      by auto
    with True show ?thesis by (intro exI [of _ l]) auto
  next
    case False
    obtain ok u where u: "on_card rg pos s = (ok, u)" by (metis prod.exhaust)
    note F = on_card_fits [OF u 2(5,6)]
    show ?thesis
    proof (cases ok)
      case no: False
      with 2(3) [OF False u [symmetric]] 2(4,6) F(3) False u no obtain l where
        "rr_log t = rr_log u @ l" "list_all (built_for rg) l" "subseq (map fst l) ps" "rr_rc t = 0 \<longrightarrow> rr_rc u = 0" by auto
      with F(1,2) no show ?thesis by (intro exI [of _ l]) auto
    next
      case ok: True
      with 2(4) False u obtain v where v: "report_card rg pos u = Some v"
        and t: "(if rg_stopped rg (rr_hw v) then Some v else report_cards rg ps v) = Some t"
        by (auto split: option.splits)
      note L = report_card_log [OF v]
      show ?thesis
      proof (cases "rg_stopped rg (rr_hw v)")
        case True
        with t L F ok show ?thesis by (intro exI [of _ "[(pos, rr_solver u)]"]) (auto simp: built_for_def)
      next
        case go: False
        have "at_hand rg ps v" using F(4) [OF ok] L(2) 2(6) by (auto simp: at_hand_def)
        with 2(2) [OF False u [symmetric] _ v go] ok t go 2(6) obtain l where
          "rr_log t = rr_log v @ l" "list_all (built_for rg) l" "subseq (map fst l) ps"
          "rr_rc t = 0 \<longrightarrow> rr_rc v = 0 \<and> (rg_stopped rg (rr_hw t) \<or> map fst l = filter (\<lambda>p. p < length (rg_cards rg)) ps)"
          by auto
        with L F ok False show ?thesis by (intro exI [of _ "(pos, rr_solver u) # l"]) auto
      qed
    qed
  qed
qed

text \<open>The run begins with the solver the launch built, which is the first selected card's or on no card of the table.\<close>

definition report_start :: "launch \<Rightarrow> 'hw \<Rightarrow> json option \<Rightarrow> 'hw report_run" where
  "report_start l w stored =
    \<lparr>rr_solver = la_solver l, rr_positions = la_positions l, rr_name = la_name l, rr_driver = la_driver l, rr_hw = w,
     rr_stored = stored, rr_rc = 0, rr_collected = '''', rr_log = []\<rparr>"

lemma start_at_hand:
  assumes "l = build_solvers (rg_options rg) (rg_build rg) hw (rg_builders rg w) (rg_cards rg) sel" "measure_mode (rg_options rg)"
    and "rg_nvml rg = have_nvml (rg_options rg) (rg_build rg) hw (rg_cards rg) sel"
  shows "at_hand rg sel (report_start l w' stored)"
proof (cases "la_positions l = []")
  case True
  then show ?thesis by (simp add: at_hand_def report_start_def)
next
  case False
  let ?mk = "\<lambda>p. fst (make_solver (rg_options rg) (rg_build rg) (rg_nvml rg) (rg_builders rg w) (rg_cards rg) p)"
  note B = built_in_step [OF assms(1) False assms(3)]
  from B(2) assms(2) False obtain p ps where sel: "sel = p # ps" "la_positions l = [p]" by (cases sel) (auto split: if_splits)
  from B(1) sel(2) have "la_solver l = ?mk p" "?mk p \<noteq> None"
    by (auto simp: in_step_def engine_solvers_def split: option.splits)
  then have "la_solver l \<noteq> None \<and> la_solver l = build_on rg w p" by (simp add: build_on_def)
  with sel show ?thesis by (auto simp: at_hand_def report_start_def) metis
qed

text \<open>
  C38: A report is of the cards it names: on a rig with a table of cards, the runs of a report are on
  different selected cards in the order of the selection, each with a solver built for that very card
  and never one left over from another; and when it was not stopped and exits with code 0, every
  selected card of the table was reported, none skipped.
\<close>
theorem report_covers_cards:
  assumes "l = build_solvers (rg_options rg) (rg_build rg) hw (rg_builders rg w) (rg_cards rg) sel"
    and "measure_mode (rg_options rg)" "rg_nvml rg = have_nvml (rg_options rg) (rg_build rg) hw (rg_cards rg) sel"
    and "distinct sel" "report_cards rg sel (report_start l w' stored) = Some t"
  shows "list_all (built_for rg) (rr_log t) \<and> subseq (map fst (rr_log t)) sel \<and>
    (rr_rc t = 0 \<and> \<not> rg_stopped rg (rr_hw t) \<longrightarrow> map fst (rr_log t) = filter (\<lambda>p. p < length (rg_cards rg)) sel)"
proof -
  from report_cards_log [OF assms(5) start_at_hand [OF assms(1-3)] assms(4)] obtain k where
    "rr_log t = rr_log (report_start l w' stored) @ k" "list_all (built_for rg) k" "subseq (map fst k) sel"
    "rr_rc t = 0 \<longrightarrow> rg_stopped rg (rr_hw t) \<or> map fst k = filter (\<lambda>p. p < length (rg_cards rg)) sel"
    by blast
  then show ?thesis by (auto simp: report_start_def)
qed

text \<open>
  On a machine without a table of cards, Apple's or one with the CPU reference only, the mode
  reports nothing and says with its exit code that it did.
\<close>

lemma no_table_no_report:
  assumes "rg_cards rg = []"
  shows "report_cards rg sel s = Some s"
  using assms by (induction sel) simp_all

text \<open>The second and the third of three cards, without NVML.\<close>

definition sample_rig :: "(nat \<Rightarrow> card) report_rig" where
  "sample_rig = \<lparr>rg_options = options0\<lparr>o_report := True\<rparr>, rg_build = sample_build, rg_nvml = False, rg_cards = sample_cards,
     rg_builders = (\<lambda>w. sample_builders), rg_stopped = (\<lambda>w. False), rg_env = (\<lambda>pos. sample_report_env),
     rg_key = (\<lambda>pos name. name @ ''@'' @ dec pos), rg_tune = sample_config, rg_version = ''3.1''\<rparr>"

definition sample_launch :: launch where
  "sample_launch = build_solvers (options0\<lparr>o_report := True\<rparr>) sample_build (sample_hardware\<lparr>hw_nvml := None\<rparr>)
     sample_builders sample_cards [1, 2]"

lemma sample_launch: "la_positions sample_launch = [1]" "la_solver sample_launch = Some \<lparr>bu_name = ''B'', bu_mem = 8, bu_driver = ''OpenCL''\<rparr>"
  by code_simp+

lemma sample_third: "build_on sample_rig w 2 = Some \<lparr>bu_name = ''C'', bu_mem = 16, bu_driver = ''Cuda''\<rparr>"
proof -
  have "build_on sample_rig (\<lambda>_ :: nat. sim_card) 2 = Some \<lparr>bu_name = ''C'', bu_mem = 16, bu_driver = ''Cuda''\<rparr>" by code_simp
  then show ?thesis by (simp add: build_on_def sample_rig_def)
qed

lemma sample_card_report:
  assumes "rr_solver s \<noteq> None"
  obtains t where "report_card sample_rig pos s = Some t" "rr_log t = rr_log s @ [(pos, rr_solver s)]" "rr_rc t = rr_rc s"
    "rr_positions t = rr_positions s"
  using assms
  by (auto simp: report_card_def sample_rig_def card_env_def sample_report_env_def run_report_def Let_def)

lemma sample_run:
  assumes "rr_positions s = [1]" "rr_solver s \<noteq> None" "rr_rc s = 0" "rr_log s = []"
  shows "\<exists>t. report_cards sample_rig [1, 2] s = Some t \<and> map fst (rr_log t) = [1, 2] \<and> rr_rc t = 0"
proof -
  have c: "length (rg_cards sample_rig) = 3" "rg_stopped sample_rig = (\<lambda>_. False)" by (simp_all add: sample_rig_def sample_cards_def)
  obtain u where u: "report_card sample_rig 1 s = Some u" "rr_log u = rr_log s @ [(1, rr_solver s)]" "rr_rc u = rr_rc s"
      "rr_positions u = rr_positions s"
    using sample_card_report [OF assms(2)] .
  obtain v where v: "on_card sample_rig 2 u = (True, v)" "rr_rc v = 0" "map fst (rr_log v) = [1]" "rr_solver v \<noteq> None"
    using u(2-4) assms by (simp add: on_card_def sample_third)
  obtain t where t: "report_card sample_rig 2 v = Some t" "rr_log t = rr_log v @ [(2, rr_solver v)]" "rr_rc t = rr_rc v"
    using sample_card_report [OF v(4)] by metis
  have "on_card sample_rig 1 s = (True, s)" using assms(1) by (simp add: on_card_def)
  then have "report_cards sample_rig [1, 2] s = Some t"
    using u(1) v(1) t(1) by (simp add: c)
  with t v show ?thesis by simp
qed

theorem report_covers_cards_witness:
  "\<exists>t. report_cards sample_rig [1, 2] (report_start sample_launch (\<lambda>_. sim_card) None) = Some t \<and>
    list_all (built_for sample_rig) (rr_log t) \<and> map fst (rr_log t) = [1, 2] \<and> rr_rc t = 0"
proof -
  let ?s = "report_start sample_launch (\<lambda>_ :: nat. sim_card) None"
  have "rr_positions ?s = [1]" "rr_solver ?s \<noteq> None" "rr_rc ?s = 0" "rr_log ?s = []"
    by (simp_all add: report_start_def sample_launch)
  from sample_run [OF this] obtain t
    where t: "report_cards sample_rig [1, 2] ?s = Some t" "map fst (rr_log t) = [1, 2]" "rr_rc t = 0" by (elim exE conjE) (rule that)
  have l: "sample_launch = build_solvers (rg_options sample_rig) (rg_build sample_rig) (sample_hardware\<lparr>hw_nvml := None\<rparr>)
      (rg_builders sample_rig (\<lambda>_. sim_card)) (rg_cards sample_rig) [1, 2]"
    by (simp add: sample_launch_def sample_rig_def)
  have m: "measure_mode (rg_options sample_rig)" and d: "distinct [1 :: nat, 2]" by (simp_all add: sample_rig_def measure_mode_def)
  have n: "rg_nvml sample_rig = have_nvml (rg_options sample_rig) (rg_build sample_rig) (sample_hardware\<lparr>hw_nvml := None\<rparr>)
      (rg_cards sample_rig) [1, 2]"
    by (simp add: sample_rig_def have_nvml_def)
  note c = report_covers_cards [OF l m n d t(1), THEN conjunct1]
  show ?thesis by (rule exI [of _ t]) (intro conjI t c)
qed

end
