(* ===== verification/Http.thy ===== *)
theory Http
  imports Launch
begin

text \<open>
  The HTTP endpoint (src/api/http_summary.cpp): start and stop, the accept loop, one connection, and
  the JSON of the statistics. Sockets are scripts of outcomes; the printer of the JSON library and the
  static page are arguments. Shown: the answer to a request does not depend on how the network
  cuts it, and however the sends go a client that follows the Content-Length reads exactly the body or
  knows that it did not; a reading that is not there is null and never a number.
\<close>

section \<open>Responses and requests\<close>

definition crlf :: string where
  "crlf = [CHR 0x0D, CHR 0x0A]"

definition kMaxRequestBytes :: nat where "kMaxRequestBytes = 4096"
definition kChunkBytes :: nat where "kChunkBytes = 1024"

definition http_response :: "nat \<Rightarrow> string \<Rightarrow> string option \<Rightarrow> string \<Rightarrow> string" where
  "http_response code reason content_type body =
    ''HTTP/1.1 '' @ dec code @ '' '' @ reason @ crlf @
    (case content_type of None \<Rightarrow> '''' | Some t \<Rightarrow> ''Content-Type: '' @ t @ crlf) @
    ''Content-Length: '' @ dec (length body) @ crlf @ ''Connection: close'' @ crlf @ crlf @ body"

text \<open>
  The bytes that go out: the script holds what each \<open>send\<close> returns, in order. One takes some of what is
  left, the next goes on behind it, and the first that takes nothing ends it, the socket being dead.
\<close>

fun send_all :: "int list \<Rightarrow> string \<Rightarrow> string" where
  "send_all [] s = ''''"
| "send_all (n # ns) s =
    (if s = '''' then '''' else if n \<le> 0 then '''' else take (nat n) s @ send_all ns (drop (nat n) s))"

text \<open>Method and target of a request line.\<close>

definition parse_request_line :: "string \<Rightarrow> (string \<times> string) option" where
  "parse_request_line line =
    (let m = takeWhile (\<lambda>c. c \<noteq> CHR '' '') line
     in if m = line \<or> m = '''' then None
        else let t = takeWhile (\<lambda>c. c \<noteq> CHR '' '') (drop (length m + 1) line)
        in if t = '''' then None else Some (m, t))"

definition route_path :: "string \<Rightarrow> string" where
  "route_path target = takeWhile (\<lambda>c. c \<noteq> CHR ''?'' \<and> c \<noteq> CHR ''#'') target"

text \<open>What stands before the first occurrence.\<close>

fun before :: "string \<Rightarrow> string \<Rightarrow> string" where
  "before t [] = []"
| "before t (c # cs) = (if has_prefix t (c # cs) then [] else c # before t cs)"

definition answer :: "string \<Rightarrow> string \<Rightarrow> string \<Rightarrow> string" where
  "answer summary page line =
    (case parse_request_line line of
       None \<Rightarrow> http_response 400 ''Bad Request'' None ''''
     | Some (meth, target) \<Rightarrow>
         let path = route_path target
         in if meth = ''GET'' \<and> path = ''/summary'' then http_response 200 ''OK'' (Some ''application/json'') summary
            else if meth = ''GET'' \<and> (path = ''/'' \<or> path = ''/index.html'')
            then http_response 200 ''OK'' (Some ''text/html; charset=utf-8'') page
            else http_response 404 ''Not Found'' None '''')"

text \<open>The bytes received, one chunk per \<open>recv\<close>; an empty chunk is a time-out, an error or the peer's close.\<close>

definition header_done :: "string \<Rightarrow> bool" where
  "header_done buf = contains (crlf @ crlf) buf"

fun read_head :: "string list \<Rightarrow> string \<Rightarrow> string" where
  "read_head [] buf = buf"
| "read_head (c # cs) buf =
    (if header_done buf \<or> length buf \<ge> kMaxRequestBytes \<or> c = '''' then buf else read_head cs (buf @ c))"

section \<open>The server\<close>

record http_server =
  hs_started :: bool
  hs_listening :: bool
  hs_port :: u16
  hs_version :: string

definition http_server0 :: http_server where
  "http_server0 = \<lparr>hs_started = False, hs_listening = False, hs_port = 0, hs_version = ''''\<rparr>"

text \<open>The calls of a start: which of them succeed, and the port the socket is bound to.\<close>

record http_start_outcome =
  ho_startup :: bool
  ho_socket :: bool
  ho_bind :: bool
  ho_listen :: bool
  ho_name :: "u16 option"
  ho_signal :: bool

text \<open>The result, the server after, and how many sockets were opened and closed.\<close>

definition http_start ::
    "(string \<Rightarrow> bool) \<Rightarrow> http_start_outcome \<Rightarrow> string \<Rightarrow> string \<Rightarrow> http_server \<Rightarrow> bool \<times> http_server \<times> nat \<times> nat" where
  "http_start valid_ip oc version host s =
    (if hs_started s then (True, s, 0, 0)
     else if \<not> valid_ip (if host = '''' then ''0.0.0.0'' else host) then (False, s, 0, 0)
     else if \<not> ho_startup oc then (False, s, 0, 0)
     else if \<not> ho_socket oc then (False, s, 0, 0)
     else if \<not> ho_bind oc then (False, s, 1, 1)
     else if \<not> ho_listen oc then (False, s, 1, 1)
     else case ho_name oc of
       None \<Rightarrow> (False, s, 1, 1)
     | Some port \<Rightarrow>
         if \<not> ho_signal oc then (False, s, 1, 1)
         else (True, s\<lparr>hs_version := version, hs_listening := True, hs_port := port, hs_started := True\<rparr>, 1, 0))"

definition http_stop :: "http_server \<Rightarrow> http_server" where
  "http_stop s = (if \<not> hs_started s then s else s\<lparr>hs_listening := False, hs_started := False\<rparr>)"

section \<open>The summary\<close>

definition j_u64 :: "u64 \<Rightarrow> json" where
  "j_u64 w = JInt (uint w)"

definition or_null :: "('a \<Rightarrow> json) \<Rightarrow> 'a option \<Rightarrow> json" where
  "or_null f v = (case v of None \<Rightarrow> JNull | Some x \<Rightarrow> f x)"

definition series_json :: "series \<Rightarrow> json" where
  "series_json s =
    (if ser_n s = 0
     then jfields [(''N'', JInt 0), (''Mean'', JNull), (''Stddev'', JNull), (''Min'', JNull), (''Max'', JNull)]
     else jfields [(''N'', j_u64 (ser_n s)), (''Mean'', JFloat (ser_mean s)), (''Stddev'', JFloat (series_stddev s)),
       (''Min'', JFloat (ser_min s)), (''Max'', JFloat (ser_max s))])"

definition worker_json :: "nat \<Rightarrow> device \<Rightarrow> json" where
  "worker_json i d = jfields
    [(''Index'', JInt (int i)), (''Name'', JString (dv_label d)), (''Performance'', JFloat (dv_sol60 d)),
     (''Iterations_s'', JFloat (dv_iter60 d)), (''Accepted'', j_u64 (dv_accepted d)), (''Stale'', j_u64 (dv_stale d)),
     (''Rejected'', j_u64 (dv_rejected d)), (''Best_Share'', JFloat (dv_best_share_units d)),
     (''Power_W'', or_null JFloat (dv_power_w d)), (''Core_Clock_MHz'', or_null j_unsigned (dv_sm_clock_mhz d)),
     (''Mem_Clock_MHz'', or_null j_unsigned (dv_mem_clock_mhz d)), (''Temp_C'', or_null j_unsigned (dv_temp_c d)),
     (''Fan_Pct'', or_null j_unsigned (dv_fan_pct d)), (''Paused'', JBool (dv_paused d))]"

definition lone_worker :: "snap \<Rightarrow> json" where
  "lone_worker s = jfields
    [(''Index'', JInt 0), (''Name'', JString (sn_device_label s)), (''Performance'', JFloat (sn_sol60 s)),
     (''Iterations_s'', JFloat (sn_iter60 s)),
     (''Power_W'', or_null JFloat (sn_power_w s)), (''Core_Clock_MHz'', or_null j_unsigned (sn_sm_clock_mhz s)),
     (''Mem_Clock_MHz'', or_null j_unsigned (sn_mem_clock_mhz s)), (''Temp_C'', or_null j_unsigned (sn_temp_c s)),
     (''Fan_Pct'', or_null j_unsigned (sn_fan_pct s))]"

definition workers_json :: "snap \<Rightarrow> json list" where
  "workers_json s =
    (if sn_devices s = [] then [lone_worker s] else map (\<lambda>(i, d). worker_json i d) (enumerate 0 (sn_devices s)))"

definition session_json :: "snap \<Rightarrow> json" where
  "session_json s = jfields
    [(''Uptime_Human'', JString (format_uptime (nat (sn_uptime s)))), (''Uptime_s'', JInt (sn_uptime s)),
     (''Speed_15s'', JFloat (sn_sol15 s)), (''Speed_60s'', JFloat (sn_sol60 s)), (''Speed_Session'', JFloat (sn_sol_session s)),
     (''Pool_Speed_Session'', JFloat (sn_pool_sol_session s)), (''Accepted'', j_u64 (sn_accepted s)),
     (''Stale'', j_u64 (sn_stale s)), (''Rejected'', j_u64 (sn_rejected s)), (''Best_Share'', JFloat (sn_best_share_units s)),
     (''Job_Difficulty'', JFloat (sn_last_job_units s)), (''Job_Id'', JString (sn_last_job_id s))]"

definition stratum_json :: "snap \<Rightarrow> json" where
  "stratum_json s = jfields
    [(''Current_Pool'', JString (sn_pool s)), (''Latency_ms'', JInt (sn_last_latency_ms s)), (''Reconnects'', j_u64 (sn_reconnects s))]"

definition devfee_json :: "snap \<Rightarrow> json" where
  "devfee_json s = jfields
    [(''Rate'', JFloat (sn_devfee_rate s)), (''Active'', JBool (sn_devfee_active s)), (''Rounds'', j_u64 (sn_devfee_slices s)),
     (''Seconds'', JFloat (sn_devfee_seconds s)), (''Accepted'', j_u64 (sn_devfee_accepted s)),
     (''Stale'', j_u64 (sn_devfee_stale s)), (''Rejected'', j_u64 (sn_devfee_rejected s))]"

definition session_stats_json :: "series_set \<Rightarrow> json" where
  "session_stats_json ss = jfields
    [(''Speed_15s'', series_json (ss_sol15 ss)), (''Speed_60s'', series_json (ss_sol60 ss)),
     (''Iterations_s'', series_json (ss_iter60 ss)), (''Power_W'', series_json (ss_power_w ss)),
     (''Core_Clock_MHz'', series_json (ss_sm_clock_mhz ss)), (''Mem_Clock_MHz'', series_json (ss_mem_clock_mhz ss)),
     (''Temp_C'', series_json (ss_temp_c ss)), (''Fan_Pct'', series_json (ss_fan_pct ss))]"

definition share_json :: "recent_share \<Rightarrow> json" where
  "share_json r = jfields [(''Age_s'', JFloat (rs_age_s r)), (''Difficulty'', JFloat (rs_units r)),
     (''Target'', JFloat (rs_target r)), (''Dev'', JBool (rs_dev r))]"

text \<open>\<open>energy\<close> is the card's counter in millijoules, where it has one.\<close>

definition build_body :: "string \<Rightarrow> u64 option \<Rightarrow> snap \<Rightarrow> json" where
  "build_body version energy s = jfields
    [(''Software'', JString (''MXBM '' @ version)), (''Mining'', jfields [(''Algorithm'', JString ''BeamHash III'')]),
     (''Session'', session_json s),
     (''Energy_J'', or_null (\<lambda>mj. JFloat (ddiv (d_of_nat (unat mj)) 1000)) energy),
     (''Workers'', JArray (workers_json s)), (''Stratum'', stratum_json s), (''DevFee'', devfee_json s),
     (''Session_Stats'', session_stats_json (sn_series s)), (''Recent_Shares'', JArray (map share_json (sn_recent_shares s)))]"

section \<open>Connections\<close>

text \<open>
  A connection: what its \<open>recv\<close> calls deliver, the statistics and the energy counter at the time of the
  answer, and what its \<open>send\<close> calls return. Handling it gives the bytes that go out before it is closed.
\<close>

record conn =
  cn_chunks :: "string list"
  cn_energy :: "u64 option"
  cn_snap :: snap
  cn_sends :: "int list"

definition handle_connection :: "(json \<Rightarrow> string) \<Rightarrow> string \<Rightarrow> string \<Rightarrow> conn \<Rightarrow> string" where
  "handle_connection dump page version c =
    (let buf = read_head (cn_chunks c) ''''
     in if header_done buf
        then send_all (cn_sends c) (answer (dump (build_body version (cn_energy c) (cn_snap c))) page (before crlf buf))
        else '''')"

text \<open>One return of \<open>poll\<close>: it failed (transiently or not), or what is ready. The bytes sent, per connection.\<close>

datatype accepted = Accepted conn | AcceptTransient | AcceptFailed

datatype polled = PollFailed bool | PollReady bool "accepted option"

fun accept_loop :: "(json \<Rightarrow> string) \<Rightarrow> string \<Rightarrow> string \<Rightarrow> polled list \<Rightarrow> string list" where
  "accept_loop dump page version [] = []"
| "accept_loop dump page version (PollFailed transient # ps) = (if transient then accept_loop dump page version ps else [])"
| "accept_loop dump page version (PollReady stop ready # ps) =
    (if stop then []
     else case ready of
       None \<Rightarrow> accept_loop dump page version ps
     | Some (Accepted c) \<Rightarrow> handle_connection dump page version c # accept_loop dump page version ps
     | Some AcceptTransient \<Rightarrow> accept_loop dump page version ps
     | Some AcceptFailed \<Rightarrow> [])"

section \<open>The framing of a response\<close>

text \<open>A client: the status line and as many bytes after the head as the head announces.\<close>

definition http_read :: "string \<Rightarrow> (string \<times> string) option" where
  "http_read s =
    (if \<not> contains (crlf @ crlf) s then None
     else let top = before (crlf @ crlf) s; rest = drop (length top + 4) s
     in case find (has_prefix ''Content-Length: '') (split_on (CHR 0x0A) top) of
          None \<Rightarrow> None
        | Some l \<Rightarrow>
            let n = undec (takeWhile is_digit (drop 16 l))
            in if n \<le> length rest then Some (before crlf top, take n rest) else None)"

definition one_line :: "string \<Rightarrow> bool" where
  "one_line s = (CHR 0x0D \<notin> set s \<and> CHR 0x0A \<notin> set s)"

lemma before_skip: "CHR 0x0D \<notin> set l \<Longrightarrow> before (CHR 0x0D # t) (l @ s) = l @ before (CHR 0x0D # t) s"
  by (induction l) auto

lemma contains_skip: "contains t s \<Longrightarrow> contains t (l @ s)"
  by (induction l) auto

lemma before_next: "c \<noteq> CHR 0x0D \<Longrightarrow> before (crlf @ crlf) (crlf @ c # s) = crlf @ before (crlf @ crlf) (c # s)"
  by (simp add: crlf_def)

lemma before_here: "before (crlf @ crlf) (crlf @ crlf @ s) = ''''"
  by (simp add: crlf_def)

lemma one_line_simps [simp]:
  "one_line ''''" "one_line (c # s) \<longleftrightarrow> c \<noteq> CHR 0x0D \<and> c \<noteq> CHR 0x0A \<and> one_line s"
  "one_line (s @ t) \<longleftrightarrow> one_line s \<and> one_line t"
  by (auto simp: one_line_def)

lemma one_line_dec [simp]: "one_line (dec n)"
  using dec_digits [of "CHR 0x0D" n] dec_digits [of "CHR 0x0A" n] by (auto simp: one_line_def is_digit_def)

lemma before_line: "one_line l \<Longrightarrow> before (crlf @ t) (l @ s) = l @ before (crlf @ t) s"
  using before_skip [of l "CHR 0x0A # t" s] by (simp add: one_line_def crlf_def)

lemma split_line: "one_line l \<Longrightarrow> split_on (CHR 0x0A) (l @ crlf @ s) = (l @ [CHR 0x0D]) # split_on (CHR 0x0A) s"
  using split_on_join [of "CHR 0x0A" "l @ [CHR 0x0D]" s] by (simp add: one_line_def crlf_def)

lemma length_field_read:
  "undec (takeWhile is_digit (drop 16 (''Content-Length: '' @ dec n @ [CHR 0x0D]))) = n"
proof -
  have "takeWhile is_digit (dec n @ [CHR 0x0D]) = dec n"
    using dec_digits [of _ n] by (simp add: takeWhile_append takeWhile_dec) (simp add: is_digit_def)
  then show ?thesis by simp
qed

text \<open>A head as its lines, none of which is empty.\<close>

fun joined :: "string list \<Rightarrow> string" where
  "joined [] = ''''"
| "joined [l] = l"
| "joined (l # m # ls) = l @ crlf @ joined (m # ls)"

definition solid :: "string \<Rightarrow> bool" where
  "solid l = (one_line l \<and> l \<noteq> '''')"

lemma joined_starts:
  assumes "solid m" "crlf @ joined (m # ls) @ s = r"
  shows "before (crlf @ crlf) r = crlf @ before (crlf @ crlf) (joined (m # ls) @ s)"
proof -
  obtain c m' where m: "m = c # m'" "c \<noteq> CHR 0x0D" using assms(1) by (cases m) (auto simp: solid_def)
  obtain u where "joined (m # ls) @ s = c # u" using m(1) by (cases ls) auto
  with before_next [OF m(2)] assms(2) show ?thesis by metis
qed

lemma joined_found:
  "list_all solid ls \<Longrightarrow> ls \<noteq> [] \<Longrightarrow> before (crlf @ crlf) (joined ls @ crlf @ crlf @ s) = joined ls"
proof (induction ls rule: joined.induct)
  case (2 l)
  then have "before (crlf @ crlf) (l @ crlf @ crlf @ s) = l @ before (crlf @ crlf) (crlf @ crlf @ s)"
    by (intro before_line) (simp add: solid_def)
  then show ?case by (simp only: joined.simps before_here append_Nil2)
next
  case (3 l m ls)
  then have l: "one_line l" and m: "solid m" and IH: "before (crlf @ crlf) (joined (m # ls) @ crlf @ crlf @ s) = joined (m # ls)"
    by (simp_all add: solid_def)
  have "before (crlf @ crlf) (l @ crlf @ joined (m # ls) @ crlf @ crlf @ s) =
      l @ before (crlf @ crlf) (crlf @ joined (m # ls) @ crlf @ crlf @ s)"
    by (rule before_line [OF l])
  also have "\<dots> = l @ crlf @ joined (m # ls)" by (simp only: joined_starts [OF m refl] IH)
  finally show ?case by simp
qed simp

lemma joined_first: "one_line l \<Longrightarrow> before crlf (joined (l # m # ls)) = l"
  using before_line [of l "''''" "crlf @ joined (m # ls)"] by (simp add: crlf_def)

lemma joined_split:
  "list_all solid ls \<Longrightarrow> ls \<noteq> [] \<Longrightarrow> split_on (CHR 0x0A) (joined ls) = map (\<lambda>l. l @ [CHR 0x0D]) (butlast ls) @ [last ls]"
proof (induction ls rule: joined.induct)
  case (2 l)
  then show ?case by (simp add: solid_def one_line_def split_on_none)
next
  case (3 l m ls)
  then show ?case by (simp add: solid_def split_line)
qed simp

definition head_lines :: "nat \<Rightarrow> string \<Rightarrow> string option \<Rightarrow> nat \<Rightarrow> string list" where
  "head_lines code reason content_type n =
    [''HTTP/1.1 '' @ dec code @ '' '' @ reason] @
    (case content_type of None \<Rightarrow> [] | Some t \<Rightarrow> [''Content-Type: '' @ t]) @
    [''Content-Length: '' @ dec n, ''Connection: close'']"

lemma response_split:
  "http_response code reason content_type body = joined (head_lines code reason content_type (length body)) @ crlf @ crlf @ body"
  by (simp add: http_response_def head_lines_def split: option.split)

lemma head_solid:
  "one_line reason \<Longrightarrow> (case content_type of None \<Rightarrow> True | Some t \<Rightarrow> one_line t) \<Longrightarrow>
    list_all solid (head_lines code reason content_type n)"
  by (simp add: head_lines_def solid_def split: option.splits)

lemma prefix_contains: "has_prefix t s \<Longrightarrow> contains t s"
  by (cases s; cases t) simp_all

lemma contains_here: "contains t (t @ s)"
proof -
  have "has_prefix t (t @ s)" by (induction t) auto
  then show ?thesis by (rule prefix_contains)
qed

lemma framing:
  assumes "one_line reason" "case content_type of None \<Rightarrow> True | Some t \<Rightarrow> one_line t"
  shows "http_read (http_response code reason content_type body @ rest_bytes) = Some (''HTTP/1.1 '' @ dec code @ '' '' @ reason, body)"
proof -
  let ?ls = "head_lines code reason content_type (length body)"
  let ?len = "''Content-Length: '' @ dec (length body) @ [CHR 0x0D]"
  have ne: "?ls \<noteq> []" by (simp add: head_lines_def)
  have r: "http_response code reason content_type body @ rest_bytes = joined ?ls @ crlf @ crlf @ body @ rest_bytes"
    by (simp add: response_split)
  have c: "contains (crlf @ crlf) (joined ?ls @ crlf @ crlf @ body @ rest_bytes)"
    using contains_skip [OF contains_here [of "crlf @ crlf" "body @ rest_bytes"], of "joined ?ls"] by simp
  note top = joined_found [OF head_solid [OF assms] ne]
  have rest: "drop (length (joined ?ls) + 4) (joined ?ls @ crlf @ crlf @ body @ rest_bytes) = body @ rest_bytes" by (simp add: crlf_def)
  have f: "find (has_prefix ''Content-Length: '') (split_on (CHR 0x0A) (joined ?ls)) = Some ?len"
    unfolding joined_split [OF head_solid [OF assms] ne] by (simp add: head_lines_def split: option.split)
  have first: "before crlf (joined ?ls) = ''HTTP/1.1 '' @ dec code @ '' '' @ reason"
    using assms(1) by (simp add: head_lines_def joined_first del: joined.simps split: option.split)
  show ?thesis
    unfolding http_read_def r top rest f Let_def option.case length_field_read first using c by simp
qed

text \<open>
  C32: A client reads exactly what the server sends: from the bytes of a response, followed by whatever the
  connection carries next, a client that looks for the end of the head and trusts the announced
  length gets the status line and the body, byte for byte, whatever the body holds (blank lines or
  another head included).
\<close>
theorem response_framing:
  assumes "one_line reason" "case content_type of None \<Rightarrow> True | Some t \<Rightarrow> one_line t"
  shows "http_read (http_response code reason content_type body @ rest_bytes) = Some (''HTTP/1.1 '' @ dec code @ '' '' @ reason, body)"
  using assms by (rule framing)

theorem response_framing_witness:
  "http_read (http_response 200 ''OK'' (Some ''application/json'') (crlf @ crlf) @ ''next'') = Some (''HTTP/1.1 200 OK'', crlf @ crlf)"
proof -
  have d: "dec 200 = ''200''" by code_simp
  show ?thesis
    using response_framing [of "''OK''" "Some ''application/json''" 200 "crlf @ crlf" "''next''"] by (simp add: d)
qed

section \<open>A request in pieces\<close>

lemma has_prefix_append: "has_prefix t s \<Longrightarrow> has_prefix t (s @ u)"
  by (induction t s rule: has_prefix.induct) auto

lemma has_prefix_take: "length t \<le> length s \<Longrightarrow> has_prefix t (s @ u) = has_prefix t s"
  by (induction t s rule: has_prefix.induct) auto

lemma has_prefix_length: "has_prefix t s \<Longrightarrow> length t \<le> length s"
  by (induction t s rule: has_prefix.induct) auto

lemma contains_length: "contains t s \<Longrightarrow> length t \<le> length s"
  by (induction s) (auto dest: has_prefix_length)

lemma contains_append: "contains t s \<Longrightarrow> contains t (s @ u)"
proof (induction s)
  case Nil
  then show ?case by (simp add: prefix_contains)
next
  case (Cons c s)
  then show ?case using has_prefix_append [of t "c # s" u] by auto
qed

lemma before_append: "contains t s \<Longrightarrow> before t (s @ u) = before t s"
proof (induction s)
  case Nil
  then show ?case by (cases u) auto
next
  case (Cons c s)
  have "length t \<le> length (c # s)" using contains_length [OF Cons.prems] .
  from has_prefix_take [OF this, of u] Cons show ?case by auto
qed

lemma contains_part: "contains (t @ r) s \<Longrightarrow> contains t s"
proof (induction s)
  case (Cons c s)
  have "has_prefix (t @ r) v \<Longrightarrow> has_prefix t v" for v by (induction t v rule: has_prefix.induct) auto
  with Cons show ?case by auto
qed simp

lemma read_head_done:
  assumes "'''' \<notin> set cs" "header_done (take kMaxRequestBytes (buf @ concat cs))"
  shows "header_done (read_head cs buf) \<and> (\<exists>u. buf @ concat cs = read_head cs buf @ u)"
  using assms
proof (induction cs buf rule: read_head.induct)
  case (1 buf)
  have "contains (crlf @ crlf) (take kMaxRequestBytes buf @ drop kMaxRequestBytes buf)"
    using 1 by (intro contains_append) (simp add: header_done_def)
  then show ?case by (simp add: header_done_def)
next
  case (2 c cs buf)
  show ?case
  proof (cases "header_done buf \<or> length buf \<ge> kMaxRequestBytes")
    case True
    have "header_done buf"
    proof (rule ccontr)
      assume "\<not> header_done buf"
      with True 2(3) have "contains (crlf @ crlf) (take kMaxRequestBytes buf)" by (simp add: header_done_def)
      then have "contains (crlf @ crlf) (take kMaxRequestBytes buf @ drop kMaxRequestBytes buf)" by (rule contains_append)
      with \<open>\<not> header_done buf\<close> show False by (simp add: header_done_def)
    qed
    then show ?thesis by simp
  next
    case False
    with 2 show ?thesis by (simp add: eq_commute [of "''''" c])
  qed
qed

lemma chunks_answered:
  assumes "'''' \<notin> set (cn_chunks c)" "header_done (take kMaxRequestBytes (concat (cn_chunks c)))"
  shows "handle_connection dump page version c =
    send_all (cn_sends c)
      (answer (dump (build_body version (cn_energy c) (cn_snap c))) page (before crlf (concat (cn_chunks c))))"
proof -
  from read_head_done [OF assms(1), of "''''"] assms(2) obtain u where
    h: "header_done (read_head (cn_chunks c) '''')" and u: "concat (cn_chunks c) = read_head (cn_chunks c) '''' @ u" by auto
  from h have "contains crlf (read_head (cn_chunks c) '''')" unfolding header_done_def by (rule contains_part)
  from before_append [OF this, of u] u h show ?thesis by (simp add: handle_connection_def Let_def)
qed

lemma send_all_prefix: "\<exists>k. send_all ns s = take k s"
proof (induction ns s rule: send_all.induct)
  case (2 n ns s)
  show ?case
  proof (cases "s = '''' \<or> n \<le> 0")
    case True
    then show ?thesis by (intro exI [of _ 0]) auto
  next
    case False
    with 2 obtain k where "send_all ns (drop (nat n) s) = take k (drop (nat n) s)" by auto
    with False show ?thesis by (intro exI [of _ "nat n + k"]) (simp add: take_add)
  qed
qed (simp add: exI [of _ 0])

lemma send_all_whole: "list_all (\<lambda>n. 0 < n) ns \<Longrightarrow> int (length s) \<le> sum_list ns \<Longrightarrow> send_all ns s = s"
proof (induction ns s rule: send_all.induct)
  case (2 n ns s)
  show ?case
  proof (cases "s = ''''")
    case False
    with 2 have "int (length (drop (nat n) s)) \<le> sum_list ns \<or> drop (nat n) s = ''''"
      by (cases "nat n \<le> length s") auto
    moreover have "send_all ns '''' = ''''" by (cases ns) auto
    ultimately have "send_all ns (drop (nat n) s) = drop (nat n) s" using 2 False by auto
    with 2 False show ?thesis by simp
  qed simp
qed simp

lemma contains_before: "contains t s \<Longrightarrow> length (before t s) + length t \<le> length s"
proof (induction s)
  case (Cons c s)
  then show ?case using has_prefix_length [of t "c # s"] by auto
qed simp

text \<open>A client that follows the Content-Length never takes a response cut short for a whole one.\<close>

lemma cut_response_refused:
  assumes "one_line reason" "case content_type of None \<Rightarrow> True | Some t \<Rightarrow> one_line t"
    and "k < length (http_response code reason content_type body)"
  shows "http_read (take k (http_response code reason content_type body)) = None"
proof (cases "contains (crlf @ crlf) (take k (http_response code reason content_type body))")
  case True
  let ?ls = "head_lines code reason content_type (length body)"
  let ?w = "http_response code reason content_type body"
  let ?len = "''Content-Length: '' @ dec (length body) @ [CHR 0x0D]"
  have ne: "?ls \<noteq> []" by (simp add: head_lines_def)
  have w: "?w = joined ?ls @ crlf @ crlf @ body" by (simp add: response_split)
  have "before (crlf @ crlf) (take k ?w) = before (crlf @ crlf) ?w"
    using before_append [OF True, of "drop k ?w"] by simp
  then have top: "before (crlf @ crlf) (take k ?w) = joined ?ls"
    using joined_found [OF head_solid [OF assms(1,2)] ne] by (simp add: w)
  have f: "find (has_prefix ''Content-Length: '') (split_on (CHR 0x0A) (joined ?ls)) = Some ?len"
    unfolding joined_split [OF head_solid [OF assms(1,2)] ne] by (simp add: head_lines_def split: option.split)
  have lw: "length ?w = length (joined ?ls) + 4 + length body" by (simp add: w crlf_def)
  have "length (joined ?ls) + 4 \<le> k"
  proof (rule ccontr)
    assume "\<not> ?thesis"
    moreover have "length (before (crlf @ crlf) (take k ?w)) + 4 \<le> length (take k ?w)"
      using contains_before [OF True] by (simp add: crlf_def)
    ultimately show False unfolding top using assms(3) by simp
  qed
  then have "\<not> length body \<le> length (drop (length (joined ?ls) + 4) (take k ?w))" using assms(3) lw by simp
  then show ?thesis unfolding http_read_def top Let_def f option.case length_field_read by simp
qed (simp add: http_read_def)

text \<open>What is buffered of a request is bounded by the limit and one chunk.\<close>

lemma request_bounded:
  assumes "\<forall>c \<in> set chunks. length c \<le> kChunkBytes" "length buf < kMaxRequestBytes + kChunkBytes"
  shows "length (read_head chunks buf) < kMaxRequestBytes + kChunkBytes"
  using assms by (induction chunks buf rule: read_head.induct) auto

text \<open>
  C18: \<open>/summary\<close> is answered whatever the network does: a request for it, with or without a query, whose
  head ends within the first 4096 bytes, cut into any non-empty pieces and with any headers, is answered
  from the statistics of that moment. However the sends go, the client either reads status 200 and the
  whole JSON of those statistics or knows that it got no whole answer, and it reads the JSON whenever
  no send fails and together they take the response, in pieces of any size.
\<close>
theorem summary_served:
  assumes "'''' \<notin> set (cn_chunks c)" "concat (cn_chunks c) = ''GET /summary'' @ query @ '' HTTP/1.1'' @ crlf @ headers"
    and "header_done (take kMaxRequestBytes (concat (cn_chunks c)))"
    and "query = '''' \<or> hd query = CHR ''?'' \<or> hd query = CHR ''#''" "one_line query" "CHR '' '' \<notin> set query"
  shows "let body = dump (build_body version (cn_energy c) (cn_snap c)); out = handle_connection dump page version c
    in http_read out \<in> {None, Some (''HTTP/1.1 200 OK'', body)} \<and>
       (list_all (\<lambda>n. 0 < n) (cn_sends c) \<and>
          int (length (http_response 200 ''OK'' (Some ''application/json'') body)) \<le> sum_list (cn_sends c) \<longrightarrow>
        http_read out = Some (''HTTP/1.1 200 OK'', body))"
proof -
  let ?body = "dump (build_body version (cn_energy c) (cn_snap c))"
  let ?w = "http_response 200 ''OK'' (Some ''application/json'') ?body"
  have line: "before crlf (concat (cn_chunks c)) = ''GET /summary'' @ query @ '' HTTP/1.1''"
    using before_line [of "''GET /summary'' @ query @ '' HTTP/1.1''" "''''" "crlf @ headers"] assms(2,5) by (simp add: crlf_def)
  have t: "takeWhile (\<lambda>c. c \<noteq> CHR '' '') (query @ CHR '' '' # s) = query" for s
    using assms(6) by (induction query) auto
  have p: "route_path (''/summary'' @ query) = ''/summary''"
    using assms(4) by (cases query) (auto simp: route_path_def)
  have "parse_request_line (''GET /summary'' @ query @ '' HTTP/1.1'') = Some (''GET'', ''/summary'' @ query)"
    using t by (simp add: parse_request_line_def)
  with p have "answer ?body page (before crlf (concat (cn_chunks c))) = ?w"
    unfolding line answer_def by simp
  then have out: "handle_connection dump page version c = send_all (cn_sends c) ?w"
    using chunks_answered [OF assms(1,3)] by simp
  have d: "dec 200 = ''200''" by code_simp
  have all: "http_read ?w = Some (''HTTP/1.1 200 OK'', ?body)"
    using framing [of "''OK''" "Some ''application/json''" 200 ?body "''''"] by (simp add: d)
  obtain k where k: "send_all (cn_sends c) ?w = take k ?w" using send_all_prefix by blast
  have "http_read (take k ?w) \<in> {None, Some (''HTTP/1.1 200 OK'', ?body)}"
    using cut_response_refused [of "''OK''" "Some ''application/json''" k 200 ?body] all by (cases "k < length ?w") simp_all
  then show ?thesis unfolding Let_def out using all send_all_whole [of "cn_sends c" ?w] by (simp add: k)
qed

definition sample_conn :: conn where
  "sample_conn = \<lparr>cn_chunks = [''GET /sum'', ''mary?x=1 HTTP/1.1'' @ [CHR 0x0D], [CHR 0x0A] @ ''Host: rig'' @ crlf, crlf],
     cn_energy = None, cn_snap = fst (snapshot 0 (stats_new 0)), cn_sends = [20, 1, 500]\<rparr>"

theorem summary_served_witness:
  "http_read (handle_connection (\<lambda>j. ''{}'') '''' ''1.0'' sample_conn) = Some (''HTTP/1.1 200 OK'', ''{}'')"
proof -
  have c: "concat (cn_chunks sample_conn) = ''GET /summary'' @ ''?x=1'' @ '' HTTP/1.1'' @ crlf @ ''Host: rig'' @ crlf @ crlf"
    by (simp add: sample_conn_def crlf_def)
  have n: "'''' \<notin> set (cn_chunks sample_conn)" by (simp add: sample_conn_def crlf_def)
  have d: "header_done (take kMaxRequestBytes (concat (cn_chunks sample_conn)))" unfolding c by code_simp
  have l: "length (http_response 200 ''OK'' (Some ''application/json'') ''{}'') \<le> 521" by code_simp
  have "int (length (http_response 200 ''OK'' (Some ''application/json'') ''{}'')) \<le> sum_list (cn_sends sample_conn)"
    "list_all (\<lambda>n. 0 < n) (cn_sends sample_conn)"
    using l by (simp_all add: sample_conn_def)
  then show ?thesis
    using summary_served [OF n c d, of "\<lambda>j. ''{}''" "''1.0''" "''''"] by (simp add: one_line_def Let_def)
qed

section \<open>What is not known is null\<close>

text \<open>
  A reading that a card does not report is null and never a number: the summary has one worker per
  card, in their order, and at least one; in the worker of a card each of the five sensors is null
  exactly where the card has no reading, and otherwise the reading itself; and a summarised quantity that
  was never sampled has N = 0 and nulls, one that was sampled has none.
\<close>
theorem absent_readings_null:
  assumes "i < length (sn_devices s)"
  shows "length (workers_json s) = length (sn_devices s) \<and>
    (let w = workers_json s ! i; d = sn_devices s ! i
     in jfind w ''Name'' = Some (JString (dv_label d)) \<and>
        jfind w ''Power_W'' = Some (case dv_power_w d of None \<Rightarrow> JNull | Some p \<Rightarrow> JFloat p) \<and>
        (\<forall>(k, v) \<in> {(''Core_Clock_MHz'', dv_sm_clock_mhz d), (''Mem_Clock_MHz'', dv_mem_clock_mhz d), (''Temp_C'', dv_temp_c d),
              (''Fan_Pct'', dv_fan_pct d)}.
           jfind w k = Some (case v of None \<Rightarrow> JNull | Some x \<Rightarrow> JInt (uint x)))) \<and>
    (\<forall>k \<in> {''Mean'', ''Stddev'', ''Min'', ''Max''}. jfind (series_json ser) k = Some JNull \<longleftrightarrow> ser_n ser = 0)"
proof -
  have ne: "sn_devices s \<noteq> []" using assms by auto
  then have w: "workers_json s ! i = worker_json i (sn_devices s ! i)" using assms by (simp add: workers_json_def nth_enumerate_eq)
  have "length (workers_json s) = length (sn_devices s)" using ne by (simp add: workers_json_def)
  moreover have "\<forall>k \<in> {''Mean'', ''Stddev'', ''Min'', ''Max''}. jfind (series_json ser) k = Some JNull \<longleftrightarrow> ser_n ser = 0"
    by (simp add: series_json_def jfind_fields)
  ultimately show ?thesis
    unfolding Let_def w by (simp add: worker_json_def jfind_fields or_null_def j_unsigned_def split: option.split)
qed

theorem absent_readings_null_witness:
  "jfind (workers_json (fst (snapshot 0 (stats_new 0))) ! 0) ''Fan_Pct'' = Some JNull"
proof -
  have d: "length (sn_devices (fst (snapshot 0 (stats_new 0)))) = 1" "dv_fan_pct (sn_devices (fst (snapshot 0 (stats_new 0))) ! 0) = None"
    by code_simp+
  then have "0 < length (sn_devices (fst (snapshot 0 (stats_new 0))))" by simp
  from absent_readings_null [OF this] d(2) show ?thesis by (simp add: Let_def)
qed

text \<open>A snapshot always has a worker.\<close>

lemma workers_not_empty: "workers_json s \<noteq> []"
  by (cases "sn_devices s") (simp_all add: workers_json_def)

section \<open>Start and stop\<close>

text \<open>
  A start that fails leaves the server as it was and no socket open; one that succeeds leaves exactly
  the listening one. The port of a stopped server is still the old one.
\<close>

lemma http_start_clean:
  assumes "http_start valid_ip oc version host s = (ok, s', opened, shut)" "\<not> hs_started s"
  shows "if ok then hs_started s' \<and> hs_listening s' \<and> opened = shut + 1 \<and> valid_ip (if host = '''' then ''0.0.0.0'' else host)
    else s' = s \<and> opened = shut"
  using assms by (auto simp: http_start_def split: if_splits option.splits)

lemma stop_keeps_port: "hs_port (http_stop s) = hs_port s"
  by (simp add: http_stop_def)

text \<open>The loop answers what came before the stop, one connection after the other, and nothing after it.\<close>

lemma accept_loop_stops:
  "accept_loop dump page version (ps @ PollReady True ready # qs) = accept_loop dump page version ps"
  by (induction dump page version ps rule: accept_loop.induct) (auto split: option.split accepted.split)

end
