(* ===== verification/Table.thy ===== *)
theory Table
  imports Launch
begin

text \<open>
  The statistics block of the console (src/ui/format.cpp) and its ticker (src/ui/ticker.cpp): the
  cells of a card and of the rig, the table in one piece, in groups that fit the terminal, or
  turned by ninety degrees, and the lines around it; when the ticker prints. Shown: every chosen
  column is in exactly one group, in order, and the groups fit; a cell stands at the same place in
  every row; the rig's watts are shown only when every card reports its own.
\<close>

section \<open>The figures of a row\<close>

record row_data =
  rd_label :: string
  rd_sol60 :: double
  rd_iter60 :: double
  rd_accepted :: u64
  rd_stale :: u64
  rd_rejected :: u64
  rd_best_share_units :: double
  rd_power_w :: "double option"
  rd_sm_clock_mhz :: "u32 option"
  rd_mem_clock_mhz :: "u32 option"
  rd_temp_c :: "u32 option"
  rd_fan_pct :: "u32 option"
  rd_util_pct :: "u32 option"
  rd_paused :: bool

definition row_from :: "device \<Rightarrow> row_data" where
  "row_from d = \<lparr>rd_label = dv_label d, rd_sol60 = dv_sol60 d, rd_iter60 = dv_iter60 d, rd_accepted = dv_accepted d,
     rd_stale = dv_stale d, rd_rejected = dv_rejected d, rd_best_share_units = dv_best_share_units d,
     rd_power_w = dv_power_w d, rd_sm_clock_mhz = dv_sm_clock_mhz d, rd_mem_clock_mhz = dv_mem_clock_mhz d,
     rd_temp_c = dv_temp_c d, rd_fan_pct = dv_fan_pct d, rd_util_pct = dv_util_pct d, rd_paused = dv_paused d\<rparr>"

text \<open>A snapshot without cards describes one by its old fields.\<close>

definition rows_of :: "snap \<Rightarrow> row_data list" where
  "rows_of s =
    (if sn_devices s = [] then
       [\<lparr>rd_label = sn_device_label s, rd_sol60 = sn_sol60 s, rd_iter60 = sn_iter60 s, rd_accepted = sn_accepted s,
         rd_stale = sn_stale s, rd_rejected = sn_rejected s, rd_best_share_units = sn_best_share_units s,
         rd_power_w = sn_power_w s, rd_sm_clock_mhz = sn_sm_clock_mhz s, rd_mem_clock_mhz = sn_mem_clock_mhz s,
         rd_temp_c = sn_temp_c s, rd_fan_pct = sn_fan_pct s, rd_util_pct = None, rd_paused = False\<rparr>]
     else map row_from (sn_devices s))"

record total_data =
  td_sol60 :: double
  td_pool_sol :: double
  td_iter60 :: double
  td_accepted :: u64
  td_stale :: u64
  td_rejected :: u64
  td_best_share_units :: double
  td_has_power :: bool
  td_power_w :: double
  td_uptime_s :: double

text \<open>The watts of the rows, and whether every row has some.\<close>

fun sum_power :: "row_data list \<Rightarrow> bool \<times> double \<Rightarrow> bool \<times> double" where
  "sum_power [] acc = acc"
| "sum_power (r # rs) (have, p) =
    (case rd_power_w r of Some w \<Rightarrow> sum_power rs (have, dadd p w) | None \<Rightarrow> sum_power rs (False, p))"

definition total_of :: "snap \<Rightarrow> row_data list \<Rightarrow> total_data" where
  "total_of s rows =
    (let (have, p) = sum_power rows (rows \<noteq> [], 0)
     in \<lparr>td_sol60 = sn_sol60 s, td_pool_sol = sn_pool_sol_session s, td_iter60 = sn_iter60 s,
         td_accepted = sn_accepted s, td_stale = sn_stale s, td_rejected = sn_rejected s,
         td_best_share_units = sn_best_share_units s, td_has_power = have, td_power_w = p,
         td_uptime_s = d_of_int (sn_uptime s)\<rparr>)"

section \<open>The cells\<close>

definition format_units :: "double \<Rightarrow> string" where
  "format_units v =
    snprintf 32 (if v \<ge> 1000000 then fixed 1 (ddiv v 1000000) @ ''M'' else fixed 1 (ddiv v 1000) @ ''k'')"

definition format_speed_line :: "snap \<Rightarrow> nat \<Rightarrow> string" where
  "format_speed_line s digits = snprintf 128 (''Average speed (15s): '' @ fixed digits (sn_sol15 s) @ '' sol/s'')"

definition num :: "nat \<Rightarrow> double \<Rightarrow> string" where
  "num p v = snprintf 32 (fixed p v)"

definition is_name_col :: "stat_column_spec \<Rightarrow> bool" where
  "is_name_col c = (sc_name c = ''gpuName'')"

definition opt_cell :: "u32 option \<Rightarrow> string" where
  "opt_cell v = (case v of None \<Rightarrow> kMissing | Some w \<Rightarrow> num 0 (d_of_nat (unat w)))"

definition per_minute :: "u64 \<Rightarrow> double \<Rightarrow> string" where
  "per_minute accepted uptime =
    (if uptime > 0 then num 2 (ddiv (dmul (d_of_nat (unat accepted)) 60) uptime) else kMissing)"

definition cell_device :: "stat_column_spec \<Rightarrow> row_data \<Rightarrow> total_data \<Rightarrow> nat \<Rightarrow> bool \<Rightarrow> nat \<Rightarrow> string" where
  "cell_device c d t index multi digits =
    (let n = sc_name c
     in if n = ''gpuName'' then
          (let name = short_device_name (rd_label d)
           in if multi then take kNameW (snprintf 24 (''GPU '' @ dec index @ '' '') @ name) else name)
        else if n = ''speed'' then num digits (rd_sol60 d)
        else if n = ''poolHr'' then (if multi then kMissing else num digits (td_pool_sol t))
        else if n = ''iter'' then num 1 (rd_iter60 d)
        else if n = ''shares'' then format_shares (rd_accepted d) (rd_stale d) (rd_rejected d)
        else if n = ''bestShare'' then format_units (rd_best_share_units d)
        else if n = ''hrPerWatt'' then
          (case rd_power_w d of Some p \<Rightarrow> if p > 0 then num 3 (ddiv (rd_sol60 d) p) else kMissing | None \<Rightarrow> kMissing)
        else if n = ''wattPerHr'' then
          (case rd_power_w d of Some p \<Rightarrow> if rd_sol60 d > 0 then num 2 (ddiv p (rd_sol60 d)) else kMissing | None \<Rightarrow> kMissing)
        else if n = ''power'' then (case rd_power_w d of Some p \<Rightarrow> num 0 p | None \<Rightarrow> kMissing)
        else if n = ''coreClk'' then opt_cell (rd_sm_clock_mhz d)
        else if n = ''memClk'' then opt_cell (rd_mem_clock_mhz d)
        else if n = ''coreT'' then opt_cell (rd_temp_c d)
        else if n = ''fanPct'' then opt_cell (rd_fan_pct d)
        else if n = ''util'' then opt_cell (rd_util_pct d)
        else if n = ''sharesPerMin'' then per_minute (rd_accepted d) (td_uptime_s t)
        else if n = ''state'' then (if rd_paused d then ''paused'' else ''mining'')
        else kMissing)"

definition cell_total :: "stat_column_spec \<Rightarrow> total_data \<Rightarrow> nat \<Rightarrow> string" where
  "cell_total c t digits =
    (let n = sc_name c
     in if \<not> sc_total c then ''''
        else if n = ''gpuName'' then ''Total''
        else if n = ''speed'' then num digits (td_sol60 t)
        else if n = ''poolHr'' then num digits (td_pool_sol t)
        else if n = ''iter'' then num 1 (td_iter60 t)
        else if n = ''shares'' then format_shares (td_accepted t) (td_stale t) (td_rejected t)
        else if n = ''bestShare'' then format_units (td_best_share_units t)
        else if n = ''hrPerWatt'' then
          (if td_has_power t \<and> td_power_w t > 0 then num 3 (ddiv (td_sol60 t) (td_power_w t)) else kMissing)
        else if n = ''wattPerHr'' then
          (if td_has_power t \<and> td_sol60 t > 0 then num 2 (ddiv (td_power_w t) (td_sol60 t)) else kMissing)
        else if n = ''power'' then (if td_has_power t then num 0 (td_power_w t) else kMissing)
        else if n = ''sharesPerMin'' then per_minute (td_accepted t) (td_uptime_s t)
        else '''')"

definition column_width :: "stat_column_spec \<Rightarrow> nat \<Rightarrow> nat" where
  "column_width c digits =
    (if sc_name c = ''speed'' \<or> sc_name c = ''poolHr'' then sc_width c + (digits - kDefaultDigits) else sc_width c)"

section \<open>The table\<close>

text \<open>One line: the fields of a row, each padded to its width, without the blanks at the end.\<close>

definition width_of :: "bool \<Rightarrow> nat \<Rightarrow> stat_column_spec \<Rightarrow> nat" where
  "width_of narrow digits c = (if is_name_col c then (if narrow then 6 else kNameW) else column_width c digits)"

definition field :: "bool \<Rightarrow> nat \<Rightarrow> stat_column_spec \<Rightarrow> string \<Rightarrow> string" where
  "field narrow digits c cell =
    (if is_name_col c then pad_right cell (width_of narrow digits c) else pad_left cell (width_of narrow digits c))"

definition rtrim :: "string \<Rightarrow> string" where
  "rtrim s = rev (dropWhile (\<lambda>c. c = CHR '' '') (rev s))"

text \<open>The fields, with a blank before each but the first and one that follows a leading name.\<close>

fun row_fields :: "bool \<Rightarrow> nat \<Rightarrow> bool \<Rightarrow> stat_column_spec list \<Rightarrow> string list \<Rightarrow> string" where
  "row_fields narrow digits sep (c # cs) (s # ss) =
    (if sep then '' '' else '''') @ field narrow digits c s @ row_fields narrow digits True cs ss"
| "row_fields narrow digits sep _ _ = ''''"

definition line_raw :: "bool \<Rightarrow> nat \<Rightarrow> stat_column_spec list \<Rightarrow> string list \<Rightarrow> string" where
  "line_raw narrow digits cols cells =
    (case (cols, cells) of
       (c # cs, s # ss) \<Rightarrow> field narrow digits c s @ row_fields narrow digits (\<not> is_name_col c) cs ss
     | _ \<Rightarrow> '''')"

definition compose :: "bool \<Rightarrow> nat \<Rightarrow> stat_column_spec list \<Rightarrow> string list \<Rightarrow> string" where
  "compose narrow digits cols cells = rtrim (line_raw narrow digits cols cells)"

definition kRule47 :: string where "kRule47 = replicate 47 CHR ''-''"
definition kRule27 :: string where "kRule27 = replicate 27 CHR ''-''"

definition head1_cell :: "bool \<Rightarrow> stat_column_spec \<Rightarrow> string" where
  "head1_cell narrow c = (if is_name_col c then (if narrow then '''' else ''      Name'') else sc_head1 c)"

definition head2_cell :: "stat_column_spec \<Rightarrow> string" where
  "head2_cell c = (if is_name_col c then '''' else sc_head2 c)"

definition group_cell :: "bool \<Rightarrow> row_data \<Rightarrow> total_data \<Rightarrow> nat \<Rightarrow> bool \<Rightarrow> nat \<Rightarrow> stat_column_spec \<Rightarrow> string" where
  "group_cell narrow d t r multi digits c =
    (if narrow \<and> is_name_col c then snprintf 16 (''GPU '' @ dec r) else cell_device c d t r multi digits)"

text \<open>The cells of the lines of a group: two of the header, one per card, and the rig's after the rule.\<close>

definition group_rows ::
    "stat_column_spec list \<Rightarrow> row_data list \<Rightarrow> total_data \<Rightarrow> bool \<Rightarrow> nat \<Rightarrow> bool \<Rightarrow> string list list" where
  "group_rows cols rows t multi digits narrow =
    [map (head1_cell narrow) cols, map head2_cell cols] @
    map (\<lambda>(r, d). map (group_cell narrow d t r multi digits) cols) (enumerate 0 rows)"

definition emit_group ::
    "stat_column_spec list \<Rightarrow> row_data list \<Rightarrow> total_data \<Rightarrow> bool \<Rightarrow> nat \<Rightarrow> bool \<Rightarrow> string" where
  "emit_group cols rows t multi digits narrow =
    concat (map (\<lambda>cells. compose narrow digits cols cells @ newline) (group_rows cols rows t multi digits narrow)) @
    kRule27 @ newline @ compose narrow digits cols (map (\<lambda>c. cell_total c t digits) cols) @ newline"

text \<open>The table on its side: one column per card and one for the rig.\<close>

definition kCellW :: nat where "kCellW = 12"

definition emit_vertical :: "stat_column_spec list \<Rightarrow> row_data list \<Rightarrow> total_data \<Rightarrow> bool \<Rightarrow> nat \<Rightarrow> string" where
  "emit_vertical cols rows t multi digits =
    (let label_w = foldl (\<lambda>w c. max w (length (sc_vlabel c) + 2)) 0 cols;
         head = replicate label_w CHR '' '' @
           concat (map (\<lambda>r. pad_left (snprintf 16 (''GPU '' @ dec r)) kCellW) [0..<length rows]) @ pad_left ''Total'' kCellW;
         line = (\<lambda>c. rtrim (pad_right (sc_vlabel c @ '':'') label_w @
           concat (map (\<lambda>(r, d). pad_left (take kCellW
               (if is_name_col c then short_device_name (rd_label d) else cell_device c d t r multi digits)) kCellW)
             (enumerate 0 rows)) @
           pad_left (take kCellW (if is_name_col c then ''Rig'' else cell_total c t digits)) kCellW))
     in head @ newline @ concat (map (\<lambda>c. line c @ newline) cols))"

section \<open>The groups of a narrow terminal\<close>

text \<open>The columns taken into a group that already holds \<open>g\<close> at width \<open>w\<close>, and the rest; names are passed over.\<close>

fun fill_group ::
    "bool \<Rightarrow> nat \<Rightarrow> nat \<Rightarrow> stat_column_spec list \<Rightarrow> stat_column_spec list \<Rightarrow> nat \<Rightarrow>
     stat_column_spec list \<times> stat_column_spec list" where
  "fill_group named wrap digits [] g w = (g, [])"
| "fill_group named wrap digits (c # cs) g w =
    (if is_name_col c then fill_group named wrap digits cs g w
     else let cw = column_width c digits + 1
     in if length g > (if named then 1 else 0) \<and> w + cw > wrap then (g, c # cs)
        else fill_group named wrap digits cs (g @ [c]) (w + cw))"

definition group_start :: "stat_column_spec option \<Rightarrow> bool \<Rightarrow> stat_column_spec list \<times> nat" where
  "group_start name first = (case name of None \<Rightarrow> ([], 0) | Some c \<Rightarrow> ([c], if first then kNameW else 6))"

definition next_group ::
    "stat_column_spec option \<Rightarrow> nat \<Rightarrow> nat \<Rightarrow> bool \<Rightarrow> stat_column_spec list \<Rightarrow> stat_column_spec list \<times> stat_column_spec list" where
  "next_group name wrap digits first cs =
    (case group_start name first of (g, w) \<Rightarrow> fill_group (name \<noteq> None) wrap digits cs g w)"

lemma fill_group_rest: "length (snd (fill_group named wrap digits cs g w)) \<le> length cs"
proof (induction named wrap digits cs g w rule: fill_group.induct)
  case (2 named wrap digits c cs g w)
  then show ?case by (auto simp: Let_def intro: le_SucI)
qed simp

lemma next_group_rest: "cs \<noteq> [] \<Longrightarrow> length (snd (next_group name wrap digits first cs)) < length cs"
proof (cases cs)
  case (Cons c cs')
  then show ?thesis
    by (auto simp: next_group_def group_start_def Let_def le_imp_less_Suc [OF fill_group_rest] split: option.split)
qed simp

function wrap_groups ::
    "stat_column_spec option \<Rightarrow> nat \<Rightarrow> nat \<Rightarrow> bool \<Rightarrow> stat_column_spec list \<Rightarrow> stat_column_spec list list" where
  "wrap_groups name wrap digits first cs =
    (if cs = [] then []
     else let (g, rest) = next_group name wrap digits first cs
     in if g = [] \<or> name \<noteq> None \<and> length g = 1 then [] else g # wrap_groups name wrap digits False rest)"
  by auto
termination
  by (relation "measure (\<lambda>(name, wrap, digits, first, cs). length cs)") (auto, (metis next_group_rest snd_conv)+)

declare wrap_groups.simps [simp del]

section \<open>The block\<close>

record stats_layout =
  sl_columns :: "string list"
  sl_vertical :: bool
  sl_wrap_width :: nat
  sl_digits :: nat
  sl_api_port :: int

definition layout_columns :: "stats_layout \<Rightarrow> stat_column_spec list" where
  "layout_columns l = List.map_filter stat_column (if sl_columns l = [] then default_stat_format else sl_columns l)"

definition leading_name :: "stat_column_spec list \<Rightarrow> stat_column_spec option" where
  "leading_name cols = (case cols of [] \<Rightarrow> None | c # _ \<Rightarrow> if is_name_col c then Some c else None)"

definition groups_of :: "nat \<Rightarrow> nat \<Rightarrow> stat_column_spec list \<Rightarrow> stat_column_spec list list" where
  "groups_of wrap digits cols =
    wrap_groups (leading_name cols) wrap digits True (if leading_name cols = None then cols else tl cols)"

definition emit_groups :: "bool \<Rightarrow> stat_column_spec list list \<Rightarrow> row_data list \<Rightarrow> total_data \<Rightarrow> bool \<Rightarrow> nat \<Rightarrow> string" where
  "emit_groups named gs rows t multi digits =
    concat (map (\<lambda>(i, g). (if i = 0 then '''' else newline) @ emit_group g rows t multi digits (i \<noteq> 0 \<and> named)) (enumerate 0 gs))"

definition table_text :: "stats_layout \<Rightarrow> stat_column_spec list \<Rightarrow> row_data list \<Rightarrow> total_data \<Rightarrow> string" where
  "table_text l cols rows t =
    (let multi = length rows > 1; digits = sl_digits l
     in if sl_vertical l then emit_vertical cols rows t multi digits
        else if sl_wrap_width l > 0 then
          emit_groups (leading_name cols \<noteq> None) (groups_of (sl_wrap_width l) digits cols) rows t multi digits
        else emit_group cols rows t multi digits False)"

definition devfee_row :: "snap \<Rightarrow> string" where
  "devfee_row s =
    (if sn_devfee_rate s > 0 then
       snprintf 192 (''Dev fee '' @ fmt_g 4 (dmul (sn_devfee_rate s) 100) @ ''%: '' @ dec (unat (sn_devfee_slices s)) @ '' round'' @
         (if sn_devfee_slices s = 1 then '''' else ''s'') @ '', '' @ fixed 0 (sn_devfee_seconds s) @ ''s total, '' @
         format_shares (sn_devfee_accepted s) (sn_devfee_stale s) (sn_devfee_rejected s) @ '' A/S/R'' @
         (if sn_devfee_active s then ''  (active now)'' else ''''))
     else '''')"

definition ident_line :: "string \<Rightarrow> string \<Rightarrow> int \<Rightarrow> string" where
  "ident_line version driver port =
    ''MXBM '' @ version @ (if driver = '''' then '''' else '', Nvidia '' @ driver) @
    (if port > 0 then '', API port '' @ int_dec port else '''')"

definition format_stats_block :: "snap \<Rightarrow> string \<Rightarrow> string \<Rightarrow> stats_layout \<Rightarrow> string" where
  "format_stats_block s version clock l =
    (let latency = (if sn_last_latency_ms s \<ge> 0 then sn_last_latency_ms s else sn_connect_ms s);
         rows = rows_of s; cols = layout_columns l; fee = devfee_row s
     in if cols = [] then ''''
        else kRule47 @ newline @
          snprintf 128 (''Statistics ('' @ clock @ ''); Uptime: '' @ format_uptime (nat (sn_uptime s))) @ newline @
          ident_line version (sn_driver_version s) (sl_api_port l) @ newline @
          ''Mining: BeamHash III'' @ newline @
          snprintf 256 (''Connected to: '' @ sn_pool s @ '' ('' @ int_dec latency @ ''ms latency)'') @ newline @ newline @
          table_text l cols rows (total_of s rows) @ (if fee = '''' then '''' else fee @ newline) @ kRule47)"

section \<open>The ticker\<close>

text \<open>The worker between two wake-ups: the two intervals in seconds, the two deadlines in nanoseconds.\<close>

record ticker =
  tk_short_s :: int
  tk_long_s :: int
  tk_next_short :: int
  tk_next_long :: int

definition ticker_start :: "int \<Rightarrow> int \<Rightarrow> int \<Rightarrow> ticker" where
  "ticker_start now short_s long_s =
    \<lparr>tk_short_s = short_s, tk_long_s = long_s, tk_next_short = now + short_s * 1000000000,
     tk_next_long = now + long_s * 1000000000\<rparr>"

text \<open>When the worker wakes for the clock: which lines are due at \<open>now\<close>, and the deadlines after.\<close>

definition ticker_wake :: "int \<Rightarrow> ticker \<Rightarrow> bool \<times> bool \<times> ticker" where
  "ticker_wake now t =
    (let fire_short = (now \<ge> tk_next_short t); fire_long = (now \<ge> tk_next_long t);
         t = (if fire_short then t\<lparr>tk_next_short := now + tk_short_s t * 1000000000\<rparr> else t);
         t = (if fire_long then t\<lparr>tk_next_long := now + tk_long_s t * 1000000000\<rparr> else t)
     in (fire_short, fire_long, t))"

text \<open>The short line with the marks of the shares accepted since the last one; silence takes the marks too.\<close>

definition short_line :: "int \<Rightarrow> bool \<Rightarrow> string \<Rightarrow> nat \<Rightarrow> string \<Rightarrow> string option" where
  "short_line silence timeprint clock marks line =
    (if silence < 3 then Some ((if timeprint then ''['' @ clock @ ''] '' else '''') @ line @ replicate marks CHR ''*'') else None)"

section \<open>Every column is shown, and the groups fit\<close>

definition base :: "stat_column_spec option \<Rightarrow> nat" where
  "base name = (if name = None then 0 else 1)"

definition cols_width :: "nat \<Rightarrow> stat_column_spec list \<Rightarrow> nat" where
  "cols_width digits cs = (\<Sum>c \<leftarrow> cs. column_width c digits + 1)"

text \<open>The width of a group: its name column and its columns, each with a blank.\<close>

definition group_width :: "stat_column_spec option \<Rightarrow> bool \<Rightarrow> nat \<Rightarrow> stat_column_spec list \<Rightarrow> nat" where
  "group_width name first digits g = snd (group_start name first) + cols_width digits (drop (base name) g)"

lemma cols_width_simps [simp]:
  "cols_width digits [] = 0" "cols_width digits (c # cs) = column_width c digits + 1 + cols_width digits cs"
  "cols_width digits (xs @ ys) = cols_width digits xs + cols_width digits ys"
  by (simp_all add: cols_width_def)

abbreviation figures :: "stat_column_spec list \<Rightarrow> stat_column_spec list" where
  "figures \<equiv> filter (\<lambda>c. \<not> is_name_col c)"

lemma fill_group_takes:
  assumes "fill_group named wrap digits cs g w = (g', rest)" "w \<le> wrap \<or> length g \<le> (if named then 2 else 1)"
  shows "\<exists>t. g' = g @ t \<and> figures cs = t @ figures rest \<and>
    (w + cols_width digits t \<le> wrap \<or> length g' \<le> (if named then 2 else 1)) \<and>
    (t = [] \<and> length g = (if named then 1 else 0) \<longrightarrow> rest = [])"
  using assms
proof (induction named wrap digits cs g w rule: fill_group.induct)
  case (1 named wrap digits g w)
  then show ?case by auto
next
  case (2 named wrap digits c cs g w)
  let ?cw = "column_width c digits + 1"
  show ?case
  proof (cases "is_name_col c")
    case True
    with 2(3,4) 2(1) [OF True] show ?thesis by simp
  next
    case fig: False
    show ?thesis
    proof (cases "length g > (if named then 1 else 0) \<and> w + ?cw > wrap")
      case True
      with 2(3,4) fig show ?thesis by (auto simp: Let_def)
    next
      case False
      then have "w + ?cw \<le> wrap \<or> length (g @ [c]) \<le> (if named then 2 else 1)" by (auto split: if_splits)
      with 2(2) [OF fig refl False] 2(3) fig False obtain t where
        "g' = (g @ [c]) @ t" "figures cs = t @ figures rest"
        "w + ?cw + cols_width digits t \<le> wrap \<or> length g' \<le> (if named then 2 else 1)"
        by (auto simp: Let_def)
      with fig show ?thesis by (intro exI [of _ "c # t"]) auto
    qed
  qed
qed

lemma next_group_takes:
  assumes "next_group name wrap digits first cs = (g, rest)"
  shows "take (base name) g = (case name of None \<Rightarrow> [] | Some c \<Rightarrow> [c])"
    and "figures cs = drop (base name) g @ figures rest"
    and "group_width name first digits g \<le> wrap \<or> length g \<le> base name + 1"
    and "g = [] \<or> name \<noteq> None \<and> length g = 1 \<longleftrightarrow> length g = base name"
    and "length g = base name \<Longrightarrow> rest = []"
proof -
  obtain b w where s: "group_start name first = (b, w)" by (cases "group_start name first")
  have b: "length b = base name" "b = (case name of None \<Rightarrow> [] | Some c \<Rightarrow> [c])"
    using s by (auto simp: group_start_def base_def split: option.splits)
  have f: "fill_group (name \<noteq> None) wrap digits cs b w = (g, rest)" using assms by (simp add: next_group_def s)
  have "w \<le> wrap \<or> length b \<le> (if name \<noteq> None then 2 else 1)" using b(1) by (simp add: base_def split: if_splits)
  from fill_group_takes [OF f this] obtain t where t: "g = b @ t" "figures cs = t @ figures rest"
    "w + cols_width digits t \<le> wrap \<or> length g \<le> (if name \<noteq> None then 2 else 1)"
    "t = [] \<and> length b = (if name \<noteq> None then 1 else 0) \<longrightarrow> rest = []" by blast
  have tb: "take (base name) g = b" and db: "drop (base name) g = t" using t(1) b(1) by simp_all
  show "take (base name) g = (case name of None \<Rightarrow> [] | Some c \<Rightarrow> [c])" by (simp only: tb b(2))
  show "figures cs = drop (base name) g @ figures rest" using t(2) db by simp
  show "group_width name first digits g \<le> wrap \<or> length g \<le> base name + 1"
    using t(3) db by (auto simp: group_width_def s base_def split: if_splits)
  show "g = [] \<or> name \<noteq> None \<and> length g = 1 \<longleftrightarrow> length g = base name"
    using t(1) b(1) by (auto simp: base_def split: if_splits)
  show "length g = base name \<Longrightarrow> rest = []" using t(1,4) b(1) by (auto simp: base_def split: if_splits)
qed

lemma wrap_groups_takes:
  "concat (map (drop (base name)) (wrap_groups name wrap digits first cs)) = figures cs \<and>
   list_all (\<lambda>g. take (base name) g = (case name of None \<Rightarrow> [] | Some c \<Rightarrow> [c]) \<and> base name < length g)
     (wrap_groups name wrap digits first cs) \<and>
   (\<forall>i < length (wrap_groups name wrap digits first cs).
     group_width name (first \<and> i = 0) digits (wrap_groups name wrap digits first cs ! i) \<le> wrap \<or>
     length (wrap_groups name wrap digits first cs ! i) = base name + 1)"
proof (induction name wrap digits first cs rule: wrap_groups.induct)
  case (1 name wrap digits first cs)
  show ?case
  proof (cases "cs = []")
    case True
    then show ?thesis by (simp add: wrap_groups.simps)
  next
    case False
    obtain g rest where g: "next_group name wrap digits first cs = (g, rest)" by (metis prod.exhaust)
    note N = next_group_takes [OF g]
    show ?thesis
    proof (cases "length g = base name")
      case True
      with False g N show ?thesis by (simp add: wrap_groups.simps [of name wrap digits first cs])
    next
      case more: False
      then have e: "wrap_groups name wrap digits first cs = g # wrap_groups name wrap digits False rest"
        using False g N(4) by (simp add: wrap_groups.simps [of name wrap digits first cs])
      have IH: "concat (map (drop (base name)) (wrap_groups name wrap digits False rest)) = figures rest"
        "list_all (\<lambda>g. take (base name) g = (case name of None \<Rightarrow> [] | Some c \<Rightarrow> [c]) \<and> base name < length g)
          (wrap_groups name wrap digits False rest)"
        "\<forall>i < length (wrap_groups name wrap digits False rest).
          group_width name False digits (wrap_groups name wrap digits False rest ! i) \<le> wrap \<or>
          length (wrap_groups name wrap digits False rest ! i) = base name + 1"
        using 1 [OF False g [symmetric] refl] more N(4) by auto
      have len: "base name < length g"
        using N(1) more by (cases "length g < base name") (auto simp: base_def split: option.splits if_splits)
      with IH N(1-3) len show ?thesis unfolding e by (auto simp: le_Suc_eq All_less_Suc2)
    qed
  qed
qed

text \<open>
  C19: A wrapped table loses no figure and keeps to the terminal: for any list of columns and any width,
  the groups of \<open>--hstats\<close>, each led by the name column where the list starts with it, hold each
  other column exactly once and in the order of the list, and every group is within the width unless it
  consists of a single column; the loop that builds them ends.
\<close>
theorem wrapped_groups_complete:
  assumes "name = leading_name cols" "gs = groups_of wrap digits cols"
  shows "concat (map (drop (base name)) gs) = figures cols \<and>
    (\<forall>g \<in> set gs. take (base name) g = (case name of None \<Rightarrow> [] | Some c \<Rightarrow> [c]) \<and> base name < length g) \<and>
    (\<forall>i < length gs. group_width name (i = 0) digits (gs ! i) \<le> wrap \<or> length (gs ! i) = base name + 1)"
proof -
  let ?cs = "if name = None then cols else tl cols"
  have "figures ?cs = figures cols" by (cases cols) (simp_all add: assms(1) leading_name_def)
  moreover have "gs = wrap_groups name wrap digits True ?cs" by (simp add: assms groups_of_def)
  ultimately show ?thesis using wrap_groups_takes [of name wrap digits True ?cs] by (simp add: list_all_iff)
qed

theorem wrapped_groups_complete_witness:
  "let cols = layout_columns \<lparr>sl_columns = [], sl_vertical = False, sl_wrap_width = 40, sl_digits = 2, sl_api_port = 0\<rparr>;
       gs = groups_of 40 2 cols
   in map length gs = [4, 5, 5] \<and> concat (map (drop 1) gs) = tl cols \<and>
      (\<forall>i < length gs. group_width (leading_name cols) (i = 0) 2 (gs ! i) \<le> 40 \<or> length (gs ! i) = 2)"
proof -
  define cols where "cols = layout_columns \<lparr>sl_columns = [], sl_vertical = False, sl_wrap_width = 40, sl_digits = 2, sl_api_port = 0\<rparr>"
  have b: "map length (groups_of 40 2 cols) = [4, 5, 5]" "base (leading_name cols) = 1" "figures cols = tl cols"
    unfolding cols_def by code_simp+
  from wrapped_groups_complete [of _ cols _ 40 2, OF refl refl]
  have "concat (map (drop 1) (groups_of 40 2 cols)) = tl cols \<and>
      (\<forall>i < length (groups_of 40 2 cols). group_width (leading_name cols) (i = 0) 2 (groups_of 40 2 cols ! i) \<le> 40 \<or>
         length (groups_of 40 2 cols ! i) = 2)"
    unfolding b(2,3) one_add_one by blast
  with b(1) show ?thesis unfolding Let_def cols_def [symmetric] by blast
qed

text \<open>A name column that does not lead the list is shown unwrapped and lost in a wrapped table.\<close>

lemma late_name_lost:
  "groups_of 80 2 [the (stat_column ''speed''), the (stat_column ''gpuName'')] = [[the (stat_column ''speed'')]]"
  by code_simp

text \<open>A list of the name alone makes an empty table.\<close>

lemma name_alone_lost: "groups_of 80 2 [the (stat_column ''gpuName'')] = []"
  by code_simp

section \<open>A cell stands at the same place in every row\<close>

text \<open>Where a column starts, from the widths of those before it.\<close>

definition column_start :: "bool \<Rightarrow> nat \<Rightarrow> stat_column_spec list \<Rightarrow> nat \<Rightarrow> nat" where
  "column_start narrow digits cols i =
    (\<Sum>c \<leftarrow> take i cols. width_of narrow digits c) +
    (if i = 0 then 0 else if is_name_col (hd cols) then i - 1 else i)"

definition cells_fit :: "bool \<Rightarrow> nat \<Rightarrow> stat_column_spec list \<Rightarrow> string list \<Rightarrow> bool" where
  "cells_fit narrow digits cols cells = list_all2 (\<lambda>c s. length s \<le> width_of narrow digits c) cols cells"

lemma length_field: "length s \<le> width_of narrow digits c \<Longrightarrow> length (field narrow digits c s) = width_of narrow digits c"
  by (simp add: field_def pad_left_def pad_right_def)

lemma row_fields_at:
  assumes "cells_fit narrow digits cs ss" "i < length cs"
  shows "\<exists>pre post. row_fields narrow digits sep cs ss = pre @ field narrow digits (cs ! i) (ss ! i) @ post \<and>
    length pre = (\<Sum>c \<leftarrow> take i cs. width_of narrow digits c) + i + (if sep then 1 else 0)"
  using assms
proof (induction cs arbitrary: ss i sep)
  case (Cons c cs)
  then obtain s ss' where s: "ss = s # ss'" "length s \<le> width_of narrow digits c" "cells_fit narrow digits cs ss'"
    by (auto simp: cells_fit_def list_all2_Cons1)
  show ?case
  proof (cases i)
    case 0
    then show ?thesis by (intro exI [of _ "if sep then '' '' else ''''"] exI [of _ "row_fields narrow digits True cs ss'"]) (simp add: s(1))
  next
    case (Suc k)
    with Cons.prems(2) have "k < length cs" by simp
    from Cons.IH [OF s(3) this, of True] obtain pre post where
      p: "row_fields narrow digits True cs ss' = pre @ field narrow digits (cs ! k) (ss' ! k) @ post"
        "length pre = (\<Sum>c \<leftarrow> take k cs. width_of narrow digits c) + k + 1" by auto
    show ?thesis
      by (rule exI [of _ "(if sep then '' '' else '''') @ field narrow digits c s @ pre"], rule exI [of _ post])
        (simp add: s(1) p Suc length_field [OF s(2)])
  qed
qed simp

lemma line_at:
  assumes "cells_fit narrow digits cols cells" "i < length cols"
  shows "\<exists>pre post. line_raw narrow digits cols cells = pre @ field narrow digits (cols ! i) (cells ! i) @ post \<and>
    length pre = column_start narrow digits cols i"
proof -
  obtain c cs s ss where e: "cols = c # cs" "cells = s # ss" "length s \<le> width_of narrow digits c" "cells_fit narrow digits cs ss"
    using assms by (cases cols) (auto simp: cells_fit_def list_all2_Cons1)
  show ?thesis
  proof (cases i)
    case 0
    then show ?thesis by (intro exI [of _ "[]"] exI [of _ "row_fields narrow digits (\<not> is_name_col c) cs ss"])
        (simp add: e line_raw_def column_start_def)
  next
    case (Suc k)
    with assms(2) e have "k < length cs" by simp
    from row_fields_at [OF e(4) this, of "\<not> is_name_col c"] obtain pre post where
      p: "row_fields narrow digits (\<not> is_name_col c) cs ss = pre @ field narrow digits (cs ! k) (ss ! k) @ post"
        "length pre = (\<Sum>c \<leftarrow> take k cs. width_of narrow digits c) + k + (if \<not> is_name_col c then 1 else 0)" by blast
    show ?thesis
      by (rule exI [of _ "field narrow digits c s @ pre"], rule exI [of _ post])
        (simp add: e line_raw_def p column_start_def Suc length_field [OF e(3)])
  qed
qed

lemma rtrim_blanks: "\<exists>n. rtrim s @ replicate n CHR '' '' = s"
proof -
  have "takeWhile (\<lambda>c. c = CHR '' '') t = replicate (length (takeWhile (\<lambda>c. c = CHR '' '') t)) CHR '' ''" for t
    by (induction t) auto
  then have "rev s = replicate (length (takeWhile (\<lambda>c. c = CHR '' '') (rev s))) CHR '' '' @ dropWhile (\<lambda>c. c = CHR '' '') (rev s)"
    by (metis takeWhile_dropWhile_id)
  then have "s = rtrim s @ replicate (length (takeWhile (\<lambda>c. c = CHR '' '') (rev s))) CHR '' ''"
    unfolding rtrim_def by (metis rev_append rev_replicate rev_rev_ident)
  then show ?thesis by metis
qed

text \<open>
  The columns of the table line up: in every line of a group, whether of the header, of a card or of
  the rig, as long as the cells fit their columns, the field of column \<open>i\<close> begins at the same place,
  which depends on the chosen columns and \<open>--digits\<close> only; what is cut off a line are blanks at its end.
\<close>
theorem rows_line_up:
  assumes "cells_fit narrow digits cols cells" "i < length cols"
  shows "\<exists>n pre post. compose narrow digits cols cells @ replicate n CHR '' '' =
      pre @ field narrow digits (cols ! i) (cells ! i) @ post \<and>
    length pre = column_start narrow digits cols i"
proof -
  obtain pre post where "line_raw narrow digits cols cells = pre @ field narrow digits (cols ! i) (cells ! i) @ post"
    "length pre = column_start narrow digits cols i" using line_at [OF assms] by blast
  moreover obtain n where "compose narrow digits cols cells @ replicate n CHR '' '' = line_raw narrow digits cols cells"
    using rtrim_blanks unfolding compose_def by blast
  ultimately show ?thesis by metis
qed

text \<open>The headers fit in any table, and so do the names of the cards.\<close>

lemma headers_fit:
  assumes "c \<in> set stat_columns"
  shows "length (head1_cell narrow c) \<le> width_of narrow digits c \<and> length (head2_cell c) \<le> width_of narrow digits c"
proof -
  have "list_all (\<lambda>c. length (head1_cell True c) \<le> width_of True 0 c \<and> length (head2_cell c) \<le> width_of True 0 c) stat_columns"
    "list_all (\<lambda>c. length (head1_cell False c) \<le> width_of False 0 c \<and> length (head2_cell c) \<le> width_of False 0 c) stat_columns"
    by code_simp+
  then have "list_all (\<lambda>c. length (head1_cell narrow c) \<le> width_of narrow 0 c \<and> length (head2_cell c) \<le> width_of narrow 0 c) stat_columns"
    by (cases narrow) simp_all
  moreover have "width_of narrow 0 c \<le> width_of narrow digits c" by (simp add: width_of_def column_width_def)
  ultimately show ?thesis using assms by (auto simp: list_all_iff intro: le_trans)
qed

lemma names_fit: "is_name_col c \<Longrightarrow> length (cell_device c d t i multi digits) \<le> width_of False digits c"
  by (simp add: is_name_col_def cell_device_def width_of_def Let_def short_device_name_def min_def
      del: take_append)

section \<open>The watts of the rig\<close>

lemma sum_power_all: "fst (sum_power rows (have, p)) \<longleftrightarrow> have \<and> list_all (\<lambda>r. rd_power_w r \<noteq> None) rows"
  by (induction rows arbitrary: "have" p) (auto split: option.splits)

lemma sum_power_sum:
  "list_all (\<lambda>r. rd_power_w r \<noteq> None) rows \<Longrightarrow> snd (sum_power rows (have, p)) = fold (\<lambda>r p. dadd p (the (rd_power_w r))) rows p"
  by (induction rows arbitrary: "have" p) auto

text \<open>
  C31: The rig's watts are never understated: the Total cell of the power column is the sum over all cards
  when every card reports its draw, and \<open>--\<close> as soon as one does not; a partial sum is never shown, and
  neither are the two efficiencies that divide by it or into it.
\<close>
theorem total_power_complete:
  assumes "c \<in> set stat_columns" "sc_name c \<in> {''power'', ''hrPerWatt'', ''wattPerHr''}"
  shows "if list_all (\<lambda>r. rd_power_w r \<noteq> None) (rows_of s)
    then td_power_w (total_of s (rows_of s)) = fold (\<lambda>r p. dadd p (the (rd_power_w r))) (rows_of s) 0 \<and>
      (sc_name c = ''power'' \<longrightarrow> cell_total c (total_of s (rows_of s)) digits = num 0 (td_power_w (total_of s (rows_of s))))
    else cell_total c (total_of s (rows_of s)) digits = kMissing"
proof -
  let ?rows = "rows_of s"
  have ne: "?rows \<noteq> []" by (simp add: rows_of_def)
  obtain h p where hp: "sum_power ?rows (?rows \<noteq> [], 0) = (h, p)" by (cases "sum_power ?rows (?rows \<noteq> [], 0)")
  have h: "h \<longleftrightarrow> list_all (\<lambda>r. rd_power_w r \<noteq> None) ?rows" using sum_power_all [of ?rows "?rows \<noteq> []" 0] hp ne by simp
  have t: "td_has_power (total_of s ?rows) = h" "td_power_w (total_of s ?rows) = p" by (simp_all add: total_of_def hp)
  have tot: "sc_total c" using assms by (auto simp: stat_columns_def col_def)
  show ?thesis
  proof (cases h)
    case True
    with h have all: "list_all (\<lambda>r. rd_power_w r \<noteq> None) ?rows" by simp
    from sum_power_sum [OF all, of "?rows \<noteq> []" 0] hp have "p = fold (\<lambda>r p. dadd p (the (rd_power_w r))) ?rows 0" by simp
    with True all t tot show ?thesis by (simp add: cell_total_def Let_def)
  next
    case False
    with h have "\<not> list_all (\<lambda>r. rd_power_w r \<noteq> None) ?rows" by simp
    moreover have "cell_total c (total_of s ?rows) digits = kMissing" using False t tot assms(2) by (auto simp: cell_total_def Let_def)
    ultimately show ?thesis by simp
  qed
qed

theorem rows_line_up_witness:
  "let cols = take 3 stat_columns
   in \<exists>n pre post. compose False 2 cols [''A'', ''12.50'', ''--''] @ replicate n CHR '' '' = pre @ ''    --'' @ post \<and> length pre = 24"
proof -
  define cols where "cols = take 3 stat_columns"
  have c: "cells_fit False 2 cols [''A'', ''12.50'', ''--'']" "2 < length cols" "column_start False 2 cols 2 = 24"
    "field False 2 (cols ! 2) ([''A'', ''12.50'', ''--''] ! 2) = ''    --''"
    unfolding cols_def by code_simp+
  from rows_line_up [OF c(1,2)] show ?thesis unfolding Let_def cols_def [symmetric] c(3,4) .
qed

text \<open>Two cards of which one reports no draw, and both.\<close>

definition sample_snap :: "double option \<Rightarrow> snap" where
  "sample_snap p =
    (let s = fst (snapshot 0 (stats_new 0)); d = hd (sn_devices s)
     in s\<lparr>sn_devices := [d\<lparr>dv_power_w := Some 200\<rparr>, d\<lparr>dv_power_w := p\<rparr>]\<rparr>)"

theorem total_power_complete_witness:
  "cell_total (stat_columns ! 7) (total_of (sample_snap None) (rows_of (sample_snap None))) 2 = ''--'' \<and>
   td_power_w (total_of (sample_snap (Some 150)) (rows_of (sample_snap (Some 150)))) = 350"
proof -
  let ?c = "stat_columns ! 7"
  have c: "?c \<in> set stat_columns" "sc_name ?c \<in> {''power'', ''hrPerWatt'', ''wattPerHr''}"
    by (simp_all add: stat_columns_def col_def)
  have n: "\<not> list_all (\<lambda>r. rd_power_w r \<noteq> None) (rows_of (sample_snap None))"
    and y: "list_all (\<lambda>r. rd_power_w r \<noteq> None) (rows_of (sample_snap (Some 150)))"
    and f: "fold (\<lambda>r p. dadd p (the (rd_power_w r))) (rows_of (sample_snap (Some 150))) 0 = 350"
    by code_simp+
  from total_power_complete [OF c, of "sample_snap None" 2] n have "cell_total ?c (total_of (sample_snap None) (rows_of (sample_snap None))) 2 = kMissing"
    by (simp only: if_False)
  moreover from total_power_complete [OF c, of "sample_snap (Some 150)" 2] y f
  have "td_power_w (total_of (sample_snap (Some 150)) (rows_of (sample_snap (Some 150)))) = 350" by (simp only: if_True)
  ultimately show ?thesis by (simp add: kMissing_def)
qed

end
