(* ===== verification/Console.thy ===== *)
theory Console
  imports Table
begin

text \<open>
  The console (src/ui/console.cpp): lines with their colours, the transcript of \<open>--log\<close>, the levels of
  \<open>--silence\<close>, the accepts kept for the speed line, the banner and the messages. The screen is the
  list of its lines, each with its colour. Shown: the transcript is what the screen shows, line for
  line and without colours; an accepted share is told once, as a line or as a mark, and a
  rejection at once at every level; the rows of the banner are of one width and lose no letter.
\<close>

section \<open>Lines\<close>

datatype colour = Green | Red | Blue | Yellow

definition sgr :: "string \<Rightarrow> string" where
  "sgr code = [CHR 0x1B] @ ''['' @ code @ ''m''"

fun colour_code :: "colour \<Rightarrow> string" where
  "colour_code Green = sgr ''1;32''"
| "colour_code Red = sgr ''1;31''"
| "colour_code Blue = sgr ''1;34''"
| "colour_code Yellow = sgr ''33''"

definition kReset :: string where "kReset = sgr ''0''"

record console =
  cn_nocolor :: bool
  cn_silence :: int
  cn_compact :: bool
  cn_marks :: u32
  cn_screen :: "(colour option \<times> string) list"
  cn_log :: "string list option"

text \<open>The bytes of the screen.\<close>

definition paint :: "colour option \<times> string \<Rightarrow> string" where
  "paint l = (case fst l of None \<Rightarrow> snd l | Some c \<Rightarrow> colour_code c @ snd l @ kReset) @ newline"

definition screen_bytes :: "console \<Rightarrow> string" where
  "screen_bytes s = concat (map paint (cn_screen s))"

text \<open>A line of the transcript, without its time stamp.\<close>

definition log_line :: "string \<Rightarrow> console \<Rightarrow> console" where
  "log_line text s = s\<lparr>cn_log := map_option (\<lambda>l. l @ [text]) (cn_log s)\<rparr>"

definition stamp :: "nat \<Rightarrow> nat \<Rightarrow> nat \<Rightarrow> nat \<Rightarrow> nat \<Rightarrow> nat \<Rightarrow> string" where
  "stamp y mo d h mi sec =
    ''['' @ zpad 4 (dec y) @ ''-'' @ zpad 2 (dec mo) @ ''-'' @ zpad 2 (dec d) @ '' '' @ zpad 2 (dec h) @ '':'' @ zpad 2 (dec mi) @
    '':'' @ zpad 2 (dec sec) @ ''] ''"

definition log_block :: "string \<Rightarrow> console \<Rightarrow> console" where
  "log_block block s = fold log_line (split_on (CHR 0x0A) block) s"

definition print_line :: "string \<Rightarrow> console \<Rightarrow> console" where
  "print_line text s = log_line text (s\<lparr>cn_screen := cn_screen s @ [(None, text)]\<rparr>)"

definition print_colored :: "colour \<Rightarrow> string \<Rightarrow> console \<Rightarrow> console" where
  "print_colored c text s =
    log_line text (s\<lparr>cn_screen := cn_screen s @ [(if cn_nocolor s then None else Some c, text)]\<rparr>)"

definition stats_block :: "string \<Rightarrow> console \<Rightarrow> console" where
  "stats_block block s =
    log_block block (s\<lparr>cn_screen := cn_screen s @
      map (\<lambda>l. (if cn_nocolor s then None else Some Blue, l)) (split_on (CHR 0x0A) block)\<rparr>)"

definition console_init :: "bool \<Rightarrow> console \<Rightarrow> console" where
  "console_init nocolor s = s\<lparr>cn_nocolor := nocolor\<rparr>"

definition set_verbosity :: "int \<Rightarrow> bool \<Rightarrow> console \<Rightarrow> console" where
  "set_verbosity silence tight s =
    (let q = (if silence < 0 then 0 else if silence > 3 then 3 else silence)
     in s\<lparr>cn_silence := q, cn_compact := tight \<or> q \<ge> 2\<rparr>)"

definition take_accept_marks :: "console \<Rightarrow> u32 \<times> console" where
  "take_accept_marks s = (cn_marks s, s\<lparr>cn_marks := 0\<rparr>)"

text \<open>The transcript: the path that is opened, and the console with it where that succeeds.\<close>

definition log_target :: "string \<Rightarrow> string \<Rightarrow> string" where
  "log_target path now = (if path = '''' then ''logs/mxbm_'' @ now @ ''.log'' else path)"

definition open_log :: "bool \<Rightarrow> console \<Rightarrow> bool \<times> console" where
  "open_log opened s = (opened, s\<lparr>cn_log := if opened then Some [] else None\<rparr>)"

definition close_log :: "console \<Rightarrow> console" where
  "close_log s = s\<lparr>cn_log := None\<rparr>"

section \<open>The messages\<close>

definition setup_miner :: "console \<Rightarrow> console" where "setup_miner = print_line ''Setup Miner...''"

definition connecting_to_pool :: "console \<Rightarrow> console" where "connecting_to_pool = print_line ''Connecting to pool...''"

definition tls_handshake_ok :: "console \<Rightarrow> console" where "tls_handshake_ok = print_colored Green ''TLS Handshake success''"

definition start_mining :: "console \<Rightarrow> console" where "start_mining = print_line ''Start Mining...''"

definition con_connecting :: "string \<Rightarrow> u16 \<Rightarrow> bool \<Rightarrow> console \<Rightarrow> console" where
  "con_connecting host port tls =
    print_line (''Connecting to pool '' @ host @ '':'' @ dec (unat port) @ (if tls then '' (TLS)'' else '''') @ ''...'')"

definition con_connected :: "bool \<Rightarrow> console \<Rightarrow> console" where
  "con_connected tls = print_colored Green (''Connected'' @ (if tls then '' (TLS)'' else ''''))"

definition con_info :: "string \<Rightarrow> console \<Rightarrow> console" where
  "con_info msg = print_line msg"

definition con_error :: "string \<Rightarrow> console \<Rightarrow> console" where
  "con_error msg = print_colored Red msg"

definition driver_detected :: "string \<Rightarrow> int \<Rightarrow> console \<Rightarrow> console" where
  "driver_detected api n =
    print_line (''Number of '' @ api @ '' supported GPUs: '' @ int_dec n) \<circ> print_line (api @ '' driver detected.'')"

definition device_block_lines :: "int \<Rightarrow> string \<Rightarrow> string \<Rightarrow> string \<Rightarrow> string \<Rightarrow> u64 \<Rightarrow> string \<Rightarrow> string list" where
  "device_block_lines index name address vendor driver memory detail =
    (let entry = (\<lambda>label v. if v = '''' then [] else [''    '' @ label @ v])
     in [''Device '' @ int_dec index @ '':''] @ entry ''Name:    '' name @ entry ''Address: '' address @
        entry ''Vendor:  '' vendor @ entry ''Drivers: '' driver @
        (if memory = 0 then [] else entry ''Memory:  '' (mebibytes memory @ '' MByte'')) @
        entry ''Active:  '' (if detail = '''' then ''false'' else ''true ('' @ detail @ '')'') @ [''''])"

definition device_block :: "int \<Rightarrow> string \<Rightarrow> string \<Rightarrow> string \<Rightarrow> string \<Rightarrow> u64 \<Rightarrow> string \<Rightarrow> console \<Rightarrow> console" where
  "device_block index name address vendor driver memory detail =
    fold print_line (device_block_lines index name address vendor driver memory detail)"

definition connected_to :: "string \<Rightarrow> string \<Rightarrow> u16 \<Rightarrow> bool \<Rightarrow> console \<Rightarrow> console" where
  "connected_to host ip port tls =
    print_colored Green (''Connected to '' @ host @ (if ip = '''' then '''' else ''('' @ ip @ '')'') @ '':'' @ dec (unat port) @
      (if tls then ''  (TLS enabled)'' else ''''))"

definition con_authorized :: "string \<Rightarrow> console \<Rightarrow> console" where
  "con_authorized user = print_colored Green (''Authorized worker: '' @ user)"

definition con_job :: "string \<Rightarrow> u32 \<Rightarrow> u64 \<Rightarrow> console \<Rightarrow> console" where
  "con_job jid difficulty height s =
    (if cn_silence s \<ge> 1 then s
     else print_colored Yellow
       ((if height \<noteq> 0 then ''New job received for blockheight '' @ dec (unat height) @ '' (job '' @ jid @ '')''
         else ''New job received: '' @ jid) @ '' Difficulty: '' @ snprintf 32 (fixed 0 (to_display_units difficulty))) s)"

definition con_share_found :: "string \<Rightarrow> double \<Rightarrow> double \<Rightarrow> console \<Rightarrow> console" where
  "con_share_found dev units bar s =
    (if cn_silence s \<ge> 2 \<or> cn_compact s then s
     else print_colored Green (dev @ '': Found a share of difficulty '' @ format_units units @
       (if bar > 0 then snprintf 64 ('' ('' @ fixed 1 (ddiv units bar) @ ''x target of '' @ fixed 0 bar @ '')'') else '''')) s)"

definition con_share_result :: "int \<Rightarrow> string \<Rightarrow> int \<Rightarrow> console \<Rightarrow> console" where
  "con_share_result code description ms s =
    (if code = 1 \<and> cn_compact s then s\<lparr>cn_marks := cn_marks s + 1\<rparr>
     else if code = 1 \<and> cn_silence s \<ge> 2 then s
     else
       let suffix = (if ms \<ge> 0 then '' ('' @ int_dec ms @ '' ms)'' else '''')
       in if code = 1 then print_colored Green (''Share accepted'' @ suffix) s
          else if code < 0 then print_colored Red (''Pool error '' @ int_dec code @ '': '' @ description) s
          else print_colored Red (''Share rejected ('' @ int_dec code @ ''): '' @ description @ suffix) s)"

definition con_disconnected :: "console \<Rightarrow> console" where
  "con_disconnected = print_colored Red ''Pool connection lost - reconnecting...''"

definition devfee_cadence :: "nat \<Rightarrow> string" where
  "devfee_cadence secs = (if secs \<ge> 60 \<and> secs mod 60 = 0 then dec (secs div 60) @ ''min'' else dec secs @ ''s'')"

definition devfee_notice :: "double \<Rightarrow> nat \<Rightarrow> nat \<Rightarrow> string" where
  "devfee_notice rate len cycle =
    snprintf 128 (''Dev fee: '' @ fmt_g 4 (dmul rate 100) @ ''% - one '' @ dec len @ ''s round per '' @ devfee_cadence cycle @ '' of mining'')"

definition devfee_start_line :: "nat \<Rightarrow> string" where
  "devfee_start_line len =
    snprintf 128 (''Dev fee round started ('' @ dec len @ ''s) - mining to the developer'' @ [CHR 0x27] @ ''s address'')"

definition devfee_end_line :: "nat \<Rightarrow> string" where
  "devfee_end_line len = snprintf 128 (''Dev fee round finished ('' @ dec len @ ''s) - back on your pool'')"

text \<open>The short line of the ticker, with the marks it takes.\<close>

definition speed_tick :: "bool \<Rightarrow> string \<Rightarrow> string \<Rightarrow> console \<Rightarrow> console" where
  "speed_tick timeprint clock line s =
    (case take_accept_marks s of (marks, s) \<Rightarrow>
     case short_line (cn_silence s) timeprint clock (unat marks) line of None \<Rightarrow> s | Some l \<Rightarrow> con_info l s)"

section \<open>The banner\<close>

definition kInner :: nat where "kInner = 57"

definition banner_art :: "string list" where
  "banner_art =
    ['' __  __ __  __  ____   __  __ '',
     ''|  '' @ [CHR 0x5C] @ ''/  |'' @ [CHR 0x5C] @ '' '' @ [CHR 0x5C] @ ''/ / | __ ) |  '' @ [CHR 0x5C] @ ''/  |'',
     ''| |'' @ [CHR 0x5C] @ ''/| | '' @ [CHR 0x5C] @ ''  /  |  _ '' @ [CHR 0x5C] @ '' | |'' @ [CHR 0x5C] @ ''/| |'',
     ''| |  | | /  '' @ [CHR 0x5C] @ ''  | |_) || |  | |'',
     ''|_|  |_|/_/'' @ [CHR 0x5C] @ ''_'' @ [CHR 0x5C] @ '' |____/ |_|  |_|'']"

definition banner_raw :: "string \<Rightarrow> string" where
  "banner_raw body = ''|'' @ pad_right body kInner @ ''|''"

text \<open>Where a long row is cut: at the last blank within the width, unless that is at its very beginning.\<close>

definition cut_at :: "string \<Rightarrow> nat" where
  "cut_at body =
    (case filter (\<lambda>i. i < length body \<and> body ! i = CHR '' '') (rev [0..<kInner + 1]) of
       [] \<Rightarrow> kInner
     | i # _ \<Rightarrow> if i < 2 then kInner else i)"

lemma cut_at_bounds: "2 \<le> cut_at body" "cut_at body \<le> kInner"
proof -
  have "cut_at body = kInner \<or> 2 \<le> cut_at body \<and> cut_at body \<in> set (rev [0..<kInner + 1])"
  proof (cases "filter (\<lambda>i. i < length body \<and> body ! i = CHR '' '') (rev [0..<kInner + 1])")
    case (Cons i is')
    then have "i \<in> set (filter (\<lambda>i. i < length body \<and> body ! i = CHR '' '') (rev [0..<kInner + 1]))" by simp
    then have "i \<in> set (rev [0..<kInner + 1])" by (simp only: set_filter mem_Collect_eq)
    with Cons show ?thesis by (simp add: cut_at_def)
  qed (simp add: cut_at_def)
  then show "2 \<le> cut_at body" "cut_at body \<le> kInner" by (auto simp: kInner_def)
qed

function emit_rows :: "string \<Rightarrow> string list" where
  "emit_rows body =
    (if length body > kInner then
       let cut = cut_at body; rest = dropWhile (\<lambda>c. c = CHR '' '') (drop cut body);
           row = replicate ((kInner - cut) div 2) CHR '' '' @ take cut body
       in if rest = '''' then [row] else row # emit_rows rest
     else [replicate ((kInner - length body) div 2) CHR '' '' @ body])"
  by auto
termination
proof (relation "measure length", simp)
  fix body cut rest row
  assume "kInner < length body" "cut = cut_at body" "rest = dropWhile (\<lambda>c. c = CHR '' '') (drop cut body)"
  moreover have "length (dropWhile (\<lambda>c. c = CHR '' '') (drop (cut_at body) body)) \<le> length body - cut_at body"
    using length_dropWhile_le [of "\<lambda>c. c = CHR '' ''" "drop (cut_at body) body"] by simp
  ultimately show "(rest, body) \<in> measure length" using cut_at_bounds(1) [of body] by (simp add: kInner_def)
qed

declare emit_rows.simps [simp del]

definition banner_lines :: "string \<Rightarrow> string \<Rightarrow> double \<Rightarrow> string list" where
  "banner_lines version backends rate =
    (let art_w = foldl (\<lambda>w l. max w (length (rtrim l))) 0 banner_art;
         art_pad = replicate ((kInner - art_w) div 2) CHR '' '';
         border = ''+'' @ replicate kInner CHR ''-'' @ ''+'';
         rows = [''''] @ map ((@) art_pad) banner_art @ emit_rows version @ [''''] @ emit_rows ''BeamHash III  (Beam)'' @ [''''] @
           emit_rows ''Backends in this build:'' @ emit_rows backends @ [''''] @ emit_rows ''Open source, Apache-2.0.'' @
           emit_rows ''github.com/maxnflaxl/MXBM'' @
           (if rate > 0 then emit_rows (snprintf 64 (''Developer fee: '' @ fmt_g 6 (dmul rate 100) @ ''%  (--dev-fee to raise)'')) else []) @
           ['''']
     in [border] @ map banner_raw rows @ [border, ''''])"

definition banner :: "string \<Rightarrow> string \<Rightarrow> double \<Rightarrow> console \<Rightarrow> console" where
  "banner version backends rate s = (if cn_silence s \<ge> 3 then s else fold print_line (banner_lines version backends rate) s)"

text \<open>The rows of a text: none wider than the banner, and with the same letters in the same order.\<close>

definition solid_chars :: "string \<Rightarrow> string" where
  "solid_chars = filter (\<lambda>c. c \<noteq> CHR '' '')"

lemma solid_simps [simp]:
  "solid_chars (xs @ ys) = solid_chars xs @ solid_chars ys" "solid_chars (replicate n CHR '' '') = []"
  "solid_chars [] = []"
  by (induction n) (simp_all add: solid_chars_def)

lemma solid_dropWhile: "solid_chars (dropWhile (\<lambda>c. c = CHR '' '') xs) = solid_chars xs"
  by (induction xs) (auto simp: solid_chars_def)

lemma emit_rows_fit: "row \<in> set (emit_rows body) \<Longrightarrow> length row \<le> kInner"
proof (induction body rule: emit_rows.induct)
  case (1 body)
  show ?case
  proof (cases "length body > kInner")
    case True
    have "length (replicate ((kInner - cut_at body) div 2) CHR '' '' @ take (cut_at body) body) \<le> kInner"
      using cut_at_bounds(2) [of body] div_le_dividend [of "kInner - cut_at body" 2] by simp
    with True 1 show ?thesis by (subst (asm) emit_rows.simps) (auto simp: Let_def split: if_splits)
  next
    case False
    with 1(2) show ?thesis by (subst (asm) emit_rows.simps) auto
  qed
qed

lemma emit_rows_keep: "solid_chars (concat (emit_rows body)) = solid_chars body"
proof (induction body rule: emit_rows.induct)
  case (1 body)
  let ?rest = "dropWhile (\<lambda>c. c = CHR '' '') (drop (cut_at body) body)"
  have parts: "solid_chars body = solid_chars (take (cut_at body) body) @ solid_chars ?rest"
    using append_take_drop_id [of "cut_at body" body] by (metis solid_dropWhile solid_simps(1))
  show ?case
  proof (cases "length body > kInner")
    case True
    with 1 parts show ?thesis
      by (subst emit_rows.simps) (cases "?rest = []"; simp add: Let_def del: dropWhile_eq_Nil_conv)
  next
    case False
    then show ?thesis by (subst emit_rows.simps) simp
  qed
qed

lemma banner_row_width: "length body \<le> kInner \<Longrightarrow> length (banner_raw body) = kInner + 2"
  by (simp add: banner_raw_def pad_right_def)

lemma banner_art_fits:
  "\<forall>l \<in> set (map ((@) (replicate ((kInner - foldl (\<lambda>w l. max w (length (rtrim l))) 0 banner_art) div 2) CHR '' '')) banner_art).
     length l \<le> kInner"
  by code_simp

lemma banner_rows:
  "\<exists>rows. (\<forall>r \<in> set rows. length r \<le> kInner) \<and>
    banner_lines version backends rate =
      [''+'' @ replicate kInner CHR ''-'' @ ''+''] @ map banner_raw rows @ [''+'' @ replicate kInner CHR ''-'' @ ''+'', '''']"
  unfolding banner_lines_def Let_def
  by (intro exI conjI, rule_tac [2] refl) (use banner_art_fits emit_rows_fit in \<open>auto split: if_splits\<close>)

lemma banner_width: "l \<in> set (banner_lines version backends rate) \<Longrightarrow> l \<noteq> '''' \<Longrightarrow> length l = kInner + 2"
  using banner_rows [of version backends rate] banner_row_width by auto

section \<open>The transcript\<close>

datatype console_op =
    OpInfo string
  | OpError string
  | OpBlock string
  | OpDevice int string string string string u64 string
  | OpBanner string string double
  | OpConnected string string u16 bool
  | OpAuthorized string
  | OpJob string u32 u64
  | OpFound string double double
  | OpResult int string int
  | OpSpeed bool string string
  | OpDisconnected
  | OpSetup
  | OpPool
  | OpConnecting string u16 bool
  | OpPlain bool
  | OpTls
  | OpStart

fun console_step :: "console_op \<Rightarrow> console \<Rightarrow> console" where
  "console_step (OpInfo m) = con_info m"
| "console_step (OpError m) = con_error m"
| "console_step (OpBlock b) = stats_block b"
| "console_step (OpDevice i n a v dr m de) = device_block i n a v dr m de"
| "console_step (OpBanner v b r) = banner v b r"
| "console_step (OpConnected h ip p t) = connected_to h ip p t"
| "console_step (OpAuthorized u) = con_authorized u"
| "console_step (OpJob j d h) = con_job j d h"
| "console_step (OpFound dev u t) = con_share_found dev u t"
| "console_step (OpResult code de ms) = con_share_result code de ms"
| "console_step (OpSpeed tp clock l) = speed_tick tp clock l"
| "console_step OpDisconnected = con_disconnected"
| "console_step OpSetup = setup_miner"
| "console_step OpPool = connecting_to_pool"
| "console_step (OpConnecting h p t) = con_connecting h p t"
| "console_step (OpPlain t) = con_connected t"
| "console_step OpTls = tls_handshake_ok"
| "console_step OpStart = start_mining"

lemmas message_defs =
  con_disconnected_def setup_miner_def connecting_to_pool_def con_connecting_def con_connected_def tls_handshake_ok_def
  start_mining_def

text \<open>From \<open>s\<close> to \<open>t\<close> the same lines went to the screen and to the transcript, if there is one.\<close>

definition mirrored :: "console \<Rightarrow> console \<Rightarrow> bool" where
  "mirrored s t \<longleftrightarrow> (\<exists>ls. cn_screen t = cn_screen s @ ls \<and> cn_log t = map_option (\<lambda>l. l @ map snd ls) (cn_log s))"

lemma mirrored_refl [intro!]: "mirrored s s"
  by (auto simp: mirrored_def option.map_ident)

lemma mirrored_trans: "mirrored s t \<Longrightarrow> mirrored t u \<Longrightarrow> mirrored s u"
  by (auto simp: mirrored_def option.map_comp comp_def)

lemma mirrored_print [intro!]: "mirrored s (print_line text s)" "mirrored s (print_colored c text s)"
  by (simp_all add: mirrored_def print_line_def print_colored_def log_line_def)

lemma log_lines: "fold log_line ls s = s\<lparr>cn_log := map_option (\<lambda>l. l @ ls) (cn_log s)\<rparr>"
  by (induction ls arbitrary: s) (simp_all add: log_line_def option.map_comp comp_def option.map_ident)

lemma mirrored_block [intro!]: "mirrored s (stats_block b s)"
  by (auto simp: mirrored_def stats_block_def log_block_def log_lines comp_def)

lemma mirrored_lines [intro!]: "mirrored s (fold print_line ls s)"
  by (induction ls arbitrary: s) (auto intro: mirrored_trans [OF mirrored_print(1)])

lemma mirrored_marks [intro!]: "mirrored s (s\<lparr>cn_marks := m\<rparr>)"
  by (simp add: mirrored_def option.map_ident)

lemma mirrored_step: "mirrored s (console_step c s)"
proof (cases c)
  case (OpSpeed tp clock l)
  then show ?thesis
    by (auto simp: speed_tick_def take_accept_marks_def con_info_def split: option.split
        intro: mirrored_trans [OF mirrored_marks mirrored_print(1)])
qed (auto simp: con_info_def con_error_def device_block_def banner_def connected_to_def con_authorized_def con_job_def
    con_share_found_def con_share_result_def message_defs Let_def)

lemma mirrored_steps: "mirrored s (fold console_step cs s)"
  by (induction cs arbitrary: s) (auto intro: mirrored_trans [OF mirrored_step])

text \<open>
  C30: The transcript is what the console said: after \<open>--log\<close> opened a file, whatever the operations of the
  console print afterwards, by whichever thread and at whatever verbosity, the lines of the file are the
  lines these operations put on the screen since, in the same order and none left out, and without
  any colour. What other code writes to the screen past the console is outside, such as the line of the
  OpenCL run-time about a compiled program.
\<close>
theorem transcript_is_screen:
  assumes "open_log True s = (True, s')" "t = fold console_step cs s'"
  shows "\<exists>shown. cn_screen t = cn_screen s @ shown \<and> cn_log t = Some (map snd shown)"
  using assms mirrored_steps [of s' cs] by (auto simp: mirrored_def open_log_def)

definition console0 :: console where
  "console0 = \<lparr>cn_nocolor = False, cn_silence = 0, cn_compact = False, cn_marks = 0, cn_screen = [], cn_log = None\<rparr>"

theorem transcript_is_screen_witness:
  "cn_log (fold console_step [OpResult 1 '''' 12, OpBlock (''a'' @ newline @ ''b''), OpResult 2 ''low'' (-1)] (snd (open_log True console0))) =
    Some [''Share accepted (12 ms)'', ''a'', ''b'', ''Share rejected (2): low'']"
proof -
  let ?cs = "[OpResult 1 '''' 12, OpBlock (''a'' @ newline @ ''b''), OpResult 2 ''low'' (-1)]"
  let ?t = "fold console_step ?cs (snd (open_log True console0))"
  have o': "open_log True console0 = (True, snd (open_log True console0))" by (simp add: open_log_def)
  have s: "map snd (cn_screen ?t) = [''Share accepted (12 ms)'', ''a'', ''b'', ''Share rejected (2): low'']"
    "cn_screen console0 = []"
    by code_simp+
  from transcript_is_screen [OF o' refl, of ?cs] s show ?thesis by auto
qed

section \<open>Accepted shares\<close>

text \<open>How many accepts a step tells of, from the lines it adds: a line of its own, or the marks after a speed line.\<close>

fun told :: "console_op \<Rightarrow> (colour option \<times> string) list \<Rightarrow> nat" where
  "told (OpResult code de ms) added = (if code = 1 then length added else 0)"
| "told (OpSpeed tp clock l) added =
    sum_list (map (\<lambda>a. length (snd a) - length ((if tp then ''['' @ clock @ ''] '' else '''') @ l)) added)"
| "told _ added = 0"

fun told_by :: "console_op list \<Rightarrow> console \<Rightarrow> nat" where
  "told_by [] s = 0"
| "told_by (c # cs) s = told c (drop (length (cn_screen s)) (cn_screen (console_step c s))) + told_by cs (console_step c s)"

fun accepts :: "console_op list \<Rightarrow> nat" where
  "accepts [] = 0"
| "accepts (c # cs) = (case c of OpResult code de ms \<Rightarrow> if code = 1 then 1 else 0 | _ \<Rightarrow> 0) + accepts cs"

lemma print_frame [simp]:
  "cn_silence (print_line t s) = cn_silence s" "cn_compact (print_line t s) = cn_compact s" "cn_marks (print_line t s) = cn_marks s"
  "cn_silence (print_colored c t s) = cn_silence s" "cn_compact (print_colored c t s) = cn_compact s"
  "cn_marks (print_colored c t s) = cn_marks s"
  "cn_silence (fold print_line ls s) = cn_silence s" "cn_compact (fold print_line ls s) = cn_compact s"
  "cn_marks (fold print_line ls s) = cn_marks s"
  "cn_silence (stats_block b s) = cn_silence s" "cn_compact (stats_block b s) = cn_compact s" "cn_marks (stats_block b s) = cn_marks s"
proof -
  show "cn_silence (fold print_line ls s) = cn_silence s" "cn_compact (fold print_line ls s) = cn_compact s"
    "cn_marks (fold print_line ls s) = cn_marks s"
    by (induction ls arbitrary: s) (simp_all add: print_line_def log_line_def)
qed (simp_all add: print_line_def print_colored_def log_line_def stats_block_def log_block_def log_lines)

text \<open>The levels a console has after \<open>set_verbosity\<close>: from level 2 on accepts are kept for the speed line.\<close>

definition verbosity_ok :: "console \<Rightarrow> bool" where
  "verbosity_ok s \<longleftrightarrow> (cn_silence s \<ge> 2 \<longrightarrow> cn_compact s)"

lemma set_verbosity_ok: "verbosity_ok (set_verbosity n b s)"
  by (simp add: verbosity_ok_def set_verbosity_def Let_def)

lemma step_levels: "cn_silence (console_step c s) = cn_silence s \<and> cn_compact (console_step c s) = cn_compact s"
proof (cases c)
  case (OpSpeed tp clock l)
  then show ?thesis by (simp add: speed_tick_def take_accept_marks_def con_info_def split: option.split)
qed (auto simp: con_info_def con_error_def device_block_def banner_def connected_to_def con_authorized_def con_job_def
    con_share_found_def con_share_result_def message_defs Let_def)

lemma step_accounts:
  assumes "verbosity_ok s" "cn_silence s < 3" "unat (cn_marks s) + accepts [c] < 2 ^ 32"
  shows "told c (drop (length (cn_screen s)) (cn_screen (console_step c s))) + unat (cn_marks (console_step c s)) =
    unat (cn_marks s) + accepts [c]"
proof (cases c)
  case (OpSpeed tp clock l)
  then show ?thesis
    using assms(2)
    by (simp add: speed_tick_def take_accept_marks_def con_info_def short_line_def print_line_def log_line_def)
next
  case (OpResult code de ms)
  show ?thesis
  proof (cases "code = 1")
    case True
    show ?thesis
    proof (cases "cn_compact s")
      case compact: True
      have "unat (cn_marks s + 1) = unat (cn_marks s) + 1"
        using assms(3) OpResult True unat_add_lem [of "cn_marks s" 1] by simp
      with compact OpResult True show ?thesis by (simp add: con_share_result_def)
    next
      case False
      with assms(1) have "\<not> cn_silence s \<ge> 2" by (auto simp: verbosity_ok_def)
      with False OpResult True show ?thesis
        by (simp add: con_share_result_def Let_def print_colored_def log_line_def)
    qed
  next
    case False
    with OpResult show ?thesis by (simp add: con_share_result_def Let_def)
  qed
qed (auto simp: con_info_def con_error_def device_block_def banner_def connected_to_def con_authorized_def con_job_def
    con_share_found_def message_defs Let_def)

lemma steps_account:
  "verbosity_ok s \<Longrightarrow> cn_silence s < 3 \<Longrightarrow> unat (cn_marks s) + accepts cs < 2 ^ 32 \<Longrightarrow>
    told_by cs s + unat (cn_marks (fold console_step cs s)) = unat (cn_marks s) + accepts cs"
proof (induction cs arbitrary: s)
  case (Cons c cs)
  have sum: "accepts (c # cs) = accepts [c] + accepts cs" by simp
  have one: "told c (drop (length (cn_screen s)) (cn_screen (console_step c s))) + unat (cn_marks (console_step c s)) =
      unat (cn_marks s) + accepts [c]"
    using Cons.prems sum by (intro step_accounts) linarith+
  have "told_by cs (console_step c s) + unat (cn_marks (fold console_step cs (console_step c s))) =
      unat (cn_marks (console_step c s)) + accepts cs"
    using Cons.prems step_levels [of c s] one sum by (intro Cons.IH) (auto simp: verbosity_ok_def)
  with one sum show ?case by simp
qed simp

text \<open>
  C33: No accepted share is passed over and none told twice: below the highest silence, over any course of
  messages, the accepts that were told, each by a line of its own or by a mark after a speed line, and
  the marks that wait for the next speed line together are exactly the accepts the pool sent, as long as
  they fit 32 bits; and any other verdict of the pool is printed at once, at every level.
\<close>
theorem accepts_accounted:
  assumes "s' = set_verbosity silence tight s" "cn_marks s = 0" "accepts cs < 2 ^ 32"
  shows "(silence < 3 \<longrightarrow> told_by cs s' + unat (cn_marks (fold console_step cs s')) = accepts cs) \<and>
    (code \<noteq> 1 \<longrightarrow> (\<exists>text. cn_screen (con_share_result code de ms u) =
       cn_screen u @ [(if cn_nocolor u then None else Some Red, text)]))"
proof
  have m: "cn_marks s' = 0" using assms(1,2) by (simp add: set_verbosity_def Let_def)
  show "silence < 3 \<longrightarrow> told_by cs s' + unat (cn_marks (fold console_step cs s')) = accepts cs"
  proof
    assume "silence < 3"
    then have "cn_silence s' < 3" using assms(1) by (simp add: set_verbosity_def Let_def)
    from steps_account [OF _ this, of cs] show "told_by cs s' + unat (cn_marks (fold console_step cs s')) = accepts cs"
      using assms(1,3) m set_verbosity_ok by simp
  qed
  show "code \<noteq> 1 \<longrightarrow> (\<exists>text. cn_screen (con_share_result code de ms u) =
      cn_screen u @ [(if cn_nocolor u then None else Some Red, text)])"
    by (auto simp: con_share_result_def Let_def print_colored_def log_line_def)
qed

theorem accepts_accounted_witness:
  "let cs = [OpResult 1 '''' 5, OpResult 1 '''' 6, OpSpeed False '''' ''x'', OpResult 1 '''' 7, OpResult 3 ''late'' 8];
       s = set_verbosity 2 False console0
   in told_by cs s = 2 \<and> told_by cs s + unat (cn_marks (fold console_step cs s)) = 3"
proof -
  let ?cs = "[OpResult 1 '''' 5, OpResult 1 '''' 6, OpSpeed False '''' ''x'', OpResult 1 '''' 7, OpResult 3 ''late'' 8]"
  have "told_by ?cs (set_verbosity 2 False console0) = 2" by code_simp
  moreover have "accepts ?cs = 3" by simp
  ultimately show ?thesis
    using accepts_accounted [OF refl, of console0 ?cs 2 False] by (simp add: Let_def console0_def)
qed

end
