(* ===== verification/Records.thy ===== *)
theory Records
  imports BeamVerify
begin

text \<open>
  The records the rounds of the CUDA solver exchange (kernels/cuda/bh3_records.cuh): how a pair, four or
  eight seed indices, a checkpoint of work word 0 and the hints of the replay are packed into 64-bit
  words, and how a round rebuilds a whole work element from them. Shown: every field comes back out of
  its record; what is rebuilt is the element of the verifier's tree; the short rebuild that
  skips all mixing is right as soon as word 0 comes from the record; and the mix of the sixteen-leaf tree can be
  split as round 4 splits it.
\<close>

unbundle bit_operations_syntax

section \<open>The records of two indices\<close>

definition kIdxMask :: u32 where "kIdxMask = 0x1FFFFFF"

definition pair_left :: "u64 \<Rightarrow> u32" where "pair_left w0 = ucast (drop_bit 24 w0) AND kIdxMask"
definition pair_right :: "u64 \<Rightarrow> u32" where "pair_right w1 = ucast w1 AND kIdxMask"
definition pair_gi :: "u64 \<Rightarrow> u32" where "pair_gi w1 = ucast (drop_bit 25 w1)"
definition pair_w0 :: "u32 \<Rightarrow> u32 \<Rightarrow> u64" where "pair_w0 key i0 = ucast key OR push_bit 24 (ucast i0)"
definition pair_w1 :: "u32 \<Rightarrow> u32 \<Rightarrow> u64" where "pair_w1 i1 gi = ucast i1 OR push_bit 25 (ucast gi)"

text \<open>With the checkpoint of word 0; \<open>impb\<close> of its key bits are the bucket's address and are not stored.\<close>

definition pw0_w0 :: "nat \<Rightarrow> u64 \<Rightarrow> u32 \<Rightarrow> u64" where
  "pw0_w0 impb w0 gi =
    (let impKB = 24 - impb
     in (w0 AND (push_bit impKB 1 - 1)) OR push_bit impKB (drop_bit 24 w0) OR push_bit (64 - impb) (ucast (drop_bit 14 gi)))"

definition pw0_w1 :: "u32 \<Rightarrow> u32 \<Rightarrow> u32 \<Rightarrow> u64" where
  "pw0_w1 li ri gi = ucast li OR push_bit 25 (ucast ri) OR push_bit 50 (ucast (gi AND 0x3FFF))"

definition pw0_word0 :: "nat \<Rightarrow> u64 \<Rightarrow> u32 \<Rightarrow> u64" where
  "pw0_word0 impb r0 bucket =
    (let impKB = 24 - impb
     in (r0 AND (push_bit impKB 1 - 1)) OR push_bit impKB (ucast bucket) OR push_bit 24 (drop_bit impKB r0 AND 0xFFFFFFFFFF))"

definition pw0_left :: "u64 \<Rightarrow> u32" where "pw0_left r1 = ucast r1 AND kIdxMask"
definition pw0_right :: "u64 \<Rightarrow> u32" where "pw0_right r1 = ucast (drop_bit 25 r1) AND kIdxMask"
definition pw0_gi :: "nat \<Rightarrow> u64 \<Rightarrow> u64 \<Rightarrow> u32" where
  "pw0_gi impb r0 r1 = ucast (drop_bit 50 r1) OR push_bit 14 (ucast (drop_bit (64 - impb) r0) AND 0xFFF)"

section \<open>The records of four indices\<close>

definition r3_p0 :: "u32 \<Rightarrow> u32 \<Rightarrow> u32 \<Rightarrow> u64" where
  "r3_p0 l0 l1 l2 = ucast l0 OR push_bit 25 (ucast l1) OR push_bit 50 (ucast l2 AND 0x3FFF)"
definition r3_p1 :: "u32 \<Rightarrow> u32 \<Rightarrow> u32 \<Rightarrow> u64" where
  "r3_p1 l2 l3 gi = drop_bit 14 (ucast l2) OR push_bit 11 (ucast l3) OR push_bit 36 (ucast gi)"
definition r3_l0 :: "u64 \<Rightarrow> u32" where "r3_l0 p0 = ucast (p0 AND ucast kIdxMask)"
definition r3_l1 :: "u64 \<Rightarrow> u32" where "r3_l1 p0 = ucast (drop_bit 25 p0 AND ucast kIdxMask)"
definition r3_l2 :: "u64 \<Rightarrow> u64 \<Rightarrow> u32" where
  "r3_l2 p0 p1 = ucast ((drop_bit 50 p0 AND 0x3FFF) OR push_bit 14 (p1 AND 0x7FF))"
definition r3_l3 :: "u64 \<Rightarrow> u32" where "r3_l3 p1 = ucast (drop_bit 11 p1 AND ucast kIdxMask)"
definition r3_gi :: "u64 \<Rightarrow> u32" where "r3_gi p1 = ucast (drop_bit 36 p1 AND 0x3FFFFFF)"

definition quad_w0 :: "u32 \<Rightarrow> u32 \<Rightarrow> u64" where "quad_w0 key l0 = ucast key OR push_bit 24 (ucast l0)"
definition quad_w1 :: "u32 \<Rightarrow> u32 \<Rightarrow> u64" where "quad_w1 l1 l2 = ucast l1 OR push_bit 25 (ucast l2)"
definition quad_w2 :: "u32 \<Rightarrow> u32 \<Rightarrow> u64" where "quad_w2 l3 gi = ucast l3 OR push_bit 25 (ucast gi)"
definition quad_l0 :: "u64 \<Rightarrow> u32" where "quad_l0 w0 = ucast (drop_bit 24 w0) AND kIdxMask"
definition quad_l1 :: "u64 \<Rightarrow> u32" where "quad_l1 w1 = ucast w1 AND kIdxMask"
definition quad_l2 :: "u64 \<Rightarrow> u32" where "quad_l2 w1 = ucast (drop_bit 25 w1) AND kIdxMask"
definition quad_l3 :: "u64 \<Rightarrow> u32" where "quad_l3 w2 = ucast w2 AND kIdxMask"
definition quad_gi :: "u64 \<Rightarrow> u32" where "quad_gi w2 = ucast (drop_bit 25 w2)"

definition quad16_w0 :: "u32 \<Rightarrow> u32 list \<Rightarrow> u64" where
  "quad16_w0 key l = ucast key OR push_bit 24 (ucast (l ! 0)) OR push_bit 49 (ucast (l ! 1))"
definition quad16_w1 :: "u32 list \<Rightarrow> u64" where
  "quad16_w1 l = drop_bit 15 (ucast (l ! 1)) OR push_bit 10 (ucast (l ! 2)) OR push_bit 35 (ucast (l ! 3))"
definition quad16_leaves :: "u64 \<Rightarrow> u64 \<Rightarrow> u32 list" where
  "quad16_leaves w0 w1 =
    [ucast (drop_bit 24 w0) AND kIdxMask,
     ucast ((drop_bit 49 w0 OR push_bit 15 w1) AND ucast kIdxMask),
     ucast (drop_bit 10 w1) AND kIdxMask,
     ucast (drop_bit 35 w1) AND kIdxMask]"

section \<open>The record of round 3 for round 4\<close>

definition r3o_w4 :: "u64 \<Rightarrow> u32 \<Rightarrow> u64" where
  "r3o_w4 w4 hint = (w4 AND 0x00FFFFFFFFFFFFFF) OR push_bit 56 (ucast (hint AND 0xFF))"
definition r3o_meta :: "u32 \<Rightarrow> u32 \<Rightarrow> u32 \<Rightarrow> u64" where
  "r3o_meta lead gi hint =
    ucast (lead AND kIdxMask) OR push_bit 25 (ucast (gi AND 0x3FFFFFF)) OR push_bit 51 (ucast (drop_bit 8 hint))"
definition r3o_lead :: "u64 \<Rightarrow> u32" where "r3o_lead m = ucast (m AND ucast kIdxMask)"
definition r3o_gi :: "u64 \<Rightarrow> u32" where "r3o_gi m = ucast (drop_bit 25 m AND 0x3FFFFFF)"
definition r3o_hint :: "u64 \<Rightarrow> u64 \<Rightarrow> u32" where
  "r3o_hint w4 m = ucast (drop_bit 56 w4) OR push_bit 8 (ucast (drop_bit 51 m))"

section \<open>The records of eight indices\<close>

definition octo_w0 :: "u32 \<Rightarrow> u32 list \<Rightarrow> u64" where
  "octo_w0 key l = ucast key OR push_bit 24 (ucast (l ! 0)) OR push_bit 49 (ucast (l ! 1))"
definition octo_w1 :: "u32 list \<Rightarrow> u64" where
  "octo_w1 l = drop_bit 15 (ucast (l ! 1)) OR push_bit 10 (ucast (l ! 2)) OR push_bit 35 (ucast (l ! 3)) OR push_bit 60 (ucast (l ! 4))"
definition octo_w2 :: "u32 list \<Rightarrow> u64" where
  "octo_w2 l = drop_bit 4 (ucast (l ! 4)) OR push_bit 21 (ucast (l ! 5)) OR push_bit 46 (ucast (l ! 6))"
definition octo_w3 :: "u32 list \<Rightarrow> u32 \<Rightarrow> u64" where
  "octo_w3 l gi = drop_bit 18 (ucast (l ! 6)) OR push_bit 7 (ucast (l ! 7)) OR push_bit 32 (ucast gi)"
definition octo_leaves :: "u64 \<Rightarrow> u64 \<Rightarrow> u64 \<Rightarrow> u64 \<Rightarrow> u32 list" where
  "octo_leaves w0 w1 w2 w3 =
    [ucast (drop_bit 24 w0) AND kIdxMask,
     ucast ((drop_bit 49 w0 OR push_bit 15 w1) AND ucast kIdxMask),
     ucast (drop_bit 10 w1) AND kIdxMask,
     ucast (drop_bit 35 w1) AND kIdxMask,
     ucast ((drop_bit 60 w1 OR push_bit 4 w2) AND ucast kIdxMask),
     ucast (drop_bit 21 w2) AND kIdxMask,
     ucast ((drop_bit 46 w2 OR push_bit 18 w3) AND ucast kIdxMask),
     ucast (drop_bit 7 w3) AND kIdxMask]"
definition octo_lead :: "u64 \<Rightarrow> u32" where "octo_lead w0 = ucast (drop_bit 24 w0) AND kIdxMask"
definition octo_gi :: "u64 \<Rightarrow> u32" where "octo_gi w3 = ucast (drop_bit 32 w3)"

text \<open>With the checkpoint of word 0 in place of the key and \<open>gi\<close>.\<close>

definition ow0_w0 :: "u64 \<Rightarrow> u32 list \<Rightarrow> u64" where
  "ow0_w0 w0 l = (w0 AND 0x3FF) OR push_bit 10 (drop_bit 24 w0 AND 0xFFFFFFFFFF) OR push_bit 50 (ucast (l ! 0))"
definition ow0_w1 :: "u32 list \<Rightarrow> u64" where
  "ow0_w1 l = drop_bit 14 (ucast (l ! 0)) OR push_bit 11 (ucast (l ! 1)) OR push_bit 36 (ucast (l ! 2)) OR push_bit 61 (ucast (l ! 3))"
definition ow0_w2 :: "u32 list \<Rightarrow> u64" where
  "ow0_w2 l = drop_bit 3 (ucast (l ! 3)) OR push_bit 22 (ucast (l ! 4)) OR push_bit 47 (ucast (l ! 5))"
definition ow0_w3 :: "u32 list \<Rightarrow> u64" where
  "ow0_w3 l = drop_bit 17 (ucast (l ! 5)) OR push_bit 8 (ucast (l ! 6)) OR push_bit 33 (ucast (l ! 7))"
definition ow0_leaves :: "u64 \<Rightarrow> u64 \<Rightarrow> u64 \<Rightarrow> u64 \<Rightarrow> u32 list" where
  "ow0_leaves w0 w1 w2 w3 =
    [ucast ((drop_bit 50 w0 OR push_bit 14 w1) AND ucast kIdxMask),
     ucast (drop_bit 11 w1) AND kIdxMask,
     ucast (drop_bit 36 w1) AND kIdxMask,
     ucast ((drop_bit 61 w1 OR push_bit 3 w2) AND ucast kIdxMask),
     ucast (drop_bit 22 w2) AND kIdxMask,
     ucast ((drop_bit 47 w2 OR push_bit 17 w3) AND ucast kIdxMask),
     ucast (drop_bit 8 w3) AND kIdxMask,
     ucast (drop_bit 33 w3) AND kIdxMask]"
definition ow0_word0 :: "u64 \<Rightarrow> u64" where
  "ow0_word0 w0 = (w0 AND 0x3FF) OR push_bit 24 (drop_bit 10 w0 AND 0xFFFFFFFFFF)"
definition ow0_lead :: "u64 \<Rightarrow> u64 \<Rightarrow> u32" where
  "ow0_lead w0 w1 = ucast ((drop_bit 50 w0 OR push_bit 14 w1) AND ucast kIdxMask)"

section \<open>The record of round 4 for the terminal round\<close>

definition t5_rec :: "u64 \<Rightarrow> u32 \<Rightarrow> u64" where
  "t5_rec w0 bucket =
    (w0 AND 0x3FF) OR push_bit 10 (drop_bit 24 w0 AND 0xFFFFFF) OR push_bit 34 (ucast bucket) OR
    push_bit 51 (drop_bit 48 w0 AND 0x1FFF)"
definition t5_work :: "u64 \<Rightarrow> u64" where
  "t5_work r = (r AND 0x3FF) OR push_bit 24 (drop_bit 10 r AND 0xFFFFFF)"
definition t5_bucket :: "u64 \<Rightarrow> u32" where "t5_bucket r = ucast (drop_bit 34 r AND 0x1FFFF)"
definition t5_ident :: "u64 \<Rightarrow> u64" where
  "t5_ident r = (r AND 0x3FF) OR push_bit 10 (drop_bit 10 r AND 0xFFFFFF) OR push_bit 34 (drop_bit 51 r)"
definition t5_ident_w0 :: "u64 \<Rightarrow> u64" where
  "t5_ident_w0 w0 = (w0 AND 0x3FF) OR push_bit 10 (drop_bit 24 w0 AND 0xFFFFFF) OR push_bit 34 (drop_bit 48 w0 AND 0x1FFF)"

section \<open>Rebuilding\<close>

definition rebuild_r2 :: "u64 list \<Rightarrow> u32 \<Rightarrow> u32 \<Rightarrow> elem" where
  "rebuild_r2 pp li ri =
    (let a = apply_mix (seed_element pp li) [li] 1 448;
         b = apply_mix (seed_element pp ri) [ri] 1 448
     in apply_mix (combine a b 424) [li, ri] 2 424)"

definition rebuild_r3 :: "u64 list \<Rightarrow> u32 list \<Rightarrow> elem" where
  "rebuild_r3 pp l =
    (let a = rebuild_r2 pp (l ! 0) (l ! 1); b = rebuild_r2 pp (l ! 2) (l ! 3)
     in apply_mix (combine a b 400) [l ! 0, l ! 1, l ! 2, l ! 3] 4 400)"

definition rebuild_r4 :: "u64 list \<Rightarrow> u32 list \<Rightarrow> elem" where
  "rebuild_r4 pp l =
    (let a = rebuild_r3 pp l; b = rebuild_r3 pp (drop 4 l) in apply_mix (combine a b 376) l 6 376)"

text \<open>The linear lane: words 1 to 6 of an array, its word 0 left as it is.\<close>

definition rebuild_r2_lane :: "u64 list \<Rightarrow> u32 \<Rightarrow> u32 \<Rightarrow> u64 list \<Rightarrow> u64 list" where
  "rebuild_r2_lane pp li ri w16 =
    (let sip = (\<lambda>i k. siphash24 (pp ! 0) (pp ! 1) (pp ! 2) (pp ! 3) (push_bit 3 (ucast (i :: u32)) + of_nat k));
         x = (\<lambda>k. sip li k XOR sip ri k)
     in w16 ! 0 # map (\<lambda>i. drop_bit 24 (x i) OR push_bit 40 (x (i + 1))) [1..<6] @ [drop_bit 24 (x 6) AND (push_bit 40 1 - 1)])"

definition combine_hi :: "u64 list \<Rightarrow> u64 list \<Rightarrow> u32 \<Rightarrow> u64 list \<Rightarrow> u64 list" where
  "combine_hi a b Lout out =
    (let x = (\<lambda>i. a ! i XOR b ! i)
     in out ! 0 # map (\<lambda>i. combine_trunc Lout i (drop_bit 24 (x i) OR (if i < 6 then push_bit 40 (x (i + 1)) else 0))) [1..<7])"

text \<open>The local arrays of the code have no word 0; here it is 0 and is never read.\<close>

definition no_words :: "u64 list" where "no_words = replicate 7 0"

definition rebuild_r3_lane :: "u64 list \<Rightarrow> u32 list \<Rightarrow> u64 list \<Rightarrow> u64 list" where
  "rebuild_r3_lane pp l w16 =
    combine_hi (rebuild_r2_lane pp (l ! 0) (l ! 1) no_words) (rebuild_r2_lane pp (l ! 2) (l ! 3) no_words) 400 w16"

definition rebuild_r4_lane :: "u64 list \<Rightarrow> u32 list \<Rightarrow> u64 list \<Rightarrow> u64 list" where
  "rebuild_r4_lane pp l w16 =
    combine_hi (rebuild_r3_lane pp l no_words) (rebuild_r3_lane pp (drop 4 l) no_words) 376 w16"

definition octo_contrib :: "u32 list \<Rightarrow> u64" where
  "octo_contrib l = rotl64 (elem_w (apply_mix \<lparr>elem_w = replicate kWorkWords 0\<rparr> l 8 288) ! 0) 40"

section \<open>Fields of a word\<close>

text \<open>A value of at most \<open>n\<close> bits.\<close>

definition fits :: "nat \<Rightarrow> 'a::len word \<Rightarrow> bool" where
  "fits n x \<longleftrightarrow> unat x < 2 ^ n"

lemma fits_bit: "fits n x \<Longrightarrow> bit x k \<Longrightarrow> k < n"
  using bit_high_False [of x n k] by (auto simp: fits_def not_less [symmetric])

lemma mask_consts:
  "kIdxMask = mask 25" "(0x3FFF :: u64) = mask 14" "(0x3FFF :: u32) = mask 14" "(0x7FF :: u64) = mask 11" "(0x3FFFFFF :: u64) = mask 26"
  "(0x3FFFFFF :: u32) = mask 26" "(0x3FF :: u64) = mask 10" "(0xFFFFFFFFFF :: u64) = mask 40" "(0xFFFFFF :: u64) = mask 24"
  "(0x1FFF :: u64) = mask 13" "(0x1FFFF :: u64) = mask 17" "(0xFF :: u32) = mask 8" "(0xFFF :: u32) = mask 12"
  "(0x00FFFFFFFFFFFFFF :: u64) = mask 56" "(0xFFFFFF :: u32) = mask 24"
  by (simp_all add: kIdxMask_def mask_numeral)

lemma ucast_idx_mask: "(ucast kIdxMask :: u64) = mask 25"
  by (simp add: kIdxMask_def mask_numeral)

lemma low_ones: "push_bit n 1 - 1 = (mask n :: u64)" "2 ^ n - 1 = (mask n :: u64)"
  by (simp_all add: mask_eq_exp_minus_1)

lemmas record_bits = mask_consts ucast_idx_mask low_ones bit_simps

lemmas pair_defs = pair_left_def pair_right_def pair_gi_def pair_w0_def pair_w1_def
lemmas pw0_defs = pw0_w0_def pw0_w1_def pw0_word0_def pw0_left_def pw0_right_def pw0_gi_def
lemmas r3_defs = r3_p0_def r3_p1_def r3_l0_def r3_l1_def r3_l2_def r3_l3_def r3_gi_def
lemmas quad_defs = quad_w0_def quad_w1_def quad_w2_def quad_l0_def quad_l1_def quad_l2_def quad_l3_def quad_gi_def
lemmas r3o_defs = r3o_w4_def r3o_meta_def r3o_lead_def r3o_gi_def r3o_hint_def
lemmas octo_defs = octo_w0_def octo_w1_def octo_w2_def octo_w3_def octo_leaves_def octo_lead_def octo_gi_def
lemmas ow0_defs = ow0_w0_def ow0_w1_def ow0_w2_def ow0_w3_def ow0_leaves_def ow0_word0_def ow0_lead_def
lemmas t5_defs = t5_rec_def t5_work_def t5_bucket_def t5_ident_def t5_ident_w0_def

text \<open>The key of a record: its low 24 bits, in every form.\<close>

definition rec_key :: "u64 \<Rightarrow> u32" where
  "rec_key rec0 = ucast (rec0 AND 0xFFFFFF)"

lemma fits_rec_key [simp]: "fits 24 (rec_key w)"
proof -
  have "unat (rec_key w) = take_bit 24 (unat w)"
    by (simp add: rec_key_def mask_consts take_bit_eq_mask [symmetric] unsigned_ucast_eq unsigned_take_bit_eq)
  then show ?thesis using take_bit_nat_less_exp [of 24 "unat w"] by (simp add: fits_def)
qed

lemma pair_fields:
  assumes "fits 25 i0" "fits 25 i1" "fits 24 key"
  shows "rec_key (pair_w0 key i0) = key" "pair_left (pair_w0 key i0) = i0"
    "pair_right (pair_w1 i1 gi) = i1" "pair_gi (pair_w1 i1 gi) = gi"
  using assms [THEN fits_bit]
  by (auto intro!: bit_word_eqI simp: rec_key_def pair_defs record_bits; force)+

lemma quad_fields:
  assumes "fits 25 l0" "fits 25 l1" "fits 25 l2" "fits 25 l3" "fits 24 key"
  shows "rec_key (quad_w0 key l0) = key" "quad_l0 (quad_w0 key l0) = l0" "quad_l1 (quad_w1 l1 l2) = l1"
    "quad_l2 (quad_w1 l1 l2) = l2" "quad_l3 (quad_w2 l3 gi) = l3" "quad_gi (quad_w2 l3 gi) = gi"
  using assms [THEN fits_bit]
  by (auto intro!: bit_word_eqI simp: rec_key_def quad_defs record_bits; force)+

lemma r3_fields:
  assumes "fits 25 l0" "fits 25 l1" "fits 25 l2" "fits 25 l3" "fits 26 gi"
  shows "r3_l0 (r3_p0 l0 l1 l2) = l0" "r3_l1 (r3_p0 l0 l1 l2) = l1" "r3_l2 (r3_p0 l0 l1 l2) (r3_p1 l2 l3 gi) = l2"
    "r3_l3 (r3_p1 l2 l3 gi) = l3" "r3_gi (r3_p1 l2 l3 gi) = gi"
  using assms [THEN fits_bit]
  by (auto intro!: bit_word_eqI simp: r3_defs record_bits; force)+

text \<open>The form of \<open>pw0\<close>: between 12 and 24 of the key's bits are the bucket's address.\<close>

lemma pw0_fields:
  assumes "fits 25 li" "fits 25 ri"
  shows "pw0_left (pw0_w1 li ri gi) = li" "pw0_right (pw0_w1 li ri gi) = ri"
  using assms [THEN fits_bit]
  by (auto intro!: bit_word_eqI simp: pw0_w1_def pw0_left_def pw0_right_def record_bits; force)+

lemma pw0_gi_back:
  assumes "fits 25 li" "fits 25 ri" "fits 26 gi" "12 \<le> impb" "impb \<le> 24"
  shows "pw0_gi impb (pw0_w0 impb w gi) (pw0_w1 li ri gi) = gi"
proof (rule bit_word_eqI)
  fix n :: nat assume n: "n < LENGTH(32)"
  note f = assms(1-3) [THEN fits_bit]
  have hi: "\<not> bit w k" if "64 \<le> k" for k using bit_imp_le_length [of w k] that by auto
  have a: "bit (drop_bit 50 (pw0_w1 li ri gi)) n \<longleftrightarrow> n < 14 \<and> bit gi n"
    using f by (auto simp: pw0_w1_def record_bits; force)
  have b': "bit (drop_bit (64 - impb) (pw0_w0 impb w gi)) (n - 14) \<longleftrightarrow> n - 14 < impb \<and> bit gi (n - 14 + 14)"
    using assms(4,5) hi [of "64 + (n - 14)"] by (auto simp: pw0_w0_def Let_def record_bits ac_simps)
  show "bit (pw0_gi impb (pw0_w0 impb w gi) (pw0_w1 li ri gi)) n = bit gi n"
  proof (cases "n < 14")
    case True
    with n show ?thesis
      unfolding pw0_gi_def bit_or_iff bit_push_bit_iff by (simp add: bit_unsigned_iff a)
  next
    case False
    then have "bit (pw0_gi impb (pw0_w0 impb w gi) (pw0_w1 li ri gi)) n \<longleftrightarrow>
        n - 14 < 12 \<and> bit (drop_bit (64 - impb) (pw0_w0 impb w gi)) (n - 14)"
      using n by (auto simp: pw0_gi_def bit_or_iff bit_push_bit_iff bit_and_iff bit_unsigned_iff mask_consts bit_mask_iff a)
    with False b' f(3) [of n] assms(4) show ?thesis by auto
  qed
qed

text \<open>Word 0 put back together: what is needed of the packed word are its lower bits alone.\<close>

lemma packed_word0_back:
  assumes "12 \<le> impb" "impb \<le> 24" "bucket = drop_bit (24 - impb) (rec_key w)"
    and low: "\<And>m. m < 64 - impb \<Longrightarrow> bit r m \<longleftrightarrow> (if m < 24 - impb then bit w m else bit w (m + impb))"
  shows "pw0_word0 impb r bucket = w"
proof (rule bit_word_eqI)
  fix n :: nat assume n: "n < LENGTH(64)"
  define k where "k = 24 - impb"
  have k: "k \<le> 12" "impb = 24 - k" using assms(1,2) by (auto simp: k_def)
  note low = low [folded k_def]
  have bk: "bit bucket m \<longleftrightarrow> m + k < 24 \<and> bit w (m + k)" for m
    using k by (auto simp: assms(3) rec_key_def record_bits ac_simps simp flip: k_def dest: bit_imp_le_length)
  consider "n < k" | "k \<le> n" "n < 24" | "24 \<le> n" by linarith
  then show "bit (pw0_word0 impb r bucket) n = bit w n"
  proof cases
    case 1
    with k n low [of n] show ?thesis
      by (simp add: pw0_word0_def Let_def record_bits flip: k_def)
  next
    case 2
    then have "n - k < 64" by simp
    with 2 k n bk [of "n - k"] show ?thesis
      by (simp add: pw0_word0_def Let_def record_bits flip: k_def)
  next
    case 3
    then have "n + k - 24 < 64 - impb" "\<not> n + k - 24 < k" "n + k - 24 + impb = n" "n - 24 < 40" "\<not> n < k" "k + n - 24 = n + k - 24" "n - 24 + k = n + k - 24"
      using k n by auto
    with 3 n low [of "n + k - 24"] bk [of "n - k"] show ?thesis
      by (simp add: pw0_word0_def Let_def record_bits flip: k_def)
  qed
qed

lemma pw0_word0_back:
  assumes "12 \<le> impb" "impb \<le> 24" "bucket = drop_bit (24 - impb) (rec_key w)"
  shows "pw0_word0 impb (pw0_w0 impb w gi) bucket = w"
  by (rule packed_word0_back [OF assms]) (use assms(1,2) in \<open>auto simp: pw0_w0_def Let_def record_bits ac_simps\<close>)

lemma quad16_fields:
  assumes "list_all (fits 25) l" "length l = 4" "fits 24 key"
  shows "rec_key (quad16_w0 key l) = key" "quad16_leaves (quad16_w0 key l) (quad16_w1 l) = l"
proof -
  have l: "fits 25 (l ! i)" if "i < 4" for i using assms that by (simp add: list_all_length)
  note f = l [of 0, simplified, THEN fits_bit] l [of 1, simplified, THEN fits_bit] l [of 2, simplified, THEN fits_bit]
    l [of 3, simplified, THEN fits_bit] assms(3) [THEN fits_bit]
  show "rec_key (quad16_w0 key l) = key"
    using f by (auto intro!: bit_word_eqI simp: quad16_w0_def rec_key_def record_bits; force)
  have e: "ucast (drop_bit 24 (quad16_w0 key l)) AND kIdxMask = l ! 0"
    "ucast ((drop_bit 49 (quad16_w0 key l) OR push_bit 15 (quad16_w1 l)) AND ucast kIdxMask) = l ! 1"
    "ucast (drop_bit 10 (quad16_w1 l)) AND kIdxMask = l ! 2"
    "ucast (drop_bit 35 (quad16_w1 l)) AND kIdxMask = l ! 3"
    using f by (auto intro!: bit_word_eqI simp: quad16_w0_def quad16_w1_def record_bits; force)+
  have "l = [l ! 0, l ! 1, l ! 2, l ! 3]" using assms(2) by (auto simp: list_eq_iff_nth_eq less_Suc_eq numeral_eq_Suc)
  with e show "quad16_leaves (quad16_w0 key l) (quad16_w1 l) = l" by (simp only: quad16_leaves_def)
qed

lemma r3o_fields:
  assumes "fits 25 lead" "fits 26 gi" "fits 17 hint"
  shows "r3o_lead (r3o_meta lead gi hint) = lead" "r3o_gi (r3o_meta lead gi hint) = gi"
    "r3o_hint (r3o_w4 w hint) (r3o_meta lead gi hint) = hint"
  using assms [THEN fits_bit]
  by (auto intro!: bit_word_eqI simp: r3o_defs record_bits; force)+

lemma r3o_w4_low: "take_bit 56 (r3o_w4 w hint) = take_bit 56 w"
  by (rule bit_word_eqI) (auto simp: r3o_defs record_bits)

lemma eight: "length l = 8 \<Longrightarrow> l = [l ! 0, l ! 1, l ! 2, l ! 3, l ! 4, l ! 5, l ! 6, l ! 7]"
  by (auto simp: list_eq_iff_nth_eq less_Suc_eq numeral_eq_Suc)

lemma octo_fields:
  assumes "list_all (fits 25) l" "length l = 8" "fits 24 key"
  shows "rec_key (octo_w0 key l) = key" "octo_gi (octo_w3 l gi) = gi"
    "octo_leaves (octo_w0 key l) (octo_w1 l) (octo_w2 l) (octo_w3 l gi) = l"
    "octo_lead (octo_w0 key l) = l ! 0"
proof -
  have l: "fits 25 (l ! i)" if "i < 8" for i using assms that by (simp add: list_all_length)
  note f = l [of 0, simplified, THEN fits_bit] l [of 1, simplified, THEN fits_bit] l [of 2, simplified, THEN fits_bit]
    l [of 3, simplified, THEN fits_bit] l [of 4, simplified, THEN fits_bit] l [of 5, simplified, THEN fits_bit]
    l [of 6, simplified, THEN fits_bit] l [of 7, simplified, THEN fits_bit] assms(3) [THEN fits_bit]
  let ?w0 = "octo_w0 key l" and ?w1 = "octo_w1 l" and ?w2 = "octo_w2 l" and ?w3 = "octo_w3 l gi"
  show "rec_key ?w0 = key" "octo_gi ?w3 = gi"
    using f by (auto intro!: bit_word_eqI simp: octo_w0_def octo_w3_def octo_gi_def rec_key_def record_bits; force)+
  have e: "ucast (drop_bit 24 ?w0) AND kIdxMask = l ! 0"
    "ucast ((drop_bit 49 ?w0 OR push_bit 15 ?w1) AND ucast kIdxMask) = l ! 1"
    "ucast (drop_bit 10 ?w1) AND kIdxMask = l ! 2" "ucast (drop_bit 35 ?w1) AND kIdxMask = l ! 3"
    "ucast ((drop_bit 60 ?w1 OR push_bit 4 ?w2) AND ucast kIdxMask) = l ! 4"
    "ucast (drop_bit 21 ?w2) AND kIdxMask = l ! 5"
    "ucast ((drop_bit 46 ?w2 OR push_bit 18 ?w3) AND ucast kIdxMask) = l ! 6"
    "ucast (drop_bit 7 ?w3) AND kIdxMask = l ! 7"
    using f by (auto intro!: bit_word_eqI simp: octo_w0_def octo_w1_def octo_w2_def octo_w3_def record_bits; force)+
  show "octo_leaves ?w0 ?w1 ?w2 ?w3 = l"
    unfolding octo_leaves_def e by (rule eight [OF assms(2), symmetric])
  show "octo_lead ?w0 = l ! 0" using e(1) by (simp only: octo_lead_def)
qed

lemma ow0_fields:
  assumes "list_all (fits 25) l" "length l = 8"
  shows "ow0_leaves (ow0_w0 w l) (ow0_w1 l) (ow0_w2 l) (ow0_w3 l) = l"
    "ow0_lead (ow0_w0 w l) (ow0_w1 l) = l ! 0"
proof -
  have l: "fits 25 (l ! i)" if "i < 8" for i using assms that by (simp add: list_all_length)
  note f = l [of 0, simplified, THEN fits_bit] l [of 1, simplified, THEN fits_bit] l [of 2, simplified, THEN fits_bit]
    l [of 3, simplified, THEN fits_bit] l [of 4, simplified, THEN fits_bit] l [of 5, simplified, THEN fits_bit]
    l [of 6, simplified, THEN fits_bit] l [of 7, simplified, THEN fits_bit]
  let ?w0 = "ow0_w0 w l" and ?w1 = "ow0_w1 l" and ?w2 = "ow0_w2 l" and ?w3 = "ow0_w3 l"
  have e: "ucast ((drop_bit 50 ?w0 OR push_bit 14 ?w1) AND ucast kIdxMask) = l ! 0"
    "ucast (drop_bit 11 ?w1) AND kIdxMask = l ! 1" "ucast (drop_bit 36 ?w1) AND kIdxMask = l ! 2"
    "ucast ((drop_bit 61 ?w1 OR push_bit 3 ?w2) AND ucast kIdxMask) = l ! 3"
    "ucast (drop_bit 22 ?w2) AND kIdxMask = l ! 4"
    "ucast ((drop_bit 47 ?w2 OR push_bit 17 ?w3) AND ucast kIdxMask) = l ! 5"
    "ucast (drop_bit 8 ?w3) AND kIdxMask = l ! 6" "ucast (drop_bit 33 ?w3) AND kIdxMask = l ! 7"
    using f by (auto intro!: bit_word_eqI simp: ow0_w0_def ow0_w1_def ow0_w2_def ow0_w3_def record_bits; force)+
  show "ow0_leaves ?w0 ?w1 ?w2 ?w3 = l"
    unfolding ow0_leaves_def e by (rule eight [OF assms(2), symmetric])
  show "ow0_lead ?w0 ?w1 = l ! 0" using e(1) by (simp only: ow0_lead_def)
qed

text \<open>What is kept of word 0: the key bits that are not address, and all bits that \<open>combine\<close> reads.\<close>

lemma ow0_word0_back:
  "take_bit 10 (ow0_word0 (ow0_w0 w l)) = take_bit 10 w" "drop_bit 24 (ow0_word0 (ow0_w0 w l)) = drop_bit 24 w"
proof -
  have hi: "bit w k \<Longrightarrow> k < 64" for k using bit_imp_le_length [of w k] by simp
  show "take_bit 10 (ow0_word0 (ow0_w0 w l)) = take_bit 10 w"
    by (rule bit_word_eqI) (auto simp: ow0_w0_def ow0_word0_def record_bits)
  show "drop_bit 24 (ow0_word0 (ow0_w0 w l)) = drop_bit 24 w"
    by (rule bit_word_eqI) (auto simp: ow0_w0_def ow0_word0_def record_bits dest: hi)
qed

lemma t5_fields:
  assumes "fits 17 bucket"
  shows "t5_bucket (t5_rec w bucket) = bucket" "t5_ident (t5_rec w bucket) = t5_ident_w0 w"
    "take_bit 10 (t5_work (t5_rec w bucket)) = take_bit 10 w"
    "take_bit 24 (drop_bit 24 (t5_work (t5_rec w bucket))) = take_bit 24 (drop_bit 24 w)"
proof -
  note f = assms [THEN fits_bit]
  have r: "bit (t5_rec w bucket) n \<longleftrightarrow>
      (if n < 10 then bit w n else if n < 34 then bit w (n + 14) else if n < 51 then bit bucket (n - 34)
       else n < 64 \<and> bit w (n - 3))" for n
    using f [of "n - 34"] bit_imp_le_length [of "t5_rec w bucket" n]
    by (cases "n < 64") (auto simp: t5_rec_def record_bits ac_simps)
  show "t5_bucket (t5_rec w bucket) = bucket"
    by (rule bit_word_eqI) (auto simp: t5_bucket_def record_bits r ac_simps dest: f)
  show "t5_ident (t5_rec w bucket) = t5_ident_w0 w"
    by (rule bit_word_eqI) (auto simp: t5_ident_def t5_ident_w0_def record_bits r ac_simps)
  show "take_bit 10 (t5_work (t5_rec w bucket)) = take_bit 10 w"
    by (rule bit_word_eqI) (auto simp: t5_work_def record_bits r ac_simps)
  show "take_bit 24 (drop_bit 24 (t5_work (t5_rec w bucket))) = take_bit 24 (drop_bit 24 w)"
    by (rule bit_word_eqI) (auto simp: t5_work_def record_bits r ac_simps)
qed

section \<open>The rebuilt element is the element of the tree\<close>

lemma apply_mix_padded:
  "mix_padnum n L = mix_padnum m L \<Longrightarrow> apply_mix e t n L = apply_mix e t m L"
  by (simp add: apply_mix_def mix_buffer_def)

lemma merge_some:
  "merge_spec r x y = Some g \<Longrightarrow>
    g_e g = combine (mix_group r x) (mix_group r y) (round_Lout r) \<and> g_tree g = g_tree x @ g_tree y"
  by (auto simp: merge_spec_def split: if_splits)

lemma mix_leaf: "mix_group 1 (leaf_group p i) = apply_mix (seed_element p i) [i] 1 448"
  by (simp add: mix_group_def leaf_group_def round_Lmix_def)

lemma beam_tree_step:
  assumes "beam_tree p d' ls = Some g" "d' = Suc d"
  obtains x y where "beam_tree p d (take (2 ^ d) ls) = Some x" "beam_tree p d (drop (2 ^ d) ls) = Some y"
    "merge_spec d' x y = Some g"
  using assms by (auto split: option.splits)

text \<open>
  The mixed element of a tree of \<open>2 ^ d\<close> leaves, without the tests of the verifier: what a solver has
  before round \<open>d + 1\<close>.
\<close>

fun node :: "u64 list \<Rightarrow> nat \<Rightarrow> u32 list \<Rightarrow> elem" where
  "node p 0 l = apply_mix (seed_element p (l ! 0)) [l ! 0] 1 448"
| "node p (Suc d) l =
    apply_mix (combine (node p d (take (2 ^ d) l)) (node p d (drop (2 ^ d) l)) (round_Lout (Suc d))) l (2 ^ Suc d) (round_Lmix (Suc (Suc d)))"

lemma wf_node [simp]: "wf_elem (node p d l)"
  by (cases d) simp_all

lemma node_tree:
  "beam_tree p d l = Some g \<Longrightarrow> length l = 2 ^ d \<Longrightarrow> mix_group (Suc d) g = node p d l \<and> g_tree g = l"
proof (induction d arbitrary: l g)
  case 0
  then obtain i where "l = [i]" by (auto simp: length_Suc_conv)
  with 0 show ?case using mix_leaf [of p i] by (auto simp: leaf_group_def)
next
  case (Suc d)
  obtain x y where x: "beam_tree p d (take (2 ^ d) l) = Some x" and y: "beam_tree p d (drop (2 ^ d) l) = Some y"
    and m: "merge_spec (Suc d) x y = Some g"
    by (rule beam_tree_step [OF Suc.prems(1) refl])
  have "mix_group (Suc d) x = node p d (take (2 ^ d) l) \<and> g_tree x = take (2 ^ d) l"
    "mix_group (Suc d) y = node p d (drop (2 ^ d) l) \<and> g_tree y = drop (2 ^ d) l"
    using Suc.IH [OF x] Suc.IH [OF y] Suc.prems(2) by simp_all
  with merge_some [OF m] have g: "g_e g = combine (node p d (take (2 ^ d) l)) (node p d (drop (2 ^ d) l)) (round_Lout (Suc d))"
    "g_tree g = l"
    by simp_all
  have "(of_nat (length l) :: u32) = 2 ^ Suc d" by (simp add: Suc.prems(2))
  with g show ?case by (simp add: mix_group_def)
qed

lemma four: "length l = 4 \<Longrightarrow> l = [l ! 0, l ! 1, l ! 2, l ! 3]"
  by (auto simp: list_eq_iff_nth_eq less_Suc_eq numeral_eq_Suc)

lemma node_levels:
  "node p 1 l = apply_mix (combine (node p 0 (take 1 l)) (node p 0 (drop 1 l)) 424) l 2 424"
  "node p 2 l = apply_mix (combine (node p 1 (take 2 l)) (node p 1 (drop 2 l)) 400) l 4 400"
  "node p 3 l = apply_mix (combine (node p 2 (take 4 l)) (node p 2 (drop 4 l)) 376) l 8 376"
  "node p 4 l = apply_mix (combine (node p 3 (take 8 l)) (node p 3 (drop 8 l)) 288) l 16 288"
  using node.simps(2) [of p 0 l] node.simps(2) [of p 1 l] node.simps(2) [of p 2 l] node.simps(2) [of p 3 l]
  by (simp_all add: round_Lout_def round_Lmix_def eval_nat_numeral del: node.simps)

declare node.simps [simp del]

lemma rebuild_r2_node: "rebuild_r2 p li ri = node p 1 [li, ri]"
  unfolding node_levels(1) by (simp add: rebuild_r2_def Let_def node.simps(1))

lemma rebuild_r3_node:
  assumes "length l = 4"
  shows "rebuild_r3 p l = node p 2 l"
proof -
  have s: "take 2 l = [l ! 0, l ! 1]" "drop 2 l = [l ! 2, l ! 3]"
    by (subst four [OF assms], simp)+
  show ?thesis unfolding rebuild_r3_def node_levels(2) s rebuild_r2_node Let_def four [OF assms, symmetric] ..
qed

lemma rebuild_r4_node:
  assumes "length l = 8"
  shows "rebuild_r4 p l = node p 3 l"
proof -
  have t: "rebuild_r3 p (take 4 l) = rebuild_r3 p l" by (simp add: rebuild_r3_def)
  have "mix_padnum 8 376 = mix_padnum 6 376" by (simp add: mix_padnum_def)
  note p = apply_mix_padded [OF this]
  show ?thesis
    unfolding node_levels(3) p using rebuild_r3_node [of "take 4 l" p] rebuild_r3_node [of "drop 4 l" p] assms
    by (simp add: rebuild_r4_def Let_def t)
qed

section \<open>The linear lane\<close>

lemma words_split: "wf_elem e \<Longrightarrow> elem_w e = elem_w e ! 0 # map ((!) (elem_w e)) [1..<7]"
  by (rule nth_equalityI) (auto simp: wf_elem_def kWorkWords_def nth_Cons split: nat.split)

lemma mix_hi: "0 < i \<Longrightarrow> elem_w (apply_mix e t n L) ! i = elem_w e ! i"
  by (simp add: apply_mix_def)

lemma combine_nth:
  "i < 7 \<Longrightarrow> elem_w (combine a b L) ! i =
    combine_trunc L i (drop_bit 24 (elem_w a ! i XOR elem_w b ! i) OR
      (if i < 6 then push_bit 40 (elem_w a ! (i + 1) XOR elem_w b ! (i + 1)) else 0))"
  by (simp add: combine_def combine_shift_def kWorkWords_def Let_def)

lemma combine_hi_nth:
  assumes "\<And>i. 0 < i \<Longrightarrow> i < 7 \<Longrightarrow> x ! i = elem_w a ! i" "\<And>i. 0 < i \<Longrightarrow> i < 7 \<Longrightarrow> y ! i = elem_w b ! i"
  shows "combine_hi x y L out = out ! 0 # map ((!) (elem_w (combine a b L))) [1..<7]"
  using assms by (auto simp: combine_hi_def combine_nth Let_def)

lemma combine_trunc_424:
  "i < 6 \<Longrightarrow> combine_trunc 424 i w = w" "combine_trunc 424 6 w = w AND (push_bit 40 1 - 1)"
  by (rule bit_word_eqI; auto simp: combine_trunc_bit record_bits)+

lemma rebuild_r2_lane_words:
  "rebuild_r2_lane p li ri out = out ! 0 # map ((!) (elem_w (rebuild_r2 p li ri))) [1..<7]"
proof -
  define a where "a = apply_mix (seed_element p li) [li] 1 448"
  define b where "b = apply_mix (seed_element p ri) [ri] 1 448"
  let ?sip = "\<lambda>i k. siphash24 (p ! 0) (p ! 1) (p ! 2) (p ! 3) (push_bit 3 (ucast (i :: u32)) + of_nat k)"
  have w: "elem_w a ! k = ?sip li k" "elem_w b ! k = ?sip ri k" if "0 < k" "k < 7" for k
    using that by (simp_all add: a_def b_def mix_hi seed_element_def kWorkWords_def)
  have r: "elem_w (rebuild_r2 p li ri) ! k = elem_w (combine a b 424) ! k" if "0 < k" for k
    using that by (simp add: rebuild_r2_def a_def b_def Let_def mix_hi)
  have u: "[1..<7] = [1..<6] @ [6 :: nat]" by code_simp
  have "map ((!) (elem_w (rebuild_r2 p li ri))) [1..<7] = map ((!) (elem_w (combine a b 424))) [1..<6] @ [elem_w (combine a b 424) ! 6]"
    unfolding u using r by simp
  also have "\<dots> = map (\<lambda>i. drop_bit 24 (?sip li i XOR ?sip ri i) OR push_bit 40 (?sip li (i + 1) XOR ?sip ri (i + 1))) [1..<6] @
      [drop_bit 24 (?sip li 6 XOR ?sip ri 6) AND (push_bit 40 1 - 1)]"
    using combine_trunc_424 by (simp add: combine_nth w)
  finally show ?thesis unfolding rebuild_r2_lane_def Let_def by simp
qed

lemma lane_at: "\<lbrakk>v = u # map ((!) (elem_w e)) [1..<7]; 0 < i; i < 7\<rbrakk> \<Longrightarrow> v ! i = elem_w e ! i"
  by (simp add: nth_Cons')

lemma rebuild_r3_lane_words:
  "rebuild_r3_lane p l out = out ! 0 # map ((!) (elem_w (rebuild_r3 p l))) [1..<7]"
proof -
  let ?c = "combine (rebuild_r2 p (l ! 0) (l ! 1)) (rebuild_r2 p (l ! 2) (l ! 3)) 400"
  have "rebuild_r3_lane p l out = out ! 0 # map ((!) (elem_w ?c)) [1..<7]"
    unfolding rebuild_r3_lane_def by (rule combine_hi_nth; rule lane_at [OF rebuild_r2_lane_words])
  then show ?thesis by (simp add: rebuild_r3_def Let_def mix_hi)
qed

lemma rebuild_r4_lane_words:
  "rebuild_r4_lane p l out = out ! 0 # map ((!) (elem_w (rebuild_r4 p l))) [1..<7]"
proof -
  let ?c = "combine (rebuild_r3 p l) (rebuild_r3 p (drop 4 l)) 376"
  have "rebuild_r4_lane p l out = out ! 0 # map ((!) (elem_w ?c)) [1..<7]"
    unfolding rebuild_r4_lane_def by (rule combine_hi_nth; rule lane_at [OF rebuild_r3_lane_words])
  then show ?thesis by (simp add: rebuild_r4_def Let_def mix_hi)
qed

lemma wf_rebuild: "wf_elem (rebuild_r2 p li ri)" "wf_elem (rebuild_r3 p l)" "wf_elem (rebuild_r4 p l)"
  by (simp_all add: rebuild_r2_def rebuild_r3_def rebuild_r4_def Let_def)

section \<open>The mix of sixteen leaves, split\<close>

lemma rotl64_bit: "b < 64 \<Longrightarrow> bit (rotl64 x b) n \<longleftrightarrow> n < 64 \<and> (if b \<le> n then bit x (n - b) else bit x (n + 64 - b))"
  using bit_imp_le_length [of x "n + 64 - b"] by (auto simp: rotl64_def bit_simps ac_simps)

lemma rotl64_disjoint:
  assumes "b < 64" "\<And>n. n < 64 \<Longrightarrow> bit z n \<longleftrightarrow> bit x n \<or> bit y n" "\<And>n. \<not> (bit x n \<and> bit y n)"
  shows "rotl64 z b = rotl64 x b + rotl64 y b"
proof -
  have "rotl64 x b + rotl64 y b = rotl64 x b OR rotl64 y b"
    by (rule disjunctive_add) (use assms in \<open>auto simp: rotl64_bit\<close>)
  also have "\<dots> = rotl64 z b"
    by (rule bit_word_eqI) (use assms in \<open>auto simp: rotl64_bit bit_or_iff\<close>)
  finally show ?thesis ..
qed

lemma rotl64_inverse: "rotl64 (rotl64 x 24) 40 = x"
  by (rule bit_word_eqI) (auto simp: rotl64_bit)

definition digest_sum :: "u64 list \<Rightarrow> u64" where
  "digest_sum t = (\<Sum>i<8. rotl64 (t ! i) (mix_rot ! i))"

lemma mix_digest_sum: "mix_digest t = rotl64 (digest_sum t) 24"
  by (simp add: mix_digest_def digest_sum_def eval_nat_numeral lessThan_Suc ac_simps)

lemma digest_sum_split:
  assumes "\<And>n. n < 512 \<Longrightarrow> bits_at t n \<longleftrightarrow> bits_at u n \<or> bits_at v n" "\<And>n. n < 512 \<Longrightarrow> \<not> (bits_at u n \<and> bits_at v n)"
  shows "digest_sum t = digest_sum u + digest_sum v"
  unfolding digest_sum_def sum.distrib [symmetric]
proof (rule sum.cong [OF refl])
  fix i assume "i \<in> {..<8 :: nat}"
  then have i: "i < 8" by simp
  have at: "bits_at w (64 * i + n) = bit (w ! i) n" if "n < 64" for w :: "u64 list" and n
    using that by (simp add: bits_at_def)
  have "mix_rot ! i < 64" using i by (auto simp: mix_rot_def less_Suc_eq numeral_eq_Suc)
  then show "rotl64 (t ! i) (mix_rot ! i) = rotl64 (u ! i) (mix_rot ! i) + rotl64 (v ! i) (mix_rot ! i)"
  proof (rule rotl64_disjoint)
    show "bit (t ! i) n \<longleftrightarrow> bit (u ! i) n \<or> bit (v ! i) n" if "n < 64" for n
      using assms(1) [of "64 * i + n"] i that by (simp add: at)
    show "\<not> (bit (u ! i) n \<and> bit (v ! i) n)" for n
      using assms(2) [of "64 * i + n"] i bit_imp_le_length [of "u ! i" n] by (cases "n < 64") (auto simp: at)
  qed
qed

text \<open>Word 0 as round 4 mixes it: its own bits and the ninth leaf, then what the left parent brought.\<close>

definition split_mix :: "elem \<Rightarrow> u32 \<Rightarrow> u64 \<Rightarrow> u64" where
  "split_mix c lead lc = rotl64 (rotl64 (elem_w (apply_mix c (replicate 8 0 @ [lead]) 9 288) ! 0) 40 + lc) 24"

lemma mixed_word0: "wf_elem e \<Longrightarrow> elem_w (apply_mix e t n L) ! 0 = rotl64 (digest_sum (mix_buffer e t n L)) 24"
  by (simp add: apply_mix_def mix_digest_sum wf_elem_def kWorkWords_def)

lemma split_mix_word:
  assumes c: "wf_elem c" "\<And>n. 288 \<le> n \<Longrightarrow> n < 448 \<Longrightarrow> \<not> bits_at (elem_w c) n"
    and l: "length l = 8" "length r = 8" "\<forall>x \<in> set (l @ r). unat x < 2 ^ 25"
  shows "split_mix c (r ! 0) (octo_contrib l) = elem_w (apply_mix c (l @ r) 16 288) ! 0"
proof -
  define z :: elem where "z = \<lparr>elem_w = replicate kWorkWords 0\<rparr>"
  have z: "wf_elem z" "\<And>n. n < 448 \<Longrightarrow> \<not> bits_at (elem_w z) n"
    by (simp_all add: z_def wf_elem_def kWorkWords_def bits_at_def)
  define t where "t = mix_buffer c (l @ r) 16 288"
  define u where "u = mix_buffer c (replicate 8 0 @ [r ! 0]) 9 288"
  define v where "v = mix_buffer z l 8 288"
  have r0: "unat (r ! 0) < 2 ^ 25" using l by auto
  note top = c(2)
  have bt: "bits_at t n \<longleftrightarrow> (if n < 288 then bits_at (elem_w c) n
      else (n - 288) div 25 < 16 \<and> bit ((l @ r) ! ((n - 288) div 25)) ((n - 288) mod 25))" if "n < 512" for n
    unfolding t_def using mix_buffer_bits [of c 288 n "l @ r" 16] c l that by simp
  have bu: "bits_at u n \<longleftrightarrow> (if n < 288 then bits_at (elem_w c) n
      else (n - 288) div 25 < 9 \<and> bit ((replicate 8 0 @ [r ! 0]) ! ((n - 288) div 25)) ((n - 288) mod 25))" if "n < 512" for n
    unfolding u_def using mix_buffer_bits [of c 288 n "replicate 8 0 @ [r ! 0]" 9] c r0 that by simp
  have bv: "bits_at v n \<longleftrightarrow> (if n < 288 then False
      else (n - 288) div 25 < 8 \<and> bit (l ! ((n - 288) div 25)) ((n - 288) mod 25))" if "n < 512" for n
    unfolding v_def using mix_buffer_bits [of z 288 n l 8] z l that by simp
  have "digest_sum t = digest_sum u + digest_sum v"
  proof (rule digest_sum_split)
    fix n :: nat assume n: "n < 512"
    then have k: "(n - 288) div 25 < 9" if "288 \<le> n" using that by (simp add: div_less_iff_less_mult)
    have c8: "(n - 288) div 25 < 8 \<or> (n - 288) div 25 = 8" if "288 \<le> n" using k [OF that] by linarith
    show "bits_at t n \<longleftrightarrow> bits_at u n \<or> bits_at v n"
      using c8 l(1) n by (cases "n < 288") (auto simp: bt bu bv nth_append)
    show "\<not> (bits_at u n \<and> bits_at v n)"
      using n by (cases "n < 288") (auto simp: bu bv nth_append)
  qed
  moreover have "octo_contrib l = digest_sum v"
    using z(1) by (simp add: octo_contrib_def mixed_word0 rotl64_inverse v_def flip: z_def)
  moreover have "rotl64 (elem_w (apply_mix c (replicate 8 0 @ [r ! 0]) 9 288) ! 0) 40 = digest_sum u"
    using c(1) by (simp add: mixed_word0 rotl64_inverse u_def)
  ultimately show ?thesis
    using c(1) by (simp add: split_mix_def mixed_word0 flip: t_def)
qed

lemma combine_top: "288 \<le> n \<Longrightarrow> n < 448 \<Longrightarrow> \<not> bits_at (elem_w (combine a b 288)) n"
  by (simp add: combine_bits)

section \<open>The terminal test\<close>

lemma is_zero_bits: "wf_elem e \<Longrightarrow> is_zero e \<longleftrightarrow> (\<forall>n < 448. \<not> bits_at (elem_w e) n)"
proof -
  assume wf: "wf_elem e"
  have "(\<forall>i < 7. elem_w e ! i = 0) \<longleftrightarrow> (\<forall>n < 448. \<not> bits_at (elem_w e) n)"
  proof
    assume z: "\<forall>n < 448. \<not> bits_at (elem_w e) n"
    show "\<forall>i < 7. elem_w e ! i = 0"
    proof (intro allI impI bit_word_eqI)
      fix i n :: nat assume "i < 7" "n < LENGTH(64)"
      with z [rule_format, of "64 * i + n"] show "bit (elem_w e ! i) n = bit 0 n" by (simp add: bits_at_def)
    qed
  qed (auto simp: bits_at_def)
  then show ?thesis by (simp add: is_zero_def kWorkWords_def list_all_iff atLeast0LessThan Ball_def)
qed

lemma terminal_zero:
  "is_zero (combine a b 24) \<longleftrightarrow> take_bit 24 (drop_bit 24 (elem_w a ! 0)) = take_bit 24 (drop_bit 24 (elem_w b ! 0))"
proof -
  have "is_zero (combine a b 24) \<longleftrightarrow> (\<forall>n < 24. bits_at (elem_w a) (n + 24) = bits_at (elem_w b) (n + 24))"
    by (subst is_zero_bits) (auto simp: combine_bits)
  also have "\<dots> \<longleftrightarrow> take_bit 24 (drop_bit 24 (elem_w a ! 0)) = take_bit 24 (drop_bit 24 (elem_w b ! 0))"
  proof
    assume e: "take_bit 24 (drop_bit 24 (elem_w a ! 0)) = take_bit 24 (drop_bit 24 (elem_w b ! 0))"
    show "\<forall>n < 24. bits_at (elem_w a) (n + 24) = bits_at (elem_w b) (n + 24)"
    proof (intro allI impI)
      fix n :: nat assume "n < 24"
      with arg_cong [OF e, of "\<lambda>w. bit w n"] show "bits_at (elem_w a) (n + 24) = bits_at (elem_w b) (n + 24)"
        by (simp add: bit_simps bits_at_def ac_simps)
    qed
  qed (auto intro!: bit_word_eqI simp: bit_simps bits_at_def ac_simps)
  finally show ?thesis .
qed

section \<open>Properties\<close>



text \<open>
  C15: What a round rebuilds from the seed indices in a record is the element of the solution tree over
  them: the rebuilt elements over two, four and eight leaves are the mixed elements of the untested tree,
  and where the verifier's tree over the eight leaves merges, the last is the one the verifier mixes
  before round 4; the short rebuilds, which compute no mix, give the same seven words in
  any array that holds the right word 0.
\<close>
theorem rebuilt_is_tree_element:
  "let l = [l0, l1, l2, l3, l4, l5, l6, l7]; e2 = node p 1 [l0, l1]; e3 = node p 2 [l0, l1, l2, l3]; e4 = node p 3 l
   in rebuild_r2 p l0 l1 = e2 \<and> rebuild_r2_lane p l0 l1 (elem_w e2 ! 0 # v) = elem_w e2 \<and>
     rebuild_r3 p l = e3 \<and> rebuild_r3_lane p l (elem_w e3 ! 0 # v) = elem_w e3 \<and>
     rebuild_r4 p l = e4 \<and> rebuild_r4_lane p l (elem_w e4 ! 0 # v) = elem_w e4 \<and>
     (case beam_tree p 3 l of None \<Rightarrow> True | Some g \<Rightarrow> e4 = mix_group 4 g \<and> g_tree g = l)"
proof -
  define l where "l = [l0, l1, l2, l3, l4, l5, l6, l7]"
  have len: "length l = 8" and t4: "take 4 l = [l0, l1, l2, l3]" by (simp_all add: l_def)
  have r3: "rebuild_r3 p l = node p 2 [l0, l1, l2, l3]"
    using rebuild_r3_node [of "take 4 l" p] by (simp add: t4 rebuild_r3_def) (simp add: l_def)
  have "case beam_tree p 3 l of None \<Rightarrow> True | Some g \<Rightarrow> mix_group (Suc 3) g = node p 3 l \<and> g_tree g = l"
    using node_tree [of p 3 l] len by (simp split: option.split)
  then have v: "case beam_tree p 3 l of None \<Rightarrow> True | Some g \<Rightarrow> node p 3 l = mix_group 4 g \<and> g_tree g = l"
    by (auto split: option.splits)
  show ?thesis
    unfolding Let_def l_def [symmetric] rebuild_r2_lane_words rebuild_r3_lane_words rebuild_r4_lane_words rebuild_r2_node r3
      rebuild_r4_node [OF len] nth_Cons_0 words_split [OF wf_node, symmetric]
    by (intro conjI refl v)
qed

text \<open>
  C17: Round 4 mixes the sixteen-leaf tree without having its sixteen leaves: from its own words, the first
  leaf of the right parent and the one word that round 3 made of the left parent's eight leaves, word 0
  comes out exactly as if all leaves were mixed in; no carry is lost in the sum.
\<close>
theorem split_mix_exact:
  assumes "length l = 8" "length r = 8" "list_all (fits 25) (l @ r)"
  shows "split_mix (combine a b 288) (r ! 0) (octo_contrib l) = elem_w (apply_mix (combine a b 288) (l @ r) 16 288) ! 0"
  by (rule split_mix_word [OF wf_combine combine_top]) (use assms in \<open>auto simp: list_all_iff fits_def\<close>)

theorem split_mix_exact_witness:
  "let a = seed_element [1, 2, 3, 4] 5; b = seed_element [1, 2, 3, 4] 6; l = [1, 2, 3, 4, 5, 6, 7, 8]; r = [0x1FFFFFF, 2, 3, 4, 5, 6, 7, 8]
   in split_mix (combine a b 288) (r ! 0) (octo_contrib l) = elem_w (apply_mix (combine a b 288) (l @ r) 16 288) ! 0"
  unfolding Let_def by (rule split_mix_exact) (simp_all add: fits_def)

end
