(* ===== verification/Search.thy ===== *)
theory Search
  imports Records "HOL-Library.Multiset"
begin

text \<open>
  How a block of a CUDA round finds its colliding pairs (kernels/cuda/fused_round.cuh): the records of one
  bucket and sub-mask are staged, those alone in their slot of the table are left out, a group
  too big for the shared memory is split on more key bits, equal slots are chained, and each element walks the
  chain behind it. The threads of a block run in an order nobody fixes; every list that an atomic counter
  or exchange orders is passed through an arbitrary permutation \<open>ord\<close>. Shown: whatever the order, if
  no drop is counted, the pairs are exactly those of equal keys, each found once.
\<close>

unbundle bit_operations_syntax

section \<open>The search\<close>

definition kTabSize :: nat where "kTabSize = 128"
definition kWalkMax :: nat where "kWalkMax = 64"
definition kMaxSpill :: nat where "kMaxSpill = 3"

text \<open>The slot of a key in the table, and the test for the part of a bucket a pass works on.\<close>

definition key_slot :: "nat \<Rightarrow> u32 \<Rightarrow> u32" where
  "key_slot sm key = drop_bit sm key AND (of_nat kTabSize - 1)"

definition in_part :: "nat \<Rightarrow> u32 \<Rightarrow> u32 \<Rightarrow> bool" where
  "in_part sbits part key \<longleftrightarrow> key AND (push_bit sbits 1 - 1) = part"

text \<open>The census: an element alone in its slot has no partner.\<close>

definition solo_filter :: "('a \<Rightarrow> u32) \<Rightarrow> nat \<Rightarrow> 'a list \<Rightarrow> 'a list" where
  "solo_filter \<kappa> sm xs = filter (\<lambda>x. 2 \<le> length (filter (\<lambda>y. key_slot sm (\<kappa> y) = key_slot sm (\<kappa> x)) xs)) xs"

definition staged :: "('a \<Rightarrow> u32) \<Rightarrow> bool \<Rightarrow> nat \<Rightarrow> nat \<Rightarrow> u32 \<Rightarrow> 'a list \<Rightarrow> 'a list" where
  "staged \<kappa> solo sm sbits part xs =
    (let g = filter (\<lambda>x. in_part sbits part (\<kappa> x)) xs in if solo then solo_filter \<kappa> sm g else g)"

text \<open>The walk: each element meets those chained before it in its slot, the latest first.\<close>

definition walk_from :: "'a list \<Rightarrow> nat \<Rightarrow> 'a list" where
  "walk_from xs j = take kWalkMax (rev (take j xs))"

definition chain_pairs :: "'a list \<Rightarrow> ('a \<times> 'a) list" where
  "chain_pairs xs = concat (map (\<lambda>j. map (Pair (xs ! j)) (walk_from xs j)) [0..<length xs])"

definition chain_drops :: "'a list \<Rightarrow> nat" where
  "chain_drops xs = length (filter (\<lambda>j. j > kWalkMax) [0..<length xs])"

text \<open>A table: the slot of a key, and the slots there are; a chain for each slot.\<close>

definition chains_by :: "(u32 \<Rightarrow> u32) \<Rightarrow> u32 list \<Rightarrow> ('a \<Rightarrow> u32) \<Rightarrow> 'a list \<Rightarrow> 'a list list" where
  "chains_by slot ss \<kappa> xs = map (\<lambda>h. filter (\<lambda>x. slot (\<kappa> x) = h) xs) ss"

definition slots :: "u32 list" where
  "slots = map of_nat [0..<kTabSize]"

text \<open>
  What an atomic leaves open: an order for each of the lists it fills, here by the number of the pass
  and whether it is the staging (0) or the chaining (1) of that pass.
\<close>

type_synonym 'a order = "nat \<Rightarrow> nat \<Rightarrow> 'a list \<Rightarrow> 'a list"

definition any_order :: "'a order \<Rightarrow> bool" where
  "any_order ord \<longleftrightarrow> (\<forall>p s xs. mset (ord p s xs) = mset xs)"

text \<open>One pass: what fits is kept in the order it was staged, chained and walked. The pairs, and the drops counted.\<close>

definition pass_by :: "'a order \<Rightarrow> nat \<Rightarrow> (u32 \<Rightarrow> u32) \<Rightarrow> u32 list \<Rightarrow> ('a \<Rightarrow> u32) \<Rightarrow> nat \<Rightarrow> 'a list \<Rightarrow> ('a \<times> 'a) list \<times> nat \<times> nat" where
  "pass_by ord p slot ss \<kappa> fcap g =
    (let cs = chains_by slot ss \<kappa> (ord p 1 (take fcap (ord p 0 g)))
     in (concat (map chain_pairs cs), length g - fcap, sum_list (map chain_drops cs)))"

definition pass_pairs :: "'a order \<Rightarrow> nat \<Rightarrow> ('a \<Rightarrow> u32) \<Rightarrow> nat \<Rightarrow> nat \<Rightarrow> 'a list \<Rightarrow> ('a \<times> 'a) list \<times> nat \<times> nat" where
  "pass_pairs ord p \<kappa> sm fcap g = pass_by ord p (key_slot sm) slots \<kappa> fcap g"

text \<open>The level of a split: the counts of the eight smallest parts, and the coarsest split whose parts all fit.\<close>

definition cnt8 :: "nat \<Rightarrow> u32 \<Rightarrow> u32 list \<Rightarrow> nat \<Rightarrow> nat" where
  "cnt8 sm part keys i =
    length (filter (\<lambda>k. (k AND 0xFF) AND (push_bit sm 1 - 1) = part \<and> drop_bit sm (k AND 0xFF) AND 7 = of_nat i) keys)"

definition part_size :: "nat \<Rightarrow> u32 \<Rightarrow> u32 list \<Rightarrow> nat \<Rightarrow> nat \<Rightarrow> nat" where
  "part_size sm part keys lv q = sum_list (map (cnt8 sm part keys) (filter (\<lambda>i. i mod 2 ^ lv = q) [0..<8]))"

fun level_from :: "(nat \<Rightarrow> bool) \<Rightarrow> nat \<Rightarrow> nat \<Rightarrow> nat" where
  "level_from ok 0 lv = kMaxSpill"
| "level_from ok (Suc n) lv = (if ok lv then lv else level_from ok n (lv + 1))"

definition spill_level :: "nat \<Rightarrow> nat \<Rightarrow> u32 \<Rightarrow> u32 list \<Rightarrow> nat" where
  "spill_level fcap sm part keys =
    level_from (\<lambda>lv. list_all (\<lambda>q. part_size sm part keys lv q \<le> fcap) [0..<2 ^ lv]) kMaxSpill 1"

text \<open>
  A block: one pass if the group fits, else one for each part of the split, whose level is chosen from the
  records of the bucket itself (\<open>dense\<close>), not from those of the overflow pool.
\<close>

definition block_pairs ::
    "'a order \<Rightarrow> ('a \<Rightarrow> u32) \<Rightarrow> bool \<Rightarrow> nat \<Rightarrow> nat \<Rightarrow> u32 \<Rightarrow> 'a list \<Rightarrow> 'a list \<Rightarrow> ('a \<times> 'a) list \<times> nat \<times> nat" where
  "block_pairs ord \<kappa> solo fcap sm part dense pool =
    (let xs = dense @ pool; g = staged \<kappa> solo sm sm part xs
     in if length g \<le> fcap then pass_pairs ord 0 \<kappa> sm fcap g
        else let xb = spill_level fcap sm part (map \<kappa> dense);
                 rs = map (\<lambda>xp. pass_pairs ord (xp + 1) \<kappa> sm fcap (staged \<kappa> solo sm (sm + xb) (part OR push_bit sm (of_nat xp)) xs)) [0..<2 ^ xb]
             in (concat (map fst rs), sum_list (map (fst \<circ> snd) rs), sum_list (map (snd \<circ> snd) rs)))"

section \<open>One chain\<close>

lemma walk_from_set:
  assumes "j \<le> length xs" "y \<in> set (walk_from xs j)"
  obtains i where "i < j" "y = xs ! i"
proof -
  from assms(2) have "y \<in> set (take j xs)" by (auto simp: walk_from_def dest!: in_set_takeD)
  then obtain i where "i < length (take j xs)" "y = take j xs ! i" by (auto simp: in_set_conv_nth)
  with assms(1) that show ?thesis by simp
qed

lemma chain_pairs_sub:
  assumes "(x, y) \<in> set (chain_pairs xs)"
  obtains i j where "i < j" "j < length xs" "x = xs ! j" "y = xs ! i"
proof -
  from assms obtain j where j: "j < length xs" "x = xs ! j" "y \<in> set (walk_from xs j)"
    by (auto simp: chain_pairs_def)
  from walk_from_set [OF _ j(3)] j(1) obtain i where "i < j" "y = xs ! i" by auto
  with j that show ?thesis by blast
qed

lemma chain_pairs_all:
  assumes "chain_drops xs = 0" "i < j" "j < length xs"
  shows "(xs ! j, xs ! i) \<in> set (chain_pairs xs)"
proof -
  have "j \<le> kWalkMax" using assms(1,3) by (auto simp: chain_drops_def filter_empty_conv)
  then have "walk_from xs j = rev (take j xs)" by (simp add: walk_from_def)
  moreover have "xs ! i \<in> set (take j xs)" using assms(2,3) nth_mem [of i "take j xs"] by simp
  ultimately show ?thesis using assms(3) by (auto simp: chain_pairs_def intro!: bexI [of _ j])
qed

lemma chain_pairs_distinct:
  assumes "distinct xs"
  shows "distinct (chain_pairs xs)"
proof -
  have "distinct (concat (map (\<lambda>j. map (Pair (xs ! j)) (walk_from xs j)) js))" if "distinct js" "set js \<subseteq> {..<length xs}" for js
    using that
  proof (induction js)
    case (Cons j js)
    have "distinct (map (Pair (xs ! j)) (walk_from xs j))"
      using assms by (simp add: walk_from_def distinct_map inj_on_def)
    moreover have "xs ! j \<notin> (!) xs ` set js"
      using Cons.prems assms by (auto simp: nth_eq_iff_index_eq)
    then have "set (map (Pair (xs ! j)) (walk_from xs j)) \<inter> set (concat (map (\<lambda>j. map (Pair (xs ! j)) (walk_from xs j)) js)) = {}"
      by auto
    ultimately show ?case using Cons.IH Cons.prems by (simp only: list.map concat.simps distinct_append distinct.simps set_simps insert_subset)
  qed simp
  then show ?thesis by (simp add: chain_pairs_def atLeast0LessThan)
qed


section \<open>One pass\<close>

lemma orderD: "any_order ord \<Longrightarrow> mset (ord p s xs) = mset xs"
  by (simp add: any_order_def)

lemma order_set: "any_order ord \<Longrightarrow> set (ord p s xs) = set xs"
  by (metis orderD set_mset_mset)

lemma order_distinct: "any_order ord \<Longrightarrow> distinct (ord p s xs) = distinct xs"
  by (metis orderD mset_eq_imp_distinct_iff)

lemma order_length: "any_order ord \<Longrightarrow> length (ord p s xs) = length xs"
  by (metis orderD size_mset)

lemma pass_kept:
  assumes "any_order ord"
  shows "set (ord p 1 (take n (ord p 0 g))) \<subseteq> set g"
    "length g \<le> n \<Longrightarrow> set (ord p 1 (take n (ord p 0 g))) = set g"
    "distinct g \<Longrightarrow> distinct (ord p 1 (take n (ord p 0 g)))"
  using assms by (auto simp: order_set order_distinct order_length dest!: in_set_takeD)

text \<open>What a table must be for its chains to hold each element once.\<close>

locale slot_table =
  fixes slot :: "u32 \<Rightarrow> u32" and ss :: "u32 list"
  assumes slot_in: "slot k \<in> set ss"
    and distinct_slots: "distinct ss"
begin

lemma pairs_found:
  assumes ord: "any_order ord" and d: "distinct g" and xy: "(x, y) \<in> set (fst (pass_by ord p slot ss \<kappa> n g))"
  shows "x \<in> set g \<and> y \<in> set g \<and> x \<noteq> y \<and> slot (\<kappa> x) = slot (\<kappa> y)"
proof -
  define c where "c = ord p 1 (take n (ord p 0 g))"
  note c = pass_kept [OF ord, where p = p and n = n and g = g, folded c_def]
  from xy obtain h where "(x, y) \<in> set (chain_pairs (filter (\<lambda>x. slot (\<kappa> x) = h) c))"
    by (auto simp: pass_by_def chains_by_def Let_def c_def)
  then obtain i j where ij: "i < j" "j < length (filter (\<lambda>x. slot (\<kappa> x) = h) c)"
    "x = filter (\<lambda>x. slot (\<kappa> x) = h) c ! j" "y = filter (\<lambda>x. slot (\<kappa> x) = h) c ! i"
    by (rule chain_pairs_sub)
  then have "x \<in> set (filter (\<lambda>x. slot (\<kappa> x) = h) c)" "y \<in> set (filter (\<lambda>x. slot (\<kappa> x) = h) c)"
    by (metis nth_mem, metis nth_mem order.strict_trans)
  moreover have "x \<noteq> y" using ij c(3) [OF d] by (simp add: nth_eq_iff_index_eq)
  ultimately show ?thesis using c(1) by auto
qed

lemma all_found:
  assumes ord: "any_order ord" and r: "pass_by ord p slot ss \<kappa> n g = (P, 0, 0)"
    and xy: "x \<in> set g" "y \<in> set g" "x \<noteq> y" "slot (\<kappa> x) = slot (\<kappa> y)"
  shows "(x, y) \<in> set P \<or> (y, x) \<in> set P"
proof -
  define c where "c = ord p 1 (take n (ord p 0 g))"
  have n: "length g \<le> n" and P: "P = concat (map chain_pairs (chains_by slot ss \<kappa> c))"
    and no: "\<forall>l \<in> set (chains_by slot ss \<kappa> c). chain_drops l = 0"
    using r by (auto simp: pass_by_def Let_def c_def)
  define f where "f = filter (\<lambda>z. slot (\<kappa> z) = slot (\<kappa> x)) c"
  have fc: "f \<in> set (chains_by slot ss \<kappa> c)" using slot_in by (auto simp: chains_by_def f_def)
  have "x \<in> set f" "y \<in> set f" using xy pass_kept(2) [OF ord n, where p = p, folded c_def] by (auto simp: f_def)
  then obtain i j where ij: "i < length f" "j < length f" "x = f ! i" "y = f ! j"
    by (metis in_set_conv_nth)
  with xy(3) have "i < j \<or> j < i" by (metis nat_neq_iff)
  then have "(x, y) \<in> set (chain_pairs f) \<or> (y, x) \<in> set (chain_pairs f)"
    using ij no fc chain_pairs_all [of f] by auto
  then show ?thesis using fc P by auto
qed

lemma found_once:
  assumes ord: "any_order ord" and d: "distinct g"
  shows "distinct (fst (pass_by ord p slot ss \<kappa> n g))"
    "(x, y) \<in> set (fst (pass_by ord p slot ss \<kappa> n g)) \<Longrightarrow> (y, x) \<notin> set (fst (pass_by ord p slot ss \<kappa> n g))"
proof -
  define c where "c = ord p 1 (take n (ord p 0 g))"
  have dc: "distinct c" using pass_kept(3) [OF ord d] by (simp add: c_def)
  define f where "f h = filter (\<lambda>x. slot (\<kappa> x) = h) c" for h
  have P: "fst (pass_by ord p slot ss \<kappa> n g) = concat (map (\<lambda>h. chain_pairs (f h)) ss)"
    by (simp add: pass_by_def chains_by_def Let_def c_def f_def comp_def)
  have slot: "slot (\<kappa> (fst q)) = h" if "q \<in> set (chain_pairs (f h))" for q h
  proof -
    have "(fst q, snd q) \<in> set (chain_pairs (f h))" using that by simp
    then obtain i j where "j < length (f h)" "fst q = f h ! j" by (rule chain_pairs_sub)
    then have "fst q \<in> set (f h)" by simp
    then show ?thesis by (simp add: f_def)
  qed
  have "distinct (concat (map (\<lambda>h. chain_pairs (f h)) hs))" if "distinct hs" for hs
    using that
  proof (induction hs)
    case (Cons h hs)
    have "distinct (chain_pairs (f h))" by (rule chain_pairs_distinct) (simp add: f_def dc)
    moreover have "set (chain_pairs (f h)) \<inter> set (concat (map (\<lambda>h. chain_pairs (f h)) hs)) = {}"
    proof (rule equals0I)
      fix q assume "q \<in> set (chain_pairs (f h)) \<inter> set (concat (map (\<lambda>h. chain_pairs (f h)) hs))"
      then obtain k where "q \<in> set (chain_pairs (f h))" "k \<in> set hs" "q \<in> set (chain_pairs (f k))" by auto
      with slot [of q h] slot [of q k] Cons.prems show False by simp
    qed
    ultimately show ?case using Cons by simp
  qed simp
  from this [OF distinct_slots] P show "distinct (fst (pass_by ord p slot ss \<kappa> n g))" by simp
  show "(y, x) \<notin> set (fst (pass_by ord p slot ss \<kappa> n g))" if xy: "(x, y) \<in> set (fst (pass_by ord p slot ss \<kappa> n g))"
  proof
    assume "(y, x) \<in> set (fst (pass_by ord p slot ss \<kappa> n g))"
    with xy P obtain h k where h: "(x, y) \<in> set (chain_pairs (f h))" and k: "(y, x) \<in> set (chain_pairs (f k))" by auto
    have xs: "slot (\<kappa> x) = slot (\<kappa> y)" using pairs_found [OF ord d xy] by simp
    with slot [OF h] slot [OF k] have "k = h" by simp
    from chain_pairs_sub [OF h] obtain i j where a: "i < j" "j < length (f h)" "x = f h ! j" "y = f h ! i" .
    from chain_pairs_sub [OF k [unfolded \<open>k = h\<close>]] obtain i' j' where b: "i' < j'" "j' < length (f h)" "y = f h ! j'" "x = f h ! i'" .
    have "distinct (f h)" by (simp add: f_def dc)
    with a b have "j = i'" "i = j'" by (auto simp: nth_eq_iff_index_eq)
    with a b show False by simp
  qed
qed

end

lemma key_slot_in: "key_slot sm k \<in> set slots"
proof -
  have "key_slot sm k = take_bit 7 (drop_bit sm k)"
    by (simp add: key_slot_def kTabSize_def take_bit_eq_mask mask_numeral and.commute)
  then have "unat (key_slot sm k) < 128" by (simp add: unsigned_take_bit_eq take_bit_nat_less_exp [of 7, simplified])
  moreover have "key_slot sm k = of_nat (unat (key_slot sm k))" by simp
  ultimately show ?thesis by (force simp: slots_def kTabSize_def)
qed

lemma slots_distinct: "distinct slots"
proof -
  have "inj_on (of_nat :: nat \<Rightarrow> u32) {0..<128}"
    by (rule inj_on_inverseI [of _ unat]) (simp add: unsigned_of_nat take_bit_nat_eq_self)
  then show ?thesis by (simp add: slots_def kTabSize_def distinct_map)
qed

interpretation rt: slot_table "key_slot sm" slots for sm
  by unfold_locales (rule key_slot_in, rule slots_distinct)

lemmas pass_sound = rt.pairs_found [folded pass_pairs_def]
lemmas pass_complete = rt.all_found [folded pass_pairs_def]
lemmas pass_once = rt.found_once [folded pass_pairs_def]

section \<open>One block\<close>

lemma in_part_take: "in_part n part k \<longleftrightarrow> take_bit n k = part"
  by (simp add: in_part_def take_bit_eq_mask mask_eq_exp_minus_1)

lemma key_slot_take: "key_slot sm k = take_bit 7 (drop_bit sm k)"
  by (simp add: key_slot_def kTabSize_def take_bit_eq_mask mask_numeral)

lemma low_key_slot: "take_bit (sm + 7) k = take_bit (sm + 7) k' \<Longrightarrow> key_slot sm k = key_slot sm k'"
  using drop_bit_take_bit [of sm "sm + 7" k] drop_bit_take_bit [of sm "sm + 7" k'] by (simp add: key_slot_take)

lemma low_key_part:
  assumes "take_bit (sm + 7) k = take_bit (sm + 7) k'" "n \<le> 7"
  shows "take_bit (sm + n) k = take_bit (sm + n) k'"
  using arg_cong [OF assms(1), of "take_bit (sm + n)"] assms(2) by (simp add: min_def)

lemma part_slot_low:
  assumes "take_bit sm k = take_bit sm k'" "key_slot sm k = key_slot sm k'"
  shows "take_bit (sm + 7) k = take_bit (sm + 7) (k' :: u32)"
proof (rule bit_word_eqI)
  fix n :: nat assume "n < LENGTH(32)"
  show "bit (take_bit (sm + 7) k) n = bit (take_bit (sm + 7) k') n"
  proof (cases "n < sm")
    case True
    with arg_cong [OF assms(1), of "\<lambda>w. bit w n"] show ?thesis by (simp add: bit_take_bit_iff)
  next
    case False
    with arg_cong [OF assms(2), of "\<lambda>w. bit w (n - sm)"] show ?thesis
      by (auto simp: key_slot_take bit_take_bit_iff bit_drop_bit_eq)
  qed
qed

lemma split_part:
  assumes "take_bit sm part = part" "xp < 2 ^ xb" "sm + xb \<le> 32"
  shows "in_part (sm + xb) (part OR push_bit sm (of_nat xp)) k \<longleftrightarrow> in_part sm part k \<and> unat (take_bit xb (drop_bit sm k)) = xp"
proof -
  let ?X = "of_nat xp :: u32"
  have xp: "xp < 2 ^ 32" using assms(2,3) by (meson le_trans le_add2 order.strict_trans2 one_le_numeral power_increasing)
  have X: "unat ?X = xp" using xp by (simp add: unsigned_of_nat take_bit_nat_eq_self)
  have Xb: "n < xb" if "bit ?X n" for n
    by (rule ccontr) (use that assms(2) X bit_high_False [of ?X xb n] in \<open>auto simp: not_less\<close>)
  have pb: "n < sm" if "bit part n" for n
    using that assms(1) by (metis bit_take_bit_iff)
  have "take_bit (sm + xb) k = part OR push_bit sm ?X \<longleftrightarrow> take_bit sm k = part \<and> take_bit xb (drop_bit sm k) = ?X"
  proof (intro iffI conjI)
    assume e: "take_bit (sm + xb) k = part OR push_bit sm ?X"
    show "take_bit sm k = part"
    proof (rule bit_word_eqI)
      fix n show "bit (take_bit sm k) n = bit part n"
        using arg_cong [OF e, of "\<lambda>w. bit w n"] pb [of n] by (auto simp: bit_simps)
    qed
    show "take_bit xb (drop_bit sm k) = ?X"
    proof (rule bit_word_eqI)
      fix n show "bit (take_bit xb (drop_bit sm k)) n = bit ?X n"
        using arg_cong [OF e, of "\<lambda>w. bit w (sm + n)"] pb [of "sm + n"] Xb [of n] assms(3) bit_imp_le_length [of k "sm + n"]
        by (auto simp: bit_simps)
    qed
  next
    assume e: "take_bit sm k = part \<and> take_bit xb (drop_bit sm k) = ?X"
    show "take_bit (sm + xb) k = part OR push_bit sm ?X"
    proof (rule bit_word_eqI)
      fix n show "bit (take_bit (sm + xb) k) n = bit (part OR push_bit sm ?X) n"
        using arg_cong [OF e [THEN conjunct1], of "\<lambda>w. bit w n"] arg_cong [OF e [THEN conjunct2], of "\<lambda>w. bit w (n - sm)"]
          pb [of n] Xb [of "n - sm"] bit_imp_le_length [of k n] by (cases "n < sm") (auto simp: bit_simps)
    qed
  qed
  moreover have "take_bit xb (drop_bit sm k) = ?X \<longleftrightarrow> unat (take_bit xb (drop_bit sm k)) = xp"
    by (metis X word_unat_eq_iff)
  ultimately show ?thesis by (simp add: in_part_take)
qed

lemma level_bound: "spill_level fcap sm part keys \<le> 3"
  by (simp add: spill_level_def kMaxSpill_def numeral_3_eq_3)

lemma staged_sub: "set (staged \<kappa> solo sm n part xs) \<subseteq> {x \<in> set xs. in_part n part (\<kappa> x)}"
  by (auto simp: staged_def solo_filter_def Let_def)

lemma staged_distinct: "distinct xs \<Longrightarrow> distinct (staged \<kappa> solo sm n part xs)"
  by (simp add: staged_def solo_filter_def Let_def)

text \<open>An element with a partner is never left out.\<close>

lemma staged_keeps:
  assumes "x \<in> set xs" "y \<in> set xs" "x \<noteq> y" "in_part n part (\<kappa> x)" "in_part n part (\<kappa> y)"
    "key_slot sm (\<kappa> x) = key_slot sm (\<kappa> y)"
  shows "x \<in> set (staged \<kappa> solo sm n part xs)"
proof -
  define g where "g = filter (\<lambda>x. in_part n part (\<kappa> x)) xs"
  define s where "s = filter (\<lambda>z. key_slot sm (\<kappa> z) = key_slot sm (\<kappa> x)) g"
  have "x \<in> set s" "y \<in> set s" using assms by (auto simp: s_def g_def)
  then have "card {x, y} \<le> card (set s)" by (intro card_mono) auto
  with assms(3) have "2 \<le> length s" using card_length [of s] by simp
  with assms(1,4) show ?thesis by (auto simp: staged_def solo_filter_def Let_def s_def g_def)
qed

definition block_split :: "('a \<Rightarrow> u32) \<Rightarrow> nat \<Rightarrow> nat \<Rightarrow> u32 \<Rightarrow> 'a list \<Rightarrow> nat" where
  "block_split \<kappa> fcap sm part dense = spill_level fcap sm part (map \<kappa> dense)"

text \<open>The passes of a block, by their number, with what each stages.\<close>

lemma block_cases:
  "(length (staged \<kappa> solo sm sm part (dense @ pool)) \<le> fcap \<and>
     block_pairs ord \<kappa> solo fcap sm part dense pool = pass_pairs ord 0 \<kappa> sm fcap (staged \<kappa> solo sm sm part (dense @ pool))) \<or>
   block_pairs ord \<kappa> solo fcap sm part dense pool =
     (let xb = block_split \<kappa> fcap sm part dense;
          rs = map (\<lambda>xp. pass_pairs ord (xp + 1) \<kappa> sm fcap
            (staged \<kappa> solo sm (sm + xb) (part OR push_bit sm (of_nat xp)) (dense @ pool))) [0..<2 ^ xb]
      in (concat (map fst rs), sum_list (map (fst \<circ> snd) rs), sum_list (map (snd \<circ> snd) rs)))"
  by (simp add: block_pairs_def block_split_def Let_def)

lemma block_complete:
  assumes ord: "any_order ord" and r: "block_pairs ord \<kappa> solo fcap sm part dense pool = (P, 0, 0)"
    and part: "take_bit sm part = part" "sm + 7 \<le> 32"
    and xy: "x \<in> set (dense @ pool)" "y \<in> set (dense @ pool)" "x \<noteq> y" "in_part sm part (\<kappa> x)"
      "take_bit (sm + 7) (\<kappa> x) = take_bit (sm + 7) (\<kappa> y)"
  shows "(x, y) \<in> set P \<or> (y, x) \<in> set P"
  using block_cases [of \<kappa> solo sm part dense pool fcap ord]
proof
  have slot: "key_slot sm (\<kappa> x) = key_slot sm (\<kappa> y)" by (rule low_key_slot [OF xy(5)])
  have in_y: "in_part sm part (\<kappa> y)" using low_key_part [OF xy(5), of 0] xy(4) by (simp add: in_part_take)
  {
    assume "length (staged \<kappa> solo sm sm part (dense @ pool)) \<le> fcap \<and>
      block_pairs ord \<kappa> solo fcap sm part dense pool = pass_pairs ord 0 \<kappa> sm fcap (staged \<kappa> solo sm sm part (dense @ pool))"
    with r have "pass_pairs ord 0 \<kappa> sm fcap (staged \<kappa> solo sm sm part (dense @ pool)) = (P, 0, 0)" by simp
    moreover have "x \<in> set (staged \<kappa> solo sm sm part (dense @ pool))" "y \<in> set (staged \<kappa> solo sm sm part (dense @ pool))"
      using staged_keeps [OF xy(1-4) in_y slot] staged_keeps [OF xy(2,1) xy(3) [symmetric] in_y xy(4) slot [symmetric]] by auto
    ultimately show ?thesis by (rule pass_complete [OF ord _ _ _ xy(3) slot])
  }
  define xb where "xb = block_split \<kappa> fcap sm part dense"
  define stg where "stg xp = staged \<kappa> solo sm (sm + xb) (part OR push_bit sm (of_nat xp)) (dense @ pool)" for xp
  assume "block_pairs ord \<kappa> solo fcap sm part dense pool =
     (let xb = block_split \<kappa> fcap sm part dense;
          rs = map (\<lambda>xp. pass_pairs ord (xp + 1) \<kappa> sm fcap
            (staged \<kappa> solo sm (sm + xb) (part OR push_bit sm (of_nat xp)) (dense @ pool))) [0..<2 ^ xb]
      in (concat (map fst rs), sum_list (map (fst \<circ> snd) rs), sum_list (map (snd \<circ> snd) rs)))"
  with r have P: "P = concat (map (\<lambda>xp. fst (pass_pairs ord (xp + 1) \<kappa> sm fcap (stg xp))) [0..<2 ^ xb])"
    and no: "\<And>xp. xp < 2 ^ xb \<Longrightarrow> snd (pass_pairs ord (xp + 1) \<kappa> sm fcap (stg xp)) = (0, 0)"
    by (auto simp: Let_def xb_def [symmetric] stg_def [symmetric] comp_def prod_eq_iff)
  have xb: "xb \<le> 3" using level_bound by (simp add: xb_def block_split_def)
  define xp where "xp = unat (take_bit xb (drop_bit sm (\<kappa> x)))"
  have xp: "xp < 2 ^ xb" by (simp add: xp_def unsigned_take_bit_eq)
  have "drop_bit sm (take_bit (sm + xb) (\<kappa> x)) = drop_bit sm (take_bit (sm + xb) (\<kappa> y))"
    using low_key_part [OF xy(5), of xb] xb by simp
  then have xp_y: "unat (take_bit xb (drop_bit sm (\<kappa> y))) = xp" by (simp add: xp_def drop_bit_take_bit)
  have len: "sm + xb \<le> 32" using part(2) xb by linarith
  have px: "in_part (sm + xb) (part OR push_bit sm (of_nat xp)) (\<kappa> x)"
    unfolding split_part [OF part(1) xp len] using xy(4) by (simp add: xp_def)
  have py: "in_part (sm + xb) (part OR push_bit sm (of_nat xp)) (\<kappa> y)"
    unfolding split_part [OF part(1) xp len] using in_y xp_y by simp
  have "x \<in> set (stg xp)" "y \<in> set (stg xp)" unfolding stg_def
    using staged_keeps [OF xy(1-3) px py slot] staged_keeps [OF xy(2,1) xy(3) [symmetric] py px slot [symmetric]] by auto
  moreover have "pass_pairs ord (xp + 1) \<kappa> sm fcap (stg xp) = (fst (pass_pairs ord (xp + 1) \<kappa> sm fcap (stg xp)), 0, 0)"
    using no [OF xp] by (metis prod.collapse)
  ultimately show ?thesis
    using pass_complete [OF ord, of "xp + 1" \<kappa> sm fcap "stg xp" _ x y] xy(3) slot xp P by fastforce
qed

text \<open>The blocks' passes as one list, so that what holds of each holds of the whole.\<close>

lemma block_passes:
  assumes part: "take_bit sm part = part" "sm + 7 \<le> 32"
  obtains ps where "fst (block_pairs ord \<kappa> solo fcap sm part dense pool) =
      concat (map (\<lambda>(p, n, part'). fst (pass_pairs ord p \<kappa> sm fcap (staged \<kappa> solo sm n part' (dense @ pool)))) ps)"
    "distinct ps" "\<And>p n q. (p, n, q) \<in> set ps \<Longrightarrow> sm \<le> n \<and> take_bit sm q = part"
    "\<And>p n q p' n' q' k. (p, n, q) \<in> set ps \<Longrightarrow> (p', n', q') \<in> set ps \<Longrightarrow> in_part n q k \<Longrightarrow> in_part n' q' k \<Longrightarrow>
      (p, n, q) = (p', n', q')"
  using block_cases [of \<kappa> solo sm part dense pool fcap ord]
proof
  assume a: "length (staged \<kappa> solo sm sm part (dense @ pool)) \<le> fcap \<and>
    block_pairs ord \<kappa> solo fcap sm part dense pool = pass_pairs ord 0 \<kappa> sm fcap (staged \<kappa> solo sm sm part (dense @ pool))"
  show thesis by (rule that [of "[(0, sm, part)]"]) (use a part in auto)
next
  define xb where "xb = block_split \<kappa> fcap sm part dense"
  assume "block_pairs ord \<kappa> solo fcap sm part dense pool =
     (let xb = block_split \<kappa> fcap sm part dense;
          rs = map (\<lambda>xp. pass_pairs ord (xp + 1) \<kappa> sm fcap
            (staged \<kappa> solo sm (sm + xb) (part OR push_bit sm (of_nat xp)) (dense @ pool))) [0..<2 ^ xb]
      in (concat (map fst rs), sum_list (map (fst \<circ> snd) rs), sum_list (map (snd \<circ> snd) rs)))"
  then have e: "fst (block_pairs ord \<kappa> solo fcap sm part dense pool) = concat (map (\<lambda>xp. fst (pass_pairs ord (xp + 1) \<kappa> sm fcap
      (staged \<kappa> solo sm (sm + xb) (part OR push_bit sm (of_nat xp)) (dense @ pool)))) [0..<2 ^ xb])"
    by (simp add: Let_def xb_def comp_def)
  have len: "sm + xb \<le> 32" using level_bound [of fcap sm part "map \<kappa> dense"] part(2) by (simp add: xb_def block_split_def)
  let ?ps = "map (\<lambda>xp. (xp + 1, sm + xb, part OR push_bit sm (of_nat xp))) [0..<2 ^ xb]"
  show thesis
  proof (rule that [of ?ps])
    show "distinct ?ps" by (auto simp: distinct_map inj_on_def)
    show "sm \<le> n \<and> take_bit sm q = part" if "(p, n, q) \<in> set ?ps" for p n q
      using that part(1) by (auto simp: take_bit_or take_bit_push_bit)
    show "(p, n, q) = (p', n', q')"
      if "(p, n, q) \<in> set ?ps" "(p', n', q') \<in> set ?ps" "in_part n q k" "in_part n' q' k" for p n q p' n' q' k
      using that split_part [OF part(1) _ len] by auto
  qed (simp add: e comp_def)
qed

lemma pass_staged:
  assumes "any_order ord" "distinct xs" "(x, y) \<in> set (fst (pass_pairs ord p \<kappa> sm fcap (staged \<kappa> solo sm n q xs)))"
  shows "x \<in> set xs \<and> y \<in> set xs \<and> x \<noteq> y \<and> key_slot sm (\<kappa> x) = key_slot sm (\<kappa> y) \<and> in_part n q (\<kappa> x) \<and> in_part n q (\<kappa> y)"
  using pass_sound [OF assms(1) staged_distinct [OF assms(2)] assms(3)] staged_sub [of \<kappa> solo sm n q xs] by auto

lemma block_sound:
  assumes ord: "any_order ord" and d: "distinct (dense @ pool)" and part: "take_bit sm part = part" "sm + 7 \<le> 32"
    and xy: "(x, y) \<in> set (fst (block_pairs ord \<kappa> solo fcap sm part dense pool))"
  shows "x \<in> set (dense @ pool) \<and> y \<in> set (dense @ pool) \<and> x \<noteq> y \<and> in_part sm part (\<kappa> x) \<and>
    take_bit (sm + 7) (\<kappa> x) = take_bit (sm + 7) (\<kappa> y)"
proof -
  from block_passes [OF part, where ord = ord and \<kappa> = \<kappa> and solo = solo and fcap = fcap and dense = dense and pool = pool] obtain ps where
    e: "fst (block_pairs ord \<kappa> solo fcap sm part dense pool) =
      concat (map (\<lambda>(p, n, part'). fst (pass_pairs ord p \<kappa> sm fcap (staged \<kappa> solo sm n part' (dense @ pool)))) ps)"
    and n: "\<And>p n q. (p, n, q) \<in> set ps \<Longrightarrow> sm \<le> n \<and> take_bit sm q = part" by metis
  from xy e obtain p m q where q: "(p, m, q) \<in> set ps"
    "(x, y) \<in> set (fst (pass_pairs ord p \<kappa> sm fcap (staged \<kappa> solo sm m q (dense @ pool))))" by auto
  from pass_staged [OF ord d q(2)] have s: "x \<in> set (dense @ pool)" "y \<in> set (dense @ pool)" "x \<noteq> y" "key_slot sm (\<kappa> x) = key_slot sm (\<kappa> y)"
    "in_part m q (\<kappa> x)" "in_part m q (\<kappa> y)" by auto
  have "take_bit sm (take_bit m k) = take_bit sm k" for k :: u32 using n [OF q(1)] by (simp add: min_def)
  with s(5,6) n [OF q(1)] have "take_bit sm (\<kappa> x) = part" "take_bit sm (\<kappa> y) = part" by (metis in_part_take)+
  with s part_slot_low [of sm "\<kappa> x" "\<kappa> y"] show ?thesis by (simp add: in_part_take)
qed

lemma block_once:
  assumes ord: "any_order ord" and d: "distinct (dense @ pool)" and part: "take_bit sm part = part" "sm + 7 \<le> 32"
  shows "distinct (fst (block_pairs ord \<kappa> solo fcap sm part dense pool))"
    "(x, y) \<in> set (fst (block_pairs ord \<kappa> solo fcap sm part dense pool)) \<Longrightarrow>
      (y, x) \<notin> set (fst (block_pairs ord \<kappa> solo fcap sm part dense pool))"
proof -
  from block_passes [OF part, where ord = ord and \<kappa> = \<kappa> and solo = solo and fcap = fcap and dense = dense and pool = pool] obtain ps where
    e: "fst (block_pairs ord \<kappa> solo fcap sm part dense pool) =
      concat (map (\<lambda>(p, n, part'). fst (pass_pairs ord p \<kappa> sm fcap (staged \<kappa> solo sm n part' (dense @ pool)))) ps)"
    and ps: "distinct ps"
    and one: "\<And>p n q p' n' q' k. (p, n, q) \<in> set ps \<Longrightarrow> (p', n', q') \<in> set ps \<Longrightarrow> in_part n q k \<Longrightarrow> in_part n' q' k \<Longrightarrow>
      (p, n, q) = (p', n', q')" by metis
  define f where "f = (\<lambda>(p, n, part'). fst (pass_pairs ord p \<kappa> sm fcap (staged \<kappa> solo sm n part' (dense @ pool))))"
  have inp: "in_part n q (\<kappa> x) \<and> in_part n q (\<kappa> y)" if "(x, y) \<in> set (f (p, n, q))" for p n q x y
    using pass_staged [OF ord d that [unfolded f_def prod.case]] by simp
  have same: "t = t'" if z: "(x, y) \<in> set (f t)" "z' \<in> set (f t')" and t: "t \<in> set ps" "t' \<in> set ps"
    and x: "x = fst z' \<or> x = snd z'" for t t' x y z'
  proof -
    obtain p n q where pq: "t = (p, n, q)" by (cases t)
    obtain p' n' q' where pq': "t' = (p', n', q')" by (cases t')
    have "in_part n q (\<kappa> x)" using inp z(1) pq by blast
    moreover have "in_part n' q' (\<kappa> x)" using inp [of "fst z'" "snd z'" p' n' q'] z(2) pq' x by auto
    ultimately show ?thesis using one t pq pq' by blast
  qed
  have "distinct (concat (map f ts))" if "distinct ts" "set ts \<subseteq> set ps" for ts
    using that
  proof (induction ts)
    case (Cons t ts)
    have "distinct (f t)" by (cases t) (simp add: f_def pass_once(1) [OF ord staged_distinct [OF d]])
    moreover have "set (f t) \<inter> set (concat (map f ts)) = {}"
    proof (rule equals0I)
      fix z assume "z \<in> set (f t) \<inter> set (concat (map f ts))"
      then obtain t' where "z \<in> set (f t)" "z \<in> set (f t')" "t' \<in> set ts" by auto
      with same [of "fst z" "snd z" t z t'] Cons.prems show False by auto
    qed
    ultimately show ?case using Cons by simp
  qed simp
  from this [OF ps] e show "distinct (fst (block_pairs ord \<kappa> solo fcap sm part dense pool))" by (simp add: f_def)
  show "(y, x) \<notin> set (fst (block_pairs ord \<kappa> solo fcap sm part dense pool))"
    if xy: "(x, y) \<in> set (fst (block_pairs ord \<kappa> solo fcap sm part dense pool))"
  proof
    assume "(y, x) \<in> set (fst (block_pairs ord \<kappa> solo fcap sm part dense pool))"
    with xy e obtain t t' where t: "t \<in> set ps" "(x, y) \<in> set (f t)" and t': "t' \<in> set ps" "(y, x) \<in> set (f t')"
      unfolding f_def [symmetric] by auto
    from same [OF t(2) t'(2) t(1) t'(1)] have "t = t'" by simp
    obtain p n q where pq: "t = (p, n, q)" by (cases t)
    note in_f = t(2) [unfolded pq f_def prod.case] t'(2) [folded \<open>t = t'\<close>, unfolded pq f_def prod.case]
    from pass_once(2) [OF ord staged_distinct [OF d] in_f(1)] in_f(2) show False by simp
  qed
qed

text \<open>
  C10: The pair search of a CUDA round is exact. In whatever order the threads of a block stage and chain the
  records of a bucket, if no drop was counted then the pairs found are those of two different records of the
  block's part with equal keys (on the bits the bucket does not fix), each pair found in one direction and
  listed once, also where the group was split to fit the shared memory.
\<close>
theorem block_pairs_exact:
  assumes "any_order ord" "distinct (dense @ pool)" "take_bit sm part = part" "sm + 7 \<le> 32"
    and "block_pairs ord \<kappa> solo fcap sm part dense pool = (P, 0, 0)"
  shows "distinct P \<and> (\<forall>x y. (x, y) \<in> set P \<longrightarrow> (y, x) \<notin> set P) \<and>
    (\<forall>x y. (x, y) \<in> set P \<or> (y, x) \<in> set P \<longleftrightarrow> x \<in> set (dense @ pool) \<and> y \<in> set (dense @ pool) \<and> x \<noteq> y \<and>
      in_part sm part (\<kappa> x) \<and> take_bit (sm + 7) (\<kappa> x) = take_bit (sm + 7) (\<kappa> y))"
proof -
  have P: "P = fst (block_pairs ord \<kappa> solo fcap sm part dense pool)" by (simp add: assms(5))
  have in_y: "in_part sm part (\<kappa> y)" if "in_part sm part (\<kappa> x)" "take_bit (sm + 7) (\<kappa> x) = take_bit (sm + 7) (\<kappa> y)" for x y
    using low_key_part [OF that(2), of 0] that(1) by (simp add: in_part_take)
  show ?thesis
    unfolding P
    by (intro conjI allI iffI impI block_once [OF assms(1-4)])
      (use block_sound [OF assms(1-4)] in_y block_complete [OF assms(1,5,3,4)] P in metis)+
qed

theorem block_pairs_exact_witness:
  "block_pairs (\<lambda>_ _ xs. xs) id True 2 1 1 [0x105, 0x205, 0x307] [0x407 :: u32] = ([(0x205, 0x105), (0x407, 0x307)], 0, 0) \<and>
    distinct [(0x205, 0x105), (0x407, 0x307 :: u32)]"
proof -
  have r: "block_pairs (\<lambda>_ _ xs. xs) id True 2 1 1 [0x105, 0x205, 0x307] [0x407 :: u32] = ([(0x205, 0x105), (0x407, 0x307)], 0, 0)"
    by code_simp
  have "any_order (\<lambda>_ _ xs. xs :: u32 list)" by (simp add: any_order_def)
  from block_pairs_exact [OF this _ _ _ r] r show ?thesis by simp
qed

end
