(* ===== verification/Scatter.thy ===== *)
theory Scatter
  imports Search
begin

text \<open>
  How the passes of the CUDA solver file their output (kernels/cuda/fused_round.cuh, pipeline_kernels.cuh):
  a record goes to the next free slot of its key's bucket, past the bucket's capacity to a pool shared by
  all buckets, and past the pool it is lost and counted; between two rounds the entries of the pool are
  chained to their buckets, and a block reads its bucket's slots and then its chain. The threads come in any
  order. Shown: where nothing was counted as lost, a block reads exactly the records of its bucket.
\<close>

unbundle bit_operations_syntax

section \<open>The passes\<close>

definition kArenaCap :: nat where "kArenaCap = 65536"
definition kAMax :: nat where "kAMax = 64"

text \<open>
  The output of a pass: the counter of each bucket, the records by slot, and the pool's counter and tags. A
  counter stays below the number of records of the pass, which are numbered by 32 bits.
\<close>

record 'a outset =
  bk_counts :: "nat \<Rightarrow> nat"
  bk_belem :: "nat \<Rightarrow> 'a option"
  bk_actr :: nat
  bk_atag :: "nat \<Rightarrow> nat"
  bk_drops :: nat

definition outset0 :: "'a outset" where
  "outset0 = \<lparr>bk_counts = (\<lambda>_. 0), bk_belem = (\<lambda>_. None), bk_actr = 0, bk_atag = (\<lambda>_. 0), bk_drops = 0\<rparr>"

definition emit_rec :: "nat \<Rightarrow> nat \<Rightarrow> bool \<Rightarrow> nat \<Rightarrow> 'a \<Rightarrow> 'a outset \<Rightarrow> 'a outset" where
  "emit_rec bb cap arena b r s =
    (let pos = bk_counts s b;
         s = s\<lparr>bk_counts := (bk_counts s)(b := pos + 1)\<rparr>
     in if pos < cap then s\<lparr>bk_belem := (bk_belem s)(b * cap + pos \<mapsto> r)\<rparr>
        else let a = if arena then bk_actr s else kArenaCap;
                 s = if arena then s\<lparr>bk_actr := bk_actr s + 1\<rparr> else s
             in if a \<ge> kArenaCap then s\<lparr>bk_drops := bk_drops s + 1\<rparr>
                else s\<lparr>bk_atag := (bk_atag s)(a := b), bk_belem := (bk_belem s)(2 ^ bb * cap + a \<mapsto> r)\<rparr>)"

definition bucket_of :: "nat \<Rightarrow> u32 \<Rightarrow> nat" where
  "bucket_of bb key = unat (drop_bit (24 - bb) key)"

text \<open>The entry pass: the seeded and mixed element of each index, as its key and its index.\<close>

definition entry_rec :: "u64 list \<Rightarrow> u32 \<Rightarrow> u64" where
  "entry_rec pp idx =
    (let e = apply_mix (seed_element pp idx) [idx] 1 448; key = rec_key (elem_w e ! 0)
     in push_bit 32 (ucast idx) OR ucast key)"

definition entry_body :: "u64 list \<Rightarrow> nat \<Rightarrow> nat \<Rightarrow> bool \<Rightarrow> u32 \<Rightarrow> u64 outset \<Rightarrow> u64 outset" where
  "entry_body pp bb cap arena idx s =
    (let r = entry_rec pp idx; key = rec_key r in emit_rec bb cap arena (bucket_of bb key) r s)"

text \<open>A pass over records that know their bucket, in the order the threads come.\<close>

definition emit_all :: "nat \<Rightarrow> nat \<Rightarrow> bool \<Rightarrow> (nat \<times> 'a) list \<Rightarrow> 'a outset" where
  "emit_all bb cap arena rs = foldl (\<lambda>s (b, r). emit_rec bb cap arena b r s) outset0 rs"

definition entry_scatter :: "u64 list \<Rightarrow> nat \<Rightarrow> nat \<Rightarrow> bool \<Rightarrow> u32 list \<Rightarrow> u64 outset" where
  "entry_scatter pp bb cap arena is = foldl (\<lambda>s i. entry_body pp bb cap arena i s) outset0 is"

text \<open>The chains of the pool; \<open>None\<close> stands for the mark 0xFFFFFFFF, which no entry has as its number.\<close>

type_synonym links = "(nat \<Rightarrow> nat option) \<times> (nat \<Rightarrow> nat option)"

definition link_entry :: "(nat \<Rightarrow> nat) \<Rightarrow> links \<Rightarrow> nat \<Rightarrow> links" where
  "link_entry atag st i =
    (let (ahead, anext) = st in (ahead(atag i := Some i), anext(i := ahead (atag i))))"

definition arena_link :: "(nat \<Rightarrow> nat) \<Rightarrow> nat list \<Rightarrow> links" where
  "arena_link atag is = foldl (link_entry atag) (\<lambda>_. None, \<lambda>_. None) is"

text \<open>A block's list of its pool entries, at most \<open>kAMax\<close> of them; a longer chain is counted.\<close>

fun pool_walk :: "(nat \<Rightarrow> nat option) \<Rightarrow> nat \<Rightarrow> nat option \<Rightarrow> nat list \<times> nat" where
  "pool_walk anext k None = ([], 0)"
| "pool_walk anext 0 (Some a) = ([], 1)"
| "pool_walk anext (Suc k) (Some a) = (let (l, d) = pool_walk anext k (anext a) in (a # l, d))"

definition bucket_dense :: "nat \<Rightarrow> 'a outset \<Rightarrow> nat \<Rightarrow> 'a list" where
  "bucket_dense cap s b = map (\<lambda>p. the (bk_belem s (b * cap + p))) [0..<min (bk_counts s b) cap]"

definition bucket_pool :: "nat \<Rightarrow> nat \<Rightarrow> 'a outset \<Rightarrow> links \<Rightarrow> nat \<Rightarrow> 'a list \<times> nat" where
  "bucket_pool bb cap s lk b =
    (let (is, d) = pool_walk (snd lk) kAMax (fst lk b)
     in (map (\<lambda>a. the (bk_belem s (2 ^ bb * cap + a))) is, d))"

section \<open>What a pass leaves\<close>

text \<open>The records past their bucket's capacity, in the order they came.\<close>

definition in_bucket :: "nat \<Rightarrow> (nat \<times> 'a) list \<Rightarrow> (nat \<times> 'a) list" where
  "in_bucket b rs = filter (\<lambda>x. fst x = b) rs"

definition past_cap :: "nat \<Rightarrow> (nat \<times> 'a) list \<Rightarrow> (nat \<times> 'a) list" where
  "past_cap cap rs =
    map (nth rs) (filter (\<lambda>i. cap \<le> length (in_bucket (fst (rs ! i)) (take i rs))) [0..<length rs])"

lemma past_cap_Nil [simp]: "past_cap cap [] = []"
  by (simp add: past_cap_def)

lemma past_cap_snoc:
  "past_cap cap (rs @ [x]) = past_cap cap rs @ (if cap \<le> length (in_bucket (fst x) rs) then [x] else [])"
proof -
  have "map (nth (rs @ [x])) (filter (\<lambda>i. cap \<le> length (in_bucket (fst ((rs @ [x]) ! i)) (take i (rs @ [x])))) [0..<length rs]) =
    past_cap cap rs"
    unfolding past_cap_def by (rule map_cong) (auto intro!: filter_cong simp: nth_append)
  then show ?thesis by (simp add: past_cap_def nth_append)
qed

lemma in_bucket_snoc [simp]: "in_bucket b (rs @ [x]) = in_bucket b rs @ (if fst x = b then [x] else [])"
  by (simp add: in_bucket_def)

lemma in_bucket_split: "in_bucket b rs = take cap (in_bucket b rs) @ in_bucket b (past_cap cap rs)"
proof (induction rs rule: rev_induct)
  case (snoc x rs)
  have "in_bucket b (past_cap cap rs) = drop cap (in_bucket b rs)"
    using snoc.IH append_take_drop_id [of cap "in_bucket b rs"] by (metis same_append_eq)
  then show ?case by (auto simp: past_cap_snoc)
qed (simp add: in_bucket_def)

lemma past_cap_bucket: "x \<in> set (past_cap cap rs) \<Longrightarrow> x \<in> set rs"
  by (auto simp: past_cap_def)

text \<open>The state after the records of a pass.\<close>

definition filed :: "nat \<Rightarrow> nat \<Rightarrow> bool \<Rightarrow> (nat \<times> 'a) list \<Rightarrow> 'a outset \<Rightarrow> bool" where
  "filed bb cap arena rs s \<longleftrightarrow>
    (\<forall>b. bk_counts s b = length (in_bucket b rs)) \<and>
    (\<forall>b < 2 ^ bb. \<forall>p < min (length (in_bucket b rs)) cap. bk_belem s (b * cap + p) = Some (snd (in_bucket b rs ! p))) \<and>
    bk_drops s = length (past_cap cap rs) - (if arena then kArenaCap else 0) \<and>
    (arena \<longrightarrow> bk_actr s = length (past_cap cap rs) \<and>
      (\<forall>a < min (length (past_cap cap rs)) kArenaCap. bk_atag s a = fst (past_cap cap rs ! a) \<and>
        bk_belem s (2 ^ bb * cap + a) = Some (snd (past_cap cap rs ! a))))"

lemma slot_inj:
  fixes b b' cap p p' :: nat
  assumes "b * cap + p = b' * cap + p'" "p < cap" "p' < cap"
  shows "b = b' \<and> p = p'"
proof -
  have "b = (b * cap + p) div cap" "b' = (b' * cap + p') div cap" using assms(2,3) by simp_all
  with assms show ?thesis by simp
qed

lemma slot_below:
  fixes b cap p bb :: nat
  assumes "b < 2 ^ bb" "p < cap"
  shows "b * cap + p < 2 ^ bb * cap"
proof -
  have "b * cap + p < (b + 1) * cap" using assms(2) by simp
  also have "\<dots> \<le> 2 ^ bb * cap" by (rule mult_le_mono1) (use assms(1) in simp)
  finally show ?thesis .
qed

lemma filed_step:
  assumes f: "filed bb cap arena rs s" and b: "fst x < 2 ^ bb"
  shows "filed bb cap arena (rs @ [x]) (emit_rec bb cap arena (fst x) (snd x) s)"
proof -
  define n where "n = length (in_bucket (fst x) rs)"
  have c: "bk_counts s = (\<lambda>b. length (in_bucket b rs))" using f by (auto simp: filed_def)
  have dn: "bk_belem s (b * cap + p) = Some (snd (in_bucket b rs ! p))" if "b < 2 ^ bb" "p < length (in_bucket b rs)" "p < cap" for b p
    using f that by (simp add: filed_def)
  have pl: "arena \<Longrightarrow> bk_actr s = length (past_cap cap rs)"
    "\<And>a. arena \<Longrightarrow> a < length (past_cap cap rs) \<Longrightarrow> a < kArenaCap \<Longrightarrow>
      bk_atag s a = fst (past_cap cap rs ! a) \<and> bk_belem s (2 ^ bb * cap + a) = Some (snd (past_cap cap rs ! a))"
    and drops: "bk_drops s = length (past_cap cap rs) - (if arena then kArenaCap else 0)"
    using f by (auto simp: filed_def)
  consider (dense) "n < cap" | (pool) "\<not> n < cap" "arena" "length (past_cap cap rs) < kArenaCap"
    | (full) "\<not> n < cap" "arena" "\<not> length (past_cap cap rs) < kArenaCap" | (none) "\<not> n < cap" "\<not> arena" by blast
  then show ?thesis
  proof cases
    case dense
    have e: "emit_rec bb cap arena (fst x) (snd x) s =
      s\<lparr>bk_counts := (bk_counts s)(fst x := n + 1), bk_belem := (bk_belem s)(fst x * cap + n \<mapsto> snd x)\<rparr>"
      using dense by (simp add: emit_rec_def c n_def Let_def)
    have p: "past_cap cap (rs @ [x]) = past_cap cap rs" using dense by (simp add: past_cap_snoc n_def)
    have d: "((bk_belem s)(fst x * cap + n \<mapsto> snd x)) (b' * cap + p') = Some (snd (in_bucket b' (rs @ [x]) ! p'))"
      if "b' < 2 ^ bb" "p' < min (length (in_bucket b' (rs @ [x]))) cap" for b' p'
    proof (cases "b' = fst x \<and> p' = n")
      case False
      then have "b' * cap + p' \<noteq> fst x * cap + n" using slot_inj [of b' cap p' "fst x" n] that dense by auto
      moreover have "p' < length (in_bucket b' rs)" using False that by (auto simp: n_def split: if_splits)
      ultimately show ?thesis using dn [of b' p'] that by (auto simp: nth_append)
    qed (use that in \<open>auto simp: n_def\<close>)
    have a: "2 ^ bb * cap + a \<noteq> fst x * cap + n" for a using slot_below [OF b dense] by linarith
    show ?thesis unfolding filed_def p e using c d a pl drops by (auto simp: n_def)
  next
    case pool
    let ?a = "length (past_cap cap rs)"
    have e: "emit_rec bb cap arena (fst x) (snd x) s =
      s\<lparr>bk_counts := (bk_counts s)(fst x := n + 1), bk_actr := ?a + 1, bk_atag := (bk_atag s)(?a := fst x),
        bk_belem := (bk_belem s)(2 ^ bb * cap + ?a \<mapsto> snd x)\<rparr>"
      using pool pl(1) by (simp add: emit_rec_def c n_def Let_def)
    have p: "past_cap cap (rs @ [x]) = past_cap cap rs @ [x]" using pool by (simp add: past_cap_snoc n_def)
    have d: "((bk_belem s)(2 ^ bb * cap + ?a \<mapsto> snd x)) (b' * cap + p') = Some (snd (in_bucket b' (rs @ [x]) ! p'))"
      if "b' < 2 ^ bb" "p' < min (length (in_bucket b' (rs @ [x]))) cap" for b' p'
    proof -
      have "p' < length (in_bucket b' rs)" using that pool(1) by (auto simp: n_def split: if_splits)
      then show ?thesis using slot_below [of b' bb p' cap] that dn [of b' p'] by (auto simp: nth_append)
    qed
    show ?thesis unfolding filed_def p e using c d pool pl drops by (auto simp: n_def nth_append less_Suc_eq)
  next
    case full
    have e: "emit_rec bb cap arena (fst x) (snd x) s =
      s\<lparr>bk_counts := (bk_counts s)(fst x := n + 1), bk_actr := bk_actr s + 1, bk_drops := bk_drops s + 1\<rparr>"
      using full pl(1) by (simp add: emit_rec_def c n_def Let_def)
    have p: "past_cap cap (rs @ [x]) = past_cap cap rs @ [x]" using full by (simp add: past_cap_snoc n_def)
    show ?thesis unfolding filed_def p e using c full pl drops dn
      by (auto simp: n_def nth_append split: if_splits)
  next
    case none
    have e: "emit_rec bb cap arena (fst x) (snd x) s =
      s\<lparr>bk_counts := (bk_counts s)(fst x := n + 1), bk_drops := bk_drops s + 1\<rparr>"
      using none by (simp add: emit_rec_def c n_def Let_def)
    have p: "past_cap cap (rs @ [x]) = past_cap cap rs @ [x]" using none by (simp add: past_cap_snoc n_def)
    show ?thesis unfolding filed_def p e using c none drops dn
      by (auto simp: n_def nth_append split: if_splits)
  qed
qed

lemma filed_all:
  assumes "\<forall>x \<in> set rs. fst x < 2 ^ bb"
  shows "filed bb cap arena rs (emit_all bb cap arena rs)"
  using assms
proof (induction rs rule: rev_induct)
  case Nil
  show ?case by (simp add: filed_def emit_all_def outset0_def in_bucket_def)
next
  case (snoc x rs)
  then show ?case using filed_step [of bb cap arena rs "emit_all bb cap arena rs" x]
    by (simp add: emit_all_def case_prod_beta)
qed

section \<open>The chains of the pool\<close>

fun chained :: "(nat \<Rightarrow> nat option) \<Rightarrow> nat option \<Rightarrow> nat list \<Rightarrow> bool" where
  "chained anext p [] \<longleftrightarrow> p = None"
| "chained anext p (a # l) \<longleftrightarrow> p = Some a \<and> chained anext (anext a) l"

lemma chained_cong: "(\<And>a. a \<in> set l \<Longrightarrow> anext a = anext' a) \<Longrightarrow> chained anext p l = chained anext' p l"
  by (induction l arbitrary: p) auto

lemma walk_chained: "chained anext p l \<Longrightarrow> pool_walk anext k p = (take k l, if length l \<le> k then 0 else 1)"
proof (induction l arbitrary: k p)
  case (Cons a l)
  then show ?case by (cases k) auto
qed simp

lemma pool_walk_step: "0 < k \<Longrightarrow> pool_walk anext k (Some a) = (let (l, d) = pool_walk anext (k - 1) (anext a) in (a # l, d))"
  by (cases k) simp_all

lemma arena_link_chains:
  "distinct is \<Longrightarrow> chained (snd (arena_link atag is)) (fst (arena_link atag is) b) (rev (filter (\<lambda>i. atag i = b) is))"
proof (induction "is" arbitrary: b rule: rev_induct)
  case (snoc i "is")
  obtain ahead anext where l: "arena_link atag is = (ahead, anext)" by (cases "arena_link atag is")
  have e: "arena_link atag (is @ [i]) = (ahead(atag i := Some i), anext(i := ahead (atag i)))"
    using l by (simp add: arena_link_def link_entry_def)
  have "chained (anext(i := ahead (atag i))) (ahead b) (rev (filter (\<lambda>i. atag i = b) is))" for b
  proof -
    have "chained (anext(i := ahead (atag i))) (ahead b) (rev (filter (\<lambda>i. atag i = b) is)) =
        chained anext (ahead b) (rev (filter (\<lambda>i. atag i = b) is))"
      by (rule chained_cong) (use snoc.prems in auto)
    then show ?thesis using snoc l by simp
  qed
  from this [of b] this [of "atag i"] show ?case unfolding e by (cases "atag i = b") (simp_all add: fun_upd_def)
qed (simp add: arena_link_def)

lemma in_bucket_pool:
  "rev (filter (\<lambda>i. atag i = b) is) = l \<Longrightarrow> mset is = mset [0..<length ov] \<Longrightarrow> (\<And>a. a < length ov \<Longrightarrow> atag a = fst (ov ! a)) \<Longrightarrow>
    mset (map (\<lambda>a. snd (ov ! a)) l) = mset (map snd (in_bucket b ov))"
proof -
  assume l: "rev (filter (\<lambda>i. atag i = b) is) = l" and m: "mset is = mset [0..<length ov]"
    and t: "\<And>a. a < length ov \<Longrightarrow> atag a = fst (ov ! a)"
  have "mset l = filter_mset (\<lambda>i. atag i = b) (mset [0..<length ov])" using l m by (metis mset_filter mset_rev)
  also have "\<dots> = mset (filter (\<lambda>i. fst (ov ! i) = b) [0..<length ov])"
    unfolding mset_filter [symmetric] using t by (intro arg_cong [of _ _ mset] filter_cong) auto
  finally have "mset (map (\<lambda>a. snd (ov ! a)) l) = mset (map (\<lambda>a. snd (ov ! a)) (filter (\<lambda>i. fst (ov ! i) = b) [0..<length ov]))"
    by simp
  also have "map (\<lambda>a. snd (ov ! a)) (filter (\<lambda>i. fst (ov ! i) = b) [0..<length ov]) = map snd (in_bucket b ov)"
  proof -
    have "in_bucket b ov = filter (\<lambda>x. fst x = b) (map (nth ov) [0..<length ov])" by (simp add: in_bucket_def map_nth)
    then show ?thesis by (simp add: filter_map comp_def)
  qed
  finally show ?thesis .
qed

lemma filed_dense:
  assumes "filed bb cap arena rs s" "b < 2 ^ bb"
  shows "bucket_dense cap s b = map snd (take cap (in_bucket b rs))"
  using assms by (intro nth_equalityI) (auto simp: bucket_dense_def filed_def min.commute)

lemma pool_read:
  assumes "\<forall>x \<in> set rs. fst x < 2 ^ bb" "b < 2 ^ bb" "bk_drops (emit_all bb cap True rs) = 0"
    and "mset is = mset [0..<min (bk_actr (emit_all bb cap True rs)) kArenaCap]"
    and "bucket_pool bb cap (emit_all bb cap True rs) (arena_link (bk_atag (emit_all bb cap True rs)) is) b = (pool, 0)"
  shows "mset (bucket_dense cap (emit_all bb cap True rs) b @ pool) = mset (map snd (in_bucket b rs))"
proof -
  let ?s = "emit_all bb cap True rs" and ?ov = "past_cap cap rs"
  have f: "filed bb cap True rs ?s" by (rule filed_all [OF assms(1)])
  then have n: "length ?ov \<le> kArenaCap" "bk_actr ?s = length ?ov" using assms(3) by (auto simp: filed_def)
  note dense = filed_dense [OF f assms(2)]
  define l where "l = rev (filter (\<lambda>i. bk_atag ?s i = b) is)"
  have is_set: "mset is = mset [0..<length ?ov]" using assms(4) n by (simp add: min_absorb1)
  then have d: "distinct is" by (metis mset_eq_imp_distinct_iff distinct_upt)
  have tag: "bk_atag ?s a = fst (?ov ! a)" "bk_belem ?s (2 ^ bb * cap + a) = Some (snd (?ov ! a))" if "a < length ?ov" for a
    using f that n by (auto simp: filed_def)
  have w: "pool_walk (snd (arena_link (bk_atag ?s) is)) kAMax (fst (arena_link (bk_atag ?s) is) b) =
      (take kAMax l, if length l \<le> kAMax then 0 else 1)"
    unfolding l_def by (rule walk_chained [OF arena_link_chains [OF d]])
  with assms(5) have pool: "pool = map (\<lambda>a. the (bk_belem ?s (2 ^ bb * cap + a))) l"
    by (auto simp: bucket_pool_def split: if_splits)
  have "a < length ?ov" if "a \<in> set l" for a
    using that is_set [THEN mset_eq_setD] by (auto simp: l_def)
  with pool tag(2) have "pool = map (\<lambda>a. snd (?ov ! a)) l" by simp
  with in_bucket_pool [OF l_def [symmetric] is_set] tag(1) have "mset pool = mset (map snd (in_bucket b ?ov))" by simp
  then have "mset (bucket_dense cap ?s b @ pool) = mset (map snd (take cap (in_bucket b rs) @ in_bucket b ?ov))"
    by (simp add: dense)
  then show ?thesis by (simp add: in_bucket_split [symmetric])
qed

text \<open>
  Filing and reading back. Records sent to their buckets in any order, the pool chained in any order: if
  no record was counted as lost and the chain of a bucket was not cut, what a block reads from the bucket's
  slots and from its chain are exactly the records of that bucket, each as often as it was emitted.
\<close>
theorem bucket_holds_its_records:
  assumes "\<forall>x \<in> set rs. fst x < 2 ^ bb" "b < 2 ^ bb" "bk_drops (emit_all bb cap True rs) = 0"
    and "mset is = mset [0..<min (bk_actr (emit_all bb cap True rs)) kArenaCap]"
    and "bucket_pool bb cap (emit_all bb cap True rs) (arena_link (bk_atag (emit_all bb cap True rs)) is) b = (pool, 0)"
  shows "mset (bucket_dense cap (emit_all bb cap True rs) b @ pool) = mset (map snd (filter (\<lambda>x. fst x = b) rs))"
  using pool_read [OF assms] by (simp add: in_bucket_def)

theorem bucket_holds_its_records_witness:
  "bucket_dense 2 (emit_all 1 2 True [(0, 10), (1, 20), (0, 11), (0, 12), (1, 21), (0, 13)]) 0 = [10, 11 :: nat] \<and>
   mset [10, 11, 12, 13 :: nat] = mset (map snd (filter (\<lambda>x. fst x = 0) [(0 :: nat, 10), (1, 20), (0, 11), (0, 12), (1, 21), (0, 13 :: nat)]))"
proof -
  let ?rs = "[(0, 10), (1, 20), (0, 11), (0, 12), (1, 21), (0, 13 :: nat)]"
  let ?s = "emit_all 1 2 True ?rs"
  have a: "bk_actr ?s = 2" by (simp add: emit_all_def emit_rec_def outset0_def kArenaCap_def)
  have dn: "bk_drops ?s = 0" by (simp add: emit_all_def emit_rec_def outset0_def kArenaCap_def)
  have dense: "bucket_dense 2 ?s 0 = [10, 11]"
    by (simp add: bucket_dense_def emit_all_def emit_rec_def outset0_def kArenaCap_def upt_rec)
  have p: "bucket_pool 1 2 ?s (arena_link (bk_atag ?s) [1, 0]) 0 = ([12, 13], 0)"
    by (simp add: bucket_pool_def arena_link_def link_entry_def emit_all_def emit_rec_def outset0_def kArenaCap_def kAMax_def pool_walk_step)
  have m: "mset [1, 0] = mset [0..<min (bk_actr ?s) kArenaCap]" unfolding a by (simp add: kArenaCap_def upt_rec)
  from bucket_holds_its_records [of ?rs 1 0 2, OF _ _ dn m p] dense show ?thesis by simp
qed

end
