(* ===== verification/Rounds.thy ===== *)
theory Rounds
  imports Scatter
begin

text \<open>
  A whole solve on the device (kernels/cuda/fused_round.cuh, pipeline_kernels.cuh, the sequence of launches
  of src/gpu/cuda_solver.cu): the entry pass over the seed indices, four rounds that file, search and merge,
  and the terminal round. An element stands for the leaves below it in tree order, its words are those
  of \<open>node\<close>, which \<open>Records\<close> shows every record to give back. Every order that an atomic
  counter fixes is arbitrary. Shown: where no drop was counted, no solution is lost.
\<close>

unbundle bit_operations_syntax

section \<open>A round\<close>

text \<open>What a block reads: the slots of its bucket and its entries of the pool, with the drop of a chain that was cut.\<close>

definition bucket_read :: "nat \<Rightarrow> nat \<Rightarrow> bool \<Rightarrow> 'a outset \<Rightarrow> links \<Rightarrow> nat \<Rightarrow> 'a list \<times> 'a list \<times> nat" where
  "bucket_read bb cap arena s lk b = (bucket_dense cap s b, if arena then bucket_pool bb cap s lk b else ([], 0))"

definition blocks :: "nat \<Rightarrow> nat \<Rightarrow> (nat \<times> nat) list" where
  "blocks bb sm = map (\<lambda>bid. (bid div 2 ^ sm, bid mod 2 ^ sm)) [0..<2 ^ bb * 2 ^ sm]"

text \<open>
  The launch of a geometry: bucket and sub-mask bits, bucket capacity, whether there is a pool; \<open>gl_solo\<close> and
  \<open>gl_fcap\<close> are the constants of the round, \<open>gl_order\<close> and \<open>gl_link\<close> the orders of the threads.
\<close>

record 'a grid =
  gl_bb :: nat
  gl_sm :: nat
  gl_cap :: nat
  gl_arena :: bool
  gl_solo :: bool
  gl_fcap :: nat
  gl_order :: "nat \<Rightarrow> nat \<Rightarrow> 'a order"
  gl_link :: "nat list \<Rightarrow> nat list"

definition filed_set :: "'a grid \<Rightarrow> ('a \<Rightarrow> u32) \<Rightarrow> 'a list \<Rightarrow> 'a outset" where
  "filed_set g \<kappa> xs = emit_all (gl_bb g) (gl_cap g) (gl_arena g) (map (\<lambda>x. (bucket_of (gl_bb g) (\<kappa> x), x)) xs)"

definition linked :: "'a grid \<Rightarrow> 'a outset \<Rightarrow> links" where
  "linked g s = arena_link (bk_atag s) (gl_link g [0..<min (bk_actr s) kArenaCap])"

text \<open>All blocks of a launch over an output set; the result is the pairs and everything counted as dropped.\<close>

definition run_blocks ::
    "'a grid \<Rightarrow> (nat \<Rightarrow> nat \<Rightarrow> 'a list \<Rightarrow> 'a list \<Rightarrow> ('a \<times> 'a) list \<times> nat \<times> nat) \<Rightarrow> nat \<Rightarrow> ('a \<Rightarrow> u32) \<Rightarrow> 'a list \<Rightarrow> ('a \<times> 'a) list \<times> nat" where
  "run_blocks g body sm \<kappa> xs =
    (let s = filed_set g \<kappa> xs; lk = linked g s;
         rs = map (\<lambda>(b, m). let (dense, pool, d) = bucket_read (gl_bb g) (gl_cap g) (gl_arena g) s lk b;
                                 (ps, d1, d3) = body b m dense pool
                             in (ps, d + d1 + d3)) (blocks (gl_bb g) sm)
     in (concat (map fst rs), bk_drops s + sum_list (map snd rs)))"

definition run_round :: "'a grid \<Rightarrow> ('a \<Rightarrow> u32) \<Rightarrow> 'a list \<Rightarrow> ('a \<times> 'a) list \<times> nat" where
  "run_round g \<kappa> xs =
    run_blocks g (\<lambda>b m. block_pairs (gl_order g b m) \<kappa> (gl_solo g) (gl_fcap g) (gl_sm g) (of_nat m)) (gl_sm g) \<kappa> xs"

section \<open>The terminal round\<close>

definition kTermCap :: nat where "kTermCap = 832"
definition kTermTab :: nat where "kTermTab = 256"

definition term_slot :: "nat \<Rightarrow> u32 \<Rightarrow> u32" where
  "term_slot sm key = drop_bit sm key AND (of_nat kTermTab - 1)"

definition term_slots :: "u32 list" where
  "term_slots = map of_nat [0..<kTermTab]"

definition term_block :: "'a order \<Rightarrow> ('a \<Rightarrow> u32) \<Rightarrow> nat \<Rightarrow> u32 \<Rightarrow> 'a list \<Rightarrow> 'a list \<Rightarrow> ('a \<times> 'a) list \<times> nat \<times> nat" where
  "term_block ord \<kappa> sm part dense pool =
    pass_by ord 0 (term_slot sm) term_slots \<kappa> kTermCap (filter (\<lambda>x. in_part sm part (\<kappa> x)) (dense @ pool))"

text \<open>One block for a bucket where the bucket fits and its key bits are in the table, else one for each sub-mask.\<close>

definition term_sm :: "'a grid \<Rightarrow> nat" where
  "term_sm g = (if 16 \<le> gl_bb g \<and> gl_cap g + kAMax \<le> kTermCap then 0 else gl_sm g)"

text \<open>Word 0 decides: a pair survives when its words agree on the 24 bits above the key.\<close>

definition survives :: "u64 \<Rightarrow> u64 \<Rightarrow> bool" where
  "survives w w' = is_zero (combine \<lparr>elem_w = w # replicate 6 0\<rparr> \<lparr>elem_w = w' # replicate 6 0\<rparr> 24)"

definition kSurvCap :: nat where "kSurvCap = 1024"

definition run_terminal :: "'a grid \<Rightarrow> ('a \<Rightarrow> u64) \<Rightarrow> 'a list \<Rightarrow> ('a \<times> 'a) list \<times> nat" where
  "run_terminal g \<omega> xs =
    (let \<kappa> = rec_key \<circ> \<omega>;
         (ps, d) = run_blocks g (\<lambda>b m. term_block (gl_order g b m) \<kappa> (term_sm g) (of_nat m)) (term_sm g) \<kappa> xs;
         sv = filter (\<lambda>(x, y). survives (\<omega> x) (\<omega> y)) ps
     in (take kSurvCap sv, d + (length sv - kSurvCap)))"

section \<open>A solve\<close>

text \<open>
  The child of a pair: the parent with the smaller first leaf on the left. Between equal first leaves
  the code decides by the ids of the parents (\<open>left_right\<close> of \<open>Stages\<close>); here such a pair keeps its order,
  which is arbitrary, since no solution has it.
\<close>

definition join_leaves :: "u32 list \<times> u32 list \<Rightarrow> u32 list" where
  "join_leaves = (\<lambda>(x, y). if hd y < hd x then y @ x else x @ y)"

definition leaf_word :: "u64 list \<Rightarrow> nat \<Rightarrow> u32 list \<Rightarrow> u64" where
  "leaf_word p d l = elem_w (node p d l) ! 0"

text \<open>
  The elements that enter round \<open>d + 1\<close>, in the order they are filed (\<open>sh\<close>), and the drops so far. The launches
  differ by round, as the staging caps do.
\<close>

fun elements :: "u64 list \<Rightarrow> (nat \<Rightarrow> u32 list grid) \<Rightarrow> (nat \<Rightarrow> u32 list list \<Rightarrow> u32 list list) \<Rightarrow> u32 list \<Rightarrow> nat \<Rightarrow> u32 list list \<times> nat" where
  "elements p g sh idx 0 = (sh 0 (map (\<lambda>i. [i]) idx), 0)"
| "elements p g sh idx (Suc d) =
    (let (xs, dr) = elements p g sh idx d; (ps, dr') = run_round (g d) (rec_key \<circ> leaf_word p d) xs
     in (sh (Suc d) (map join_leaves ps), dr + dr'))"

definition device_solve :: "u64 list \<Rightarrow> (nat \<Rightarrow> u32 list grid) \<Rightarrow> (nat \<Rightarrow> u32 list list \<Rightarrow> u32 list list) \<Rightarrow> u32 list \<Rightarrow> (u32 list \<times> u32 list) list \<times> nat" where
  "device_solve p g sh idx =
    (let (xs, dr) = elements p g sh idx 4; (sv, dr') = run_terminal (g 4) (leaf_word p 4) xs in (sv, dr + dr'))"

section \<open>A launch reads every record once\<close>

definition any_launch :: "'a grid \<Rightarrow> bool" where
  "any_launch g \<longleftrightarrow> (\<forall>b m. any_order (gl_order g b m)) \<and> (\<forall>is. mset (gl_link g is) = mset is) \<and> gl_bb g + gl_sm g = 17"

lemma bucket_of_less: "fits 24 key \<Longrightarrow> bb \<le> 24 \<Longrightarrow> bucket_of bb key < 2 ^ bb"
proof -
  assume "fits 24 key" "bb \<le> 24"
  then have "unat key < 2 ^ bb * 2 ^ (24 - bb)" by (simp add: fits_def flip: power_add)
  moreover have "take_bit 32 (unat key) = unat key" using \<open>fits 24 key\<close> by (simp add: fits_def take_bit_nat_eq_self)
  ultimately show ?thesis
    by (simp add: bucket_of_def unsigned_drop_bit_eq drop_bit_eq_div [of _ "unat key"] less_mult_imp_div_less)
qed

lemma in_bucket_map: "map snd (in_bucket b (map (\<lambda>x. (f x, x)) xs)) = filter (\<lambda>x. f x = b) xs"
  by (induction xs) (simp_all add: in_bucket_def)

lemma read_bucket:
  assumes \<kappa>: "\<forall>x \<in> set xs. fits 24 (\<kappa> x)" and g: "any_launch g" and b: "b < 2 ^ gl_bb g" and dr: "bk_drops (filed_set g \<kappa> xs) = 0"
    and r: "bucket_read (gl_bb g) (gl_cap g) (gl_arena g) (filed_set g \<kappa> xs) (linked g (filed_set g \<kappa> xs)) b = (dense, pool, 0)"
  shows "mset (dense @ pool) = mset (filter (\<lambda>x. bucket_of (gl_bb g) (\<kappa> x) = b) xs)"
proof -
  let ?rs = "map (\<lambda>x. (bucket_of (gl_bb g) (\<kappa> x), x)) xs"
  have bb: "gl_bb g \<le> 24" using g by (simp add: any_launch_def)
  have rs: "\<forall>x \<in> set ?rs. fst x < 2 ^ gl_bb g" using \<kappa> bucket_of_less [OF _ bb] by auto
  show ?thesis
  proof (cases "gl_arena g")
    case True
    have e: "filed_set g \<kappa> xs = emit_all (gl_bb g) (gl_cap g) True ?rs" by (simp add: filed_set_def True)
    have "bucket_pool (gl_bb g) (gl_cap g) (filed_set g \<kappa> xs) (linked g (filed_set g \<kappa> xs)) b = (pool, 0)"
      and d: "dense = bucket_dense (gl_cap g) (filed_set g \<kappa> xs) b" using r True by (auto simp: bucket_read_def)
    from pool_read [OF rs b, where cap = "gl_cap g", folded e, OF dr _ this(1) [unfolded linked_def]] g
    show ?thesis unfolding d by (simp add: any_launch_def in_bucket_map flip: in_bucket_def)
  next
    case False
    from filed_all [OF rs, of "gl_cap g" False] False have f: "filed (gl_bb g) (gl_cap g) False ?rs (filed_set g \<kappa> xs)"
      by (simp add: filed_set_def)
    with dr have "past_cap (gl_cap g) ?rs = []" by (simp add: filed_def)
    with in_bucket_split [of b ?rs "gl_cap g"] have "take (gl_cap g) (in_bucket b ?rs) = in_bucket b ?rs" by (simp add: in_bucket_def)
    moreover have "bucket_dense (gl_cap g) (filed_set g \<kappa> xs) b = map snd (take (gl_cap g) (in_bucket b ?rs))"
      by (rule filed_dense [OF f b])
    ultimately have "dense = map snd (in_bucket b ?rs)" "pool = []" using r False by (auto simp: bucket_read_def)
    then show ?thesis by (simp add: in_bucket_map)
  qed
qed


lemma blocks_set: "set (blocks bb sm) = {0..<2 ^ bb} \<times> {0..<2 ^ sm}"
proof (intro equalityI subsetI)
  fix z :: "nat \<times> nat" assume "z \<in> {0..<2 ^ bb} \<times> {0..<2 ^ sm}"
  then obtain b m where z: "z = (b, m)" "b < 2 ^ bb" "m < 2 ^ sm" by (cases z) auto
  have "b * 2 ^ sm + m < 2 ^ bb * 2 ^ sm" using slot_below [OF z(2,3)] by simp
  then show "z \<in> set (blocks bb sm)" using z by (auto simp: blocks_def image_iff intro!: bexI [of _ "b * 2 ^ sm + m"])
next
  fix z assume "z \<in> set (blocks bb sm)"
  then show "z \<in> {0..<2 ^ bb} \<times> {0..<2 ^ sm}" by (auto simp: blocks_def less_mult_imp_div_less)
qed

lemma blocks_distinct: "distinct (blocks bb sm)"
  unfolding blocks_def distinct_map by (auto simp: inj_on_def) (metis mult_div_mod_eq)


section \<open>A launch finds every pair of equal keys once\<close>

lemma distinct_concat_map:
  assumes "distinct ts" "\<And>t. t \<in> set ts \<Longrightarrow> distinct (f t)"
    "\<And>t t' z. t \<in> set ts \<Longrightarrow> t' \<in> set ts \<Longrightarrow> z \<in> set (f t) \<Longrightarrow> z \<in> set (f t') \<Longrightarrow> t = t'"
  shows "distinct (concat (map f ts))"
  using assms
proof (induction ts)
  case (Cons t ts)
  have "set (f t) \<inter> set (concat (map f ts)) = {}"
  proof (rule equals0I)
    fix z assume "z \<in> set (f t) \<inter> set (concat (map f ts))"
    then obtain t' where "z \<in> set (f t)" "z \<in> set (f t')" "t' \<in> set ts" by auto
    with Cons.prems(1) Cons.prems(3) [of t t' z] show False by auto
  qed
  then show ?case using Cons by simp
qed simp

text \<open>What is asked of the pairs of a block, and of a launch.\<close>

definition once :: "('a \<times> 'a) list \<Rightarrow> bool" where
  "once P \<longleftrightarrow> distinct P \<and> (\<forall>x y. (x, y) \<in> set P \<longrightarrow> (y, x) \<notin> set P)"

definition linked_pair :: "('a \<times> 'a) list \<Rightarrow> 'a \<Rightarrow> 'a \<Rightarrow> bool" where
  "linked_pair P x y \<longleftrightarrow> (x, y) \<in> set P \<or> (y, x) \<in> set P"

definition block_exact :: "('a \<Rightarrow> u32) \<Rightarrow> nat \<Rightarrow> nat \<Rightarrow> u32 \<Rightarrow> 'a list \<Rightarrow> ('a \<times> 'a) list \<Rightarrow> bool" where
  "block_exact \<kappa> sm n part xs P \<longleftrightarrow> once P \<and>
    (\<forall>x y. linked_pair P x y \<longleftrightarrow> x \<in> set xs \<and> y \<in> set xs \<and> x \<noteq> y \<and> take_bit sm (\<kappa> x) = part \<and>
      take_bit (sm + n) (\<kappa> x) = take_bit (sm + n) (\<kappa> y))"

definition pairs_exact :: "('a \<Rightarrow> u32) \<Rightarrow> 'a list \<Rightarrow> ('a \<times> 'a) list \<Rightarrow> bool" where
  "pairs_exact \<kappa> xs P \<longleftrightarrow> once P \<and>
    (\<forall>x y. linked_pair P x y \<longleftrightarrow> x \<in> set xs \<and> y \<in> set xs \<and> x \<noteq> y \<and> \<kappa> x = \<kappa> y)"

lemma block_exact_set: "set xs = set ys \<Longrightarrow> block_exact \<kappa> sm n part xs P = block_exact \<kappa> sm n part ys P"
  by (simp add: block_exact_def)

lemma key_by_parts:
  assumes "fits 24 k" "fits 24 k'" "bucket_of bb k = bucket_of bb k'" "take_bit n k = take_bit n k'" "24 \<le> bb + n" "bb \<le> 24"
  shows "k = (k' :: u32)"
proof (rule bit_word_eqI)
  fix i :: nat
  have hi: "drop_bit (24 - bb) k = drop_bit (24 - bb) k'" using assms(3) unfolding bucket_of_def by (rule word_unat_eq_iff [THEN iffD2])
  show "bit k i = bit k' i"
  proof (cases "i < n")
    case True
    with arg_cong [OF assms(4), of "\<lambda>w. bit w i"] show ?thesis by (simp add: bit_take_bit_iff)
  next
    case False
    with assms(5,6) have "24 - bb \<le> i" by linarith
    with arg_cong [OF hi, of "\<lambda>w. bit w (i - (24 - bb))"] show ?thesis by (simp add: bit_drop_bit_eq)
  qed
qed

lemma run_blocks_exact:
  assumes g: "any_launch g" and sm: "24 \<le> gl_bb g + sm + n" "sm + n \<le> 32"
    and xs: "distinct xs" "\<forall>x \<in> set xs. fits 24 (\<kappa> x)"
    and body: "\<And>b (m :: nat) dense pool P. m < 2 ^ sm \<Longrightarrow> distinct (dense @ pool) \<Longrightarrow> body b m dense pool = (P, 0, 0) \<Longrightarrow>
      block_exact \<kappa> sm n (of_nat m) (dense @ pool) P"
    and r: "run_blocks g body sm \<kappa> xs = (P, 0)"
  shows "pairs_exact \<kappa> xs P"
proof -
  let ?s = "filed_set g \<kappa> xs"
  define rd :: "nat \<Rightarrow> _" where "rd b = bucket_read (gl_bb g) (gl_cap g) (gl_arena g) ?s (linked g ?s) b" for b
  define dn :: "nat \<Rightarrow> _" where "dn b = fst (rd b)" for b
  define pl :: "nat \<Rightarrow> _" where "pl b = fst (snd (rd b))" for b
  define f :: "nat \<times> nat \<Rightarrow> _" where "f t = fst (body (fst t) (snd t) (dn (fst t)) (pl (fst t)))" for t
  have dr: "bk_drops ?s = 0" and P: "P = concat (map f (blocks (gl_bb g) sm))"
    and no: "\<And>b m. (b, m) \<in> set (blocks (gl_bb g) sm) \<Longrightarrow>
      rd b = (dn b, pl b, 0) \<and> body b m (dn b) (pl b) = (f (b, m), 0, 0)"
    using r by (auto simp: run_blocks_def Let_def rd_def [symmetric] dn_def pl_def f_def [abs_def] case_prod_beta comp_def prod_eq_iff)
  have recs: "mset (dn b @ pl b) = mset (filter (\<lambda>x. bucket_of (gl_bb g) (\<kappa> x) = b) xs)" if "b < 2 ^ gl_bb g" "m < 2 ^ sm" for b and m :: nat
    using read_bucket [OF xs(2) g that(1) dr] no [of b m] that by (auto simp: rd_def blocks_set)
  have ex: "block_exact \<kappa> sm n (of_nat m) (filter (\<lambda>x. bucket_of (gl_bb g) (\<kappa> x) = b) xs) (f (b, m))" if "b < 2 ^ gl_bb g" "m < 2 ^ sm" for b and m :: nat
  proof -
    have d: "distinct (dn b @ pl b)" and st: "set (dn b @ pl b) = set (filter (\<lambda>x. bucket_of (gl_bb g) (\<kappa> x) = b) xs)"
      using recs [OF that] xs(1) by (metis distinct_filter mset_eq_imp_distinct_iff, metis mset_eq_setD)
    have "body b m (dn b) (pl b) = (f (b, m), 0, 0)" using no [of b m] that by (simp add: blocks_set)
    from body [OF that(2) d this] show ?thesis unfolding block_exact_set [OF st] .
  qed
  have tag: "x \<in> set xs \<and> y \<in> set xs \<and> bucket_of (gl_bb g) (\<kappa> x) = b \<and> bucket_of (gl_bb g) (\<kappa> y) = b \<and> x \<noteq> y \<and>
      unat (take_bit sm (\<kappa> x)) = m \<and> unat (take_bit sm (\<kappa> y)) = m \<and> take_bit (sm + n) (\<kappa> x) = take_bit (sm + n) (\<kappa> y)"
    if "linked_pair (f (b, m)) x y" "b < 2 ^ gl_bb g" "m < 2 ^ sm" for x y b m
  proof -
    from ex [OF that(2,3)] that(1) have a: "x \<in> set xs" "y \<in> set xs" "bucket_of (gl_bb g) (\<kappa> x) = b" "bucket_of (gl_bb g) (\<kappa> y) = b"
      "x \<noteq> y" "take_bit sm (\<kappa> x) = of_nat m" "take_bit (sm + n) (\<kappa> x) = take_bit (sm + n) (\<kappa> y)"
      by (auto simp: block_exact_def)
    have "take_bit sm (take_bit (sm + n) (\<kappa> x)) = take_bit sm (\<kappa> x)" for x by (simp add: min_def)
    with a(6,7) have "take_bit sm (\<kappa> y) = of_nat m" by metis
    moreover have "(2 :: nat) ^ sm \<le> 2 ^ 32" using sm(2) by (intro power_increasing) auto
    then have "unat (of_nat m :: u32) = m" using that(3) by (simp add: unsigned_of_nat take_bit_nat_eq_self)
    ultimately show ?thesis using a by simp
  qed
  have same: "(b, m) = (b', m')"
    if "linked_pair (f (b, m)) x y" "linked_pair (f (b', m')) x y" "(b, m) \<in> set (blocks (gl_bb g) sm)" "(b', m') \<in> set (blocks (gl_bb g) sm)" for x y b m b' m'
    using tag [OF that(1)] tag [OF that(2)] that(3,4) by (simp add: blocks_set)
  have "once P"
    unfolding once_def P
  proof (intro conjI allI impI)
    show "distinct (concat (map f (blocks (gl_bb g) sm)))"
    proof (rule distinct_concat_map [OF blocks_distinct])
      show "distinct (f t)" if "t \<in> set (blocks (gl_bb g) sm)" for t
        using that ex [of "fst t" "snd t"] by (simp add: blocks_set block_exact_def once_def mem_Times_iff)
      show "t = t'" if "t \<in> set (blocks (gl_bb g) sm)" "t' \<in> set (blocks (gl_bb g) sm)" "z \<in> set (f t)" "z \<in> set (f t')" for t t' z
        using same [of "fst t" "snd t" "fst z" "snd z" "fst t'" "snd t'"] that by (simp add: linked_pair_def)
    qed
    fix x y assume "(x, y) \<in> set (concat (map f (blocks (gl_bb g) sm)))"
    then obtain b m where t: "(b, m) \<in> set (blocks (gl_bb g) sm)" "(x, y) \<in> set (f (b, m))" by auto
    show "(y, x) \<notin> set (concat (map f (blocks (gl_bb g) sm)))"
    proof
      assume "(y, x) \<in> set (concat (map f (blocks (gl_bb g) sm)))"
      then obtain b' m' where t': "(b', m') \<in> set (blocks (gl_bb g) sm)" "(y, x) \<in> set (f (b', m'))" by auto
      from same [of b m x y b' m'] t t' have "(b', m') = (b, m)" by (simp add: linked_pair_def)
      with t t' ex [of b m] show False by (simp add: blocks_set block_exact_def once_def)
    qed
  qed
  moreover have "linked_pair P x y \<longleftrightarrow> x \<in> set xs \<and> y \<in> set xs \<and> x \<noteq> y \<and> \<kappa> x = \<kappa> y" for x y
  proof
    assume "linked_pair P x y"
    then obtain b m where t: "(b, m) \<in> set (blocks (gl_bb g) sm)" "linked_pair (f (b, m)) x y" by (auto simp: P linked_pair_def)
    note a = tag [OF t(2)]
    with t(1) have b: "x \<in> set xs" "y \<in> set xs" "bucket_of (gl_bb g) (\<kappa> x) = bucket_of (gl_bb g) (\<kappa> y)"
      "take_bit (sm + n) (\<kappa> x) = take_bit (sm + n) (\<kappa> y)" "x \<noteq> y" by (auto simp: blocks_set)
    have "\<kappa> x = \<kappa> y" by (rule key_by_parts [OF _ _ b(3,4)]) (use xs(2) b(1,2) sm g in \<open>auto simp: any_launch_def\<close>)
    with b show "x \<in> set xs \<and> y \<in> set xs \<and> x \<noteq> y \<and> \<kappa> x = \<kappa> y" by simp
  next
    assume a: "x \<in> set xs \<and> y \<in> set xs \<and> x \<noteq> y \<and> \<kappa> x = \<kappa> y"
    define b where "b = bucket_of (gl_bb g) (\<kappa> x)"
    define m where "m = unat (take_bit sm (\<kappa> x))"
    have b: "b < 2 ^ gl_bb g" unfolding b_def by (rule bucket_of_less) (use a xs(2) g in \<open>auto simp: any_launch_def\<close>)
    have m: "m < 2 ^ sm" by (simp add: m_def unsigned_take_bit_eq)
    have "linked_pair (f (b, m)) x y" using ex [OF b m] a by (simp add: block_exact_def b_def m_def)
    then show "linked_pair P x y" using b m by (force simp: P linked_pair_def blocks_set)
  qed
  ultimately show ?thesis by (simp add: pairs_exact_def)
qed


section \<open>The blocks of a round and of the terminal round\<close>

lemma survives_iff: "survives w w' \<longleftrightarrow> take_bit 24 (drop_bit 24 w) = take_bit 24 (drop_bit 24 w')"
  by (simp add: survives_def terminal_zero)

lemma survives_sym: "survives w w' = survives w' w"
  by (auto simp: survives_iff)

lemma round_block_exact:
  assumes "any_order ord" "distinct (dense @ pool)" "take_bit sm part = part" "sm + 7 \<le> 32"
    "block_pairs ord \<kappa> solo fcap sm part dense pool = (P, 0, 0)"
  shows "block_exact \<kappa> sm 7 part (dense @ pool) P"
proof -
  have P: "P = fst (block_pairs ord \<kappa> solo fcap sm part dense pool)" by (simp add: assms(5))
  have "once P" unfolding once_def P using block_once [OF assms(1-4)] by simp
  moreover have "linked_pair P x y" if "x \<in> set (dense @ pool)" "y \<in> set (dense @ pool)" "x \<noteq> y" "take_bit sm (\<kappa> x) = part"
    "take_bit (sm + 7) (\<kappa> x) = take_bit (sm + 7) (\<kappa> y)" for x y
    using block_complete [OF assms(1,5,3,4) that(1-3) _ that(5)] that(4) by (simp add: in_part_take linked_pair_def)
  moreover have "x \<in> set (dense @ pool) \<and> y \<in> set (dense @ pool) \<and> x \<noteq> y \<and> take_bit sm (\<kappa> x) = part \<and>
    take_bit (sm + 7) (\<kappa> x) = take_bit (sm + 7) (\<kappa> y)" if "linked_pair P x y" for x y
  proof -
    have "take_bit sm (take_bit (sm + 7) k) = take_bit sm k" for k :: u32 by (simp add: min_def)
    then show ?thesis
      using that block_sound [OF assms(1-4), of x y \<kappa>] block_sound [OF assms(1-4), of y x \<kappa>] unfolding linked_pair_def P in_part_take by metis
  qed
  ultimately show ?thesis unfolding block_exact_def by metis
qed

lemma term_slot_take: "term_slot sm k = take_bit 8 (drop_bit sm k)"
  by (simp add: term_slot_def kTermTab_def take_bit_eq_mask mask_numeral)

interpretation tt: slot_table "term_slot sm" term_slots for sm
proof
  have inj: "inj_on (of_nat :: nat \<Rightarrow> u32) {0..<256}"
    by (rule inj_on_inverseI [of _ unat]) (simp add: unsigned_of_nat take_bit_nat_eq_self)
  then show "distinct term_slots" by (simp add: term_slots_def kTermTab_def distinct_map)
  fix k
  have "unat (term_slot sm k) < 256" by (simp add: term_slot_take unsigned_take_bit_eq take_bit_nat_less_exp [of 8, simplified])
  moreover have "term_slot sm k = of_nat (unat (term_slot sm k))" by simp
  ultimately show "term_slot sm k \<in> set term_slots" by (force simp: term_slots_def kTermTab_def)
qed

lemma low_bits_split:
  "take_bit (sm + n) k = take_bit (sm + n) (k' :: u32) \<longleftrightarrow>
    take_bit sm k = take_bit sm k' \<and> take_bit n (drop_bit sm k) = take_bit n (drop_bit sm k')"
proof (intro iffI conjI)
  assume e: "take_bit (sm + n) k = take_bit (sm + n) k'"
  show "take_bit sm k = take_bit sm k'" using arg_cong [OF e, of "take_bit sm"] by (simp add: min_def)
  show "take_bit n (drop_bit sm k) = take_bit n (drop_bit sm k')"
    using arg_cong [OF e, of "drop_bit sm"] by (simp add: drop_bit_take_bit)
next
  assume e: "take_bit sm k = take_bit sm k' \<and> take_bit n (drop_bit sm k) = take_bit n (drop_bit sm k')"
  show "take_bit (sm + n) k = take_bit (sm + n) k'"
  proof (rule bit_word_eqI)
    fix i show "bit (take_bit (sm + n) k) i = bit (take_bit (sm + n) k') i"
      using arg_cong [OF e [THEN conjunct1], of "\<lambda>w. bit w i"] arg_cong [OF e [THEN conjunct2], of "\<lambda>w. bit w (i - sm)"]
      by (cases "i < sm") (auto simp: bit_take_bit_iff bit_drop_bit_eq)
  qed
qed

lemma term_block_exact:
  assumes ord: "any_order ord" and d: "distinct (dense @ pool)" and r: "term_block ord \<kappa> sm part dense pool = (P, 0, 0)"
  shows "block_exact \<kappa> sm 8 part (dense @ pool) P"
proof -
  define xs where "xs = filter (\<lambda>x. in_part sm part (\<kappa> x)) (dense @ pool)"
  have dx: "distinct xs" unfolding xs_def by (rule distinct_filter [OF d])
  have r: "pass_by ord 0 (term_slot sm) term_slots \<kappa> kTermCap xs = (P, 0, 0)" using r by (simp add: term_block_def xs_def)
  have P: "P = fst (pass_by ord 0 (term_slot sm) term_slots \<kappa> kTermCap xs)" by (simp add: r)
  have "once P" unfolding once_def P using tt.found_once [OF ord dx] by blast
  moreover have "linked_pair P x y \<longleftrightarrow> x \<in> set xs \<and> y \<in> set xs \<and> x \<noteq> y \<and> term_slot sm (\<kappa> x) = term_slot sm (\<kappa> y)" for x y
    using tt.pairs_found [OF ord dx, where x = x and y = y and p = 0 and \<kappa> = \<kappa> and sm = sm and n = kTermCap]
      tt.pairs_found [OF ord dx, where x = y and y = x and p = 0 and \<kappa> = \<kappa> and sm = sm and n = kTermCap]
      tt.all_found [OF ord r, where x = x and y = y]
    unfolding linked_pair_def P by auto
  ultimately show ?thesis
    unfolding block_exact_def low_bits_split by (auto simp: xs_def in_part_take term_slot_take)
qed

lemma run_round_exact:
  assumes g: "any_launch g" and xs: "distinct xs" "\<forall>x \<in> set xs. fits 24 (\<kappa> x)" and r: "run_round g \<kappa> xs = (P, 0)"
  shows "pairs_exact \<kappa> xs P"
proof (rule run_blocks_exact [OF g _ _ xs, where sm = "gl_sm g" and n = 7])
  show "24 \<le> gl_bb g + gl_sm g + 7" "gl_sm g + 7 \<le> 32" using g by (auto simp: any_launch_def)
  show "run_blocks g (\<lambda>b m. block_pairs (gl_order g b m) \<kappa> (gl_solo g) (gl_fcap g) (gl_sm g) (of_nat m)) (gl_sm g) \<kappa> xs = (P, 0)"
    using r by (simp add: run_round_def)
  fix b m :: nat and dense pool P
  assume m: "m < 2 ^ gl_sm g" and a: "distinct (dense @ pool)"
    "block_pairs (gl_order g b m) \<kappa> (gl_solo g) (gl_fcap g) (gl_sm g) (of_nat m) dense pool = (P, 0, 0)"
  have "take_bit (gl_sm g) (of_nat m :: u32) = of_nat m" using m by (simp add: take_bit_of_nat take_bit_nat_eq_self)
  with g show "block_exact \<kappa> (gl_sm g) 7 (of_nat m) (dense @ pool) P"
    by (intro round_block_exact [OF _ a(1) _ _ a(2)]) (auto simp: any_launch_def)
qed

lemma run_terminal_exact:
  assumes g: "any_launch g" and xs: "distinct xs" and r: "run_terminal g \<omega> xs = (sv, 0)"
  shows "linked_pair sv x y \<longleftrightarrow> x \<in> set xs \<and> y \<in> set xs \<and> x \<noteq> y \<and> rec_key (\<omega> x) = rec_key (\<omega> y) \<and> survives (\<omega> x) (\<omega> y)"
proof -
  define body where "body = (\<lambda>b (m :: nat). term_block (gl_order g b m) (rec_key \<circ> \<omega>) (term_sm g) (of_nat m))"
  obtain ps d where ps: "run_blocks g body (term_sm g) (rec_key \<circ> \<omega>) xs = (ps, d)" by (cases "run_blocks g body (term_sm g) (rec_key \<circ> \<omega>) xs")
  have d: "d = 0" and sv: "sv = filter (\<lambda>(x, y). survives (\<omega> x) (\<omega> y)) ps"
    using r ps by (auto simp: run_terminal_def body_def Let_def)
  have k: "fits 24 (rec_key w)" for w by (rule fits_rec_key)
  have "pairs_exact (rec_key \<circ> \<omega>) xs ps"
  proof (rule run_blocks_exact [OF g _ _ xs, where sm = "term_sm g" and n = 8])
    show "24 \<le> gl_bb g + term_sm g + 8" "term_sm g + 8 \<le> 32" using g by (auto simp: any_launch_def term_sm_def)
    show "run_blocks g body (term_sm g) (rec_key \<circ> \<omega>) xs = (ps, 0)" using ps d by simp
    show "block_exact (rec_key \<circ> \<omega>) (term_sm g) 8 (of_nat m) (dense @ pool) P"
      if "distinct (dense @ pool)" "body b m dense pool = (P, 0, 0)" for b m dense pool P
      by (rule term_block_exact [OF _ that(1)]) (use g that(2) in \<open>auto simp: any_launch_def body_def\<close>)
  qed (simp add: k)
  then have "linked_pair ps x y \<longleftrightarrow> x \<in> set xs \<and> y \<in> set xs \<and> x \<noteq> y \<and> rec_key (\<omega> x) = rec_key (\<omega> y)"
    by (simp add: pairs_exact_def)
  moreover have "linked_pair sv x y \<longleftrightarrow> linked_pair ps x y \<and> survives (\<omega> x) (\<omega> y)"
    using survives_sym by (auto simp: sv linked_pair_def)
  ultimately show ?thesis by blast
qed


section \<open>No solution is lost\<close>

lemma join_inj:
  assumes "join_leaves (x, y) = join_leaves (x', y')" "length x = n" "length y = n" "length x' = n" "length y' = n"
  shows "(x', y') = (x, y) \<or> (x', y') = (y, x)"
  using assms by (auto simp: join_leaves_def split: if_splits)

lemma length_join: "length x = n \<Longrightarrow> length y = n \<Longrightarrow> length (join_leaves (x, y)) = 2 * n"
  by (simp add: join_leaves_def)

lemma distinct_joins:
  assumes P: "once P" and n: "\<And>x y. (x, y) \<in> set P \<Longrightarrow> length x = n \<and> length y = n"
  shows "distinct (map join_leaves P)"
  unfolding distinct_map
proof
  show "distinct P" using P by (simp add: once_def)
  show "inj_on join_leaves (set P)"
  proof (rule inj_onI)
    fix a b assume ab: "a \<in> set P" "b \<in> set P" "join_leaves a = join_leaves b"
    obtain x y x' y' where e: "a = (x, y)" "b = (x', y')" by (cases a, cases b) auto
    from join_inj [OF ab(3) [unfolded e]] n ab(1,2) P show "a = b" unfolding e once_def by metis
  qed
qed

definition solve_setup :: "(nat \<Rightarrow> u32 list grid) \<Rightarrow> (nat \<Rightarrow> u32 list list \<Rightarrow> u32 list list) \<Rightarrow> bool" where
  "solve_setup g sh \<longleftrightarrow> (\<forall>d. any_launch (g d)) \<and> (\<forall>d xs. mset (sh d xs) = mset xs)"

lemma leaf_key: "rec_key (leaf_word p d l) = collision_bits (node p d l)"
  by (simp add: rec_key_def leaf_word_def collision_bits_def)

lemma merged_halves:
  assumes "beam_tree p (Suc d) l = Some t" "length l = 2 ^ Suc d"
  obtains x y where "l = x @ y" "length x = 2 ^ d" "length y = 2 ^ d" "\<exists>t. beam_tree p d x = Some t" "\<exists>t. beam_tree p d y = Some t"
    "x \<noteq> y" "hd x < hd y" "rec_key (leaf_word p d x) = rec_key (leaf_word p d y)"
    "g_e t = combine (node p d x) (node p d y) (round_Lout (Suc d))"
proof -
  let ?x = "take (2 ^ d) l" and ?y = "drop (2 ^ d) l"
  obtain tx ty where t: "beam_tree p d ?x = Some tx" "beam_tree p d ?y = Some ty" "merge_spec (Suc d) tx ty = Some t"
    by (rule beam_tree_step [OF assms(1) refl])
  have len: "length ?x = 2 ^ d" "length ?y = 2 ^ d" using assms(2) by simp_all
  note nx = node_tree [OF t(1) len(1)] and ny = node_tree [OF t(2) len(2)]
  have m: "collision_bits (node p d ?x) = collision_bits (node p d ?y)" "hd ?x < hd ?y"
    "g_e t = combine (node p d ?x) (node p d ?y) (round_Lout (Suc d))"
    using t(3) nx ny by (auto simp: merge_spec_def split: if_splits)
  then have "?x \<noteq> ?y" by force
  then show thesis using t m by (intro that [of ?x ?y, OF _ len]) (simp_all add: leaf_key)
qed

lemma elements_complete:
  assumes s: "solve_setup g sh" and idx: "distinct idx"
  shows "elements p g sh idx d = (xs, 0) \<Longrightarrow>
    distinct xs \<and> (\<forall>x \<in> set xs. length x = 2 ^ d) \<and>
    (\<forall>l t. beam_tree p d l = Some t \<longrightarrow> length l = 2 ^ d \<longrightarrow> set l \<subseteq> set idx \<longrightarrow> l \<in> set xs)"
proof (induction d arbitrary: xs)
  case 0
  then have m: "mset xs = mset (map (\<lambda>i. [i]) idx)" using s by (auto simp: solve_setup_def)
  have "distinct (map (\<lambda>i. [i]) idx)" using idx by (simp add: distinct_map inj_on_def)
  with m have "distinct xs" by (metis mset_eq_imp_distinct_iff)
  moreover have "set xs = (\<lambda>i. [i]) ` set idx" using mset_eq_setD [OF m] by simp
  ultimately show ?case by (auto simp: length_Suc_conv)
next
  case (Suc d)
  obtain ys dr where ys: "elements p g sh idx d = (ys, dr)" by (cases "elements p g sh idx d")
  obtain P dr' where P: "run_round (g d) (rec_key \<circ> leaf_word p d) ys = (P, dr')"
    by (cases "run_round (g d) (rec_key \<circ> leaf_word p d) ys")
  have z: "dr = 0" "dr' = 0" and xs: "xs = sh (Suc d) (map join_leaves P)" using Suc.prems ys P by auto
  note IH = Suc.IH [OF ys [unfolded z(1)]]
  have "pairs_exact (rec_key \<circ> leaf_word p d) ys P"
    by (rule run_round_exact [where g = "g d"]) (use s IH P z in \<open>auto simp: solve_setup_def\<close>)
  then have ex: "once P" "\<And>x y. linked_pair P x y \<longleftrightarrow> x \<in> set ys \<and> y \<in> set ys \<and> x \<noteq> y \<and> rec_key (leaf_word p d x) = rec_key (leaf_word p d y)"
    by (simp_all add: pairs_exact_def)
  have len: "length x = 2 ^ d \<and> length y = 2 ^ d" if "(x, y) \<in> set P" for x y
    using ex(2) [of x y] that IH by (simp add: linked_pair_def)
  have m: "mset xs = mset (map join_leaves P)" using s by (simp add: xs solve_setup_def)
  have "distinct xs" using distinct_joins [OF ex(1) len] m by (metis mset_eq_imp_distinct_iff)
  moreover have set: "set xs = join_leaves ` set P" using mset_eq_setD [OF m] by simp
  moreover have "\<forall>x \<in> set xs. length x = 2 ^ Suc d" using len length_join by (auto simp: set)
  moreover have "l \<in> set xs" if "beam_tree p (Suc d) l = Some t" "length l = 2 ^ Suc d" "set l \<subseteq> set idx" for l t
  proof -
    from merged_halves [OF that(1,2)] obtain x y where h: "l = x @ y" "length x = 2 ^ d" "length y = 2 ^ d"
      "\<exists>t. beam_tree p d x = Some t" "\<exists>t. beam_tree p d y = Some t" "x \<noteq> y" "hd x < hd y"
      "rec_key (leaf_word p d x) = rec_key (leaf_word p d y)" by metis
    have "x \<in> set ys" "y \<in> set ys" using IH h that(3) by auto
    with ex(2) h have "linked_pair P x y" by simp
    moreover have "join_leaves (x, y) = l" "join_leaves (y, x) = l" using h by (auto simp: join_leaves_def)
    ultimately show ?thesis unfolding set linked_pair_def by (metis image_eqI)
  qed
  ultimately show ?case by blast
qed

lemma device_complete:
  assumes "solve_setup g sh" "distinct idx" and sv: "device_solve p g sh idx = (sv, 0)"
    and t: "beam_tree p 5 l = Some t" "is_zero (g_e t)" "length l = 32" "set l \<subseteq> set idx"
  shows "\<exists>x y. l = x @ y \<and> linked_pair sv x y"
proof -
  obtain xs dr where xs: "elements p g sh idx 4 = (xs, dr)" by (cases "elements p g sh idx 4")
  obtain dr' where sv: "run_terminal (g 4) (leaf_word p 4) xs = (sv, dr')" and z: "dr = 0" "dr' = 0"
    using sv xs by (auto simp: device_solve_def split: prod.splits)
  note el = elements_complete [OF assms(1,2) xs [unfolded z(1)]]
  have five: "Suc 4 = (5 :: nat)" and len: "length l = 2 ^ Suc 4" using t(3) by simp_all
  obtain x y where h: "l = x @ y" "length x = 2 ^ 4" "length y = 2 ^ 4" "\<exists>t. beam_tree p 4 x = Some t" "\<exists>t. beam_tree p 4 y = Some t"
    "x \<noteq> y" "rec_key (leaf_word p 4 x) = rec_key (leaf_word p 4 y)" "g_e t = combine (node p 4 x) (node p 4 y) (round_Lout 5)"
    by (rule merged_halves [OF t(1) [folded five] len, unfolded five], rule that)
  have "x \<in> set xs" "y \<in> set xs" using el h(2-5) t(4) unfolding h(1) set_append by blast+
  moreover have "round_Lout 5 = 24" by (simp add: round_Lout_def)
  with t(2) h(8) have "survives (leaf_word p 4 x) (leaf_word p 4 y)"
    by (simp only: survives_iff leaf_word_def terminal_zero)
  moreover have "any_launch (g 4)" using assms(1) by (simp add: solve_setup_def)
  ultimately have "linked_pair sv x y"
    using run_terminal_exact [OF _ _ sv [unfolded z(2)]] el h(6,7) by blast
  with h(1) show ?thesis by blast
qed



text \<open>A launch over at most one record finds nothing and drops nothing.\<close>

definition plain_launch :: "'a grid" where
  "plain_launch = \<lparr>gl_bb = 16, gl_sm = 1, gl_cap = 1, gl_arena = False, gl_solo = True, gl_fcap = 0,
     gl_order = (\<lambda>_ _ _ _ xs. xs), gl_link = (\<lambda>is. is)\<rparr>"

lemma single_read:
  "bk_drops (filed_set plain_launch \<kappa> [x]) = 0"
  "bucket_read (gl_bb plain_launch) (gl_cap plain_launch) (gl_arena plain_launch) (filed_set plain_launch \<kappa> [x]) lk b =
    (if b = bucket_of 16 (\<kappa> x) then [x] else [], [], 0)"
  "bk_drops (filed_set plain_launch \<kappa> []) = 0"
  "bucket_read (gl_bb plain_launch) (gl_cap plain_launch) (gl_arena plain_launch) (filed_set plain_launch \<kappa> []) lk b = ([], [], 0)"
  by (simp_all add: filed_set_def plain_launch_def emit_all_def emit_rec_def outset0_def bucket_read_def bucket_dense_def upt_rec)

lemma no_pairs: "pass_by (\<lambda>_ _ xs. xs) p slot ss \<kappa> n [] = ([], 0, 0)"
  by (auto simp: pass_by_def chains_by_def Let_def chain_pairs_def chain_drops_def comp_def)

lemma single_pass:
  "length xs \<le> 1 \<Longrightarrow> block_pairs (\<lambda>_ _ xs. xs) \<kappa> True 0 sm part xs [] = ([], 0, 0)"
proof -
  assume "length xs \<le> 1"
  then have "staged \<kappa> True sm n q xs = []" for n q
    by (cases xs) (auto simp: staged_def solo_filter_def)
  then show ?thesis by (simp add: block_pairs_def pass_pairs_def no_pairs)
qed

lemma plain_round:
  assumes "length xs \<le> 1"
  shows "run_round plain_launch \<kappa> xs = ([], 0)"
proof -
  have l: "gl_order plain_launch b m = (\<lambda>_ _ xs. xs)" "gl_solo plain_launch" "gl_fcap plain_launch = 0" for b m
    by (simp_all add: plain_launch_def)
  show ?thesis
  proof (cases xs)
    case Nil
    show ?thesis
      by (simp add: Nil run_round_def run_blocks_def Let_def single_read l single_pass comp_def case_prod_beta)
  next
    case (Cons x ys)
    with assms have x: "xs = [x]" by simp
    show ?thesis
      by (simp add: x run_round_def run_blocks_def Let_def single_read l single_pass comp_def case_prod_beta)
  qed
qed

lemma plain_terminal: "run_terminal plain_launch \<omega> [] = ([], 0)"
  by (simp add: run_terminal_def run_blocks_def Let_def single_read term_block_def no_pairs comp_def case_prod_beta)
    (simp add: plain_launch_def no_pairs length_concat comp_def)


end
