(* ===== verification/Stages.thy ===== *)
theory Stages
  imports Records
begin

text \<open>
  What a CUDA round writes for a child and what the next round makes of it (kernels/cuda/fused_round.cuh): the
  record forms of the four boundaries, the staging of each with what it derives, and the child of two
  staged elements. Shown: through every form, an element stands for its tree, and the child of two
  elements is the element of the joined tree.
\<close>

unbundle bit_operations_syntax

section \<open>The record forms\<close>

text \<open>
  The forms, by the mode that reads them: the entry record, the pair record with or without the checkpoint of
  word 0, round 2's record whole, packed, as four leaves with word 0 and as four leaves alone, and round 3's
  record as words or as eight leaves with word 0. The number is that of the key's bits that are the bucket's address.
\<close>

datatype form = LM_SEED | LM_RD2 | LM_RD2_W0 nat | LM_EMIT | LM_EMIT_IMPB nat | LM_RD3_W0 | LM_RD3_16 | LM_USE | LM_RD4

fun form_level :: "form \<Rightarrow> nat" where
  "form_level LM_SEED = 0"
| "form_level LM_RD2 = 1"
| "form_level (LM_RD2_W0 _) = 1"
| "form_level LM_EMIT = 2"
| "form_level (LM_EMIT_IMPB _) = 2"
| "form_level LM_RD3_W0 = 2"
| "form_level LM_RD3_16 = 2"
| "form_level LM_USE = 3"
| "form_level LM_RD4 = 3"

text \<open>
  The record of a child, from its words, its leaves, its id and the block's own bucket. The plane that
  holds the ninth word of round 2's whole record is its ninth element here.
\<close>

fun emit_words :: "form \<Rightarrow> elem \<Rightarrow> u32 list \<Rightarrow> u32 \<Rightarrow> u32 \<Rightarrow> u64 list" where
  "emit_words LM_SEED c t cgi bucket = [push_bit 32 (ucast (t ! 0)) OR ucast (rec_key (elem_w c ! 0))]"
| "emit_words LM_RD2 c t cgi bucket = [pair_w0 (rec_key (elem_w c ! 0)) (t ! 0), pair_w1 (t ! 1) cgi]"
| "emit_words (LM_RD2_W0 impb) c t cgi bucket = [pw0_w0 impb (elem_w c ! 0) cgi, pw0_w1 (t ! 0) (t ! 1) cgi]"
| "emit_words LM_EMIT c t cgi bucket =
    [elem_w c ! 0, elem_w c ! 1, elem_w c ! 2, elem_w c ! 3, elem_w c ! 4, elem_w c ! 5, elem_w c ! 6,
     r3_p0 (t ! 0) (t ! 1) (t ! 2), r3_p1 (t ! 2) (t ! 3) cgi]"
| "emit_words (LM_EMIT_IMPB impb) c t cgi bucket =
    (let impKB = 24 - impb; w = elem_w c;
         e = (\<lambda>i. drop_bit impb (w ! i) OR push_bit (64 - impb) (w ! (i + 1)))
     in [(w ! 0 AND (push_bit impKB 1 - 1)) OR push_bit impKB (drop_bit 24 (w ! 0)) OR push_bit (impKB + 40) (w ! 1),
         e 1, e 2, e 3, e 4, e 5, r3_p0 (t ! 0) (t ! 1) (t ! 2), r3_p1 (t ! 2) (t ! 3) cgi])"
| "emit_words LM_RD3_W0 c t cgi bucket = [elem_w c ! 0, r3_p0 (t ! 0) (t ! 1) (t ! 2), r3_p1 (t ! 2) (t ! 3) cgi]"
| "emit_words LM_RD3_16 c t cgi bucket = [quad16_w0 (rec_key (elem_w c ! 0)) t, quad16_w1 t]"
| "emit_words LM_USE c t cgi bucket =
    [elem_w c ! 0, elem_w c ! 1, elem_w c ! 2, elem_w c ! 3, r3o_w4 (elem_w c ! 4) bucket, r3o_meta (t ! 0) cgi bucket, octo_contrib t]"
| "emit_words LM_RD4 c t cgi bucket = [ow0_w0 (elem_w c ! 0) t, ow0_w1 t, ow0_w2 t, ow0_w3 t]"

text \<open>A staged element: seven work words (those a mode does not stage are 0), the leaf payload, the lead and the id.\<close>

record selem =
  se_w :: "u64 list"
  se_leaf :: "u32 list"
  se_lead :: u32
  se_gi :: u32

definition impb_unpack :: "nat \<Rightarrow> u32 \<Rightarrow> u64 list \<Rightarrow> u64 list" where
  "impb_unpack impb bucket q =
    (let m = (\<lambda>i. drop_bit (64 - impb) (q ! i) OR push_bit impb (q ! (i + 1)))
     in [pw0_word0 impb (q ! 0) bucket, m 0, m 1, m 2, m 3, m 4, drop_bit (64 - impb) (q ! 5) AND 0xFFFF])"

fun stage_words :: "form \<Rightarrow> u64 list \<Rightarrow> u32 \<Rightarrow> u32 \<Rightarrow> u64 list \<Rightarrow> selem" where
  "stage_words LM_SEED pp bucket slot r =
    (let idx = ucast (drop_bit 32 (r ! 0))
     in \<lparr>se_w = elem_w (apply_mix (seed_element pp idx) [idx] 1 448), se_leaf = [idx], se_lead = idx, se_gi = idx\<rparr>)"
| "stage_words LM_RD2 pp bucket slot r =
    (let li = pair_left (r ! 0); ri = pair_right (r ! 1)
     in \<lparr>se_w = elem_w (rebuild_r2 pp li ri), se_leaf = [li, ri], se_lead = li, se_gi = pair_gi (r ! 1)\<rparr>)"
| "stage_words (LM_RD2_W0 impb) pp bucket slot r =
    (let li = pw0_left (r ! 1); ri = pw0_right (r ! 1)
     in \<lparr>se_w = rebuild_r2_lane pp li ri (pw0_word0 impb (r ! 0) bucket # replicate 6 0), se_leaf = [li, ri], se_lead = li, se_gi = slot\<rparr>)"
| "stage_words LM_EMIT pp bucket slot r =
    (let p0 = r ! 7; p1 = r ! 8
     in \<lparr>se_w = take 7 r, se_leaf = [r3_l0 p0, r3_l1 p0, r3_l2 p0 p1, r3_l3 p1], se_lead = r3_l0 p0, se_gi = r3_gi p1\<rparr>)"
| "stage_words (LM_EMIT_IMPB impb) pp bucket slot r =
    (let p0 = r ! 6; p1 = r ! 7
     in \<lparr>se_w = impb_unpack impb bucket r, se_leaf = [r3_l0 p0, r3_l1 p0, r3_l2 p0 p1, r3_l3 p1], se_lead = r3_l0 p0, se_gi = slot\<rparr>)"
| "stage_words LM_RD3_W0 pp bucket slot r =
    (let w1 = r ! 1; w2 = r ! 2; l = [r3_l0 w1, r3_l1 w1, r3_l2 w1 w2, r3_l3 w2]
     in \<lparr>se_w = rebuild_r3_lane pp l (r ! 0 # replicate 6 0), se_leaf = l, se_lead = l ! 0, se_gi = r3_gi w2\<rparr>)"
| "stage_words LM_RD3_16 pp bucket slot r =
    (let l = quad16_leaves (r ! 0) (r ! 1)
     in \<lparr>se_w = elem_w (rebuild_r3 pp l), se_leaf = l, se_lead = l ! 0, se_gi = slot\<rparr>)"
| "stage_words LM_USE pp bucket slot r =
    \<lparr>se_w = take 5 r @ [0, 0], se_leaf = [ucast (r ! 6), ucast (drop_bit 32 (r ! 6))], se_lead = r3o_lead (r ! 5), se_gi = slot\<rparr>"
| "stage_words LM_RD4 pp bucket slot r =
    (let l = ow0_leaves (r ! 0) (r ! 1) (r ! 2) (r ! 3); lc = octo_contrib l
     in \<lparr>se_w = (rebuild_r4_lane pp l (ow0_word0 (r ! 0) # replicate 6 0))[6 := 0], se_leaf = [ucast lc, ucast (drop_bit 32 lc)],
         se_lead = ow0_lead (r ! 0) (r ! 1), se_gi = slot\<rparr>)"

section \<open>The child of a pair\<close>

text \<open>The parent with the smaller lead is the left one; the ids decide between equal leads.\<close>

definition left_right :: "selem \<Rightarrow> selem \<Rightarrow> selem \<times> selem" where
  "left_right a b = (if se_lead b < se_lead a \<or> (se_lead b = se_lead a \<and> se_gi b < se_gi a) then (b, a) else (a, b))"

definition child_mix :: "u32 \<Rightarrow> u32 \<Rightarrow> selem \<Rightarrow> selem \<Rightarrow> elem \<times> u32 list" where
  "child_mix Lout padn a b =
    (let (l, r) = left_right a b; t = se_leaf l @ se_leaf r
     in (apply_mix (combine \<lparr>elem_w = se_w l\<rparr> \<lparr>elem_w = se_w r\<rparr> Lout) t padn Lout, t))"

definition child_split :: "selem \<Rightarrow> selem \<Rightarrow> u64 \<times> u32" where
  "child_split a b =
    (let (l, r) = left_right a b; c = combine \<lparr>elem_w = se_w l\<rparr> \<lparr>elem_w = se_w r\<rparr> 288;
         lc = push_bit 32 (ucast (se_leaf l ! 1)) OR ucast (se_leaf l ! 0)
     in (split_mix c (se_lead r) lc, se_lead l))"


section \<open>What an element stands for\<close>

text \<open>
  Its leaves or what round 4 takes in their place, its lead, the bits of its words that the next \<open>combine\<close>
  reads, and the bits of its key that are not the bucket's address.
\<close>

definition stands :: "u64 list \<Rightarrow> nat \<Rightarrow> u32 list \<Rightarrow> selem \<Rightarrow> bool" where
  "stands p d l s \<longleftrightarrow> se_lead s = l ! 0 \<and>
    (if d = 3 then push_bit 32 (ucast (se_leaf s ! 1)) OR ucast (se_leaf s ! 0) = octo_contrib l else se_leaf s = l) \<and>
    (\<forall>n. 24 \<le> n \<longrightarrow> n < 24 + unat (round_Lout (Suc d)) \<longrightarrow> bits_at (se_w s) n = bits_at (elem_w (node p d l)) n) \<and>
    take_bit 10 (se_w s ! 0) = take_bit 10 (elem_w (node p d l) ! 0)"

lemma standsI:
  assumes "se_lead s = l ! 0" "se_leaf s = l" "d < 3" "se_w s = elem_w (node p d l)"
  shows "stands p d l s"
  using assms by (simp add: stands_def)

lemma round_Louts: "round_Lout 1 = 424" "round_Lout 2 = 400" "round_Lout 3 = 376" "round_Lout 4 = 288" "round_Lout 5 = 24"
  by (simp_all add: round_Lout_def)

lemma leaf_fits: "list_all (fits 25) l \<Longrightarrow> i < length l \<Longrightarrow> fits 25 (l ! i)"
  by (simp add: list_all_length)

lemma halves_word: "push_bit 32 (ucast (ucast (drop_bit 32 (x :: u64)) :: u32)) OR ucast (ucast x :: u32) = x"
  by (rule bit_word_eqI) (auto simp: bit_simps)

lemma node_words: "length (elem_w (node p d l)) = 7"
  using wf_node [of p d l] by (simp add: wf_elem_def kWorkWords_def)

lemma seven: "length w = 7 \<Longrightarrow> w = [w ! 0, w ! 1, w ! 2, w ! 3, w ! 4, w ! 5, w ! 6]"
  by (auto simp: list_eq_iff_nth_eq less_Suc_eq numeral_eq_Suc)

lemma two: "length l = 2 \<Longrightarrow> l = [l ! 0, l ! 1]"
  by (auto simp: list_eq_iff_nth_eq less_Suc_eq numeral_eq_Suc)

lemma words_from_lane: "length w = 7 \<Longrightarrow> w ! 0 # map ((!) w) [1..<7] = w"
  by (rule nth_equalityI) (auto simp: nth_Cons split: nat.split)

lemma one: "length l = 1 \<Longrightarrow> l = [l ! 0]"
  by (auto simp: length_Suc_conv)

declare One_nat_def [simp del]

lemma stage_seed:
  assumes "length l = 1" "list_all (fits 25) l"
  shows "stands p 0 l (stage_words LM_SEED p bucket slot (emit_words LM_SEED (node p 0 l) l gi hint))"
proof -
  have i: "ucast (drop_bit 32 (push_bit 32 (ucast (l ! 0)) OR ucast (rec_key x) :: u64)) = l ! 0" for x
    by (rule bit_word_eqI) (auto simp: bit_simps dest: bit_imp_le_length)
  from one [OF assms(1)] i show ?thesis by (intro standsI) (simp_all add: Let_def node.simps)
qed

lemma stage_pair:
  assumes "length l = 2" "list_all (fits 25) l"
  shows "stands p 1 l (stage_words LM_RD2 p bucket slot (emit_words LM_RD2 (node p 1 l) l gi hint))"
proof -
  have l: "fits 25 (l ! 0)" "fits 25 (l ! 1)" using assms by (simp_all add: list_all_length)
  have f: "pair_left (pair_w0 (rec_key x) (l ! 0)) = l ! 0" "pair_right (pair_w1 (l ! 1) gi) = l ! 1" for x
    using pair_fields(2,3) [OF l fits_rec_key] by simp_all
  show ?thesis
    using two [OF assms(1)] rebuild_r2_node [of p "l ! 0" "l ! 1"] by (intro standsI) (simp_all add: Let_def f)
qed

lemma stage_pair_w0:
  assumes "length l = 2" "list_all (fits 25) l" "12 \<le> impb" "impb \<le> 24" "bucket = drop_bit (24 - impb) (rec_key (elem_w (node p 1 l) ! 0))"
  shows "stands p 1 l (stage_words (LM_RD2_W0 impb) p bucket slot (emit_words (LM_RD2_W0 impb) (node p 1 l) l gi hint))"
proof -
  have f: "pw0_left (pw0_w1 (l ! 0) (l ! 1) gi) = l ! 0" "pw0_right (pw0_w1 (l ! 0) (l ! 1) gi) = l ! 1"
    using pw0_fields [of "l ! 0" "l ! 1"] assms(1,2) by (simp_all add: list_all_length)
  note w = pw0_word0_back [OF assms(3-5), of gi]
  have r: "rebuild_r2 p (l ! 0) (l ! 1) = node p 1 l" using rebuild_r2_node [of p "l ! 0" "l ! 1"] two [OF assms(1)] by simp
  show ?thesis
    using two [OF assms(1)] words_from_lane [OF node_words [of p 1 l]]
    by (intro standsI) (simp_all add: Let_def f w rebuild_r2_lane_words r)
qed


lemma r3_leaves:
  assumes "length l = 4" "list_all (fits 25) l" "fits 26 gi"
  shows "r3_l0 (r3_p0 (l ! 0) (l ! 1) (l ! 2)) = l ! 0" "r3_l1 (r3_p0 (l ! 0) (l ! 1) (l ! 2)) = l ! 1"
    "r3_l2 (r3_p0 (l ! 0) (l ! 1) (l ! 2)) (r3_p1 (l ! 2) (l ! 3) gi) = l ! 2" "r3_l3 (r3_p1 (l ! 2) (l ! 3) gi) = l ! 3"
proof -
  have l: "fits 25 (l ! 0)" "fits 25 (l ! 1)" "fits 25 (l ! 2)" "fits 25 (l ! 3)" using assms by (simp_all add: list_all_length)
  show "r3_l0 (r3_p0 (l ! 0) (l ! 1) (l ! 2)) = l ! 0" "r3_l1 (r3_p0 (l ! 0) (l ! 1) (l ! 2)) = l ! 1"
    "r3_l2 (r3_p0 (l ! 0) (l ! 1) (l ! 2)) (r3_p1 (l ! 2) (l ! 3) gi) = l ! 2" "r3_l3 (r3_p1 (l ! 2) (l ! 3) gi) = l ! 3"
    using r3_fields [OF l assms(3)] by simp_all
qed

lemma stage_full:
  assumes "length l = 4" "list_all (fits 25) l" "fits 26 gi"
  shows "stands p 2 l (stage_words LM_EMIT p bucket slot (emit_words LM_EMIT (node p 2 l) l gi hint))"
proof -
  have t: "take 7 [w0, w1, w2, w3, w4, w5, w6, a, b] = [w0, w1, w2, w3, w4, w5, w6]" for w0 w1 w2 w3 w4 w5 w6 a b :: u64
    by simp
  have n: "[w0, w1, w2, w3, w4, w5, w6, a, b] ! 7 = a" "[w0, w1, w2, w3, w4, w5, w6, a, b] ! 8 = b" for w0 w1 w2 w3 w4 w5 w6 a b :: u64
    by simp_all
  show ?thesis
    by (intro standsI)
      (simp_all only: stage_words.simps emit_words.simps Let_def selem.simps t n r3_leaves [OF assms] four [OF assms(1), symmetric]
        seven [OF node_words, symmetric])
qed

lemma stage_quad_w0:
  assumes "length l = 4" "list_all (fits 25) l" "fits 26 gi"
  shows "stands p 2 l (stage_words LM_RD3_W0 p bucket slot (emit_words LM_RD3_W0 (node p 2 l) l gi hint))"
  using words_from_lane [OF node_words [of p 2 l]]
  by (intro standsI)
    (simp_all add: Let_def r3_leaves [OF assms] four [OF assms(1), symmetric] rebuild_r3_lane_words rebuild_r3_node [OF assms(1)])

lemma stage_quad16:
  assumes "length l = 4" "list_all (fits 25) l"
  shows "stands p 2 l (stage_words LM_RD3_16 p bucket slot (emit_words LM_RD3_16 (node p 2 l) l gi hint))"
  by (intro standsI) (simp_all add: Let_def quad16_fields(2) [OF assms(2,1) fits_rec_key] rebuild_r3_node [OF assms(1)])


text \<open>The packed form: 400 bits of work without the address bits of the key, in seven words.\<close>

lemma shifted_pair:
  assumes "impb \<le> 64"
  shows "drop_bit (64 - impb) (drop_bit impb x OR push_bit (64 - impb) y) OR push_bit impb (drop_bit impb y OR push_bit (64 - impb) (z :: u64)) = y"
    (is "?l = y")
proof (rule bit_word_eqI)
  fix n :: nat assume n: "n < LENGTH(64)"
  have "\<not> bit x (n + 64)" using bit_imp_le_length [of x "n + 64"] by auto
  then show "bit ?l n = bit y n" using n assms by (cases "n < impb") (auto simp: bit_simps ac_simps)
qed

lemma impb_words:
  assumes "length w = 7" "16 \<le> impb" "impb \<le> 24" "bucket = drop_bit (24 - impb) (rec_key (w ! 0))" "\<And>n. 16 \<le> n \<Longrightarrow> \<not> bit (w ! 6) n"
  shows "impb_unpack impb bucket
    [(w ! 0 AND (push_bit (24 - impb) 1 - 1)) OR push_bit (24 - impb) (drop_bit 24 (w ! 0)) OR push_bit (24 - impb + 40) (w ! 1),
     drop_bit impb (w ! 1) OR push_bit (64 - impb) (w ! 2), drop_bit impb (w ! 2) OR push_bit (64 - impb) (w ! 3),
     drop_bit impb (w ! 3) OR push_bit (64 - impb) (w ! 4), drop_bit impb (w ! 4) OR push_bit (64 - impb) (w ! 5),
     drop_bit impb (w ! 5) OR push_bit (64 - impb) (w ! 6), p0, p1] = w" (is "impb_unpack _ _ (?e0 # ?r) = _")
proof -
  have w0: "pw0_word0 impb ?e0 bucket = w ! 0"
    by (rule packed_word0_back [OF _ assms(3,4)]) (use assms(2,3) in \<open>auto simp: record_bits ac_simps\<close>)
  have w1: "drop_bit (64 - impb) ?e0 OR push_bit impb (drop_bit impb (w ! 1) OR push_bit (64 - impb) (w ! 2)) = w ! 1" (is "?l = _")
  proof (rule bit_word_eqI)
    fix n :: nat assume n: "n < LENGTH(64)"
    have "\<not> bit (w ! 0) (64 + n)" using bit_imp_le_length [of "w ! 0" "64 + n"] by auto
    then show "bit ?l n = bit (w ! 1) n" using n assms(2,3) by (cases "n < impb") (auto simp: record_bits ac_simps)
  qed
  have w6: "drop_bit (64 - impb) (drop_bit impb (w ! 5) OR push_bit (64 - impb) (w ! 6)) AND 0xFFFF = w ! 6" (is "?l = _")
  proof (rule bit_word_eqI)
    fix n :: nat assume n: "n < LENGTH(64)"
    have "\<not> bit (w ! 5) (n + 64)" using bit_imp_le_length [of "w ! 5" "n + 64"] by auto
    moreover have m: "(0xFFFF :: u64) = mask 16" by (simp add: mask_eq_exp_minus_1)
    ultimately show "bit ?l n = bit (w ! 6) n" using n assms(2,3) assms(5) [of n] unfolding m by (cases "16 \<le> n") (auto simp: bit_simps ac_simps)
  qed
  have i: "impb \<le> 64" using assms(3) by simp
  have e: "impb_unpack impb bucket (a # b # c # d # e # f # q) = [pw0_word0 impb a bucket, drop_bit (64 - impb) a OR push_bit impb b,
    drop_bit (64 - impb) b OR push_bit impb c, drop_bit (64 - impb) c OR push_bit impb d, drop_bit (64 - impb) d OR push_bit impb e,
    drop_bit (64 - impb) e OR push_bit impb f, drop_bit (64 - impb) f AND 0xFFFF]" for a b c d e f q
    by (simp add: impb_unpack_def nth_Cons' One_nat_def)
  show ?thesis unfolding e w0 w1 w6 shifted_pair [OF i] by (rule seven [OF assms(1), symmetric])
qed

lemma len64: "LENGTH(64) = 64"
  by simp

lemma node2_top: "16 \<le> n \<Longrightarrow> \<not> bit (elem_w (node p 2 l) ! 6) n"
proof (cases "n < 64")
  case True
  assume n: "16 \<le> n"
  define c where "c = combine (node p 1 (take 2 l)) (node p 1 (drop 2 l)) 400"
  have e: "elem_w (node p 2 l) ! 6 = elem_w c ! 6" unfolding node_levels(2) c_def by (rule mix_hi) simp
  have "bits_at (elem_w c) (n + 6 * 64) = bit (elem_w c ! 6) n"
  proof -
    have "(n + 6 * 64) div 64 = 6" using True by linarith
    moreover have "(n + 6 * 64) mod 64 = n" unfolding mod_mult_self1 using True by (rule mod_less)
    ultimately show ?thesis by (simp only: bits_at_def len64)
  qed
  moreover have "\<not> bits_at (elem_w c) (n + 6 * 64)" unfolding c_def using n True by (simp add: combine_bits)
  ultimately show ?thesis unfolding e by simp
next
  case False
  then show ?thesis using bit_imp_le_length [of "elem_w (node p 2 l) ! 6" n] by auto
qed

lemma stage_packed:
  assumes "length l = 4" "list_all (fits 25) l" "fits 26 gi" "16 \<le> impb" "impb \<le> 24"
    "bucket = drop_bit (24 - impb) (rec_key (elem_w (node p 2 l) ! 0))"
  shows "stands p 2 l (stage_words (LM_EMIT_IMPB impb) p bucket slot (emit_words (LM_EMIT_IMPB impb) (node p 2 l) l gi hint))"
proof -
  have n: "[a, b, c, d, e, f, x, y] ! 6 = x" "[a, b, c, d, e, f, x, y] ! 7 = y" for a b c d e f x y :: u64 by simp_all
  have s: "(1 :: nat) + 1 = 2" "(2 :: nat) + 1 = 3" "(3 :: nat) + 1 = 4" "(4 :: nat) + 1 = 5" "(5 :: nat) + 1 = 6" by simp_all
  show ?thesis
    by (intro standsI)
      (simp_all only: stage_words.simps emit_words.simps Let_def selem.simps n s r3_leaves [OF assms(1-3)] four [OF assms(1), symmetric]
        impb_words [OF node_words assms(4-6) node2_top])
qed

text \<open>Round 3's record of words: five words and the lower 56 bits of the fifth.\<close>

lemma stage_use:
  assumes "length l = 8" "list_all (fits 25) l" "fits 26 gi" "fits 17 hint"
  shows "stands p 3 l (stage_words LM_USE p bucket slot (emit_words LM_USE (node p 3 l) l gi hint))"
proof -
  let ?w = "elem_w (node p 3 l)" and ?s = "stage_words LM_USE p bucket slot (emit_words LM_USE (node p 3 l) l gi hint)"
  have n: "[a, b, c, d, e, f, x] ! 5 = f" "[a, b, c, d, e, f, x] ! 6 = x" "take 5 [a, b, c, d, e, f, x] = [a, b, c, d, e]" for a b c d e f x :: u64
    by simp_all
  have w: "se_w ?s = [?w ! 0, ?w ! 1, ?w ! 2, ?w ! 3, r3o_w4 (?w ! 4) hint, 0, 0]" by (simp add: n)
  have "fits 25 (l ! 0)" using assms(1,2) by (simp add: list_all_length)
  then have lead: "se_lead ?s = l ! 0" by (simp add: n r3o_fields(1) [OF _ assms(3,4)])
  have "bits_at (se_w ?s) m = bits_at ?w m" if "24 \<le> m" "m < 312" for m
  proof -
    have d: "m div 64 \<le> 4" using that(2) by linarith
    show ?thesis
    proof (cases "m div 64 = 4")
      case True
      then have "m mod 64 < 56" using that(2) by presburger
      then show ?thesis using True by (simp add: bits_at_def w r3o_w4_def record_bits)
    next
      case False
      with d have "m div 64 = 0 \<or> m div 64 = 1 \<or> m div 64 = 2 \<or> m div 64 = 3" by linarith
      then show ?thesis by (auto simp: bits_at_def w)
    qed
  qed
  then show ?thesis
    unfolding stands_def lead by (simp add: round_Lout_def w) (simp add: n halves_word)
qed

lemma stage_octo:
  assumes "length l = 8" "list_all (fits 25) l"
  shows "stands p 3 l (stage_words LM_RD4 p bucket slot (emit_words LM_RD4 (node p 3 l) l gi hint))"
proof -
  let ?w = "elem_w (node p 3 l)" and ?s = "stage_words LM_RD4 p bucket slot (emit_words LM_RD4 (node p 3 l) l gi hint)"
  have n: "[a, b, c, d] ! 3 = d" "[a, b, c, d] ! 2 = c" for a b c d :: u64 by simp_all
  note f = ow0_fields [OF assms(2,1), of "?w ! 0"]
  have w: "se_w ?s = (ow0_word0 (ow0_w0 (?w ! 0) l) # map ((!) ?w) [1..<7])[6 := 0]"
    by (simp add: n f Let_def rebuild_r4_lane_words rebuild_r4_node [OF assms(1)])
  have lead: "se_lead ?s = l ! 0" by (simp add: n f Let_def)
  have hi: "drop_bit 24 (ow0_word0 (ow0_w0 (?w ! 0) l)) = drop_bit 24 (?w ! 0)" by (rule ow0_word0_back)
  have "bits_at (se_w ?s) m = bits_at ?w m" if "24 \<le> m" "m < 312" for m
  proof (cases "m < 64")
    case True
    then show ?thesis using arg_cong [OF hi, of "\<lambda>x. bit x (m - 24)"] that unfolding w by (simp add: bits_at_def bit_drop_bit_eq)
  next
    case False
    then have "0 < m div 64" "m div 64 \<le> 4" using that(2) by (simp_all add: div_greater_zero_iff)
    then show ?thesis unfolding w by (simp add: bits_at_def nth_Cons')
  qed
  moreover have "take_bit 10 (se_w ?s ! 0) = take_bit 10 (?w ! 0)" unfolding w by (simp add: ow0_word0_back)
  moreover have "push_bit 32 (ucast (se_leaf ?s ! 1)) OR ucast (se_leaf ?s ! 0) = octo_contrib l" by (simp add: n f Let_def halves_word)
  moreover have "24 + unat (round_Lout (Suc 3)) = 312" by (simp add: round_Lout_def)
  ultimately show ?thesis unfolding stands_def lead by (simp del: stage_words.simps emit_words.simps)
qed


section \<open>Through a round\<close>

text \<open>The template arguments of the rounds: the bits that \<open>combine\<close> leaves and the number of leaves mixed in.\<close>

definition round_args :: "nat \<Rightarrow> u32 \<times> u32" where
  "round_args d = [(424, 2), (400, 4), (376, 6), (288, 9)] ! d"

text \<open>What a form asks: the bits of the key that it leaves out are those of the bucket.\<close>

definition form_ok :: "form \<Rightarrow> u32 \<Rightarrow> u64 \<Rightarrow> bool" where
  "form_ok f bucket w =
    (case f of LM_RD2_W0 impb \<Rightarrow> 12 \<le> impb \<and> impb \<le> 24 \<and> bucket = drop_bit (24 - impb) (rec_key w)
     | LM_EMIT_IMPB impb \<Rightarrow> 16 \<le> impb \<and> impb \<le> 24 \<and> bucket = drop_bit (24 - impb) (rec_key w)
     | _ \<Rightarrow> True)"

lemma stage_stands:
  assumes "length l = 2 ^ form_level f" "list_all (fits 25) l" "fits 26 gi" "fits 17 hint" "form_ok f bucket (elem_w (node p (form_level f) l) ! 0)"
  shows "stands p (form_level f) l (stage_words f p bucket slot (emit_words f (node p (form_level f) l) l gi hint))"
proof (cases f)
  case LM_SEED
  show ?thesis unfolding LM_SEED form_level.simps by (rule stage_seed) (use assms LM_SEED in simp_all)
next
  case LM_RD2
  show ?thesis unfolding LM_RD2 form_level.simps by (rule stage_pair) (use assms LM_RD2 in simp_all)
next
  case (LM_RD2_W0 impb)
  show ?thesis unfolding LM_RD2_W0 form_level.simps by (rule stage_pair_w0) (use assms LM_RD2_W0 in \<open>simp_all add: form_ok_def\<close>)
next
  case LM_EMIT
  show ?thesis unfolding LM_EMIT form_level.simps by (rule stage_full) (use assms LM_EMIT in simp_all)
next
  case (LM_EMIT_IMPB impb)
  show ?thesis unfolding LM_EMIT_IMPB form_level.simps by (rule stage_packed) (use assms LM_EMIT_IMPB in \<open>simp_all add: form_ok_def\<close>)
next
  case LM_RD3_W0
  show ?thesis unfolding LM_RD3_W0 form_level.simps by (rule stage_quad_w0) (use assms LM_RD3_W0 in simp_all)
next
  case LM_RD3_16
  show ?thesis unfolding LM_RD3_16 form_level.simps by (rule stage_quad16) (use assms LM_RD3_16 in simp_all)
next
  case LM_USE
  show ?thesis unfolding LM_USE form_level.simps by (rule stage_use) (use assms LM_USE in simp_all)
next
  case LM_RD4
  show ?thesis unfolding LM_RD4 form_level.simps by (rule stage_octo) (use assms LM_RD4 in simp_all)
qed

text \<open>The combination depends on the bits it reads.\<close>

lemma combine_cong:
  assumes "\<And>n. 24 \<le> n \<Longrightarrow> n < 24 + unat L \<Longrightarrow> bits_at (elem_w a) n = bits_at (elem_w a') n"
    "\<And>n. 24 \<le> n \<Longrightarrow> n < 24 + unat L \<Longrightarrow> bits_at (elem_w b) n = bits_at (elem_w b') n"
  shows "combine a b L = combine a' b' L"
proof -
  have "elem_w (combine a b L) = elem_w (combine a' b' L)"
  proof (rule bits_at_ext)
    show "length (elem_w (combine a b L)) = length (elem_w (combine a' b' L))" using wf_combine by (simp add: wf_elem_def)
    fix n assume "n < length (elem_w (combine a b L)) * LENGTH(64)"
    then have "n < 448" using wf_combine [of a b L] by (simp add: wf_elem_def kWorkWords_def)
    then show "bits_at (elem_w (combine a b L)) n = bits_at (elem_w (combine a' b' L)) n"
      using assms [of "n + 24"] by (auto simp: combine_bits)
  qed
  then show ?thesis by simp
qed

lemma combine_stands:
  assumes "stands p d la a" "stands p d lb b"
  shows "combine \<lparr>elem_w = se_w a\<rparr> \<lparr>elem_w = se_w b\<rparr> (round_Lout (Suc d)) = combine (node p d la) (node p d lb) (round_Lout (Suc d))"
  by (rule combine_cong) (use assms in \<open>simp_all add: stands_def\<close>)

lemma stands_order:
  assumes "stands p d la a" "stands p d lb b" "la ! 0 < lb ! 0"
  shows "left_right a b = (a, b)" "left_right b a = (a, b)"
  using assms by (auto simp: stands_def left_right_def)

lemma mixed_node:
  assumes "d < 3" "length la = 2 ^ d" "length lb = 2 ^ d"
  shows "apply_mix (combine (node p d la) (node p d lb) (fst (round_args d))) (la @ lb) (snd (round_args d)) (fst (round_args d)) =
    node p (Suc d) (la @ lb)"
proof -
  have "mix_padnum 8 376 = mix_padnum 6 376" by (simp add: mix_padnum_def)
  note p = apply_mix_padded [OF this]
  consider "d = 0" | "d = 1" | "d = 2" using assms(1) by linarith
  then show ?thesis
  proof cases
    case 1
    have "length (la @ lb) = 2" using assms 1 by simp
    with assms 1 show ?thesis using node_levels(1) [of p "la @ lb"] by (simp add: round_args_def One_nat_def)
  next
    case 2
    with assms show ?thesis using node_levels(2) [of p "la @ lb"] by (simp add: round_args_def numeral_2_eq_2 [symmetric])
  next
    case 3
    have s: "Suc 2 = 3" by simp
    have "take 4 (la @ lb) = la" "drop 4 (la @ lb) = lb" using assms 3 by simp_all
    with 3 show ?thesis using node_levels(3) [of p "la @ lb"] p by (simp add: round_args_def s)
  qed
qed

text \<open>
  C36: A round computes the tree. In every record form: two elements written for the trees over two lists of
  seed indices, read back in the bucket they were filed in, have as their child, whichever of them comes
  first, the element of the joined tree, mixed over its leaves in tree order; in round 4 the child's word 0 and lead are
  those of the sixteen-leaf tree, although the record of its parents no longer holds their words or no
  longer holds their leaves.
\<close>
theorem round_follows_tree:
  assumes "length la = 2 ^ form_level f" "length lb = 2 ^ form_level f" "list_all (fits 25) (la @ lb)" "la ! 0 < lb ! 0"
    and "form_ok f bucket (elem_w (node p (form_level f) la) ! 0)" "form_ok f bucket (elem_w (node p (form_level f) lb) ! 0)"
    and "fits 26 ga" "fits 26 gb" "fits 17 ha" "fits 17 hb"
    and "a = stage_words f p bucket sa (emit_words f (node p (form_level f) la) la ga ha)"
    and "b = stage_words f p bucket sb (emit_words f (node p (form_level f) lb) lb gb hb)"
  shows "if form_level f = 3
    then child_split a b = (elem_w (node p 4 (la @ lb)) ! 0, la ! 0) \<and> child_split b a = child_split a b
    else child_mix (fst (round_args (form_level f))) (snd (round_args (form_level f))) a b = (node p (Suc (form_level f)) (la @ lb), la @ lb) \<and>
      child_mix (fst (round_args (form_level f))) (snd (round_args (form_level f))) b a =
      child_mix (fst (round_args (form_level f))) (snd (round_args (form_level f))) a b"
proof -
  let ?d = "form_level f"
  have la: "list_all (fits 25) la" and lb: "list_all (fits 25) lb" using assms(3) by simp_all
  have a: "stands p ?d la a" unfolding assms(11) by (rule stage_stands) (use assms la in simp_all)
  have b: "stands p ?d lb b" unfolding assms(12) by (rule stage_stands) (use assms lb in simp_all)
  note o = stands_order [OF a b assms(4)] and c = combine_stands [OF a b]
  show ?thesis
  proof (cases "?d = 3")
    case True
    have len: "length la = 8" "length lb = 8" using assms(1,2) True by simp_all
    have "split_mix (combine (node p 3 la) (node p 3 lb) 288) (lb ! 0) (octo_contrib la) =
        elem_w (apply_mix (combine (node p 3 la) (node p 3 lb) 288) (la @ lb) 16 288) ! 0"
      by (rule split_mix_word [OF wf_combine combine_top len]) (use assms(3) in \<open>auto simp: list_all_iff fits_def\<close>)
    also have "\<dots> = elem_w (node p 4 (la @ lb)) ! 0" unfolding node_levels(4) using len by simp
    finally have "child_split a b = (elem_w (node p 4 (la @ lb)) ! 0, la ! 0)"
      using a b c True by (simp add: child_split_def o stands_def round_Lout_def)
    then show ?thesis using True o by (simp add: child_split_def)
  next
    case False
    then have d: "?d < 3" by (cases f) simp_all
    have L: "round_Lout (Suc ?d) = fst (round_args ?d)"
      using d by (cases "?d"; simp add: round_args_def round_Lout_def; cases "?d - 1"; simp)
    have "child_mix (fst (round_args ?d)) (snd (round_args ?d)) a b = (node p (Suc ?d) (la @ lb), la @ lb)"
      using a b c [unfolded L] d mixed_node [OF d assms(1,2), of p] by (simp add: child_mix_def o stands_def Let_def)
    then show ?thesis using False o by (simp add: child_mix_def)
  qed
qed


theorem round_follows_tree_witness:
  "child_mix 376 6
     (stage_words LM_EMIT [1, 2, 3, 4] 0 7 (emit_words LM_EMIT (node [1, 2, 3, 4] 2 [11, 12, 13, 14]) [11, 12, 13, 14] 5 0))
     (stage_words LM_EMIT [1, 2, 3, 4] 0 8 (emit_words LM_EMIT (node [1, 2, 3, 4] 2 [15, 16, 17, 18]) [15, 16, 17, 18] 6 0)) =
   (node [1, 2, 3, 4] 3 [11, 12, 13, 14, 15, 16, 17, 18], [11, 12, 13, 14, 15, 16, 17, 18])"
  using round_follows_tree [of "[11, 12, 13, 14]" LM_EMIT "[15, 16, 17, 18]" 0 "[1, 2, 3, 4]" 5 6 0 0, OF _ _ _ _ _ _ _ _ _ _ refl refl]
  by (simp add: fits_def form_ok_def round_args_def del: stage_words.simps emit_words.simps)

declare One_nat_def [simp]

end
