(* ===== verification/Recover.thy ===== *)
theory Recover
  imports Stages
begin

text \<open>
  How the indices of a survivor are recovered on the device (kernels/cuda/pipeline_kernels.cuh): by walking the
  reference rows from round 5 down with a stack of eight, or from the records of round 3 or round 2 that
  hold the leaves. Shown: each walk returns, stays within its stack, and gives the 32 leaves in tree order.
\<close>

unbundle bit_operations_syntax

section \<open>The walk of the rows\<close>

text \<open>
  The two rows of references, one entry for each child of a round; those of round \<open>lv\<close> start at \<open>(lv - 1) * capacity\<close>.
  The entries of round 1 are seed indices. Writing past the stack's eight entries has no result.
\<close>

record rows =
  rw_left :: "nat \<Rightarrow> u32"
  rw_right :: "nat \<Rightarrow> u32"

partial_function (option) walk_rows :: "nat \<Rightarrow> rows \<Rightarrow> nat \<Rightarrow> (nat \<times> u32) list \<Rightarrow> u32 list \<Rightarrow> u32 list option" where
  "walk_rows capacity rw lim st out =
    (if st = [] \<or> length out \<ge> lim then Some out
     else let (lv, sl) = hd st; st = tl st; off = (lv - 1) * capacity;
              l = rw_left rw (off + unat sl); r = rw_right rw (off + unat sl)
          in if lv = 1 then walk_rows capacity rw lim st (if length out + 1 < lim then out @ [l, r] else out @ [l])
             else if length st + 2 > 8 then None
             else walk_rows capacity rw lim ((lv - 1, l) # (lv - 1, r) # st) out)"

definition recover :: "nat \<Rightarrow> rows \<Rightarrow> u32 \<Rightarrow> u32 list option" where
  "recover capacity rw s5 = walk_rows capacity rw 32 [(5, s5)] []"

text \<open>On an octo rung: two rows, and round 3's records by slot, four words each.\<close>

definition octo_leaves_at :: "(nat \<Rightarrow> u64) \<Rightarrow> nat \<Rightarrow> u32 \<Rightarrow> u32 list" where
  "octo_leaves_at r3 stride s = (let b = unat s * stride in ow0_leaves (r3 b) (r3 (b + 1)) (r3 (b + 2)) (r3 (b + 3)))"

definition recover_octo :: "nat \<Rightarrow> rows \<Rightarrow> (nat \<Rightarrow> u64) \<Rightarrow> nat \<Rightarrow> u32 \<Rightarrow> u32 list" where
  "recover_octo capacity rw r3 stride s5 =
    (let g4 = [rw_left rw (capacity + unat s5), rw_right rw (capacity + unat s5)]
     in take 32 (concat (map (\<lambda>g. concat (map (octo_leaves_at r3 stride) [rw_left rw (unat g), rw_right rw (unat g)])) g4)))"

section \<open>From the replayed ancestors\<close>

definition no_slot :: u32 where "no_slot = 0xFFFFFFFF"

text \<open>
  The replays name the survivor's four round-3 or eight round-2 ancestors by slot, or leave a mark where they
  found no pair; the two halves are put in the order of their leads.
\<close>

definition half_flip :: "u32 \<times> u32 \<Rightarrow> nat \<Rightarrow> nat" where
  "half_flip lead n = (if snd lead < fst lead then n else 0)"

text \<open>The ancestor in place \<open>k\<close>: the halves change places where the flip bit is set.\<close>

definition flipped :: "nat \<Rightarrow> nat \<Rightarrow> nat" where
  "flipped flip k = k XOR flip"

fun l3_loop :: "nat \<Rightarrow> rows \<Rightarrow> (nat \<Rightarrow> u64) \<Rightarrow> nat \<Rightarrow> (nat \<Rightarrow> u32) \<Rightarrow> nat \<Rightarrow> nat \<Rightarrow> nat list \<Rightarrow> u32 list \<Rightarrow> u32 list option" where
  "l3_loop capacity rw r3 stride slots base flip [] out = Some out"
| "l3_loop capacity rw r3 stride slots base flip (k0 # ks) out =
    (let sr = slots (base + flipped flip k0)
     in if sr = no_slot then l3_loop capacity rw r3 stride slots base flip ks (out @ replicate (min (8 * (k0 + 1)) 32 - length out) 0)
        else case walk_rows capacity rw 32 [(3, r3o_gi (r3 (unat sr * stride + 5)))] out of
               None \<Rightarrow> None
             | Some out \<Rightarrow> l3_loop capacity rw r3 stride slots base flip ks out)"

definition recover_from_l3 :: "nat \<Rightarrow> rows \<Rightarrow> (nat \<Rightarrow> u32) \<Rightarrow> u32 \<times> u32 \<Rightarrow> (nat \<Rightarrow> u64) \<Rightarrow> nat \<Rightarrow> nat \<Rightarrow> u32 list option" where
  "recover_from_l3 capacity rw l3_slots lead r3 stride i =
    l3_loop capacity rw r3 stride l3_slots (i * 4) (half_flip lead 2) [0..<4] []"

definition recover_from_l2 :: "(nat \<Rightarrow> u32) \<Rightarrow> u32 \<times> u32 \<Rightarrow> (nat \<Rightarrow> u64) \<Rightarrow> nat \<Rightarrow> nat \<Rightarrow> u32 list" where
  "recover_from_l2 l2_slots lead r2 stride i =
    concat (map (\<lambda>k0.
      let sr = l2_slots (i * 8 + flipped (half_flip lead 4) k0); d = unat sr * stride; p0 = r2 (d + 6); p1 = r2 (d + 7)
      in if sr = no_slot then replicate 4 0 else [r3_l0 p0, r3_l1 p0, r3_l2 p0 p1, r3_l3 p1]) [0..<8])"

section \<open>What the walks give\<close>

text \<open>The leaves below an entry of a row, in tree order.\<close>

fun row_leaves :: "nat \<Rightarrow> rows \<Rightarrow> nat \<Rightarrow> u32 \<Rightarrow> u32 list" where
  "row_leaves capacity rw 0 sl = [sl]"
| "row_leaves capacity rw (Suc d) sl =
    row_leaves capacity rw d (rw_left rw (d * capacity + unat sl)) @ row_leaves capacity rw d (rw_right rw (d * capacity + unat sl))"

lemma length_row_leaves [simp]: "length (row_leaves capacity rw d sl) = 2 ^ d"
  by (induction d arbitrary: sl) simp_all

lemma walk_rows_leaves:
  assumes "0 < lv" "length out + 2 ^ lv \<le> lim" "length st + lv \<le> 8"
  shows "walk_rows capacity rw lim ((lv, sl) # st) out = walk_rows capacity rw lim st (out @ row_leaves capacity rw lv sl)"
  using assms
proof (induction lv arbitrary: sl st out)
  case (Suc d)
  let ?l = "rw_left rw (d * capacity + unat sl)" and ?r = "rw_right rw (d * capacity + unat sl)"
  have lim: "length out < lim" using Suc.prems(2) by (metis add_lessD1 le_neq_implies_less less_add_same_cancel1 not_less zero_less_numeral zero_less_power)
  show ?case
  proof (cases d)
    case 0
    then have "length out + 1 < lim" using Suc.prems(2) by simp
    then show ?thesis using lim 0 by (subst walk_rows.simps) simp
  next
    case d: (Suc e)
    have "walk_rows capacity rw lim ((Suc d, sl) # st) out = walk_rows capacity rw lim ((d, ?l) # (d, ?r) # st) out"
      using lim d Suc.prems(3) by (subst walk_rows.simps) (simp add: Let_def)
    also have "\<dots> = walk_rows capacity rw lim ((d, ?r) # st) (out @ row_leaves capacity rw d ?l)"
      by (rule Suc.IH) (use d Suc.prems in simp_all)
    also have "\<dots> = walk_rows capacity rw lim st ((out @ row_leaves capacity rw d ?l) @ row_leaves capacity rw d ?r)"
      by (rule Suc.IH) (use d Suc.prems in simp_all)
    finally show ?thesis by simp
  qed
qed simp

lemma walk_rows_done: "walk_rows capacity rw lim [] out = Some out"
  by (subst walk_rows.simps) simp

text \<open>
  The walk of a survivor's references returns and gives its 32 leaves from left to right; the stack of
  eight entries is never overrun. The walk from the four round-3 ancestors that a replay names gives
  the leaves of each, the half with the smaller lead first, and zeros in place of an ancestor that was not found.
\<close>
theorem recovery_in_tree_order:
  "recover capacity rw s5 = Some (row_leaves capacity rw 5 s5) \<and>
   recover_from_l3 capacity rw slots lead r3 stride i =
     Some (concat (map (\<lambda>k. if slots (4 * i + k) = no_slot then replicate 8 0
                            else row_leaves capacity rw 3 (r3o_gi (r3 (unat (slots (4 * i + k)) * stride + 5))))
       (if snd lead < fst lead then [2, 3, 0, 1] else [0, 1, 2, 3])))"
proof
  show "recover capacity rw s5 = Some (row_leaves capacity rw 5 s5)"
    unfolding recover_def by (subst walk_rows_leaves) (simp_all add: walk_rows_done)
  let ?f = "\<lambda>k. if slots (4 * i + k) = no_slot then replicate 8 0
    else row_leaves capacity rw 3 (r3o_gi (r3 (unat (slots (4 * i + k)) * stride + 5)))"
  have step: "l3_loop capacity rw r3 stride slots (i * 4) flip (k0 # ks) out =
      l3_loop capacity rw r3 stride slots (i * 4) flip ks (out @ ?f (flipped flip k0))"
    if "length out = 8 * k0" "k0 < 4" for flip k0 ks out
  proof -
    have "walk_rows capacity rw 32 [(3, g)] out = Some (out @ row_leaves capacity rw 3 g)" for g
      by (subst walk_rows_leaves) (use that in \<open>simp_all add: walk_rows_done\<close>)
    moreover have "min (8 * (k0 + 1)) 32 - length out = 8" using that by simp
    ultimately show ?thesis by (simp add: mult.commute)
  qed
  have len: "length (?f k) = 8" for k by simp
  have fl: "flipped 2 0 = 2" "flipped 2 (Suc 0) = 3" "flipped 2 2 = 0" "flipped 2 3 = 1" "flipped 0 k = k" for k
    by (simp_all add: flipped_def)
  have four: "[0..<4] = [0, 1, 2, 3 :: nat]" by code_simp
  show "recover_from_l3 capacity rw slots lead r3 stride i =
     Some (concat (map ?f (if snd lead < fst lead then [2, 3, 0, 1] else [0, 1, 2, 3])))"
    unfolding recover_from_l3_def four half_flip_def
    by (simp add: step len fl del: l3_loop.simps(2))
qed


lemma unat_slot_step: "unat (sr :: u32) * stride + k = k + unat sr * stride"
  by simp

text \<open>
  Recovery from the records: where the slots that the references of rounds 5 and 4, or the replays,
  name hold the records that round 3 (with word 0) or round 2 (packed) wrote for four lists of eight or
  eight lists of four indices, what is recovered are the indices of those lists, in the order of the
  references, and after a replay with the half that has the smaller lead first.
\<close>
theorem records_recovered:
  assumes "\<forall>k < (4 :: nat). length (l8 k) = 8 \<and> list_all (fits 25) (l8 k)" "\<forall>k < (8 :: nat). length (l4 k) = 4 \<and> list_all (fits 25) (l4 k)"
    and "\<forall>k < (4 :: nat). \<forall>w < (4 :: nat). r3 (unat (s3 k) * 4 + w) = emit_words LM_RD4 (e3 k) (l8 k) 0 0 ! w"
    and "\<forall>k < (2 :: nat). rw_left rw (unat (g4 k)) = s3 (2 * k) \<and> rw_right rw (unat (g4 k)) = s3 (2 * k + 1)"
    and "rw_left rw (capacity + unat s5) = g4 0" "rw_right rw (capacity + unat s5) = g4 1"
    and "\<forall>k < (8 :: nat). slots (8 * i + k) \<noteq> no_slot \<and> (\<forall>w < 8. r2 (unat (slots (8 * i + k)) * 8 + w) = emit_words (LM_EMIT_IMPB impb) (e2 k) (l4 k) 0 0 ! w)"
  shows "recover_octo capacity rw r3 4 s5 = l8 0 @ l8 1 @ l8 2 @ l8 3 \<and>
    recover_from_l2 slots lead r2 8 i =
      concat (map l4 (if snd lead < fst lead then [4, 5, 6, 7, 0, 1, 2, 3] else [0, 1, 2, 3, 4, 5, 6, 7]))"
proof
  have o: "octo_leaves_at r3 4 (s3 k) = l8 k" if "k < 4" for k
  proof -
    have "r3 (unat (s3 k) * 4) = ow0_w0 (elem_w (e3 k) ! 0) (l8 k)" "r3 (unat (s3 k) * 4 + 1) = ow0_w1 (l8 k)"
      "r3 (unat (s3 k) * 4 + 2) = ow0_w2 (l8 k)" "r3 (unat (s3 k) * 4 + 3) = ow0_w3 (l8 k)"
      using assms(3) [rule_format, OF that, of 0] assms(3) [rule_format, OF that, of 1]
        assms(3) [rule_format, OF that, of 2] assms(3) [rule_format, OF that, of 3] by simp_all
    with assms(1) that show ?thesis by (simp add: octo_leaves_at_def Let_def ow0_fields)
  qed
  have g: "rw_left rw (unat (g4 0)) = s3 0" "rw_right rw (unat (g4 0)) = s3 1" "rw_left rw (unat (g4 1)) = s3 2" "rw_right rw (unat (g4 1)) = s3 3"
    using assms(4) [rule_format, of 0] assms(4) [rule_format, of 1] by simp_all
  have len: "length (l8 0) = 8" "length (l8 1) = 8" "length (l8 2) = 8" "length (l8 3) = 8" using assms(1) by simp_all
  show "recover_octo capacity rw r3 4 s5 = l8 0 @ l8 1 @ l8 2 @ l8 3"
    using assms(5,6) by (simp add: recover_octo_def g [simplified] o [simplified] len [simplified] Let_def)
  have q: "(let sr = slots (i * 8 + k); d = unat sr * 8; p0 = r2 (d + 6); p1 = r2 (d + 7)
      in if sr = no_slot then replicate 4 0 else [r3_l0 p0, r3_l1 p0, r3_l2 p0 p1, r3_l3 p1]) = l4 k" if "k < 8" for k
  proof -
    have n: "[a, b, c, d, e, f, x, y] ! 6 = x" "[a, b, c, d, e, f, x, y] ! 7 = y" for a b c d e f x y :: u64 by simp_all
    have r: "\<forall>w < 8. r2 (unat (slots (8 * i + k)) * 8 + w) = emit_words (LM_EMIT_IMPB impb) (e2 k) (l4 k) 0 0 ! w"
      and l: "length (l4 k) = 4" "list_all (fits 25) (l4 k)" and sl: "slots (8 * i + k) \<noteq> no_slot"
      using assms(2,7) that by simp_all
    have "r2 (unat (slots (8 * i + k)) * 8 + 6) = r3_p0 (l4 k ! 0) (l4 k ! 1) (l4 k ! 2)"
      "r2 (unat (slots (8 * i + k)) * 8 + 7) = r3_p1 (l4 k ! 2) (l4 k ! 3) 0"
      using r [rule_format, of 6] r [rule_format, of 7] by (simp_all only: emit_words.simps Let_def n)
    moreover have "fits 26 (0 :: u32)" by (simp add: fits_def)
    note r3_leaves [OF l this]
    ultimately have "r3_l0 (r2 (unat (slots (8 * i + k)) * 8 + 6)) = l4 k ! 0" "r3_l1 (r2 (unat (slots (8 * i + k)) * 8 + 6)) = l4 k ! 1"
      "r3_l2 (r2 (unat (slots (8 * i + k)) * 8 + 6)) (r2 (unat (slots (8 * i + k)) * 8 + 7)) = l4 k ! 2"
      "r3_l3 (r2 (unat (slots (8 * i + k)) * 8 + 7)) = l4 k ! 3" by (simp_all only:)
    with sl show ?thesis by (simp only: Let_def mult.commute [of i 8] if_False four [OF l(1), symmetric])
  qed
  show "recover_from_l2 slots lead r2 8 i =
      concat (map l4 (if snd lead < fst lead then [4, 5, 6, 7, 0, 1, 2, 3] else [0, 1, 2, 3, 4, 5, 6, 7]))"
  proof -
    have fl: "map (flipped 4) [0, 1, 2, 3, 4, 5, 6, 7] = [4, 5, 6, 7, 0, 1, 2, 3]" "map (flipped 0) ks = ks" for ks
      by (simp add: flipped_def) (rule map_idI, simp add: flipped_def)
    have e: "[0..<8] = [0, 1, 2, 3, 4, 5, 6, 7 :: nat]" by code_simp
    define G where "G = (\<lambda>k. let sr = slots (i * 8 + k); d = unat sr * 8; p0 = r2 (d + 6); p1 = r2 (d + 7)
      in if sr = no_slot then replicate 4 0 else [r3_l0 p0, r3_l1 p0, r3_l2 p0 p1, r3_l3 p1])"
    have "recover_from_l2 slots lead r2 8 i = concat (map (G \<circ> flipped (half_flip lead 4)) [0, 1, 2, 3, 4, 5, 6, 7])"
      unfolding recover_from_l2_def e G_def comp_def by (rule refl)
    also have "\<dots> = concat (map G (map (flipped (half_flip lead 4)) [0, 1, 2, 3, 4, 5, 6, 7]))"
      unfolding list.map_comp by (rule refl)
    also have "map (flipped (half_flip lead 4)) [0, 1, 2, 3, 4, 5, 6, 7] =
        (if snd lead < fst lead then [4, 5, 6, 7, 0, 1, 2, 3] else [0, 1, 2, 3, 4, 5, 6, 7])"
      unfolding half_flip_def by (cases "snd lead < fst lead") (simp_all only: if_True if_False fl)
    also have "concat (map G \<dots>) = concat (map l4 (if snd lead < fst lead then [4, 5, 6, 7, 0, 1, 2, 3] else [0, 1, 2, 3, 4, 5, 6, 7]))"
      by (rule arg_cong [of _ _ concat], rule map_cong [OF refl], unfold G_def, rule q) (auto split: if_splits)
    finally show ?thesis .
  qed
qed


theorem records_recovered_witness:
  "let seq = (\<lambda>n k. map (\<lambda>j. of_nat (n * k + j) :: u32) [0..<n]); e = (\<lambda>_ :: nat. \<lparr>elem_w = replicate 7 0\<rparr>);
       rw = \<lparr>rw_left = (\<lambda>a. if a = 100 then 10 else if a = 10 then 0 else 2), rw_right = (\<lambda>a. if a = 100 then 11 else if a = 10 then 1 else 3)\<rparr>
   in recover_octo 100 rw (\<lambda>a. emit_words LM_RD4 (e 0) (seq 8 (a div 4)) 0 0 ! (a mod 4)) 4 0 = map of_nat [0..<32] \<and>
     recover_from_l2 of_nat (5, 3) (\<lambda>a. emit_words (LM_EMIT_IMPB 16) (e 0) (seq 4 (a div 8)) 0 0 ! (a mod 8)) 8 0 = map of_nat ([16..<32] @ [0..<16])"
proof -
  define seq where "seq = (\<lambda>n k. map (\<lambda>j. of_nat (n * k + j) :: u32) [0..<n])"
  define e where "e = (\<lambda>_ :: nat. \<lparr>elem_w = replicate 7 (0 :: u64)\<rparr>)"
  define rw where "rw = \<lparr>rw_left = (\<lambda>a :: nat. if a = 100 then 10 else if a = 10 then 0 else 2 :: u32), rw_right = (\<lambda>a :: nat. if a = 100 then 11 else if a = 10 then 1 else 3 :: u32)\<rparr>"
  define r3 where "r3 = (\<lambda>a. emit_words LM_RD4 (e 0) (seq 8 (a div 4)) 0 0 ! (a mod 4))"
  define r2 where "r2 = (\<lambda>a. emit_words (LM_EMIT_IMPB 16) (e 0) (seq 4 (a div 8)) 0 0 ! (a mod 8))"
  have u: "unat (of_nat k :: u32) = k" if "k < 2 ^ 25" for k
    using that by (simp add: unsigned_of_nat take_bit_nat_eq_self)
  have l: "length (seq n k) = n \<and> list_all (fits 25) (seq n k)" if "n * k + n < 2 ^ 25" for n k
    using that u by (auto simp: seq_def list_all_iff fits_def simp del: of_nat_add of_nat_mult)
  have s: "of_nat k \<noteq> no_slot" if "k < 8" for k :: nat
  proof
    assume "of_nat k = no_slot"
    then have "unat (of_nat k :: u32) = unat no_slot" by simp
    with u [of k] that show False by (simp add: no_slot_def)
  qed
  have "recover_octo 100 rw r3 4 0 = seq 8 0 @ seq 8 1 @ seq 8 2 @ seq 8 3 \<and>
    recover_from_l2 of_nat (5, 3) r2 8 0 =
      concat (map (seq 4) (if snd (5 :: u32, 3 :: u32) < fst (5 :: u32, 3 :: u32) then [4, 5, 6, 7, 0, 1, 2, 3] else [0, 1, 2, 3, 4, 5, 6, 7]))"
  proof (rule records_recovered)
    show "\<forall>k < (4 :: nat). length (seq 8 k) = 8 \<and> list_all (fits 25) (seq 8 k)" "\<forall>k < (8 :: nat). length (seq 4 k) = 4 \<and> list_all (fits 25) (seq 4 k)"
      by (auto intro!: l [THEN conjunct1] l [THEN conjunct2])
    show "\<forall>k < (4 :: nat). \<forall>w < (4 :: nat). r3 (unat (of_nat k :: u32) * 4 + w) = emit_words LM_RD4 (e k) (seq 8 k) 0 0 ! w"
      by (simp add: u r3_def e_def del: emit_words.simps)
    show "\<forall>k < (2 :: nat). rw_left rw (unat ((\<lambda>k. of_nat (10 + k)) k :: u32)) = of_nat (2 * k) \<and> rw_right rw (unat ((\<lambda>k. of_nat (10 + k)) k :: u32)) = of_nat (2 * k + 1)"
      by (auto simp: rw_def less_2_cases_iff)
    show "\<forall>k < (8 :: nat). of_nat (8 * 0 + k) \<noteq> no_slot \<and>
        (\<forall>w < (8 :: nat). r2 (unat (of_nat (8 * 0 + k) :: u32) * 8 + w) = emit_words (LM_EMIT_IMPB 16) (e k) (seq 4 k) 0 0 ! w)"
      by (simp add: u s r2_def e_def del: emit_words.simps)
  qed (simp_all add: rw_def)
  moreover have "seq 8 0 @ seq 8 1 @ seq 8 2 @ seq 8 3 = map of_nat [0..<32]"
    "concat (map (seq 4) [4, 5, 6, 7, 0, 1, 2, 3]) = map of_nat ([16..<32] @ [0..<16])"
    by (simp_all add: seq_def upt_rec)
  ultimately show ?thesis unfolding Let_def seq_def [symmetric] e_def [symmetric] rw_def [symmetric] r3_def [symmetric] r2_def [symmetric] by simp
qed

end
