(* ===== verification/Spec2Isabelle.thy ===== *)
theory Spec2Isabelle
  imports BeamVerify Difficulty Geometry Stratum Rig Guards Devices Options Config Tune Launch Measure Http Console Rounds Recover
begin

text \<open>
  A verification development for MXBM, a miner for Beam's BeamHash III proof of work (C++, under
  src/). The miner keeps a stratum connection to a pool, hands the pool's jobs to one engine per
  graphics card, verifies on the CPU what a card's solver proposes, submits the shares that clear
  the pool's difficulty, spends a stated share of the time on a developer pool, and watches, tunes and
  reports on the cards. Programs are functions on explicit states; errors are values of a sum or an
  option; machine integers are words where their width matters; IEEE doubles are rationals rounded
  to 53 bits (\<open>Doubles\<close>). Sockets, clocks, drivers, SHA-256, BLAKE2b, the JSON library and the solvers of
  the cards are arguments: scripts of outcomes, functions, or records of operations with the laws they
  must satisfy.

  The theories, in the order of the code's dependencies:

  \<^item> \<open>Prelude\<close>, \<open>Doubles\<close>, \<open>Printf\<close>, \<open>Json\<close>: the shared lemmas on lists, bytes and words; the doubles with
    rounding; the conversions of the C library and of printf; JSON values.
  \<^item> \<open>BeamPrimitives\<close>, \<open>BeamVerify\<close> (src/beamhash): SipHash, the mixing and packing of indices, and the
    verifier. It accepts exactly the solution trees of an independent recursive specification.
  \<^item> \<open>Records\<close>, \<open>Stages\<close> (kernels/cuda/bh3_records.cuh, fused_round.cuh): the packed records of the CUDA
    rounds, what is rebuilt from them, and the child of two records in each of their forms: it is the element
    of the verifier's tree.
  \<^item> \<open>Search\<close>, \<open>Scatter\<close>, \<open>Rounds\<close>, \<open>Recover\<close> (kernels/cuda/fused_round.cuh, pipeline_kernels.cuh, the launches of
    src/gpu/cuda_solver.cu): how a block finds its colliding pairs, how records are filed in buckets and the
    pool behind them, the rounds of a solve, and the walk back to the indices of a survivor. The order of
    the threads is an argument everywhere; where no drop is counted, no solution is lost.
  \<^item> \<open>Difficulty\<close> (src/pow): the packed targets and the test of a share, equal to the rational test.
  \<^item> \<open>Budget\<close>, \<open>Geometry\<close> (src/gpu/budget.*, src/gpu/rowbucket_geom.*): how much memory a solve may
    use, and the ladder of bucket geometries with its first fit.
  \<^item> \<open>Stratum\<close> (src/stratum): messages, line transport over any chunking, and the client that redials and
    fails over; locales state what a client needs of a transport.
  \<^item> \<open>Stats\<close>, \<open>Engine\<close>, \<open>DevFee\<close>, \<open>Rig\<close> (src/miner/stats.*, engine.*, devfee.*, the callbacks of src/main.cpp):
    the counters, the worker as a step relation with the posts of other threads interleaved, the fee
    clock, router and scheduler, and their wiring.
  \<^item> \<open>Guards\<close> (src/miner/watchdog.*, thermal.*), \<open>Overclock\<close> (src/gpu/overclock.*), \<open>Devices\<close>
    (src/gpu/device_join.*, telemetry_window.*): what watches and sets the cards; restoring undoes
    what was applied, over any operations that satisfy the laws of a driver.
  \<^item> \<open>Options\<close>, \<open>Config\<close>, \<open>Format\<close> (src/cli/options.*, src/config/config.*, the columns of src/ui/format.*): the
    command line, the two formats of the configuration file, and which of them wins: the command line, but
    for the script of the watchdog.
  \<^item> \<open>Tune\<close> (src/miner/tune.*): the sweep over power limits, its verdict, and the store.
  \<^item> \<open>Launch\<close> (src/main.cpp, src/ui/keys.*, the geometry of src/gpu/cuda_solver.cu): from the options to the
    cards, their solvers, engines and rows, the settings applied before, the keys and the guards.
  \<^item> \<open>Measure\<close> (src/miner/benchmark.*, report.*, report_paths.cpp, user_paths.cpp): the benchmark over the
    engine, the report and its file.
  \<^item> \<open>Table\<close>, \<open>Console\<close> (src/ui/format.*, ticker.cpp, console.cpp): the statistics block in its three layouts,
    the lines and the transcript, the accepts a silenced console keeps for its speed line, the banner.
  \<^item> \<open>Http\<close> (src/api/http_summary.*): the server of the summary over what poll, accept and recv return, the
    framing of its responses, and the JSON of the statistics; the dashboard page is an argument.

  The properties that span components are here, the others beside their component; each stands
  after a text with its number. Loops of the code are structural recursions (over the script of
  outcomes where the code waits for the outside world: a run that outlives its script is \<open>None\<close>), recursions
  with a measure, or partial functions to an option where they need not end. Such is the search of the
  tuner for the caps between two neighbours; \<open>tuner_returns\<close> shows that the sweep returns on any driver's
  answers, given that each benchmark in it measures or throws. A benchmark needs one tick per solve, and
  \<open>benchmark_ends\<close> shows that it returns as soon as a tick is past the deadline or the stop flag is
  seen. What a benchmark throws leaves the tuner uncaught, past its restoring (\<open>exception_leaves_card\<close> of
  \<open>Tune\<close>).

  Not modelled: the rest of the device code and its hosts (the shared-memory layouts, launch shapes and probes of
  kernels/cuda, the replays that find a survivor's ancestors, the entry pass of the next nonce, kernels/opencl,
  cuda/, the memory and streams of src/gpu/cuda_solver.cu, src/gpu/round_pipeline.cpp, gpu_solver.cpp,
  cl_runtime.cpp, nvml.cpp and the Metal
  files), whose meaning is that of CUDA, OpenCL, Metal and NVML; what they return is an
  argument, and no candidate reaches a pool without passing the verifier that is modelled. Start and stop of
  threads, signal handlers, terminal modes, and the vendored libraries are left out as well.
\<close>

section \<open>From the pool's job to the pool that gets the share\<close>

text \<open>
  C2: A share goes back to the pool whose job it solves: whatever the two pools send and however the
  fee rounds switch the router, if the posts an engine sees are jobs the router dispatched, then every
  solution the engine submits carries the id of a job some pool sent, and it is sent to that pool and
  to no other, even when the round has ended while the solve was running.
\<close>
theorem shares_go_home:
  assumes "router_run xs router_new = (r, ds)"
    and "\<forall>j p pool. PostJob j p pool \<in> set ps \<longrightarrow> (j, p, pool) \<in> set ds"
    and "engine_run sha solve (engine_new lane lanes) ps evs w s" "SubmitSolution sol orig \<in> set evs"
    and "submit_fn sha huge now dev sol orig g = (g', out)"
  shows "{pool. SentTo pool sol \<in> set out} = {orig} \<and>
    (\<exists>t j p. Offer t j p orig \<in> set xs \<and> s_id sol = j_id j)"
proof -
  from submissions_keep_job [OF assms(3,4)] obtain j p
    where j: "PostJob j p orig \<in> set ps" "s_id sol = j_id j" by blast
  with assms(2) dispatched_was_offered [OF assms(1)] have "\<exists>t. Offer t j p orig \<in> set xs" by blast
  moreover from assms(5) have "{pool. SentTo pool sol \<in> set out} = {orig}"
    by (auto simp: submit_fn_def Let_def split: option.splits if_splits)
  ultimately show ?thesis using j(2) by blast
qed

theorem shares_go_home_witness:
  "let sol = solution_for demo_job [0xab,0,0,0,0,0,0,0] (replicate 104 0)
   in {pool. SentTo pool sol \<in> set (snd (submit_fn demo_sha 0 0 0 sol Main demo_rig))} = {Main} \<and>
     (\<exists>t j p. Offer t j p Main \<in> set [Offer 0 demo_job ''ab'' Main] \<and> s_id sol = j_id j)"
proof -
  from demo_solved obtain w s where run: "engine_run demo_sha demo_solve (engine_new 0 1) [PostJob demo_job ''ab'' Main]
   [Solve (replicate 32 0) [0xab,0,0,0,0,0,0,0], OnAttempt 1,
    SubmitSolution (solution_for demo_job [0xab,0,0,0,0,0,0,0] (replicate 104 0)) Main] w s" by blast
  have r: "router_run [Offer 0 demo_job ''ab'' Main] router_new =
      (fst (offer 0 demo_job ''ab'' Main router_new), [(demo_job, ''ab'', Main)])"
    by (simp add: offer_def router_new_def put_slot_def)
  show ?thesis unfolding Let_def
    by (rule shares_go_home [OF r _ run _ prod.collapse [symmetric]]) simp_all
qed

end
